(* ===== verification/Prelude.thy ===== *)
theory Prelude
  imports Main "HOL-Library.Word" "HOL-Library.Product_Lexorder" "HOL-Library.Multiset"
    "HOL-Library.While_Combinator" "HOL-Library.Monad_Syntax"
begin

text \<open>
  Shared vocabulary of the development: the error and outcome types every component uses, the
  machine-integer types of the Rust sources, the lemma collections that carry the component
  proofs, and generic facts on lists, options and words.

  Conventions. A Rust function that can return \<^verbatim>\<open>anyhow::Result\<close> and that mutates state is a
  function into \<open>(state \<times> (anyhow + 'a)) option\<close>: \<open>None\<close> is a panic (index out of range,
  a failed \<^verbatim>\<open>expect\<close>), and the state after an \<^verbatim>\<open>Err\<close> is kept because the callers go on using
  it. Unsigned arithmetic wraps, as in the crate's release profile (which does not turn
  overflow checks on); every theorem that relies on the absence of overflow says so.
\<close>

section \<open>Machine integers\<close>

type_synonym u8 = "8 word"
type_synonym u32 = "32 word"
type_synonym u64 = "64 word"
type_synonym u128 = "128 word"

text \<open>A signed 64-bit integer is its two's complement bit pattern, read by \<open>sint\<close>.\<close>

type_synonym i64 = "64 word"
type_synonym i32 = "32 word"

definition i64_max :: i64 where
  "i64_max = 0x7FFFFFFFFFFFFFFF"

text \<open>\<^verbatim>\<open>u64::saturating_sub\<close> and \<^verbatim>\<open>u64::saturating_add\<close>.\<close>

definition saturating_sub :: "'a::len word \<Rightarrow> 'a word \<Rightarrow> 'a word" where
  "saturating_sub a b = (if b \<le> a then a - b else 0)"

definition saturating_add :: "'a::len word \<Rightarrow> 'a word \<Rightarrow> 'a word" where
  "saturating_add a b = (if unat a + unat b < 2 ^ LENGTH('a) then a + b else - 1)"

section \<open>Errors\<close>

text \<open>
  \<^verbatim>\<open>anyhow::Error\<close>: a root message and the contexts attached to it. The engine's own context
  strings are kept as structure (the phase and the node index they name).
\<close>

datatype anyhow =
    Anyhow string
  | ErrorContext string anyhow      \<comment> \<open>\<^verbatim>\<open>Context::context\<close>\<close>
  | ErrorDuring string nat anyhow   \<comment> \<open>"Error during {desc} in node [{ix}]"\<close>
  | ErrorInNode nat anyhow          \<comment> \<open>"Error in node [{index}]"\<close>
  | ShutdownErrors anyhow "anyhow list" \<comment> \<open>primary error with the later ones attached\<close>
  | CycleDetected nat               \<comment> \<open>"cycle detected in graph wiring"\<close>

section \<open>Allocations\<close>

text \<open>
  \<^verbatim>\<open>Vec::with_capacity\<close> and \<^verbatim>\<open>VecDeque::with_capacity\<close> for elements of \<open>elem_size\<close> bytes: a capacity
  of more than \<^verbatim>\<open>isize::MAX\<close> bytes is a panic. That the machine runs out of memory is not modelled.
\<close>

definition vec_with_capacity :: "nat \<Rightarrow> nat \<Rightarrow> 'a list option" where
  "vec_with_capacity elem_size capacity = (if elem_size * capacity < 2 ^ 63 then Some [] else None)"

lemma vec_with_capacity_Some [simp]: "vec_with_capacity elem_size capacity = Some xs \<longleftrightarrow> elem_size * capacity < 2 ^ 63 \<and> xs = []"
  by (auto simp: vec_with_capacity_def)

lemma vec_with_capacity_None [simp]: "vec_with_capacity elem_size capacity = None \<longleftrightarrow> 2 ^ 63 \<le> elem_size * capacity"
  by (auto simp: vec_with_capacity_def)

section \<open>Lemma collections\<close>

named_theorems frame_simps \<open>fields an operation does not write\<close>
named_theorems wf_intros \<open>preservation of a component invariant by one operation\<close>

section \<open>Lists\<close>

lemma nth_list_update_if:
  "i < length xs \<Longrightarrow> xs[i := v] ! j = (if i = j then v else xs ! j)"
  by auto

lemma takeWhile_dropWhile_filter_sorted:
  assumes "sorted (map f xs)"
  shows "takeWhile (\<lambda>x. f x \<le> t) xs = filter (\<lambda>x. f x \<le> t) xs"
    and "dropWhile (\<lambda>x. f x \<le> t) xs = filter (\<lambda>x. \<not> f x \<le> t) xs"
proof -
  have "takeWhile (\<lambda>x. f x \<le> t) xs = filter (\<lambda>x. f x \<le> t) xs \<and>
        dropWhile (\<lambda>x. f x \<le> t) xs = filter (\<lambda>x. \<not> f x \<le> t) xs"
    using assms
  proof (induction xs)
    case Nil
    then show ?case by simp
  next
    case (Cons x xs)
    show ?case
    proof (cases "f x \<le> t")
      case True
      with Cons show ?thesis by simp
    next
      case False
      with Cons.prems have "\<forall>y \<in> set xs. \<not> f y \<le> t" by fastforce
      with False show ?thesis by (simp add: filter_empty_conv)
    qed
  qed
  then show "takeWhile (\<lambda>x. f x \<le> t) xs = filter (\<lambda>x. f x \<le> t) xs"
    and "dropWhile (\<lambda>x. f x \<le> t) xs = filter (\<lambda>x. \<not> f x \<le> t) xs" by simp_all
qed

lemma in_concat_nth:
  assumes "x \<in> set (concat xss)"
  obtains l where "l < length xss" "x \<in> set (xss ! l)"
  using assms by (metis UN_E in_set_conv_nth set_concat)

lemma set_concat_append_at:
  "l < length xss \<Longrightarrow> set (concat (xss[l := xss ! l @ [x]])) = insert x (set (concat xss))"
proof (induction xss arbitrary: l)
  case Nil
  then show ?case by simp
next
  case (Cons ys xss)
  then show ?case by (cases l) auto
qed

lemma sorted_wrt_concat_layers:
  assumes "\<And>l x. l < length xss \<Longrightarrow> x \<in> set (xss ! l) \<Longrightarrow> f x = l"
  shows "sorted (map f (concat xss))"
  using assms
proof (induction xss rule: rev_induct)
  case Nil
  then show ?case by simp
next
  case (snoc ys xss)
  have IH: "sorted (map f (concat xss))"
  proof (rule snoc.IH)
    fix l x assume "l < length xss" "x \<in> set (xss ! l)"
    with snoc.prems[of l x] show "f x = l" by (simp add: nth_append)
  qed
  have ys: "\<forall>y \<in> set ys. f y = length xss"
    using snoc.prems[of "length xss"] by simp
  have lo: "f x < length xss" if "x \<in> set (concat xss)" for x
  proof -
    from that obtain l where l: "l < length xss" "x \<in> set (xss ! l)"
      by (rule in_concat_nth)
    with snoc.prems[of l x] show ?thesis by (simp add: nth_append)
  qed
  have "sorted (map f ys)"
    using ys by (induction ys) auto
  with IH lo ys show ?case
    by (force simp: sorted_append)
qed

lemma distinct_concat_layers:
  assumes "\<And>l x. l < length xss \<Longrightarrow> x \<in> set (xss ! l) \<Longrightarrow> f x = l"
    and "\<And>l. l < length xss \<Longrightarrow> distinct (xss ! l)"
  shows "distinct (concat xss)"
  using assms
proof (induction xss rule: rev_induct)
  case Nil
  then show ?case by simp
next
  case (snoc ys xss)
  have "distinct (concat xss)"
  proof (rule snoc.IH)
    fix l x assume "l < length xss" "x \<in> set (xss ! l)"
    with snoc.prems(1)[of l x] show "f x = l" by (simp add: nth_append)
  next
    fix l assume "l < length xss"
    with snoc.prems(2)[of l] show "distinct (xss ! l)" by (simp add: nth_append)
  qed
  moreover have "distinct ys" using snoc.prems(2)[of "length xss"] by simp
  moreover have "set (concat xss) \<inter> set ys = {}"
  proof -
    have "f x < length xss" if "x \<in> set (concat xss)" for x
    proof -
      from that obtain l where "l < length xss" "x \<in> set (xss ! l)"
        by (rule in_concat_nth)
      with snoc.prems(1)[of l x] show ?thesis by (simp add: nth_append)
    qed
    moreover have "f y = length xss" if "y \<in> set ys" for y
      using snoc.prems(1)[of "length xss" y] that by simp
    ultimately show ?thesis by fastforce
  qed
  ultimately show ?case by auto
qed

section \<open>Words\<close>

lemma unat_Suc_no_wrap:
  fixes a :: "'a::len word"
  assumes "a < b"
  shows "unat (a + 1) = Suc (unat a)"
proof -
  have "unat a < unat b" using assms by (simp add: word_less_nat_alt)
  moreover have "unat b < 2 ^ LENGTH('a)" by (rule unsigned_less)
  ultimately have "Suc (unat a) < 2 ^ LENGTH('a)" by linarith
  then show ?thesis
    by (simp add: unat_word_ariths)
qed

lemma word_less_Suc_no_wrap:
  fixes a :: "'a::len word"
  assumes "a < b"
  shows "a < a + 1"
  using unat_Suc_no_wrap[OF assms] by (simp add: word_less_nat_alt)

section \<open>Loops that may panic\<close>

text \<open>
  \<open>while_ok b c\<close> runs \<open>c\<close> while \<open>b\<close> holds; \<open>None\<close> is a panic of an iteration or a loop
  that never ends.
\<close>

definition loop_test :: "('a \<Rightarrow> bool) \<Rightarrow> 'a option \<Rightarrow> bool" where
  "loop_test b m = (case m of None \<Rightarrow> False | Some y \<Rightarrow> b y)"

definition while_ok :: "('a \<Rightarrow> bool) \<Rightarrow> ('a \<Rightarrow> 'a option) \<Rightarrow> 'a \<Rightarrow> 'a option" where
  "while_ok b c x = Option.bind (while_option (loop_test b) (\<lambda>m. Option.bind m c) (Some x)) id"

lemma loop_test_simps [simp]: "loop_test b None = False" "loop_test b (Some y) = b y"
  by (simp_all add: loop_test_def)

lemma while_ok_total:
  assumes wf: "wf R" and init: "P x"
    and step: "\<And>y. P y \<Longrightarrow> b y \<Longrightarrow> \<exists>y'. c y = Some y' \<and> P y' \<and> (y', y) \<in> R"
  shows "\<exists>z. while_ok b c x = Some z \<and> P z \<and> \<not> b z"
proof -
  let ?P = "\<lambda>m. \<exists>y. m = Some y \<and> P y"
  let ?R = "inv_image R the"
  have "\<exists>m. while_option (loop_test b) (\<lambda>m. Option.bind m c) (Some x) = Some m"
  proof (rule wf_rel_while_option_Some[where P = ?P and R = ?R])
    show "wf ?R" using wf by (rule wf_inv_image)
  next
    fix m assume "?P m \<and> loop_test b m"
    then obtain y where "m = Some y" "P y" "b y" by auto
    with step[of y] show "(Option.bind m c, m) \<in> ?R" by auto
  next
    fix m assume "?P m \<and> loop_test b m"
    then obtain y where "m = Some y" "P y" "b y" by auto
    with step[of y] show "?P (Option.bind m c)" by auto
  qed (use init in simp)
  then obtain m where m: "while_option (loop_test b) (\<lambda>m. Option.bind m c) (Some x) = Some m" by blast
  have "?P m"
  proof (rule while_option_rule[where P = ?P, OF _ m])
    fix m assume "?P m" "loop_test b m"
    then obtain y where "m = Some y" "P y" "b y" by auto
    with step[of y] show "?P (Option.bind m c)" by auto
  qed (use init in simp)
  then obtain z where z: "m = Some z" "P z" by blast
  with while_option_stop[OF m] m show ?thesis by (auto simp: while_ok_def)
qed

lemma while_ok_diverges:
  assumes "P x" and "\<And>y. P y \<Longrightarrow> b y \<and> (\<exists>y'. c y = Some y' \<and> P y')"
  shows "while_option (loop_test b) (\<lambda>m. Option.bind m c) (Some x) = None"
proof -
  have "\<exists>y. ((\<lambda>m. Option.bind m c) ^^ k) (Some x) = Some y \<and> P y" for k
  proof (induction k)
    case 0
    then show ?case using assms(1) by simp
  next
    case (Suc k)
    then obtain y where "((\<lambda>m. Option.bind m c) ^^ k) (Some x) = Some y" "P y" by blast
    with assms(2)[of y] show ?case by auto
  qed
  then have "loop_test b (((\<lambda>m. Option.bind m c) ^^ k) (Some x))" for k
    using assms(2) by (metis loop_test_simps(2))
  then show ?thesis by (simp add: while_option_def)
qed

end
