(* ===== verification/Nano_Time.thy ===== *)
theory Nano_Time
  imports Prelude
begin

text \<open>
  \<^verbatim>\<open>src/wingfoil/src/time.rs\<close>: \<open>NanoTime\<close>, a \<^verbatim>\<open>u64\<close> count of nanoseconds since the unix
  epoch, with its conversions and arithmetic. The clock itself (\<^verbatim>\<open>NanoTime::now\<close>, a \<^verbatim>\<open>quanta\<close>
  reading) is an input of the definitions that read it; conversions through \<^verbatim>\<open>f64\<close> and
  \<^verbatim>\<open>chrono\<close> are not modelled.
\<close>

section \<open>The type and its order\<close>

datatype nanotime = NanoTime (raw: u64)

instantiation nanotime :: linorder
begin

definition less_eq_nanotime :: "nanotime \<Rightarrow> nanotime \<Rightarrow> bool" where
  "less_eq_nanotime a b \<longleftrightarrow> raw a \<le> raw b"

definition less_nanotime :: "nanotime \<Rightarrow> nanotime \<Rightarrow> bool" where
  "less_nanotime a b \<longleftrightarrow> raw a < raw b"

instance
  by standard (auto simp: less_eq_nanotime_def less_nanotime_def nanotime.expand)

end

lemma NanoTime_le [simp]: "NanoTime a \<le> NanoTime b \<longleftrightarrow> a \<le> b"
  by (simp add: less_eq_nanotime_def)

lemma NanoTime_less [simp]: "NanoTime a < NanoTime b \<longleftrightarrow> a < b"
  by (simp add: less_nanotime_def)

definition nano_zero :: nanotime where
  "nano_zero = NanoTime 0"

definition nano_max :: nanotime where
  "nano_max = NanoTime (- 1)"

lemma nano_zero_least [simp]: "nano_zero \<le> t"
  by (cases t) (simp add: nano_zero_def)

lemma nano_max_greatest [simp]: "t \<le> nano_max"
  by (cases t) (simp add: nano_max_def)

section \<open>Durations\<close>

text \<open>
  \<^verbatim>\<open>std::time::Duration\<close>: whole seconds and a sub-second part, which the standard library
  keeps below one second.
\<close>

record duration =
  dur_secs :: u64
  dur_subsec_nanos :: u32

definition nanos_per_second :: u64 where
  "nanos_per_second = 1000000000"

definition duration_wf :: "duration \<Rightarrow> bool" where
  "duration_wf d \<longleftrightarrow> dur_subsec_nanos d < 1000000000"

text \<open>\<^verbatim>\<open>Duration::as_nanos\<close> is a \<^verbatim>\<open>u128\<close>; the crate casts it to \<^verbatim>\<open>u64\<close>.\<close>

definition duration_as_nanos :: "duration \<Rightarrow> u128" where
  "duration_as_nanos d = ucast (dur_secs d) * 1000000000 + ucast (dur_subsec_nanos d)"

definition duration_from_nanos :: "u64 \<Rightarrow> duration" where
  "duration_from_nanos n =
     \<lparr>dur_secs = n div nanos_per_second, dur_subsec_nanos = ucast (n mod nanos_per_second)\<rparr>"

section \<open>Conversions\<close>

definition nano_from_u64 :: "u64 \<Rightarrow> nanotime" where
  "nano_from_u64 t = NanoTime t"

definition nano_from_u128 :: "u128 \<Rightarrow> nanotime" where
  "nano_from_u128 t = NanoTime (ucast t)"

definition nano_from_i64 :: "i64 \<Rightarrow> nanotime" where
  "nano_from_i64 t = NanoTime t"

definition nano_from_duration :: "duration \<Rightarrow> nanotime" where
  "nano_from_duration d =
     NanoTime (dur_secs d * nanos_per_second + ucast (dur_subsec_nanos d))"

definition duration_from_nano :: "nanotime \<Rightarrow> duration" where
  "duration_from_nano t = duration_from_nanos (raw t)"

definition kdb_epoch_offset_nanos :: i64 where
  "kdb_epoch_offset_nanos = 946684800000000000"

definition from_kdb_timestamp :: "i64 \<Rightarrow> nanotime" where
  "from_kdb_timestamp kdb_nanos = NanoTime (kdb_nanos + kdb_epoch_offset_nanos)"

definition to_kdb_timestamp :: "nanotime \<Rightarrow> i64" where
  "to_kdb_timestamp t =
     (if raw t = - 1 then i64_max else raw t - kdb_epoch_offset_nanos)"

section \<open>Arithmetic\<close>

definition nano_add :: "nanotime \<Rightarrow> nanotime \<Rightarrow> nanotime" where
  "nano_add a b = NanoTime (raw a + raw b)"

definition nano_add_raw :: "nanotime \<Rightarrow> u64 \<Rightarrow> nanotime" where
  "nano_add_raw a n = NanoTime (raw a + n)"

definition nano_add_duration :: "nanotime \<Rightarrow> duration \<Rightarrow> nanotime" where
  "nano_add_duration a d = NanoTime (raw a + ucast (duration_as_nanos d))"

definition nano_sub :: "nanotime \<Rightarrow> nanotime \<Rightarrow> nanotime" where
  "nano_sub a b = NanoTime (raw a - raw b)"

definition nano_mul_u32 :: "nanotime \<Rightarrow> u32 \<Rightarrow> nanotime" where
  "nano_mul_u32 a n = NanoTime (raw a * ucast n)"

definition nano_mul_i32 :: "nanotime \<Rightarrow> i32 \<Rightarrow> nanotime" where
  "nano_mul_i32 a n = NanoTime (raw a * scast n)"

definition nano_mul_u64 :: "nanotime \<Rightarrow> u64 \<Rightarrow> nanotime" where
  "nano_mul_u64 a n = NanoTime (raw a * n)"

definition nano_mul_i64 :: "nanotime \<Rightarrow> i64 \<Rightarrow> nanotime" where
  "nano_mul_i64 a n = NanoTime (raw a * n)"

lemmas nano_defs = nano_add_def nano_add_raw_def nano_sub_def nano_zero_def nano_max_def

section \<open>Lemmas\<close>

lemma nano_succ_greater: "t < u \<Longrightarrow> t < nano_add_raw t 1"
  by (cases t; cases u) (auto simp: nano_add_raw_def intro: word_less_Suc_no_wrap)

lemma nano_add_sub_cancel: "nano_sub (nano_add a b) b = a"
  by (cases a; cases b) (simp add: nano_defs)

lemma ucast_mul_add_down:
  "ucast (ucast a * (1000000000 :: u128) + ucast b) = (a * 1000000000 + ucast b :: u64)"
  for a :: u64 and b :: u32
proof -
  have "(word_of_int (uint (word_of_int x :: u128)) :: u64) = word_of_int x" for x
    by transfer (simp add: take_bit_take_bit min_def)
  from this[of "uint a * 1000000000 + uint b"]
  show ?thesis by (simp add: unsigned_ucast_eq flip: word_of_int_uint)
qed

lemma ucast_as_nanos:
  "ucast (duration_as_nanos d) = dur_secs d * nanos_per_second + (ucast (dur_subsec_nanos d) :: u64)"
  by (simp add: duration_as_nanos_def nanos_per_second_def ucast_mul_add_down)

lemma nanos_div_mod: "n div nanos_per_second * nanos_per_second + ucast (ucast (n mod nanos_per_second) :: u32) = n"
proof -
  have "unat (n mod nanos_per_second) < 2 ^ 32"
    by (simp add: nanos_per_second_def unat_mod_distrib)
  then have "ucast (ucast (n mod nanos_per_second) :: u32) = n mod nanos_per_second"
    by (intro word_unat_eq_iff[THEN iffD2])
      (simp add: unsigned_ucast_eq unsigned_take_bit_eq take_bit_nat_eq_self)
  then show ?thesis by (simp add: word_mod_div_equality)
qed

section \<open>Properties\<close>

text \<open>
  The conversions are inverse to each other: a \<^verbatim>\<open>NanoTime\<close> survives the way through
  \<^verbatim>\<open>Duration\<close> (whose sub-second part is then below one second), and a KDB timestamp survives
  the way through \<^verbatim>\<open>NanoTime\<close>, except the one that lands on \<^verbatim>\<open>NanoTime::MAX\<close>, which comes
  back as \<^verbatim>\<open>i64::MAX\<close>.
\<close>
lemma time_conversions_round_trip:
  "nano_from_duration (duration_from_nano t) = t \<and> duration_wf (duration_from_nano t) \<and>
   to_kdb_timestamp (from_kdb_timestamp k) = (if k = - 1 - kdb_epoch_offset_nanos then i64_max else k) \<and>
   (t \<noteq> nano_max \<longrightarrow> from_kdb_timestamp (to_kdb_timestamp t) = t)"
proof -
  have "nano_from_duration (duration_from_nano t) = t"
    using nanos_div_mod[of "raw t"]
    by (simp add: nano_from_duration_def duration_from_nano_def duration_from_nanos_def)
  moreover have "duration_wf (duration_from_nano t)"
  proof -
    have "unat (raw t) mod 1000000000 < (4294967296 :: nat)" by (rule less_trans[of _ 1000000000]) simp_all
    then have "unat (ucast (raw t mod nanos_per_second) :: u32) = unat (raw t) mod 1000000000"
      by (simp add: nanos_per_second_def unsigned_ucast_eq unat_mod_distrib take_bit_nat_eq_self)
    then show ?thesis
      by (simp add: duration_wf_def duration_from_nano_def duration_from_nanos_def word_less_nat_alt)
  qed
  moreover have "to_kdb_timestamp (from_kdb_timestamp k) = (if k = - 1 - kdb_epoch_offset_nanos then i64_max else k)"
    by (auto simp: to_kdb_timestamp_def from_kdb_timestamp_def eq_diff_eq)
  moreover have "t \<noteq> nano_max \<longrightarrow> from_kdb_timestamp (to_kdb_timestamp t) = t"
    by (cases t) (simp add: to_kdb_timestamp_def from_kdb_timestamp_def nano_max_def)
  ultimately show ?thesis by blast
qed

lemma time_conversions_round_trip_witness:
  "from_kdb_timestamp (to_kdb_timestamp (NanoTime 5)) = NanoTime 5"
  using time_conversions_round_trip[of "NanoTime 5" 0] by (simp add: nano_max_def)

end
