(* ===== verification/Time_Queue.thy ===== *)
theory Time_Queue
  imports Nano_Time
begin

text \<open>
  \<^verbatim>\<open>src/wingfoil/src/queue/time_queue.rs\<close> and \<^verbatim>\<open>value_at.rs\<close>: the time-ordered queue behind
  the scheduler, \<^verbatim>\<open>delay\<close>, \<^verbatim>\<open>feedback\<close> and \<^verbatim>\<open>CallBackStream\<close>. The standard library's
  \<^verbatim>\<open>BinaryHeap<Reverse<Entry>>\<close> is a list of entries in no particular order whose \<^verbatim>\<open>peek\<close> and
  \<^verbatim>\<open>pop\<close> find the least key. The payload's \<^verbatim>\<open>PartialEq\<close> is an argument of \<open>push\<close>: it
  need not be reflexive (\<^verbatim>\<open>NaN != NaN\<close>).

  The contract of the queue is the locale \<open>timed_queue\<close>: to its clients it is a list of
  \<open>(time, value)\<close> pairs in time order, first in first out among equal times, without
  duplicates.
\<close>

section \<open>Entries and the queue\<close>

record 'a value_at =
  va_value :: 'a
  va_time :: nanotime

record 'a entry =
  e_time :: nanotime
  e_seq :: u64
  e_value :: 'a

definition entry_key :: "'a entry \<Rightarrow> nanotime \<times> u64" where
  "entry_key e = (e_time e, e_seq e)"

text \<open>\<^verbatim>\<open>Ord for Entry\<close>: the payload is ignored.\<close>

definition entry_le :: "'a entry \<Rightarrow> 'a entry \<Rightarrow> bool" where
  "entry_le a b \<longleftrightarrow> entry_key a \<le> entry_key b"

record 'a time_queue =
  heap :: "'a entry list"
  next_seq :: u64

definition tq_new :: "'a time_queue" where
  "tq_new = \<lparr>heap = [], next_seq = 0\<rparr>"

text \<open>\<^verbatim>\<open>BinaryHeap::peek\<close> under \<^verbatim>\<open>Reverse\<close>: an entry with the least key.\<close>

fun heap_peek :: "'a entry list \<Rightarrow> 'a entry option" where
  "heap_peek [] = None"
| "heap_peek (e # es) =
     (case heap_peek es of None \<Rightarrow> Some e
      | Some m \<Rightarrow> if entry_le e m then Some e else Some m)"

definition tq_next_time :: "'a time_queue \<Rightarrow> nanotime option" where
  "tq_next_time q = map_option e_time (heap_peek (heap q))"

definition tq_is_empty :: "'a time_queue \<Rightarrow> bool" where
  "tq_is_empty q \<longleftrightarrow> heap q = []"

definition tq_pop :: "'a time_queue \<Rightarrow> 'a option \<times> 'a time_queue" where
  "tq_pop q = (case heap_peek (heap q) of
       None \<Rightarrow> (None, q)
     | Some e \<Rightarrow> (Some (e_value e), q\<lparr>heap := remove1 e (heap q)\<rparr>))"

definition tq_pop_if_pending :: "nanotime \<Rightarrow> 'a time_queue \<Rightarrow> 'a option \<times> 'a time_queue" where
  "tq_pop_if_pending current_time q = (case tq_next_time q of
       Some t \<Rightarrow> if t \<le> current_time then tq_pop q else (None, q)
     | None \<Rightarrow> (None, q))"

definition tq_clear :: "'a time_queue \<Rightarrow> 'a time_queue" where
  "tq_clear q = q\<lparr>heap := []\<rparr>"

definition tq_push :: "('a \<Rightarrow> 'a \<Rightarrow> bool) \<Rightarrow> 'a \<Rightarrow> nanotime \<Rightarrow> 'a time_queue \<Rightarrow> 'a time_queue" where
  "tq_push eq v t q =
     (if (\<exists>e \<in> set (heap q). e_time e = t \<and> eq (e_value e) v) then q
      else q\<lparr>heap := \<lparr>e_time = t, e_seq = next_seq q, e_value = v\<rparr> # heap q,
             next_seq := next_seq q + 1\<rparr>)"

lemma heap_peek_None [simp]: "heap_peek es = None \<longleftrightarrow> es = []"
  by (cases es) (auto split: option.splits)

lemma heap_peek_in: "heap_peek es = Some e \<Longrightarrow> e \<in> set es"
  by (induction es arbitrary: e) (auto split: option.splits if_splits)

lemma heap_peek_least: "heap_peek es = Some e \<Longrightarrow> x \<in> set es \<Longrightarrow> entry_key e \<le> entry_key x"
proof (induction es arbitrary: e)
  case Nil
  then show ?case by simp
next
  case (Cons a es)
  show ?case
  proof (cases "heap_peek es")
    case None
    with Cons.prems show ?thesis by simp
  next
    case (Some m)
    with Cons.prems Cons.IH[OF Some] show ?thesis
      by (auto simp: entry_le_def split: if_splits)
  qed
qed

lemma tq_pop_shrinks:
  "tq_pop q = (Some v, q') \<Longrightarrow> length (heap q') < length (heap q)"
  by (auto simp: tq_pop_def length_remove1 dest!: heap_peek_in split: option.splits)
    (metis Suc_pred length_pos_if_in_set lessI)

lemma tq_pop_if_pending_shrinks:
  "tq_pop_if_pending now q = (Some v, q') \<Longrightarrow> length (heap q') < length (heap q)"
  by (auto simp: tq_pop_if_pending_def split: option.splits if_splits dest: tq_pop_shrinks)

text \<open>
  The loop \<^verbatim>\<open>while let Some(v) = q.pop_if_pending(now)\<close>, with the values it yields in order.
  Each iteration removes an entry, so it ends.
\<close>

function tq_drain :: "nanotime \<Rightarrow> 'a time_queue \<Rightarrow> 'a list \<times> 'a time_queue" where
  "tq_drain now q = (case tq_pop_if_pending now q of
       (None, q') \<Rightarrow> ([], q')
     | (Some v, q') \<Rightarrow> (let (vs, q'') = tq_drain now q' in (v # vs, q'')))"
  by pat_completeness auto
termination
  by (relation "measure (\<lambda>(now, q). length (heap q))")
    (auto dest: tq_pop_if_pending_shrinks[OF sym])

declare tq_drain.simps [simp del]

text \<open>What a drain removes, whatever the state of the sequence counter.\<close>

lemma heap_peek_least_time:
  "heap_peek es = Some e \<Longrightarrow> x \<in> set es \<Longrightarrow> e_time e \<le> e_time x"
  by (drule (1) heap_peek_least) (auto simp: entry_key_def less_eq_prod_def)

lemma tq_drain_heap:
  assumes "tq_drain now q = (vs, q')"
  shows "mset (heap q') = filter_mset (\<lambda>e. now < e_time e) (mset (heap q)) \<and>
    mset vs = image_mset e_value (filter_mset (\<lambda>e. \<not> now < e_time e) (mset (heap q))) \<and>
    next_seq q' = next_seq q"
  using assms
proof (induction now q arbitrary: vs q' rule: tq_drain.induct)
  case (1 now q)
  show ?case
  proof (cases "heap_peek (heap q)")
    case None
    with "1.prems" show ?thesis
      by (simp add: tq_drain.simps[of now q] tq_pop_if_pending_def tq_next_time_def)
  next
    case (Some m)
    have m_in: "m \<in> set (heap q)" using Some by (rule heap_peek_in)
    show ?thesis
    proof (cases "e_time m \<le> now")
      case False
      with heap_peek_least_time[OF Some] have "\<forall>e \<in> set (heap q). now < e_time e" by fastforce
      then have "filter (\<lambda>e. now < e_time e) (heap q) = heap q"
        and "filter (\<lambda>e. \<not> now < e_time e) (heap q) = []"
        by (auto simp: filter_empty_conv)
      then have "filter_mset (\<lambda>e. now < e_time e) (mset (heap q)) = mset (heap q)"
        and "filter_mset (\<lambda>e. \<not> now < e_time e) (mset (heap q)) = {#}"
        by (metis mset_filter, metis mset_filter mset.simps(1))
      with False Some "1.prems" show ?thesis
        by (simp add: tq_drain.simps[of now q] tq_pop_if_pending_def tq_next_time_def)
    next
      case True
      let ?q1 = "q\<lparr>heap := remove1 m (heap q)\<rparr>"
      have pop: "tq_pop_if_pending now q = (Some (e_value m), ?q1)"
        using Some True by (simp add: tq_pop_if_pending_def tq_next_time_def tq_pop_def)
      obtain ws q2 where d: "tq_drain now ?q1 = (ws, q2)" by (cases "tq_drain now ?q1")
      have eq: "vs = e_value m # ws" "q' = q2"
        using "1.prems" pop d by (simp_all add: tq_drain.simps[of now q])
      define M where "M = mset (heap ?q1)"
      have M: "mset (heap q) = add_mset m M" using m_in by (simp add: M_def)
      from "1.IH"[OF pop[symmetric] refl d, folded M_def] eq True show ?thesis
        unfolding M by simp
    qed
  qed
qed

section \<open>The contract\<close>

text \<open>
  \<open>stable_insert\<close> puts a pair behind every pair that is not later: first in, first out among
  equal times.
\<close>

definition stable_insert :: "nanotime \<times> 'a \<Rightarrow> (nanotime \<times> 'a) list \<Rightarrow> (nanotime \<times> 'a) list" where
  "stable_insert x xs =
     takeWhile (\<lambda>y. fst y \<le> fst x) xs @ x # dropWhile (\<lambda>y. fst y \<le> fst x) xs"

locale timed_queue =
  fixes inv :: "'q \<Rightarrow> bool"
    and items :: "'q \<Rightarrow> (nanotime \<times> 'a) list"
    and room :: "'q \<Rightarrow> bool"
    and empty :: 'q
    and push :: "('a \<Rightarrow> 'a \<Rightarrow> bool) \<Rightarrow> 'a \<Rightarrow> nanotime \<Rightarrow> 'q \<Rightarrow> 'q"
    and next_time :: "'q \<Rightarrow> nanotime option"
    and pop_if_pending :: "nanotime \<Rightarrow> 'q \<Rightarrow> 'a option \<times> 'q"
    and drain :: "nanotime \<Rightarrow> 'q \<Rightarrow> 'a list \<times> 'q"
  assumes inv_empty: "inv empty"
    and items_empty: "items empty = []"
    and inv_push: "inv q \<Longrightarrow> room q \<Longrightarrow> inv (push eq v t q)"
    and items_push: "inv q \<Longrightarrow> room q \<Longrightarrow> items (push eq v t q) =
      (if (\<exists>(t', v') \<in> set (items q). t' = t \<and> eq v' v) then items q
       else stable_insert (t, v) (items q))"
    and next_time_items: "inv q \<Longrightarrow>
      next_time q = (case items q of [] \<Rightarrow> None | x # _ \<Rightarrow> Some (fst x))"
    and sorted_items: "inv q \<Longrightarrow> sorted (map fst (items q))"
    and pop_none: "inv q \<Longrightarrow> (items q = [] \<or> now < fst (hd (items q))) \<Longrightarrow>
      pop_if_pending now q = (None, q)"
    and pop_some: "inv q \<Longrightarrow> items q = (t, v) # rest \<Longrightarrow> t \<le> now \<Longrightarrow>
      \<exists>q'. pop_if_pending now q = (Some v, q') \<and> inv q' \<and> items q' = rest"
    and drain_unfold: "drain now q = (case pop_if_pending now q of
       (None, q') \<Rightarrow> ([], q')
     | (Some v, q') \<Rightarrow> (let (vs, q'') = drain now q' in (v # vs, q'')))"
begin

lemma drain_items:
  assumes "inv q" and "drain now q = (vs, q')"
  shows "vs = map snd (takeWhile (\<lambda>x. fst x \<le> now) (items q)) \<and>
    items q' = dropWhile (\<lambda>x. fst x \<le> now) (items q) \<and> inv q'"
  using assms
proof (induction "items q" arbitrary: q vs q')
  case Nil
  then have "pop_if_pending now q = (None, q)"
    using pop_none[of q now] by simp
  with Nil show ?case
    by (subst (asm) drain_unfold) simp
next
  case (Cons x xs)
  obtain t v where x: "x = (t, v)" by (cases x)
  show ?case
  proof (cases "t \<le> now")
    case True
    from pop_some[OF Cons.prems(1) _ True, of v xs] Cons.hyps(2) x
    obtain q1 where q1: "pop_if_pending now q = (Some v, q1)" "inv q1" "items q1 = xs" by auto
    obtain ws q2 where d: "drain now q1 = (ws, q2)" by (cases "drain now q1")
    have "vs = v # ws" "q' = q2"
      using Cons.prems(2) q1(1) d by (subst (asm) drain_unfold, simp)+
    with Cons.hyps(1)[OF q1(3)[symmetric] q1(2) d] Cons.hyps(2)[symmetric] x q1(3) True
    show ?thesis by simp
  next
    case False
    then have "pop_if_pending now q = (None, q)"
      using pop_none[of q now] Cons.prems(1) Cons.hyps(2)[symmetric] x by auto
    with Cons.prems Cons.hyps(2)[symmetric] x False show ?thesis
      by (subst (asm) drain_unfold) simp
  qed
qed

lemma drain_all_due:
  assumes "inv q" and "drain now q = (vs, q')"
  shows "vs = map snd (filter (\<lambda>x. fst x \<le> now) (items q))"
    and "items q' = filter (\<lambda>x. \<not> fst x \<le> now) (items q)"
    and "inv q'"
    and "\<forall>x \<in> set (items q'). now < fst x"
  using drain_items[OF assms] takeWhile_dropWhile_filter_sorted[OF sorted_items[OF assms(1)], of now]
  by auto

end

section \<open>The heap implements the contract\<close>

definition tq_inv :: "'a time_queue \<Rightarrow> bool" where
  "tq_inv q \<longleftrightarrow> distinct (map e_seq (heap q)) \<and> (\<forall>e \<in> set (heap q). e_seq e < next_seq q)"

definition entry_item :: "'a entry \<Rightarrow> nanotime \<times> 'a" where
  "entry_item e = (e_time e, e_value e)"

definition tq_items :: "'a time_queue \<Rightarrow> (nanotime \<times> 'a) list" where
  "tq_items q = map entry_item (sort_key entry_key (heap q))"

text \<open>The 64-bit sequence counter can still be incremented without wrapping.\<close>

definition tq_room :: "'a time_queue \<Rightarrow> bool" where
  "tq_room q \<longleftrightarrow> next_seq q \<noteq> - 1"

lemma set_tq_items: "set (tq_items q) = entry_item ` set (heap q)"
  by (simp add: tq_items_def)

lemma tq_items_Nil [simp]: "tq_items q = [] \<longleftrightarrow> heap q = []"
  by (metis image_is_empty set_empty set_tq_items)

lemma word_less_Suc_if_not_max: "(a :: u64) \<noteq> - 1 \<Longrightarrow> a < a + 1"
  by (rule word_less_Suc_no_wrap[of a "- 1"]) (simp add: word_order.not_eq_extremum)

lemma tq_inv_push: "tq_inv q \<Longrightarrow> tq_room q \<Longrightarrow> tq_inv (tq_push eq v t q)"
  using word_less_Suc_if_not_max[of "next_seq q"]
  by (force simp: tq_inv_def tq_push_def tq_room_def)

lemma insort_key_newest:
  assumes "sorted (map entry_key es)" and "\<forall>x \<in> set es. e_seq x < e_seq e"
  shows "map entry_item (insort_key entry_key e es) =
    stable_insert (entry_item e) (map entry_item es)"
  using assms
proof (induction es)
  case Nil
  then show ?case by (simp add: stable_insert_def)
next
  case (Cons x es)
  show ?case
  proof (cases "e_time x \<le> e_time e")
    case True
    with Cons.prems have "\<not> entry_key e \<le> entry_key x"
      by (auto simp: entry_key_def less_eq_prod_def)
    with Cons True show ?thesis
      by (simp add: stable_insert_def entry_item_def)
  next
    case False
    then have "entry_key e \<le> entry_key x"
      by (auto simp: entry_key_def less_eq_prod_def)
    with False show ?thesis
      by (simp add: stable_insert_def entry_item_def)
  qed
qed

lemma tq_items_push:
  assumes "tq_inv q"
  shows "tq_items (tq_push eq v t q) =
    (if (\<exists>(t', v') \<in> set (tq_items q). t' = t \<and> eq v' v) then tq_items q
     else stable_insert (t, v) (tq_items q))"
proof (cases "\<exists>e \<in> set (heap q). e_time e = t \<and> eq (e_value e) v")
  case True
  then show ?thesis
    by (auto simp: tq_push_def set_tq_items entry_item_def)
next
  case False
  have "map entry_item (insort_key entry_key \<lparr>e_time = t, e_seq = next_seq q, e_value = v\<rparr>
      (sort_key entry_key (heap q))) = stable_insert (t, v) (tq_items q)"
    using assms insort_key_newest[of "sort_key entry_key (heap q)"
        "\<lparr>e_time = t, e_seq = next_seq q, e_value = v\<rparr>"]
    by (simp add: tq_items_def tq_inv_def) (simp add: entry_item_def)
  with False show ?thesis
    by (auto simp: tq_push_def set_tq_items entry_item_def) (simp add: tq_items_def)
qed

lemma inj_entry_key: "tq_inv q \<Longrightarrow> inj_on entry_key (set (heap q))"
  by (auto simp: tq_inv_def distinct_map entry_key_def inj_on_def)

lemma sort_key_peek:
  assumes "tq_inv q" and peek: "heap_peek (heap q) = Some m"
  shows "sort_key entry_key (heap q) = m # sort_key entry_key (remove1 m (heap q))"
proof (rule sort_key_inj_key_eq)
  show "mset (heap q) = mset (m # sort_key entry_key (remove1 m (heap q)))"
    using heap_peek_in[OF peek] by simp
  show "inj_on entry_key (set (heap q))"
    using assms(1) by (rule inj_entry_key)
  show "sorted (map entry_key (m # sort_key entry_key (remove1 m (heap q))))"
    using heap_peek_least[OF peek] by (auto dest: notin_set_remove1)
qed

lemma tq_items_peek:
  assumes "tq_inv q" and "heap_peek (heap q) = Some m"
  shows "tq_items q = entry_item m # tq_items (q\<lparr>heap := remove1 m (heap q)\<rparr>)"
  using sort_key_peek[OF assms] by (simp add: tq_items_def)

lemma tq_inv_remove1: "tq_inv q \<Longrightarrow> tq_inv (q\<lparr>heap := remove1 m (heap q)\<rparr>)"
  by (auto simp: tq_inv_def distinct_map dest: notin_set_remove1
      intro: inj_on_diff)

lemma tq_next_time_items:
  assumes "tq_inv q"
  shows "tq_next_time q = (case tq_items q of [] \<Rightarrow> None | x # _ \<Rightarrow> Some (fst x))"
proof (cases "heap_peek (heap q)")
  case None
  then show ?thesis by (simp add: tq_next_time_def tq_items_def)
next
  case (Some m)
  from tq_items_peek[OF assms Some] Some show ?thesis
    by (simp add: tq_next_time_def entry_item_def)
qed

lemma sorted_tq_items: "sorted (map fst (tq_items q))"
proof -
  have "sorted (map entry_key (sort_key entry_key (heap q)))" by simp
  then have "sorted (map (fst \<circ> entry_key) (sort_key entry_key (heap q)))"
    by (auto simp: sorted_iff_nth_mono less_eq_prod_def)
      (meson less_imp_le)
  then show ?thesis
    by (simp add: tq_items_def entry_item_def entry_key_def comp_def)
qed

interpretation tq: timed_queue tq_inv tq_items tq_room tq_new tq_push tq_next_time
  tq_pop_if_pending tq_drain
proof
  fix q :: "'a time_queue" and eq v t now rest
  show "tq_inv tq_new" "tq_items tq_new = []"
    by (simp_all add: tq_inv_def tq_new_def)
  show "tq_inv q \<Longrightarrow> tq_room q \<Longrightarrow> tq_inv (tq_push eq v t q)"
    by (rule tq_inv_push)
  show "tq_inv q \<Longrightarrow> tq_items (tq_push eq v t q) =
    (if (\<exists>(t', v') \<in> set (tq_items q). t' = t \<and> eq v' v) then tq_items q
     else stable_insert (t, v) (tq_items q))"
    by (rule tq_items_push)
  show "tq_inv q \<Longrightarrow> tq_next_time q = (case tq_items q of [] \<Rightarrow> None | x # _ \<Rightarrow> Some (fst x))"
    by (rule tq_next_time_items)
  show "sorted (map fst (tq_items q))" by (rule sorted_tq_items)
  show "tq_inv q \<Longrightarrow> (tq_items q = [] \<or> now < fst (hd (tq_items q))) \<Longrightarrow>
      tq_pop_if_pending now q = (None, q)"
    using tq_next_time_items[of q]
    by (cases "tq_items q") (auto simp: tq_pop_if_pending_def)
  assume inv: "tq_inv q" and items: "tq_items q = (t, v) # rest" and due: "t \<le> now"
  from items obtain m where m: "heap_peek (heap q) = Some m"
    by (cases "heap_peek (heap q)") (auto simp: tq_items_def)
  with tq_items_peek[OF inv m] items due tq_inv_remove1[OF inv, of m]
  show "\<exists>q'. tq_pop_if_pending now q = (Some v, q') \<and> tq_inv q' \<and> tq_items q' = rest"
    by (auto simp: tq_pop_if_pending_def tq_next_time_def tq_pop_def entry_item_def)
next
  fix q :: "'a time_queue" and now
  show "tq_drain now q = (case tq_pop_if_pending now q of
       (None, q') \<Rightarrow> ([], q')
     | (Some v, q') \<Rightarrow> (let (vs, q'') = tq_drain now q' in (v # vs, q'')))"
    by (rule tq_drain.simps)
qed


section \<open>Properties\<close>

text \<open>
  C9. The queue refines a time-ordered list of pairs: a push inserts behind every pair that is
  not later (first in, first out among equal times) unless an equal value is already queued
  for the same time, in which case nothing changes.
\<close>
theorem queue_push_refines:
  assumes "tq_inv q" "tq_room q"
  shows "tq_inv (tq_push eq v t q) \<and> sorted (map fst (tq_items (tq_push eq v t q))) \<and>
    tq_items (tq_push eq v t q) =
      (if (\<exists>(t', v') \<in> set (tq_items q). t' = t \<and> eq v' v) then tq_items q
       else stable_insert (t, v) (tq_items q))"
  using tq.inv_push[OF assms] tq.items_push[OF assms] tq.sorted_items[OF tq.inv_push[OF assms]] by blast

theorem queue_push_refines_witness:
  "tq_inv (tq_push (=) (5 :: nat) (NanoTime 3) tq_new) \<and>
   sorted (map fst (tq_items (tq_push (=) (5 :: nat) (NanoTime 3) tq_new))) \<and>
   tq_items (tq_push (=) (5 :: nat) (NanoTime 3) tq_new) =
     (if (\<exists>(t', v') \<in> set (tq_items tq_new). t' = NanoTime 3 \<and> v' = (5 :: nat)) then tq_items tq_new
      else stable_insert (NanoTime 3, 5) (tq_items tq_new))"
  by (rule queue_push_refines) (simp_all add: tq_inv_def tq_room_def tq_new_def)

text \<open>
  C10. Draining at time \<open>now\<close> yields exactly the values due by then, earliest first and in
  order of arrival among equal times, and leaves exactly the later ones.
\<close>
theorem queue_drain_exact:
  assumes "tq_inv q" "tq_drain now q = (vs, q')"
  shows "vs = map snd (filter (\<lambda>x. fst x \<le> now) (tq_items q)) \<and>
    tq_items q' = filter (\<lambda>x. \<not> fst x \<le> now) (tq_items q) \<and> tq_inv q' \<and> sorted (map fst (tq_items q'))"
  using tq.drain_all_due[OF assms] tq.sorted_items by blast

theorem queue_drain_exact_witness:
  "fst (tq_drain (NanoTime 4) (tq_push (=) (5 :: nat) (NanoTime 3) tq_new)) =
   map snd (filter (\<lambda>x. fst x \<le> NanoTime 4) (tq_items (tq_push (=) 5 (NanoTime 3) tq_new)))"
proof -
  let ?q = "tq_push (=) (5 :: nat) (NanoTime 3) tq_new"
  have "tq_inv ?q" by (simp add: tq_inv_def tq_push_def tq_new_def)
  from queue_drain_exact[OF this, of "NanoTime 4" "fst (tq_drain (NanoTime 4) ?q)" "snd (tq_drain (NanoTime 4) ?q)"]
  show ?thesis by simp
qed

end
