(* ===== verification/Graph_State.thy ===== *)
theory Graph_State
  imports Time_Queue
begin

text \<open>
  The data of \<^verbatim>\<open>src/wingfoil/src/graph.rs\<close> and the part of \<^verbatim>\<open>types.rs\<close> the engine relies on:
  edges, node data, run mode and bounds, \<open>GraphState\<close> with the methods nodes may call, and
  the table of node operations.

  A node is an \<^verbatim>\<open>Rc<dyn Node>\<close>: an address, of type \<open>node\<close>, whose behaviour is found in a
  table \<open>node_ops\<close> over a store \<open>'s\<close> that holds the states of all nodes. Nodes receive the
  \<open>GraphState\<close> and change it only through its methods, so an operation of the table reads
  the graph state and returns, with the new store and its result, the list of method calls
  it made, in order (\<open>cmd\<close>). No method call changes what a node can read of the graph state
  during the same call, so reading before and writing after is the same as interleaving.
\<close>

type_synonym node = nat

section \<open>Edges and node data\<close>

record edge =
  ed_node_index :: nat
  ed_active :: bool

record node_data =
  nd_node :: node
  nd_upstreams :: "edge list"
  nd_downstreams :: "edge list"
  nd_layer :: nat
  nd_active :: bool

record pending_addition =
  pa_node :: node
  pa_caller_index :: nat
  pa_is_active :: bool
  pa_recycle :: bool

lemma edge_eq: "ed_node_index e = i \<Longrightarrow> \<lparr>ed_node_index = i, ed_active = ed_active e\<rparr> = e" for e :: edge
  by auto

section \<open>Run mode and run bounds\<close>

datatype run_mode = RealTime | HistoricalFrom nanotime

text \<open>\<^verbatim>\<open>RunMode::start_time\<close>; \<open>now\<close> is the clock reading \<^verbatim>\<open>NanoTime::now()\<close>.\<close>

fun run_mode_start_time :: "nanotime \<Rightarrow> run_mode \<Rightarrow> nanotime" where
  "run_mode_start_time now RealTime = now"
| "run_mode_start_time now (HistoricalFrom start_time) = start_time"

datatype run_for = RunDuration duration | Cycles u32 | Forever

fun run_for_done :: "run_for \<Rightarrow> u32 \<Rightarrow> nanotime \<Rightarrow> bool" where
  "run_for_done (Cycles cycles) cycle elapsed \<longleftrightarrow> cycles < cycle"
| "run_for_done (RunDuration d) cycle elapsed \<longleftrightarrow> nano_from_duration d < elapsed"
| "run_for_done Forever cycle elapsed \<longleftrightarrow> False"

record run_bounds =
  rb_start_time :: nanotime
  rb_end_time :: nanotime
  rb_end_cycle :: u32

section \<open>The graph state\<close>

text \<open>
  The two ends of the ready channel are one list, the indices sent and not yet received. The
  tokio runtime handle is not part of the model.
\<close>

record graph_state =
  gs_time :: nanotime
  gs_wall_time :: nanotime
  first_cycle :: bool
  is_last_cycle :: bool
  current_node_index :: "nat option"
  scheduled_callbacks :: "nat time_queue"
  always_callbacks :: "nat list"
  node_to_index :: "node \<rightharpoonup> nat"
  node_ticked :: "bool list"
  gs_run_mode :: run_mode
  gs_run_for :: run_for
  ready_callbacks :: "nat list"
  gs_start_time :: nanotime
  gs_id :: nat
  nodes :: "node_data list"
  dirty_nodes_by_layer :: "nat list list"
  node_dirty :: "bool list"
  wiring_error :: "anyhow option"
  pending_additions :: "pending_addition list"
  pending_removals :: "node list"

definition graph_state_new :: "nat \<Rightarrow> run_mode \<Rightarrow> run_for \<Rightarrow> nanotime \<Rightarrow> graph_state" where
  "graph_state_new graph_id run_mode run_for start_time =
     \<lparr>gs_time = nano_zero, gs_wall_time = nano_zero, first_cycle = True, is_last_cycle = False,
      current_node_index = None, scheduled_callbacks = tq_new, always_callbacks = [],
      node_to_index = Map.empty, node_ticked = [], gs_run_mode = run_mode,
      gs_run_for = run_for, ready_callbacks = [], gs_start_time = start_time, gs_id = graph_id,
      nodes = [], dirty_nodes_by_layer = [], node_dirty = [], wiring_error = None,
      pending_additions = [], pending_removals = []\<rparr>"

abbreviation layer_of :: "graph_state \<Rightarrow> nat \<Rightarrow> nat" where
  "layer_of gs i \<equiv> nd_layer (nodes gs ! i)"

subsection \<open>Methods that read\<close>

definition gs_elapsed :: "graph_state \<Rightarrow> nanotime" where
  "gs_elapsed gs = NanoTime (saturating_sub (raw (gs_time gs)) (raw (gs_start_time gs)))"

definition node_index :: "graph_state \<Rightarrow> node \<Rightarrow> nat option" where
  "node_index gs n = node_to_index gs n"

definition seen :: "graph_state \<Rightarrow> node \<Rightarrow> bool" where
  "seen gs n \<longleftrightarrow> node_to_index gs n \<noteq> None"

text \<open>\<^verbatim>\<open>node_ticked[i]\<close> panics out of range: \<open>None\<close>.\<close>

definition node_index_ticked :: "graph_state \<Rightarrow> nat \<Rightarrow> bool option" where
  "node_index_ticked gs i =
     (if i < length (node_ticked gs) then Some (node_ticked gs ! i) else None)"

definition ticked :: "graph_state \<Rightarrow> node \<Rightarrow> bool option" where
  "ticked gs n = (case node_index gs n of None \<Rightarrow> Some False | Some i \<Rightarrow> node_index_ticked gs i)"

definition has_scheduled_callbacks :: "graph_state \<Rightarrow> bool" where
  "has_scheduled_callbacks gs \<longleftrightarrow> \<not> tq_is_empty (scheduled_callbacks gs)"

definition next_scheduled_time :: "graph_state \<Rightarrow> nanotime" where
  "next_scheduled_time gs =
     (case tq_next_time (scheduled_callbacks gs) of None \<Rightarrow> nano_max | Some t \<Rightarrow> t)"

subsection \<open>Methods that write\<close>

definition add_callback_for_node :: "nat \<Rightarrow> nanotime \<Rightarrow> graph_state \<Rightarrow> graph_state" where
  "add_callback_for_node ix t gs =
     gs\<lparr>scheduled_callbacks := tq_push (=) ix t (scheduled_callbacks gs)\<rparr>"

text \<open>The \<^verbatim>\<open>expect\<close> on \<^verbatim>\<open>current_node_index\<close> panics outside a node call: \<open>None\<close>.\<close>

definition add_callback :: "nanotime \<Rightarrow> graph_state \<Rightarrow> graph_state option" where
  "add_callback t gs = (case current_node_index gs of
       None \<Rightarrow> None | Some ix \<Rightarrow> Some (add_callback_for_node ix t gs))"

definition always_callback :: "graph_state \<Rightarrow> graph_state option" where
  "always_callback gs = (case current_node_index gs of
       None \<Rightarrow> None
     | Some ix \<Rightarrow> Some (if ix \<in> set (always_callbacks gs) then gs
                        else gs\<lparr>always_callbacks := always_callbacks gs @ [ix]\<rparr>))"

definition add_upstream :: "node \<Rightarrow> bool \<Rightarrow> bool \<Rightarrow> graph_state \<Rightarrow> graph_state option" where
  "add_upstream n is_active recycle gs = (case current_node_index gs of
       None \<Rightarrow> None
     | Some ix \<Rightarrow> Some (gs\<lparr>pending_additions := pending_additions gs @
         [\<lparr>pa_node = n, pa_caller_index = ix, pa_is_active = is_active, pa_recycle = recycle\<rparr>]\<rparr>))"

definition remove_node :: "node \<Rightarrow> graph_state \<Rightarrow> graph_state" where
  "remove_node n gs = gs\<lparr>pending_removals := pending_removals gs @ [n]\<rparr>"

definition ready_notify :: "nat \<Rightarrow> graph_state \<Rightarrow> graph_state" where
  "ready_notify ix gs = gs\<lparr>ready_callbacks := ready_callbacks gs @ [ix]\<rparr>"

definition mark_dirty :: "nat \<Rightarrow> graph_state \<Rightarrow> graph_state option" where
  "mark_dirty index gs =
     (if length (node_dirty gs) \<le> index then None
      else if node_dirty gs ! index then Some gs
      else if length (nodes gs) \<le> index then None
      else let layer = layer_of gs index in
        if length (dirty_nodes_by_layer gs) \<le> layer then None
        else Some (gs\<lparr>
          dirty_nodes_by_layer := (dirty_nodes_by_layer gs)
            [layer := dirty_nodes_by_layer gs ! layer @ [index]],
          node_dirty := (node_dirty gs)[index := True]\<rparr>))"

definition set_ticked :: "nat \<Rightarrow> graph_state \<Rightarrow> graph_state option" where
  "set_ticked index gs =
     (if index < length (node_ticked gs) then Some (gs\<lparr>node_ticked := (node_ticked gs)[index := True]\<rparr>)
      else None)"

definition push_node :: "node \<Rightarrow> graph_state \<Rightarrow> graph_state" where
  "push_node n gs = gs\<lparr>node_ticked := node_ticked gs @ [False],
     node_to_index := (node_to_index gs)(n \<mapsto> length (node_ticked gs))\<rparr>"

definition reset_ticked :: "graph_state \<Rightarrow> graph_state" where
  "reset_ticked gs = gs\<lparr>node_ticked := map (\<lambda>_. False) (node_ticked gs)\<rparr>"

section \<open>Nodes\<close>

datatype cmd =
    AddCallback nanotime
  | AddCallbackForNode nat nanotime
  | AlwaysCallback
  | AddUpstream node bool bool
  | RemoveNode node
  | MarkDirty nat
  | NotifyReady nat

fun run_cmd :: "cmd \<Rightarrow> graph_state \<Rightarrow> graph_state option" where
  "run_cmd (AddCallback t) gs = add_callback t gs"
| "run_cmd (AddCallbackForNode ix t) gs = Some (add_callback_for_node ix t gs)"
| "run_cmd AlwaysCallback gs = always_callback gs"
| "run_cmd (AddUpstream n a r) gs = add_upstream n a r gs"
| "run_cmd (RemoveNode n) gs = Some (remove_node n gs)"
| "run_cmd (MarkDirty ix) gs = mark_dirty ix gs"
| "run_cmd (NotifyReady ix) gs = Some (ready_notify ix gs)"

fun run_cmds :: "cmd list \<Rightarrow> graph_state \<Rightarrow> graph_state option" where
  "run_cmds [] gs = Some gs"
| "run_cmds (c # cs) gs = do { gs' \<leftarrow> run_cmd c gs; run_cmds cs gs' }"

text \<open>
  \<^verbatim>\<open>trait Node\<close>: one entry per method. \<open>op_upstreams\<close> answers \<^verbatim>\<open>UpStreams\<close>, active then
  passive. A method that panics is \<open>None\<close>.
\<close>

type_synonym ('s, 'r) node_call = "graph_state \<Rightarrow> 's \<Rightarrow> ('s \<times> cmd list \<times> (anyhow + 'r)) option"

record 's node_ops =
  op_upstreams :: "'s \<Rightarrow> node \<Rightarrow> node list \<times> node list"
  op_cycle :: "node \<Rightarrow> ('s, bool) node_call"
  op_setup :: "node \<Rightarrow> ('s, unit) node_call"
  op_start :: "node \<Rightarrow> ('s, unit) node_call"
  op_stop :: "node \<Rightarrow> ('s, unit) node_call"
  op_teardown :: "node \<Rightarrow> ('s, unit) node_call"

type_synonym 's world = "graph_state \<times> 's"
type_synonym ('s, 'r) outcome = "('s world \<times> (anyhow + 'r)) option"

definition call_node :: "('s, 'r) node_call \<Rightarrow> 's world \<Rightarrow> ('s, 'r) outcome" where
  "call_node f w = do {
     (s', cmds, r) \<leftarrow> f (fst w) (snd w);
     gs' \<leftarrow> run_cmds cmds (fst w);
     Some ((gs', s'), r) }"

section \<open>Invariants\<close>

text \<open>
  \<open>wf_graph\<close>: the parallel vectors have one entry per node, every stored index is in range,
  and every edge goes from a lower layer to a higher one. \<open>wf_dirty\<close>: the dirty lists hold
  exactly the nodes flagged dirty, each once, in its own layer.
\<close>

definition wf_lengths :: "graph_state \<Rightarrow> bool" where
  "wf_lengths gs \<longleftrightarrow> length (node_ticked gs) = length (nodes gs) \<and>
     length (node_dirty gs) = length (nodes gs) \<and>
     (\<forall>nd \<in> set (nodes gs). nd_layer nd < length (dirty_nodes_by_layer gs))"

definition wf_edges :: "graph_state \<Rightarrow> bool" where
  "wf_edges gs \<longleftrightarrow> (\<forall>i < length (nodes gs).
     (\<forall>e \<in> set (nd_downstreams (nodes gs ! i)).
        ed_node_index e < length (nodes gs) \<and> layer_of gs i < layer_of gs (ed_node_index e)) \<and>
     (\<forall>e \<in> set (nd_upstreams (nodes gs ! i)).
        ed_node_index e < length (nodes gs) \<and> layer_of gs (ed_node_index e) < layer_of gs i))"

definition wf_indices :: "graph_state \<Rightarrow> bool" where
  "wf_indices gs \<longleftrightarrow>
     set (always_callbacks gs) \<subseteq> {..<length (nodes gs)} \<and>
     e_value ` set (heap (scheduled_callbacks gs)) \<subseteq> {..<length (nodes gs)} \<and>
     set (ready_callbacks gs) \<subseteq> {..<length (nodes gs)} \<and>
     ran (node_to_index gs) \<subseteq> {..<length (nodes gs)}"

definition wf_graph :: "graph_state \<Rightarrow> bool" where
  "wf_graph gs \<longleftrightarrow> wf_lengths gs \<and> wf_edges gs \<and> wf_indices gs"

definition wf_dirty :: "graph_state \<Rightarrow> bool" where
  "wf_dirty gs \<longleftrightarrow>
     (\<forall>l < length (dirty_nodes_by_layer gs). distinct (dirty_nodes_by_layer gs ! l) \<and>
        (\<forall>i \<in> set (dirty_nodes_by_layer gs ! l).
           i < length (nodes gs) \<and> layer_of gs i = l \<and> node_dirty gs ! i)) \<and>
     (\<forall>i < length (nodes gs). node_dirty gs ! i \<longrightarrow> i \<in> set (dirty_nodes_by_layer gs ! layer_of gs i))"

lemmas wf_defs = wf_graph_def wf_lengths_def wf_edges_def wf_indices_def

text \<open>The nodes in line for the current engine cycle.\<close>

definition dirty_set :: "graph_state \<Rightarrow> nat set" where
  "dirty_set gs = set (concat (dirty_nodes_by_layer gs))"

lemma dirty_set_iff:
  "wf_lengths gs \<Longrightarrow> wf_dirty gs \<Longrightarrow> i < length (nodes gs) \<Longrightarrow> i \<in> dirty_set gs \<longleftrightarrow> node_dirty gs ! i"
  unfolding dirty_set_def wf_lengths_def wf_dirty_def
  by (metis UN_I in_concat_nth nth_mem set_concat)

subsection \<open>Marking a node dirty\<close>

lemma mark_dirty_cases:
  assumes "mark_dirty i gs = Some gs'"
  obtains "node_dirty gs ! i" "gs' = gs" "i < length (node_dirty gs)"
  | "\<not> node_dirty gs ! i" "i < length (node_dirty gs)" "i < length (nodes gs)"
    "layer_of gs i < length (dirty_nodes_by_layer gs)"
    "gs' = gs\<lparr>dirty_nodes_by_layer := (dirty_nodes_by_layer gs)
        [layer_of gs i := dirty_nodes_by_layer gs ! layer_of gs i @ [i]],
      node_dirty := (node_dirty gs)[i := True]\<rparr>"
  using assms by (auto simp: mark_dirty_def Let_def split: if_splits)

lemma mark_dirty_frame [frame_simps]:
  assumes "mark_dirty i gs = Some gs'"
  shows "nodes gs' = nodes gs" "node_ticked gs' = node_ticked gs"
    "length (node_dirty gs') = length (node_dirty gs)"
    "length (dirty_nodes_by_layer gs') = length (dirty_nodes_by_layer gs)"
    "gs_time gs' = gs_time gs" "scheduled_callbacks gs' = scheduled_callbacks gs"
    "always_callbacks gs' = always_callbacks gs" "ready_callbacks gs' = ready_callbacks gs"
    "node_to_index gs' = node_to_index gs" "current_node_index gs' = current_node_index gs"
    "first_cycle gs' = first_cycle gs" "is_last_cycle gs' = is_last_cycle gs"
    "pending_additions gs' = pending_additions gs" "pending_removals gs' = pending_removals gs"
    "gs_run_mode gs' = gs_run_mode gs" "gs_run_for gs' = gs_run_for gs"
  using assms by (auto elim!: mark_dirty_cases)

lemma mark_dirty_total:
  assumes "wf_lengths gs" and "i < length (nodes gs)"
  shows "\<exists>gs'. mark_dirty i gs = Some gs'"
proof -
  have "layer_of gs i < length (dirty_nodes_by_layer gs)" "i < length (node_dirty gs)"
    using assms by (auto simp: wf_lengths_def)
  with assms(2) show ?thesis by (simp add: mark_dirty_def Let_def)
qed

lemma wf_graph_cong:
  assumes "nodes gs' = nodes gs" "length (node_ticked gs') = length (node_ticked gs)"
    "length (node_dirty gs') = length (node_dirty gs)"
    "length (dirty_nodes_by_layer gs') = length (dirty_nodes_by_layer gs)"
    "scheduled_callbacks gs' = scheduled_callbacks gs"
    "always_callbacks gs' = always_callbacks gs" "ready_callbacks gs' = ready_callbacks gs"
    "node_to_index gs' = node_to_index gs"
  shows "wf_graph gs' = wf_graph gs"
  using assms by (simp add: wf_defs)

lemma mark_dirty_wf_graph [wf_intros]:
  "mark_dirty i gs = Some gs' \<Longrightarrow> wf_graph gs \<Longrightarrow> wf_graph gs'"
  by (subst wf_graph_cong[of gs' gs]) (auto dest: mark_dirty_frame)

lemma mark_dirty_wf_dirty [wf_intros]:
  assumes "mark_dirty i gs = Some gs'" and "wf_lengths gs" and "wf_dirty gs"
  shows "wf_dirty gs'"
  using assms(1)
proof (cases rule: mark_dirty_cases)
  case 1
  with assms(3) show ?thesis by simp
next
  case 2
  let ?D = "dirty_nodes_by_layer gs" and ?L = "layer_of gs i"
  have old: "distinct (?D ! l)" "\<And>j. j \<in> set (?D ! l) \<Longrightarrow>
      j < length (nodes gs) \<and> layer_of gs j = l \<and> node_dirty gs ! j" if "l < length ?D" for l
    using that assms(3) by (simp_all add: wf_dirty_def)
  have fresh: "i \<notin> set (?D ! l)" if "l < length ?D" for l
    using old(2)[OF that, of i] 2(1) by blast
  have new: "dirty_nodes_by_layer gs' ! l = (if l = ?L then ?D ! l @ [i] else ?D ! l)" for l
    using 2(4,5) by (simp add: nth_list_update_if)
  have flag: "node_dirty gs' ! j = (j = i \<or> node_dirty gs ! j)" for j
    using 2(2,5) by (simp add: nth_list_update_if)
  note frame = mark_dirty_frame(1,4)[OF assms(1)]
  have "distinct (dirty_nodes_by_layer gs' ! l)" if "l < length ?D" for l
    using old(1)[OF that] fresh[OF that] by (auto simp: new)
  moreover have "j < length (nodes gs) \<and> layer_of gs j = l \<and> node_dirty gs' ! j"
    if "l < length ?D" and "j \<in> set (dirty_nodes_by_layer gs' ! l)" for l j
    using that old(2)[OF that(1), of j] 2(3) by (auto simp: new flag split: if_splits)
  moreover have "j \<in> set (dirty_nodes_by_layer gs' ! layer_of gs j)"
    if "j < length (nodes gs)" and "node_dirty gs' ! j" for j
    using that assms(3) by (auto simp: new flag wf_dirty_def)
  ultimately show ?thesis
    by (simp add: wf_dirty_def frame)
qed

lemma mark_dirty_dirty_set:
  assumes "mark_dirty i gs = Some gs'" and "wf_lengths gs" and "wf_dirty gs" "i < length (nodes gs)"
  shows "dirty_set gs' = insert i (dirty_set gs)"
  using assms(1)
proof (cases rule: mark_dirty_cases)
  case 1
  with dirty_set_iff[OF assms(2-4)] show ?thesis by auto
next
  case 2
  with set_concat_append_at[OF 2(4), of i] show ?thesis by (simp add: dirty_set_def)
qed

text \<open>A mark only appends to the list of the marked node's layer.\<close>

lemma mark_dirty_other_layer:
  assumes "mark_dirty i gs = Some gs'" and "l \<noteq> layer_of gs i"
  shows "dirty_nodes_by_layer gs' ! l = dirty_nodes_by_layer gs ! l"
  using assms(1) by (cases rule: mark_dirty_cases) (use assms(2) in auto)

subsection \<open>Marking a list of nodes\<close>

fun mark_all :: "nat list \<Rightarrow> graph_state \<Rightarrow> graph_state option" where
  "mark_all [] gs = Some gs"
| "mark_all (i # is) gs = do { gs' \<leftarrow> mark_dirty i gs; mark_all is gs' }"

lemma mark_all_frame [frame_simps]:
  assumes "mark_all is gs = Some gs'"
  shows "nodes gs' = nodes gs" "node_ticked gs' = node_ticked gs"
    "length (node_dirty gs') = length (node_dirty gs)"
    "length (dirty_nodes_by_layer gs') = length (dirty_nodes_by_layer gs)"
    "gs_time gs' = gs_time gs" "scheduled_callbacks gs' = scheduled_callbacks gs"
    "always_callbacks gs' = always_callbacks gs" "ready_callbacks gs' = ready_callbacks gs"
    "node_to_index gs' = node_to_index gs" "current_node_index gs' = current_node_index gs"
    "first_cycle gs' = first_cycle gs" "is_last_cycle gs' = is_last_cycle gs"
    "pending_additions gs' = pending_additions gs" "pending_removals gs' = pending_removals gs"
    "gs_run_mode gs' = gs_run_mode gs" "gs_run_for gs' = gs_run_for gs"
  using assms
  by (induction "is" arbitrary: gs)
    (auto simp: mark_dirty_frame split: Option.bind_splits)

lemma mark_all_wf:
  assumes "mark_all is gs = Some gs'" and "wf_graph gs" and "wf_dirty gs"
    and "\<forall>i \<in> set is. i < length (nodes gs)"
  shows "wf_graph gs' \<and> wf_dirty gs' \<and> dirty_set gs' = dirty_set gs \<union> set is"
  using assms
proof (induction "is" arbitrary: gs)
  case Nil
  then show ?case by simp
next
  case (Cons i "is")
  from Cons.prems(1) obtain gs1 where m: "mark_dirty i gs = Some gs1" "mark_all is gs1 = Some gs'"
    by (auto split: Option.bind_splits)
  have wl: "wf_lengths gs" using Cons.prems(2) by (simp add: wf_graph_def)
  from mark_dirty_wf_graph[OF m(1) Cons.prems(2)] mark_dirty_wf_dirty[OF m(1) wl Cons.prems(3)]
    Cons.IH[OF m(2)] Cons.prems(4) mark_dirty_dirty_set[OF m(1) wl Cons.prems(3)]
    mark_dirty_frame(1)[OF m(1)]
  show ?case by auto
qed

lemma mark_all_total:
  assumes "wf_graph gs" and "\<forall>i \<in> set is. i < length (nodes gs)"
  shows "\<exists>gs'. mark_all is gs = Some gs'"
  using assms
proof (induction "is" arbitrary: gs)
  case Nil
  then show ?case by simp
next
  case (Cons i "is")
  then obtain gs1 where m: "mark_dirty i gs = Some gs1"
    using mark_dirty_total[of gs i] by (auto simp: wf_graph_def)
  with Cons.IH[of gs1] Cons.prems mark_dirty_wf_graph[OF m] mark_dirty_frame(1)[OF m]
  show ?case by auto
qed

lemma mark_all_other_layer:
  assumes "mark_all is gs = Some gs'" and "\<forall>i \<in> set is. layer_of gs i \<noteq> l"
  shows "dirty_nodes_by_layer gs' ! l = dirty_nodes_by_layer gs ! l"
  using assms
proof (induction "is" arbitrary: gs)
  case Nil
  then show ?case by simp
next
  case (Cons i "is")
  from Cons.prems(1) obtain gs1 where m: "mark_dirty i gs = Some gs1" "mark_all is gs1 = Some gs'"
    by (auto split: Option.bind_splits)
  with Cons.IH[OF m(2)] Cons.prems(2) mark_dirty_other_layer[OF m(1), of l]
    mark_dirty_frame(1)[OF m(1)]
  show ?case by auto
qed

subsection \<open>Method calls of a node\<close>

text \<open>
  What the engine relies on in the method calls of the node at index \<open>ix\<close>: the indices they
  name are in range, and a direct mark (used by the demultiplexer alone) goes to a node of a
  higher layer, one that this engine cycle has not passed yet.
\<close>

fun cmd_in_range :: "graph_state \<Rightarrow> cmd \<Rightarrow> bool" where
  "cmd_in_range gs (AddCallbackForNode i t) \<longleftrightarrow> i < length (nodes gs)"
| "cmd_in_range gs (MarkDirty i) \<longleftrightarrow> i < length (nodes gs)"
| "cmd_in_range gs (NotifyReady i) \<longleftrightarrow> i < length (nodes gs)"
| "cmd_in_range gs _ \<longleftrightarrow> True"

fun cmd_deeper :: "graph_state \<Rightarrow> nat \<Rightarrow> cmd \<Rightarrow> bool" where
  "cmd_deeper gs ix (MarkDirty i) \<longleftrightarrow> layer_of gs ix < layer_of gs i"
| "cmd_deeper gs ix _ \<longleftrightarrow> True"

definition marks :: "cmd list \<Rightarrow> nat list" where
  "marks cs = List.map_filter (\<lambda>c. case c of MarkDirty i \<Rightarrow> Some i | _ \<Rightarrow> None) cs"

lemma marks_simps [simp]:
  "marks [] = []"
  "marks (c # cs) = (case c of MarkDirty i \<Rightarrow> i # marks cs | _ \<Rightarrow> marks cs)"
  by (simp_all add: marks_def map_filter_simps split: cmd.splits)

lemma set_marks: "set (marks cs) = {i. MarkDirty i \<in> set cs}"
  by (induction cs) (auto split: cmd.splits)

lemma run_cmd_frame [frame_simps]:
  assumes "run_cmd c gs = Some gs'"
  shows "nodes gs' = nodes gs" "node_ticked gs' = node_ticked gs"
    "length (node_dirty gs') = length (node_dirty gs)"
    "length (dirty_nodes_by_layer gs') = length (dirty_nodes_by_layer gs)"
    "gs_time gs' = gs_time gs" "node_to_index gs' = node_to_index gs"
    "current_node_index gs' = current_node_index gs"
    "first_cycle gs' = first_cycle gs" "is_last_cycle gs' = is_last_cycle gs"
    "gs_run_mode gs' = gs_run_mode gs" "gs_run_for gs' = gs_run_for gs"
  using assms
  by (cases c; auto simp: mark_dirty_frame add_callback_def add_callback_for_node_def
      always_callback_def add_upstream_def remove_node_def ready_notify_def
      split: option.splits if_splits)+

lemma run_cmds_frame [frame_simps]:
  assumes "run_cmds cs gs = Some gs'"
  shows "nodes gs' = nodes gs" "node_ticked gs' = node_ticked gs"
    "length (node_dirty gs') = length (node_dirty gs)"
    "length (dirty_nodes_by_layer gs') = length (dirty_nodes_by_layer gs)"
    "gs_time gs' = gs_time gs" "node_to_index gs' = node_to_index gs"
    "current_node_index gs' = current_node_index gs"
    "first_cycle gs' = first_cycle gs" "is_last_cycle gs' = is_last_cycle gs"
    "gs_run_mode gs' = gs_run_mode gs" "gs_run_for gs' = gs_run_for gs"
  using assms
  by (induction cs arbitrary: gs) (auto simp: run_cmd_frame split: Option.bind_splits)

lemma in_heap_push: "e \<in> set (heap (tq_push eq i t q)) \<Longrightarrow> e_value e = i \<or> e \<in> set (heap q)"
  by (auto simp: tq_push_def split: if_splits)

lemma add_callback_for_node_wf [wf_intros]:
  "wf_graph gs \<Longrightarrow> i < length (nodes gs) \<Longrightarrow> wf_graph (add_callback_for_node i t gs)"
  by (auto simp: wf_defs add_callback_for_node_def dest!: in_heap_push)

lemma run_cmd_wf:
  assumes "wf_graph gs" and "wf_dirty gs" and "cmd_in_range gs c"
    and "current_node_index gs = Some ix" and "ix < length (nodes gs)"
  shows "\<exists>gs'. run_cmd c gs = Some gs' \<and> wf_graph gs' \<and> wf_dirty gs' \<and>
    dirty_set gs' = dirty_set gs \<union> set (marks [c])"
proof (cases c)
  case (MarkDirty i)
  with assms(1,3) obtain gs' where m: "mark_dirty i gs = Some gs'"
    using mark_dirty_total[of gs i] by (auto simp: wf_graph_def)
  with MarkDirty assms mark_dirty_wf_graph[OF m] mark_dirty_wf_dirty[OF m] mark_dirty_dirty_set[OF m]
  show ?thesis by (auto simp: wf_graph_def)
next
  case (AddCallbackForNode i t)
  with assms show ?thesis
    using add_callback_for_node_wf[of gs i t]
    by (auto simp: add_callback_for_node_def wf_dirty_def dirty_set_def)
next
  case (AddCallback t)
  with assms show ?thesis
    using add_callback_for_node_wf[of gs ix t]
    by (auto simp: add_callback_def add_callback_for_node_def wf_dirty_def dirty_set_def)
qed (use assms in \<open>auto simp: always_callback_def add_upstream_def remove_node_def
      ready_notify_def wf_defs wf_dirty_def dirty_set_def\<close>)

lemma run_cmds_wf:
  assumes "wf_graph gs" and "wf_dirty gs" and "\<forall>c \<in> set cs. cmd_in_range gs c"
    and "current_node_index gs = Some ix" and "ix < length (nodes gs)"
  shows "\<exists>gs'. run_cmds cs gs = Some gs' \<and> wf_graph gs' \<and> wf_dirty gs' \<and>
    dirty_set gs' = dirty_set gs \<union> set (marks cs)"
  using assms
proof (induction cs arbitrary: gs)
  case Nil
  then show ?case by simp
next
  case (Cons c cs)
  from run_cmd_wf[of gs c ix] Cons.prems obtain gs1 where
    c: "run_cmd c gs = Some gs1" "wf_graph gs1" "wf_dirty gs1"
      "dirty_set gs1 = dirty_set gs \<union> set (marks [c])"
    by auto
  have "\<forall>c' \<in> set cs. cmd_in_range gs1 c'"
  proof
    fix c' assume "c' \<in> set cs"
    with Cons.prems(3) have "cmd_in_range gs c'" by simp
    then show "cmd_in_range gs1 c'" by (cases c') (simp_all add: run_cmd_frame[OF c(1)])
  qed
  with Cons.IH[of gs1] c Cons.prems(4,5) run_cmd_frame[OF c(1)] obtain gs' where
    "run_cmds cs gs1 = Some gs'" "wf_graph gs'" "wf_dirty gs'"
    "dirty_set gs' = dirty_set gs1 \<union> set (marks cs)" by auto
  with c show ?case by (auto split: cmd.splits)
qed

lemma run_cmds_other_layer:
  assumes "run_cmds cs gs = Some gs'" and "\<forall>c \<in> set cs. cmd_deeper gs ix c" and "l \<le> layer_of gs ix"
  shows "dirty_nodes_by_layer gs' ! l = dirty_nodes_by_layer gs ! l"
  using assms
proof (induction cs arbitrary: gs)
  case Nil
  then show ?case by simp
next
  case (Cons c cs)
  from Cons.prems(1) obtain gs1 where c: "run_cmd c gs = Some gs1" "run_cmds cs gs1 = Some gs'"
    by (auto split: Option.bind_splits)
  have same: "nodes gs1 = nodes gs" using run_cmd_frame(1)[OF c(1)] .
  have deeper: "cmd_deeper gs1 ix c' = cmd_deeper gs ix c'" for c'
    by (cases c') (simp_all add: same)
  have "dirty_nodes_by_layer gs1 ! l = dirty_nodes_by_layer gs ! l"
    using c(1) Cons.prems(2,3)
    by (cases c) (auto simp: add_callback_def add_callback_for_node_def always_callback_def
        add_upstream_def remove_node_def ready_notify_def mark_dirty_other_layer
        split: option.splits if_splits)
  with Cons.IH[OF c(2)] Cons.prems(2,3) deeper same show ?case by simp
qed

end
