(* ===== verification/Wiring.thy ===== *)
theory Wiring
  imports Graph_State
begin

text \<open>
  Wiring: \<open>WiringFrame\<close>, \<open>Graph::initialise_node\<close>, \<open>Graph::initialise\<close> and \<open>Graph::new\<close> of
  \<^verbatim>\<open>src/wingfoil/src/graph.rs\<close>. The work stack of \<open>initialise_node\<close> is a list whose head is
  the top; one iteration of its loop is \<open>wiring_step\<close>, and the loop itself is
  \<open>while_option\<close>: \<open>None\<close> is a crawl that never ends, which cannot happen when finitely
  many nodes are reachable from the root (\<open>initialise_node_returns\<close>).
\<close>

section \<open>The crawl\<close>

record wiring_frame =
  fr_node :: node
  fr_upstreams :: "(node \<times> bool) list"
  fr_next :: nat
  fr_layer :: nat
  fr_edges :: "edge list"

text \<open>\<^verbatim>\<open>(upstream, is_active)\<close> pairs of a node, active upstreams first.\<close>

definition upstream_pairs :: "'s node_ops \<Rightarrow> 's \<Rightarrow> node \<Rightarrow> (node \<times> bool) list" where
  "upstream_pairs ops s n = (case op_upstreams ops s n of (active, passive) \<Rightarrow>
     map (\<lambda>u. (u, True)) active @ map (\<lambda>u. (u, False)) passive)"

definition wiring_frame_new :: "(node \<Rightarrow> (node \<times> bool) list) \<Rightarrow> node \<Rightarrow> wiring_frame" where
  "wiring_frame_new ups n =
     \<lparr>fr_node = n, fr_upstreams = ups n, fr_next = 0, fr_layer = 0, fr_edges = []\<rparr>"

record wiring =
  wi_gs :: graph_state
  wi_stack :: "wiring_frame list"
  wi_in_progress :: "node set"
  wi_error :: "anyhow option"
  wi_panic :: bool

definition record_edge :: "nat \<Rightarrow> bool \<Rightarrow> nat \<Rightarrow> wiring_frame \<Rightarrow> wiring_frame" where
  "record_edge idx is_active up_layer fr =
     fr\<lparr>fr_edges := fr_edges fr @ [\<lparr>ed_node_index = idx, ed_active = is_active\<rparr>],
        fr_layer := max (fr_layer fr) (up_layer + 1),
        fr_next := fr_next fr + 1\<rparr>"

definition finalise_node :: "wiring_frame \<Rightarrow> graph_state \<Rightarrow> graph_state" where
  "finalise_node fr gs =
     (let gs' = push_node (fr_node fr) gs in
      gs'\<lparr>nodes := nodes gs' @
        [\<lparr>nd_node = fr_node fr, nd_upstreams = fr_edges fr, nd_downstreams = [],
          nd_layer = fr_layer fr, nd_active = True\<rparr>]\<rparr>)"

definition wiring_step :: "(node \<Rightarrow> (node \<times> bool) list) \<Rightarrow> wiring \<Rightarrow> wiring" where
  "wiring_step ups w = (case wi_stack w of
       [] \<Rightarrow> w
     | fr # rest \<Rightarrow>
       (if fr_next fr < length (fr_upstreams fr) then
          (case fr_upstreams fr ! fr_next fr of (up, is_active) \<Rightarrow>
             (case node_index (wi_gs w) up of
                Some idx \<Rightarrow>
                  if idx < length (nodes (wi_gs w)) then
                    w\<lparr>wi_stack := record_edge idx is_active (layer_of (wi_gs w) idx) fr # rest\<rparr>
                  else w\<lparr>wi_panic := True\<rparr>
              | None \<Rightarrow>
                  if up \<in> wi_in_progress w then w\<lparr>wi_error := Some (CycleDetected up)\<rparr>
                  else w\<lparr>wi_in_progress := insert up (wi_in_progress w),
                         wi_stack := wiring_frame_new ups up # wi_stack w\<rparr>))
        else
          w\<lparr>wi_stack := rest, wi_in_progress := wi_in_progress w - {fr_node fr},
            wi_gs := finalise_node fr (wi_gs w)\<rparr>))"

definition wiring_running :: "wiring \<Rightarrow> bool" where
  "wiring_running w \<longleftrightarrow> wi_stack w \<noteq> [] \<and> wi_error w = None \<and> \<not> wi_panic w"

definition wiring_init :: "(node \<Rightarrow> (node \<times> bool) list) \<Rightarrow> node \<Rightarrow> graph_state \<Rightarrow> wiring" where
  "wiring_init ups root gs = \<lparr>wi_gs = gs, wi_stack = [wiring_frame_new ups root],
     wi_in_progress = {root}, wi_error = None, wi_panic = False\<rparr>"

definition initialise_node ::
  "(node \<Rightarrow> (node \<times> bool) list) \<Rightarrow> node \<Rightarrow> graph_state \<Rightarrow> (graph_state \<times> (anyhow + nat)) option" where
  "initialise_node ups root gs = (case node_index gs root of
       Some i \<Rightarrow> Some (gs, Inr i)
     | None \<Rightarrow> (case while_option wiring_running (wiring_step ups) (wiring_init ups root gs) of
           None \<Rightarrow> None
         | Some w \<Rightarrow>
             if wi_panic w then None
             else (case wi_error w of
                 Some e \<Rightarrow> Some (wi_gs w, Inl e)
               | None \<Rightarrow> (case node_index (wi_gs w) root of
                     None \<Rightarrow> None | Some i \<Rightarrow> Some (wi_gs w, Inr i)))))"

section \<open>The invariant of the crawl\<close>

definition registry_ok :: "graph_state \<Rightarrow> bool" where
  "registry_ok gs \<longleftrightarrow> length (node_ticked gs) = length (nodes gs) \<and>
     (\<forall>n i. node_to_index gs n = Some i \<longrightarrow> i < length (nodes gs) \<and> nd_node (nodes gs ! i) = n) \<and>
     (\<forall>i < length (nodes gs). node_to_index gs (nd_node (nodes gs ! i)) = Some i)"

definition edge_of :: "graph_state \<Rightarrow> node \<times> bool \<Rightarrow> edge" where
  "edge_of gs p = \<lparr>ed_node_index = the (node_to_index gs (fst p)), ed_active = snd p\<rparr>"

definition edges_layer :: "graph_state \<Rightarrow> edge list \<Rightarrow> nat" where
  "edges_layer gs es = foldl (\<lambda>l e. max l (layer_of gs (ed_node_index e) + 1)) 0 es"

text \<open>The node at index \<open>i\<close> is wired as its \<^verbatim>\<open>upstreams()\<close> say, all of them registered before it.\<close>

definition node_wired :: "(node \<Rightarrow> (node \<times> bool) list) \<Rightarrow> graph_state \<Rightarrow> nat \<Rightarrow> bool" where
  "node_wired ups gs i \<longleftrightarrow>
     (\<forall>p \<in> set (ups (nd_node (nodes gs ! i))). \<exists>j < i. node_to_index gs (fst p) = Some j) \<and>
     nd_upstreams (nodes gs ! i) = map (edge_of gs) (ups (nd_node (nodes gs ! i))) \<and>
     nd_layer (nodes gs ! i) = edges_layer gs (nd_upstreams (nodes gs ! i)) \<and>
     nd_downstreams (nodes gs ! i) = [] \<and> nd_active (nodes gs ! i)"

definition frame_ok :: "(node \<Rightarrow> (node \<times> bool) list) \<Rightarrow> graph_state \<Rightarrow> wiring_frame \<Rightarrow> bool" where
  "frame_ok ups gs fr \<longleftrightarrow> \<not> seen gs (fr_node fr) \<and> fr_upstreams fr = ups (fr_node fr) \<and>
     fr_next fr \<le> length (fr_upstreams fr) \<and>
     (\<forall>p \<in> set (take (fr_next fr) (fr_upstreams fr)). seen gs (fst p)) \<and>
     fr_edges fr = map (edge_of gs) (take (fr_next fr) (fr_upstreams fr)) \<and>
     fr_layer fr = edges_layer gs (fr_edges fr)"

text \<open>Each frame is the upstream its parent is waiting for; the last one is the root's.\<close>

fun stack_chain :: "node \<Rightarrow> wiring_frame list \<Rightarrow> bool" where
  "stack_chain root [] \<longleftrightarrow> True"
| "stack_chain root [fr] \<longleftrightarrow> fr_node fr = root"
| "stack_chain root (fr # par # rest) \<longleftrightarrow>
     fr_next par < length (fr_upstreams par) \<and>
     fst (fr_upstreams par ! fr_next par) = fr_node fr \<and> stack_chain root (par # rest)"

definition up_rel :: "(node \<Rightarrow> (node \<times> bool) list) \<Rightarrow> (node \<times> node) set" where
  "up_rel ups = {(n, u). u \<in> fst ` set (ups n)}"

text \<open>What wiring leaves alone.\<close>

definition same_but_nodes :: "graph_state \<Rightarrow> graph_state \<Rightarrow> bool" where
  "same_but_nodes gs0 gs \<longleftrightarrow>
     gs = gs0\<lparr>nodes := nodes gs, node_ticked := node_ticked gs, node_to_index := node_to_index gs\<rparr> \<and>
     take (length (nodes gs0)) (nodes gs) = nodes gs0 \<and> node_to_index gs0 \<subseteq>\<^sub>m node_to_index gs"

definition wiring_inv ::
  "(node \<Rightarrow> (node \<times> bool) list) \<Rightarrow> node \<Rightarrow> graph_state \<Rightarrow> wiring \<Rightarrow> bool" where
  "wiring_inv ups root gs0 w \<longleftrightarrow>
     registry_ok (wi_gs w) \<and> same_but_nodes gs0 (wi_gs w) \<and>
     (\<forall>i. length (nodes gs0) \<le> i \<and> i < length (nodes (wi_gs w)) \<longrightarrow> node_wired ups (wi_gs w) i) \<and>
     (\<forall>i. length (nodes gs0) \<le> i \<and> i < length (nodes (wi_gs w)) \<longrightarrow>
        (root, nd_node (nodes (wi_gs w) ! i)) \<in> (up_rel ups)\<^sup>*) \<and>
     distinct (map fr_node (wi_stack w)) \<and> wi_in_progress w = fr_node ` set (wi_stack w) \<and>
     (\<forall>fr \<in> set (wi_stack w). frame_ok ups (wi_gs w) fr \<and> (root, fr_node fr) \<in> (up_rel ups)\<^sup>*) \<and>
     stack_chain root (wi_stack w) \<and> \<not> wi_panic w \<and>
     (wi_stack w = [] \<longrightarrow> seen (wi_gs w) root) \<and>
     (\<forall>e. wi_error w = Some e \<longrightarrow>
        (\<exists>u. e = CycleDetected u \<and> (root, u) \<in> (up_rel ups)\<^sup>* \<and> (u, u) \<in> (up_rel ups)\<^sup>+))"

lemma edges_layer_append:
  "edges_layer gs (es @ [e]) = max (edges_layer gs es) (layer_of gs (ed_node_index e) + 1)"
  by (simp add: edges_layer_def)

lemma edges_layer_ge: "e \<in> set es \<Longrightarrow> layer_of gs (ed_node_index e) < edges_layer gs es"
proof (induction es rule: rev_induct)
  case Nil
  then show ?case by simp
next
  case (snoc x xs)
  then show ?case by (auto simp: edges_layer_append)
qed

lemma edges_layer_cong:
  "(\<And>e. e \<in> set es \<Longrightarrow> layer_of gs (ed_node_index e) = layer_of gs' (ed_node_index e)) \<Longrightarrow>
   edges_layer gs es = edges_layer gs' es"
  by (induction es rule: rev_induct) (auto simp: edges_layer_append, simp add: edges_layer_def)

subsection \<open>Registering a node\<close>

lemma finalise_node_simps:
  "nodes (finalise_node fr gs) = nodes gs @
     [\<lparr>nd_node = fr_node fr, nd_upstreams = fr_edges fr, nd_downstreams = [],
       nd_layer = fr_layer fr, nd_active = True\<rparr>]"
  "node_ticked (finalise_node fr gs) = node_ticked gs @ [False]"
  "node_to_index (finalise_node fr gs) = (node_to_index gs)(fr_node fr \<mapsto> length (node_ticked gs))"
  by (simp_all add: finalise_node_def push_node_def Let_def)

lemma finalise_edge_of:
  "seen gs (fst p) \<Longrightarrow> \<not> seen gs (fr_node fr) \<Longrightarrow> edge_of (finalise_node fr gs) p = edge_of gs p"
  by (auto simp: edge_of_def seen_def finalise_node_simps)

lemma registry_index_less:
  "registry_ok gs \<Longrightarrow> seen gs n \<Longrightarrow> the (node_to_index gs n) < length (nodes gs)"
  by (auto simp: registry_ok_def seen_def)

lemma finalise_edges_layer:
  assumes "registry_ok gs" "\<forall>p \<in> set ps. seen gs (fst p)"
  shows "edges_layer (finalise_node fr gs) (map (edge_of gs) ps) = edges_layer gs (map (edge_of gs) ps)"
  using registry_index_less[OF assms(1)] assms(2)
  by (intro edges_layer_cong) (auto simp: finalise_node_simps nth_append edge_of_def)

lemma finalise_frame_ok:
  assumes "registry_ok gs" "frame_ok ups gs fr'" "\<not> seen gs (fr_node fr)" "fr_node fr' \<noteq> fr_node fr"
  shows "frame_ok ups (finalise_node fr gs) fr'"
proof -
  have seen_pre: "\<forall>p \<in> set (take (fr_next fr') (fr_upstreams fr')). seen gs (fst p)"
    using assms(2) by (simp add: frame_ok_def)
  have "map (edge_of (finalise_node fr gs)) (take (fr_next fr') (fr_upstreams fr')) = fr_edges fr'"
    using assms(2) finalise_edge_of[OF _ assms(3)] seen_pre by (auto simp: frame_ok_def)
  moreover have "edges_layer (finalise_node fr gs) (fr_edges fr') = edges_layer gs (fr_edges fr')"
    using finalise_edges_layer[OF assms(1) seen_pre] assms(2) by (simp add: frame_ok_def)
  ultimately show ?thesis
    using assms(2,4) by (auto simp: frame_ok_def seen_def finalise_node_simps)
qed

lemma finalise_registry_ok:
  assumes "registry_ok gs" "\<not> seen gs (fr_node fr)"
  shows "registry_ok (finalise_node fr gs)"
proof -
  let ?gs = "finalise_node fr gs"
  have len: "length (node_ticked gs) = length (nodes gs)"
    and fwd: "\<And>n i. node_to_index gs n = Some i \<Longrightarrow> i < length (nodes gs) \<and> nd_node (nodes gs ! i) = n"
    and bwd: "\<And>i. i < length (nodes gs) \<Longrightarrow> node_to_index gs (nd_node (nodes gs ! i)) = Some i"
    using assms(1) by (auto simp: registry_ok_def)
  have "i < length (nodes ?gs) \<and> nd_node (nodes ?gs ! i) = n" if "node_to_index ?gs n = Some i" for n i
    using that fwd[of n i] by (auto simp: finalise_node_simps len nth_append split: if_splits)
  moreover have "node_to_index ?gs (nd_node (nodes ?gs ! i)) = Some i" if "i < length (nodes ?gs)" for i
  proof (cases "i < length (nodes gs)")
    case True
    with bwd[OF True] assms(2) have "nd_node (nodes gs ! i) \<noteq> fr_node fr" by (auto simp: seen_def)
    with bwd[OF True] True show ?thesis by (simp add: finalise_node_simps nth_append)
  next
    case False
    with that have "i = length (nodes gs)" by (simp add: finalise_node_simps)
    then show ?thesis by (simp add: finalise_node_simps len)
  qed
  ultimately show ?thesis by (simp add: registry_ok_def finalise_node_simps len)
qed

lemma finalise_node_wired_old:
  assumes "registry_ok gs" "node_wired ups gs i" "\<not> seen gs (fr_node fr)" "i < length (nodes gs)"
  shows "node_wired ups (finalise_node fr gs) i"
proof -
  let ?ps = "ups (nd_node (nodes gs ! i))"
  have seen_ps: "\<forall>p \<in> set ?ps. seen gs (fst p)"
    using assms(2) by (auto simp: node_wired_def seen_def)
  have "map (edge_of (finalise_node fr gs)) ?ps = map (edge_of gs) ?ps"
    using finalise_edge_of[OF _ assms(3)] seen_ps by auto
  moreover have "\<forall>p \<in> set ?ps. \<exists>j < i. node_to_index (finalise_node fr gs) (fst p) = Some j"
    using assms(2,3) by (fastforce simp: node_wired_def seen_def finalise_node_simps)
  ultimately show ?thesis
    using assms(2,4) finalise_edges_layer[OF assms(1) seen_ps]
    by (auto simp: node_wired_def finalise_node_simps nth_append)
qed

lemma finalise_node_wired_new:
  assumes "registry_ok gs" "frame_ok ups gs fr" "fr_next fr = length (fr_upstreams fr)"
  shows "node_wired ups (finalise_node fr gs) (length (nodes gs))"
proof -
  let ?ps = "ups (fr_node fr)"
  have fr: "\<not> seen gs (fr_node fr)" "\<forall>p \<in> set ?ps. seen gs (fst p)"
    "fr_edges fr = map (edge_of gs) ?ps" "fr_layer fr = edges_layer gs (fr_edges fr)"
    using assms(2,3) by (auto simp: frame_ok_def)
  have "map (edge_of (finalise_node fr gs)) ?ps = map (edge_of gs) ?ps"
    using finalise_edge_of[OF _ fr(1)] fr(2) by auto
  moreover have "\<exists>j < length (nodes gs). node_to_index (finalise_node fr gs) (fst p) = Some j"
    if "p \<in> set ?ps" for p
    using that fr(1,2) registry_index_less[OF assms(1), of "fst p"]
    by (auto simp: seen_def finalise_node_simps)
  ultimately show ?thesis
    using fr finalise_edges_layer[OF assms(1) fr(2), of fr]
    by (simp add: node_wired_def finalise_node_simps nth_append)
qed

lemma same_but_nodes_finalise:
  assumes "same_but_nodes gs0 gs" "\<not> seen gs (fr_node fr)"
  shows "same_but_nodes gs0 (finalise_node fr gs)"
proof -
  let ?gs = "finalise_node fr gs"
  have len: "length (nodes gs0) \<le> length (nodes gs)"
    using assms(1) unfolding same_but_nodes_def by (metis length_take min.cobounded1)
  have "node_to_index gs0 x = node_to_index ?gs x" if "x \<in> dom (node_to_index gs0)" for x
  proof -
    have "node_to_index gs0 x = node_to_index gs x"
      using that assms(1) by (auto simp: same_but_nodes_def map_le_def)
    with that assms(2) show ?thesis by (auto simp: finalise_node_simps seen_def)
  qed
  then have "node_to_index gs0 \<subseteq>\<^sub>m node_to_index ?gs" by (simp add: map_le_def)
  moreover have "?gs = gs0\<lparr>nodes := nodes ?gs, node_ticked := node_ticked ?gs,
      node_to_index := node_to_index ?gs\<rparr>"
  proof -
    obtain ns tk ix where gs: "gs = gs0\<lparr>nodes := ns, node_ticked := tk, node_to_index := ix\<rparr>"
      using assms(1) unfolding same_but_nodes_def by blast
    show ?thesis unfolding gs finalise_node_def push_node_def Let_def by simp
  qed
  ultimately show ?thesis
    using assms(1) len by (simp add: same_but_nodes_def finalise_node_simps)
qed


subsection \<open>One step keeps the invariant\<close>

lemma stack_chain_reaches_top:
  assumes "stack_chain root (fr # rest)" "\<forall>f \<in> set (fr # rest). fr_upstreams f = ups (fr_node f)"
    "f \<in> set (fr # rest)"
  shows "(fr_node f, fr_node fr) \<in> (up_rel ups)\<^sup>*"
  using assms
proof (induction rest arbitrary: fr)
  case Nil
  then show ?case by simp
next
  case (Cons par rest)
  have "(fr_node par, fr_node fr) \<in> up_rel ups"
    using Cons.prems(1,2) by (auto simp: up_rel_def intro!: image_eqI[OF _ nth_mem])
  moreover have "(fr_node f, fr_node par) \<in> (up_rel ups)\<^sup>*" if "f \<noteq> fr"
    using Cons.IH[of par] Cons.prems that by simp
  ultimately show ?case by (cases "f = fr") auto
qed

lemma stack_chain_top_update:
  "fr_node fr' = fr_node fr \<Longrightarrow> stack_chain root (fr' # rest) = stack_chain root (fr # rest)"
  by (cases rest) auto

lemma stack_chain_tl: "stack_chain root (fr # rest) \<Longrightarrow> stack_chain root rest"
  by (cases rest) auto

lemma record_edge_frame_ok:
  assumes "frame_ok ups gs fr" "fr_next fr < length (fr_upstreams fr)"
    "fr_upstreams fr ! fr_next fr = (up, a)" "node_to_index gs up = Some idx"
  shows "frame_ok ups gs (record_edge idx a (layer_of gs idx) fr)"
proof -
  have "edge_of gs (up, a) = \<lparr>ed_node_index = idx, ed_active = a\<rparr>"
    using assms(4) by (simp add: edge_of_def)
  then show ?thesis
    using assms by (auto simp: frame_ok_def record_edge_def take_Suc_conv_app_nth seen_def edges_layer_append)
qed

lemma wiring_frame_new_ok: "\<not> seen gs n \<Longrightarrow> frame_ok ups gs (wiring_frame_new ups n)"
  by (simp add: frame_ok_def wiring_frame_new_def edges_layer_def)

lemma up_rel_step:
  "frame_ok ups gs fr \<Longrightarrow> fr_next fr < length (fr_upstreams fr) \<Longrightarrow>
   fr_upstreams fr ! fr_next fr = (up, a) \<Longrightarrow> (fr_node fr, up) \<in> up_rel ups"
  by (auto simp: frame_ok_def up_rel_def image_iff) (metis fst_conv nth_mem)

lemma wiring_inv_cycle:
  assumes inv: "wiring_inv ups root gs0 w" and st: "wi_stack w = fr # rest"
    and nx: "fr_next fr < length (fr_upstreams fr)" "fr_upstreams fr ! fr_next fr = (up, a)"
    and prog: "up \<in> wi_in_progress w"
  shows "wiring_inv ups root gs0 (w\<lparr>wi_error := Some (CycleDetected up)\<rparr>)"
proof -
  have ok: "\<forall>f \<in> set (fr # rest). frame_ok ups (wi_gs w) f \<and> (root, fr_node f) \<in> (up_rel ups)\<^sup>*"
    and chain: "stack_chain root (fr # rest)" and ip: "wi_in_progress w = fr_node ` set (fr # rest)"
    using inv st by (auto simp: wiring_inv_def)
  obtain f where f: "f \<in> set (fr # rest)" "fr_node f = up" using prog ip by auto
  have "\<forall>f \<in> set (fr # rest). fr_upstreams f = ups (fr_node f)" using ok by (simp add: frame_ok_def)
  from stack_chain_reaches_top[OF chain this f(1)] f(2)
  have "(up, fr_node fr) \<in> (up_rel ups)\<^sup>*" by simp
  moreover have "(fr_node fr, up) \<in> up_rel ups" using up_rel_step[OF _ nx] ok by auto
  ultimately have "(up, up) \<in> (up_rel ups)\<^sup>+" by (rule rtrancl_into_trancl1)
  moreover have "(root, up) \<in> (up_rel ups)\<^sup>*" using ok f by auto
  ultimately show ?thesis using inv by (simp add: wiring_inv_def)
qed

lemma wiring_inv_record:
  assumes inv: "wiring_inv ups root gs0 w" and st: "wi_stack w = fr # rest"
    and nx: "fr_next fr < length (fr_upstreams fr)" "fr_upstreams fr ! fr_next fr = (up, a)"
    and idx: "node_to_index (wi_gs w) up = Some idx"
  shows "wiring_inv ups root gs0
    (w\<lparr>wi_stack := record_edge idx a (layer_of (wi_gs w) idx) fr # rest\<rparr>)"
proof -
  have same: "fr_node (record_edge idx a l fr) = fr_node fr" for l by (simp add: record_edge_def)
  have "frame_ok ups (wi_gs w) fr" using inv st by (simp add: wiring_inv_def)
  from record_edge_frame_ok[OF this nx idx] show ?thesis
    using inv st stack_chain_top_update[OF same, of root _ rest] by (simp add: wiring_inv_def same)
qed

lemma wiring_inv_descend:
  assumes inv: "wiring_inv ups root gs0 w" and st: "wi_stack w = fr # rest"
    and nx: "fr_next fr < length (fr_upstreams fr)" "fr_upstreams fr ! fr_next fr = (up, a)"
    and new: "\<not> seen (wi_gs w) up" "up \<notin> wi_in_progress w"
  shows "wiring_inv ups root gs0 (w\<lparr>wi_in_progress := insert up (wi_in_progress w),
    wi_stack := wiring_frame_new ups up # wi_stack w\<rparr>)"
proof -
  have same: "fr_node (wiring_frame_new ups up) = up" by (simp add: wiring_frame_new_def)
  have fr: "frame_ok ups (wi_gs w) fr" "(root, fr_node fr) \<in> (up_rel ups)\<^sup>*"
    using inv st by (auto simp: wiring_inv_def)
  from fr(2) up_rel_step[OF fr(1) nx] have "(root, up) \<in> (up_rel ups)\<^sup>*" by (rule rtrancl_into_rtrancl)
  with inv st nx new wiring_frame_new_ok[OF new(1)] show ?thesis
    by (auto simp: wiring_inv_def same)
qed

lemma wiring_inv_finalise:
  assumes inv: "wiring_inv ups root gs0 w" and st: "wi_stack w = fr # rest"
    and nx: "\<not> fr_next fr < length (fr_upstreams fr)"
  shows "wiring_inv ups root gs0 (w\<lparr>wi_stack := rest,
    wi_in_progress := wi_in_progress w - {fr_node fr}, wi_gs := finalise_node fr (wi_gs w)\<rparr>)"
    (is "wiring_inv _ _ _ ?w")
proof -
  let ?gs = "wi_gs w" and ?n = "length (nodes gs0)"
  have reg: "registry_ok ?gs" and same: "same_but_nodes gs0 ?gs"
    and old: "\<And>i. ?n \<le> i \<Longrightarrow> i < length (nodes ?gs) \<Longrightarrow> node_wired ups ?gs i"
    and reach: "\<And>i. ?n \<le> i \<Longrightarrow> i < length (nodes ?gs) \<Longrightarrow>
      (root, nd_node (nodes ?gs ! i)) \<in> (up_rel ups)\<^sup>*"
    and frs: "\<And>f. f \<in> set (fr # rest) \<Longrightarrow> frame_ok ups ?gs f \<and> (root, fr_node f) \<in> (up_rel ups)\<^sup>*"
    and dist: "distinct (map fr_node (fr # rest))" and chain: "stack_chain root (fr # rest)"
    using inv st by (auto simp: wiring_inv_def)
  have unseen: "\<not> seen ?gs (fr_node fr)" and full: "fr_next fr = length (fr_upstreams fr)"
    using frs[of fr] nx by (auto simp: frame_ok_def)
  have idx: "i < length (nodes ?gs) \<or> i = length (nodes ?gs)"
    if "i < length (nodes (finalise_node fr ?gs))" for i
    using that by (auto simp: finalise_node_simps)
  have "node_wired ups (finalise_node fr ?gs) i"
    if "?n \<le> i" "i < length (nodes (finalise_node fr ?gs))" for i
    using idx[OF that(2)] finalise_node_wired_old[OF reg old unseen] that(1)
      finalise_node_wired_new[OF reg _ full] frs[of fr] by auto
  moreover have "(root, nd_node (nodes (finalise_node fr ?gs) ! i)) \<in> (up_rel ups)\<^sup>*"
    if "?n \<le> i" "i < length (nodes (finalise_node fr ?gs))" for i
    using idx[OF that(2)] reach[OF that(1)] frs[of fr] by (auto simp: finalise_node_simps nth_append)
  moreover have "frame_ok ups (finalise_node fr ?gs) f" if "f \<in> set rest" for f
  proof (rule finalise_frame_ok[OF reg _ unseen])
    show "frame_ok ups ?gs f" using frs[of f] that by simp
    show "fr_node f \<noteq> fr_node fr"
      using that dist by (metis distinct.simps(2) image_eqI list.simps(9) set_map)
  qed
  moreover have "seen (finalise_node fr ?gs) root" if "rest = []"
    using chain that by (auto simp: seen_def finalise_node_simps)
  moreover have "wi_in_progress w - {fr_node fr} = fr_node ` set rest"
    using inv st dist by (auto simp: wiring_inv_def)
  ultimately show ?thesis
    using inv st dist finalise_registry_ok[OF reg unseen] same_but_nodes_finalise[OF same unseen]
      stack_chain_tl[OF chain] frs by (simp add: wiring_inv_def)
qed

lemma wiring_step_inv:
  assumes inv: "wiring_inv ups root gs0 w"
  shows "wiring_inv ups root gs0 (wiring_step ups w)"
proof (cases "wi_stack w")
  case Nil
  with inv show ?thesis by (simp add: wiring_step_def)
next
  case (Cons fr rest)
  show ?thesis
  proof (cases "fr_next fr < length (fr_upstreams fr)")
    case False
    with wiring_inv_finalise[OF inv Cons False] Cons show ?thesis by (simp add: wiring_step_def)
  next
    case True
    obtain up a where up: "fr_upstreams fr ! fr_next fr = (up, a)" by fastforce
    have reg: "registry_ok (wi_gs w)" using inv by (simp add: wiring_inv_def)
    show ?thesis
    proof (cases "node_to_index (wi_gs w) up")
      case (Some idx)
      with reg have "idx < length (nodes (wi_gs w))" by (simp add: registry_ok_def)
      with wiring_inv_record[OF inv Cons True up Some] Cons True up Some show ?thesis
        by (simp add: wiring_step_def node_index_def)
    next
      case None
      then have "\<not> seen (wi_gs w) up" by (simp add: seen_def)
      with wiring_inv_cycle[OF inv Cons True up] wiring_inv_descend[OF inv Cons True up this]
        Cons True up None show ?thesis
        by (simp add: wiring_step_def node_index_def)
    qed
  qed
qed


subsection \<open>The crawl ends\<close>

definition wiring_todo :: "wiring \<Rightarrow> nat" where
  "wiring_todo w = sum_list (map (\<lambda>fr. length (fr_upstreams fr) - fr_next fr + 1) (wi_stack w))"

definition wiring_fresh :: "node set \<Rightarrow> wiring \<Rightarrow> nat" where
  "wiring_fresh R w = card (R - dom (node_to_index (wi_gs w)) - wi_in_progress w)"

definition wiring_alive :: "wiring \<Rightarrow> nat" where
  "wiring_alive w = (if wi_error w = None then 1 else 0)"

lemma wiring_step_decreases:
  assumes inv: "wiring_inv ups root gs0 w" and run: "wiring_running w"
    and fin: "finite R" and R: "\<And>n. (root, n) \<in> (up_rel ups)\<^sup>* \<Longrightarrow> n \<in> R"
  shows "(wiring_step ups w, w) \<in> measures [wiring_alive, wiring_fresh R, wiring_todo]"
proof -
  obtain fr rest where st: "wi_stack w = fr # rest" and noerr: "wi_error w = None"
    using run by (auto simp: wiring_running_def neq_Nil_conv)
  have fr: "frame_ok ups (wi_gs w) fr" "(root, fr_node fr) \<in> (up_rel ups)\<^sup>*"
    and prog: "fr_node fr \<in> wi_in_progress w" and reg: "registry_ok (wi_gs w)"
    using inv st by (auto simp: wiring_inv_def)
  show ?thesis
  proof (cases "fr_next fr < length (fr_upstreams fr)")
    case False
    let ?w = "wiring_step ups w"
    have w: "?w = w\<lparr>wi_stack := rest, wi_in_progress := wi_in_progress w - {fr_node fr},
        wi_gs := finalise_node fr (wi_gs w)\<rparr>"
      using False st by (simp add: wiring_step_def)
    have "R - dom (node_to_index (finalise_node fr (wi_gs w))) - (wi_in_progress w - {fr_node fr})
        = R - dom (node_to_index (wi_gs w)) - wi_in_progress w"
      using prog by (auto simp: finalise_node_simps)
    then have "wiring_fresh R ?w = wiring_fresh R w" by (simp add: wiring_fresh_def w)
    moreover have "wiring_todo ?w < wiring_todo w" using False st by (simp add: wiring_todo_def w)
    ultimately show ?thesis by (simp add: wiring_alive_def w)
  next
    case True
    obtain up a where up: "fr_upstreams fr ! fr_next fr = (up, a)" by fastforce
    show ?thesis
    proof (cases "node_to_index (wi_gs w) up")
      case (Some idx)
      with reg have "idx < length (nodes (wi_gs w))" by (simp add: registry_ok_def)
      with Some True up st show ?thesis
        by (simp add: wiring_step_def node_index_def wiring_alive_def wiring_fresh_def
            wiring_todo_def record_edge_def)
    next
      case None
      have "(root, up) \<in> (up_rel ups)\<^sup>*"
        using fr(2) up_rel_step[OF fr(1) True up] by (rule rtrancl_into_rtrancl)
      then have inR: "up \<in> R" by (rule R)
      show ?thesis
      proof (cases "up \<in> wi_in_progress w")
        case True
        with None up st \<open>fr_next fr < _\<close> noerr show ?thesis
          by (simp add: wiring_step_def node_index_def wiring_alive_def)
      next
        case False
        have "wiring_fresh R (wiring_step ups w) < wiring_fresh R w"
          unfolding wiring_fresh_def
          using None up st \<open>fr_next fr < _\<close> False inR fin
          by (intro psubset_card_mono) (auto simp: wiring_step_def node_index_def)
        moreover have "wiring_alive (wiring_step ups w) = wiring_alive w"
          using None up st \<open>fr_next fr < _\<close> False
          by (simp add: wiring_step_def node_index_def wiring_alive_def)
        ultimately show ?thesis by simp
      qed
    qed
  qed
qed

lemma wiring_init_inv:
  assumes "registry_ok gs" "\<not> seen gs root"
  shows "wiring_inv ups root gs (wiring_init ups root gs)"
  using assms wiring_frame_new_ok[OF assms(2)]
  by (auto simp: wiring_inv_def wiring_init_def same_but_nodes_def wiring_frame_new_def)

lemma crawl_terminates:
  assumes "registry_ok gs" "\<not> seen gs root" "finite {n. (root, n) \<in> (up_rel ups)\<^sup>*}"
  shows "\<exists>w. while_option wiring_running (wiring_step ups) (wiring_init ups root gs) = Some w \<and>
    wiring_inv ups root gs w \<and> \<not> wiring_running w"
proof -
  let ?R = "{n. (root, n) \<in> (up_rel ups)\<^sup>*}"
  have "\<exists>w. while_option wiring_running (wiring_step ups) (wiring_init ups root gs) = Some w"
  proof (rule wf_rel_while_option_Some[where P = "wiring_inv ups root gs"])
    show "wf (measures [wiring_alive, wiring_fresh ?R, wiring_todo])" by simp
    show "\<And>s. wiring_inv ups root gs s \<and> wiring_running s \<Longrightarrow>
        (wiring_step ups s, s) \<in> measures [wiring_alive, wiring_fresh ?R, wiring_todo]"
      using wiring_step_decreases[OF _ _ assms(3)] by blast
  qed (use wiring_step_inv wiring_init_inv[OF assms(1,2)] in blast)+
  then obtain w where w:
    "while_option wiring_running (wiring_step ups) (wiring_init ups root gs) = Some w" by blast
  moreover have "wiring_inv ups root gs w"
    using while_option_rule[where P = "wiring_inv ups root gs", OF _ w] wiring_step_inv
      wiring_init_inv[OF assms(1,2)] by blast
  ultimately show ?thesis using while_option_stop[OF w] by blast
qed

section \<open>What the crawl establishes\<close>

text \<open>The declared upstreams of every registered node are registered before it.\<close>

definition registry_closed :: "(node \<Rightarrow> (node \<times> bool) list) \<Rightarrow> graph_state \<Rightarrow> bool" where
  "registry_closed ups gs \<longleftrightarrow> (\<forall>i < length (nodes gs).
     \<forall>p \<in> set (ups (nd_node (nodes gs ! i))). \<exists>j < i. node_to_index gs (fst p) = Some j)"

lemma same_but_nodes_length: "same_but_nodes gs0 gs \<Longrightarrow> length (nodes gs0) \<le> length (nodes gs)"
  unfolding same_but_nodes_def by (metis length_take min.cobounded1)

lemma same_but_nodes_nth:
  "same_but_nodes gs0 gs \<Longrightarrow> i < length (nodes gs0) \<Longrightarrow> nodes gs ! i = nodes gs0 ! i"
  unfolding same_but_nodes_def by (metis nth_take)

lemma registry_closed_extend:
  assumes "registry_closed ups gs0" "same_but_nodes gs0 gs"
    "\<And>i. length (nodes gs0) \<le> i \<Longrightarrow> i < length (nodes gs) \<Longrightarrow> node_wired ups gs i"
  shows "registry_closed ups gs"
  unfolding registry_closed_def
proof (intro allI impI ballI)
  fix i p assume i: "i < length (nodes gs)" and p: "p \<in> set (ups (nd_node (nodes gs ! i)))"
  show "\<exists>j < i. node_to_index gs (fst p) = Some j"
  proof (cases "i < length (nodes gs0)")
    case True
    then obtain j where "j < i" "node_to_index gs0 (fst p) = Some j"
      using assms(1) p same_but_nodes_nth[OF assms(2) True] by (auto simp: registry_closed_def)
    moreover have "node_to_index gs0 \<subseteq>\<^sub>m node_to_index gs" using assms(2) by (simp add: same_but_nodes_def)
    ultimately show ?thesis by (metis domI map_le_def)
  next
    case False
    with assms(3)[of i] i p show ?thesis by (auto simp: node_wired_def)
  qed
qed

lemma registry_closed_reach:
  assumes "registry_ok gs" "registry_closed ups gs" "(n, m) \<in> (up_rel ups)\<^sup>+" "node_to_index gs n = Some i"
  shows "\<exists>j < i. node_to_index gs m = Some j"
  using assms(3)
proof (induction rule: trancl_induct)
  case (base y)
  then obtain p where "p \<in> set (ups n)" "y = fst p" by (auto simp: up_rel_def)
  with assms(1,2,4) show ?case unfolding registry_ok_def registry_closed_def by metis
next
  case (step y z)
  then obtain j p where j: "j < i" "node_to_index gs y = Some j" and p: "p \<in> set (ups y)" "z = fst p"
    by (auto simp: up_rel_def)
  with assms(1,2) have "\<exists>k < j. node_to_index gs z = Some k"
    unfolding registry_ok_def registry_closed_def by metis
  with j(1) show ?case using order.strict_trans by blast
qed

lemma registry_closed_acyclic:
  assumes "registry_ok gs" "registry_closed ups gs" "seen gs n" "(n, m) \<in> (up_rel ups)\<^sup>*"
  shows "seen gs m \<and> (m, m) \<notin> (up_rel ups)\<^sup>+"
proof -
  obtain i where i: "node_to_index gs n = Some i" using assms(3) by (auto simp: seen_def)
  have "\<exists>j. node_to_index gs m = Some j"
    using assms(4) i registry_closed_reach[OF assms(1,2) _ i] by (auto simp: rtrancl_eq_or_trancl)
  then obtain j where j: "node_to_index gs m = Some j" by blast
  then have "(m, m) \<notin> (up_rel ups)\<^sup>+" using registry_closed_reach[OF assms(1,2) _ j, of m] by auto
  with j show ?thesis by (simp add: seen_def)
qed

text \<open>
  The crawl always returns; on success it has registered everything reachable from the root
  and what is reachable is acyclic; on an error there is a cycle among what is reachable.
\<close>

lemma initialise_node_result:
  assumes "registry_ok gs" "registry_closed ups gs" "finite {n. (root, n) \<in> (up_rel ups)\<^sup>*}"
  shows "\<exists>gs' r. initialise_node ups root gs = Some (gs', r) \<and>
    registry_ok gs' \<and> registry_closed ups gs' \<and> same_but_nodes gs gs' \<and>
    (\<forall>i. length (nodes gs) \<le> i \<and> i < length (nodes gs') \<longrightarrow>
       node_wired ups gs' i \<and> (root, nd_node (nodes gs' ! i)) \<in> (up_rel ups)\<^sup>*) \<and>
    (case r of
       Inr i \<Rightarrow> node_to_index gs' root = Some i \<and>
         (\<forall>n. (root, n) \<in> (up_rel ups)\<^sup>* \<longrightarrow> seen gs' n \<and> (n, n) \<notin> (up_rel ups)\<^sup>+)
     | Inl e \<Rightarrow> \<exists>u. e = CycleDetected u \<and> (root, u) \<in> (up_rel ups)\<^sup>* \<and> (u, u) \<in> (up_rel ups)\<^sup>+)"
proof (cases "node_index gs root")
  case (Some i)
  then have "initialise_node ups root gs = Some (gs, Inr i)" by (simp add: initialise_node_def)
  moreover have "same_but_nodes gs gs" by (simp add: same_but_nodes_def)
  moreover have "seen gs root" using Some by (simp add: seen_def node_index_def)
  ultimately show ?thesis
    using assms Some registry_closed_acyclic[OF assms(1,2)] by (auto simp: node_index_def)
next
  case None
  then have "\<not> seen gs root" by (simp add: seen_def node_index_def)
  from crawl_terminates[OF assms(1) this assms(3)] obtain w where
    w: "while_option wiring_running (wiring_step ups) (wiring_init ups root gs) = Some w"
      "wiring_inv ups root gs w" "\<not> wiring_running w" by blast
  have inv: "registry_ok (wi_gs w)" "same_but_nodes gs (wi_gs w)" "\<not> wi_panic w"
    "\<And>i. length (nodes gs) \<le> i \<Longrightarrow> i < length (nodes (wi_gs w)) \<Longrightarrow> node_wired ups (wi_gs w) i"
    "\<And>i. length (nodes gs) \<le> i \<Longrightarrow> i < length (nodes (wi_gs w)) \<Longrightarrow>
      (root, nd_node (nodes (wi_gs w) ! i)) \<in> (up_rel ups)\<^sup>*"
    "wi_stack w = [] \<Longrightarrow> seen (wi_gs w) root"
    "\<And>e. wi_error w = Some e \<Longrightarrow>
      \<exists>u. e = CycleDetected u \<and> (root, u) \<in> (up_rel ups)\<^sup>* \<and> (u, u) \<in> (up_rel ups)\<^sup>+"
    using w(2) by (auto simp: wiring_inv_def)
  have closed: "registry_closed ups (wi_gs w)" by (rule registry_closed_extend[OF assms(2) inv(2,4)])
  show ?thesis
  proof (cases "wi_error w")
    case (Some e)
    with None w(1) inv closed show ?thesis by (auto simp: initialise_node_def)
  next
    case noerr: None
    with w(3) inv(3) have root: "seen (wi_gs w) root" using inv(6) by (simp add: wiring_running_def)
    then obtain i where i: "node_to_index (wi_gs w) root = Some i" by (auto simp: seen_def)
    with None w(1) inv(3) noerr have "initialise_node ups root gs = Some (wi_gs w, Inr i)"
      by (simp add: initialise_node_def node_index_def)
    with inv(1,2,4,5) closed i registry_closed_acyclic[OF inv(1) closed root] show ?thesis
      by auto
  qed
qed


section \<open>Building the graph\<close>

subsection \<open>Downstream edges\<close>

text \<open>\<^verbatim>\<open>nodes[edge.node_index].downstreams.push(Edge { node_index: i, active: edge.active })\<close>\<close>

definition push_downstream :: "nat \<Rightarrow> edge \<Rightarrow> node_data list \<Rightarrow> node_data list option" where
  "push_downstream i e ns = (let k = ed_node_index e in
     if k < length ns then
       Some (ns[k := (ns ! k)\<lparr>nd_downstreams := nd_downstreams (ns ! k) @
         [\<lparr>ed_node_index = i, ed_active = ed_active e\<rparr>]\<rparr>])
     else None)"

fun push_downstreams :: "nat \<Rightarrow> edge list \<Rightarrow> node_data list \<Rightarrow> node_data list option" where
  "push_downstreams i [] ns = Some ns"
| "push_downstreams i (e # es) ns = do { ns' \<leftarrow> push_downstream i e ns; push_downstreams i es ns' }"

text \<open>Mirror the upstream edges of the nodes \<open>is\<close> as downstream edges.\<close>

fun wire_downstreams :: "nat list \<Rightarrow> node_data list \<Rightarrow> node_data list option" where
  "wire_downstreams [] ns = Some ns"
| "wire_downstreams (i # is) ns = do {
     ns' \<leftarrow> push_downstreams i (nd_upstreams (ns ! i)) ns; wire_downstreams is ns' }"

definition mirror :: "nat \<Rightarrow> nat \<Rightarrow> edge list \<Rightarrow> edge list" where
  "mirror i k es = map (\<lambda>e. \<lparr>ed_node_index = i, ed_active = ed_active e\<rparr>)
     (filter (\<lambda>e. ed_node_index e = k) es)"

lemma in_mirror: "e \<in> set (mirror i k es) \<longleftrightarrow>
  ed_node_index e = i \<and> \<lparr>ed_node_index = k, ed_active = ed_active e\<rparr> \<in> set es"
proof
  assume "e \<in> set (mirror i k es)"
  then obtain e' where e': "e' \<in> set es" "ed_node_index e' = k"
    "e = \<lparr>ed_node_index = i, ed_active = ed_active e'\<rparr>" by (auto simp: mirror_def)
  then have "\<lparr>ed_node_index = k, ed_active = ed_active e\<rparr> = e'" by auto
  with e'(1) have "\<lparr>ed_node_index = k, ed_active = ed_active e\<rparr> \<in> set es" by (simp only:)
  with e'(3) show "ed_node_index e = i \<and> \<lparr>ed_node_index = k, ed_active = ed_active e\<rparr> \<in> set es"
    by simp
next
  assume a: "ed_node_index e = i \<and> \<lparr>ed_node_index = k, ed_active = ed_active e\<rparr> \<in> set es"
  then show "e \<in> set (mirror i k es)"
    by (cases e) (force simp: mirror_def)
qed

lemma push_downstreams_spec:
  assumes "\<forall>e \<in> set es. ed_node_index e < length ns"
  shows "\<exists>ns'. push_downstreams i es ns = Some ns' \<and> length ns' = length ns \<and>
    (\<forall>k < length ns. ns' ! k = (ns ! k)\<lparr>nd_downstreams := nd_downstreams (ns ! k) @ mirror i k es\<rparr>)"
  using assms
proof (induction es arbitrary: ns)
  case Nil
  then show ?case by (simp add: mirror_def)
next
  case (Cons e es)
  let ?k = "ed_node_index e"
  let ?ns = "ns[?k := (ns ! ?k)\<lparr>nd_downstreams := nd_downstreams (ns ! ?k) @
    [\<lparr>ed_node_index = i, ed_active = ed_active e\<rparr>]\<rparr>]"
  have "push_downstream i e ns = Some ?ns" using Cons.prems by (simp add: push_downstream_def Let_def)
  moreover from Cons.IH[of ?ns] Cons.prems obtain ns' where "push_downstreams i es ?ns = Some ns'"
    "length ns' = length ns"
    "\<forall>k < length ns. ns' ! k = (?ns ! k)\<lparr>nd_downstreams := nd_downstreams (?ns ! k) @ mirror i k es\<rparr>"
    by auto
  ultimately show ?case by (auto simp: mirror_def nth_list_update_if)
qed

lemma wire_downstreams_spec:
  assumes "\<forall>i \<in> set is. i < length ns \<and> (\<forall>e \<in> set (nd_upstreams (ns ! i)). ed_node_index e < length ns)"
  shows "\<exists>ns'. wire_downstreams is ns = Some ns' \<and> length ns' = length ns \<and>
    (\<forall>k < length ns. ns' ! k = (ns ! k)\<lparr>nd_downstreams := nd_downstreams (ns ! k) @
       concat (map (\<lambda>i. mirror i k (nd_upstreams (ns ! i))) is)\<rparr>)"
  using assms
proof (induction "is" arbitrary: ns)
  case Nil
  then show ?case by simp
next
  case (Cons i "is")
  from push_downstreams_spec[of "nd_upstreams (ns ! i)" ns i] Cons.prems obtain ns1 where
    1: "push_downstreams i (nd_upstreams (ns ! i)) ns = Some ns1" "length ns1 = length ns"
      "\<forall>k < length ns. ns1 ! k = (ns ! k)\<lparr>nd_downstreams :=
         nd_downstreams (ns ! k) @ mirror i k (nd_upstreams (ns ! i))\<rparr>" by auto
  have ups: "nd_upstreams (ns1 ! k) = nd_upstreams (ns ! k)" if "k < length ns" for k
    using 1(3) that by simp
  have "\<forall>j \<in> set is. j < length ns1 \<and> (\<forall>e \<in> set (nd_upstreams (ns1 ! j)). ed_node_index e < length ns1)"
    using Cons.prems 1(2) ups by simp
  from Cons.IH[OF this] obtain ns' where 2: "wire_downstreams is ns1 = Some ns'" "length ns' = length ns"
      "\<forall>k < length ns. ns' ! k = (ns1 ! k)\<lparr>nd_downstreams := nd_downstreams (ns1 ! k) @
         concat (map (\<lambda>i. mirror i k (nd_upstreams (ns1 ! i))) is)\<rparr>" using 1(2) by auto
  have "map (\<lambda>i. mirror i k (nd_upstreams (ns1 ! i))) is = map (\<lambda>i. mirror i k (nd_upstreams (ns ! i))) is"
    for k using ups Cons.prems by auto
  with 1 2 show ?case by simp
qed

subsection \<open>Wiring all roots\<close>

fun initialise_roots :: "(node \<Rightarrow> (node \<times> bool) list) \<Rightarrow> node list \<Rightarrow> graph_state \<Rightarrow>
    (graph_state \<times> anyhow option) option" where
  "initialise_roots ups [] gs = Some (gs, None)"
| "initialise_roots ups (n # ns) gs = (case initialise_node ups n gs of
       None \<Rightarrow> None
     | Some (gs', Inl e) \<Rightarrow> Some (gs', Some e)
     | Some (gs', Inr i) \<Rightarrow> initialise_roots ups ns gs')"

text \<open>
  The \<^verbatim>\<open>i32\<close> loop variable \<^verbatim>\<open>max_layer\<close>: \<open>None\<close> is the failed
  \<^verbatim>\<open>expect("graph layer count fits in i32")\<close>; the final \<^verbatim>\<open>max_layer + 1\<close> wraps.
\<close>

fun max_layer_from :: "node_data list \<Rightarrow> int \<Rightarrow> int option" where
  "max_layer_from [] m = Some m"
| "max_layer_from (nd # nds) m =
     (if 2 ^ 31 \<le> nd_layer nd then None else max_layer_from nds (max m (int (nd_layer nd))))"

definition layer_count :: "int \<Rightarrow> nat" where
  "layer_count m = nat (sint (word_of_int (m + 1) :: i32))"

definition initialise ::
  "(node \<Rightarrow> (node \<times> bool) list) \<Rightarrow> node list \<Rightarrow> graph_state \<Rightarrow> graph_state option" where
  "initialise ups roots gs = (case initialise_roots ups roots gs of
       None \<Rightarrow> None
     | Some (gs1, Some e) \<Rightarrow>
         Some (gs1\<lparr>wiring_error := Some (case wiring_error gs1 of None \<Rightarrow> e | Some e0 \<Rightarrow> e0)\<rparr>)
     | Some (gs1, None) \<Rightarrow> do {
         m \<leftarrow> max_layer_from (nodes gs1) (- 1);
         ns \<leftarrow> wire_downstreams [0 ..< length (nodes gs1)] (nodes gs1);
         Some (gs1\<lparr>nodes := ns, node_dirty := node_dirty gs1 @ replicate (length ns) False,
           dirty_nodes_by_layer := dirty_nodes_by_layer gs1 @ replicate (layer_count m) []\<rparr>) })"

definition graph_new :: "nat \<Rightarrow> nanotime \<Rightarrow> (node \<Rightarrow> (node \<times> bool) list) \<Rightarrow> node list \<Rightarrow>
    run_mode \<Rightarrow> run_for \<Rightarrow> graph_state option" where
  "graph_new graph_id now ups roots run_mode run_for =
     initialise ups roots
       (graph_state_new graph_id run_mode run_for (run_mode_start_time now run_mode))"

lemma max_layer_from_spec:
  assumes "\<forall>nd \<in> set nds. nd_layer nd < b" "b < 2 ^ 31" "m < int b" "- 1 \<le> m"
  shows "\<exists>m'. max_layer_from nds m = Some m' \<and> m \<le> m' \<and> m' < int b \<and>
    (\<forall>nd \<in> set nds. int (nd_layer nd) \<le> m')"
  using assms
proof (induction nds arbitrary: m)
  case Nil
  then show ?case by simp
next
  case (Cons nd nds)
  from Cons.prems have "- 1 \<le> max m (int (nd_layer nd))" "max m (int (nd_layer nd)) < int b" by auto
  with Cons.IH[of "max m (int (nd_layer nd))"] Cons.prems(1,2) show ?case by auto
qed

lemma layer_count_small: "- 1 \<le> m \<Longrightarrow> m < 2 ^ 31 - 1 \<Longrightarrow> layer_count m = nat (m + 1)"
  unfolding layer_count_def
  by (subst signed_of_int) (simp add: signed_take_bit_int_eq_self)


subsection \<open>The wired graph\<close>

definition reachable :: "(node \<Rightarrow> (node \<times> bool) list) \<Rightarrow> node list \<Rightarrow> node set" where
  "reachable ups roots = {n. \<exists>r \<in> set roots. (r, n) \<in> (up_rel ups)\<^sup>*}"

definition all_wired :: "(node \<Rightarrow> (node \<times> bool) list) \<Rightarrow> graph_state \<Rightarrow> bool" where
  "all_wired ups gs \<longleftrightarrow> (\<forall>i < length (nodes gs). node_wired ups gs i)"

lemma all_wired_closed: "all_wired ups gs \<Longrightarrow> registry_closed ups gs"
  by (auto simp: all_wired_def registry_closed_def node_wired_def)

lemma same_but_nodes_trans:
  assumes "same_but_nodes a b" "same_but_nodes b c"
  shows "same_but_nodes a c"
proof -
  have "c = a\<lparr>nodes := nodes c, node_ticked := node_ticked c, node_to_index := node_to_index c\<rparr>"
  proof -
    obtain x y z where b: "b = a\<lparr>nodes := x, node_ticked := y, node_to_index := z\<rparr>"
      using assms(1) unfolding same_but_nodes_def by blast
    have "c = b\<lparr>nodes := nodes c, node_ticked := node_ticked c, node_to_index := node_to_index c\<rparr>"
      using assms(2) unfolding same_but_nodes_def by blast
    then show ?thesis unfolding b by simp
  qed
  moreover have "take (length (nodes a)) (nodes c) = nodes a"
    using assms same_but_nodes_length[OF assms(1)] unfolding same_but_nodes_def
    by (metis min.absorb1 take_take)
  ultimately show ?thesis
    using assms map_le_trans unfolding same_but_nodes_def by blast
qed

lemma node_wired_extend:
  assumes "same_but_nodes gs gs'" "node_wired ups gs i" "i < length (nodes gs)"
  shows "node_wired ups gs' i"
proof -
  let ?ps = "ups (nd_node (nodes gs ! i))"
  have idx: "\<exists>j < i. node_to_index gs (fst p) = Some j \<and> node_to_index gs' (fst p) = Some j"
    if "p \<in> set ?ps" for p
  proof -
    have "\<exists>j < i. node_to_index gs (fst p) = Some j"
      using assms(2) that by (simp add: node_wired_def)
    then obtain j where "j < i" "node_to_index gs (fst p) = Some j" by blast
    with assms(1) show ?thesis by (metis domI map_le_def same_but_nodes_def)
  qed
  have edges: "map (edge_of gs') ?ps = map (edge_of gs) ?ps"
    using idx by (force simp: edge_of_def)
  have "edges_layer gs' (map (edge_of gs) ?ps) = edges_layer gs (map (edge_of gs) ?ps)"
  proof (rule edges_layer_cong)
    fix e assume "e \<in> set (map (edge_of gs) ?ps)"
    then obtain p where p: "p \<in> set ?ps" "e = edge_of gs p" by auto
    with idx[OF p(1)] have "ed_node_index e < length (nodes gs)"
      using assms(3) by (auto simp: edge_of_def)
    with same_but_nodes_nth[OF assms(1)] show "layer_of gs' (ed_node_index e) = layer_of gs (ed_node_index e)"
      by simp
  qed
  moreover have "\<forall>p \<in> set ?ps. \<exists>j < i. node_to_index gs' (fst p) = Some j" using idx by blast
  ultimately show ?thesis
    using assms(2) edges same_but_nodes_nth[OF assms(1,3)] by (simp add: node_wired_def)
qed

lemma edges_layer_le: "\<forall>e \<in> set es. layer_of gs (ed_node_index e) < b \<Longrightarrow> edges_layer gs es \<le> b"
  by (induction es rule: rev_induct) (auto simp: edges_layer_append, simp add: edges_layer_def)

lemma all_wired_edge:
  assumes "all_wired ups gs" "i < length (nodes gs)" "e \<in> set (nd_upstreams (nodes gs ! i))"
  shows "ed_node_index e < i" "layer_of gs (ed_node_index e) < layer_of gs i"
proof -
  have w: "node_wired ups gs i" using assms(1,2) by (simp add: all_wired_def)
  then show "ed_node_index e < i"
    using assms(3) by (force simp: node_wired_def edge_of_def)
  show "layer_of gs (ed_node_index e) < layer_of gs i"
    using w edges_layer_ge[OF assms(3)] by (simp add: node_wired_def)
qed

lemma all_wired_layer_le:
  "all_wired ups gs \<Longrightarrow> i < length (nodes gs) \<Longrightarrow> layer_of gs i \<le> i"
proof (induction i rule: less_induct)
  case (less i)
  have "layer_of gs (ed_node_index e) < i" if "e \<in> set (nd_upstreams (nodes gs ! i))" for e
    using less.IH[of "ed_node_index e"] all_wired_edge[OF less.prems that] less.prems by force
  moreover have "layer_of gs i = edges_layer gs (nd_upstreams (nodes gs ! i))"
    using less.prems by (simp add: all_wired_def node_wired_def)
  ultimately show ?case using edges_layer_le by auto
qed

lemma registry_length_le_card:
  assumes "registry_ok gs" "finite R" "\<forall>i < length (nodes gs). nd_node (nodes gs ! i) \<in> R"
  shows "length (nodes gs) \<le> card R"
proof -
  have "inj_on (\<lambda>i. nd_node (nodes gs ! i)) {..<length (nodes gs)}"
    using assms(1) by (intro inj_onI) (metis lessThan_iff option.inject registry_ok_def)
  moreover have "(\<lambda>i. nd_node (nodes gs ! i)) ` {..<length (nodes gs)} \<subseteq> R"
    using assms(3) by auto
  ultimately show ?thesis using card_inj_on_le[OF _ _ assms(2)] by fastforce
qed

lemma initialise_roots_result:
  assumes "registry_ok gs" "all_wired ups gs" "finite (reachable ups roots)"
  shows "\<exists>gs' r. initialise_roots ups roots gs = Some (gs', r) \<and>
    registry_ok gs' \<and> all_wired ups gs' \<and> same_but_nodes gs gs' \<and>
    (\<forall>i. length (nodes gs) \<le> i \<and> i < length (nodes gs') \<longrightarrow>
       nd_node (nodes gs' ! i) \<in> reachable ups roots) \<and>
    (case r of
       None \<Rightarrow> \<forall>n \<in> reachable ups roots. seen gs' n \<and> (n, n) \<notin> (up_rel ups)\<^sup>+
     | Some e \<Rightarrow> \<exists>u \<in> reachable ups roots. e = CycleDetected u \<and> (u, u) \<in> (up_rel ups)\<^sup>+)"
  using assms
proof (induction roots arbitrary: gs)
  case Nil
  then show ?case by (auto simp: reachable_def same_but_nodes_def)
next
  case (Cons n ns)
  have fin: "finite {m. (n, m) \<in> (up_rel ups)\<^sup>*}" "finite (reachable ups ns)"
    using Cons.prems(3) by (auto simp: reachable_def elim!: finite_subset[rotated])
  have sub: "reachable ups (n # ns) = {m. (n, m) \<in> (up_rel ups)\<^sup>*} \<union> reachable ups ns"
    by (auto simp: reachable_def)
  obtain gs1 r1 where 1: "initialise_node ups n gs = Some (gs1, r1)" "registry_ok gs1"
    "same_but_nodes gs gs1"
    "\<forall>i. length (nodes gs) \<le> i \<and> i < length (nodes gs1) \<longrightarrow>
       node_wired ups gs1 i \<and> (n, nd_node (nodes gs1 ! i)) \<in> (up_rel ups)\<^sup>*"
    "case r1 of Inr i \<Rightarrow> node_to_index gs1 n = Some i \<and>
         (\<forall>m. (n, m) \<in> (up_rel ups)\<^sup>* \<longrightarrow> seen gs1 m \<and> (m, m) \<notin> (up_rel ups)\<^sup>+)
     | Inl e \<Rightarrow> \<exists>u. e = CycleDetected u \<and> (n, u) \<in> (up_rel ups)\<^sup>* \<and> (u, u) \<in> (up_rel ups)\<^sup>+"
    using initialise_node_result[OF Cons.prems(1) all_wired_closed[OF Cons.prems(2)] fin(1)] by blast
  have wired: "all_wired ups gs1"
    unfolding all_wired_def
    using 1(4) node_wired_extend[OF 1(3)] Cons.prems(2) by (metis all_wired_def not_le)
  show ?case
  proof (cases r1)
    case (Inl e)
    with 1 wired sub show ?thesis by auto
  next
    case (Inr i)
    from Cons.IH[OF 1(2) wired fin(2)] obtain gs' r where
      2: "initialise_roots ups ns gs1 = Some (gs', r)" "registry_ok gs'" "all_wired ups gs'"
        "same_but_nodes gs1 gs'"
        "\<forall>i. length (nodes gs1) \<le> i \<and> i < length (nodes gs') \<longrightarrow>
           nd_node (nodes gs' ! i) \<in> reachable ups ns"
        "case r of None \<Rightarrow> \<forall>n \<in> reachable ups ns. seen gs' n \<and> (n, n) \<notin> (up_rel ups)\<^sup>+
         | Some e \<Rightarrow> \<exists>u \<in> reachable ups ns. e = CycleDetected u \<and> (u, u) \<in> (up_rel ups)\<^sup>+"
      by blast
    have "nd_node (nodes gs' ! j) \<in> reachable ups (n # ns)"
      if "length (nodes gs) \<le> j" "j < length (nodes gs')" for j
      using that 1(4) 2(5) same_but_nodes_nth[OF 2(4), of j] sub by (cases "j < length (nodes gs1)") auto
    moreover have "seen gs1 m \<Longrightarrow> seen gs' m" for m
      using 2(4) unfolding same_but_nodes_def seen_def by (metis domI map_le_def option.exhaust)
    ultimately show ?thesis
      using 1 2 Inr sub same_but_nodes_trans[OF 1(3) 2(4)] by (auto split: option.splits)
  qed
qed


text \<open>Every downstream edge is an upstream edge seen from the other end.\<close>

definition edges_mirrored :: "graph_state \<Rightarrow> bool" where
  "edges_mirrored gs \<longleftrightarrow> (\<forall>i < length (nodes gs). \<forall>j < length (nodes gs). \<forall>a.
     \<lparr>ed_node_index = j, ed_active = a\<rparr> \<in> set (nd_downstreams (nodes gs ! i)) \<longleftrightarrow>
     \<lparr>ed_node_index = i, ed_active = a\<rparr> \<in> set (nd_upstreams (nodes gs ! j)))"

lemma graph_state_new_registry:
  "registry_ok (graph_state_new g m f t)" "all_wired ups (graph_state_new g m f t)"
  by (simp_all add: registry_ok_def all_wired_def graph_state_new_def)

text \<open>What \<open>initialise\<close> does once every root is registered.\<close>

lemma wired_nodes_wf:
  assumes gs: "registry_ok gs" "all_wired ups gs" "length (nodes gs) < 2 ^ 31"
    and new: "same_but_nodes (graph_state_new g md f t) gs"
  obtains gs' m ns where "max_layer_from (nodes gs) (- 1) = Some m"
    "wire_downstreams [0 ..< length (nodes gs)] (nodes gs) = Some ns"
    "gs' = gs\<lparr>nodes := ns, node_dirty := node_dirty gs @ replicate (length ns) False,
       dirty_nodes_by_layer := dirty_nodes_by_layer gs @ replicate (layer_count m) []\<rparr>"
    "wf_graph gs'" "wf_dirty gs'" "dirty_set gs' = {}" "edges_mirrored gs'"
    "length ns = length (nodes gs)"
    "\<And>k. k < length ns \<Longrightarrow> nd_node (ns ! k) = nd_node (nodes gs ! k) \<and>
       nd_upstreams (ns ! k) = nd_upstreams (nodes gs ! k) \<and> nd_layer (ns ! k) = nd_layer (nodes gs ! k) \<and>
       nd_active (ns ! k)"
proof -
  let ?n = "length (nodes gs)"
  have layers: "\<forall>nd \<in> set (nodes gs). nd_layer nd < ?n"
    using all_wired_layer_le[OF gs(2)] by (metis in_set_conv_nth order.strict_trans1)
  from max_layer_from_spec[OF layers gs(3), of "- 1"] obtain m where
    m: "max_layer_from (nodes gs) (- 1) = Some m" "- 1 \<le> m" "m < int ?n"
      "\<forall>nd \<in> set (nodes gs). int (nd_layer nd) \<le> m"
    by auto
  have count: "layer_count m = nat (m + 1)" using m(2,3) gs(3) by (intro layer_count_small) auto
  have edges: "\<forall>i \<in> set [0..<?n]. i < ?n \<and> (\<forall>e \<in> set (nd_upstreams (nodes gs ! i)). ed_node_index e < ?n)"
    using all_wired_edge(1)[OF gs(2)] order.strict_trans by fastforce
  from wire_downstreams_spec[OF edges] obtain ns where
    ns: "wire_downstreams [0..<?n] (nodes gs) = Some ns" "length ns = ?n"
      "\<forall>k < ?n. ns ! k = (nodes gs ! k)\<lparr>nd_downstreams := nd_downstreams (nodes gs ! k) @
       concat (map (\<lambda>i. mirror i k (nd_upstreams (nodes gs ! i))) [0..<?n])\<rparr>" by auto
  let ?gs = "gs\<lparr>nodes := ns, node_dirty := node_dirty gs @ replicate (length ns) False,
       dirty_nodes_by_layer := dirty_nodes_by_layer gs @ replicate (layer_count m) []\<rparr>"
  have data: "nd_node (ns ! k) = nd_node (nodes gs ! k)" "nd_upstreams (ns ! k) = nd_upstreams (nodes gs ! k)"
    "nd_layer (ns ! k) = nd_layer (nodes gs ! k)" "nd_active (ns ! k)" if "k < ?n" for k
    using ns(3) that gs(2) by (auto simp: all_wired_def node_wired_def)
  have down: "e \<in> set (nd_downstreams (ns ! k)) \<longleftrightarrow> ed_node_index e < ?n \<and>
      \<lparr>ed_node_index = k, ed_active = ed_active e\<rparr> \<in> set (nd_upstreams (nodes gs ! ed_node_index e))"
    if "k < ?n" for k e
    using ns(3) that gs(2) by (auto simp: all_wired_def node_wired_def in_mirror)
  have empty: "node_dirty gs = []" "dirty_nodes_by_layer gs = []" "always_callbacks gs = []"
    "ready_callbacks gs = []" "heap (scheduled_callbacks gs) = []"
  proof -
    obtain x y z where "gs = (graph_state_new g md f t)\<lparr>nodes := x, node_ticked := y, node_to_index := z\<rparr>"
      using new unfolding same_but_nodes_def by blast
    then show "node_dirty gs = []" "dirty_nodes_by_layer gs = []" "always_callbacks gs = []"
      "ready_callbacks gs = []" "heap (scheduled_callbacks gs) = []"
      by (simp_all add: graph_state_new_def tq_new_def)
  qed
  have "nd_layer nd < nat (m + 1)" if nd: "nd \<in> set ns" for nd
  proof -
    obtain k where "k < ?n" "nd = ns ! k" using nd ns(2) by (auto simp: in_set_conv_nth)
    with m(4) data(3)[of k] have "int (nd_layer nd) \<le> m" by simp
    then show ?thesis by linarith
  qed
  then have "wf_lengths ?gs"
    using gs(1) ns(2) by (simp add: wf_lengths_def registry_ok_def empty count)
  moreover have "wf_edges ?gs"
    unfolding wf_edges_def
  proof (intro allI impI conjI ballI)
    fix i e assume "i < length (nodes ?gs)" and e: "e \<in> set (nd_downstreams (nodes ?gs ! i))"
    then have i: "i < ?n" by (simp add: ns(2))
    with e down have "ed_node_index e < ?n"
      "\<lparr>ed_node_index = i, ed_active = ed_active e\<rparr> \<in> set (nd_upstreams (nodes gs ! ed_node_index e))"
      by auto
    with all_wired_edge(2)[OF gs(2) this] i ns(2) data(3)
    show "ed_node_index e < length (nodes ?gs)" "layer_of ?gs i < layer_of ?gs (ed_node_index e)" by auto
  next
    fix i e assume "i < length (nodes ?gs)" and e: "e \<in> set (nd_upstreams (nodes ?gs ! i))"
    then have i: "i < ?n" "e \<in> set (nd_upstreams (nodes gs ! i))" by (auto simp: ns(2) data(2))
    with all_wired_edge[OF gs(2) i] ns(2) data(3)
    show "ed_node_index e < length (nodes ?gs)" "layer_of ?gs (ed_node_index e) < layer_of ?gs i" by auto
  qed
  moreover have "wf_indices ?gs"
    using gs(1) ns(2) by (auto simp: wf_indices_def empty registry_ok_def ran_def)
  moreover have "wf_dirty ?gs" "dirty_set ?gs = {}" using ns(2) by (auto simp: wf_dirty_def empty dirty_set_def)
  moreover have "edges_mirrored ?gs" using down data(2) ns(2) by (auto simp: edges_mirrored_def)
  ultimately show ?thesis using that[OF m(1) ns(1) refl] ns(2) data by (auto simp: wf_graph_def)
qed


text \<open>
  \<open>Graph::new\<close> on a finite graph: it returns; it stashes an error exactly when a cycle is
  reachable; otherwise the graph is well formed, holds exactly the reachable nodes, each with
  its declared upstreams in order, and nothing is dirty.
\<close>

lemma graph_new_result:
  assumes "finite (reachable ups roots)" "card (reachable ups roots) < 2 ^ 31"
  shows "\<exists>gs. graph_new g now ups roots m f = Some gs \<and>
    (if \<exists>u \<in> reachable ups roots. (u, u) \<in> (up_rel ups)\<^sup>+
     then \<exists>u \<in> reachable ups roots. (u, u) \<in> (up_rel ups)\<^sup>+ \<and> wiring_error gs = Some (CycleDetected u)
     else wiring_error gs = None \<and> wf_graph gs \<and> wf_dirty gs \<and> dirty_set gs = {} \<and>
       edges_mirrored gs \<and> registry_ok gs \<and> (\<forall>n. seen gs n \<longleftrightarrow> n \<in> reachable ups roots) \<and>
       (\<forall>i < length (nodes gs). nd_active (nodes gs ! i) \<and>
          nd_upstreams (nodes gs ! i) = map (edge_of gs) (ups (nd_node (nodes gs ! i)))))"
proof -
  let ?gs0 = "graph_state_new g m f (run_mode_start_time now m)"
  have len0: "nodes ?gs0 = []" "wiring_error ?gs0 = None" by (simp_all add: graph_state_new_def)
  from initialise_roots_result[OF graph_state_new_registry assms(1), of g m f "run_mode_start_time now m"]
  obtain gs1 r where
    1: "initialise_roots ups roots ?gs0 = Some (gs1, r)" "registry_ok gs1" "all_wired ups gs1"
      "same_but_nodes ?gs0 gs1"
      "\<forall>i < length (nodes gs1). nd_node (nodes gs1 ! i) \<in> reachable ups roots"
      "case r of None \<Rightarrow> \<forall>n \<in> reachable ups roots. seen gs1 n \<and> (n, n) \<notin> (up_rel ups)\<^sup>+
       | Some e \<Rightarrow> \<exists>u \<in> reachable ups roots. e = CycleDetected u \<and> (u, u) \<in> (up_rel ups)\<^sup>+"
    by (auto simp: len0)
  have noerr: "wiring_error gs1 = None"
  proof -
    obtain x y z where "gs1 = ?gs0\<lparr>nodes := x, node_ticked := y, node_to_index := z\<rparr>"
      using 1(4) unfolding same_but_nodes_def by blast
    then show ?thesis by (simp add: len0)
  qed
  show ?thesis
  proof (cases r)
    case (Some e)
    with 1(1,6) noerr show ?thesis by (auto simp: graph_new_def initialise_def)
  next
    case None
    have small: "length (nodes gs1) < 2 ^ 31"
      using registry_length_le_card[OF 1(2) assms(1) 1(5)] assms(2) by linarith
    obtain gs' ml ns where 2: "max_layer_from (nodes gs1) (- 1) = Some ml"
      "wire_downstreams [0 ..< length (nodes gs1)] (nodes gs1) = Some ns"
      "gs' = gs1\<lparr>nodes := ns, node_dirty := node_dirty gs1 @ replicate (length ns) False,
         dirty_nodes_by_layer := dirty_nodes_by_layer gs1 @ replicate (layer_count ml) []\<rparr>"
      "wf_graph gs'" "wf_dirty gs'" "dirty_set gs' = {}" "edges_mirrored gs'"
      "length ns = length (nodes gs1)"
      "\<And>k. k < length ns \<Longrightarrow> nd_node (ns ! k) = nd_node (nodes gs1 ! k) \<and>
         nd_upstreams (ns ! k) = nd_upstreams (nodes gs1 ! k) \<and>
         nd_layer (ns ! k) = nd_layer (nodes gs1 ! k) \<and> nd_active (ns ! k)"
      by (rule wired_nodes_wf[OF 1(2,3) small 1(4)]) (rule that)
    have new: "graph_new g now ups roots m f = Some gs'"
      using 1(1) None 2(1,2,3) by (simp add: graph_new_def initialise_def)
    have sel: "nodes gs' = ns" "node_to_index gs' = node_to_index gs1" "wiring_error gs' = None"
      "node_ticked gs' = node_ticked gs1"
      using 2(3) noerr by simp_all
    have reg: "registry_ok gs'" using 1(2) 2(8,9) by (simp add: registry_ok_def sel)
    have "seen gs' n \<longleftrightarrow> n \<in> reachable ups roots" for n
    proof
      assume "seen gs' n"
      then obtain i where "node_to_index gs1 n = Some i" by (auto simp: seen_def sel)
      with 1(2) have "i < length (nodes gs1)" "nd_node (nodes gs1 ! i) = n"
        by (auto simp: registry_ok_def)
      with 1(5) show "n \<in> reachable ups roots" by auto
    next
      assume "n \<in> reachable ups roots"
      with 1(6) None have "seen gs1 n" by simp
      then show "seen gs' n" by (simp add: seen_def sel)
    qed
    moreover have "nd_upstreams (nodes gs' ! i) = map (edge_of gs') (ups (nd_node (nodes gs' ! i)))"
      if "i < length (nodes gs')" for i
      using 1(3) 2(8,9) that by (simp add: sel all_wired_def node_wired_def edge_of_def)
    ultimately show ?thesis using new None 1(6) 2(4-9) reg sel by simp
  qed
qed


section \<open>Properties\<close>

text \<open>A diamond: node 3 reads nodes 1 (active) and 2 (passive), which both read node 0.\<close>

definition diamond :: "node \<Rightarrow> (node \<times> bool) list" where
  "diamond n = (if n = 3 then [(1, True), (2, False)] else if n = 1 \<or> n = 2 then [(0, True)] else [])"

lemma diamond_rel: "up_rel diamond = {(3, 1), (3, 2), (1, 0), (2, 0)}"
  by (auto simp: up_rel_def diamond_def split: if_splits)

lemma diamond_reach: "(3, n) \<in> (up_rel diamond)\<^sup>* \<Longrightarrow> n \<in> {0, 1, 2, 3}"
  by (induction rule: rtrancl_induct) (auto simp: diamond_rel)

lemma diamond_reachable: "finite (reachable diamond [3])" "card (reachable diamond [3]) < 2 ^ 31"
  "finite {n. (3, n) \<in> (up_rel diamond)\<^sup>*}"
proof -
  have sub: "reachable diamond [3] \<subseteq> {0, 1, 2, 3}" using diamond_reach by (auto simp: reachable_def)
  then show "finite (reachable diamond [3])" by (rule finite_subset) simp
  have "card (reachable diamond [3]) \<le> card {0, 1, 2, 3 :: nat}" using sub by (intro card_mono) auto
  then show "card (reachable diamond [3]) < 2 ^ 31" by simp
  show "finite {n. (3, n) \<in> (up_rel diamond)\<^sup>*}"
    by (rule finite_subset[of _ "{0, 1, 2, 3}"]) (use diamond_reach in auto)
qed

text \<open>
  C3. Wiring is total and correct: on a finite graph \<open>Graph::new\<close> returns. If a cycle is
  reachable from the roots the stashed error names a node on a cycle; otherwise there is no
  error and the graph is well formed (parallel vectors in step, every edge climbing a layer,
  downstream edges mirroring upstream edges), it holds exactly the nodes reachable from the
  roots, each with the upstreams it declares in order, and nothing is dirty.
\<close>
theorem graph_new_wires:
  assumes "finite (reachable ups roots)" "card (reachable ups roots) < 2 ^ 31"
  shows "\<exists>gs. graph_new g now ups roots m f = Some gs \<and>
    (if \<exists>u \<in> reachable ups roots. (u, u) \<in> (up_rel ups)\<^sup>+
     then \<exists>u \<in> reachable ups roots. (u, u) \<in> (up_rel ups)\<^sup>+ \<and> wiring_error gs = Some (CycleDetected u)
     else wiring_error gs = None \<and> wf_graph gs \<and> wf_dirty gs \<and> dirty_set gs = {} \<and>
       edges_mirrored gs \<and> registry_ok gs \<and> (\<forall>n. seen gs n \<longleftrightarrow> n \<in> reachable ups roots) \<and>
       (\<forall>i < length (nodes gs). nd_active (nodes gs ! i) \<and>
          nd_upstreams (nodes gs ! i) = map (edge_of gs) (ups (nd_node (nodes gs ! i)))))"
  using assms by (rule graph_new_result)

theorem graph_new_wires_witness:
  "\<exists>gs. graph_new 0 nano_zero diamond [3] (HistoricalFrom nano_zero) Forever = Some gs \<and>
    (if \<exists>u \<in> reachable diamond [3]. (u, u) \<in> (up_rel diamond)\<^sup>+
     then \<exists>u \<in> reachable diamond [3]. (u, u) \<in> (up_rel diamond)\<^sup>+ \<and> wiring_error gs = Some (CycleDetected u)
     else wiring_error gs = None \<and> wf_graph gs \<and> wf_dirty gs \<and> dirty_set gs = {} \<and>
       edges_mirrored gs \<and> registry_ok gs \<and> (\<forall>n. seen gs n \<longleftrightarrow> n \<in> reachable diamond [3]) \<and>
       (\<forall>i < length (nodes gs). nd_active (nodes gs ! i) \<and>
          nd_upstreams (nodes gs ! i) = map (edge_of gs) (diamond (nd_node (nodes gs ! i)))))"
  by (rule graph_new_wires) (rule diamond_reachable)+

text \<open>
  The crawl from one root, also into a graph that already holds nodes: it returns, it
  reports an error exactly when a cycle is reachable, it never touches what was registered
  before, and on success everything reachable is registered after all its upstreams, with the
  returned index that of the root.
\<close>
lemma initialise_node_correct:
  assumes "registry_ok gs" "registry_closed ups gs" "finite {n. (root, n) \<in> (up_rel ups)\<^sup>*}"
  shows "\<exists>gs' r. initialise_node ups root gs = Some (gs', r) \<and> registry_ok gs' \<and> registry_closed ups gs' \<and>
    same_but_nodes gs gs' \<and> (isl r \<longleftrightarrow> (\<exists>u. (root, u) \<in> (up_rel ups)\<^sup>* \<and> (u, u) \<in> (up_rel ups)\<^sup>+)) \<and>
    (\<forall>i. r = Inr i \<longrightarrow> node_to_index gs' root = Some i \<and> (\<forall>n. (root, n) \<in> (up_rel ups)\<^sup>* \<longrightarrow> seen gs' n))"
proof -
  obtain gs' r where 1: "initialise_node ups root gs = Some (gs', r)" "registry_ok gs'" "registry_closed ups gs'"
    "same_but_nodes gs gs'"
    "case r of Inr i \<Rightarrow> node_to_index gs' root = Some i \<and>
         (\<forall>n. (root, n) \<in> (up_rel ups)\<^sup>* \<longrightarrow> seen gs' n \<and> (n, n) \<notin> (up_rel ups)\<^sup>+)
     | Inl e \<Rightarrow> \<exists>u. e = CycleDetected u \<and> (root, u) \<in> (up_rel ups)\<^sup>* \<and> (u, u) \<in> (up_rel ups)\<^sup>+"
    using initialise_node_result[OF assms] by blast
  then show ?thesis by (cases r) auto
qed

lemma initialise_node_correct_witness:
  "\<exists>gs' r. initialise_node diamond 3 (graph_state_new 0 RealTime Forever nano_zero) = Some (gs', r) \<and>
    registry_ok gs' \<and> registry_closed diamond gs' \<and>
    same_but_nodes (graph_state_new 0 RealTime Forever nano_zero) gs' \<and>
    (isl r \<longleftrightarrow> (\<exists>u. (3, u) \<in> (up_rel diamond)\<^sup>* \<and> (u, u) \<in> (up_rel diamond)\<^sup>+)) \<and>
    (\<forall>i. r = Inr i \<longrightarrow> node_to_index gs' 3 = Some i \<and> (\<forall>n. (3, n) \<in> (up_rel diamond)\<^sup>* \<longrightarrow> seen gs' n))"
  by (rule initialise_node_correct)
    (simp_all add: diamond_reachable registry_ok_def registry_closed_def graph_state_new_def)

end
