(* ===== verification/Dynamic.thy ===== *)
theory Dynamic
  imports Wiring
begin

text \<open>
  Changes to the graph between engine cycles: \<open>process_pending_removals\<close>,
  \<open>process_pending_additions\<close> and \<open>fix_layers\<close> of \<^verbatim>\<open>src/wingfoil/src/graph.rs\<close> (the
  \<^verbatim>\<open>dynamic-graph\<close> feature). Outcomes are values of \<open>('s, 'r) outcome\<close>: \<open>None\<close> is a panic or
  a loop that never ends, and the world is returned with an error too.
\<close>

section \<open>Sequencing\<close>

definition and_then ::
  "('s, 'r) outcome \<Rightarrow> ('s world \<Rightarrow> 'r \<Rightarrow> ('s, 'q) outcome) \<Rightarrow> ('s, 'q) outcome" where
  "and_then m f = (case m of
       None \<Rightarrow> None
     | Some (w, Inl e) \<Rightarrow> Some (w, Inl e)
     | Some (w, Inr r) \<Rightarrow> f w r)"

definition map_err :: "(anyhow \<Rightarrow> anyhow) \<Rightarrow> ('s, 'r) outcome \<Rightarrow> ('s, 'r) outcome" where
  "map_err f m = (case m of Some (w, Inl e) \<Rightarrow> Some (w, Inl (f e)) | _ \<Rightarrow> m)"

fun for_each :: "('a \<Rightarrow> 's world \<Rightarrow> ('s, unit) outcome) \<Rightarrow> 'a list \<Rightarrow> 's world \<Rightarrow> ('s, unit) outcome" where
  "for_each f [] w = Some (w, Inr ())"
| "for_each f (x # xs) w = and_then (f x w) (\<lambda>w' _. for_each f xs w')"

text \<open>
  A lifecycle call of the node at \<open>ix\<close>. \<^verbatim>\<open>current_node_index\<close> is reset on success only:
  the \<^verbatim>\<open>?\<close> returns before the reset.
\<close>

definition call_phase ::
  "(node \<Rightarrow> ('s, unit) node_call) \<Rightarrow> string \<Rightarrow> nat \<Rightarrow> node \<Rightarrow> 's world \<Rightarrow> ('s, unit) outcome" where
  "call_phase f desc ix n w =
     and_then (map_err (ErrorDuring desc ix)
       (call_node (f n) ((fst w)\<lparr>current_node_index := Some ix\<rparr>, snd w)))
     (\<lambda>(gs, s) _. Some ((gs\<lparr>current_node_index := None\<rparr>, s), Inr ()))"

section \<open>Removals\<close>

fun unlink_downstreams :: "nat \<Rightarrow> edge list \<Rightarrow> node_data list \<Rightarrow> node_data list option" where
  "unlink_downstreams index [] ns = Some ns"
| "unlink_downstreams index (e # es) ns = (let k = ed_node_index e in
     if k < length ns then
       unlink_downstreams index es (ns[k := (ns ! k)\<lparr>nd_downstreams :=
         filter (\<lambda>e. ed_node_index e \<noteq> index) (nd_downstreams (ns ! k))\<rparr>])
     else None)"

fun unlink_upstreams :: "nat \<Rightarrow> edge list \<Rightarrow> node_data list \<Rightarrow> node_data list option" where
  "unlink_upstreams index [] ns = Some ns"
| "unlink_upstreams index (e # es) ns = (let k = ed_node_index e in
     if k < length ns then
       unlink_upstreams index es (ns[k := (ns ! k)\<lparr>nd_upstreams :=
         filter (\<lambda>e. ed_node_index e \<noteq> index) (nd_upstreams (ns ! k))\<rparr>])
     else None)"

definition unlink_node :: "nat \<Rightarrow> node_data list \<Rightarrow> node_data list option" where
  "unlink_node index ns = do {
     ns1 \<leftarrow> unlink_downstreams index (nd_upstreams (ns ! index)) ns;
     unlink_upstreams index (nd_downstreams (ns1 ! index)) ns1 }"

definition process_removal :: "'s node_ops \<Rightarrow> node \<Rightarrow> 's world \<Rightarrow> ('s, unit) outcome" where
  "process_removal ops n w = (let gs = fst w in case node_index gs n of
       None \<Rightarrow> Some (w, Inr ())
     | Some index \<Rightarrow>
         if length (nodes gs) \<le> index then None
         else if \<not> nd_active (nodes gs ! index) then Some (w, Inr ())
         else (case unlink_node index (nodes gs) of
             None \<Rightarrow> None
           | Some ns \<Rightarrow>
               and_then (call_phase (op_stop ops) ''stop (pending removal)'' index n (gs\<lparr>nodes := ns\<rparr>, snd w))
                 (\<lambda>w1 _. and_then (call_phase (op_teardown ops) ''teardown (pending removal)'' index n w1)
                 (\<lambda>(gs2, s2) _. if index < length (nodes gs2) then
                    Some ((gs2\<lparr>nodes := (nodes gs2)[index := (nodes gs2 ! index)\<lparr>nd_active := False\<rparr>]\<rparr>, s2),
                          Inr ())
                  else None))))"

definition process_pending_removals :: "'s node_ops \<Rightarrow> 's world \<Rightarrow> ('s, unit) outcome" where
  "process_pending_removals ops w =
     for_each (process_removal ops) (pending_removals (fst w)) ((fst w)\<lparr>pending_removals := []\<rparr>, snd w)"

section \<open>Layer repair\<close>

definition required_layer :: "graph_state \<Rightarrow> nat \<Rightarrow> nat option" where
  "required_layer gs i = (let es = nd_upstreams (nodes gs ! i) in
     if \<forall>e \<in> set es. ed_node_index e < length (nodes gs) then
       Some (case map (\<lambda>e. layer_of gs (ed_node_index e)) es of [] \<Rightarrow> 0 | l # ls \<Rightarrow> foldl max l ls + 1)
     else None)"

definition extend_layers :: "nat \<Rightarrow> nat list list \<Rightarrow> nat list list" where
  "extend_layers layer ds = ds @ replicate (Suc layer - length ds) []"

definition set_layer :: "nat \<Rightarrow> nat \<Rightarrow> graph_state \<Rightarrow> graph_state" where
  "set_layer i l gs = gs\<lparr>nodes := (nodes gs)[i := (nodes gs ! i)\<lparr>nd_layer := l\<rparr>]\<rparr>"

definition fix_step :: "nat list \<times> graph_state \<Rightarrow> (nat list \<times> graph_state) option" where
  "fix_step st = (case st of
       ([], gs) \<Rightarrow> Some ([], gs)
     | (i # queue, gs) \<Rightarrow>
         if length (nodes gs) \<le> i then None
         else do {
           required \<leftarrow> required_layer gs i;
           let (queue', gs') = (if layer_of gs i < required
             then (queue @ map ed_node_index (nd_downstreams (nodes gs ! i)), set_layer i required gs)
             else (queue, gs));
           Some (queue', gs'\<lparr>dirty_nodes_by_layer :=
             extend_layers (layer_of gs' i) (dirty_nodes_by_layer gs')\<rparr>) })"

definition fix_running :: "nat list \<times> graph_state \<Rightarrow> bool" where
  "fix_running st \<longleftrightarrow> fst st \<noteq> []"

definition fix_layers :: "nat \<Rightarrow> graph_state \<Rightarrow> graph_state option" where
  "fix_layers start gs = map_option snd (while_ok fix_running fix_step ([start], gs))"

section \<open>Additions\<close>

text \<open>The walk that finds where a newly added sub-graph has to be re-cycled.\<close>

definition recycle_step ::
  "nat set \<Rightarrow> nanotime \<Rightarrow> nat list \<times> nat set \<times> graph_state \<Rightarrow> (nat list \<times> nat set \<times> graph_state) option" where
  "recycle_step new_set time st = (case st of
       ([], visited, gs) \<Rightarrow> Some ([], visited, gs)
     | (ix # stack, visited, gs) \<Rightarrow>
         if ix \<in> visited then Some (stack, visited, gs)
         else if length (nodes gs) \<le> ix then None
         else let upstreams = nd_upstreams (nodes gs ! ix);
                  has_preexisting = (\<exists>e \<in> set upstreams. ed_node_index e \<notin> new_set);
                  is_source = (upstreams = []);
                  gs' = (if has_preexisting \<or> is_source then add_callback_for_node ix time gs else gs);
                  pushed = filter (\<lambda>i. i \<in> new_set) (map ed_node_index upstreams)
              in Some (rev pushed @ stack, insert ix visited, gs'))"

definition recycle_running :: "nat list \<times> nat set \<times> graph_state \<Rightarrow> bool" where
  "recycle_running st \<longleftrightarrow> fst st \<noteq> []"

definition recycle_walk :: "nat set \<Rightarrow> nanotime \<Rightarrow> nat \<Rightarrow> graph_state \<Rightarrow> graph_state option" where
  "recycle_walk new_set time start gs =
     map_option (snd \<circ> snd) (while_ok recycle_running (recycle_step new_set time) ([start], {}, gs))"

fun wire_additions :: "(node \<Rightarrow> (node \<times> bool) list) \<Rightarrow> pending_addition list \<Rightarrow> graph_state \<Rightarrow>
    (graph_state \<times> (anyhow + unit)) option" where
  "wire_additions ups [] gs = Some (gs, Inr ())"
| "wire_additions ups (a # as) gs = (case initialise_node ups (pa_node a) gs of
       None \<Rightarrow> None
     | Some (gs', Inl e) \<Rightarrow> Some (gs', Inl e)
     | Some (gs', Inr i) \<Rightarrow> wire_additions ups as gs')"

definition push_edge_pair :: "nat \<Rightarrow> nat \<Rightarrow> bool \<Rightarrow> node_data list \<Rightarrow> node_data list option" where
  "push_edge_pair caller ni is_active ns =
     (if caller < length ns \<and> ni < length ns then
        let ns1 = ns[caller := (ns ! caller)\<lparr>nd_upstreams := nd_upstreams (ns ! caller) @
              [\<lparr>ed_node_index = ni, ed_active = is_active\<rparr>]\<rparr>]
        in Some (ns1[ni := (ns1 ! ni)\<lparr>nd_downstreams := nd_downstreams (ns1 ! ni) @
              [\<lparr>ed_node_index = caller, ed_active = is_active\<rparr>]\<rparr>])
      else None)"

fun link_additions :: "nat list \<Rightarrow> (nat \<times> nat) set \<Rightarrow> pending_addition list \<Rightarrow> graph_state \<Rightarrow>
    graph_state option" where
  "link_additions new_indices wired [] gs = Some gs"
| "link_additions new_indices wired (a # as) gs = do {
     ni \<leftarrow> node_index gs (pa_node a);
     let key = (pa_caller_index a, ni);
     gs1 \<leftarrow> (if key \<in> wired then Some gs
             else map_option (\<lambda>ns. gs\<lparr>nodes := ns\<rparr>)
               (push_edge_pair (pa_caller_index a) ni (pa_is_active a) (nodes gs)));
     gs2 \<leftarrow> fix_layers (pa_caller_index a) gs1;
     gs3 \<leftarrow> (if pa_recycle a
             then recycle_walk (set new_indices) (nano_add (gs_time gs2) (NanoTime 1)) ni gs2
             else Some gs2);
     link_additions new_indices (insert key wired) as gs3 }"

definition call_new :: "(node \<Rightarrow> ('s, unit) node_call) \<Rightarrow> string \<Rightarrow> nat \<Rightarrow> 's world \<Rightarrow> ('s, unit) outcome" where
  "call_new f desc ix w =
     (if ix < length (nodes (fst w)) then call_phase f desc ix (nd_node (nodes (fst w) ! ix)) w else None)"

definition process_pending_additions :: "'s node_ops \<Rightarrow> 's world \<Rightarrow> ('s, unit) outcome" where
  "process_pending_additions ops w = (case w of (gs0, s) \<Rightarrow>
     let additions = pending_additions gs0; gs = gs0\<lparr>pending_additions := []\<rparr> in
     if additions = [] then Some ((gs, s), Inr ())
     else (case wire_additions (upstream_pairs ops s) additions gs of
         None \<Rightarrow> None
       | Some (gs1, Inl e) \<Rightarrow> Some ((gs1, s), Inl e)
       | Some (gs1, Inr _) \<Rightarrow>
           let new_indices = [length (nodes gs) ..< length (nodes gs1)];
               gs2 = gs1\<lparr>node_dirty := node_dirty gs1 @ map (\<lambda>_. False) new_indices\<rparr>
           in (case wire_downstreams new_indices (nodes gs2) of
               None \<Rightarrow> None
             | Some ns \<Rightarrow> (case link_additions new_indices {} additions (gs2\<lparr>nodes := ns\<rparr>) of
                   None \<Rightarrow> None
                 | Some gs3 \<Rightarrow>
                     and_then (for_each (call_new (op_setup ops) ''setup (dynamic addition)'') new_indices (gs3, s))
                       (\<lambda>w1 _. for_each (call_new (op_start ops) ''start (dynamic addition)'') new_indices w1)))))"


section \<open>Outcomes that are safe\<close>

text \<open>No panic, and the world left behind satisfies \<open>P\<close>, whatever the result.\<close>

definition safe :: "('s, 'r) outcome \<Rightarrow> ('s world \<Rightarrow> bool) \<Rightarrow> bool" where
  "safe m P \<longleftrightarrow> (\<exists>w r. m = Some (w, r) \<and> P w)"

lemma safe_result [simp]: "safe (Some (w, r)) P = P w"
  by (simp add: safe_def)

lemma safe_and_then:
  assumes "safe m P" and "\<And>w r. P w \<Longrightarrow> safe (f w r) P"
  shows "safe (and_then m f) P"
  using assms by (auto simp: safe_def and_then_def split: sum.splits)

lemma safe_map_err [simp]: "safe (map_err f m) P = safe m P"
  by (auto simp: safe_def map_err_def split: option.splits sum.splits)

lemma safe_for_each:
  assumes "\<And>x w. x \<in> set xs \<Longrightarrow> P w \<Longrightarrow> safe (f x w) P" and "P w"
  shows "safe (for_each f xs w) P"
  using assms
proof (induction xs arbitrary: w)
  case Nil
  then show ?case by simp
next
  case (Cons x xs)
  have "safe (f x w) P" using Cons.prems by simp
  moreover have "safe (for_each f xs w') P" if "P w'" for w' using Cons.IH Cons.prems(1) that by simp
  ultimately show ?case by (simp add: safe_and_then)
qed

section \<open>Unlinking a node\<close>

lemma unlink_downstreams_spec:
  assumes "\<forall>e \<in> set es. ed_node_index e < length ns"
  shows "\<exists>ns'. unlink_downstreams index es ns = Some ns' \<and> length ns' = length ns \<and>
    (\<forall>k < length ns. ns' ! k = (if k \<in> ed_node_index ` set es then (ns ! k)\<lparr>nd_downstreams :=
       filter (\<lambda>e. ed_node_index e \<noteq> index) (nd_downstreams (ns ! k))\<rparr> else ns ! k))"
  using assms
proof (induction es arbitrary: ns)
  case Nil
  then show ?case by simp
next
  case (Cons e es)
  let ?k = "ed_node_index e"
  let ?ns = "ns[?k := (ns ! ?k)\<lparr>nd_downstreams :=
    filter (\<lambda>e. ed_node_index e \<noteq> index) (nd_downstreams (ns ! ?k))\<rparr>]"
  have k: "?k < length ns" using Cons.prems by simp
  from Cons.IH[of ?ns] Cons.prems obtain ns' where "unlink_downstreams index es ?ns = Some ns'"
    "length ns' = length ns"
    "\<forall>k < length ns. ns' ! k = (if k \<in> ed_node_index ` set es then (?ns ! k)\<lparr>nd_downstreams :=
       filter (\<lambda>e. ed_node_index e \<noteq> index) (nd_downstreams (?ns ! k))\<rparr> else ?ns ! k)" by auto
  with k show ?case by (auto simp: nth_list_update_if Let_def)
qed

lemma unlink_upstreams_spec:
  assumes "\<forall>e \<in> set es. ed_node_index e < length ns"
  shows "\<exists>ns'. unlink_upstreams index es ns = Some ns' \<and> length ns' = length ns \<and>
    (\<forall>k < length ns. ns' ! k = (if k \<in> ed_node_index ` set es then (ns ! k)\<lparr>nd_upstreams :=
       filter (\<lambda>e. ed_node_index e \<noteq> index) (nd_upstreams (ns ! k))\<rparr> else ns ! k))"
  using assms
proof (induction es arbitrary: ns)
  case Nil
  then show ?case by simp
next
  case (Cons e es)
  let ?k = "ed_node_index e"
  let ?ns = "ns[?k := (ns ! ?k)\<lparr>nd_upstreams :=
    filter (\<lambda>e. ed_node_index e \<noteq> index) (nd_upstreams (ns ! ?k))\<rparr>]"
  have k: "?k < length ns" using Cons.prems by simp
  from Cons.IH[of ?ns] Cons.prems obtain ns' where "unlink_upstreams index es ?ns = Some ns'"
    "length ns' = length ns"
    "\<forall>k < length ns. ns' ! k = (if k \<in> ed_node_index ` set es then (?ns ! k)\<lparr>nd_upstreams :=
       filter (\<lambda>e. ed_node_index e \<noteq> index) (nd_upstreams (?ns ! k))\<rparr> else ?ns ! k)" by auto
  with k show ?case by (auto simp: nth_list_update_if Let_def)
qed

text \<open>Unlinking only drops edges, and it drops every edge that touches the node.\<close>

definition edges_shrink :: "node_data list \<Rightarrow> node_data list \<Rightarrow> bool" where
  "edges_shrink ns ns' \<longleftrightarrow> length ns' = length ns \<and> (\<forall>k < length ns.
     nd_node (ns' ! k) = nd_node (ns ! k) \<and> nd_layer (ns' ! k) = nd_layer (ns ! k) \<and>
     nd_active (ns' ! k) = nd_active (ns ! k) \<and>
     set (nd_upstreams (ns' ! k)) \<subseteq> set (nd_upstreams (ns ! k)) \<and>
     set (nd_downstreams (ns' ! k)) \<subseteq> set (nd_downstreams (ns ! k)))"

lemma unlink_node_spec:
  assumes "wf_edges gs" "index < length (nodes gs)"
  shows "\<exists>ns. unlink_node index (nodes gs) = Some ns \<and> edges_shrink (nodes gs) ns \<and>
    (\<forall>k < length ns. set (nd_downstreams (ns ! k)) = (if k \<in> ed_node_index ` set (nd_upstreams (nodes gs ! index))
        then {e \<in> set (nd_downstreams (nodes gs ! k)). ed_node_index e \<noteq> index}
        else set (nd_downstreams (nodes gs ! k))) \<and>
      set (nd_upstreams (ns ! k)) = (if k \<in> ed_node_index ` set (nd_downstreams (nodes gs ! index))
        then {e \<in> set (nd_upstreams (nodes gs ! k)). ed_node_index e \<noteq> index}
        else set (nd_upstreams (nodes gs ! k))))"
proof -
  let ?ns = "nodes gs"
  have up: "\<forall>e \<in> set (nd_upstreams (?ns ! index)). ed_node_index e < length ?ns"
    and down: "\<forall>e \<in> set (nd_downstreams (?ns ! index)). ed_node_index e < length ?ns"
    and self: "index \<notin> ed_node_index ` set (nd_upstreams (?ns ! index))"
    using assms by (auto simp: wf_edges_def)
  from unlink_downstreams_spec[OF up, of index] obtain ns1 where
    1: "unlink_downstreams index (nd_upstreams (?ns ! index)) ?ns = Some ns1" "length ns1 = length ?ns"
      "\<forall>k < length ?ns. ns1 ! k = (if k \<in> ed_node_index ` set (nd_upstreams (?ns ! index))
         then (?ns ! k)\<lparr>nd_downstreams :=
           filter (\<lambda>e. ed_node_index e \<noteq> index) (nd_downstreams (?ns ! k))\<rparr> else ?ns ! k)" by blast
  have same: "nd_downstreams (ns1 ! index) = nd_downstreams (?ns ! index)" using 1(3) self assms(2) by simp
  have "\<forall>e \<in> set (nd_downstreams (?ns ! index)). ed_node_index e < length ns1" using down 1(2) by simp
  from unlink_upstreams_spec[OF this, of index] obtain ns2 where
    2: "unlink_upstreams index (nd_downstreams (?ns ! index)) ns1 = Some ns2" "length ns2 = length ?ns"
      "\<forall>k < length ?ns. ns2 ! k = (if k \<in> ed_node_index ` set (nd_downstreams (?ns ! index))
         then (ns1 ! k)\<lparr>nd_upstreams :=
           filter (\<lambda>e. ed_node_index e \<noteq> index) (nd_upstreams (ns1 ! k))\<rparr> else ns1 ! k)"
    using 1(2) by auto
  have "unlink_node index ?ns = Some ns2" using 1(1) 2(1) same by (simp add: unlink_node_def)
  moreover have "edges_shrink ?ns ns2" using 1(3) 2(2,3) by (auto simp: edges_shrink_def)
  ultimately show ?thesis using 1(3) 2(2,3) by auto
qed

lemma edges_shrink_wf:
  assumes "edges_shrink (nodes gs) ns" "wf_graph gs"
  shows "wf_graph (gs\<lparr>nodes := ns\<rparr>)"
proof -
  note sh = assms(1)[unfolded edges_shrink_def]
  have "nd_layer nd < length (dirty_nodes_by_layer gs)" if "nd \<in> set ns" for nd
    using assms(2) that sh by (metis in_set_conv_nth wf_graph_def wf_lengths_def)
  then have "wf_lengths (gs\<lparr>nodes := ns\<rparr>)" using assms(2) sh by (simp add: wf_defs)
  moreover have "wf_edges (gs\<lparr>nodes := ns\<rparr>)"
    unfolding wf_edges_def
  proof (intro allI impI conjI ballI)
    fix i e assume "i < length (nodes (gs\<lparr>nodes := ns\<rparr>))" "e \<in> set (nd_downstreams (nodes (gs\<lparr>nodes := ns\<rparr>) ! i))"
    then have "i < length (nodes gs)" "e \<in> set (nd_downstreams (nodes gs ! i))" using sh by auto
    then have "ed_node_index e < length (nodes gs)" "layer_of gs i < layer_of gs (ed_node_index e)"
      using assms(2) by (auto simp: wf_graph_def wf_edges_def)
    with sh \<open>i < length (nodes gs)\<close>
    show "ed_node_index e < length (nodes (gs\<lparr>nodes := ns\<rparr>))"
      "layer_of (gs\<lparr>nodes := ns\<rparr>) i < layer_of (gs\<lparr>nodes := ns\<rparr>) (ed_node_index e)" by auto
  next
    fix i e assume "i < length (nodes (gs\<lparr>nodes := ns\<rparr>))" "e \<in> set (nd_upstreams (nodes (gs\<lparr>nodes := ns\<rparr>) ! i))"
    then have "i < length (nodes gs)" "e \<in> set (nd_upstreams (nodes gs ! i))" using sh by auto
    then have "ed_node_index e < length (nodes gs)" "layer_of gs (ed_node_index e) < layer_of gs i"
      using assms(2) by (auto simp: wf_graph_def wf_edges_def)
    with sh \<open>i < length (nodes gs)\<close>
    show "ed_node_index e < length (nodes (gs\<lparr>nodes := ns\<rparr>))"
      "layer_of (gs\<lparr>nodes := ns\<rparr>) (ed_node_index e) < layer_of (gs\<lparr>nodes := ns\<rparr>) i" by auto
  qed
  moreover have "wf_indices (gs\<lparr>nodes := ns\<rparr>)" using assms(2) sh by (simp add: wf_graph_def wf_indices_def)
  ultimately show ?thesis by (simp add: wf_graph_def)
qed

lemma unlink_node_isolates:
  assumes "wf_edges gs" "edges_mirrored gs" "index < length (nodes gs)"
    "unlink_node index (nodes gs) = Some ns" "k < length ns"
  shows "\<forall>e \<in> set (nd_downstreams (ns ! k)) \<union> set (nd_upstreams (ns ! k)). ed_node_index e \<noteq> index"
proof -
  have len: "length ns = length (nodes gs)"
    and dn: "e \<in> set (nd_downstreams (ns ! k)) \<Longrightarrow> e \<in> set (nd_downstreams (nodes gs ! k)) \<and>
      (k \<in> ed_node_index ` set (nd_upstreams (nodes gs ! index)) \<longrightarrow> ed_node_index e \<noteq> index)"
    and up: "e \<in> set (nd_upstreams (ns ! k)) \<Longrightarrow> e \<in> set (nd_upstreams (nodes gs ! k)) \<and>
      (k \<in> ed_node_index ` set (nd_downstreams (nodes gs ! index)) \<longrightarrow> ed_node_index e \<noteq> index)" for e
    using unlink_node_spec[OF assms(1,3)] assms(4,5) by (auto simp: edges_shrink_def split: if_splits)
  have k: "k < length (nodes gs)" using len assms(5) by simp
  have "ed_node_index e \<noteq> index" if e: "e \<in> set (nd_downstreams (ns ! k))" for e
  proof
    assume i: "ed_node_index e = index"
    from dn[OF e] edge_eq[OF i] have "\<lparr>ed_node_index = index, ed_active = ed_active e\<rparr> \<in> set (nd_downstreams (nodes gs ! k))"
      by simp
    with assms(2,3) k have "\<lparr>ed_node_index = k, ed_active = ed_active e\<rparr> \<in> set (nd_upstreams (nodes gs ! index))"
      by (simp add: edges_mirrored_def)
    then have "k \<in> ed_node_index ` set (nd_upstreams (nodes gs ! index))" by force
    with dn[OF e] i show False by simp
  qed
  moreover have "ed_node_index e \<noteq> index" if e: "e \<in> set (nd_upstreams (ns ! k))" for e
  proof
    assume i: "ed_node_index e = index"
    from up[OF e] edge_eq[OF i] have "\<lparr>ed_node_index = index, ed_active = ed_active e\<rparr> \<in> set (nd_upstreams (nodes gs ! k))"
      by simp
    with assms(2,3) k have "\<lparr>ed_node_index = k, ed_active = ed_active e\<rparr> \<in> set (nd_downstreams (nodes gs ! index))"
      by (simp add: edges_mirrored_def)
    then have "k \<in> ed_node_index ` set (nd_downstreams (nodes gs ! index))" by force
    with up[OF e] i show False by simp
  qed
  ultimately show ?thesis by blast
qed


section \<open>Layer repair\<close>

subsection \<open>The required layer\<close>

lemma foldl_max_layers: "foldl (\<lambda>l e. max l (f e + 1)) (Suc a) es = Suc (foldl max a (map f es))" for a :: nat
proof (induction es arbitrary: a)
  case Nil
  then show ?case by simp
next
  case (Cons e es)
  from Cons.IH[of "max a (f e)"] show ?case by simp
qed

lemma required_layer_eq:
  assumes "\<forall>e \<in> set (nd_upstreams (nodes gs ! i)). ed_node_index e < length (nodes gs)"
  shows "required_layer gs i = Some (edges_layer gs (nd_upstreams (nodes gs ! i)))"
proof (cases "nd_upstreams (nodes gs ! i)")
  case Nil
  then show ?thesis by (simp add: required_layer_def edges_layer_def)
next
  case (Cons e es)
  with assms foldl_max_layers[of "\<lambda>e. layer_of gs (ed_node_index e)" _ es] show ?thesis
    by (simp add: required_layer_def edges_layer_def)
qed

subsection \<open>What a repair keeps\<close>

definition edges_in_range :: "graph_state \<Rightarrow> bool" where
  "edges_in_range gs \<longleftrightarrow> (\<forall>i < length (nodes gs).
     \<forall>e \<in> set (nd_upstreams (nodes gs ! i)) \<union> set (nd_downstreams (nodes gs ! i)).
       ed_node_index e < length (nodes gs))"

definition ranked :: "(nat \<Rightarrow> nat) \<Rightarrow> graph_state \<Rightarrow> bool" where
  "ranked rank gs \<longleftrightarrow> (\<forall>i < length (nodes gs).
     \<forall>e \<in> set (nd_upstreams (nodes gs ! i)). rank (ed_node_index e) < rank i)"

text \<open>The nodes not in \<open>X\<close> sit above all their upstreams.\<close>

definition layered_but :: "nat set \<Rightarrow> graph_state \<Rightarrow> bool" where
  "layered_but X gs \<longleftrightarrow> (\<forall>i < length (nodes gs). i \<notin> X \<longrightarrow>
     (\<forall>e \<in> set (nd_upstreams (nodes gs ! i)). layer_of gs (ed_node_index e) < layer_of gs i))"

definition relayered :: "graph_state \<Rightarrow> graph_state \<Rightarrow> bool" where
  "relayered gs0 gs \<longleftrightarrow>
     gs = gs0\<lparr>nodes := nodes gs, dirty_nodes_by_layer := dirty_nodes_by_layer gs\<rparr> \<and>
     length (nodes gs) = length (nodes gs0) \<and>
     (\<forall>k < length (nodes gs0). layer_of gs0 k \<le> layer_of gs k \<and>
        nodes gs ! k = (nodes gs0 ! k)\<lparr>nd_layer := layer_of gs k\<rparr> \<and>
        (layer_of gs k = layer_of gs0 k \<or> layer_of gs k < length (dirty_nodes_by_layer gs))) \<and>
     (\<exists>m. dirty_nodes_by_layer gs = dirty_nodes_by_layer gs0 @ replicate m [])"

lemma relayered_refl: "relayered gs gs"
  by (auto simp: relayered_def intro: exI[of _ 0])

lemma relayered_edges:
  assumes "relayered gs0 gs" "k < length (nodes gs0)"
  shows "nd_upstreams (nodes gs ! k) = nd_upstreams (nodes gs0 ! k)"
    "nd_downstreams (nodes gs ! k) = nd_downstreams (nodes gs0 ! k)"
    "nd_node (nodes gs ! k) = nd_node (nodes gs0 ! k)"
    "nd_active (nodes gs ! k) = nd_active (nodes gs0 ! k)"
proof -
  have "nodes gs ! k = (nodes gs0 ! k)\<lparr>nd_layer := layer_of gs k\<rparr>"
    using assms by (simp add: relayered_def)
  then show "nd_upstreams (nodes gs ! k) = nd_upstreams (nodes gs0 ! k)"
    "nd_downstreams (nodes gs ! k) = nd_downstreams (nodes gs0 ! k)"
    "nd_node (nodes gs ! k) = nd_node (nodes gs0 ! k)"
    "nd_active (nodes gs ! k) = nd_active (nodes gs0 ! k)"
    by (metis node_data.select_convs node_data.surjective node_data.update_convs(4))+
qed

subsection \<open>One step of the repair\<close>

definition fix_result :: "nat \<Rightarrow> graph_state \<Rightarrow> nat \<Rightarrow> graph_state" where
  "fix_result i gs l = (set_layer i l gs)\<lparr>dirty_nodes_by_layer :=
     extend_layers l (dirty_nodes_by_layer gs)\<rparr>"

lemma set_layer_same: "i < length (nodes gs) \<Longrightarrow> set_layer i (layer_of gs i) gs = gs"
  by (simp add: set_layer_def)

lemma fix_result_simps:
  assumes "i < length (nodes gs)"
  shows "length (nodes (fix_result i gs l)) = length (nodes gs)"
    "layer_of (fix_result i gs l) k = (if k = i then l else layer_of gs k)"
    "dirty_nodes_by_layer (fix_result i gs l) =
       dirty_nodes_by_layer gs @ replicate (Suc l - length (dirty_nodes_by_layer gs)) []"
    "nodes (fix_result i gs l) ! k = (nodes gs ! k)\<lparr>nd_layer := if k = i then l else layer_of gs k\<rparr>"
  using assms by (auto simp: fix_result_def set_layer_def extend_layers_def nth_list_update_if)

lemma fix_step_eq:
  assumes "i < length (nodes gs)" "edges_in_range gs"
    and l: "l = max (layer_of gs i) (edges_layer gs (nd_upstreams (nodes gs ! i)))"
  shows "fix_step (i # q, gs) = Some (q @ (if layer_of gs i < l
      then map ed_node_index (nd_downstreams (nodes gs ! i)) else []), fix_result i gs l)"
proof -
  have "required_layer gs i = Some (edges_layer gs (nd_upstreams (nodes gs ! i)))"
    using assms(1,2) by (intro required_layer_eq) (auto simp: edges_in_range_def)
  then show ?thesis
    using assms(1) set_layer_same[OF assms(1)]
    by (auto simp: fix_step_def fix_result_def l set_layer_def max_def)
qed

lemma fix_result_relayered:
  assumes "relayered gs0 gs" "i < length (nodes gs)" "layer_of gs i \<le> l"
  shows "relayered gs0 (fix_result i gs l)"
  unfolding relayered_def
proof (intro conjI allI impI)
  let ?gs = "fix_result i gs l"
  obtain ns ds where "gs = gs0\<lparr>nodes := ns, dirty_nodes_by_layer := ds\<rparr>"
    using assms(1) unfolding relayered_def by blast
  then show "?gs = gs0\<lparr>nodes := nodes ?gs, dirty_nodes_by_layer := dirty_nodes_by_layer ?gs\<rparr>"
    by (simp add: fix_result_def set_layer_def)
  obtain m where "dirty_nodes_by_layer gs = dirty_nodes_by_layer gs0 @ replicate m []"
    using assms(1) unfolding relayered_def by blast
  then show "\<exists>m. dirty_nodes_by_layer ?gs = dirty_nodes_by_layer gs0 @ replicate m []"
    using fix_result_simps(3)[OF assms(2), of l] by (metis append.assoc replicate_add)
  show "length (nodes ?gs) = length (nodes gs0)"
    using assms(1,2) fix_result_simps(1) by (simp add: relayered_def)
  fix k assume k: "k < length (nodes gs0)"
  have old: "layer_of gs0 k \<le> layer_of gs k" "nodes gs ! k = (nodes gs0 ! k)\<lparr>nd_layer := layer_of gs k\<rparr>"
    "layer_of gs k = layer_of gs0 k \<or> layer_of gs k < length (dirty_nodes_by_layer gs)"
    using assms(1) k by (auto simp: relayered_def)
  show "layer_of gs0 k \<le> layer_of ?gs k"
    using old(1) assms(3) by (auto simp: fix_result_simps(2)[OF assms(2)])
  show "layer_of ?gs k = layer_of gs0 k \<or> layer_of ?gs k < length (dirty_nodes_by_layer ?gs)"
    using old(3) by (auto simp: fix_result_simps(2,3)[OF assms(2)])
  have "nodes ?gs ! k = (nodes gs ! k)\<lparr>nd_layer := layer_of ?gs k\<rparr>"
    by (simp add: fix_result_simps(2,4)[OF assms(2)])
  then show "nodes ?gs ! k = (nodes gs0 ! k)\<lparr>nd_layer := layer_of ?gs k\<rparr>"
    by (subst (asm) old(2)) simp
qed


subsection \<open>The repair on an acyclic graph\<close>

text \<open>
  \<open>M + rank k\<close> bounds the layer of node \<open>k\<close>: a repair raises a layer only to one more than
  the layer of an upstream.
\<close>

definition fix_inv :: "nat \<Rightarrow> (nat \<Rightarrow> nat) \<Rightarrow> nat \<Rightarrow> graph_state \<Rightarrow> nat list \<times> graph_state \<Rightarrow> bool" where
  "fix_inv M rank start gs0 st \<longleftrightarrow> (case st of (q, gs) \<Rightarrow>
     relayered gs0 gs \<and> set q \<subseteq> {..<length (nodes gs0)} \<and>
     (\<forall>k < length (nodes gs0). layer_of gs k \<le> M + rank k) \<and> layered_but (set q) gs \<and>
     (start \<in> set q \<or> layer_of gs start < length (dirty_nodes_by_layer gs)))"

definition fix_room :: "nat \<Rightarrow> (nat \<Rightarrow> nat) \<Rightarrow> nat list \<times> graph_state \<Rightarrow> nat" where
  "fix_room M rank st = (\<Sum>k < length (nodes (snd st)). M + rank k - layer_of (snd st) k)"

lemma edges_layer_rank:
  assumes "\<forall>e \<in> set es. layer_of gs (ed_node_index e) \<le> M + rank (ed_node_index e) \<and>
      rank (ed_node_index e) < r"
  shows "edges_layer gs es \<le> M + r"
  using assms by (intro edges_layer_le) force

lemma fix_step_inv:
  assumes inv: "fix_inv M rank start gs0 (i # q, gs)"
    and g0: "edges_in_range gs0" "edges_mirrored gs0" "ranked rank gs0"
  shows "\<exists>st. fix_step (i # q, gs) = Some st \<and> fix_inv M rank start gs0 st \<and>
    (st, (i # q, gs)) \<in> measures [fix_room M rank, \<lambda>st. length (fst st)]"
proof -
  let ?n = "length (nodes gs0)"
  have re: "relayered gs0 gs" and q: "set (i # q) \<subseteq> {..<?n}"
    and bound: "\<And>k. k < ?n \<Longrightarrow> layer_of gs k \<le> M + rank k" and lay: "layered_but (set (i # q)) gs"
    and st: "start \<in> set (i # q) \<or> layer_of gs start < length (dirty_nodes_by_layer gs)"
    using inv by (auto simp: fix_inv_def)
  have len: "length (nodes gs) = ?n" and i: "i < ?n" using re q by (auto simp: relayered_def)
  then have i': "i < length (nodes gs)" by simp
  note ed = relayered_edges(1,2)[OF re]
  have range: "edges_in_range gs" using g0(1) ed by (simp add: edges_in_range_def len)
  let ?r = "edges_layer gs (nd_upstreams (nodes gs ! i))"
  define l where "l = max (layer_of gs i) ?r"
  have l: "?r \<le> l" "\<not> layer_of gs i < l \<Longrightarrow> l = layer_of gs i" by (auto simp: l_def)
  let ?gs = "fix_result i gs l" and ?q = "q @ (if layer_of gs i < l
      then map ed_node_index (nd_downstreams (nodes gs ! i)) else [])"
  note fr = fix_result_simps[OF i', of l]
  have step: "fix_step (i # q, gs) = Some (?q, ?gs)" by (rule fix_step_eq[OF i' range l_def])
  have re': "relayered gs0 ?gs" by (rule fix_result_relayered[OF re i']) (simp add: l_def)
  have upr: "ed_node_index e < ?n \<and> rank (ed_node_index e) < rank k"
    if "k < ?n" "e \<in> set (nd_upstreams (nodes gs ! k))" for k e
    using that g0(1,3) ed by (auto simp: edges_in_range_def ranked_def)
  have "?r \<le> M + rank i"
    using upr[OF i] bound by (intro edges_layer_rank[where rank = rank]) blast
  then have li: "l \<le> M + rank i" using bound[OF i] by (simp add: l_def)
  have "layered_but (set ?q) ?gs"
    unfolding layered_but_def fr(1) len
  proof (intro allI impI ballI)
    fix k e assume k: "k < ?n" "k \<notin> set ?q" and e: "e \<in> set (nd_upstreams (nodes ?gs ! k))"
    then have e': "e \<in> set (nd_upstreams (nodes gs ! k))" by (simp add: fr(4))
    have not_self: "ed_node_index e \<noteq> k" using upr[OF k(1) e'] by auto
    show "layer_of ?gs (ed_node_index e) < layer_of ?gs k"
    proof (cases "k = i")
      case True
      with edges_layer_ge[of e "nd_upstreams (nodes gs ! i)" gs] e' not_self show ?thesis
        using l(1) by (simp add: fr(2))
    next
      case False
      with k lay e' have ok: "layer_of gs (ed_node_index e) < layer_of gs k"
        by (auto simp: layered_but_def len)
      show ?thesis
      proof (cases "ed_node_index e = i \<and> layer_of gs i < l")
        case True
        then have "\<lparr>ed_node_index = i, ed_active = ed_active e\<rparr> \<in> set (nd_upstreams (nodes gs0 ! k))"
          using e' ed(1)[OF k(1)] edge_eq by metis
        then have "\<lparr>ed_node_index = k, ed_active = ed_active e\<rparr> \<in> set (nd_downstreams (nodes gs0 ! i))"
          using g0(2) i k(1) by (simp add: edges_mirrored_def)
        then have "k \<in> set (map ed_node_index (nd_downstreams (nodes gs ! i)))"
          using ed(2)[OF i] by force
        with k(2) True show ?thesis by simp
      next
        case False
        with ok \<open>k \<noteq> i\<close> show ?thesis using l(2) by (auto simp: fr(2))
      qed
    qed
  qed
  moreover have "set ?q \<subseteq> {..<?n}"
    using q g0(1) ed(2)[OF i] i by (auto simp: edges_in_range_def split: if_splits)
  moreover have "\<forall>k < ?n. layer_of ?gs k \<le> M + rank k" using bound li by (simp add: fr(2))
  moreover have "start \<in> set ?q \<or> layer_of ?gs start < length (dirty_nodes_by_layer ?gs)"
    using st by (auto simp: fr(2,3))
  ultimately have "fix_inv M rank start gs0 (?q, ?gs)" using re' by (simp add: fix_inv_def)
  moreover have "((?q, ?gs), (i # q, gs)) \<in> measures [fix_room M rank, \<lambda>st. length (fst st)]"
  proof (cases "layer_of gs i < l")
    case True
    have "(\<Sum>k < ?n. M + rank k - layer_of ?gs k) < (\<Sum>k < ?n. M + rank k - layer_of gs k)"
    proof (rule sum_strict_mono_ex1)
      show "\<forall>k\<in>{..<?n}. M + rank k - layer_of ?gs k \<le> M + rank k - layer_of gs k"
        using True by (auto simp: fr(2))
      show "\<exists>k\<in>{..<?n}. M + rank k - layer_of ?gs k < M + rank k - layer_of gs k"
        using True li i by (intro bexI[of _ i]) (auto simp: fr(2))
    qed simp
    then show ?thesis by (simp add: fix_room_def fr(1) len)
  next
    case False
    then have "l = layer_of gs i" by (rule l(2))
    then have "layer_of ?gs k = layer_of gs k" for k using fr(2)[of k] by simp
    with False show ?thesis by (simp add: fix_room_def fr(1))
  qed
  ultimately show ?thesis using step by blast
qed

lemma fix_layers_acyclic:
  assumes "edges_in_range gs" "edges_mirrored gs" "ranked rank gs"
    and "start < length (nodes gs)" "layered_but {start} gs"
  shows "\<exists>gs'. fix_layers start gs = Some gs' \<and> relayered gs gs' \<and> layered_but {} gs' \<and>
    layer_of gs' start < length (dirty_nodes_by_layer gs')"
proof -
  define M where "M = Max (insert 0 ((layer_of gs) ` {..<length (nodes gs)}))"
  have M: "layer_of gs k \<le> M + rank k" if "k < length (nodes gs)" for k
  proof -
    have "layer_of gs k \<le> M" unfolding M_def using that by (intro Max_ge) auto
    then show ?thesis by simp
  qed
  let ?P = "fix_inv M rank start gs"
  have "\<exists>z. while_ok fix_running fix_step ([start], gs) = Some z \<and> ?P z \<and> \<not> fix_running z"
  proof (rule while_ok_total)
    show "wf (measures [fix_room M rank, \<lambda>st :: nat list \<times> graph_state. length (fst st)])" by simp
    show "?P ([start], gs)" using assms(4,5) M by (simp add: fix_inv_def relayered_refl)
    fix st assume "?P st" "fix_running st"
    moreover obtain q g where "st = (q, g)" by fastforce
    moreover obtain i q' where "q = i # q'"
      using calculation by (auto simp: fix_running_def neq_Nil_conv)
    ultimately show "\<exists>y'. fix_step st = Some y' \<and> ?P y' \<and>
        (y', st) \<in> measures [fix_room M rank, \<lambda>st. length (fst st)]"
      using fix_step_inv[OF _ assms(1-3), of M start i q' g] by simp
  qed
  then obtain q gs' where "while_ok fix_running fix_step ([start], gs) = Some (q, gs')"
    "?P (q, gs')" "\<not> fix_running (q, gs')" by force
  then show ?thesis by (auto simp: fix_layers_def fix_inv_def fix_running_def)
qed

subsection \<open>The repair on a cyclic graph\<close>

text \<open>
  A cycle closed by \<^verbatim>\<open>add_upstream\<close> is not seen by \<open>initialise_node\<close> (its nodes are all
  registered already). As on an acyclic graph, the nodes outside the queue are above their upstreams;
  around a cycle that cannot hold of all nodes, so the queue never runs empty and the layers grow.
\<close>

definition up_edges :: "graph_state \<Rightarrow> (nat \<times> nat) set" where
  "up_edges gs = {(k, ed_node_index e) | k e. k < length (nodes gs) \<and> e \<in> set (nd_upstreams (nodes gs ! k))}"

definition cyc_inv :: "graph_state \<Rightarrow> nat list \<times> graph_state \<Rightarrow> bool" where
  "cyc_inv gs0 st \<longleftrightarrow> relayered gs0 (snd st) \<and> set (fst st) \<subseteq> {..<length (nodes gs0)} \<and> layered_but (set (fst st)) (snd st)"

definition layer_sum :: "graph_state \<Rightarrow> nat" where
  "layer_sum gs = (\<Sum>k < length (nodes gs). layer_of gs k)"

lemma fix_step_layered:
  assumes inv: "cyc_inv gs0 (i # q, gs)" and g0: "edges_in_range gs0" "edges_mirrored gs0"
  obtains q' gs' where "fix_step (i # q, gs) = Some (q', gs')" "cyc_inv gs0 (q', gs')"
    "layer_sum gs < layer_sum gs' \<or> layer_sum gs = layer_sum gs' \<and> q' = q"
proof -
  let ?n = "length (nodes gs0)"
  have re: "relayered gs0 gs" and q: "set (i # q) \<subseteq> {..<?n}" and lay: "layered_but (set (i # q)) gs"
    using inv by (auto simp: cyc_inv_def)
  have len: "length (nodes gs) = ?n" and i: "i < ?n" using re q by (auto simp: relayered_def)
  then have i': "i < length (nodes gs)" by simp
  note ed = relayered_edges(1,2)[OF re]
  have range: "edges_in_range gs" using g0(1) ed by (simp add: edges_in_range_def len)
  let ?r = "edges_layer gs (nd_upstreams (nodes gs ! i))"
  define l where "l = max (layer_of gs i) ?r"
  let ?gs = "fix_result i gs l" and ?q = "q @ (if layer_of gs i < l
      then map ed_node_index (nd_downstreams (nodes gs ! i)) else [])"
  note fr = fix_result_simps[OF i', of l]
  have step: "fix_step (i # q, gs) = Some (?q, ?gs)" by (rule fix_step_eq[OF i' range l_def])
  have re': "relayered gs0 ?gs" by (rule fix_result_relayered[OF re i']) (simp add: l_def)
  have down: "k \<in> set (map ed_node_index (nd_downstreams (nodes gs ! i)))"
    if "k < ?n" "e \<in> set (nd_upstreams (nodes gs ! k))" "ed_node_index e = i" for k e
  proof -
    have "\<lparr>ed_node_index = i, ed_active = ed_active e\<rparr> \<in> set (nd_upstreams (nodes gs0 ! k))"
      using that ed(1)[OF that(1)] edge_eq by metis
    then have "\<lparr>ed_node_index = k, ed_active = ed_active e\<rparr> \<in> set (nd_downstreams (nodes gs0 ! i))"
      using g0(2) i that(1) by (simp add: edges_mirrored_def)
    then show ?thesis using ed(2)[OF i] by force
  qed
  have "layered_but (set ?q) ?gs"
    unfolding layered_but_def fr(1) len
  proof (intro allI impI ballI)
    fix k e assume k: "k < ?n" "k \<notin> set ?q" and "e \<in> set (nd_upstreams (nodes ?gs ! k))"
    then have e: "e \<in> set (nd_upstreams (nodes gs ! k))" by (simp add: fr(4))
    have up: "layer_of gs (ed_node_index e) < l" if "k = i"
      using edges_layer_ge[OF e] that by (simp add: l_def less_max_iff_disj)
    have same: "l = layer_of gs i" if "ed_node_index e = i" using down[OF k(1) e that] k(2) by (cases "layer_of gs i < l") (auto simp: l_def)
    show "layer_of ?gs (ed_node_index e) < layer_of ?gs k"
    proof (cases "k = i")
      case True
      with up same show ?thesis by (cases "ed_node_index e = i") (auto simp: fr(2))
    next
      case False
      with k lay e have "layer_of gs (ed_node_index e) < layer_of gs k" by (auto simp: layered_but_def len)
      with False same show ?thesis by (auto simp: fr(2))
    qed
  qed
  moreover have "set ?q \<subseteq> {..<?n}"
    using q g0(1) ed(2)[OF i] i by (auto simp: edges_in_range_def split: if_splits)
  ultimately have "cyc_inv gs0 (?q, ?gs)" using re' by (simp add: cyc_inv_def)
  moreover have "layer_sum gs < layer_sum ?gs \<or> layer_sum gs = layer_sum ?gs \<and> ?q = q"
  proof (cases "layer_of gs i < l")
    case True
    have "layer_sum gs < layer_sum ?gs" unfolding layer_sum_def fr(1)
    proof (rule sum_strict_mono_ex1)
      show "\<forall>k\<in>{..<length (nodes gs)}. layer_of gs k \<le> layer_of ?gs k" using True by (auto simp: fr(2))
      show "\<exists>k\<in>{..<length (nodes gs)}. layer_of gs k < layer_of ?gs k" using True i' by (intro bexI[of _ i]) (auto simp: fr(2))
    qed simp
    then show ?thesis by blast
  next
    case False
    then have "l = layer_of gs i" by (simp add: l_def)
    then have "layer_of ?gs k = layer_of gs k" for k using fr(2)[of k] by simp
    with False show ?thesis by (simp add: layer_sum_def fr(1))
  qed
  ultimately show thesis using step by (intro that)
qed

lemma cyc_inv_queue:
  assumes "cyc_inv gs0 st" "(k, k) \<in> (up_edges gs0)\<^sup>+"
  shows "fst st \<noteq> []"
proof
  assume "fst st = []"
  with assms(1) have re: "relayered gs0 (snd st)" and lay: "layered_but {} (snd st)" by (simp_all add: cyc_inv_def)
  have "layer_of (snd st) b < layer_of (snd st) a" if "(a, b) \<in> (up_edges gs0)\<^sup>+" for a b
    using that
  proof (induction rule: trancl_induct)
    case (base b)
    then show ?case using lay relayered_edges(1)[OF re, of a] re by (auto simp: up_edges_def layered_but_def relayered_def)
  next
    case (step b c)
    have "layer_of (snd st) c < layer_of (snd st) b"
      using step.hyps(2) lay relayered_edges(1)[OF re, of b] re by (auto simp: up_edges_def layered_but_def relayered_def)
    with step.IH show ?case by simp
  qed
  from this[OF assms(2)] show False by simp
qed

text \<open>The states of the loop after \<open>k\<close> iterations.\<close>

abbreviation fix_iter :: "nat \<Rightarrow> nat list \<times> graph_state \<Rightarrow> (nat list \<times> graph_state) option" where
  "fix_iter k st \<equiv> ((\<lambda>m. Option.bind m fix_step) ^^ k) (Some st)"

lemma fix_iter_add: "fix_iter j st = Some st' \<Longrightarrow> fix_iter k st' = Some st'' \<Longrightarrow> fix_iter (k + j) st = Some st''"
  by (simp add: funpow_add)

lemma layers_grow:
  assumes "cyc_inv gs0 st" "edges_in_range gs0" "edges_mirrored gs0" "(c, c) \<in> (up_edges gs0)\<^sup>+"
  shows "\<exists>k st'. fix_iter k st = Some st' \<and> cyc_inv gs0 st' \<and> layer_sum (snd st) < layer_sum (snd st')"
  using assms(1)
proof (induction "length (fst st)" arbitrary: st)
  case 0
  with cyc_inv_queue[OF _ assms(4)] show ?case by simp
next
  case (Suc m)
  then obtain i q where st: "st = (i # q, snd st)" by (cases st; cases "fst st") auto
  obtain q' gs' where s: "fix_step (i # q, snd st) = Some (q', gs')" "cyc_inv gs0 (q', gs')"
    "layer_sum (snd st) < layer_sum gs' \<or> layer_sum (snd st) = layer_sum gs' \<and> q' = q"
    by (rule fix_step_layered[of gs0 i q "snd st", OF _ assms(2,3)]) (use Suc.prems st in simp_all)
  have one: "fix_iter 1 st = Some (q', gs')" by (subst st) (simp add: s(1))
  show ?case
  proof (cases "layer_sum (snd st) < layer_sum gs'")
    case True
    with one s(2) show ?thesis by (intro exI[of _ 1] exI[of _ "(q', gs')"]) simp
  next
    case False
    with s(3) have q': "layer_sum gs' = layer_sum (snd st)" "q' = q" by auto
    have "length (fst (q', gs')) = m" using Suc.hyps(2) st q'(2) by (metis fst_conv length_Cons nat.inject)
    with Suc.hyps(1)[of "(q', gs')"] s(2) obtain k st' where
      "fix_iter k (q', gs') = Some st'" "cyc_inv gs0 st'" "layer_sum (snd st) < layer_sum (snd st')"
      using q'(1) by auto
    with fix_iter_add[OF one] show ?thesis by blast
  qed
qed

lemma layers_unbounded:
  assumes "cyc_inv gs0 st" "edges_in_range gs0" "edges_mirrored gs0" "(c, c) \<in> (up_edges gs0)\<^sup>+"
  shows "\<exists>k q gs' i. fix_iter k st = Some (q, gs') \<and> q \<noteq> [] \<and> i < length (nodes gs0) \<and> B \<le> layer_of gs' i"
proof -
  let ?n = "length (nodes gs0)"
  have "\<exists>k st'. fix_iter k st = Some st' \<and> cyc_inv gs0 st' \<and> N \<le> layer_sum (snd st')" for N
  proof (induction N)
    case 0
    show ?case by (rule exI[of _ 0]) (use assms(1) in auto)
  next
    case (Suc N)
    then obtain k st' where 1: "fix_iter k st = Some st'" "cyc_inv gs0 st'" "N \<le> layer_sum (snd st')" by blast
    from layers_grow[OF 1(2) assms(2-4)] obtain j st'' where
      2: "fix_iter j st' = Some st''" "cyc_inv gs0 st''" "layer_sum (snd st') < layer_sum (snd st'')" by blast
    have "fix_iter (j + k) st = Some st''" by (rule fix_iter_add[OF 1(1) 2(1)])
    moreover have "Suc N \<le> layer_sum (snd st'')" using 1(3) 2(3) by simp
    ultimately show ?case using 2(2) by blast
  qed
  from this[of "Suc (?n * B)"] obtain k st' where
    k: "fix_iter k st = Some st'" "cyc_inv gs0 st'" "?n * B < layer_sum (snd st')" by auto
  have len: "length (nodes (snd st')) = ?n" using k(2) by (simp add: cyc_inv_def relayered_def)
  have "\<exists>i < ?n. B \<le> layer_of (snd st') i"
  proof (rule ccontr)
    assume "\<not> (\<exists>i < ?n. B \<le> layer_of (snd st') i)"
    then have "layer_sum (snd st') \<le> (\<Sum>i < ?n. B)" unfolding layer_sum_def len by (intro sum_mono) force
    with k(3) show False by simp
  qed
  with k(1) cyc_inv_queue[OF k(2) assms(4)] show ?thesis by (cases st') auto
qed

lemma fix_layers_cyclic:
  assumes "edges_in_range gs" "edges_mirrored gs" "layered_but {start} gs" "start < length (nodes gs)" "(c, c) \<in> (up_edges gs)\<^sup>+"
  shows "fix_layers start gs = None"
    and "\<exists>k q gs' i. fix_iter k ([start], gs) = Some (q, gs') \<and> q \<noteq> [] \<and> i < length (nodes gs) \<and> B \<le> layer_of gs' i"
proof -
  have init: "cyc_inv gs ([start], gs)" using assms(3,4) by (simp add: cyc_inv_def relayered_refl)
  show "\<exists>k q gs' i. fix_iter k ([start], gs) = Some (q, gs') \<and> q \<noteq> [] \<and> i < length (nodes gs) \<and> B \<le> layer_of gs' i"
    by (rule layers_unbounded[OF init assms(1,2,5)])
  have "while_option (loop_test fix_running) (\<lambda>m. Option.bind m fix_step) (Some ([start], gs)) = None"
  proof (rule while_ok_diverges[where P = "cyc_inv gs", OF init])
    fix st assume st: "cyc_inv gs st"
    with cyc_inv_queue[OF st assms(5)] obtain i q where i: "st = (i # q, snd st)" by (cases st; cases "fst st") auto
    obtain q' gs' where "fix_step (i # q, snd st) = Some (q', gs')" "cyc_inv gs (q', gs')"
      by (rule fix_step_layered[of gs i q "snd st", OF _ assms(1,2)]) (use st i in simp_all)
    with i show "fix_running st \<and> (\<exists>st'. fix_step st = Some st' \<and> cyc_inv gs st')" by (metis fix_running_def fst_conv list.distinct(1))
  qed
  then show "fix_layers start gs = None" by (simp add: fix_layers_def while_ok_def)
qed

text \<open>The two halves of a new edge.\<close>

lemma push_edge_pair_graph:
  assumes "push_edge_pair caller ni a (nodes gs) = Some ns" "edges_in_range gs" "edges_mirrored gs" "layered_but {} gs"
  shows "edges_in_range (gs\<lparr>nodes := ns\<rparr>)" "edges_mirrored (gs\<lparr>nodes := ns\<rparr>)" "layered_but {caller} (gs\<lparr>nodes := ns\<rparr>)"
    "up_edges (gs\<lparr>nodes := ns\<rparr>) = insert (caller, ni) (up_edges gs)" "length ns = length (nodes gs)"
proof -
  have lt: "caller < length (nodes gs)" "ni < length (nodes gs)" using assms(1) by (auto simp: push_edge_pair_def split: if_splits)
  have len: "length ns = length (nodes gs)" using assms(1) by (auto simp: push_edge_pair_def Let_def split: if_splits)
  then show "length ns = length (nodes gs)" .
  have at: "nd_upstreams (ns ! k) = nd_upstreams (nodes gs ! k) @ (if k = caller then [\<lparr>ed_node_index = ni, ed_active = a\<rparr>] else [])"
    "nd_downstreams (ns ! k) = nd_downstreams (nodes gs ! k) @ (if k = ni then [\<lparr>ed_node_index = caller, ed_active = a\<rparr>] else [])"
    "nd_layer (ns ! k) = nd_layer (nodes gs ! k)" if "k < length (nodes gs)" for k
    using assms(1) lt that by (auto simp: push_edge_pair_def Let_def nth_list_update split: if_splits)
  show "edges_in_range (gs\<lparr>nodes := ns\<rparr>)" using assms(2) lt by (auto simp: edges_in_range_def at len split: if_splits)
  show "edges_mirrored (gs\<lparr>nodes := ns\<rparr>)" using assms(3) lt by (auto simp: edges_mirrored_def at len split: if_splits)
  show "layered_but {caller} (gs\<lparr>nodes := ns\<rparr>)"
    using assms(2,4) lt by (auto simp: layered_but_def edges_in_range_def at len)
  show "up_edges (gs\<lparr>nodes := ns\<rparr>) = insert (caller, ni) (up_edges gs)"
    using lt by (force simp: up_edges_def at len split: if_splits)
qed

section \<open>Properties\<close>

text \<open>Node 0 feeds node 1; the last argument is the layer of node 1.\<close>

definition pair_graph :: "nat \<Rightarrow> graph_state" where
  "pair_graph l = (graph_state_new 0 RealTime Forever nano_zero)\<lparr>
     nodes := [\<lparr>nd_node = 0, nd_upstreams = [], nd_downstreams = [\<lparr>ed_node_index = 1, ed_active = True\<rparr>],
                nd_layer = 0, nd_active = True\<rparr>,
               \<lparr>nd_node = 1, nd_upstreams = [\<lparr>ed_node_index = 0, ed_active = True\<rparr>],
                nd_downstreams = [], nd_layer = l, nd_active = True\<rparr>],
     node_ticked := [False, False], node_dirty := [False, False],
     node_to_index := [0 \<mapsto> 0, 1 \<mapsto> 1], dirty_nodes_by_layer := [[], []]\<rparr>"

lemma pair_graph_edges: "edges_in_range (pair_graph l)" "edges_mirrored (pair_graph l)"
  "ranked id (pair_graph l)" "1 < length (nodes (pair_graph l))"
  by (auto simp: pair_graph_def edges_in_range_def edges_mirrored_def ranked_def less_Suc_eq nth_Cons')

text \<open>
  C11. Layer repair after a dynamic edge, on an acyclic graph in which only \<open>start\<close> may sit
  too low: \<open>fix_layers\<close> returns, changes layers only (upwards), leaves every node above all
  its upstreams, and every layer it moved a node to has a dirty list.
\<close>
theorem fix_layers_repairs:
  assumes "edges_in_range gs" "edges_mirrored gs" "ranked rank gs"
    and "start < length (nodes gs)" "layered_but {start} gs"
  shows "\<exists>gs'. fix_layers start gs = Some gs' \<and> relayered gs gs' \<and> layered_but {} gs' \<and>
    layer_of gs' start < length (dirty_nodes_by_layer gs')"
  using assms by (rule fix_layers_acyclic)

theorem fix_layers_repairs_witness:
  "\<exists>gs'. fix_layers 1 (pair_graph 0) = Some gs' \<and> relayered (pair_graph 0) gs' \<and> layered_but {} gs' \<and>
    layer_of gs' 1 < length (dirty_nodes_by_layer gs')"
  by (rule fix_layers_repairs[OF pair_graph_edges])
    (auto simp: layered_but_def pair_graph_def less_Suc_eq nth_Cons')

text \<open>
  C12. A cycle closed by a dynamic edge makes the repair run for ever. In a graph whose nodes sit above
  their upstreams, let the node \<open>caller\<close> have asked by \<^verbatim>\<open>add_upstream\<close> for a registered node that
  depends on it, directly or through others, or for itself. The edge is wired, and the loop of
  \<open>fix_layers\<close> passes through states in which a layer exceeds any bound \<open>B\<close> and nodes are still queued:
  below the range of \<^verbatim>\<open>usize\<close> it does not end, and the pending additions are never done.
\<close>
theorem add_upstream_cycle_diverges:
  assumes "edges_in_range gs" "edges_mirrored gs" "layered_but {} gs"
    and a: "node_index gs (pa_node a) = Some ni" "ni < length (nodes gs)" "pa_caller_index a < length (nodes gs)"
    and "(pa_caller_index a, ni) \<notin> wired" and cyc: "(ni, pa_caller_index a) \<in> (up_edges gs)\<^sup>*"
  shows "\<exists>ns. push_edge_pair (pa_caller_index a) ni (pa_is_active a) (nodes gs) = Some ns \<and>
      (\<exists>k q gs' i. ((\<lambda>m. Option.bind m fix_step) ^^ k) (Some ([pa_caller_index a], gs\<lparr>nodes := ns\<rparr>)) = Some (q, gs') \<and>
        q \<noteq> [] \<and> i < length (nodes gs) \<and> B \<le> layer_of gs' i) \<and>
      fix_layers (pa_caller_index a) (gs\<lparr>nodes := ns\<rparr>) = None \<and> link_additions new_indices wired (a # rest) gs = None"
proof -
  obtain ns where ns: "push_edge_pair (pa_caller_index a) ni (pa_is_active a) (nodes gs) = Some ns"
    using a(2,3) by (simp add: push_edge_pair_def Let_def)
  note g = push_edge_pair_graph[OF ns assms(1-3)]
  have "(pa_caller_index a, ni) \<in> up_edges (gs\<lparr>nodes := ns\<rparr>)" by (simp add: g(4))
  moreover have "(ni, pa_caller_index a) \<in> (up_edges (gs\<lparr>nodes := ns\<rparr>))\<^sup>*"
    using cyc by (rule rtrancl_mono[THEN subsetD, rotated]) (auto simp: g(4))
  ultimately have c: "(pa_caller_index a, pa_caller_index a) \<in> (up_edges (gs\<lparr>nodes := ns\<rparr>))\<^sup>+" by (rule rtrancl_into_trancl2)
  have start: "pa_caller_index a < length (nodes (gs\<lparr>nodes := ns\<rparr>))" using a(3) g(5) by simp
  note loop = fix_layers_cyclic[OF g(1-3) start c]
  have "link_additions new_indices wired (a # rest) gs = None" using a(1) assms(7) ns loop(1) by (simp add: Let_def)
  with ns loop(1) loop(2)[of B] g(5) show ?thesis by auto
qed

definition pair_request :: pending_addition where
  "pair_request = \<lparr>pa_node = 1, pa_caller_index = 0, pa_is_active = True, pa_recycle = False\<rparr>"

theorem add_upstream_cycle_diverges_witness:
  "link_additions [] {} [pair_request] (pair_graph 1) = None"
proof -
  have "layered_but {} (pair_graph 1)" "node_index (pair_graph 1) (pa_node pair_request) = Some 1"
    "1 < length (nodes (pair_graph 1))" "pa_caller_index pair_request < length (nodes (pair_graph 1))"
    "(pa_caller_index pair_request, 1) \<notin> {}"
    by (auto simp: layered_but_def pair_graph_def pair_request_def node_index_def less_Suc_eq nth_Cons')
  moreover have "(1, pa_caller_index pair_request) \<in> (up_edges (pair_graph 1))\<^sup>*"
    by (rule r_into_rtrancl) (auto simp: up_edges_def pair_graph_def pair_request_def)
  ultimately show ?thesis
    using add_upstream_cycle_diverges[where gs = "pair_graph 1" and a = pair_request and ni = 1 and wired = "{}" and B = 0
        and new_indices = "[]" and rest = "[]"] pair_graph_edges(1,2) by blast
qed

text \<open>Two nodes are enough to watch the calls: the store lists the nodes stopped and torn down; the start of a node fails, and the teardown of node 0.\<close>

definition closing_ops :: "(node list \<times> node list) node_ops" where
  "closing_ops = \<lparr>op_upstreams = (\<lambda>_ _. ([], [])), op_cycle = (\<lambda>n gs s. Some (s, [], Inr False)),
     op_setup = (\<lambda>n gs s. Some (s, [], Inr ())), op_start = (\<lambda>n gs s. Some (s, [], Inl (Anyhow ''start''))),
     op_stop = (\<lambda>n gs s. Some ((n # fst s, snd s), [], Inr ())),
     op_teardown = (\<lambda>n gs s. Some ((fst s, n # snd s), [], if n = 0 then Inl (Anyhow ''teardown'') else Inr ()))\<rparr>"

lemma call_phase_result:
  assumes "call_phase f desc ix n (gs, s) = Some ((gs', s'), r)"
  obtains cs r0 where "f n (gs\<lparr>current_node_index := Some ix\<rparr>) s = Some (s', cs, r0)" "nodes gs' = nodes gs"
    "r = (case r0 of Inl e \<Rightarrow> Inl (ErrorDuring desc ix e) | Inr _ \<Rightarrow> Inr ())"
proof -
  obtain s1 cs r0 gs1 where f: "f n (gs\<lparr>current_node_index := Some ix\<rparr>) s = Some (s1, cs, r0)"
    "run_cmds cs (gs\<lparr>current_node_index := Some ix\<rparr>) = Some gs1"
    using assms by (auto simp: call_phase_def call_node_def map_err_def and_then_def bind_eq_Some_conv split: option.splits)
  moreover have "s' = s1" "nodes gs' = nodes gs1" "r = (case r0 of Inl e \<Rightarrow> Inl (ErrorDuring desc ix e) | Inr _ \<Rightarrow> Inr ())"
    using assms f by (cases r0; auto simp: call_phase_def call_node_def map_err_def and_then_def)+
  moreover have "nodes gs1 = nodes gs" using run_cmds_frame(1)[OF f(2)] by simp
  ultimately show thesis by (intro that) auto
qed

text \<open>What cutting a node off does to the edges of the others.\<close>

lemma unlink_node_cuts:
  assumes "wf_edges gs" "edges_mirrored gs" "index < length (nodes gs)"
  shows "\<exists>ns. unlink_node index (nodes gs) = Some ns \<and> edges_shrink (nodes gs) ns \<and>
    (\<forall>k < length ns. \<forall>e. k \<noteq> index \<longrightarrow>
      (e \<in> set (nd_upstreams (ns ! k)) \<longleftrightarrow> e \<in> set (nd_upstreams (nodes gs ! k)) \<and> ed_node_index e \<noteq> index) \<and>
      (e \<in> set (nd_downstreams (ns ! k)) \<longleftrightarrow>
         e \<in> set (nd_downstreams (nodes gs ! k)) \<and> ed_node_index e \<noteq> index))"
proof -
  obtain ns where ns: "unlink_node index (nodes gs) = Some ns" "edges_shrink (nodes gs) ns"
    "\<forall>k < length ns. set (nd_downstreams (ns ! k)) = (if k \<in> ed_node_index ` set (nd_upstreams (nodes gs ! index))
        then {e \<in> set (nd_downstreams (nodes gs ! k)). ed_node_index e \<noteq> index}
        else set (nd_downstreams (nodes gs ! k))) \<and>
      set (nd_upstreams (ns ! k)) = (if k \<in> ed_node_index ` set (nd_downstreams (nodes gs ! index))
        then {e \<in> set (nd_upstreams (nodes gs ! k)). ed_node_index e \<noteq> index}
        else set (nd_upstreams (nodes gs ! k)))"
    using unlink_node_spec[OF assms(1,3)] by blast
  have "(e \<in> set (nd_upstreams (ns ! k)) \<longleftrightarrow> e \<in> set (nd_upstreams (nodes gs ! k)) \<and> ed_node_index e \<noteq> index) \<and>
      (e \<in> set (nd_downstreams (ns ! k)) \<longleftrightarrow>
         e \<in> set (nd_downstreams (nodes gs ! k)) \<and> ed_node_index e \<noteq> index)" if k: "k < length ns" for k e
  proof -
    have away: "\<forall>e \<in> set (nd_downstreams (ns ! k)) \<union> set (nd_upstreams (ns ! k)). ed_node_index e \<noteq> index"
      by (rule unlink_node_isolates[OF assms ns(1) k])
    have cut: "A = {e \<in> B. ed_node_index e \<noteq> index}"
      if "A = (if b then {e \<in> B. ed_node_index e \<noteq> index} else B)" "\<forall>e \<in> A. ed_node_index e \<noteq> index"
      for A B :: "edge set" and b
      using that by (cases b) auto
    have "set (nd_downstreams (ns ! k)) = {e \<in> set (nd_downstreams (nodes gs ! k)). ed_node_index e \<noteq> index}"
      by (rule cut) (use ns(3) k away in blast)+
    moreover have "set (nd_upstreams (ns ! k)) = {e \<in> set (nd_upstreams (nodes gs ! k)). ed_node_index e \<noteq> index}"
      by (rule cut) (use ns(3) k away in blast)+
    ultimately show ?thesis by simp
  qed
  with ns(1,2) show ?thesis by blast
qed

text \<open>
  C13. The removal of an active node \<open>n\<close>. First every edge that touches it is cut, and no other: no
  other node keeps an edge to or from it, all other edges stay, and layers, nodes and flags are as before.
  Then the node is stopped, in the graph without its edges, and torn down with the state the stop left;
  then it is deactivated and nothing else changes in the list of nodes. A failed stop skips the
  teardown, and after a failed stop or teardown the node is cut off but still active; the error is that
  of the call that failed.
\<close>
theorem removal_isolates:
  assumes g: "wf_edges gs" "edges_mirrored gs"
    and n: "node_index gs n = Some index" "index < length (nodes gs)" "nd_active (nodes gs ! index)"
    and removal: "process_removal ops n (gs, s) = Some ((gs', s'), r)"
  shows "\<exists>ns s1 cs r1. edges_shrink (nodes gs) ns \<and>
    (\<forall>k < length ns. \<forall>e. k \<noteq> index \<longrightarrow>
      (e \<in> set (nd_upstreams (ns ! k)) \<longleftrightarrow> e \<in> set (nd_upstreams (nodes gs ! k)) \<and> ed_node_index e \<noteq> index) \<and>
      (e \<in> set (nd_downstreams (ns ! k)) \<longleftrightarrow> e \<in> set (nd_downstreams (nodes gs ! k)) \<and> ed_node_index e \<noteq> index)) \<and>
    op_stop ops n (gs\<lparr>nodes := ns, current_node_index := Some index\<rparr>) s = Some (s1, cs, r1) \<and>
    (case r1 of
       Inl e \<Rightarrow> nodes gs' = ns \<and> s' = s1 \<and> r = Inl (ErrorDuring ''stop (pending removal)'' index e)
     | Inr _ \<Rightarrow> \<exists>gs2 cs2 r2. nodes gs2 = ns \<and> current_node_index gs2 = Some index \<and> op_teardown ops n gs2 s1 = Some (s', cs2, r2) \<and>
         (case r2 of
            Inl e \<Rightarrow> nodes gs' = ns \<and> r = Inl (ErrorDuring ''teardown (pending removal)'' index e)
          | Inr _ \<Rightarrow> nodes gs' = ns[index := (ns ! index)\<lparr>nd_active := False\<rparr>] \<and> r = Inr ()))"
proof -
  obtain ns where ns: "unlink_node index (nodes gs) = Some ns" "edges_shrink (nodes gs) ns"
    and cut: "\<forall>k < length ns. \<forall>e. k \<noteq> index \<longrightarrow>
      (e \<in> set (nd_upstreams (ns ! k)) \<longleftrightarrow> e \<in> set (nd_upstreams (nodes gs ! k)) \<and> ed_node_index e \<noteq> index) \<and>
      (e \<in> set (nd_downstreams (ns ! k)) \<longleftrightarrow> e \<in> set (nd_downstreams (nodes gs ! k)) \<and> ed_node_index e \<noteq> index)"
    using unlink_node_cuts[OF g n(2)] by blast
  have body: "and_then (call_phase (op_stop ops) ''stop (pending removal)'' index n (gs\<lparr>nodes := ns\<rparr>, s))
      (\<lambda>w1 _. and_then (call_phase (op_teardown ops) ''teardown (pending removal)'' index n w1)
      (\<lambda>(gs2, s2) _. if index < length (nodes gs2) then
         Some ((gs2\<lparr>nodes := (nodes gs2)[index := (nodes gs2 ! index)\<lparr>nd_active := False\<rparr>]\<rparr>, s2), Inr ()) else None)) =
      Some ((gs', s'), r)"
    using removal n ns(1) by (simp add: process_removal_def Let_def)
  obtain gs1 s1 r1' where stop: "call_phase (op_stop ops) ''stop (pending removal)'' index n (gs\<lparr>nodes := ns\<rparr>, s) = Some ((gs1, s1), r1')"
    using body by (auto simp: and_then_def split: option.splits)
  obtain cs r1 where 1: "op_stop ops n (gs\<lparr>nodes := ns, current_node_index := Some index\<rparr>) s = Some (s1, cs, r1)" "nodes gs1 = ns"
    "r1' = (case r1 of Inl e \<Rightarrow> Inl (ErrorDuring ''stop (pending removal)'' index e) | Inr _ \<Rightarrow> Inr ())"
    by (rule call_phase_result[OF stop]) auto
  show ?thesis
  proof (cases r1)
    case (Inl e)
    with body stop 1 n have "nodes gs' = ns \<and> s' = s1 \<and> r = Inl (ErrorDuring ''stop (pending removal)'' index e)"
      by (auto simp: and_then_def)
    with Inl ns(2) cut 1(1) show ?thesis by (intro exI[of _ ns] exI[of _ s1] exI[of _ cs] exI[of _ r1]) simp
  next
    case (Inr u)
    then obtain gs2 s2 r2' where down: "call_phase (op_teardown ops) ''teardown (pending removal)'' index n (gs1, s1) = Some ((gs2, s2), r2')"
      using body stop 1 n by (auto simp: and_then_def split: option.splits)
    obtain cs2 r2 where 2: "op_teardown ops n (gs1\<lparr>current_node_index := Some index\<rparr>) s1 = Some (s2, cs2, r2)" "nodes gs2 = nodes gs1"
      "r2' = (case r2 of Inl e \<Rightarrow> Inl (ErrorDuring ''teardown (pending removal)'' index e) | Inr _ \<Rightarrow> Inr ())"
      by (rule call_phase_result[OF down]) auto
    have "s' = s2 \<and> (case r2 of
            Inl e \<Rightarrow> nodes gs' = ns \<and> r = Inl (ErrorDuring ''teardown (pending removal)'' index e)
          | Inr _ \<Rightarrow> nodes gs' = ns[index := (ns ! index)\<lparr>nd_active := False\<rparr>] \<and> r = Inr ())"
      using body stop 1 Inr down 2(2,3) n by (cases r2) (auto simp: and_then_def split: if_splits)
    with Inr ns(2) cut 1(1,2) 2(1) show ?thesis
      by (intro exI[of _ ns] exI[of _ s1] exI[of _ cs] exI[of _ r1] conjI)
        (auto intro!: exI[of _ "gs1\<lparr>current_node_index := Some index\<rparr>"])
  qed
qed

theorem removal_isolates_witness:
  "\<exists>gs' ns. process_removal closing_ops 1 (pair_graph 1, ([], [])) = Some ((gs', ([1], [1])), Inr ()) \<and>
    edges_shrink (nodes (pair_graph 1)) ns \<and> nodes gs' = ns[1 := (ns ! 1)\<lparr>nd_active := False\<rparr>] \<and>
    (\<forall>e \<in> set (nd_downstreams (ns ! 0)). ed_node_index e \<noteq> 1)"
proof -
  have wf: "wf_edges (pair_graph 1)" "node_index (pair_graph 1) 1 = Some 1" "1 < length (nodes (pair_graph 1))" "nd_active (nodes (pair_graph 1) ! 1)"
    by (auto simp: wf_edges_def pair_graph_def node_index_def less_Suc_eq nth_Cons')
  have "\<exists>gs'. process_removal closing_ops 1 (pair_graph 1, ([], [])) = Some ((gs', ([1], [1])), Inr ())"
    by (simp add: process_removal_def pair_graph_def graph_state_new_def node_index_def unlink_node_def call_phase_def call_node_def
        map_err_def and_then_def closing_ops_def)
  then obtain gs' where run: "process_removal closing_ops 1 (pair_graph 1, ([], [])) = Some ((gs', ([1], [1])), Inr ())" by blast
  from removal_isolates[OF wf(1) pair_graph_edges(2) wf(2-4) run] show ?thesis
  proof (elim exE conjE)
    fix ns s1 cs r1
    assume t: "edges_shrink (nodes (pair_graph 1)) ns"
      "\<forall>k < length ns. \<forall>e. k \<noteq> 1 \<longrightarrow>
        (e \<in> set (nd_upstreams (ns ! k)) \<longleftrightarrow> e \<in> set (nd_upstreams (nodes (pair_graph 1) ! k)) \<and> ed_node_index e \<noteq> 1) \<and>
        (e \<in> set (nd_downstreams (ns ! k)) \<longleftrightarrow> e \<in> set (nd_downstreams (nodes (pair_graph 1) ! k)) \<and> ed_node_index e \<noteq> 1)"
      "op_stop closing_ops 1 ((pair_graph 1)\<lparr>nodes := ns, current_node_index := Some 1\<rparr>) ([], []) = Some (s1, cs, r1)"
      "case r1 of Inl e \<Rightarrow> nodes gs' = ns \<and> ([1], [1]) = s1 \<and> Inr () = Inl (ErrorDuring ''stop (pending removal)'' 1 e)
       | Inr _ \<Rightarrow> \<exists>gs2 cs2 r2. nodes gs2 = ns \<and> current_node_index gs2 = Some 1 \<and>
           op_teardown closing_ops 1 gs2 s1 = Some (([1], [1]), cs2, r2) \<and> (case r2 of
             Inl e \<Rightarrow> nodes gs' = ns \<and> Inr () = Inl (ErrorDuring ''teardown (pending removal)'' 1 e)
           | Inr _ \<Rightarrow> nodes gs' = ns[1 := (ns ! 1)\<lparr>nd_active := False\<rparr>] \<and> Inr () = Inr ())"
    have "0 < length ns" using t(1) wf(3) unfolding edges_shrink_def by linarith
    then have "\<forall>e \<in> set (nd_downstreams (ns ! 0)). ed_node_index e \<noteq> 1" using t(2)[rule_format, of 0] by simp
    moreover have "nodes gs' = ns[1 := (ns ! 1)\<lparr>nd_active := False\<rparr>]"
      using t(4) by (cases r1) (auto simp: closing_ops_def)
    ultimately show ?thesis using run t(1) by blast
  qed
qed

end
