(* ===== verification/Engine.thy ===== *)
theory Engine
  imports Dynamic
begin

text \<open>
  The engine of \<^verbatim>\<open>src/wingfoil/src/graph.rs\<close>: callback processing, the engine cycle, the run
  loop and the lifecycle of \<open>Graph::run\<close>. Clock readings and the traffic of the ready channel
  are inputs: \<open>rt_input\<close> holds those of one iteration of the run loop, and a run takes one
  per iteration. The run loop is \<open>while_option\<close>: \<open>None\<close> is a run that never ends.

  What the engine relies on in the nodes it drives is the locale \<open>node_contract\<close>; the
  properties of the engine are proved once inside it.
\<close>

section \<open>Callbacks\<close>

text \<open>
  Marking does not touch the callback queue, so the values of the \<^verbatim>\<open>while let\<close> loop are
  collected first and marked after, in the order they are popped.
\<close>

definition process_scheduled_callbacks :: "graph_state \<Rightarrow> (graph_state \<times> bool) option" where
  "process_scheduled_callbacks gs = do {
     gs1 \<leftarrow> mark_all (always_callbacks gs) gs;
     let (ixs, q) = tq_drain (gs_time gs1) (scheduled_callbacks gs1);
     gs2 \<leftarrow> mark_all ixs (gs1\<lparr>scheduled_callbacks := q\<rparr>);
     Some (gs2, always_callbacks gs \<noteq> [] \<or> ixs \<noteq> []) }"

definition historical_next_time :: "graph_state \<Rightarrow> nanotime" where
  "historical_next_time gs =
     (let has_scheduled = has_scheduled_callbacks gs;
          next = (if has_scheduled then next_scheduled_time gs else nano_add_raw (gs_time gs) 1)
      in if first_cycle gs then (if has_scheduled then next else gs_time gs)
         else max next (nano_add_raw (gs_time gs) 1))"

definition process_callbacks_historical :: "graph_state \<Rightarrow> (graph_state \<times> (anyhow + bool)) option" where
  "process_callbacks_historical gs =
     (if ready_callbacks gs \<noteq> [] then
        Some (gs, Inl (Anyhow ''ready callbacks are not supported in historical mode''))
      else
        let gs1 = (if has_scheduled_callbacks gs \<or> always_callbacks gs \<noteq> []
                   then gs\<lparr>gs_time := historical_next_time gs, first_cycle := False\<rparr> else gs)
        in map_option (\<lambda>(gs2, progressed). (gs2, Inr progressed)) (process_scheduled_callbacks gs1))"

definition process_ready_callbacks :: "graph_state \<Rightarrow> (graph_state \<times> bool) option" where
  "process_ready_callbacks gs =
     map_option (\<lambda>gs'. (gs', ready_callbacks gs \<noteq> [])) (mark_all (ready_callbacks gs) (gs\<lparr>ready_callbacks := []\<rparr>))"

text \<open>
  The environment of one iteration of the run loop: the indices that arrive on the ready
  channel before the drain is over, the clock at the start of the wait and what the wait
  receives before its timeout, the clock after it, and the clock at the start of the cycle.
\<close>

record rt_input =
  rt_arrived :: "nat list"
  rt_wait_clock :: nanotime
  rt_received :: "nat option"
  rt_now :: nanotime
  rt_wall :: nanotime

definition wait_ready_callback :: "rt_input \<Rightarrow> nanotime \<Rightarrow> nat option" where
  "wait_ready_callback inp end_time =
     (if end_time < rt_wait_clock inp then None else rt_received inp)"

definition process_callbacks_realtime ::
  "nanotime \<Rightarrow> rt_input \<Rightarrow> graph_state \<Rightarrow> (graph_state \<times> bool) option" where
  "process_callbacks_realtime end_time inp gs = do {
     (gs1, p1) \<leftarrow> process_ready_callbacks (gs\<lparr>ready_callbacks := ready_callbacks gs @ rt_arrived inp\<rparr>);
     (gs2, p2) \<leftarrow> process_scheduled_callbacks gs1;
     (gs3, progressed) \<leftarrow> (if p1 \<or> p2 then Some (gs2, True)
        else (case wait_ready_callback inp (min end_time (next_scheduled_time gs2)) of
            None \<Rightarrow> Some (gs2, False)
          | Some ix \<Rightarrow> map_option (\<lambda>g. (g, True)) (mark_dirty ix gs2)));
     Some (gs3\<lparr>gs_time := max (rt_now inp) (nano_add_raw (gs_time gs3) 1)\<rparr>, progressed) }"

section \<open>The engine cycle\<close>

definition active_targets :: "edge list \<Rightarrow> nat list" where
  "active_targets es = map ed_node_index (filter ed_active es)"

definition cycle_node :: "'s node_ops \<Rightarrow> nat \<Rightarrow> 's world \<Rightarrow> ('s, unit) outcome" where
  "cycle_node ops index w = (case w of (gs, s) \<Rightarrow>
     if length (nodes gs) \<le> index then None
     else if \<not> nd_active (nodes gs ! index) then Some (w, Inr ())
     else do {
       ((gs1, s1), result) \<leftarrow>
         call_node (op_cycle ops (nd_node (nodes gs ! index))) (gs\<lparr>current_node_index := Some index\<rparr>, s);
       let gs2 = gs1\<lparr>current_node_index := None\<rparr>;
       (case result of
          Inl e \<Rightarrow> Some ((gs2, s1), Inl (ErrorInNode index e))
        | Inr False \<Rightarrow> Some ((gs2, s1), Inr ())
        | Inr True \<Rightarrow> do {
            gs3 \<leftarrow> set_ticked index gs2;
            gs4 \<leftarrow> mark_all (active_targets (nd_downstreams (nodes gs3 ! index))) gs3;
            Some ((gs4, s1), Inr ()) }) })"

text \<open>The bounds of both loops are read once, when the loop is entered.\<close>

definition cycle_item :: "'s node_ops \<Rightarrow> nat \<Rightarrow> nat \<Rightarrow> 's world \<Rightarrow> ('s, unit) outcome" where
  "cycle_item ops lyr i w =
     (let ds = dirty_nodes_by_layer (fst w) in
      if lyr < length ds \<and> i < length (ds ! lyr) then cycle_node ops (ds ! lyr ! i) w else None)"

definition cycle_layer :: "'s node_ops \<Rightarrow> nat \<Rightarrow> 's world \<Rightarrow> ('s, unit) outcome" where
  "cycle_layer ops lyr w =
     (let ds = dirty_nodes_by_layer (fst w) in
      if lyr < length ds then for_each (cycle_item ops lyr) [0 ..< length (ds ! lyr)] w else None)"

definition cycle_layers :: "'s node_ops \<Rightarrow> 's world \<Rightarrow> ('s, unit) outcome" where
  "cycle_layers ops w = for_each (cycle_layer ops) [0 ..< length (dirty_nodes_by_layer (fst w))] w"

definition reset :: "graph_state \<Rightarrow> graph_state" where
  "reset gs = (let gs' = reset_ticked gs in
     gs'\<lparr>dirty_nodes_by_layer := map (\<lambda>_. []) (dirty_nodes_by_layer gs'),
         node_dirty := map (\<lambda>_. False) (node_dirty gs')\<rparr>)"

definition cycle :: "'s node_ops \<Rightarrow> nanotime \<Rightarrow> 's world \<Rightarrow> ('s, unit) outcome" where
  "cycle ops now w =
     and_then (cycle_layers ops ((fst w)\<lparr>gs_wall_time := now\<rparr>, snd w))
       (\<lambda>(gs, s) _. and_then (process_pending_removals ops (reset gs, s))
       (\<lambda>w' _. process_pending_additions ops w'))"

section \<open>Lifecycle\<close>

definition apply_node :: "(node \<Rightarrow> ('s, unit) node_call) \<Rightarrow> string \<Rightarrow> nat \<Rightarrow> 's world \<Rightarrow> ('s, unit) outcome" where
  "apply_node f desc ix w =
     (if length (nodes (fst w)) \<le> ix then None
      else if \<not> nd_active (nodes (fst w) ! ix) then Some (w, Inr ())
      else call_phase f desc ix (nd_node (nodes (fst w) ! ix)) w)"

definition apply_nodes :: "(node \<Rightarrow> ('s, unit) node_call) \<Rightarrow> string \<Rightarrow> 's world \<Rightarrow> ('s, unit) outcome" where
  "apply_nodes f desc w = for_each (apply_node f desc) [0 ..< length (nodes (fst w))] w"

definition setup_nodes :: "'s node_ops \<Rightarrow> 's world \<Rightarrow> ('s, unit) outcome" where
  "setup_nodes ops w = apply_nodes (op_setup ops) ''setup'' w"

definition start_nodes :: "'s node_ops \<Rightarrow> 's world \<Rightarrow> ('s, unit) outcome" where
  "start_nodes ops w = apply_nodes (op_start ops) ''start'' w"

definition stop_nodes :: "'s node_ops \<Rightarrow> 's world \<Rightarrow> ('s, unit) outcome" where
  "stop_nodes ops w = apply_nodes (op_stop ops) ''stop'' w"

definition teardown_nodes :: "'s node_ops \<Rightarrow> 's world \<Rightarrow> ('s, unit) outcome" where
  "teardown_nodes ops w = apply_nodes (op_teardown ops) ''teardown'' w"

definition resolve_start_end :: "nanotime \<Rightarrow> graph_state \<Rightarrow> run_bounds" where
  "resolve_start_end now gs =
     (let start_time = (case gs_run_mode gs of RealTime \<Rightarrow> now | HistoricalFrom t \<Rightarrow> t) in
      case gs_run_for gs of
        RunDuration d \<Rightarrow> \<lparr>rb_start_time = start_time, rb_end_time = nano_add_duration start_time d,
          rb_end_cycle = - 1\<rparr>
      | Cycles c \<Rightarrow> \<lparr>rb_start_time = start_time, rb_end_time = nano_max, rb_end_cycle = c\<rparr>
      | Forever \<Rightarrow> \<lparr>rb_start_time = start_time, rb_end_time = nano_max, rb_end_cycle = - 1\<rparr>)"

datatype run_status = Running | Finished | Failed anyhow | Panicked

record 's run_state =
  rs_cycles :: u32
  rs_iteration :: nat
  rs_world :: "'s world"
  rs_status :: run_status

text \<open>One engine cycle and \<^verbatim>\<open>cycles += 1\<close>.\<close>

definition run_cycle :: "'s node_ops \<Rightarrow> nanotime \<Rightarrow> 's run_state \<Rightarrow> 's run_state" where
  "run_cycle ops now st = (case cycle ops now (rs_world st) of
       None \<Rightarrow> st\<lparr>rs_status := Panicked\<rparr>
     | Some (w, Inl e) \<Rightarrow> st\<lparr>rs_world := w, rs_status := Failed e\<rparr>
     | Some (w, Inr _) \<Rightarrow> st\<lparr>rs_world := w, rs_cycles := rs_cycles st + 1\<rparr>)"

definition mark_last_cycle :: "run_bounds \<Rightarrow> u32 \<Rightarrow> graph_state \<Rightarrow> graph_state" where
  "mark_last_cycle rb cycles gs =
     (if \<not> is_last_cycle gs \<and> (rb_end_cycle rb \<le> cycles + 1 \<or> rb_end_time rb \<le> gs_time gs)
      then gs\<lparr>is_last_cycle := True\<rparr> else gs)"

definition run_step :: "'s node_ops \<Rightarrow> run_bounds \<Rightarrow> bool \<Rightarrow> (nat \<Rightarrow> rt_input) \<Rightarrow> 's run_state \<Rightarrow> 's run_state" where
  "run_step ops rb is_realtime env st = (case rs_world st of (gs, s) \<Rightarrow>
     let cycles_done = rb_end_cycle rb \<le> rs_cycles st;
         time_done = rb_end_time rb \<le> gs_time gs;
         inp = env (rs_iteration st);
         gs1 = mark_last_cycle rb (rs_cycles st) gs;
         st1 = st\<lparr>rs_iteration := rs_iteration st + 1\<rparr>
     in if cycles_done \<or> is_last_cycle gs \<and> time_done then st\<lparr>rs_status := Finished\<rparr>
        else if is_realtime then (case process_callbacks_realtime (rb_end_time rb) inp gs1 of
            None \<Rightarrow> st\<lparr>rs_status := Panicked\<rparr>
          | Some (gs2, False) \<Rightarrow> st1\<lparr>rs_world := (gs2, s)\<rparr>
          | Some (gs2, True) \<Rightarrow> run_cycle ops (rt_wall inp) (st1\<lparr>rs_world := (gs2, s)\<rparr>))
        else (case process_callbacks_historical gs1 of
            None \<Rightarrow> st\<lparr>rs_status := Panicked\<rparr>
          | Some (gs2, Inl e) \<Rightarrow> st1\<lparr>rs_world := (gs2, s), rs_status := Failed e\<rparr>
          | Some (gs2, Inr False) \<Rightarrow> st1\<lparr>rs_world := (gs2, s), rs_status := Finished\<rparr>
          | Some (gs2, Inr True) \<Rightarrow> run_cycle ops (rt_wall inp) (st1\<lparr>rs_world := (gs2, s)\<rparr>)))"

definition run_running :: "'s run_state \<Rightarrow> bool" where
  "run_running st \<longleftrightarrow> rs_status st = Running"

definition run_start :: "nanotime \<Rightarrow> 's world \<Rightarrow> 's run_state" where
  "run_start now w = \<lparr>rs_cycles = 0, rs_iteration = 0,
     rs_world = ((fst w)\<lparr>gs_start_time := rb_start_time (resolve_start_end now (fst w))\<rparr>, snd w),
     rs_status = Running\<rparr>"

definition run_loop :: "'s node_ops \<Rightarrow> nanotime \<Rightarrow> (nat \<Rightarrow> rt_input) \<Rightarrow> 's world \<Rightarrow> 's run_state option" where
  "run_loop ops now env w =
     while_option run_running
       (run_step ops (resolve_start_end now (fst w)) (gs_run_mode (fst w) = RealTime) env)
       (run_start now w)"

definition run_nodes :: "'s node_ops \<Rightarrow> nanotime \<Rightarrow> (nat \<Rightarrow> rt_input) \<Rightarrow> 's world \<Rightarrow> ('s, unit) outcome" where
  "run_nodes ops now env w = (case run_loop ops now env w of
       None \<Rightarrow> None
     | Some st \<Rightarrow> (case rs_status st of
           Panicked \<Rightarrow> None
         | Failed e \<Rightarrow> Some (rs_world st, Inl e)
         | _ \<Rightarrow> Some (rs_world st, Inr ())))"

definition first_error :: "(anyhow + unit) list \<Rightarrow> anyhow + unit" where
  "first_error results =
     (case List.map_filter (\<lambda>r. case r of Inl e \<Rightarrow> Some e | Inr _ \<Rightarrow> None) results of
        [] \<Rightarrow> Inr ()
      | [primary] \<Rightarrow> Inl primary
      | primary # extra \<Rightarrow> Inl (ShutdownErrors primary extra))"

definition run :: "'s node_ops \<Rightarrow> nanotime \<Rightarrow> (nat \<Rightarrow> rt_input) \<Rightarrow> 's world \<Rightarrow> ('s, unit) outcome" where
  "run ops now env w = (case wiring_error (fst w) of
       Some e \<Rightarrow> Some (((fst w)\<lparr>wiring_error := None\<rparr>, snd w), Inl e)
     | None \<Rightarrow> and_then (setup_nodes ops w) (\<lambda>w1 _. do {
         (w2, start_result) \<leftarrow> start_nodes ops w1;
         (w3, run_result) \<leftarrow> (if isl start_result then Some (w2, Inr ()) else run_nodes ops now env w2);
         (w4, stop_result) \<leftarrow> stop_nodes ops w3;
         (w5, teardown_result) \<leftarrow> teardown_nodes ops w4;
         Some (w5, first_error [start_result, run_result, stop_result, teardown_result]) }))"

definition average_duration :: "duration \<Rightarrow> u32 \<Rightarrow> duration" where
  "average_duration d n =
     (let avg_nanos = (if n = 0 then 0 else duration_as_nanos d div ucast n) in
      duration_from_nanos (ucast avg_nanos))"


section \<open>Observing a cycle\<close>

text \<open>
  \<open>logged ops\<close> behaves as \<open>ops\<close> and records, for each call of \<^verbatim>\<open>cycle\<close>, the index of the
  node, whether it ticked and the nodes it marked.
\<close>

type_synonym cycle_log = "(nat \<times> bool \<times> nat list) list"

definition logged_call :: "('s, 'r) node_call \<Rightarrow> ('s \<times> cycle_log, 'r) node_call" where
  "logged_call f gs s = (case f gs (fst s) of
       None \<Rightarrow> None | Some (s', cs, r) \<Rightarrow> Some ((s', snd s), cs, r))"

definition logged_cycle :: "('s, bool) node_call \<Rightarrow> ('s \<times> cycle_log, bool) node_call" where
  "logged_cycle f gs s = (case f gs (fst s) of
       None \<Rightarrow> None
     | Some (s', cs, r) \<Rightarrow>
         Some ((s', snd s @ [(the (current_node_index gs), r = Inr True, marks cs)]), cs, r))"

definition logged :: "'s node_ops \<Rightarrow> ('s \<times> cycle_log) node_ops" where
  "logged ops = \<lparr>op_upstreams = (\<lambda>s. op_upstreams ops (fst s)),
     op_cycle = (\<lambda>n. logged_cycle (op_cycle ops n)), op_setup = (\<lambda>n. logged_call (op_setup ops n)),
     op_start = (\<lambda>n. logged_call (op_start ops n)), op_stop = (\<lambda>n. logged_call (op_stop ops n)),
     op_teardown = (\<lambda>n. logged_call (op_teardown ops n))\<rparr>"

text \<open>
  The nodes that the calls of a log put in line: the downstreams over active edges of the nodes
  that ticked, and those marked directly.
\<close>

definition woken :: "node_data list \<Rightarrow> cycle_log \<Rightarrow> nat set" where
  "woken ns log = (\<Union>(i, t, ms) \<in> set log.
     (if t then {ed_node_index e |e. e \<in> set (nd_downstreams (ns ! i)) \<and> ed_active e} else {}) \<union> set ms)"

lemma set_active_targets: "set (active_targets es) = {ed_node_index e |e. e \<in> set es \<and> ed_active e}"
  by (auto simp: active_targets_def)

lemma woken_append: "woken ns (log @ [(i, t, ms)]) = woken ns log \<union>
    (if t then set (active_targets (nd_downstreams (ns ! i))) else {}) \<union> set ms"
  by (auto simp: woken_def set_active_targets)

lemma for_each_upt:
  assumes "\<And>i w. a \<le> i \<Longrightarrow> i < n \<Longrightarrow> I i w \<Longrightarrow>
      \<exists>w' r. f i w = Some (w', r) \<and> Q w' \<and> (r = Inr () \<longrightarrow> I (Suc i) w')"
    and "\<And>w. I n w \<Longrightarrow> Q w" and "I a w" and "a \<le> n"
  shows "\<exists>w' r. for_each f [a ..< n] w = Some (w', r) \<and> Q w' \<and> (r = Inr () \<longrightarrow> I n w')"
  using assms(1,3,4)
proof (induction "n - a" arbitrary: a w)
  case 0
  then show ?case using assms(2) by simp
next
  case (Suc k)
  then have "a < n" by linarith
  obtain w1 r1 where 1: "f a w = Some (w1, r1)" "Q w1" "r1 = Inr () \<longrightarrow> I (Suc a) w1"
    using Suc.prems(1)[of a w] Suc.prems(2) \<open>a < n\<close> by auto
  show ?case
  proof (cases r1)
    case (Inl e)
    with 1 \<open>a < n\<close> show ?thesis by (simp add: upt_conv_Cons and_then_def)
  next
    case (Inr u)
    with 1 have "I (Suc a) w1" by simp
    from Suc.hyps(1)[OF _ _ this] Suc.hyps(2) Suc.prems(1) \<open>a < n\<close> obtain w' r where
      "for_each f [Suc a ..< n] w1 = Some (w', r)" "Q w'" "r = Inr () \<longrightarrow> I n w'"
      by fastforce
    with 1 Inr \<open>a < n\<close> show ?thesis by (simp add: upt_conv_Cons and_then_def)
  qed
qed

section \<open>The contract of the nodes\<close>

text \<open>
  The part of the graph a node may rely on across calls: which nodes there are, their indices
  and their layers.
\<close>

definition same_shape :: "graph_state \<Rightarrow> graph_state \<Rightarrow> bool" where
  "same_shape gs gs' \<longleftrightarrow> node_to_index gs' = node_to_index gs \<and>
     map (\<lambda>nd. (nd_node nd, nd_layer nd)) (nodes gs') = map (\<lambda>nd. (nd_node nd, nd_layer nd)) (nodes gs)"

lemma same_shape_nodes: "nodes gs' = nodes gs \<Longrightarrow> node_to_index gs' = node_to_index gs \<Longrightarrow> same_shape gs gs'"
  by (simp add: same_shape_def)

definition phases :: "'s node_ops \<Rightarrow> (node \<Rightarrow> ('s, unit) node_call) set" where
  "phases ops = {op_setup ops, op_start ops, op_stop ops, op_teardown ops}"

definition world_ok :: "(graph_state \<Rightarrow> 's \<Rightarrow> bool) \<Rightarrow> 's world \<Rightarrow> bool" where
  "world_ok sinv w \<longleftrightarrow> wf_graph (fst w) \<and> wf_dirty (fst w) \<and> registry_ok (fst w) \<and> sinv (fst w) (snd w)"

text \<open>The state of a cycle that has come to position \<open>i\<close> of layer \<open>l\<close>.\<close>

definition cycle_inv :: "(graph_state \<Rightarrow> 's \<Rightarrow> bool) \<Rightarrow> graph_state \<Rightarrow> nat \<Rightarrow> nat \<Rightarrow>
    ('s \<times> cycle_log) world \<Rightarrow> bool" where
  "cycle_inv sinv gs0 l i w \<longleftrightarrow> (case w of (gs, s, log) \<Rightarrow>
     world_ok sinv (gs, s) \<and> nodes gs = nodes gs0 \<and>
     length (dirty_nodes_by_layer gs) = length (dirty_nodes_by_layer gs0) \<and>
     dirty_set gs = dirty_set gs0 \<union> woken (nodes gs0) log \<and>
     map fst log = filter (\<lambda>i. nd_active (nodes gs0 ! i))
       (concat (take l (dirty_nodes_by_layer gs)) @ take i (dirty_nodes_by_layer gs ! l)))"

locale node_contract =
  fixes ops :: "'s node_ops" and sinv :: "graph_state \<Rightarrow> 's \<Rightarrow> bool"
  assumes inv_shape: "same_shape gs gs' \<Longrightarrow> sinv gs s \<Longrightarrow> sinv gs' s"
    and cycle_call: "wf_graph gs \<Longrightarrow> sinv gs s \<Longrightarrow> ix < length (nodes gs) \<Longrightarrow>
      current_node_index gs = Some ix \<Longrightarrow>
      \<exists>s' cs r. op_cycle ops (nd_node (nodes gs ! ix)) gs s = Some (s', cs, r) \<and> sinv gs s' \<and>
        (\<forall>c \<in> set cs. cmd_in_range gs c \<and> cmd_deeper gs ix c)"
    and phase_call: "f \<in> phases ops \<Longrightarrow> wf_graph gs \<Longrightarrow> sinv gs s \<Longrightarrow> ix < length (nodes gs) \<Longrightarrow>
      current_node_index gs = Some ix \<Longrightarrow>
      \<exists>s' cs r. f (nd_node (nodes gs ! ix)) gs s = Some (s', cs, r) \<and> sinv gs s' \<and>
        (\<forall>c \<in> set cs. cmd_in_range gs c)"
begin

lemma call_result:
  assumes "world_ok sinv (gs, s)" "ix < length (nodes gs)"
    and "f (gs\<lparr>current_node_index := Some ix\<rparr>) s = Some (s', cs, r)" "sinv (gs\<lparr>current_node_index := Some ix\<rparr>) s'"
    and "\<forall>c \<in> set cs. cmd_in_range gs c"
  shows "\<exists>gs'. call_node f (gs\<lparr>current_node_index := Some ix\<rparr>, s) = Some ((gs', s'), r) \<and>
    run_cmds cs (gs\<lparr>current_node_index := Some ix\<rparr>) = Some gs' \<and>
    world_ok sinv (gs'\<lparr>current_node_index := None\<rparr>, s') \<and> world_ok sinv (gs', s') \<and> nodes gs' = nodes gs \<and>
    node_ticked gs' = node_ticked gs \<and> node_to_index gs' = node_to_index gs \<and>
    length (dirty_nodes_by_layer gs') = length (dirty_nodes_by_layer gs) \<and>
    dirty_set gs' = dirty_set gs \<union> set (marks cs)"
proof -
  let ?gs = "gs\<lparr>current_node_index := Some ix\<rparr>"
  have wf: "wf_graph ?gs" "wf_dirty ?gs" "dirty_set ?gs = dirty_set gs"
    using assms(1) by (auto simp: world_ok_def wf_defs wf_dirty_def dirty_set_def)
  have "\<forall>c \<in> set cs. cmd_in_range ?gs c"
  proof
    fix c assume "c \<in> set cs"
    with assms(5) have "cmd_in_range gs c" by simp
    then show "cmd_in_range ?gs c" by (cases c) simp_all
  qed
  from run_cmds_wf[OF wf(1,2) this, of ix] assms(2) obtain gs' where
    g: "run_cmds cs ?gs = Some gs'" "wf_graph gs'" "wf_dirty gs'"
      "dirty_set gs' = dirty_set gs \<union> set (marks cs)" using wf(3) by auto
  note fr = run_cmds_frame[OF g(1)]
  have reg: "registry_ok gs'" using assms(1) by (simp add: world_ok_def registry_ok_def fr)
  have iv: "sinv gs' s'" by (rule inv_shape[OF same_shape_nodes assms(4)]) (simp_all add: fr)
  have "sinv (gs'\<lparr>current_node_index := None\<rparr>) s'" by (rule inv_shape[OF same_shape_nodes iv]) simp_all
  then have "world_ok sinv (gs'\<lparr>current_node_index := None\<rparr>, s')"
    using g reg by (auto simp: world_ok_def wf_defs wf_dirty_def registry_ok_def)
  moreover have "world_ok sinv (gs', s')" using g reg iv by (simp add: world_ok_def)
  ultimately show ?thesis using g assms(3) fr by (simp add: call_node_def)
qed


lemma cycle_call_result:
  assumes "world_ok sinv (gs, s)" "ix < length (nodes gs)"
  shows "\<exists>gs' s' cs r.
    op_cycle ops (nd_node (nodes gs ! ix)) (gs\<lparr>current_node_index := Some ix\<rparr>) s = Some (s', cs, r) \<and>
    run_cmds cs (gs\<lparr>current_node_index := Some ix\<rparr>) = Some gs' \<and>
    world_ok sinv (gs'\<lparr>current_node_index := None\<rparr>, s') \<and> nodes gs' = nodes gs \<and>
    node_ticked gs' = node_ticked gs \<and> node_to_index gs' = node_to_index gs \<and>
    length (dirty_nodes_by_layer gs') = length (dirty_nodes_by_layer gs) \<and>
    dirty_set gs' = dirty_set gs \<union> set (marks cs) \<and>
    (\<forall>l \<le> layer_of gs ix. dirty_nodes_by_layer gs' ! l = dirty_nodes_by_layer gs ! l)"
proof -
  let ?gs = "gs\<lparr>current_node_index := Some ix\<rparr>"
  have wf: "wf_graph ?gs" using assms(1) by (simp add: world_ok_def wf_defs)
  have iv: "sinv ?gs s"
    using inv_shape[OF same_shape_nodes[of ?gs gs]] assms(1) by (simp add: world_ok_def)
  obtain s' cs r where c: "op_cycle ops (nd_node (nodes gs ! ix)) ?gs s = Some (s', cs, r)" "sinv ?gs s'"
    "\<forall>c \<in> set cs. cmd_in_range ?gs c \<and> cmd_deeper ?gs ix c"
    using cycle_call[OF wf iv, of ix] assms(2) by auto
  have range: "\<forall>c \<in> set cs. cmd_in_range gs c"
  proof
    fix c assume "c \<in> set cs"
    with c(3) have "cmd_in_range ?gs c" by simp
    then show "cmd_in_range gs c" by (cases c) simp_all
  qed
  from call_result[where f = "op_cycle ops (nd_node (nodes gs ! ix))", OF assms c(1,2) range] obtain gs' where g: "run_cmds cs ?gs = Some gs'"
    "world_ok sinv (gs'\<lparr>current_node_index := None\<rparr>, s')" "nodes gs' = nodes gs"
    "node_ticked gs' = node_ticked gs" "node_to_index gs' = node_to_index gs"
    "length (dirty_nodes_by_layer gs') = length (dirty_nodes_by_layer gs)"
    "dirty_set gs' = dirty_set gs \<union> set (marks cs)" by blast
  have "\<forall>l \<le> layer_of gs ix. dirty_nodes_by_layer gs' ! l = dirty_nodes_by_layer gs ! l"
    using run_cmds_other_layer[OF g(1), of ix] c(3) by simp
  with g c(1) show ?thesis by blast
qed

lemma cycle_node_logged:
  assumes ok: "world_ok sinv (gs, s)" and ix: "ix < length (nodes gs)"
  shows "\<exists>gs' s' log' r. cycle_node (logged ops) ix (gs, s, log) = Some ((gs', s', log'), r) \<and>
    world_ok sinv (gs', s') \<and> nodes gs' = nodes gs \<and>
    length (dirty_nodes_by_layer gs') = length (dirty_nodes_by_layer gs) \<and>
    (\<forall>l \<le> layer_of gs ix. dirty_nodes_by_layer gs' ! l = dirty_nodes_by_layer gs ! l) \<and>
    (if nd_active (nodes gs ! ix)
     then \<exists>t ms. log' = log @ [(ix, t, ms)] \<and> dirty_set gs' = dirty_set gs \<union>
       (if t then set (active_targets (nd_downstreams (nodes gs ! ix))) else {}) \<union> set ms
     else log' = log \<and> dirty_set gs' = dirty_set gs)"
proof (cases "nd_active (nodes gs ! ix)")
  case False
  with ok ix show ?thesis by (simp add: cycle_node_def)
next
  case True
  obtain gs1 s1 cs r where c:
    "op_cycle ops (nd_node (nodes gs ! ix)) (gs\<lparr>current_node_index := Some ix\<rparr>) s = Some (s1, cs, r)"
    "run_cmds cs (gs\<lparr>current_node_index := Some ix\<rparr>) = Some gs1"
    "world_ok sinv (gs1\<lparr>current_node_index := None\<rparr>, s1)" "nodes gs1 = nodes gs"
    "node_ticked gs1 = node_ticked gs" "node_to_index gs1 = node_to_index gs"
    "length (dirty_nodes_by_layer gs1) = length (dirty_nodes_by_layer gs)"
    "dirty_set gs1 = dirty_set gs \<union> set (marks cs)"
    "\<forall>l \<le> layer_of gs ix. dirty_nodes_by_layer gs1 ! l = dirty_nodes_by_layer gs ! l"
    using cycle_call_result[OF ok ix] by blast
  let ?log = "log @ [(ix, r = Inr True, marks cs)]" and ?gs1 = "gs1\<lparr>current_node_index := None\<rparr>"
  have call: "call_node (op_cycle (logged ops) (nd_node (nodes gs ! ix)))
      (gs\<lparr>current_node_index := Some ix\<rparr>, s, log) = Some ((gs1, s1, ?log), r)"
    using c(1,2) by (simp add: call_node_def logged_def logged_cycle_def)
  have ds1: "dirty_set ?gs1 = dirty_set gs1" by (simp add: dirty_set_def)
  show ?thesis
  proof (cases "r = Inr True")
    case False
    then have "cycle_node (logged ops) ix (gs, s, log) = Some ((?gs1, s1, ?log),
        case r of Inl e \<Rightarrow> Inl (ErrorInNode ix e) | Inr _ \<Rightarrow> Inr ())"
      using call ix True by (cases r) (auto simp: cycle_node_def Let_def split: bool.splits)
    with False c ds1 True show ?thesis by auto
  next
    case tick: True
    have wl: "wf_lengths ?gs1" and wfg: "wf_graph ?gs1" and wd: "wf_dirty ?gs1"
      using c(3) by (auto simp: world_ok_def wf_graph_def)
    let ?gs2 = "?gs1\<lparr>node_ticked := (node_ticked ?gs1)[ix := True]\<rparr>"
    let ?ts = "active_targets (nd_downstreams (nodes gs ! ix))"
    have set2: "set_ticked ix ?gs1 = Some ?gs2"
      using wl ix c(4) by (simp add: set_ticked_def wf_lengths_def)
    have wf2: "wf_graph ?gs2" "wf_dirty ?gs2" using wfg wd by (auto simp: wf_defs wf_dirty_def)
    have edge: "ed_node_index e < length (nodes gs) \<and> layer_of gs ix < layer_of gs (ed_node_index e)"
      if "e \<in> set (nd_downstreams (nodes gs ! ix))" for e
      using ok ix that by (auto simp: world_ok_def wf_graph_def wf_edges_def)
    have ts: "\<forall>i \<in> set ?ts. i < length (nodes ?gs2)" "\<And>i. i \<in> set ?ts \<Longrightarrow> layer_of gs ix < layer_of gs i"
      using edge by (auto simp: active_targets_def c(4))
    obtain gs3 where m: "mark_all ?ts ?gs2 = Some gs3" using mark_all_total[OF wf2(1) ts(1)] by blast
    note fr = mark_all_frame[OF m]
    have wf3: "wf_graph gs3" "wf_dirty gs3" "dirty_set gs3 = dirty_set gs1 \<union> set ?ts"
      using mark_all_wf[OF m wf2 ts(1)] by (auto simp: dirty_set_def)
    have "dirty_nodes_by_layer gs3 ! l = dirty_nodes_by_layer gs ! l" if "l \<le> layer_of gs ix" for l
    proof -
      have "\<forall>i \<in> set ?ts. layer_of ?gs2 i \<noteq> l" using ts(2) that by (force simp: c(4))
      from mark_all_other_layer[OF m this] c(9) that show ?thesis by simp
    qed
    moreover have "cycle_node (logged ops) ix (gs, s, log) = Some ((gs3, s1, ?log), Inr ())"
      using call ix True tick set2 m c(4) by (simp add: cycle_node_def)
    moreover have "sinv gs3 s1"
      using inv_shape[OF same_shape_nodes[of gs3 ?gs1]] c(3) fr by (simp add: world_ok_def)
    then have "world_ok sinv (gs3, s1)"
      using wf3 c(3) fr by (auto simp: world_ok_def registry_ok_def)
    ultimately show ?thesis using True tick wf3(3) c(4,7,8) fr by auto
  qed
qed


lemma cycle_item_inv:
  assumes inv: "cycle_inv sinv gs0 l i w"
    and i: "l < length (dirty_nodes_by_layer (fst w))" "i < length (dirty_nodes_by_layer (fst w) ! l)"
  shows "\<exists>w' r. cycle_item (logged ops) l i w = Some (w', r) \<and>
    world_ok sinv (fst w', fst (snd w')) \<and> nodes (fst w') = nodes gs0 \<and>
    dirty_nodes_by_layer (fst w') ! l = dirty_nodes_by_layer (fst w) ! l \<and>
    cycle_inv sinv gs0 l (Suc i) w'"
proof -
  obtain gs s log where w: "w = (gs, s, log)" by (cases w) auto
  let ?D = "dirty_nodes_by_layer gs"
  let ?ix = "?D ! l ! i"
  have ok: "world_ok sinv (gs, s)" and nodes: "nodes gs = nodes gs0"
    and len: "length ?D = length (dirty_nodes_by_layer gs0)"
    and dirty: "dirty_set gs = dirty_set gs0 \<union> woken (nodes gs0) log"
    and log: "map fst log = filter (\<lambda>i. nd_active (nodes gs0 ! i)) (concat (take l ?D) @ take i (?D ! l))"
    using inv by (auto simp: cycle_inv_def w)
  have l: "l < length ?D" and i': "i < length (?D ! l)" using i by (simp_all add: w)
  have ix: "?ix < length (nodes gs)" "layer_of gs ?ix = l"
    using ok l nth_mem[OF i'] by (auto simp: world_ok_def wf_dirty_def)
  obtain gs' s' log' r where c: "cycle_node (logged ops) ?ix (gs, s, log) = Some ((gs', s', log'), r)"
    "world_ok sinv (gs', s')" "nodes gs' = nodes gs" "length (dirty_nodes_by_layer gs') = length ?D"
    "\<forall>k \<le> l. dirty_nodes_by_layer gs' ! k = ?D ! k"
    "if nd_active (nodes gs ! ?ix)
     then \<exists>t ms. log' = log @ [(?ix, t, ms)] \<and> dirty_set gs' = dirty_set gs \<union>
       (if t then set (active_targets (nd_downstreams (nodes gs ! ?ix))) else {}) \<union> set ms
     else log' = log \<and> dirty_set gs' = dirty_set gs"
    using cycle_node_logged[OF ok ix(1), of log] unfolding ix(2) by blast
  have "take l (dirty_nodes_by_layer gs') = take l ?D"
    using c(4,5) l by (intro nth_take_lemma) auto
  moreover have "take (Suc i) (?D ! l) = take i (?D ! l) @ [?ix]" using i' by (rule take_Suc_conv_app_nth)
  ultimately have "map fst log' = filter (\<lambda>i. nd_active (nodes gs0 ! i))
      (concat (take l (dirty_nodes_by_layer gs')) @ take (Suc i) (dirty_nodes_by_layer gs' ! l))"
    using c(5,6) log nodes by (auto split: if_splits)
  moreover have "dirty_set gs' = dirty_set gs0 \<union> woken (nodes gs0) log'"
    using c(6) dirty nodes by (auto simp: woken_append split: if_splits)
  ultimately have "cycle_inv sinv gs0 l (Suc i) (gs', s', log')"
    using c(2-4) len nodes by (simp add: cycle_inv_def)
  moreover have "cycle_item (logged ops) l i w = Some ((gs', s', log'), r)"
    using c(1) l i' by (simp add: cycle_item_def w)
  ultimately show ?thesis using c(2,3,5) nodes by (auto simp: w)
qed

lemma cycle_layer_inv:
  assumes inv: "cycle_inv sinv gs0 l 0 w" and l: "l < length (dirty_nodes_by_layer gs0)"
  shows "\<exists>w' r. cycle_layer (logged ops) l w = Some (w', r) \<and>
    (world_ok sinv (fst w', fst (snd w')) \<and> nodes (fst w') = nodes gs0) \<and>
    (r = Inr () \<longrightarrow> cycle_inv sinv gs0 (Suc l) 0 w')"
proof -
  let ?D = "dirty_nodes_by_layer (fst w) ! l"
  let ?I = "\<lambda>i w'. cycle_inv sinv gs0 l i w' \<and> dirty_nodes_by_layer (fst w') ! l = ?D"
  let ?Q = "\<lambda>w'. world_ok sinv (fst w', fst (snd w')) \<and> nodes (fst w') = nodes gs0"
  have lw: "l < length (dirty_nodes_by_layer (fst w'))" if "cycle_inv sinv gs0 l i w'" for i w'
    using that l by (auto simp: cycle_inv_def)
  have "\<exists>w' r. for_each (cycle_item (logged ops) l) [0 ..< length ?D] w = Some (w', r) \<and> ?Q w' \<and>
      (r = Inr () \<longrightarrow> ?I (length ?D) w')"
  proof (rule for_each_upt)
    fix i w' assume "i < length ?D" and I: "?I i w'"
    then have "i < length (dirty_nodes_by_layer (fst w') ! l)" by simp
    with cycle_item_inv[of gs0 l i w'] I lw[of i w']
    show "\<exists>w'' r. cycle_item (logged ops) l i w' = Some (w'', r) \<and> ?Q w'' \<and> (r = Inr () \<longrightarrow> ?I (Suc i) w'')"
      by fastforce
  qed (use inv in \<open>auto simp: cycle_inv_def\<close>)
  then obtain w' r where w': "for_each (cycle_item (logged ops) l) [0 ..< length ?D] w = Some (w', r)"
    "?Q w'" "r = Inr () \<longrightarrow> ?I (length ?D) w'" by blast
  moreover have "cycle_inv sinv gs0 (Suc l) 0 w'" if "?I (length ?D) w'"
    using that lw[of "length ?D" w']
    by (auto simp: cycle_inv_def take_Suc_conv_app_nth split: prod.splits)
  ultimately show ?thesis using lw[OF inv] by (auto simp: cycle_layer_def)
qed

lemma cycle_layers_logged:
  assumes "world_ok sinv (gs, s)"
  shows "\<exists>gs' s' log r. cycle_layers (logged ops) (gs, s, []) = Some ((gs', s', log), r) \<and>
    world_ok sinv (gs', s') \<and> nodes gs' = nodes gs \<and>
    (r = Inr () \<longrightarrow> dirty_set gs' = dirty_set gs \<union> woken (nodes gs) log \<and>
       map fst log = filter (\<lambda>i. nd_active (nodes gs ! i)) (concat (dirty_nodes_by_layer gs')))"
proof -
  let ?n = "length (dirty_nodes_by_layer gs)"
  let ?Q = "\<lambda>w' :: ('s \<times> cycle_log) world. world_ok sinv (fst w', fst (snd w')) \<and> nodes (fst w') = nodes gs"
  have "\<exists>w' r. for_each (cycle_layer (logged ops)) [0 ..< ?n] (gs, s, []) = Some (w', r) \<and> ?Q w' \<and>
      (r = Inr () \<longrightarrow> cycle_inv sinv gs ?n 0 w')"
  proof (rule for_each_upt)
    fix l w assume "l < ?n" "cycle_inv sinv gs l 0 w"
    with cycle_layer_inv show "\<exists>w' r. cycle_layer (logged ops) l w = Some (w', r) \<and> ?Q w' \<and>
        (r = Inr () \<longrightarrow> cycle_inv sinv gs (Suc l) 0 w')" by blast
  qed (use assms in \<open>auto simp: cycle_inv_def woken_def\<close>)
  then obtain w' r where "for_each (cycle_layer (logged ops)) [0 ..< ?n] (gs, s, []) = Some (w', r)"
    "?Q w'" "r = Inr () \<longrightarrow> cycle_inv sinv gs ?n 0 w'" by blast
  moreover obtain gs' s' log where "w' = (gs', s', log)" by (cases w') auto
  ultimately show ?thesis by (auto simp: cycle_layers_def cycle_inv_def)
qed

end


subsection \<open>The log does not change the run\<close>

definition forget :: "('s \<times> cycle_log) world \<Rightarrow> 's world" where
  "forget w = (fst w, fst (snd w))"

definition forget_result :: "('s \<times> cycle_log, 'r) outcome \<Rightarrow> ('s, 'r) outcome" where
  "forget_result m = map_option (\<lambda>(w, r). (forget w, r)) m"

lemma forget_simps [simp]:
  "forget (gs, s, log) = (gs, s)" "forget_result None = None"
  "forget_result (Some (w, r)) = Some (forget w, r)"
  by (simp_all add: forget_def forget_result_def)

lemma forget_for_each:
  assumes "\<And>x w. forget_result (f x w) = g x (forget w)"
  shows "forget_result (for_each f xs w) = for_each g xs (forget w)"
proof (induction xs arbitrary: w)
  case Nil
  then show ?case by simp
next
  case (Cons x xs)
  show ?case
  proof (cases "f x w")
    case None
    with assms[of x w] have "g x (forget w) = None" by simp
    with None show ?thesis by (simp add: and_then_def)
  next
    case (Some p)
    obtain w1 r where p: "p = (w1, r)" by fastforce
    with Some assms[of x w] have "g x (forget w) = Some (forget w1, r)" by simp
    with Some p Cons.IH[of w1] show ?thesis by (cases r) (auto simp: and_then_def)
  qed
qed

lemma forget_cycle_node: "forget_result (cycle_node (logged ops) ix w) = cycle_node ops ix (forget w)"
proof -
  obtain gs s log where w: "w = (gs, s, log)" by (cases w) auto
  let ?n = "nd_node (nodes gs ! ix)" and ?gs = "gs\<lparr>current_node_index := Some ix\<rparr>"
  show ?thesis
  proof (cases "op_cycle ops ?n ?gs s")
    case None
    then show ?thesis by (simp add: w cycle_node_def call_node_def logged_def logged_cycle_def)
  next
    case (Some p)
    obtain s1 cs r where p: "p = (s1, cs, r)" by (cases p) auto
    show ?thesis
    proof (cases "run_cmds cs ?gs")
      case None
      with Some p show ?thesis by (simp add: w cycle_node_def call_node_def logged_def logged_cycle_def)
    next
      case (Some gs1)
      with \<open>op_cycle ops ?n ?gs s = Some p\<close> p show ?thesis
        by (cases r) (auto simp: w cycle_node_def call_node_def logged_def logged_cycle_def
            Let_def split: Option.bind_splits bool.splits)
    qed
  qed
qed

lemma forget_cycle_item: "forget_result (cycle_item (logged ops) l i w) = cycle_item ops l i (forget w)"
  by (cases w) (simp add: cycle_item_def forget_cycle_node Let_def)

lemma forget_cycle_layer: "forget_result (cycle_layer (logged ops) l w) = cycle_layer ops l (forget w)"
  by (cases w) (simp add: cycle_layer_def Let_def forget_for_each[of _ "cycle_item ops l", OF forget_cycle_item])

lemma forget_cycle_layers: "forget_result (cycle_layers (logged ops) w) = cycle_layers ops (forget w)"
  by (cases w) (simp add: cycle_layers_def forget_for_each[of _ "cycle_layer ops", OF forget_cycle_layer])

subsection \<open>What no engine step changes\<close>

text \<open>Partial correctness of loops: what every iteration keeps, the loop keeps.\<close>

lemma for_each_keeps:
  assumes "for_each f xs w = Some (w', r)" "P w"
    and "\<And>x w w' r. f x w = Some (w', r) \<Longrightarrow> P w \<Longrightarrow> P w'"
  shows "P w'"
  using assms(1,2)
proof (induction xs arbitrary: w)
  case Nil
  then show ?case by simp
next
  case (Cons x xs)
  then obtain w1 r1 where 1: "f x w = Some (w1, r1)" by (auto simp: and_then_def split: option.splits)
  with assms(3) Cons.prems(2) have "P w1" by blast
  with Cons.prems(1) 1 Cons.IH[of w1] show ?case
    by (auto simp: and_then_def split: sum.splits)
qed

lemma run_cmds_no_additions:
  "run_cmds cs gs = Some gs' \<Longrightarrow> \<forall>c \<in> set cs. \<not> (\<exists>n a r. c = AddUpstream n a r) \<Longrightarrow>
   pending_additions gs' = pending_additions gs"
proof (induction cs arbitrary: gs)
  case Nil
  then show ?case by simp
next
  case (Cons c cs)
  then obtain gs1 where 1: "run_cmd c gs = Some gs1" "run_cmds cs gs1 = Some gs'"
    by (auto split: Option.bind_splits)
  then have "pending_additions gs1 = pending_additions gs"
    using Cons.prems(2)
    by (cases c) (auto simp: mark_dirty_frame add_callback_def add_callback_for_node_def
        always_callback_def remove_node_def ready_notify_def split: option.splits if_splits)
  with Cons.IH[OF 1(2)] Cons.prems(2) show ?case by simp
qed

section \<open>Graphs that do not grow\<close>

text \<open>
  Nodes that never call \<^verbatim>\<open>add_upstream\<close> (removals are allowed): the engine then never panics.
\<close>

definition clock :: "graph_state \<Rightarrow> nanotime \<times> bool \<times> bool \<times> run_mode \<times> run_for" where
  "clock gs = (gs_time gs, first_cycle gs, is_last_cycle gs, gs_run_mode gs, gs_run_for gs)"

definition quiet :: "nanotime \<times> bool \<times> bool \<times> run_mode \<times> run_for \<Rightarrow> graph_state \<Rightarrow> bool" where
  "quiet c gs \<longleftrightarrow> pending_additions gs = [] \<and> clock gs = c"

lemma quiet_update [simp]:
  "quiet c (gs\<lparr>current_node_index := x\<rparr>) = quiet c gs" "quiet c (gs\<lparr>node_ticked := tk\<rparr>) = quiet c gs"
  "quiet c (gs\<lparr>nodes := ns\<rparr>) = quiet c gs" "quiet c (gs\<lparr>pending_removals := ps\<rparr>) = quiet c gs"
  "quiet c (gs\<lparr>gs_wall_time := t\<rparr>) = quiet c gs" "quiet c (gs\<lparr>gs_start_time := t\<rparr>) = quiet c gs"
  "quiet c (reset gs) = quiet c gs"
  by (simp_all add: quiet_def clock_def reset_def reset_ticked_def)

lemma mark_all_quiet: "mark_all is gs = Some gs' \<Longrightarrow> quiet c gs' = quiet c gs"
  using mark_all_frame[of "is" gs gs'] by (simp add: quiet_def clock_def)

lemma run_cmds_quiet:
  assumes "run_cmds cs gs = Some gs'" "\<And>c n a r. c \<in> set cs \<Longrightarrow> c \<noteq> AddUpstream n a r"
  shows "quiet c gs' = quiet c gs"
  using run_cmds_frame[OF assms(1)] run_cmds_no_additions[OF assms(1)] assms(2)
  by (auto simp: quiet_def clock_def)

locale static_contract = node_contract ops sinv
  for ops :: "'s node_ops" and sinv :: "graph_state \<Rightarrow> 's \<Rightarrow> bool" +
  assumes cycle_static: "op_cycle ops n gs s = Some (s', cs, r) \<Longrightarrow> c \<in> set cs \<Longrightarrow> c \<noteq> AddUpstream m a b"
    and phase_static: "f \<in> phases ops \<Longrightarrow> f n gs s = Some (s', cs, res) \<Longrightarrow>
      c \<in> set cs \<Longrightarrow> c \<noteq> AddUpstream m a b"
begin

abbreviation static_ok :: "nanotime \<times> bool \<times> bool \<times> run_mode \<times> run_for \<Rightarrow> 's world \<Rightarrow> bool" where
  "static_ok c w \<equiv> world_ok sinv w \<and> quiet c (fst w)"

lemma cycle_node_static:
  assumes "cycle_node ops ix w = Some (w', r)" "quiet c (fst w)"
  shows "quiet c (fst w')"
proof -
  obtain gs s where w: "w = (gs, s)" by fastforce
  show ?thesis
  proof (cases "nd_active (nodes gs ! ix)")
    case False
    with assms show ?thesis by (auto simp: cycle_node_def w split: if_splits)
  next
    case True
    with assms(1) obtain s1 cs r1 gs1 where
      c: "op_cycle ops (nd_node (nodes gs ! ix)) (gs\<lparr>current_node_index := Some ix\<rparr>) s = Some (s1, cs, r1)"
        "run_cmds cs (gs\<lparr>current_node_index := Some ix\<rparr>) = Some gs1"
      by (auto simp: cycle_node_def w call_node_def split: if_splits Option.bind_splits)
    have "quiet c gs1"
      using run_cmds_quiet[OF c(2) cycle_static[OF c(1)]] assms(2) by (simp add: w)
    with assms(1) c True show ?thesis
      by (auto simp: cycle_node_def w call_node_def set_ticked_def Let_def
          mark_all_quiet split: if_splits sum.splits bool.splits Option.bind_splits)
  qed
qed

lemma cycle_layer_static:
  assumes "cycle_layer ops l w = Some (w', r)" "quiet c (fst w)"
  shows "quiet c (fst w')"
proof -
  have "for_each (cycle_item ops l) [0 ..< length (dirty_nodes_by_layer (fst w) ! l)] w = Some (w', r)"
    using assms(1) by (simp add: cycle_layer_def Let_def split: if_splits)
  then show ?thesis
  proof (rule for_each_keeps[where P = "\<lambda>w. quiet c (fst w)", OF _ assms(2)])
    fix i w1 w2 r assume "cycle_item ops l i w1 = Some (w2, r)" "quiet c (fst w1)"
    then show "quiet c (fst w2)"
      using cycle_node_static by (auto simp: cycle_item_def Let_def split: if_splits)
  qed
qed

lemma cycle_layers_safe:
  assumes "static_ok c w"
  shows "safe (cycle_layers ops w) (static_ok c)"
proof -
  obtain gs s where w: "w = (gs, s)" by fastforce
  from cycle_layers_logged[of gs s] assms obtain gs' s' log r where
    l: "cycle_layers (logged ops) (gs, s, []) = Some ((gs', s', log), r)" "world_ok sinv (gs', s')"
    by (auto simp: w)
  from forget_cycle_layers[of ops "(gs, s, [])"] l(1)
  have c: "cycle_layers ops (gs, s) = Some ((gs', s'), r)" by simp
  have "quiet c (fst (gs', s'))"
    using for_each_keeps[OF c[unfolded cycle_layers_def], where P = "\<lambda>w. quiet c (fst w)"]
      cycle_layer_static assms by (fastforce simp: w)
  with c l(2) show ?thesis by (simp add: w)
qed

lemma call_phase_safe:
  assumes ph: "f \<in> phases ops" and ok: "static_ok c w" and ix: "ix < length (nodes (fst w))"
    and n: "n = nd_node (nodes (fst w) ! ix)"
  shows "safe (call_phase f desc ix n w) (\<lambda>w'. static_ok c w' \<and> nodes (fst w') = nodes (fst w))"
proof -
  obtain gs s where w: "w = (gs, s)" by fastforce
  let ?gs = "gs\<lparr>current_node_index := Some ix\<rparr>"
  have wf: "wf_graph ?gs" using ok by (simp add: world_ok_def wf_defs w)
  have iv: "sinv ?gs s"
    using inv_shape[OF same_shape_nodes[of ?gs gs]] ok by (simp add: world_ok_def w)
  obtain s' cs r where c: "f n ?gs s = Some (s', cs, r)" "sinv ?gs s'" "\<forall>c \<in> set cs. cmd_in_range ?gs c"
    using phase_call[OF ph wf iv, of ix] ix n by (auto simp: w)
  have range: "\<forall>c \<in> set cs. cmd_in_range gs c"
  proof
    fix c' assume "c' \<in> set cs"
    with c(3) have "cmd_in_range ?gs c'" by simp
    then show "cmd_in_range gs c'" by (cases c') simp_all
  qed
  obtain gs' where g: "call_node (f n) (?gs, s) = Some ((gs', s'), r)" "run_cmds cs ?gs = Some gs'"
    "world_ok sinv (gs'\<lparr>current_node_index := None\<rparr>, s')" "world_ok sinv (gs', s')" "nodes gs' = nodes gs"
    using call_result[where f = "f n" and gs = gs and s = s, OF _ _ c(1,2) range] ok ix by (auto simp: w)
  have "quiet c gs'"
    using run_cmds_quiet[OF g(2) phase_static[OF ph c(1)]] ok by (simp add: w)
  with g show ?thesis by (cases r) (simp_all add: call_phase_def map_err_def and_then_def w)
qed


lemma apply_nodes_safe:
  assumes "f \<in> phases ops" "static_ok c w"
  shows "safe (apply_nodes f desc w) (\<lambda>w'. static_ok c w' \<and> nodes (fst w') = nodes (fst w))"
  unfolding apply_nodes_def
proof (rule safe_for_each)
  fix ix w' assume "ix \<in> set [0..<length (nodes (fst w))]"
    "static_ok c w' \<and> nodes (fst w') = nodes (fst w)"
  with call_phase_safe[OF assms(1), of w' c ix "nd_node (nodes (fst w') ! ix)" desc]
  show "safe (apply_node f desc ix w') (\<lambda>w'. static_ok c w' \<and> nodes (fst w') = nodes (fst w))"
    by (auto simp: apply_node_def)
qed (use assms in simp)

lemma world_ok_nodes:
  assumes "world_ok sinv (gs, s)" "edges_shrink (nodes gs) ns"
  shows "world_ok sinv (gs\<lparr>nodes := ns\<rparr>, s)"
proof -
  note sh = assms(2)[unfolded edges_shrink_def]
  have ok: "wf_graph gs" "wf_dirty gs" "registry_ok gs" "sinv gs s" using assms(1) by (auto simp: world_ok_def)
  have "map (\<lambda>nd. (nd_node nd, nd_layer nd)) ns = map (\<lambda>nd. (nd_node nd, nd_layer nd)) (nodes gs)"
    using sh by (intro nth_equalityI) auto
  then have "sinv (gs\<lparr>nodes := ns\<rparr>) s" using inv_shape[OF _ ok(4)] by (simp add: same_shape_def)
  moreover have "registry_ok (gs\<lparr>nodes := ns\<rparr>)" using ok(3) sh by (simp add: registry_ok_def)
  moreover have "wf_dirty (gs\<lparr>nodes := ns\<rparr>)" using ok(2) sh by (auto simp: wf_dirty_def)
  ultimately show ?thesis using edges_shrink_wf[OF assms(2) ok(1)] by (simp add: world_ok_def)
qed

lemma world_ok_deactivate:
  assumes "world_ok sinv (gs, s)" "ix < length (nodes gs)"
  shows "world_ok sinv (gs\<lparr>nodes := (nodes gs)[ix := (nodes gs ! ix)\<lparr>nd_active := b\<rparr>]\<rparr>, s)"
proof -
  let ?ns = "(nodes gs)[ix := (nodes gs ! ix)\<lparr>nd_active := b\<rparr>]"
  have ok: "wf_graph gs" "wf_dirty gs" "registry_ok gs" "sinv gs s" using assms(1) by (auto simp: world_ok_def)
  have data: "nd_node (?ns ! k) = nd_node (nodes gs ! k)" "nd_layer (?ns ! k) = nd_layer (nodes gs ! k)"
    "nd_upstreams (?ns ! k) = nd_upstreams (nodes gs ! k)"
    "nd_downstreams (?ns ! k) = nd_downstreams (nodes gs ! k)" for k
    using assms(2) by (simp_all add: nth_list_update_if)
  have "map (\<lambda>nd. (nd_node nd, nd_layer nd)) ?ns = map (\<lambda>nd. (nd_node nd, nd_layer nd)) (nodes gs)"
    using data by (intro nth_equalityI) auto
  then have "sinv (gs\<lparr>nodes := ?ns\<rparr>) s" using inv_shape[OF _ ok(4)] by (simp add: same_shape_def)
  moreover have "registry_ok (gs\<lparr>nodes := ?ns\<rparr>)" using ok(3) by (simp add: registry_ok_def data)
  moreover have "wf_dirty (gs\<lparr>nodes := ?ns\<rparr>)" using ok(2) by (simp add: wf_dirty_def data)
  moreover have "nd_layer nd < length (dirty_nodes_by_layer gs)" if "nd \<in> set ?ns" for nd
  proof -
    from that obtain k where "k < length (nodes gs)" "nd = ?ns ! k" by (auto simp: in_set_conv_nth)
    with ok(1) data(2)[of k] show ?thesis by (simp add: wf_graph_def wf_lengths_def)
  qed
  then have "wf_lengths (gs\<lparr>nodes := ?ns\<rparr>)" using ok(1) by (simp add: wf_defs)
  moreover have "wf_edges (gs\<lparr>nodes := ?ns\<rparr>)" using ok(1) by (simp add: wf_graph_def wf_edges_def data)
  moreover have "wf_indices (gs\<lparr>nodes := ?ns\<rparr>)" using ok(1) by (simp add: wf_graph_def wf_indices_def)
  ultimately show ?thesis by (simp add: world_ok_def wf_graph_def)
qed

lemma process_removal_safe:
  assumes ok: "static_ok c w"
  shows "safe (process_removal ops n w) (static_ok c)"
proof -
  obtain gs s where w: "w = (gs, s)" by fastforce
  show ?thesis
  proof (cases "node_index gs n")
    case None
    with ok show ?thesis by (simp add: process_removal_def w)
  next
    case (Some ix)
    with ok have ix: "ix < length (nodes gs)" and n: "nd_node (nodes gs ! ix) = n"
      by (auto simp: w world_ok_def registry_ok_def node_index_def)
    show ?thesis
    proof (cases "nd_active (nodes gs ! ix)")
      case False
      with ok Some ix show ?thesis by (simp add: process_removal_def w)
    next
      case True
      have "wf_edges gs" using ok by (simp add: w world_ok_def wf_graph_def)
      from unlink_node_spec[OF this ix] obtain ns where
        ns: "unlink_node ix (nodes gs) = Some ns" "edges_shrink (nodes gs) ns" by blast
      let ?P = "\<lambda>w'. static_ok c w' \<and> nodes (fst w') = ns"
      have nsn: "ix < length ns" "nd_node (ns ! ix) = n" using ns(2) ix n by (auto simp: edges_shrink_def)
      have ok1: "?P (gs\<lparr>nodes := ns\<rparr>, s)" using world_ok_nodes[OF _ ns(2)] ok by (simp add: w)
      have phase: "safe (call_phase f d ix n w1) ?P" if "f \<in> phases ops" "?P w1" for f d w1
        using call_phase_safe[OF that(1), of w1 c ix n d] that(2) nsn by auto
      have "safe (and_then (call_phase (op_stop ops) ''stop (pending removal)'' ix n (gs\<lparr>nodes := ns\<rparr>, s))
          (\<lambda>w1 _. call_phase (op_teardown ops) ''teardown (pending removal)'' ix n w1)) ?P"
        by (rule safe_and_then) (use phase ok1 in \<open>auto simp: phases_def\<close>)
      then show ?thesis
        using Some ix True ns(1) nsn world_ok_deactivate[where b = False]
        by (auto simp: process_removal_def w safe_def and_then_def split: option.splits sum.splits)
    qed
  qed
qed

lemma reset_ok:
  assumes "static_ok c (gs, s)"
  shows "static_ok c (reset gs, s) \<and> dirty_set (reset gs) = {}"
proof -
  have fr: "nodes (reset gs) = nodes gs" "node_to_index (reset gs) = node_to_index gs"
    "length (node_ticked (reset gs)) = length (node_ticked gs)"
    "length (node_dirty (reset gs)) = length (node_dirty gs)"
    "length (dirty_nodes_by_layer (reset gs)) = length (dirty_nodes_by_layer gs)"
    "scheduled_callbacks (reset gs) = scheduled_callbacks gs" "always_callbacks (reset gs) = always_callbacks gs"
    "ready_callbacks (reset gs) = ready_callbacks gs" "pending_additions (reset gs) = pending_additions gs"
    by (simp_all add: reset_def reset_ticked_def)
  have "sinv (reset gs) s" using inv_shape[OF same_shape_nodes[OF fr(1,2)]] assms by (simp add: world_ok_def)
  moreover have "wf_graph (reset gs)" using wf_graph_cong[of "reset gs" gs] fr assms by (simp add: world_ok_def)
  moreover have "registry_ok (reset gs)" using assms by (simp add: world_ok_def registry_ok_def fr)
  moreover have "wf_dirty (reset gs)" "dirty_set (reset gs) = {}"
    using assms by (auto simp: wf_dirty_def reset_def reset_ticked_def dirty_set_def world_ok_def
        wf_graph_def wf_lengths_def)
  ultimately show ?thesis using assms fr by (simp add: world_ok_def)
qed

lemma cycle_safe:
  assumes "static_ok c w"
  shows "safe (cycle ops now w) (static_ok c)"
proof -
  have wall: "static_ok c ((fst w)\<lparr>gs_wall_time := now\<rparr>, snd w)"
    using assms inv_shape[OF same_shape_nodes[of "(fst w)\<lparr>gs_wall_time := now\<rparr>" "fst w"]]
    by (auto simp: world_ok_def wf_defs wf_dirty_def registry_ok_def)
  have removals: "safe (process_pending_removals ops w') (static_ok c)" if "static_ok c w'" for w'
  proof -
    have "static_ok c ((fst w')\<lparr>pending_removals := []\<rparr>, snd w')"
      using that inv_shape[OF same_shape_nodes[of "(fst w')\<lparr>pending_removals := []\<rparr>" "fst w'"]]
      by (auto simp: world_ok_def wf_defs wf_dirty_def registry_ok_def)
    then show ?thesis unfolding process_pending_removals_def
      by (rule safe_for_each[rotated]) (rule process_removal_safe)
  qed
  have additions: "safe (process_pending_additions ops w') (static_ok c)" if "static_ok c w'" for w'
  proof -
    obtain gs s where w': "w' = (gs, s)" by fastforce
    then have none: "pending_additions gs = []" using that by (simp add: quiet_def)
    then have "gs\<lparr>pending_additions := []\<rparr> = gs" by simp
    then have "process_pending_additions ops w' = Some (w', Inr ())"
      using none w' by (simp add: process_pending_additions_def Let_def)
    with that show ?thesis by simp
  qed
  show ?thesis
    unfolding cycle_def
  proof (rule safe_and_then[OF cycle_layers_safe[OF wall]])
    fix w' :: "'s world" and r :: unit assume ok: "static_ok c w'"
    obtain gs s where w': "w' = (gs, s)" by fastforce
    have "safe (and_then (process_pending_removals ops (reset gs, s))
        (\<lambda>w' _. process_pending_additions ops w')) (static_ok c)"
      by (rule safe_and_then[OF removals additions]) (use reset_ok[of gs s c] ok w' in auto)
    then show "safe ((case w' of (gs, s) \<Rightarrow> \<lambda>_. and_then (process_pending_removals ops (reset gs, s))
        (\<lambda>w' _. process_pending_additions ops w')) r) (static_ok c)" by (simp add: w')
  qed
qed

end


section \<open>Scheduling\<close>

text \<open>What callback processing leaves alone.\<close>

definition scheduling_frame :: "graph_state \<Rightarrow> graph_state \<Rightarrow> bool" where
  "scheduling_frame gs gs' \<longleftrightarrow> nodes gs' = nodes gs \<and> node_to_index gs' = node_to_index gs \<and>
     node_ticked gs' = node_ticked gs \<and> pending_additions gs' = pending_additions gs \<and>
     gs_run_mode gs' = gs_run_mode gs \<and> gs_run_for gs' = gs_run_for gs \<and>
     always_callbacks gs' = always_callbacks gs \<and> is_last_cycle gs' = is_last_cycle gs"

definition due :: "nanotime \<Rightarrow> graph_state \<Rightarrow> nat set" where
  "due t gs = {e_value e | e. e \<in> set (heap (scheduled_callbacks gs)) \<and> e_time e \<le> t}"

lemma mark_all_result:
  assumes "wf_graph gs" "wf_dirty gs" "set is \<subseteq> {..<length (nodes gs)}"
  shows "\<exists>gs'. mark_all is gs = Some gs' \<and> wf_graph gs' \<and> wf_dirty gs' \<and>
    dirty_set gs' = dirty_set gs \<union> set is \<and> scheduling_frame gs gs' \<and> gs_time gs' = gs_time gs \<and>
    scheduled_callbacks gs' = scheduled_callbacks gs \<and> ready_callbacks gs' = ready_callbacks gs \<and>
    first_cycle gs' = first_cycle gs"
proof -
  have r: "\<forall>i \<in> set is. i < length (nodes gs)" using assms(3) by auto
  obtain gs' where m: "mark_all is gs = Some gs'" using mark_all_total[OF assms(1) r] by blast
  with mark_all_wf[OF m assms(1,2) r] mark_all_frame[OF m] show ?thesis by (simp add: scheduling_frame_def)
qed

lemma scheduling_frame_trans:
  "scheduling_frame a b \<Longrightarrow> scheduling_frame b c \<Longrightarrow> scheduling_frame a c"
  by (simp add: scheduling_frame_def)

lemma process_scheduled_callbacks_result:
  assumes wf: "wf_graph gs" "wf_dirty gs"
  shows "\<exists>gs' p. process_scheduled_callbacks gs = Some (gs', p) \<and> wf_graph gs' \<and> wf_dirty gs' \<and>
    scheduling_frame gs gs' \<and> gs_time gs' = gs_time gs \<and> ready_callbacks gs' = ready_callbacks gs \<and>
    first_cycle gs' = first_cycle gs \<and>
    dirty_set gs' = dirty_set gs \<union> set (always_callbacks gs) \<union> due (gs_time gs) gs \<and>
    set (heap (scheduled_callbacks gs')) = {e \<in> set (heap (scheduled_callbacks gs)). gs_time gs < e_time e} \<and>
    (p \<longleftrightarrow> always_callbacks gs \<noteq> [] \<or> due (gs_time gs) gs \<noteq> {})"
proof -
  have always: "set (always_callbacks gs) \<subseteq> {..<length (nodes gs)}"
    and sched: "e_value ` set (heap (scheduled_callbacks gs)) \<subseteq> {..<length (nodes gs)}"
    using wf(1) by (auto simp: wf_defs)
  obtain gs1 where 1: "mark_all (always_callbacks gs) gs = Some gs1" "wf_graph gs1" "wf_dirty gs1"
    "dirty_set gs1 = dirty_set gs \<union> set (always_callbacks gs)" "scheduling_frame gs gs1"
    "gs_time gs1 = gs_time gs" "scheduled_callbacks gs1 = scheduled_callbacks gs"
    "ready_callbacks gs1 = ready_callbacks gs" "first_cycle gs1 = first_cycle gs"
    using mark_all_result[OF wf always] by blast
  obtain ixs q where d: "tq_drain (gs_time gs) (scheduled_callbacks gs) = (ixs, q)" by fastforce
  note drained = tq_drain_heap[OF d]
  have heap: "set (heap q) = {e \<in> set (heap (scheduled_callbacks gs)). gs_time gs < e_time e}"
    using arg_cong[OF conjunct1[OF drained], of set_mset] by simp
  have "set ixs = e_value ` {e \<in> set (heap (scheduled_callbacks gs)). \<not> gs_time gs < e_time e}"
    using arg_cong[OF conjunct1[OF conjunct2[OF drained]], of set_mset] by simp
  then have ixs: "set ixs = due (gs_time gs) gs" by (auto simp: due_def)
  let ?gs1 = "gs1\<lparr>scheduled_callbacks := q\<rparr>"
  have n1: "nodes gs1 = nodes gs" using 1(5) by (simp add: scheduling_frame_def)
  have "e_value ` set (heap q) \<subseteq> {..<length (nodes gs1)}" using heap sched n1 by auto
  then have wf1: "wf_graph ?gs1" "wf_dirty ?gs1" using 1(2,3) by (auto simp: wf_defs wf_dirty_def)
  have "set ixs \<subseteq> {..<length (nodes ?gs1)}" using ixs sched n1 by (auto simp: due_def)
  from mark_all_result[OF wf1 this] obtain gs2 where 2: "mark_all ixs ?gs1 = Some gs2"
    "wf_graph gs2" "wf_dirty gs2" "dirty_set gs2 = dirty_set ?gs1 \<union> set ixs" "scheduling_frame ?gs1 gs2"
    "gs_time gs2 = gs_time gs1" "scheduled_callbacks gs2 = q" "ready_callbacks gs2 = ready_callbacks gs1"
    "first_cycle gs2 = first_cycle gs1" by auto
  have "process_scheduled_callbacks gs = Some (gs2, always_callbacks gs \<noteq> [] \<or> ixs \<noteq> [])"
    using 1(1,6,7) d 2(1) by (simp add: process_scheduled_callbacks_def)
  moreover have "ixs \<noteq> [] \<longleftrightarrow> due (gs_time gs) gs \<noteq> {}" using ixs by auto
  moreover have "scheduling_frame gs gs2" using 1(5) 2(5) by (simp add: scheduling_frame_def)
  moreover have "dirty_set ?gs1 = dirty_set gs1" by (simp add: dirty_set_def)
  ultimately show ?thesis using 1(4,6,8,9) 2(2-4,6-9) heap ixs by simp
qed

text \<open>
  The clock of a historical run. \<open>advanced\<close> is the state after the clock is moved: to the
  next scheduled time, or one nanosecond on when that is not later or there is none.
\<close>

definition has_work :: "graph_state \<Rightarrow> bool" where
  "has_work gs \<longleftrightarrow> has_scheduled_callbacks gs \<or> always_callbacks gs \<noteq> []"

lemma next_scheduled_time_least:
  assumes "e \<in> set (heap (scheduled_callbacks gs))"
  shows "next_scheduled_time gs \<le> e_time e"
proof -
  obtain m where m: "heap_peek (heap (scheduled_callbacks gs)) = Some m"
    using assms by (cases "heap_peek (heap (scheduled_callbacks gs))") auto
  with heap_peek_least_time[OF m assms] show ?thesis
    by (simp add: next_scheduled_time_def tq_next_time_def)
qed

lemma next_scheduled_time_in:
  assumes "has_scheduled_callbacks gs"
  shows "\<exists>e \<in> set (heap (scheduled_callbacks gs)). e_time e = next_scheduled_time gs"
proof -
  obtain m where m: "heap_peek (heap (scheduled_callbacks gs)) = Some m"
    using assms by (cases "heap_peek (heap (scheduled_callbacks gs))")
      (auto simp: has_scheduled_callbacks_def tq_is_empty_def)
  with heap_peek_in[OF m] show ?thesis by (auto simp: next_scheduled_time_def tq_next_time_def)
qed

lemma historical_time_increases:
  assumes "\<not> first_cycle gs" "gs_time gs < nano_max"
  shows "gs_time gs < historical_next_time gs"
  using nano_succ_greater[OF assms(2)] assms(1)
  by (auto simp: historical_next_time_def Let_def less_max_iff_disj)

lemma historical_next_time_ge:
  assumes "has_scheduled_callbacks gs"
  shows "next_scheduled_time gs \<le> historical_next_time gs"
  using assms by (simp add: historical_next_time_def Let_def)

lemma next_scheduled_time_Min:
  assumes "has_scheduled_callbacks gs"
  shows "next_scheduled_time gs = Min (e_time ` set (heap (scheduled_callbacks gs)))"
proof -
  obtain e where "e \<in> set (heap (scheduled_callbacks gs))" "e_time e = next_scheduled_time gs"
    using next_scheduled_time_in[OF assms] by blast
  then have "next_scheduled_time gs \<in> e_time ` set (heap (scheduled_callbacks gs))" by (metis imageI)
  then show ?thesis by (intro Min_eqI[symmetric]) (auto dest: next_scheduled_time_least)
qed

text \<open>The clock of the next historical cycle, read off the scheduled callbacks.\<close>

lemma historical_next_time_exact:
  "historical_next_time gs =
     (let due_times = e_time ` set (heap (scheduled_callbacks gs)); after = NanoTime (raw (gs_time gs) + 1) in
      if first_cycle gs then (if due_times = {} then gs_time gs else Min due_times)
      else (if due_times = {} then after else max (Min due_times) after))"
proof -
  have "e_time ` set (heap (scheduled_callbacks gs)) = {} \<longleftrightarrow> \<not> has_scheduled_callbacks gs"
    by (simp add: has_scheduled_callbacks_def tq_is_empty_def)
  with next_scheduled_time_Min[of gs] show ?thesis
    by (auto simp: historical_next_time_def Let_def nano_add_raw_def)
qed

lemma process_callbacks_historical_result:
  assumes wf: "wf_graph gs" "wf_dirty gs" and ready: "ready_callbacks gs = []"
  shows "\<exists>gs'. process_callbacks_historical gs = Some (gs', Inr (has_work gs)) \<and>
    wf_graph gs' \<and> wf_dirty gs' \<and> scheduling_frame gs gs' \<and> ready_callbacks gs' = [] \<and>
    (has_work gs \<longrightarrow> gs_time gs' = historical_next_time gs \<and> \<not> first_cycle gs' \<and>
       dirty_set gs' = dirty_set gs \<union> set (always_callbacks gs) \<union> due (gs_time gs') gs \<and>
       set (heap (scheduled_callbacks gs')) =
         {e \<in> set (heap (scheduled_callbacks gs)). gs_time gs' < e_time e}) \<and>
    (\<not> has_work gs \<longrightarrow> gs_time gs' = gs_time gs \<and> \<not> has_work gs')"
proof -
  define gs1 where "gs1 = (if has_scheduled_callbacks gs \<or> always_callbacks gs \<noteq> []
      then gs\<lparr>gs_time := historical_next_time gs, first_cycle := False\<rparr> else gs)"
  have wf1: "wf_graph gs1" "wf_dirty gs1" using wf by (auto simp: gs1_def wf_defs wf_dirty_def)
  have same: "dirty_set gs1 = dirty_set gs" "always_callbacks gs1 = always_callbacks gs"
    "scheduled_callbacks gs1 = scheduled_callbacks gs" "ready_callbacks gs1 = ready_callbacks gs"
    "due t gs1 = due t gs" "scheduling_frame gs gs1" for t
    by (auto simp: gs1_def dirty_set_def due_def scheduling_frame_def)
  obtain gs' p where g: "process_scheduled_callbacks gs1 = Some (gs', p)" "wf_graph gs'" "wf_dirty gs'"
    "scheduling_frame gs1 gs'" "gs_time gs' = gs_time gs1" "ready_callbacks gs' = ready_callbacks gs1"
    "first_cycle gs' = first_cycle gs1"
    "dirty_set gs' = dirty_set gs1 \<union> set (always_callbacks gs1) \<union> due (gs_time gs1) gs1"
    "set (heap (scheduled_callbacks gs')) =
       {e \<in> set (heap (scheduled_callbacks gs1)). gs_time gs1 < e_time e}"
    "p \<longleftrightarrow> always_callbacks gs1 \<noteq> [] \<or> due (gs_time gs1) gs1 \<noteq> {}"
    using process_scheduled_callbacks_result[OF wf1] by blast
  have time1: "gs_time gs1 = (if has_work gs then historical_next_time gs else gs_time gs)"
    "has_work gs \<Longrightarrow> \<not> first_cycle gs1" by (auto simp: gs1_def has_work_def)
  have p: "p = has_work gs"
  proof (cases "has_scheduled_callbacks gs")
    case True
    from next_scheduled_time_in[OF this] historical_next_time_ge[OF True]
    have "due (historical_next_time gs) gs \<noteq> {}" by (auto simp: due_def)
    with True g(10) same(2,5) time1(1) show ?thesis by (simp add: has_work_def)
  next
    case False
    then have "due t gs = {}" for t by (simp add: due_def has_scheduled_callbacks_def tq_is_empty_def)
    with False g(10) same(2,5) show ?thesis by (simp add: has_work_def)
  qed
  have "process_callbacks_historical gs = Some (gs', Inr (has_work gs))"
    using ready g(1) p by (simp add: process_callbacks_historical_def Let_def gs1_def)
  moreover have "scheduling_frame gs gs'" using same(6) g(4) by (rule scheduling_frame_trans)
  moreover have "ready_callbacks gs' = []" using g(6) same(4) ready by simp
  moreover have "gs_time gs' = historical_next_time gs \<and> \<not> first_cycle gs'" if "has_work gs"
    using g(5,7) time1 that by simp
  moreover have "gs_time gs' = gs_time gs \<and> \<not> has_work gs'" if "\<not> has_work gs"
  proof -
    have "set (heap (scheduled_callbacks gs')) = {}"
      using that g(9) same(3) by (simp add: has_work_def has_scheduled_callbacks_def tq_is_empty_def)
    with that g(5) time1(1) \<open>scheduling_frame gs gs'\<close> show ?thesis
      by (simp add: has_work_def scheduling_frame_def has_scheduled_callbacks_def tq_is_empty_def)
  qed
  ultimately show ?thesis using g(2,3,5,8,9) same(1,2,3,5) by simp
qed


section \<open>The run loop\<close>

subsection \<open>Historical runs end\<close>

text \<open>
  Every iteration of a historical run that does not end it runs one engine cycle, and the
  cycle bound is at most \<^verbatim>\<open>u32::MAX\<close>, whatever \<^verbatim>\<open>RunFor\<close> says.
\<close>

definition cycles_left :: "u32 \<Rightarrow> 's run_state \<Rightarrow> nat" where
  "cycles_left end_cycle st =
     (if rs_status st = Running then Suc (unat end_cycle - unat (rs_cycles st)) else 0)"

lemma run_cycle_cases:
  assumes "rs_status st = Running"
  shows "rs_status (run_cycle ops now st) \<noteq> Running \<or>
    rs_status (run_cycle ops now st) = Running \<and> rs_cycles (run_cycle ops now st) = rs_cycles st + 1"
  using assms by (auto simp: run_cycle_def split: option.splits sum.splits)

lemma run_step_historical_cases:
  assumes "rs_status st = Running"
  shows "rs_status (run_step ops rb False env st) \<noteq> Running \<or>
    rs_status (run_step ops rb False env st) = Running \<and> rs_cycles st < rb_end_cycle rb \<and>
    rs_cycles (run_step ops rb False env st) = rs_cycles st + 1"
proof -
  obtain gs s where w: "rs_world st = (gs, s)" by fastforce
  show ?thesis
  proof (cases "rb_end_cycle rb \<le> rs_cycles st \<or> is_last_cycle gs \<and> rb_end_time rb \<le> gs_time gs")
    case True
    then show ?thesis by (simp add: run_step_def w)
  next
    case False
    then have "rs_cycles st < rb_end_cycle rb" by (simp add: not_le)
    with False assms show ?thesis
      by (auto simp: run_step_def w Let_def run_cycle_def split: option.splits sum.splits bool.splits)
  qed
qed

lemma run_step_historical_decreases:
  assumes "rs_status st = Running"
  shows "cycles_left (rb_end_cycle rb) (run_step ops rb False env st) < cycles_left (rb_end_cycle rb) st"
  using run_step_historical_cases[OF assms, of ops rb env] assms
  by (auto simp: cycles_left_def unat_Suc_no_wrap word_less_nat_alt)

lemma run_loop_historical_returns:
  fixes w :: "'a world"
  assumes "gs_run_mode (fst w) = HistoricalFrom t"
  shows "\<exists>st. run_loop ops now env w = Some st \<and> rs_status st \<noteq> Running"
proof -
  have "\<exists>st. run_loop ops now env w = Some st"
    unfolding run_loop_def
  proof (rule measure_while_option_Some[where P = "\<lambda>_. True"
        and f = "cycles_left (rb_end_cycle (resolve_start_end now (fst w)))"])
    fix st :: "'a run_state" assume "run_running st"
    then show "True \<and> cycles_left (rb_end_cycle (resolve_start_end now (fst w)))
        (run_step ops (resolve_start_end now (fst w)) (gs_run_mode (fst w) = RealTime) env st)
        < cycles_left (rb_end_cycle (resolve_start_end now (fst w))) st"
      using run_step_historical_decreases assms by (simp add: run_running_def)
  qed simp
  then obtain st where st: "run_loop ops now env w = Some st" by blast
  with while_option_stop[OF st[unfolded run_loop_def]] show ?thesis by (simp add: run_running_def)
qed

lemma run_loop_invariant:
  assumes "run_loop ops now env w = Some st" "P (run_start now w)"
    and "\<And>st. P st \<Longrightarrow> rs_status st = Running \<Longrightarrow>
      P (run_step ops (resolve_start_end now (fst w)) (gs_run_mode (fst w) = RealTime) env st)"
  shows "P st"
  using while_option_rule[where P = P, OF _ assms(1)[unfolded run_loop_def]] assms(2,3)
  by (simp add: run_running_def)

subsection \<open>Runs of a graph that does not grow\<close>

definition run_inv :: "(graph_state \<Rightarrow> 's \<Rightarrow> bool) \<Rightarrow> run_bounds \<Rightarrow> 's run_state \<Rightarrow> bool" where
  "run_inv sinv rb st \<longleftrightarrow> world_ok sinv (rs_world st) \<and> pending_additions (fst (rs_world st)) = [] \<and>
     rs_status st \<noteq> Panicked \<and> rs_cycles st \<le> rb_end_cycle rb \<and>
     (rs_status st = Finished \<longrightarrow> rs_cycles st = rb_end_cycle rb \<or> \<not> has_work (fst (rs_world st)) \<or>
        is_last_cycle (fst (rs_world st)) \<and> rb_end_time rb \<le> gs_time (fst (rs_world st)))"

context static_contract
begin

lemma cycle_result:
  assumes "world_ok sinv (gs, s)" "pending_additions gs = []"
  shows "\<exists>gs' s' r. cycle ops now (gs, s) = Some ((gs', s'), r) \<and> world_ok sinv (gs', s') \<and>
    pending_additions gs' = [] \<and> clock gs' = clock gs"
proof -
  have "quiet (clock gs) gs" using assms(2) by (simp add: quiet_def)
  with cycle_safe[of "(gs, s)" "clock gs" now] assms(1) obtain w r where
    "cycle ops now (gs, s) = Some (w, r)" "world_ok sinv w" "quiet (clock gs) (fst w)"
    by (auto simp: safe_def)
  then show ?thesis by (cases w) (auto simp: quiet_def)
qed

lemma mark_last_cycle_ok:
  assumes "world_ok sinv (gs, s)"
  shows "world_ok sinv (mark_last_cycle rb n gs, s)"
proof -
  have "sinv (gs\<lparr>is_last_cycle := True\<rparr>) s"
    using inv_shape[OF same_shape_nodes[of "gs\<lparr>is_last_cycle := True\<rparr>" gs]] assms by (simp add: world_ok_def)
  with assms show ?thesis
    by (auto simp: mark_last_cycle_def world_ok_def wf_defs wf_dirty_def registry_ok_def)
qed

lemma mark_last_cycle_frame:
  "gs_time (mark_last_cycle rb n gs) = gs_time gs" "first_cycle (mark_last_cycle rb n gs) = first_cycle gs"
  "pending_additions (mark_last_cycle rb n gs) = pending_additions gs"
  "ready_callbacks (mark_last_cycle rb n gs) = ready_callbacks gs"
  "historical_next_time (mark_last_cycle rb n gs) = historical_next_time gs"
  "has_work (mark_last_cycle rb n gs) = has_work gs"
  by (simp_all add: mark_last_cycle_def historical_next_time_def has_work_def
      has_scheduled_callbacks_def next_scheduled_time_def Let_def)

text \<open>One iteration of a historical run, when the run is not over.\<close>

lemma run_step_historical:
  assumes inv: "run_inv sinv rb st" and run: "rs_status st = Running" and w: "rs_world st = (gs, s)"
    and go: "\<not> (rb_end_cycle rb \<le> rs_cycles st \<or> is_last_cycle gs \<and> rb_end_time rb \<le> gs_time gs)"
  shows "run_inv sinv rb (run_step ops rb False env st) \<and>
    (rs_status (run_step ops rb False env st) = Running \<longrightarrow>
       gs_time (fst (rs_world (run_step ops rb False env st))) = historical_next_time gs \<and>
       \<not> first_cycle (fst (rs_world (run_step ops rb False env st))))"
proof -
  let ?gs1 = "mark_last_cycle rb (rs_cycles st) gs"
  let ?inp = "env (rs_iteration st)"
  have ok: "world_ok sinv (gs, s)" "pending_additions gs = []" "rs_cycles st < rb_end_cycle rb"
    using inv go w by (auto simp: run_inv_def)
  have ok1: "world_ok sinv (?gs1, s)" by (rule mark_last_cycle_ok[OF ok(1)])
  show ?thesis
  proof (cases "ready_callbacks gs = []")
    case False
    then have "run_step ops rb False env st = st\<lparr>rs_iteration := rs_iteration st + 1, rs_world := (?gs1, s),
        rs_status := Failed (Anyhow ''ready callbacks are not supported in historical mode'')\<rparr>"
      using go by (auto simp: run_step_def w Let_def process_callbacks_historical_def mark_last_cycle_frame)
    with ok ok1 show ?thesis by (simp add: run_inv_def mark_last_cycle_frame)
  next
    case True
    then obtain gs2 where h: "process_callbacks_historical ?gs1 = Some (gs2, Inr (has_work gs))"
      "wf_graph gs2" "wf_dirty gs2" "scheduling_frame ?gs1 gs2"
      "has_work gs \<longrightarrow> gs_time gs2 = historical_next_time gs \<and> \<not> first_cycle gs2"
      "\<not> has_work gs \<longrightarrow> \<not> has_work gs2"
      using process_callbacks_historical_result[of ?gs1] ok1
      unfolding world_ok_def mark_last_cycle_frame fst_conv by blast
    have "sinv gs2 s"
      using inv_shape[OF same_shape_nodes[of gs2 ?gs1]] ok1 h(4) by (simp add: world_ok_def scheduling_frame_def)
    then have ok2: "world_ok sinv (gs2, s)" "pending_additions gs2 = []"
      using h(2-4) ok1 ok(2) by (auto simp: world_ok_def registry_ok_def scheduling_frame_def mark_last_cycle_frame)
    show ?thesis
    proof (cases "has_work gs")
      case False
      then have "run_step ops rb False env st = st\<lparr>rs_iteration := rs_iteration st + 1,
          rs_world := (gs2, s), rs_status := Finished\<rparr>"
        using go h(1) by (auto simp: run_step_def w Let_def)
      with False ok(3) ok2 h(6) show ?thesis by (simp add: run_inv_def)
    next
      case work: True
      let ?st1 = "st\<lparr>rs_iteration := rs_iteration st + 1, rs_world := (gs2, s)\<rparr>"
      have step: "run_step ops rb False env st = run_cycle ops (rt_wall ?inp) ?st1"
        using go h(1) work by (auto simp: run_step_def w Let_def)
      obtain gs3 s3 r where c: "cycle ops (rt_wall ?inp) (gs2, s) = Some ((gs3, s3), r)"
        "world_ok sinv (gs3, s3)" "pending_additions gs3 = []" "clock gs3 = clock gs2"
        using cycle_result[OF ok2] by blast
      have "unat (rs_cycles st + 1) = Suc (unat (rs_cycles st))" by (rule unat_Suc_no_wrap[OF ok(3)])
      then have "rs_cycles st + 1 \<le> rb_end_cycle rb" using ok(3) by (simp add: word_le_nat_alt word_less_nat_alt)
      with c ok(3) run work h(5) show ?thesis
        by (cases r) (auto simp: step run_cycle_def run_inv_def clock_def)
    qed
  qed
qed

lemma run_step_historical_inv:
  assumes "run_inv sinv rb st" "rs_status st = Running"
  shows "run_inv sinv rb (run_step ops rb False env st)"
proof -
  obtain gs s where w: "rs_world st = (gs, s)" by fastforce
  show ?thesis
  proof (cases "rb_end_cycle rb \<le> rs_cycles st \<or> is_last_cycle gs \<and> rb_end_time rb \<le> gs_time gs")
    case True
    then have "run_step ops rb False env st = st\<lparr>rs_status := Finished\<rparr>" by (auto simp: run_step_def w)
    with assms(1) True w show ?thesis by (auto simp: run_inv_def)
  next
    case False
    with run_step_historical[OF assms w False] show ?thesis by blast
  qed
qed

lemma run_start_ok:
  assumes "world_ok sinv w" "pending_additions (fst w) = []"
  shows "run_inv sinv rb (run_start now w)"
proof -
  obtain gs s where w: "w = (gs, s)" by fastforce
  have "sinv (gs\<lparr>gs_start_time := t\<rparr>) s" for t
    using inv_shape[OF same_shape_nodes[of "gs\<lparr>gs_start_time := t\<rparr>" gs]] assms(1) by (simp add: world_ok_def w)
  with assms show ?thesis
    by (auto simp: run_inv_def run_start_def w world_ok_def wf_defs wf_dirty_def registry_ok_def)
qed

lemma run_loop_historical:
  assumes "world_ok sinv w" "pending_additions (fst w) = []" "gs_run_mode (fst w) = HistoricalFrom t"
  shows "\<exists>st. run_loop ops now env w = Some st \<and> rs_status st \<noteq> Running \<and>
    run_inv sinv (resolve_start_end now (fst w)) st"
proof -
  obtain st where st: "run_loop ops now env w = Some st" "rs_status st \<noteq> Running"
    using run_loop_historical_returns[OF assms(3)] by blast
  have "run_inv sinv (resolve_start_end now (fst w)) st"
    using run_loop_invariant[where P = "run_inv sinv (resolve_start_end now (fst w))", OF st(1)]
      run_start_ok[OF assms(1,2)] run_step_historical_inv assms(3) by simp
  with st show ?thesis by blast
qed


lemma phase_result:
  assumes "f \<in> phases ops" "world_ok sinv w" "pending_additions (fst w) = []"
  shows "\<exists>w' r. apply_nodes f desc w = Some (w', r) \<and> world_ok sinv w' \<and>
    pending_additions (fst w') = [] \<and> clock (fst w') = clock (fst w) \<and> nodes (fst w') = nodes (fst w)"
proof -
  have "quiet (clock (fst w)) (fst w)" using assms(3) by (simp add: quiet_def)
  with apply_nodes_safe[OF assms(1), of w "clock (fst w)" desc] assms(2) show ?thesis
    by (auto simp: safe_def quiet_def)
qed

lemma run_historical:
  assumes "world_ok sinv w" "pending_additions (fst w) = []" "gs_run_mode (fst w) = HistoricalFrom t"
    "wiring_error (fst w) = None"
  shows "\<exists>w' r. run ops now env w = Some (w', r) \<and> world_ok sinv w'"
proof -
  obtain w1 r1 where 1: "setup_nodes ops w = Some (w1, r1)" "world_ok sinv w1"
    "pending_additions (fst w1) = []" "clock (fst w1) = clock (fst w)"
    using phase_result[OF _ assms(1,2)] unfolding setup_nodes_def phases_def by blast
  obtain w2 r2 where 2: "start_nodes ops w1 = Some (w2, r2)" "world_ok sinv w2"
    "pending_additions (fst w2) = []" "clock (fst w2) = clock (fst w1)"
    using phase_result[OF _ 1(2,3)] unfolding start_nodes_def phases_def by blast
  have "gs_run_mode (fst w2) = HistoricalFrom t" using 1(4) 2(4) assms(3) by (simp add: clock_def)
  from run_loop_historical[OF 2(2,3) this, of now env] obtain st where
    st: "run_loop ops now env w2 = Some st" "rs_status st \<noteq> Panicked" "world_ok sinv (rs_world st)"
      "pending_additions (fst (rs_world st)) = []" by (auto simp: run_inv_def)
  define m where "m = (if isl r2 then Some (w2, Inr ()) else run_nodes ops now env w2)"
  have "\<exists>w3 r3. m = Some (w3, r3) \<and> world_ok sinv w3 \<and> pending_additions (fst w3) = []"
    using st 2(2,3) by (cases w2; cases "rs_world st") (auto simp: m_def run_nodes_def split: run_status.splits)
  then obtain w3 r3 where 3: "m = Some (w3, r3)" "world_ok sinv w3" "pending_additions (fst w3) = []" by blast
  obtain w4 r4 where 4: "stop_nodes ops w3 = Some (w4, r4)" "world_ok sinv w4" "pending_additions (fst w4) = []"
    using phase_result[OF _ 3(2,3)] unfolding stop_nodes_def phases_def by blast
  obtain w5 r5 where 5: "teardown_nodes ops w4 = Some (w5, r5)" "world_ok sinv w5"
    using phase_result[OF _ 4(2,3)] unfolding teardown_nodes_def phases_def by blast
  show ?thesis
  proof (cases r1)
    case (Inl e)
    with 1 assms(4) show ?thesis by (simp add: run_def and_then_def)
  next
    case (Inr u)
    with 1(1) 2(1) 3(1) 4(1) 5 assms(4) show ?thesis by (simp add: run_def and_then_def m_def)
  qed
qed

text \<open>Engine times of a historical run, iteration by iteration.\<close>

lemma run_step_time_increases:
  assumes "run_inv sinv rb st" "rs_status st = Running" "rs_status (run_step ops rb False env st) = Running"
    "\<not> first_cycle (fst (rs_world st))" "gs_time (fst (rs_world st)) < nano_max"
  shows "gs_time (fst (rs_world st)) < gs_time (fst (rs_world (run_step ops rb False env st)))"
proof -
  obtain gs s where w: "rs_world st = (gs, s)" by fastforce
  have "\<not> (rb_end_cycle rb \<le> rs_cycles st \<or> is_last_cycle gs \<and> rb_end_time rb \<le> gs_time gs)"
    using assms(2,3) by (auto simp: run_step_def w)
  from run_step_historical[OF assms(1,2) w this] assms(3) w historical_time_increases[of gs] assms(4,5)
  show ?thesis by simp
qed

lemma run_steps_monotone:
  assumes inv: "run_inv sinv rb st0"
    and run: "\<And>k. k \<le> m \<Longrightarrow> rs_status ((run_step ops rb False env ^^ k) st0) = Running"
    and small: "\<And>k. k \<le> m \<Longrightarrow> gs_time (fst (rs_world ((run_step ops rb False env ^^ k) st0))) < nano_max"
    and ij: "0 < i" "i < j" "j \<le> m"
  shows "gs_time (fst (rs_world ((run_step ops rb False env ^^ i) st0)))
    < gs_time (fst (rs_world ((run_step ops rb False env ^^ j) st0)))"
proof -
  let ?st = "\<lambda>k. (run_step ops rb False env ^^ k) st0"
  have invs: "run_inv sinv rb (?st k)" if "k \<le> m" for k
    using that
  proof (induction k)
    case (Suc k)
    then show ?case using run_step_historical_inv[of rb "?st k"] run[of k] by simp
  qed (use inv in simp)
  have later: "\<not> first_cycle (fst (rs_world (?st (Suc k))))" if "Suc k \<le> m" for k
  proof -
    obtain gs s where w: "rs_world (?st k) = (gs, s)" by fastforce
    have r: "rs_status (?st k) = Running" "rs_status (run_step ops rb False env (?st k)) = Running"
      using run[of k] run[of "Suc k"] that by simp_all
    then have go: "\<not> (rb_end_cycle rb \<le> rs_cycles (?st k) \<or> is_last_cycle gs \<and> rb_end_time rb \<le> gs_time gs)"
      by (auto simp: run_step_def w)
    have "run_inv sinv rb (?st k)" using invs[of k] that by simp
    from run_step_historical[OF this r(1) w go, of env] r(2) show ?thesis by simp
  qed
  have step: "gs_time (fst (rs_world (?st k))) < gs_time (fst (rs_world (?st (Suc k))))"
    if k: "0 < k" "Suc k \<le> m" for k
  proof -
    obtain k' where "k = Suc k'" using k(1) by (cases k) auto
    with later[of k'] k(2) have "\<not> first_cycle (fst (rs_world (?st k)))" by simp
    with run_step_time_increases[of rb "?st k" env] invs[of k] run[of k] run[of "Suc k"] small[of k] k(2)
    show ?thesis by simp
  qed
  show ?thesis
    using ij(2,3)
  proof (induction j)
    case (Suc j)
    with step[of j] ij(1) show ?case by (cases "i = j") (auto dest: order.strict_trans)
  qed simp
qed

end

section \<open>Lifecycle errors\<close>

text \<open>
  \<open>first_error\<close> is \<open>Ok\<close> exactly when every phase is, and otherwise leads with the error of
  the earliest failing phase.
\<close>

fun root_error :: "anyhow \<Rightarrow> anyhow" where
  "root_error (ShutdownErrors primary extra) = primary"
| "root_error e = e"

lemma map_filter_errors_Nil:
  "List.map_filter (\<lambda>r. case r of Inl e \<Rightarrow> Some e | Inr _ \<Rightarrow> None) rs = [] \<longleftrightarrow> (\<forall>r \<in> set rs. \<not> isl r)"
  by (induction rs) (auto simp: map_filter_simps split: sum.splits option.splits)

lemma first_error_ok: "first_error rs = Inr () \<longleftrightarrow> (\<forall>r \<in> set rs. \<not> isl r)"
  unfolding map_filter_errors_Nil[symmetric] by (auto simp: first_error_def split: list.splits)

lemma first_error_keeps_all:
  "first_error rs = Inl e \<Longrightarrow>
   (case e of ShutdownErrors p es \<Rightarrow> p # es | _ \<Rightarrow> [e]) =
     List.map_filter (\<lambda>r. case r of Inl e \<Rightarrow> Some e | Inr _ \<Rightarrow> None) rs \<or>
   List.map_filter (\<lambda>r. case r of Inl e \<Rightarrow> Some e | Inr _ \<Rightarrow> None) rs = [e]"
  by (auto simp: first_error_def split: list.splits)

lemma first_error_cases:
  "filter isl rs = [] \<Longrightarrow> first_error rs = Inr ()"
  "filter isl rs = map Inl (e # es) \<Longrightarrow> first_error rs = Inl (if es = [] then e else ShutdownErrors e es)"
proof -
  have "map Inl (List.map_filter (\<lambda>r. case r of Inl e \<Rightarrow> Some e | Inr _ \<Rightarrow> None) rs) = filter isl rs" for rs :: "(anyhow + unit) list"
    by (induction rs) (auto simp: List.map_filter_simps split: sum.splits)
  then have f: "filter isl rs = map Inl es \<longleftrightarrow> List.map_filter (\<lambda>r. case r of Inl e \<Rightarrow> Some e | Inr _ \<Rightarrow> None) rs = es" for es
    by (metis inj_Inl map_injective)
  show "filter isl rs = [] \<Longrightarrow> first_error rs = Inr ()" using f[of "[]"] by (simp add: first_error_def)
  show "filter isl rs = map Inl (e # es) \<Longrightarrow> first_error rs = Inl (if es = [] then e else ShutdownErrors e es)"
    using f[of "e # es"] by (auto simp: first_error_def split: list.splits)
qed

text \<open>The phases of a run whose \<open>setup\<close> succeeded.\<close>

lemma run_phases:
  assumes "run ops now env w = Some (w', r)" "wiring_error (fst w) = None" "setup_nodes ops w = Some (w1, Inr ())"
  obtains w2 r2 w3 r3 w4 r4 r5 where "start_nodes ops w1 = Some (w2, r2)"
    "if isl r2 then w3 = w2 \<and> r3 = Inr () else run_nodes ops now env w2 = Some (w3, r3)"
    "stop_nodes ops w3 = Some (w4, r4)" "teardown_nodes ops w4 = Some (w', r5)" "r = first_error [r2, r3, r4, r5]"
proof -
  note run = assms(1)[unfolded run_def assms(2) option.case and_then_def assms(3) sum.case prod.case]
  obtain w2 r2 where 2: "start_nodes ops w1 = Some (w2, r2)"
    using run by (cases "start_nodes ops w1") auto
  define m where "m = (if isl r2 then Some (w2, Inr ()) else run_nodes ops now env w2)"
  obtain w3 r3 where 3: "m = Some (w3, r3)"
    using run by (cases m) (auto simp: 2 m_def[symmetric])
  obtain w4 r4 where 4: "stop_nodes ops w3 = Some (w4, r4)"
    using run by (cases "stop_nodes ops w3") (auto simp: 2 3 m_def[symmetric])
  obtain w5 r5 where 5: "teardown_nodes ops w4 = Some (w5, r5)"
    using run by (cases "teardown_nodes ops w4") (auto simp: 2 3 4 m_def[symmetric])
  have r: "w' = w5" "r = first_error [r2, r3, r4, r5]"
    using run by (simp_all add: 2 3 4 5 m_def[symmetric])
  have "if isl r2 then w3 = w2 \<and> r3 = Inr () else run_nodes ops now env w2 = Some (w3, r3)"
    using 3 by (simp add: m_def split: if_splits)
  with 2 4 5 r show thesis by (intro that) auto
qed

section \<open>What a phase leaves behind\<close>

text \<open>
  What a phase of the lifecycle leaves behind. \<open>establishes f P\<close>: a call of \<open>f\<close> on a node that
  succeeds makes \<open>P\<close> true of the node; \<open>maintains f P\<close>: no call of \<open>f\<close> on any node, failing or not,
  makes it false again.
\<close>

definition establishes :: "(node \<Rightarrow> ('s, unit) node_call) \<Rightarrow> (node \<Rightarrow> 's \<Rightarrow> bool) \<Rightarrow> bool" where
  "establishes f P \<longleftrightarrow> (\<forall>n gs s s' cs. f n gs s = Some (s', cs, Inr ()) \<longrightarrow> P n s')"

definition maintains :: "(node \<Rightarrow> ('s, unit) node_call) \<Rightarrow> (node \<Rightarrow> 's \<Rightarrow> bool) \<Rightarrow> bool" where
  "maintains f P \<longleftrightarrow> (\<forall>m n gs s s' cs r. P n s \<longrightarrow> f m gs s = Some (s', cs, r) \<longrightarrow> P n s')"

text \<open>\<open>P\<close> holds of the active nodes before index \<open>k\<close>.\<close>

definition active_upto :: "nat \<Rightarrow> (node \<Rightarrow> 's \<Rightarrow> bool) \<Rightarrow> node_data list \<Rightarrow> 's \<Rightarrow> bool" where
  "active_upto k P ns s \<longleftrightarrow> (\<forall>i < k. i < length ns \<longrightarrow> nd_active (ns ! i) \<longrightarrow> P (nd_node (ns ! i)) s)"

lemma apply_node_step:
  assumes "apply_node f desc ix w = Some (w', r)"
  shows "nodes (fst w') = nodes (fst w)"
    and "maintains f P \<Longrightarrow> P n (snd w) \<Longrightarrow> P n (snd w')"
    and "establishes f P \<Longrightarrow> r = Inr () \<Longrightarrow> nd_active (nodes (fst w) ! ix) \<Longrightarrow> P (nd_node (nodes (fst w) ! ix)) (snd w')"
    and "r = Inl e \<Longrightarrow> \<exists>e'. e = ErrorDuring desc ix e'"
proof -
  let ?n = "nd_node (nodes (fst w) ! ix)" and ?gs = "(fst w)\<lparr>current_node_index := Some ix\<rparr>"
  have "nodes (fst w') = nodes (fst w) \<and> (maintains f P \<longrightarrow> P n (snd w) \<longrightarrow> P n (snd w')) \<and>
    (establishes f P \<longrightarrow> r = Inr () \<longrightarrow> nd_active (nodes (fst w) ! ix) \<longrightarrow> P ?n (snd w')) \<and>
    (r = Inl e \<longrightarrow> (\<exists>e'. e = ErrorDuring desc ix e'))"
  proof (cases "nd_active (nodes (fst w) ! ix)")
    case True
    with assms have call: "call_phase f desc ix ?n w = Some (w', r)" by (simp add: apply_node_def split: if_splits)
    then obtain s' cs r0 gs' where f: "f ?n ?gs (snd w) = Some (s', cs, r0)" "run_cmds cs ?gs = Some gs'"
      by (auto simp: call_phase_def call_node_def map_err_def and_then_def bind_eq_Some_conv split: option.splits)
    with call have w': "snd w' = s'" "nodes (fst w') = nodes gs'" "r = Inr () \<longrightarrow> r0 = Inr ()"
      "r = Inl e \<longrightarrow> (\<exists>e'. e = ErrorDuring desc ix e')"
      by (cases r0; auto simp: call_phase_def call_node_def map_err_def and_then_def)+
    have "P n (snd w')" if "maintains f P" "P n (snd w)"
      using that f(1) unfolding maintains_def w'(1) by blast
    moreover have "P ?n (snd w')" if "establishes f P" "r = Inr ()"
      using that f(1) w'(3) unfolding establishes_def w'(1) by blast
    ultimately show ?thesis using run_cmds_frame(1)[OF f(2)] w'(2,4) by simp
  qed (use assms in \<open>auto simp: apply_node_def split: if_splits\<close>)
  then show "nodes (fst w') = nodes (fst w)" "maintains f P \<Longrightarrow> P n (snd w) \<Longrightarrow> P n (snd w')"
    "establishes f P \<Longrightarrow> r = Inr () \<Longrightarrow> nd_active (nodes (fst w) ! ix) \<Longrightarrow> P ?n (snd w')"
    "r = Inl e \<Longrightarrow> \<exists>e'. e = ErrorDuring desc ix e'" by blast+
qed

lemma apply_nodes_reaches:
  assumes "for_each (apply_node f desc) [k ..< length (nodes (fst w))] w = Some (w', r)" "establishes f P" "maintains f P"
    "active_upto k P (nodes (fst w)) (snd w)"
  shows "nodes (fst w') = nodes (fst w) \<and> (r = Inr () \<longrightarrow> active_upto (length (nodes (fst w))) P (nodes (fst w)) (snd w')) \<and>
    (\<forall>e. r = Inl e \<longrightarrow> (\<exists>ix e'. e = ErrorDuring desc ix e' \<and> ix < length (nodes (fst w)) \<and> active_upto ix P (nodes (fst w)) (snd w')))"
  using assms(1,4)
proof (induction "length (nodes (fst w)) - k" arbitrary: k w)
  case 0
  then show ?case by (auto simp: active_upto_def)
next
  case (Suc d)
  then have k: "k < length (nodes (fst w))" by linarith
  obtain w1 r1 where 1: "apply_node f desc k w = Some (w1, r1)"
    "(case r1 of Inl e \<Rightarrow> Some (w1, Inl e) | Inr _ \<Rightarrow> for_each (apply_node f desc) [Suc k ..< length (nodes (fst w))] w1) = Some (w', r)"
    using Suc.prems(1) k by (auto simp: upt_conv_Cons and_then_def split: option.splits prod.splits)
  note step = apply_node_step[OF 1(1)]
  have upto: "active_upto k P (nodes (fst w)) (snd w1)"
    using Suc.prems(2) step(2)[OF assms(3)] by (simp add: active_upto_def)
  show ?case
  proof (cases r1)
    case (Inl e)
    with 1(2) step(1,4) upto k show ?thesis by auto
  next
    case (Inr u)
    have "active_upto (Suc k) P (nodes (fst w1)) (snd w1)"
      using upto step(1) step(3)[OF assms(2)] Inr by (auto simp: active_upto_def less_Suc_eq)
    with Suc.hyps(1)[of w1 "Suc k"] Suc.hyps(2) 1(2) Inr step(1) show ?thesis by auto
  qed
qed

lemma apply_nodes_keeps:
  assumes "apply_nodes f desc w = Some (w', r)" "maintains f P" "P n (snd w)"
  shows "P n (snd w')"
proof -
  have "P n (snd w')" if "for_each (apply_node f desc) ixs w = Some (w', r)" "P n (snd w)" for ixs w
    using that
  proof (induction ixs arbitrary: w)
    case (Cons ix ixs)
    then obtain w1 r1 where 1: "apply_node f desc ix w = Some (w1, r1)"
      "(case r1 of Inl e \<Rightarrow> Some (w1, Inl e) | Inr _ \<Rightarrow> for_each (apply_node f desc) ixs w1) = Some (w', r)"
      by (auto simp: and_then_def split: option.splits prod.splits)
    with Cons.IH[of w1] apply_node_step(2)[OF 1(1) assms(2) Cons.prems(2)] show ?case by (cases r1) auto
  qed simp
  with assms(1,3) show ?thesis by (auto simp: apply_nodes_def)
qed

end
