(* ===== verification/Operators.thy ===== *)
theory Operators
  imports Graph_State
begin

text \<open>
  The stream operators of \<^verbatim>\<open>src/wingfoil/src/nodes/\<close> that transform values: one record per
  struct, one function per method. \<open>peek n\<close> is \<^verbatim>\<open>n.peek_value()\<close> of an upstream (of the type
  the upstream carries), closures are functions, and a closure that may fail returns a sum.
  A \<^verbatim>\<open>cycle\<close> returns the new node state and whether it ticks; where it can fail the second
  component is a sum, and where it calls the graph state the calls are returned too.

  The second half runs each operator over a whole sequence of upstream ticks (\<open>emits\<close>) and
  shows what the emitted sequence is as a function of the input sequence.
\<close>

section \<open>Operators without memory\<close>

record ('a, 'b) map_stream =
  mp_upstream :: node
  mp_value :: 'b
  mp_func :: "'a \<Rightarrow> 'b"

definition map_cycle :: "(node \<Rightarrow> 'a) \<Rightarrow> ('a, 'b) map_stream \<Rightarrow> ('a, 'b) map_stream \<times> bool" where
  "map_cycle peek st = (st\<lparr>mp_value := mp_func st (peek (mp_upstream st))\<rparr>, True)"

record ('a, 'b) try_map_stream =
  tm_upstream :: node
  tm_value :: 'b
  tm_func :: "'a \<Rightarrow> anyhow + 'b"

definition try_map_cycle ::
  "(node \<Rightarrow> 'a) \<Rightarrow> ('a, 'b) try_map_stream \<Rightarrow> ('a, 'b) try_map_stream \<times> (anyhow + bool)" where
  "try_map_cycle peek st = (case tm_func st (peek (tm_upstream st)) of
       Inl e \<Rightarrow> (st, Inl e) | Inr v \<Rightarrow> (st\<lparr>tm_value := v\<rparr>, Inr True))"

record ('a, 'b) map_filter_stream =
  mf_upstream :: node
  mf_value :: 'b
  mf_func :: "'a \<Rightarrow> 'b \<times> bool"

definition map_filter_cycle ::
  "(node \<Rightarrow> 'a) \<Rightarrow> ('a, 'b) map_filter_stream \<Rightarrow> ('a, 'b) map_filter_stream \<times> bool" where
  "map_filter_cycle peek st = (case mf_func st (peek (mf_upstream st)) of
       (v, tick) \<Rightarrow> (if tick then st\<lparr>mf_value := v\<rparr> else st, tick))"

record 'a filter_stream =
  fi_source :: node
  fi_condition :: node
  fi_value :: 'a

definition filter_cycle ::
  "(node \<Rightarrow> 'a) \<Rightarrow> (node \<Rightarrow> bool) \<Rightarrow> 'a filter_stream \<Rightarrow> 'a filter_stream \<times> bool" where
  "filter_cycle peek peek_bool st = (let val = peek (fi_source st); tick = peek_bool (fi_condition st)
     in (if tick then st\<lparr>fi_value := val\<rparr> else st, tick))"

record 'a sample_stream =
  sa_upstream :: node
  sa_trigger :: node
  sa_value :: 'a

definition sample_cycle :: "(node \<Rightarrow> 'a) \<Rightarrow> 'a sample_stream \<Rightarrow> 'a sample_stream \<times> bool" where
  "sample_cycle peek st = (st\<lparr>sa_value := peek (sa_upstream st)\<rparr>, True)"

record 'a with_time_stream =
  wt_upstream :: node
  wt_value :: "nanotime \<times> 'a"

definition with_time_cycle ::
  "(node \<Rightarrow> 'a) \<Rightarrow> graph_state \<Rightarrow> 'a with_time_stream \<Rightarrow> 'a with_time_stream \<times> bool" where
  "with_time_cycle peek gs st = (st\<lparr>wt_value := (gs_time gs, peek (wt_upstream st))\<rparr>, True)"

text \<open>The closure of \<^verbatim>\<open>inspect\<close> is called for its effect alone: the values it is called with are kept.\<close>

record 'a inspect_stream =
  in_upstream :: node
  in_value :: 'a
  in_calls :: "'a list"

definition inspect_cycle :: "(node \<Rightarrow> 'a) \<Rightarrow> 'a inspect_stream \<Rightarrow> 'a inspect_stream \<times> bool" where
  "inspect_cycle peek st = (let v = peek (in_upstream st) in
     (st\<lparr>in_value := v, in_calls := in_calls st @ [v]\<rparr>, True))"

record 'a print_stream =
  pr_upstream :: node
  pr_buffer :: "'a list"
  pr_value :: 'a

definition print_cycle :: "(node \<Rightarrow> 'a) \<Rightarrow> 'a print_stream \<Rightarrow> 'a print_stream \<times> bool" where
  "print_cycle peek st = (let v = peek (pr_upstream st) in
     (st\<lparr>pr_value := v, pr_buffer := pr_buffer st @ [v]\<rparr>, True))"

text \<open>\<^verbatim>\<open>Drop for PrintStream\<close>: the lines printed when the node is dropped.\<close>

definition print_drop :: "('a \<Rightarrow> string) \<Rightarrow> 'a print_stream \<Rightarrow> string list" where
  "print_drop show_val st = map show_val (pr_buffer st)"

section \<open>Operators over several upstreams\<close>

datatype dep = Active node | Passive node

fun dep_node :: "dep \<Rightarrow> node" where
  "dep_node (Active n) = n"
| "dep_node (Passive n) = n"

fun dep_is_active :: "dep \<Rightarrow> bool" where
  "dep_is_active (Active n) \<longleftrightarrow> True"
| "dep_is_active (Passive n) \<longleftrightarrow> False"

text \<open>\<^verbatim>\<open>partition(|(_, active)| *active)\<close>: the active upstreams, then the passive ones.\<close>

definition dep_upstreams :: "dep list \<Rightarrow> node list \<times> node list" where
  "dep_upstreams ds = (map dep_node (filter dep_is_active ds), map dep_node (filter (Not \<circ> dep_is_active) ds))"

record ('a, 'b, 'c) bimap_stream =
  bm_upstream1 :: dep
  bm_upstream2 :: dep
  bm_value :: 'c
  bm_func :: "'a \<Rightarrow> 'b \<Rightarrow> 'c"

definition bimap_upstreams :: "('a, 'b, 'c) bimap_stream \<Rightarrow> node list \<times> node list" where
  "bimap_upstreams st = dep_upstreams [bm_upstream1 st, bm_upstream2 st]"

definition bimap_cycle :: "(node \<Rightarrow> 'a) \<Rightarrow> (node \<Rightarrow> 'b) \<Rightarrow> ('a, 'b, 'c) bimap_stream \<Rightarrow>
    ('a, 'b, 'c) bimap_stream \<times> bool" where
  "bimap_cycle peek1 peek2 st = (st\<lparr>bm_value := bm_func st (peek1 (dep_node (bm_upstream1 st)))
     (peek2 (dep_node (bm_upstream2 st)))\<rparr>, True)"

record ('a, 'b, 'c, 'd) trimap_stream =
  tr_upstream1 :: dep
  tr_upstream2 :: dep
  tr_upstream3 :: dep
  tr_value :: 'd
  tr_func :: "'a \<Rightarrow> 'b \<Rightarrow> 'c \<Rightarrow> 'd"

definition trimap_upstreams :: "('a, 'b, 'c, 'd) trimap_stream \<Rightarrow> node list \<times> node list" where
  "trimap_upstreams st = dep_upstreams [tr_upstream1 st, tr_upstream2 st, tr_upstream3 st]"

definition trimap_cycle :: "(node \<Rightarrow> 'a) \<Rightarrow> (node \<Rightarrow> 'b) \<Rightarrow> (node \<Rightarrow> 'c) \<Rightarrow> ('a, 'b, 'c, 'd) trimap_stream \<Rightarrow>
    ('a, 'b, 'c, 'd) trimap_stream \<times> bool" where
  "trimap_cycle peek1 peek2 peek3 st = (st\<lparr>tr_value := tr_func st (peek1 (dep_node (tr_upstream1 st)))
     (peek2 (dep_node (tr_upstream2 st))) (peek3 (dep_node (tr_upstream3 st)))\<rparr>, True)"

record ('a, 'b, 'c) try_bimap_stream =
  tb_upstream1 :: dep
  tb_upstream2 :: dep
  tb_value :: 'c
  tb_func :: "'a \<Rightarrow> 'b \<Rightarrow> anyhow + 'c"

definition try_bimap_upstreams :: "('a, 'b, 'c) try_bimap_stream \<Rightarrow> node list \<times> node list" where
  "try_bimap_upstreams st = dep_upstreams [tb_upstream1 st, tb_upstream2 st]"

definition try_bimap_cycle :: "(node \<Rightarrow> 'a) \<Rightarrow> (node \<Rightarrow> 'b) \<Rightarrow> ('a, 'b, 'c) try_bimap_stream \<Rightarrow>
    ('a, 'b, 'c) try_bimap_stream \<times> (anyhow + bool)" where
  "try_bimap_cycle peek1 peek2 st =
     (case tb_func st (peek1 (dep_node (tb_upstream1 st))) (peek2 (dep_node (tb_upstream2 st))) of
        Inl e \<Rightarrow> (st, Inl e) | Inr v \<Rightarrow> (st\<lparr>tb_value := v\<rparr>, Inr True))"

record ('a, 'b, 'c, 'd) try_trimap_stream =
  tt_upstream1 :: dep
  tt_upstream2 :: dep
  tt_upstream3 :: dep
  tt_value :: 'd
  tt_func :: "'a \<Rightarrow> 'b \<Rightarrow> 'c \<Rightarrow> anyhow + 'd"

definition try_trimap_upstreams :: "('a, 'b, 'c, 'd) try_trimap_stream \<Rightarrow> node list \<times> node list" where
  "try_trimap_upstreams st = dep_upstreams [tt_upstream1 st, tt_upstream2 st, tt_upstream3 st]"

definition try_trimap_cycle :: "(node \<Rightarrow> 'a) \<Rightarrow> (node \<Rightarrow> 'b) \<Rightarrow> (node \<Rightarrow> 'c) \<Rightarrow>
    ('a, 'b, 'c, 'd) try_trimap_stream \<Rightarrow> ('a, 'b, 'c, 'd) try_trimap_stream \<times> (anyhow + bool)" where
  "try_trimap_cycle peek1 peek2 peek3 st =
     (case tt_func st (peek1 (dep_node (tt_upstream1 st))) (peek2 (dep_node (tt_upstream2 st)))
        (peek3 (dep_node (tt_upstream3 st))) of
        Inl e \<Rightarrow> (st, Inl e) | Inr v \<Rightarrow> (st\<lparr>tt_value := v\<rparr>, Inr True))"

text \<open>
  \<^verbatim>\<open>MergeStream\<close>: the indices of the upstreams are resolved on the first cycle; \<open>None\<close> is the
  failed \<^verbatim>\<open>expect\<close> or an index out of range.
\<close>

record 'a merge_stream =
  mg_upstreams :: "node list"
  mg_upstream_indices :: "nat list"
  mg_value :: 'a

fun resolve_all :: "graph_state \<Rightarrow> node list \<Rightarrow> nat list option" where
  "resolve_all gs [] = Some []"
| "resolve_all gs (n # ns) = do { i \<leftarrow> node_index gs n; is \<leftarrow> resolve_all gs ns; Some (i # is) }"

fun first_ticked :: "graph_state \<Rightarrow> (node \<times> nat) list \<Rightarrow> node option option" where
  "first_ticked gs [] = Some None"
| "first_ticked gs ((n, i) # ps) = do {
     t \<leftarrow> node_index_ticked gs i; if t then Some (Some n) else first_ticked gs ps }"

definition merge_cycle ::
  "(node \<Rightarrow> 'a) \<Rightarrow> graph_state \<Rightarrow> 'a merge_stream \<Rightarrow> ('a merge_stream \<times> bool) option" where
  "merge_cycle peek gs st = do {
     is \<leftarrow> (if mg_upstream_indices st = [] \<and> mg_upstreams st \<noteq> [] then resolve_all gs (mg_upstreams st)
            else Some (mg_upstream_indices st));
     let st1 = st\<lparr>mg_upstream_indices := is\<rparr>;
     m \<leftarrow> first_ticked gs (zip (mg_upstreams st1) is);
     Some (case m of None \<Rightarrow> (st1, False) | Some n \<Rightarrow> (st1\<lparr>mg_value := peek n\<rparr>, True)) }"

section \<open>Operators with memory\<close>

text \<open>The \<^verbatim>\<open>&mut OUT\<close> argument of the closure of \<^verbatim>\<open>fold\<close> is passed and returned.\<close>

record ('a, 'b) fold_stream =
  fo_upstream :: node
  fo_func :: "'b \<Rightarrow> 'a \<Rightarrow> 'b"
  fo_value :: 'b

definition fold_cycle :: "(node \<Rightarrow> 'a) \<Rightarrow> ('a, 'b) fold_stream \<Rightarrow> ('a, 'b) fold_stream \<times> bool" where
  "fold_cycle peek st = (st\<lparr>fo_value := fo_func st (fo_value st) (peek (fo_upstream st))\<rparr>, True)"

record 'a limit_stream =
  li_source :: node
  li_limit :: u32
  li_tick_count :: u32
  li_value :: 'a

definition limit_cycle :: "(node \<Rightarrow> 'a) \<Rightarrow> 'a limit_stream \<Rightarrow> 'a limit_stream \<times> bool" where
  "limit_cycle peek st =
     (if li_limit st \<le> li_tick_count st then (st, False)
      else (st\<lparr>li_tick_count := li_tick_count st + 1, li_value := peek (li_source st)\<rparr>, True))"

text \<open>\<^verbatim>\<open>PartialEq\<close> of the element type is the argument \<open>eq\<close>.\<close>

record 'a distinct_stream =
  di_source :: node
  di_value :: 'a
  di_last :: "'a option"

definition distinct_cycle ::
  "('a \<Rightarrow> 'a \<Rightarrow> bool) \<Rightarrow> (node \<Rightarrow> 'a) \<Rightarrow> 'a distinct_stream \<Rightarrow> 'a distinct_stream \<times> bool" where
  "distinct_cycle eq peek st = (let curr = peek (di_source st) in
     if (case di_last st of None \<Rightarrow> False | Some l \<Rightarrow> eq l curr) then (st, False)
     else (st\<lparr>di_last := Some curr, di_value := curr\<rparr>, True))"

record 'a difference_stream =
  df_upstream :: node
  df_diff :: 'a
  df_prev_val :: "'a option"

definition difference_cycle ::
  "('a \<Rightarrow> 'a \<Rightarrow> 'a) \<Rightarrow> (node \<Rightarrow> 'a) \<Rightarrow> 'a difference_stream \<Rightarrow> 'a difference_stream \<times> bool" where
  "difference_cycle sub peek st = (let v = peek (df_upstream st) in
     case df_prev_val st of
       Some prv \<Rightarrow> (st\<lparr>df_diff := sub v prv, df_prev_val := Some v\<rparr>, True)
     | None \<Rightarrow> (st\<lparr>df_prev_val := Some v\<rparr>, False))"

record 'a buffer_stream =
  bu_upstream :: node
  bu_capacity :: nat
  bu_buffer :: "'a list"
  bu_value :: "'a list"

definition buffer_new :: "nat \<Rightarrow> node \<Rightarrow> nat \<Rightarrow> 'a buffer_stream option" where
  "buffer_new elem_size upstream capacity = do {
     buffer \<leftarrow> vec_with_capacity elem_size capacity;
     Some \<lparr>bu_upstream = upstream, bu_capacity = capacity, bu_buffer = buffer, bu_value = []\<rparr>
   }"

text \<open>The \<^verbatim>\<open>assert!\<close> holds: the buffer has just been pushed to.\<close>

definition buffer_cycle ::
  "(node \<Rightarrow> 'a) \<Rightarrow> graph_state \<Rightarrow> 'a buffer_stream \<Rightarrow> 'a buffer_stream \<times> bool" where
  "buffer_cycle peek gs st = (let buf = bu_buffer st @ [peek (bu_upstream st)] in
     if bu_capacity st \<le> length buf \<or> buf \<noteq> [] \<and> is_last_cycle gs
     then (st\<lparr>bu_value := buf, bu_buffer := []\<rparr>, True)
     else (st\<lparr>bu_buffer := buf\<rparr>, False))"

record 'a window_stream =
  wn_upstream :: node
  wn_interval :: nanotime
  wn_next_window :: nanotime
  wn_buffer :: "'a list"
  wn_value :: "'a list"

definition window_new :: "node \<Rightarrow> nanotime \<Rightarrow> 'a window_stream" where
  "window_new upstream interval = \<lparr>wn_upstream = upstream, wn_interval = interval,
     wn_next_window = nano_zero, wn_buffer = [], wn_value = []\<rparr>"

definition window_start :: "graph_state \<Rightarrow> 'a window_stream \<Rightarrow> 'a window_stream" where
  "window_start gs st = st\<lparr>wn_next_window := nano_add (gs_time gs) (wn_interval st)\<rparr>"

text \<open>The loop that moves the boundary past the clock; \<open>None\<close> when it never ends.\<close>

definition advance_window :: "nanotime \<Rightarrow> nanotime \<Rightarrow> nanotime \<Rightarrow> nanotime option" where
  "advance_window now interval nxt = while_option (\<lambda>n. n \<le> now) (\<lambda>n. nano_add n interval) nxt"

definition window_cycle ::
  "(node \<Rightarrow> 'a) \<Rightarrow> graph_state \<Rightarrow> 'a window_stream \<Rightarrow> ('a window_stream \<times> bool) option" where
  "window_cycle peek gs st = do {
     (st1, flushed) \<leftarrow>
       (if wn_next_window st \<le> gs_time gs then do {
          let (st0, f) = (if wn_buffer st \<noteq> [] then (st\<lparr>wn_value := wn_buffer st, wn_buffer := []\<rparr>, True)
                          else (st, False));
          next \<leftarrow> advance_window (gs_time gs) (wn_interval st) (wn_next_window st);
          Some (st0\<lparr>wn_next_window := next\<rparr>, f) }
        else Some (st, False));
     let st2 = st1\<lparr>wn_buffer := wn_buffer st1 @ [peek (wn_upstream st1)]\<rparr>;
     Some (if \<not> flushed \<and> is_last_cycle gs \<and> wn_buffer st2 \<noteq> []
           then (st2\<lparr>wn_value := wn_buffer st2, wn_buffer := []\<rparr>, True) else (st2, flushed)) }"

record 'a throttle_stream =
  th_upstream :: node
  th_interval :: nanotime
  th_last_emit_time :: "nanotime option"
  th_value :: 'a

definition should_emit :: "nanotime \<Rightarrow> nanotime \<Rightarrow> nanotime option \<Rightarrow> bool" where
  "should_emit interval now last_emit = (case last_emit of None \<Rightarrow> True | Some l \<Rightarrow> interval \<le> nano_sub now l)"

definition throttle_cycle ::
  "(node \<Rightarrow> 'a) \<Rightarrow> graph_state \<Rightarrow> 'a throttle_stream \<Rightarrow> 'a throttle_stream \<times> bool" where
  "throttle_cycle peek gs st = (let now = gs_time gs in
     if should_emit (th_interval st) now (th_last_emit_time st)
     then (st\<lparr>th_value := peek (th_upstream st), th_last_emit_time := Some now\<rparr>, True)
     else (st, False))"

section \<open>Nodes that carry no value\<close>

record throttle_node =
  tn_upstream :: node
  tn_interval :: nanotime
  tn_last_emit_time :: "nanotime option"

definition throttle_node_cycle :: "graph_state \<Rightarrow> throttle_node \<Rightarrow> throttle_node \<times> bool" where
  "throttle_node_cycle gs st = (let now = gs_time gs; emit = should_emit (tn_interval st) now (tn_last_emit_time st)
     in (if emit then st\<lparr>tn_last_emit_time := Some now\<rparr> else st, emit))"

record limit_node =
  ln_upstream :: node
  ln_limit :: u32
  ln_tick_count :: u32

definition limit_node_cycle :: "limit_node \<Rightarrow> limit_node \<times> bool" where
  "limit_node_cycle st = (if ln_limit st \<le> ln_tick_count st then (st, False)
     else (st\<lparr>ln_tick_count := ln_tick_count st + 1\<rparr>, True))"

record filter_node =
  fn_upstream :: node
  fn_condition :: node

definition filter_node_cycle :: "(node \<Rightarrow> bool) \<Rightarrow> filter_node \<Rightarrow> filter_node \<times> bool" where
  "filter_node_cycle peek_bool st = (st, peek_bool (fn_condition st))"

text \<open>Consumers call a closure with the value and the time; the calls are kept.\<close>

record 'a consumer_node =
  cn_upstream :: node
  cn_calls :: "('a \<times> nanotime) list"

definition consumer_cycle :: "(node \<Rightarrow> 'a) \<Rightarrow> graph_state \<Rightarrow> 'a consumer_node \<Rightarrow> 'a consumer_node \<times> bool" where
  "consumer_cycle peek gs st =
     (st\<lparr>cn_calls := cn_calls st @ [(peek (cn_upstream st), gs_time gs)]\<rparr>, True)"

record 'a try_consumer_node =
  tc_upstream :: node
  tc_func :: "'a \<Rightarrow> nanotime \<Rightarrow> anyhow + unit"
  tc_calls :: "('a \<times> nanotime) list"

definition try_consumer_cycle ::
  "(node \<Rightarrow> 'a) \<Rightarrow> graph_state \<Rightarrow> 'a try_consumer_node \<Rightarrow> 'a try_consumer_node \<times> (anyhow + bool)" where
  "try_consumer_cycle peek gs st = (let v = peek (tc_upstream st); t = gs_time gs;
       st' = st\<lparr>tc_calls := tc_calls st @ [(v, t)]\<rparr>
     in case tc_func st v t of Inl e \<Rightarrow> (st', Inl e) | Inr _ \<Rightarrow> (st', Inr True))"

record 'a producer_stream =
  pd_upstream :: node
  pd_func :: "unit \<Rightarrow> 'a"
  pd_value :: 'a

definition producer_cycle :: "'a producer_stream \<Rightarrow> 'a producer_stream \<times> bool" where
  "producer_cycle st = (st\<lparr>pd_value := pd_func st ()\<rparr>, True)"

text \<open>\<^verbatim>\<open>Option<F>\<close> with \<^verbatim>\<open>F: FnOnce\<close>: the closure is taken by the first \<^verbatim>\<open>stop\<close>.\<close>

record 'a finally_node =
  fl_source :: node
  fl_finally :: "('a \<Rightarrow> graph_state \<Rightarrow> anyhow + unit) option"
  fl_value :: 'a

definition finally_cycle :: "(node \<Rightarrow> 'a) \<Rightarrow> 'a finally_node \<Rightarrow> 'a finally_node \<times> bool" where
  "finally_cycle peek st = (st\<lparr>fl_value := peek (fl_source st)\<rparr>, True)"

definition finally_stop :: "graph_state \<Rightarrow> 'a finally_node \<Rightarrow> 'a finally_node \<times> (anyhow + unit)" where
  "finally_stop gs st = (case fl_finally st of
       None \<Rightarrow> (st, Inr ())
     | Some f \<Rightarrow> (st\<lparr>fl_finally := None\<rparr>, f (fl_value st) gs))"


section \<open>Operators over a sequence of ticks\<close>

text \<open>
  \<open>emits step out xs st\<close>: the values an operator in state \<open>st\<close> emits over the upstream ticks
  \<open>xs\<close>; \<open>after\<close>: the state it is left in.
\<close>

fun emits :: "('i \<Rightarrow> 'st \<Rightarrow> 'st \<times> bool) \<Rightarrow> ('st \<Rightarrow> 'o) \<Rightarrow> 'i list \<Rightarrow> 'st \<Rightarrow> 'o list" where
  "emits step out [] st = []"
| "emits step out (x # xs) st =
     (let (st', t) = step x st in (if t then [out st'] else []) @ emits step out xs st')"

definition after :: "('i \<Rightarrow> 'st \<Rightarrow> 'st \<times> bool) \<Rightarrow> 'i list \<Rightarrow> 'st \<Rightarrow> 'st" where
  "after step xs st = foldl (\<lambda>st x. fst (step x st)) st xs"

lemma after_simps [simp]:
  "after step [] st = st" "after step (x # xs) st = after step xs (fst (step x st))"
  by (simp_all add: after_def)

lemma emits_append: "emits step out (xs @ ys) st = emits step out xs st @ emits step out ys (after step xs st)"
  by (induction xs arbitrary: st) (auto split: prod.splits)

lemma after_append: "after step (xs @ ys) st = after step ys (after step xs st)"
  by (simp add: after_def)

subsection \<open>Limit\<close>

lemma limit_emits:
  assumes "li_tick_count st \<le> li_limit st"
  shows "emits (\<lambda>x. limit_cycle (\<lambda>_. x)) li_value xs st =
    take (unat (li_limit st) - unat (li_tick_count st)) xs"
  using assms
proof (induction xs arbitrary: st)
  case Nil
  then show ?case by simp
next
  case (Cons x xs)
  show ?case
  proof (cases "li_limit st \<le> li_tick_count st")
    case True
    with Cons.prems have eq: "li_tick_count st = li_limit st" by simp
    have "emits (\<lambda>x. limit_cycle (\<lambda>_. x)) li_value ys st = []" for ys
      using eq by (induction ys) (simp_all add: limit_cycle_def)
    with eq show ?thesis by (simp del: emits.simps)
  next
    case False
    then have lt: "li_tick_count st < li_limit st" by simp
    from unat_Suc_no_wrap[OF lt] have u: "unat (li_tick_count st + 1) = Suc (unat (li_tick_count st))" .
    let ?st = "st\<lparr>li_tick_count := li_tick_count st + 1, li_value := x\<rparr>"
    have "unat (li_tick_count st) < unat (li_limit st)" using lt by (simp add: word_less_nat_alt)
    moreover have "li_tick_count ?st \<le> li_limit ?st" using lt u by (simp add: word_le_nat_alt word_less_nat_alt)
    ultimately show ?thesis using Cons.IH[of ?st] False u
      by (simp add: limit_cycle_def take_Cons' Suc_diff_Suc)
  qed
qed

subsection \<open>Distinct\<close>

lemma distinct_emits_after:
  assumes "di_last st = Some l"
  shows "l # emits (\<lambda>x. distinct_cycle (=) (\<lambda>_. x)) di_value xs st = remdups_adj (l # xs)"
  using assms
proof (induction xs arbitrary: st l)
  case Nil
  then show ?case by simp
next
  case (Cons x xs)
  show ?case
  proof (cases "l = x")
    case True
    with Cons show ?thesis by (simp add: distinct_cycle_def)
  next
    case False
    with Cons.prems Cons.IH[of "st\<lparr>di_last := Some x, di_value := x\<rparr>" x] show ?thesis
      by (simp add: distinct_cycle_def)
  qed
qed

lemma distinct_emits:
  assumes "di_last st = None"
  shows "emits (\<lambda>x. distinct_cycle (=) (\<lambda>_. x)) di_value xs st = remdups_adj xs"
proof (cases xs)
  case Nil
  then show ?thesis by simp
next
  case (Cons x ys)
  with assms distinct_emits_after[of "st\<lparr>di_last := Some x, di_value := x\<rparr>" x ys] show ?thesis
    by (simp add: distinct_cycle_def)
qed

subsection \<open>Difference\<close>

lemma difference_emits_after:
  "df_prev_val st = Some p \<Longrightarrow>
   emits (\<lambda>x. difference_cycle sub (\<lambda>_. x)) df_diff xs st = map2 sub xs (p # xs)"
proof (induction xs arbitrary: st p)
  case Nil
  then show ?case by simp
next
  case (Cons x xs)
  from Cons.IH[of "st\<lparr>df_diff := sub x p, df_prev_val := Some x\<rparr>" x] Cons.prems show ?case
    by (simp add: difference_cycle_def)
qed

lemma difference_emits:
  assumes "df_prev_val st = None"
  shows "emits (\<lambda>x. difference_cycle sub (\<lambda>_. x)) df_diff xs st = map2 sub (tl xs) xs"
proof (cases xs)
  case Nil
  then show ?thesis by simp
next
  case (Cons x ys)
  with assms difference_emits_after[of "st\<lparr>df_prev_val := Some x\<rparr>" x sub ys] show ?thesis
    by (simp add: difference_cycle_def)
qed

text \<open>The differences of a numeric stream add up to last minus first.\<close>

lemma sum_list_differences:
  fixes xs :: "'a::ab_group_add list"
  shows "sum_list (map2 (-) xs (p # xs)) = last (p # xs) - p"
  by (induction xs arbitrary: p) (auto simp: algebra_simps)

subsection \<open>Fold\<close>

lemma fold_emits:
  "emits (\<lambda>x. fold_cycle (\<lambda>_. x)) fo_value xs st =
   map (\<lambda>k. foldl (fo_func st) (fo_value st) (take (Suc k) xs)) [0 ..< length xs]"
proof (induction xs arbitrary: st)
  case Nil
  then show ?case by simp
next
  case (Cons x xs)
  have up: "[0 ..< length (x # xs)] = 0 # map Suc [0 ..< length xs]"
    by (simp add: upt_conv_Cons map_Suc_upt del: upt_Suc)
  from Cons.IH[of "st\<lparr>fo_value := fo_func st (fo_value st) x\<rparr>"] show ?case
    unfolding up by (simp add: fold_cycle_def)
qed

subsection \<open>Buffer\<close>

text \<open>Inputs are pairs of a last-cycle flag and a value.\<close>

definition buffer_step :: "graph_state \<times> 'a \<Rightarrow> 'a buffer_stream \<Rightarrow> 'a buffer_stream \<times> bool" where
  "buffer_step i st = buffer_cycle (\<lambda>_. snd i) (fst i) st"

lemma buffer_conserves:
  "concat (emits buffer_step bu_value xs st) @ bu_buffer (after buffer_step xs st) =
   bu_buffer st @ map snd xs"
proof (induction xs arbitrary: st)
  case Nil
  then show ?case by simp
next
  case (Cons i xs)
  show ?case
    using Cons.IH[of "fst (buffer_step i st)"]
    by (auto simp: buffer_step_def buffer_cycle_def Let_def split: prod.splits if_splits)
qed

lemma buffer_sizes:
  assumes "\<forall>i \<in> set xs. \<not> is_last_cycle (fst i)" "length (bu_buffer st) < max 1 (bu_capacity st)"
    "b \<in> set (emits buffer_step bu_value xs st)"
  shows "length b = max 1 (bu_capacity st)"
  using assms
proof (induction xs arbitrary: st)
  case Nil
  then show ?case by simp
next
  case (Cons i xs)
  let ?buf = "bu_buffer st @ [snd i]"
  show ?case
  proof (cases "bu_capacity st \<le> length ?buf")
    case True
    let ?st = "st\<lparr>bu_value := ?buf, bu_buffer := []\<rparr>"
    have "buffer_step i st = (?st, True)" using True by (simp add: buffer_step_def buffer_cycle_def Let_def)
    with Cons.prems(3) have "b = ?buf \<or> b \<in> set (emits buffer_step bu_value xs ?st)" by simp
    moreover have "length ?buf = max 1 (bu_capacity st)" using True Cons.prems(2) by auto
    ultimately show ?thesis using Cons.IH[of ?st] Cons.prems(1) by auto
  next
    case False
    let ?st = "st\<lparr>bu_buffer := ?buf\<rparr>"
    have "buffer_step i st = (?st, False)"
      using False Cons.prems(1) by (simp add: buffer_step_def buffer_cycle_def Let_def)
    with Cons.prems(3) have "b \<in> set (emits buffer_step bu_value xs ?st)" by simp
    with Cons.IH[of ?st] Cons.prems(1) False show ?thesis by auto
  qed
qed

lemma buffer_last_cycle_empties:
  assumes "is_last_cycle (fst i)"
  shows "bu_buffer (after buffer_step (xs @ [i]) st) = []"
  using assms by (simp add: after_def buffer_step_def buffer_cycle_def Let_def)


subsection \<open>Window\<close>

lemma advance_window_result:
  assumes "raw interval \<noteq> 0" "unat (raw now) + unat (raw interval) < 2 ^ 64"
    "unat (raw nxt) \<le> unat (raw now) + unat (raw interval)"
  shows "\<exists>n. advance_window now interval nxt = Some n \<and> now < n \<and>
    (\<exists>k. unat (raw n) = unat (raw nxt) + k * unat (raw interval)) \<and>
    (nxt \<le> now \<longrightarrow> unat (raw n) \<le> unat (raw now) + unat (raw interval))"
proof -
  let ?P = "\<lambda>n. (\<exists>k. unat (raw n) = unat (raw nxt) + k * unat (raw interval)) \<and>
    unat (raw n) \<le> unat (raw now) + unat (raw interval)"
  let ?f = "\<lambda>n. unat (raw now) + unat (raw interval) - unat (raw n)"
  have pos: "0 < unat (raw interval)" using assms(1) by (simp add: unat_gt_0)
  have le: "n \<le> now \<longleftrightarrow> unat (raw n) \<le> unat (raw now)" for n
    by (cases n; cases now) (simp add: word_le_nat_alt)
  have step: "?P (nano_add n interval) \<and> ?f (nano_add n interval) < ?f n" if "?P n" "n \<le> now" for n
  proof -
    have "unat (raw n) + unat (raw interval) < 2 ^ 64" using that(2) assms(2) le by fastforce
    then have u: "unat (raw (nano_add n interval)) = unat (raw n) + unat (raw interval)"
      by (simp add: nano_add_def unat_word_ariths)
    from that(1) obtain k where "unat (raw n) = unat (raw nxt) + k * unat (raw interval)" by blast
    then have "unat (raw (nano_add n interval)) = unat (raw nxt) + Suc k * unat (raw interval)"
      using u by simp
    moreover have "unat (raw n) \<le> unat (raw now)" using that(2) le by blast
    ultimately show ?thesis using u pos by (intro conjI) (blast, linarith+)
  qed
  have init: "?P nxt" using assms(3) by (auto intro: exI[of _ 0])
  obtain n where n: "advance_window now interval nxt = Some n"
    using measure_while_option_Some[of ?P "\<lambda>n. n \<le> now" "\<lambda>n. nano_add n interval" ?f nxt] step init
    unfolding advance_window_def by blast
  have "?P n" using while_option_rule[where P = ?P, OF _ n[unfolded advance_window_def]] step init by blast
  moreover have "now < n" using while_option_stop[OF n[unfolded advance_window_def]] by simp
  ultimately show ?thesis using n by blast
qed

text \<open>A zero interval never moves the boundary.\<close>

lemma advance_window_zero:
  assumes "nxt \<le> now"
  shows "advance_window now nano_zero nxt = None"
proof -
  have "((\<lambda>n. nano_add n nano_zero) ^^ k) nxt = nxt" for k
    by (induction k) (simp_all add: nano_add_def nano_zero_def)
  with assms show ?thesis by (simp add: advance_window_def while_option_def)
qed

lemma window_conserves:
  assumes "window_cycle peek gs st = Some (st', t)"
  shows "(if t then wn_value st' else []) @ wn_buffer st' = wn_buffer st @ [peek (wn_upstream st)]"
  using assms
  by (auto simp: window_cycle_def Let_def split: if_splits Option.bind_splits prod.splits)

lemma window_total:
  assumes "raw (wn_interval st) \<noteq> 0" "unat (raw (gs_time gs)) + unat (raw (wn_interval st)) < 2 ^ 64"
  shows "\<exists>st' t. window_cycle peek gs st = Some (st', t)"
proof (cases "wn_next_window st \<le> gs_time gs")
  case False
  then show ?thesis by (simp add: window_cycle_def Let_def)
next
  case True
  then have "unat (raw (wn_next_window st)) \<le> unat (raw (gs_time gs)) + unat (raw (wn_interval st))"
    by (cases "wn_next_window st"; cases "gs_time gs") (simp add: word_le_nat_alt)
  from advance_window_result[OF assms this] True show ?thesis
    by (auto simp: window_cycle_def Let_def)
qed

text \<open>
  A boundary crossed on the last cycle: the old buffer is emitted and the new value stays
  behind, although it is the last chance to emit it.
\<close>

lemma window_last_cycle_keeps_value:
  assumes "window_cycle peek gs st = Some (st', t)" "wn_next_window st \<le> gs_time gs"
    "wn_buffer st \<noteq> []"
  shows "t \<and> wn_value st' = wn_buffer st \<and> wn_buffer st' = [peek (wn_upstream st)]"
  using assms by (auto simp: window_cycle_def Let_def split: if_splits Option.bind_splits prod.splits)

subsection \<open>Throttle\<close>

definition throttle_step :: "graph_state \<times> 'a \<Rightarrow> 'a throttle_stream \<Rightarrow> 'a throttle_stream \<times> bool" where
  "throttle_step i st = throttle_cycle (\<lambda>_. snd i) (fst i) st"

definition throttle_out :: "'a throttle_stream \<Rightarrow> nanotime \<times> 'a" where
  "throttle_out st = (the (th_last_emit_time st), th_value st)"

fun spaced :: "nanotime \<Rightarrow> nanotime list \<Rightarrow> bool" where
  "spaced d (s # t # ts) \<longleftrightarrow> unat (raw s) + unat (raw d) \<le> unat (raw t) \<and> spaced d (t # ts)"
| "spaced d _ \<longleftrightarrow> True"

lemma should_emit_Some:
  assumes "l \<le> now"
  shows "should_emit d now (Some l) \<longleftrightarrow> unat (raw l) + unat (raw d) \<le> unat (raw now)"
proof -
  have "raw l \<le> raw now" using assms by (cases l; cases now) simp
  then have "unat (raw now - raw l) = unat (raw now) - unat (raw l)" by (rule unat_sub)
  with \<open>raw l \<le> raw now\<close> show ?thesis
    by (auto simp: should_emit_def nano_sub_def less_eq_nanotime_def word_le_nat_alt)
qed

lemma throttle_spaced_after:
  assumes "th_last_emit_time st = Some l" "sorted (l # map (\<lambda>i. gs_time (fst i)) xs)"
  shows "spaced (th_interval st) (l # map fst (emits throttle_step throttle_out xs st))"
  using assms
proof (induction xs arbitrary: st l)
  case Nil
  then show ?case by simp
next
  case (Cons i xs)
  have le: "l \<le> gs_time (fst i)" and srt: "sorted (gs_time (fst i) # map (\<lambda>i. gs_time (fst i)) xs)"
    "sorted (l # map (\<lambda>i. gs_time (fst i)) xs)" using Cons.prems(2) by auto
  show ?case
  proof (cases "should_emit (th_interval st) (gs_time (fst i)) (Some l)")
    case True
    let ?st = "st\<lparr>th_value := snd i, th_last_emit_time := Some (gs_time (fst i))\<rparr>"
    have "throttle_step i st = (?st, True)"
      using True Cons.prems(1) by (simp add: throttle_step_def throttle_cycle_def)
    with Cons.IH[of ?st "gs_time (fst i)"] srt(1) True should_emit_Some[OF le] show ?thesis
      by (simp add: throttle_out_def)
  next
    case False
    then have "throttle_step i st = (st, False)"
      using Cons.prems(1) by (simp add: throttle_step_def throttle_cycle_def)
    with Cons.IH[of st l] srt(2) Cons.prems(1) show ?thesis by simp
  qed
qed

text \<open>Every upstream tick lies within one interval after some emission.\<close>

lemma throttle_covers_after:
  assumes "th_last_emit_time st = Some l" "sorted (l # map (\<lambda>i. gs_time (fst i)) xs)" "i \<in> set xs"
  shows "\<exists>e \<in> insert l (fst ` set (emits throttle_step throttle_out xs st)). e \<le> gs_time (fst i) \<and>
    (unat (raw (gs_time (fst i))) < unat (raw e) + unat (raw (th_interval st)) \<or> e = gs_time (fst i))"
  using assms
proof (induction xs arbitrary: st l)
  case Nil
  then show ?case by simp
next
  case (Cons j xs)
  have le: "l \<le> gs_time (fst j)" and srt: "sorted (gs_time (fst j) # map (\<lambda>i. gs_time (fst i)) xs)"
    "sorted (l # map (\<lambda>i. gs_time (fst i)) xs)" using Cons.prems(2) by auto
  show ?case
  proof (cases "should_emit (th_interval st) (gs_time (fst j)) (Some l)")
    case True
    let ?st = "st\<lparr>th_value := snd j, th_last_emit_time := Some (gs_time (fst j))\<rparr>"
    have step: "throttle_step j st = (?st, True)"
      using True Cons.prems(1) by (simp add: throttle_step_def throttle_cycle_def)
    show ?thesis
    proof (cases "i = j")
      case True
      with step show ?thesis by (auto simp: throttle_out_def)
    next
      case False
      with Cons.IH[of ?st "gs_time (fst j)"] srt(1) Cons.prems(3) step show ?thesis
        by (simp add: throttle_out_def)
    qed
  next
    case False
    then have step: "throttle_step j st = (st, False)"
      using Cons.prems(1) by (simp add: throttle_step_def throttle_cycle_def)
    show ?thesis
    proof (cases "i = j")
      case True
      with False should_emit_Some[OF le] le show ?thesis by auto
    next
      case False
      with Cons.IH[of st l] srt(2) Cons.prems step show ?thesis by simp
    qed
  qed
qed


section \<open>Properties\<close>

text \<open>
  A fresh \<^verbatim>\<open>distinct\<close> emits the input with adjacent repetitions removed, its first value
  included even when it equals the default.
\<close>
lemma distinct_removes_repetitions:
  "emits (\<lambda>x. distinct_cycle (=) (\<lambda>_. x)) di_value xs \<lparr>di_source = n, di_value = v, di_last = None\<rparr> =
   remdups_adj xs"
  by (rule distinct_emits) simp

text \<open>A fresh \<^verbatim>\<open>limit\<close> emits the first \<open>limit\<close> values of its source and then nothing.\<close>
lemma limit_takes:
  "emits (\<lambda>x. limit_cycle (\<lambda>_. x)) li_value xs
     \<lparr>li_source = n, li_limit = k, li_tick_count = 0, li_value = v\<rparr> = take (unat k) xs"
  by (subst limit_emits) simp_all

text \<open>
  A fresh \<^verbatim>\<open>difference\<close> emits the differences of consecutive values; over a group they
  add up to the last value minus the first.
\<close>
lemma difference_telescopes:
  fixes x :: "'a::ab_group_add"
  shows "emits (\<lambda>x. difference_cycle (-) (\<lambda>_. x)) df_diff (x # xs) \<lparr>df_upstream = n, df_diff = d, df_prev_val = None\<rparr>
      = map2 (-) xs (x # xs) \<and>
    sum_list (emits (\<lambda>x. difference_cycle (-) (\<lambda>_. x)) df_diff (x # xs)
      \<lparr>df_upstream = n, df_diff = d, df_prev_val = None\<rparr>) = last (x # xs) - x"
proof -
  have "emits (\<lambda>x. difference_cycle (-) (\<lambda>_. x)) df_diff (x # xs) \<lparr>df_upstream = n, df_diff = d, df_prev_val = None\<rparr>
      = map2 (-) (tl (x # xs)) (x # xs)" by (rule difference_emits) simp
  then show ?thesis using sum_list_differences[of xs x] by (simp del: emits.simps)
qed

text \<open>\<^verbatim>\<open>fold\<close> emits the left fold of every non-empty prefix of its input.\<close>
lemma fold_emits_prefixes:
  "emits (\<lambda>x. fold_cycle (\<lambda>_. x)) fo_value xs st =
   map (\<lambda>k. foldl (fo_func st) (fo_value st) (take (Suc k) xs)) [0 ..< length xs]"
  by (rule fold_emits)

text \<open>
  \<^verbatim>\<open>buffer\<close> loses and reorders nothing: the emitted batches followed by what is still
  buffered are the input, and before the last cycle every batch has exactly the capacity
  (at least one element).
\<close>
lemma buffer_batches:
  assumes "\<forall>i \<in> set xs. \<not> is_last_cycle (fst i)" "buffer_new elem_size n c = Some st"
  shows "concat (emits buffer_step bu_value xs st) @ bu_buffer (after buffer_step xs st) = map snd xs \<and>
    (\<forall>b \<in> set (emits buffer_step bu_value xs st). length b = max 1 c)"
  using buffer_conserves[of xs st] buffer_sizes[OF assms(1), of st] assms(2)
  by (auto simp: buffer_new_def split: Option.bind_splits)

text \<open>
  A cycle of \<^verbatim>\<open>window\<close> with a non-zero interval (and a clock that leaves room for one
  interval) returns and conserves the data: what it emits followed by what it keeps is what it
  kept followed by the new value.
\<close>
lemma window_total_conserving:
  assumes "raw (wn_interval st) \<noteq> 0" "unat (raw (gs_time gs)) + unat (raw (wn_interval st)) < 2 ^ 64"
  shows "\<exists>st' t. window_cycle peek gs st = Some (st', t) \<and>
    (if t then wn_value st' else []) @ wn_buffer st' = wn_buffer st @ [peek (wn_upstream st)]"
  using window_total[OF assms, of peek] window_conserves[of peek gs st] by blast

lemma window_total_conserving_witness:
  "\<exists>st' t. window_cycle (\<lambda>_. 7 :: nat) (graph_state_new 0 RealTime Forever nano_zero) (window_new 0 (NanoTime 10))
      = Some (st', t) \<and> (if t then wn_value st' else []) @ wn_buffer st' = [7]"
  using window_total_conserving[of "window_new 0 (NanoTime 10)" "graph_state_new 0 RealTime Forever nano_zero" "\<lambda>_. 7 :: nat"]
  by (simp add: window_new_def graph_state_new_def nano_zero_def)

text \<open>
  The last value of a windowed stream can be lost: when the last cycle also crosses a
  window boundary with data buffered, the node emits the old window only and the value of that
  cycle stays in the buffer, although no later cycle will emit it.
\<close>
lemma window_last_value_stays:
  assumes "window_cycle peek gs st = Some (st', t)" "wn_next_window st \<le> gs_time gs" "wn_buffer st \<noteq> []"
    "is_last_cycle gs"
  shows "t \<and> wn_value st' = wn_buffer st \<and> wn_buffer st' = [peek (wn_upstream st)]"
  using window_last_cycle_keeps_value[OF assms(1-3)] .

definition window_at_end :: "nat window_stream" where
  "window_at_end = \<lparr>wn_upstream = 0, wn_interval = NanoTime 10, wn_next_window = NanoTime 10,
     wn_buffer = [1, 2], wn_value = []\<rparr>"

definition last_cycle_at :: "nanotime \<Rightarrow> graph_state" where
  "last_cycle_at t = (graph_state_new 0 RealTime Forever nano_zero)\<lparr>gs_time := t, is_last_cycle := True\<rparr>"

lemma window_last_value_stays_witness:
  "\<exists>st'. window_cycle (\<lambda>_. 3) (last_cycle_at (NanoTime 12)) window_at_end = Some (st', True) \<and>
    wn_value st' = [1, 2] \<and> wn_buffer st' = [3]"
proof -
  obtain st' t where w: "window_cycle (\<lambda>_. 3) (last_cycle_at (NanoTime 12)) window_at_end = Some (st', t)"
  proof -
    have "raw (wn_interval window_at_end) \<noteq> 0"
      "unat (raw (gs_time (last_cycle_at (NanoTime 12)))) + unat (raw (wn_interval window_at_end)) < 2 ^ 64"
      by (simp_all add: window_at_end_def last_cycle_at_def)
    from window_total[OF this, of "\<lambda>_. 3"] that show thesis by blast
  qed
  from window_last_value_stays[OF w] w show ?thesis
    by (simp add: window_at_end_def last_cycle_at_def graph_state_new_def)
qed

text \<open>
  Over upstream ticks with non-decreasing times, the emissions of a \<^verbatim>\<open>throttle\<close> that has
  last emitted at \<open>l\<close> are at least one interval apart, and every upstream tick lies less than
  one interval after some emission (or is one): nothing is suppressed without need.
\<close>
lemma throttle_spacing:
  assumes "th_last_emit_time st = Some l" "sorted (l # map (\<lambda>i. gs_time (fst i)) xs)"
  shows "spaced (th_interval st) (l # map fst (emits throttle_step throttle_out xs st)) \<and>
    (\<forall>i \<in> set xs. \<exists>e \<in> insert l (fst ` set (emits throttle_step throttle_out xs st)). e \<le> gs_time (fst i) \<and>
       (unat (raw (gs_time (fst i))) < unat (raw e) + unat (raw (th_interval st)) \<or> e = gs_time (fst i)))"
  using throttle_spaced_after[OF assms] throttle_covers_after[OF assms] by blast

lemma throttle_spacing_witness:
  "spaced (NanoTime 5) (NanoTime 0 # map fst (emits throttle_step throttle_out
     [(last_cycle_at (NanoTime 3), True), (last_cycle_at (NanoTime 6), False)]
     \<lparr>th_upstream = 0, th_interval = NanoTime 5, th_last_emit_time = Some (NanoTime 0), th_value = False\<rparr>))"
  using throttle_spacing[of "\<lparr>th_upstream = 0, th_interval = NanoTime 5, th_last_emit_time = Some (NanoTime 0),
     th_value = False\<rparr>" "NanoTime 0" "[(last_cycle_at (NanoTime 3), True), (last_cycle_at (NanoTime 6), False)]"]
  by (simp add: last_cycle_at_def del: emits.simps)

end
