(* ===== verification/Timed_Nodes.thy ===== *)
theory Timed_Nodes
  imports Operators
begin

text \<open>
  The nodes of \<^verbatim>\<open>src/wingfoil/src/nodes/\<close> that drive the clock or hold values back: sources
  (\<^verbatim>\<open>tick\<close>, \<^verbatim>\<open>constant\<close>, \<^verbatim>\<open>always\<close>, \<^verbatim>\<open>never\<close>, \<^verbatim>\<open>callback\<close>, iterators), \<^verbatim>\<open>delay\<close>,
  \<^verbatim>\<open>delay_with_reset\<close>, the \<^verbatim>\<open>feedback\<close> channel and \<^verbatim>\<open>combine\<close>. A method that calls the graph state
  returns its calls (\<open>cmd list\<close>); \<open>None\<close> is a panic.
\<close>

section \<open>Sources\<close>

record tick_node =
  ti_interval :: nanotime
  ti_at_time :: "nanotime option"

definition tick_cycle :: "graph_state \<Rightarrow> tick_node \<Rightarrow> tick_node \<times> cmd list \<times> bool" where
  "tick_cycle gs st = (let next_time = (case ti_at_time st of
       Some t \<Rightarrow> nano_add t (ti_interval st)
     | None \<Rightarrow> nano_add (gs_time gs) (ti_interval st))
     in (st\<lparr>ti_at_time := Some next_time\<rparr>, [AddCallback next_time], True))"

text \<open>\<^verbatim>\<open>state.add_callback(state.start_time())\<close>, the \<^verbatim>\<open>start\<close> of \<^verbatim>\<open>TickNode\<close>.\<close>

definition tick_start :: "graph_state \<Rightarrow> cmd list" where
  "tick_start gs = [AddCallback (gs_start_time gs)]"

record 'a constant_stream =
  co_value :: 'a

definition constant_cycle :: "'a constant_stream \<Rightarrow> 'a constant_stream \<times> bool" where
  "constant_cycle st = (st, True)"

definition constant_start :: "graph_state \<Rightarrow> cmd list" where
  "constant_start gs = [AddCallback (gs_start_time gs)]"

definition always_cycle :: bool where
  "always_cycle = True"

definition always_start :: "cmd list" where
  "always_start = [AlwaysCallback]"

definition never_cycle :: bool where
  "never_cycle = False"

text \<open>
  The loop \<^verbatim>\<open>while let Some(v) = queue.pop_if_pending(t) { self.value = v; ticked = true }\<close>:
  the last value popped, and whether there was one.
\<close>

definition drain_last :: "nanotime \<Rightarrow> 'a time_queue \<Rightarrow> 'a \<Rightarrow> 'a time_queue \<times> 'a \<times> bool" where
  "drain_last now q v = (case tq_drain now q of
       (vs, q') \<Rightarrow> (q', if vs = [] then v else last vs, vs \<noteq> []))"

record 'a callback_stream =
  cb_value :: 'a
  cb_queue :: "'a time_queue"

definition callback_cycle :: "graph_state \<Rightarrow> 'a callback_stream \<Rightarrow> 'a callback_stream \<times> cmd list \<times> bool" where
  "callback_cycle gs st = (case drain_last (gs_time gs) (cb_queue st) (cb_value st) of
       (q, v, tick) \<Rightarrow> (st\<lparr>cb_queue := q, cb_value := v\<rparr>,
         (case tq_next_time q of None \<Rightarrow> [] | Some t \<Rightarrow> [AddCallback t]), tick))"

definition callback_start :: "'a callback_stream \<Rightarrow> cmd list" where
  "callback_start st = (case tq_next_time (cb_queue st) of None \<Rightarrow> [] | Some t \<Rightarrow> [AddCallback t])"

definition callback_push ::
  "('a \<Rightarrow> 'a \<Rightarrow> bool) \<Rightarrow> 'a value_at \<Rightarrow> 'a callback_stream \<Rightarrow> 'a callback_stream" where
  "callback_push eq va st = st\<lparr>cb_queue := tq_push eq (va_value va) (va_time va) (cb_queue st)\<rparr>"

section \<open>Delays\<close>

text \<open>The indices of the upstreams are looked up on the first cycle and kept.\<close>

definition get_or_resolve :: "graph_state \<Rightarrow> node \<Rightarrow> nat option \<Rightarrow> nat option" where
  "get_or_resolve gs n cached = (case cached of Some i \<Rightarrow> Some i | None \<Rightarrow> node_index gs n)"

record 'a delay_stream =
  dl_value :: 'a
  dl_queue :: "'a time_queue"
  dl_initialized :: bool
  dl_upstream_index :: "nat option"
  dl_upstream :: node
  dl_delay :: nanotime

definition delay_new :: "'a \<Rightarrow> node \<Rightarrow> nanotime \<Rightarrow> 'a delay_stream" where
  "delay_new dflt upstream d = \<lparr>dl_value = dflt, dl_queue = tq_new, dl_initialized = False,
     dl_upstream_index = None, dl_upstream = upstream, dl_delay = d\<rparr>"

definition delay_cycle :: "('a \<Rightarrow> 'a \<Rightarrow> bool) \<Rightarrow> (node \<Rightarrow> 'a) \<Rightarrow> graph_state \<Rightarrow> 'a delay_stream \<Rightarrow>
    ('a delay_stream \<times> cmd list \<times> bool) option" where
  "delay_cycle eq peek gs st =
     (if dl_delay st = nano_zero then
        Some (st\<lparr>dl_value := peek (dl_upstream st)\<rparr>, [], True)
      else do {
        i \<leftarrow> get_or_resolve gs (dl_upstream st) (dl_upstream_index st);
        b \<leftarrow> node_index_ticked gs i;
        let v = peek (dl_upstream st);
        let next_time = nano_add (gs_time gs) (dl_delay st);
        let st1 = st\<lparr>dl_upstream_index := Some i\<rparr>;
        let (st2, cmds) = (if b then
          (st1\<lparr>dl_value := (if dl_initialized st1 then dl_value st1 else v), dl_initialized := True,
               dl_queue := tq_push eq v next_time (dl_queue st1)\<rparr>, [AddCallback next_time])
          else (st1, []));
        let (q, v', tick) = drain_last (gs_time gs) (dl_queue st2) (dl_value st2);
        Some (st2\<lparr>dl_queue := q, dl_value := v'\<rparr>, cmds, tick) })"

record 'a delay_with_reset_stream =
  dr_value :: 'a
  dr_queue :: "'a time_queue"
  dr_initialized :: bool
  dr_trigger_index :: "nat option"
  dr_upstream_index :: "nat option"
  dr_upstream :: node
  dr_trigger :: node
  dr_delay :: nanotime

definition delay_with_reset_cycle :: "('a \<Rightarrow> 'a \<Rightarrow> bool) \<Rightarrow> (node \<Rightarrow> 'a) \<Rightarrow> graph_state \<Rightarrow>
    'a delay_with_reset_stream \<Rightarrow> ('a delay_with_reset_stream \<times> cmd list \<times> bool) option" where
  "delay_with_reset_cycle eq peek gs st0 = do {
     ti \<leftarrow> get_or_resolve gs (dr_trigger st0) (dr_trigger_index st0);
     tb \<leftarrow> node_index_ticked gs ti;
     let st = st0\<lparr>dr_trigger_index := Some ti\<rparr>;
     if tb then
       Some (st\<lparr>dr_value := peek (dr_upstream st), dr_queue := tq_clear (dr_queue st),
                dr_initialized := True\<rparr>, [], True)
     else if dr_delay st = nano_zero then
       Some (st\<lparr>dr_value := peek (dr_upstream st)\<rparr>, [], True)
     else do {
       i \<leftarrow> get_or_resolve gs (dr_upstream st) (dr_upstream_index st);
       b \<leftarrow> node_index_ticked gs i;
       let v = peek (dr_upstream st);
       let next_time = nano_add (gs_time gs) (dr_delay st);
       let st1 = st\<lparr>dr_upstream_index := Some i\<rparr>;
       let (st2, cmds) = (if b then
         (st1\<lparr>dr_value := (if dr_initialized st1 then dr_value st1 else v), dr_initialized := True,
              dr_queue := tq_push eq v next_time (dr_queue st1)\<rparr>, [AddCallback next_time])
         else (st1, []));
       let (q, v', tick) = drain_last (gs_time gs) (dr_queue st2) (dr_value st2);
       Some (st2\<lparr>dr_queue := q, dr_value := v'\<rparr>, cmds, tick) } }"

record delay_node =
  dn_upstream :: node
  dn_delay :: nanotime
  dn_queue :: "unit time_queue"

definition delay_node_cycle :: "graph_state \<Rightarrow> delay_node \<Rightarrow> (delay_node \<times> cmd list \<times> bool) option" where
  "delay_node_cycle gs st =
     (if dn_delay st = nano_zero then Some (st, [], True)
      else do {
        b \<leftarrow> ticked gs (dn_upstream st);
        let next_time = nano_add (gs_time gs) (dn_delay st);
        let (st1, cmds) = (if b then (st\<lparr>dn_queue := tq_push (=) () next_time (dn_queue st)\<rparr>,
          [AddCallback next_time]) else (st, []));
        let (vs, q) = tq_drain (gs_time gs) (dn_queue st1);
        Some (st1\<lparr>dn_queue := q\<rparr>, cmds, vs \<noteq> []) })"

section \<open>Feedback\<close>

text \<open>
  The two ends of a feedback channel share a queue and the cell that holds the index of the
  source stream (\<^verbatim>\<open>Rc<RefCell<..>>\<close> and \<^verbatim>\<open>Rc<Cell<..>>\<close>).
\<close>

record 'a feedback_cell =
  fc_queue :: "'a time_queue"
  fc_node_id :: "nat option"

definition feedback_new :: "'a feedback_cell" where
  "feedback_new = \<lparr>fc_queue = tq_new, fc_node_id = None\<rparr>"

definition feedback_cycle :: "graph_state \<Rightarrow> 'a feedback_cell \<Rightarrow> 'a \<Rightarrow> 'a feedback_cell \<times> 'a \<times> bool" where
  "feedback_cycle gs cell v = (case drain_last (gs_time gs) (fc_queue cell) v of
       (q, v', tick) \<Rightarrow> (cell\<lparr>fc_queue := q\<rparr>, v', tick))"

definition feedback_setup :: "graph_state \<Rightarrow> 'a feedback_cell \<Rightarrow> 'a feedback_cell option" where
  "feedback_setup gs cell = (case current_node_index gs of
       None \<Rightarrow> None | Some i \<Rightarrow> Some (cell\<lparr>fc_node_id := Some i\<rparr>))"

definition feedback_send ::
  "('a \<Rightarrow> 'a \<Rightarrow> bool) \<Rightarrow> 'a \<Rightarrow> graph_state \<Rightarrow> 'a feedback_cell \<Rightarrow> ('a feedback_cell \<times> cmd list) option" where
  "feedback_send eq v gs cell = (let time = nano_add_raw (gs_time gs) 1;
       cell1 = cell\<lparr>fc_queue := tq_push eq v time (fc_queue cell)\<rparr>
     in case fc_node_id cell1 of None \<Rightarrow> None | Some i \<Rightarrow> Some (cell1, [AddCallbackForNode i time]))"

record 'a feedback_send_stream =
  fb_upstream :: node
  fb_value :: 'a

definition feedback_send_cycle :: "('a \<Rightarrow> 'a \<Rightarrow> bool) \<Rightarrow> (node \<Rightarrow> 'a) \<Rightarrow> graph_state \<Rightarrow> 'a feedback_cell \<Rightarrow>
    'a feedback_send_stream \<Rightarrow> ('a feedback_cell \<times> 'a feedback_send_stream \<times> cmd list \<times> bool) option" where
  "feedback_send_cycle eq peek gs cell st = (let st1 = st\<lparr>fb_value := peek (fb_upstream st)\<rparr> in do {
     (cell1, cmds) \<leftarrow> feedback_send eq (fb_value st1) gs cell;
     Some (cell1, st1, cmds, True) })"

definition feedback_send_node_cycle ::
  "graph_state \<Rightarrow> unit feedback_cell \<Rightarrow> (unit feedback_cell \<times> cmd list \<times> bool) option" where
  "feedback_send_node_cycle gs cell = do {
     (cell1, cmds) \<leftarrow> feedback_send (=) () gs cell; Some (cell1, cmds, True) }"

section \<open>Combine\<close>

text \<open>The burst shared by the collecting nodes and the emitting stream.\<close>

definition combine_node_cycle :: "(node \<Rightarrow> 'a) \<Rightarrow> node \<Rightarrow> 'a list \<Rightarrow> 'a list \<times> bool" where
  "combine_node_cycle peek upstream combined = (combined @ [peek upstream], True)"

definition combine_stream_cycle :: "'a list \<Rightarrow> 'a list \<times> 'a list \<times> bool" where
  "combine_stream_cycle combined = ([], combined, True)"

section \<open>Iterators\<close>

record 'a iterator_stream =
  it_peekable :: "'a value_at list"
  it_value :: "'a list"

definition iterator_add_callback :: "'a value_at list \<Rightarrow> cmd list" where
  "iterator_add_callback its = (case its of [] \<Rightarrow> [] | va # _ \<Rightarrow> [AddCallback (va_time va)])"

definition iterator_cycle :: "graph_state \<Rightarrow> 'a iterator_stream \<Rightarrow> 'a iterator_stream \<times> cmd list \<times> bool" where
  "iterator_cycle gs st = (let now = gs_time gs;
       burst = map va_value (takeWhile (\<lambda>va. va_time va = now) (it_peekable st));
       rest = dropWhile (\<lambda>va. va_time va = now) (it_peekable st)
     in (\<lparr>it_peekable = rest, it_value = burst\<rparr>, iterator_add_callback rest, burst \<noteq> []))"

definition iterator_start :: "'a iterator_stream \<Rightarrow> cmd list" where
  "iterator_start st = iterator_add_callback (it_peekable st)"

record 'a try_iterator_stream =
  tr_peekable :: "(anyhow + 'a value_at) list"
  tr_burst :: "'a list"

definition try_add_callback ::
  "(anyhow + 'a value_at) list \<Rightarrow> (anyhow + 'a value_at) list \<times> cmd list \<times> (anyhow + bool)" where
  "try_add_callback its = (case its of
       [] \<Rightarrow> ([], [], Inr False)
     | Inr va # rest \<Rightarrow> (its, [AddCallback (va_time va)], Inr True)
     | Inl e # rest \<Rightarrow> (rest, [], Inl e))"

fun try_take_due :: "nanotime \<Rightarrow> (anyhow + 'a value_at) list \<Rightarrow> 'a list \<times> (anyhow + 'a value_at) list" where
  "try_take_due now (Inr va # rest) =
     (if va_time va = now then (let (vs, its) = try_take_due now rest in (va_value va # vs, its))
      else ([], Inr va # rest))"
| "try_take_due now its = ([], its)"

definition try_iterator_cycle ::
  "graph_state \<Rightarrow> 'a try_iterator_stream \<Rightarrow> 'a try_iterator_stream \<times> cmd list \<times> (anyhow + bool)" where
  "try_iterator_cycle gs st = (case try_take_due (gs_time gs) (tr_peekable st) of
       (burst, rest) \<Rightarrow> (case try_add_callback rest of
           (rest', cmds, Inl e) \<Rightarrow> (\<lparr>tr_peekable = rest', tr_burst = burst\<rparr>, cmds, Inl e)
         | (rest', cmds, Inr _) \<Rightarrow> (\<lparr>tr_peekable = rest', tr_burst = burst\<rparr>, cmds, Inr (burst \<noteq> []))))"

definition try_iterator_start ::
  "'a try_iterator_stream \<Rightarrow> 'a try_iterator_stream \<times> cmd list \<times> (anyhow + unit)" where
  "try_iterator_start st = (case try_add_callback (tr_peekable st) of
       (rest, cmds, Inl e) \<Rightarrow> (st\<lparr>tr_peekable := rest\<rparr>, cmds, Inl e)
     | (rest, cmds, Inr _) \<Rightarrow> (st\<lparr>tr_peekable := rest\<rparr>, cmds, Inr ()))"

record 'a simple_iterator_stream =
  si_peekable :: "'a value_at list"
  si_value :: 'a

definition simple_iterator_cycle ::
  "'a simple_iterator_stream \<Rightarrow> ('a simple_iterator_stream \<times> cmd list \<times> (anyhow + bool)) option" where
  "simple_iterator_cycle st = (case si_peekable st of
       [] \<Rightarrow> None
     | va1 # rest \<Rightarrow>
         let st1 = st\<lparr>si_peekable := rest, si_value := va_value va1\<rparr> in
         (case rest of
            va2 # _ \<Rightarrow>
              if va_time va2 < va_time va1 then
                Some (st1, [], Inl (Anyhow ''source time was descending!''))
              else if va_time va1 = va_time va2 then
                Some (st1, [], Inl (Anyhow ''source produced multiple ticks for same time, use IteratorStream instead''))
              else Some (st1, iterator_add_callback rest, Inr True)
          | [] \<Rightarrow> Some (st1, iterator_add_callback rest, Inr True)))"

definition simple_iterator_start :: "'a simple_iterator_stream \<Rightarrow> cmd list" where
  "simple_iterator_start st = iterator_add_callback (si_peekable st)"


section \<open>Clock nodes\<close>

text \<open>
  \<^verbatim>\<open>GraphStateStream\<close>: a closure that reads the graph state, on each tick of the upstream. Both
  closures the crate passes only read it.
\<close>

record 'a graph_state_stream =
  gq_upstream :: node
  gq_value :: 'a
  gq_func :: "graph_state \<Rightarrow> 'a"

definition graph_state_stream_cycle :: "graph_state \<Rightarrow> 'a graph_state_stream \<Rightarrow> 'a graph_state_stream \<times> bool" where
  "graph_state_stream_cycle gs st = (st\<lparr>gq_value := gq_func st gs\<rparr>, True)"

text \<open>
  \<^verbatim>\<open>TimedStream\<close>: of the instant taken at start only whether it has been taken is kept, because it is
  used for the log line of \<^verbatim>\<open>stop\<close> alone.
\<close>

record 'a timed_stream =
  td_upstream :: node
  td_value :: 'a
  td_cycles :: u64
  td_wall_start :: bool

definition timed_new :: "'a \<Rightarrow> node \<Rightarrow> 'a timed_stream" where
  "timed_new dflt upstream = \<lparr>td_upstream = upstream, td_value = dflt, td_cycles = 0, td_wall_start = False\<rparr>"

definition timed_start :: "'a timed_stream \<Rightarrow> 'a timed_stream" where
  "timed_start st = st\<lparr>td_wall_start := True\<rparr>"

definition timed_cycle :: "(node \<Rightarrow> 'a) \<Rightarrow> 'a timed_stream \<Rightarrow> 'a timed_stream \<times> bool" where
  "timed_cycle peek st = (st\<lparr>td_value := peek (td_upstream st), td_cycles := td_cycles st + 1\<rparr>, True)"

section \<open>The ticker does not drift\<close>

text \<open>The callbacks requested over a sequence of cycles.\<close>

fun tick_callbacks :: "graph_state list \<Rightarrow> tick_node \<Rightarrow> cmd list" where
  "tick_callbacks [] st = []"
| "tick_callbacks (gs # gss) st = (case tick_cycle gs st of (st', cmds, _) \<Rightarrow> cmds @ tick_callbacks gss st')"

definition nano_steps :: "nanotime \<Rightarrow> nanotime \<Rightarrow> nat \<Rightarrow> nanotime" where
  "nano_steps t d k = NanoTime (raw t + of_nat k * raw d)"

lemma tick_callbacks_anchored:
  assumes "ti_at_time st = Some t"
  shows "tick_callbacks gss st =
    map (\<lambda>k. AddCallback (nano_steps t (ti_interval st) (Suc k))) [0 ..< length gss]"
  using assms
proof (induction gss arbitrary: st t)
  case Nil
  then show ?case by simp
next
  case (Cons gs gss)
  have up: "[0 ..< length (gs # gss)] = 0 # map Suc [0 ..< length gss]"
    by (simp add: upt_conv_Cons map_Suc_upt del: upt_Suc)
  let ?t = "nano_add t (ti_interval st)"
  have steps: "nano_steps ?t (ti_interval st) k = nano_steps t (ti_interval st) (Suc k)" for k
    by (simp add: nano_steps_def nano_add_def algebra_simps)
  have "tick_cycle gs st = (st\<lparr>ti_at_time := Some ?t\<rparr>, [AddCallback ?t], True)"
    using Cons.prems by (simp add: tick_cycle_def Let_def)
  then show ?case
    using Cons.IH[of "st\<lparr>ti_at_time := Some ?t\<rparr>" ?t] unfolding up
    by (simp add: steps) (simp add: nano_steps_def nano_add_def)
qed

lemma tick_callbacks_from_first:
  assumes "ti_at_time st = None"
  shows "tick_callbacks (gs # gss) st =
    map (\<lambda>k. AddCallback (nano_steps (gs_time gs) (ti_interval st) (Suc k))) [0 ..< Suc (length gss)]"
  using tick_callbacks_anchored[of "st\<lparr>ti_at_time := Some (gs_time gs)\<rparr>" "gs_time gs" "gs # gss"] assms
  by (simp add: tick_cycle_def Let_def)

section \<open>Delay\<close>

lemma drain_last_items:
  assumes "tq_inv q" "drain_last now q v = (q', v', tick)"
  shows "tq_inv q' \<and> tq_items q' = filter (\<lambda>x. now < fst x) (tq_items q) \<and>
    (let due = map snd (filter (\<lambda>x. fst x \<le> now) (tq_items q))
     in tick = (due \<noteq> []) \<and> v' = (if due = [] then v else last due))"
proof -
  obtain vs q1 where d: "tq_drain now q = (vs, q1)" by fastforce
  note due = tq.drain_all_due[OF assms(1) d]
  have "q' = q1" "v' = (if vs = [] then v else last vs)" "tick = (vs \<noteq> [])"
    using assms(2) d by (simp_all add: drain_last_def)
  then show ?thesis using due(2,3) unfolding Let_def due(1)[symmetric] by (simp add: not_le)
qed

text \<open>
  One cycle of a delay of \<open>d > 0\<close>, in terms of what is queued: a tick of the upstream adds
  \<open>(t + d, v)\<close> and asks for a callback then, and everything due by now is released.
\<close>

lemma stable_insert_last:
  "\<forall>x \<in> set xs. fst x \<le> t \<Longrightarrow> stable_insert (t, v) xs = xs @ [(t, v)]"
  by (simp add: stable_insert_def takeWhile_eq_all_conv[THEN iffD2] dropWhile_eq_Nil_conv[THEN iffD2])

lemma delay_cycle_items:
  fixes peek :: "node \<Rightarrow> 'a"
  assumes inv: "tq_inv (dl_queue st)" "tq_room (dl_queue st)" and d: "dl_delay st \<noteq> nano_zero"
    and ix: "get_or_resolve gs (dl_upstream st) (dl_upstream_index st) = Some i"
    and b: "node_index_ticked gs i = Some b"
    and late: "\<forall>x \<in> set (tq_items (dl_queue st)). fst x < nano_add (gs_time gs) (dl_delay st)"
  defines "items \<equiv> tq_items (dl_queue st) @
    (if b then [(nano_add (gs_time gs) (dl_delay st), peek (dl_upstream st))] else [])"
  shows "\<exists>st' tick. delay_cycle eq peek gs st = Some (st', if b then [AddCallback
      (nano_add (gs_time gs) (dl_delay st))] else [], tick) \<and>
    tq_inv (dl_queue st') \<and> tq_items (dl_queue st') = filter (\<lambda>x. gs_time gs < fst x) items \<and>
    tick = (\<exists>x \<in> set items. fst x \<le> gs_time gs) \<and>
    (tick \<longrightarrow> dl_value st' = snd (last (filter (\<lambda>x. fst x \<le> gs_time gs) items))) \<and>
    dl_delay st' = dl_delay st \<and> dl_upstream st' = dl_upstream st \<and> dl_upstream_index st' = Some i \<and>
    next_seq (dl_queue st') = next_seq (dl_queue st) + (if b then 1 else 0)"
proof -
  let ?t = "nano_add (gs_time gs) (dl_delay st)" and ?v = "peek (dl_upstream st)"
  let ?q = "if b then tq_push eq ?v ?t (dl_queue st) else dl_queue st"
  let ?w = "if b \<and> \<not> dl_initialized st then ?v else dl_value st"
  have fresh: "\<not> (\<exists>(t', v') \<in> set (tq_items (dl_queue st)). t' = ?t \<and> eq v' ?v)" using late by auto
  have "tq_items (tq_push eq ?v ?t (dl_queue st)) = tq_items (dl_queue st) @ [(?t, ?v)]"
  proof -
    have "\<forall>x \<in> set (tq_items (dl_queue st)). fst x \<le> ?t" using late by (auto intro: less_imp_le)
    with tq.items_push[OF inv, of eq ?v ?t] fresh show ?thesis by (simp add: stable_insert_last)
  qed
  then have q: "tq_inv ?q" "tq_items ?q = items" using tq.inv_push[OF inv] inv by (auto simp: items_def)
  have "next_seq (tq_push eq ?v ?t (dl_queue st)) = next_seq (dl_queue st) + 1"
    using fresh by (auto simp: tq_push_def set_tq_items entry_item_def)
  then have seq: "next_seq ?q = next_seq (dl_queue st) + (if b then 1 else 0)" by simp
  obtain q' v' tick where dr: "drain_last (gs_time gs) ?q ?w = (q', v', tick)"
    by (cases "drain_last (gs_time gs) ?q ?w") auto
  have "next_seq q' = next_seq ?q"
    using dr tq_drain_heap[of "gs_time gs" ?q] by (auto simp: drain_last_def split: prod.splits)
  moreover have "delay_cycle eq peek gs st =
      Some (st\<lparr>dl_upstream_index := Some i, dl_initialized := dl_initialized st \<or> b, dl_queue := q', dl_value := v'\<rparr>,
        if b then [AddCallback ?t] else [], tick)"
    using d ix b dr by (auto simp: delay_cycle_def Let_def split: if_splits)
  moreover have "tq_inv q'" "tq_items q' = filter (\<lambda>x. gs_time gs < fst x) items"
    "tick = (filter (\<lambda>x. fst x \<le> gs_time gs) items \<noteq> [])"
    "tick \<longrightarrow> v' = snd (last (filter (\<lambda>x. fst x \<le> gs_time gs) items))"
    using drain_last_items[OF q(1) dr] by (auto simp: Let_def last_map q(2))
  ultimately show ?thesis using seq by (simp add: filter_empty_conv)
qed


subsection \<open>A whole run of a delay\<close>

text \<open>
  A run: the graph states and upstream values of the cycles of the node, in order. The
  upstream has index \<open>i\<close>. Each emission is paired with the time of its cycle.
\<close>

definition delay_step :: "('a \<Rightarrow> 'a \<Rightarrow> bool) \<Rightarrow> graph_state \<times> 'a \<Rightarrow> 'a delay_stream \<times> nanotime \<Rightarrow>
    ('a delay_stream \<times> nanotime) \<times> bool" where
  "delay_step eq x st = (case delay_cycle eq (\<lambda>_. snd x) (fst x) (fst st) of
       None \<Rightarrow> (st, False)
     | Some (st', cmds, t) \<Rightarrow> ((st', gs_time (fst x)), t))"

definition delay_out :: "'a delay_stream \<times> nanotime \<Rightarrow> nanotime \<times> 'a" where
  "delay_out st = (snd st, dl_value (fst st))"

definition dues :: "nat \<Rightarrow> nanotime \<Rightarrow> (graph_state \<times> 'a) list \<Rightarrow> (nanotime \<times> 'a) list" where
  "dues i d xs = map (\<lambda>x. (nano_add (gs_time (fst x)) d, snd x))
     (filter (\<lambda>x. node_index_ticked (fst x) i = Some True) xs)"

definition past :: "(graph_state \<times> 'a) list \<Rightarrow> nanotime \<Rightarrow> bool" where
  "past xs t \<longleftrightarrow> (\<exists>x \<in> set xs. t \<le> gs_time (fst x))"

definition delay_run_ok :: "nat \<Rightarrow> nanotime \<Rightarrow> (graph_state \<times> 'a) list \<Rightarrow> bool" where
  "delay_run_ok i d xs \<longleftrightarrow>
     (\<forall>x \<in> set xs. node_index_ticked (fst x) i \<noteq> None \<and> unat (raw (gs_time (fst x))) + unat (raw d) < 2 ^ 64) \<and>
     sorted_wrt (<) (map (\<lambda>x. gs_time (fst x)) xs) \<and> length xs < 2 ^ 64"

text \<open>The requests the node makes of the engine over a run, and that a run has a cycle at each time it has come to.\<close>

fun delay_cmds :: "('a \<Rightarrow> 'a \<Rightarrow> bool) \<Rightarrow> (graph_state \<times> 'a) list \<Rightarrow> 'a delay_stream \<Rightarrow> cmd list" where
  "delay_cmds eq [] st = []"
| "delay_cmds eq (x # xs) st = (case delay_cycle eq (\<lambda>_. snd x) (fst x) st of
       None \<Rightarrow> []
     | Some (st', cmds, t) \<Rightarrow> cmds @ delay_cmds eq xs st')"

definition honoured :: "(graph_state \<times> 'a) list \<Rightarrow> nanotime set \<Rightarrow> bool" where
  "honoured xs ts \<longleftrightarrow> (\<forall>t \<in> ts. past xs t \<longrightarrow> t \<in> (\<lambda>x. gs_time (fst x)) ` set xs)"

lemma nano_add_mono:
  assumes "s < t" "unat (raw t) + unat (raw d) < 2 ^ 64"
  shows "nano_add s d < nano_add t d"
proof -
  have lt: "unat (raw s) < unat (raw t)" using assms(1) by (cases s; cases t) (simp add: word_less_nat_alt)
  then have "unat (raw s + raw d) = unat (raw s) + unat (raw d)"
    "unat (raw t + raw d) = unat (raw t) + unat (raw d)"
    using assms(2) by (simp_all add: unat_word_ariths)
  with lt show ?thesis by (simp add: nano_add_def word_less_nat_alt)
qed

lemma nano_add_pos:
  assumes "d \<noteq> nano_zero" "unat (raw t) + unat (raw d) < 2 ^ 64"
  shows "t < nano_add t d"
proof -
  have "0 < unat (raw d)" using assms(1) by (cases d) (simp add: nano_zero_def unat_gt_0)
  moreover have "unat (raw t + raw d) = unat (raw t) + unat (raw d)"
    using assms(2) by (simp add: unat_word_ariths)
  ultimately show ?thesis by (cases t) (simp add: nano_add_def word_less_nat_alt)
qed

lemma dues_sorted:
  assumes "sorted_wrt (<) (map (\<lambda>x. gs_time (fst x)) xs)"
    "\<forall>x \<in> set xs. unat (raw (gs_time (fst x))) + unat (raw d) < 2 ^ 64"
  shows "sorted_wrt (<) (map fst (dues i d xs))"
  using assms
proof (induction xs)
  case Nil
  then show ?case by (simp add: dues_def)
next
  case (Cons x xs)
  then show ?case using nano_add_mono by (auto simp: dues_def)
qed

lemma filter_split_sorted:
  assumes "sorted (map fst xs)" "\<And>s t. s \<le> t \<Longrightarrow> P t \<Longrightarrow> P s" "\<And>t. P t \<Longrightarrow> Q t"
  shows "filter (\<lambda>x. Q (fst x)) xs = filter (\<lambda>x. P (fst x)) xs @ filter (\<lambda>x. \<not> P (fst x) \<and> Q (fst x)) xs"
  using assms(1)
proof (induction xs)
  case Nil
  then show ?case by simp
next
  case (Cons x xs)
  show ?case
  proof (cases "P (fst x)")
    case True
    with Cons assms(3) show ?thesis by auto
  next
    case False
    with Cons.prems assms(2) have "\<forall>y \<in> set xs. \<not> P (fst y)" by auto
    then have "filter (\<lambda>x. P (fst x)) xs = []" by (simp add: filter_empty_conv)
    with Cons False show ?thesis by auto
  qed
qed

lemma strict_sorted_same_fst:
  fixes xs :: "(nanotime \<times> 'a) list"
  assumes "sorted_wrt (<) (map fst xs)" "\<forall>x \<in> set xs. fst x = t" "xs \<noteq> []"
  shows "xs = [(t, snd (last xs))]"
proof (cases xs)
  case (Cons x ys)
  moreover have "ys = []" using assms(1,2) Cons by (cases ys) auto
  ultimately show ?thesis using assms(2) by (cases x) auto
qed (use assms(3) in simp)

definition delay_inv :: "nat \<Rightarrow> nanotime \<Rightarrow> (graph_state \<times> 'a) list \<Rightarrow> 'a delay_stream \<Rightarrow> bool" where
  "delay_inv i d xs st \<longleftrightarrow> tq_inv (dl_queue st) \<and> dl_delay st = d \<and>
     dl_upstream_index st = Some i \<and> unat (next_seq (dl_queue st)) \<le> length xs \<and>
     tq_items (dl_queue st) = filter (\<lambda>x. \<not> past xs (fst x)) (dues i d xs)"

lemma past_snoc:
  assumes "sorted_wrt (<) (map (\<lambda>x. gs_time (fst x)) (xs @ [x]))"
  shows "past (xs @ [x]) t \<longleftrightarrow> t \<le> gs_time (fst x)" "past xs t \<Longrightarrow> t < gs_time (fst x)"
  using assms by (auto simp: past_def sorted_wrt_append intro: order.trans less_imp_le)

lemma delay_inv_step:
  assumes ok: "delay_run_ok i d (xs @ [x])" and inv: "delay_inv i d xs st" and d: "d \<noteq> nano_zero"
  shows "\<exists>st' cmds tick. delay_cycle eq (\<lambda>_. snd x) (fst x) st = Some (st', cmds, tick) \<and> delay_inv i d (xs @ [x]) st' \<and>
    cmds = (if node_index_ticked (fst x) i = Some True then [AddCallback (nano_add (gs_time (fst x)) d)] else []) \<and>
    (honoured (xs @ [x]) (fst ` set (dues i d (xs @ [x]))) \<longrightarrow> (if tick then [(gs_time (fst x), dl_value st')] else []) =
      filter (\<lambda>p. \<not> past xs (fst p) \<and> fst p \<le> gs_time (fst x)) (dues i d xs))"
proof -
  let ?T = "gs_time (fst x)" and ?D = "dues i d xs"
  obtain b where b: "node_index_ticked (fst x) i = Some b" using ok by (auto simp: delay_run_ok_def)
  have srt: "sorted_wrt (<) (map (\<lambda>x. gs_time (fst x)) (xs @ [x]))" and room: "length xs < 2 ^ 64 - 1"
    and big: "\<forall>y \<in> set (xs @ [x]). unat (raw (gs_time (fst y))) + unat (raw d) < 2 ^ 64"
    using ok by (auto simp: delay_run_ok_def)
  have q: "tq_inv (dl_queue st)" "dl_delay st = d" "dl_upstream_index st = Some i"
    "unat (next_seq (dl_queue st)) \<le> length xs"
    "tq_items (dl_queue st) = filter (\<lambda>p. \<not> past xs (fst p)) ?D" using inv by (auto simp: delay_inv_def)
  have notmax: "next_seq (dl_queue st) \<noteq> - 1"
  proof
    assume "next_seq (dl_queue st) = - 1"
    then have "unat (next_seq (dl_queue st)) = 2 ^ 64 - 1" by (simp add: unsigned_minus_1_eq_mask mask_eq_exp_minus_1)
    with q(4) room show False by simp
  qed
  have late: "\<forall>p \<in> set (tq_items (dl_queue st)). fst p < nano_add ?T (dl_delay st)"
    using srt big by (auto simp: q dues_def sorted_wrt_append intro!: nano_add_mono)
  let ?items = "tq_items (dl_queue st) @ (if b then [(nano_add ?T d, snd x)] else [])"
  have resolve: "get_or_resolve (fst x) (dl_upstream st) (dl_upstream_index st) = Some i"
    by (simp add: get_or_resolve_def q(3))
  obtain st' tick where c: "delay_cycle eq (\<lambda>_. snd x) (fst x) st =
      Some (st', if b then [AddCallback (nano_add ?T d)] else [], tick)"
    "tq_inv (dl_queue st')" "tq_items (dl_queue st') = filter (\<lambda>p. ?T < fst p) ?items"
    "tick = (\<exists>p \<in> set ?items. fst p \<le> ?T)"
    "tick \<longrightarrow> dl_value st' = snd (last (filter (\<lambda>p. fst p \<le> ?T) ?items))" "dl_delay st' = d"
    "dl_upstream_index st' = Some i" "next_seq (dl_queue st') = next_seq (dl_queue st) + (if b then 1 else 0)"
    using delay_cycle_items[OF q(1) _ _ resolve b late, of eq "\<lambda>_. snd x"] notmax d q(2)
    by (auto simp: tq_room_def)
  have new: "\<not> nano_add ?T d \<le> ?T" using nano_add_pos[OF d] big by (simp add: not_le)
  let ?F = "filter (\<lambda>p. \<not> past xs (fst p) \<and> fst p \<le> ?T) ?D"
  have F: "filter (\<lambda>p. fst p \<le> ?T) ?items = ?F" using new by (simp add: q(5))
  have dx: "dues i d (xs @ [x]) = ?D @ (if b then [(nano_add ?T d, snd x)] else [])"
    using b by (simp add: dues_def)
  have at: "fst p = ?T" if "p \<in> set ?F" "honoured (xs @ [x]) (fst ` set (dues i d (xs @ [x])))" for p
  proof -
    have p: "p \<in> set ?D" "fst p \<le> ?T" "\<not> past xs (fst p)" using that(1) by auto
    with that(2) dx have "fst p \<in> (\<lambda>x. gs_time (fst x)) ` set (xs @ [x])"
      using past_snoc(1)[OF srt] by (auto simp: honoured_def)
    with p(3) show ?thesis by (auto simp: past_def)
  qed
  have "sorted_wrt (<) (map fst ?F)"
    using dues_sorted[of xs d i] srt big sorted_wrt_map[of "(<)" fst] sorted_wrt_filter
    by (fastforce simp: sorted_wrt_append sorted_wrt_map)
  then have single: "?F \<noteq> [] \<Longrightarrow> ?F = [(?T, snd (last ?F))]" if "honoured (xs @ [x]) (fst ` set (dues i d (xs @ [x])))"
    using strict_sorted_same_fst at[OF _ that] by blast
  have "tick = (?F \<noteq> [])" using c(4) unfolding F[symmetric] filter_empty_conv by blast
  with c(5) single have emit: "honoured (xs @ [x]) (fst ` set (dues i d (xs @ [x]))) \<longrightarrow> (if tick then [(?T, dl_value st')] else []) = ?F"
    unfolding F by auto
  have "filter (\<lambda>p. ?T < fst p) (filter (\<lambda>p. \<not> past xs (fst p)) ?D) = filter (\<lambda>p. \<not> past (xs @ [x]) (fst p)) ?D"
    using past_snoc[OF srt] by (auto simp: not_le intro!: filter_cong dest: less_asym)
  then have "tq_items (dl_queue st') = filter (\<lambda>p. \<not> past (xs @ [x]) (fst p)) (dues i d (xs @ [x]))"
    using c(3) past_snoc(1)[OF srt] new by (simp add: dx q(5) not_le)
  moreover have "unat (next_seq (dl_queue st')) \<le> length (xs @ [x])"
    using c(8) q(4) unat_Suc_no_wrap[of "next_seq (dl_queue st)" "- 1"] notmax
    by (auto simp: word_order.not_eq_extremum)
  ultimately have "delay_inv i d (xs @ [x]) st'" using c by (simp add: delay_inv_def)
  with c(1) emit b show ?thesis by simp
qed


lemma delay_run_ok_prefix: "delay_run_ok i d (xs @ [x]) \<Longrightarrow> delay_run_ok i d xs"
  by (auto simp: delay_run_ok_def sorted_wrt_append)

lemma honoured_prefix:
  assumes "honoured (xs @ [x]) (fst ` set (dues i d (xs @ [x])))" "sorted_wrt (<) (map (\<lambda>x. gs_time (fst x)) (xs @ [x]))"
  shows "honoured xs (fst ` set (dues i d xs))"
  unfolding honoured_def
proof (intro ballI impI)
  fix t assume t: "t \<in> fst ` set (dues i d xs)" "past xs t"
  then have "t \<in> fst ` set (dues i d (xs @ [x]))" "past (xs @ [x]) t" by (auto simp: dues_def past_def)
  with assms(1) have "t \<in> (\<lambda>x. gs_time (fst x)) ` set (xs @ [x])" by (simp only: honoured_def)
  with past_snoc(2)[OF assms(2) t(2)] show "t \<in> (\<lambda>x. gs_time (fst x)) ` set xs" by auto
qed

text \<open>The state after a run, and the requests made in it.\<close>

lemma delay_after:
  assumes "delay_run_ok i d xs" "d \<noteq> nano_zero" "delay_inv i d [] st"
  shows "delay_inv i d xs (fst (after (delay_step eq) xs (st, now))) \<and>
    (\<forall>ys. delay_cmds eq (xs @ ys) st =
       map (\<lambda>p. AddCallback (fst p)) (dues i d xs) @ delay_cmds eq ys (fst (after (delay_step eq) xs (st, now))))"
  using assms(1)
proof (induction xs rule: rev_induct)
  case Nil
  then show ?case using assms(3) by (simp add: dues_def)
next
  case (snoc x xs)
  let ?st = "after (delay_step eq) xs (st, now)"
  have IH: "delay_inv i d xs (fst ?st)" "\<And>ys. delay_cmds eq (xs @ ys) st =
       map (\<lambda>p. AddCallback (fst p)) (dues i d xs) @ delay_cmds eq ys (fst ?st)"
    using snoc.IH[OF delay_run_ok_prefix[OF snoc.prems]] by auto
  obtain st' tick where s: "delay_cycle eq (\<lambda>_. snd x) (fst x) (fst ?st) =
      Some (st', if node_index_ticked (fst x) i = Some True then [AddCallback (nano_add (gs_time (fst x)) d)] else [], tick)"
    "delay_inv i d (xs @ [x]) st'"
    using delay_inv_step[OF snoc.prems IH(1) assms(2), of eq] by auto
  have "delay_step eq x ?st = ((st', gs_time (fst x)), tick)" using s(1) by (simp add: delay_step_def)
  then have "fst (after (delay_step eq) (xs @ [x]) (st, now)) = st'" by (simp add: after_append)
  then show ?case using s IH(2)[of "x # _"] by (simp add: dues_def)
qed

lemma delay_requests:
  assumes "delay_run_ok i d xs" "d \<noteq> nano_zero" "delay_inv i d [] st"
  shows "delay_cmds eq xs st = map (\<lambda>p. AddCallback (fst p)) (dues i d xs)"
  using delay_after[OF assms, of eq undefined, THEN conjunct2, THEN spec, of "[]"] by simp

lemma delay_emits:
  assumes "delay_run_ok i d xs" "d \<noteq> nano_zero" "delay_inv i d [] st" "honoured xs (fst ` set (dues i d xs))"
  shows "emits (delay_step eq) delay_out xs (st, now) = filter (\<lambda>p. past xs (fst p)) (dues i d xs)"
  using assms(1,4)
proof (induction xs rule: rev_induct)
  case Nil
  then show ?case by (simp add: dues_def)
next
  case (snoc x xs)
  let ?T = "gs_time (fst x)" and ?st = "after (delay_step eq) xs (st, now)"
  have ok: "delay_run_ok i d xs" by (rule delay_run_ok_prefix[OF snoc.prems(1)])
  have srt: "sorted_wrt (<) (map (\<lambda>x. gs_time (fst x)) (xs @ [x]))"
    and big: "\<forall>y \<in> set (xs @ [x]). unat (raw (gs_time (fst y))) + unat (raw d) < 2 ^ 64"
    using snoc.prems(1) by (auto simp: delay_run_ok_def)
  have IH: "emits (delay_step eq) delay_out xs (st, now) = filter (\<lambda>p. past xs (fst p)) (dues i d xs)"
    using snoc.IH[OF ok honoured_prefix[OF snoc.prems(2) srt]] .
  have inv: "delay_inv i d xs (fst ?st)" using delay_after[OF ok assms(2,3)] by blast
  obtain st' cmds tick where s: "delay_cycle eq (\<lambda>_. snd x) (fst x) (fst ?st) = Some (st', cmds, tick)"
    "(if tick then [(?T, dl_value st')] else []) =
      filter (\<lambda>p. \<not> past xs (fst p) \<and> fst p \<le> ?T) (dues i d xs)"
    using delay_inv_step[OF snoc.prems(1) inv assms(2), of eq] snoc.prems(2) by auto
  have "sorted (map fst (dues i d xs))"
    using dues_sorted[of xs d i] srt big by (auto simp: sorted_wrt_append strict_sorted_iff)
  then have "filter (\<lambda>p. fst p \<le> ?T) (dues i d xs) = filter (\<lambda>p. past xs (fst p)) (dues i d xs) @
      filter (\<lambda>p. \<not> past xs (fst p) \<and> fst p \<le> ?T) (dues i d xs)"
    by (rule filter_split_sorted) (use past_snoc(2)[OF srt] in \<open>auto simp: past_def intro: order.trans less_imp_le\<close>)
  moreover have "filter (\<lambda>p. past (xs @ [x]) (fst p)) (dues i d (xs @ [x])) =
      filter (\<lambda>p. fst p \<le> ?T) (dues i d xs)"
    using nano_add_pos[OF assms(2), of ?T] big by (auto simp: past_snoc(1)[OF srt] dues_def not_le[symmetric])
  moreover have "delay_step eq x ?st = ((st', ?T), tick)" using s(1) by (simp add: delay_step_def)
  moreover have "delay_out (st', ?T) = (?T, dl_value st')" by (simp add: delay_out_def)
  ultimately show ?case using IH s(2) by (cases tick) (simp_all add: emits_append after_append)
qed

section \<open>Feedback\<close>

text \<open>
  A value sent at time \<open>t\<close> is queued for \<open>t + 1\<close> and a callback for the source stream is asked
  for at that time; a cycle of the source at or after it releases the value.
\<close>

lemma feedback_round_trip:
  assumes inv: "tq_inv (fc_queue cell)" "tq_items (fc_queue cell) = []" "tq_room (fc_queue cell)"
    and id: "fc_node_id cell = Some i" and time: "gs_time gs < gs_time gs'"
  shows "\<exists>cell'. feedback_send eq v gs cell =
      Some (cell', [AddCallbackForNode i (nano_add_raw (gs_time gs) 1)]) \<and>
    (\<exists>cell''. feedback_cycle gs' cell' w = (cell'', v, True) \<and> tq_items (fc_queue cell'') = [])"
proof -
  let ?t = "nano_add_raw (gs_time gs) 1"
  let ?cell = "cell\<lparr>fc_queue := tq_push eq v ?t (fc_queue cell)\<rparr>"
  have q: "tq_inv (tq_push eq v ?t (fc_queue cell))" "tq_items (tq_push eq v ?t (fc_queue cell)) = [(?t, v)]"
    using tq.inv_push[OF inv(1,3)] tq.items_push[OF inv(1,3)] by (simp_all add: inv(2) stable_insert_def)
  have le: "?t \<le> gs_time gs'"
  proof -
    have lt: "raw (gs_time gs) < raw (gs_time gs')" using time by (cases "gs_time gs"; cases "gs_time gs'") simp
    from unat_Suc_no_wrap[OF lt] have "raw (gs_time gs) + 1 \<le> raw (gs_time gs')"
      using lt by (simp add: word_le_nat_alt word_less_nat_alt)
    then show ?thesis by (cases "gs_time gs'") (simp add: nano_add_raw_def)
  qed
  obtain q' v' tick where d: "drain_last (gs_time gs') (fc_queue ?cell) w = (q', v', tick)"
    by (cases "drain_last (gs_time gs') (fc_queue ?cell) w") auto
  have "tq_inv (fc_queue ?cell)" using q(1) by simp
  from drain_last_items[OF this d] have "tick" "v' = v" "tq_items q' = []" using q(2) le by (auto simp: Let_def)
  with d id show ?thesis by (auto simp: feedback_send_def feedback_cycle_def Let_def)
qed

section \<open>Iterators\<close>

lemma iterator_cycle_conserves:
  assumes "iterator_cycle gs st = (st', cmds, t)"
  shows "it_value st' @ map va_value (it_peekable st') = map va_value (it_peekable st)"
proof -
  have "it_value st' = map va_value (takeWhile (\<lambda>va. va_time va = gs_time gs) (it_peekable st))"
    "it_peekable st' = dropWhile (\<lambda>va. va_time va = gs_time gs) (it_peekable st)"
    using assms by (auto simp: iterator_cycle_def Let_def)
  then show ?thesis by (metis map_append takeWhile_dropWhile_id)
qed

text \<open>
  Replay of an iterator whose times never decrease: cycled at the times it asks for, it emits
  one burst per distinct time and every value exactly once, in order.
\<close>

function iterator_replay :: "graph_state \<Rightarrow> 'a iterator_stream \<Rightarrow> (nanotime \<times> 'a list) list" where
  "iterator_replay gs st = (case it_peekable st of
       [] \<Rightarrow> []
     | va # _ \<Rightarrow> (case iterator_cycle (gs\<lparr>gs_time := va_time va\<rparr>) st of
         (st', cmds, t) \<Rightarrow> (va_time va, it_value st') # iterator_replay gs st'))"
  by pat_completeness auto
termination
  by (relation "measure (\<lambda>(gs, st). length (it_peekable st))")
    (auto simp: iterator_cycle_def Let_def length_dropWhile_le le_imp_less_Suc)

declare iterator_replay.simps [simp del]

lemma iterator_replay_values: "concat (map snd (iterator_replay gs st)) = map va_value (it_peekable st)"
proof (induction gs st rule: iterator_replay.induct)
  case (1 gs st)
  show ?case
  proof (cases "it_peekable st")
    case Nil
    then show ?thesis by (simp add: iterator_replay.simps)
  next
    case (Cons va rest)
    obtain st' cmds t where c: "iterator_cycle (gs\<lparr>gs_time := va_time va\<rparr>) st = (st', cmds, t)"
      by (cases "iterator_cycle (gs\<lparr>gs_time := va_time va\<rparr>) st") auto
    have "concat (map snd (iterator_replay gs st')) = map va_value (it_peekable st')"
      using 1[OF Cons _ refl] c by (metis prod.collapse)
    with Cons c iterator_cycle_conserves[OF c] show ?thesis by (simp add: iterator_replay.simps)
  qed
qed


section \<open>Properties\<close>

text \<open>
  A ticker does not drift: over any sequence of cycles, whenever they happen, the
  \<open>k\<close>-th callback it asks for lies exactly \<open>k + 1\<close> intervals after its first cycle.
\<close>
lemma ticker_does_not_drift:
  assumes "ti_at_time st = None"
  shows "tick_callbacks (gs # gss) st =
    map (\<lambda>k. AddCallback (nano_steps (gs_time gs) (ti_interval st) (Suc k))) [0 ..< Suc (length gss)]"
  using assms by (rule tick_callbacks_from_first)

lemma ticker_does_not_drift_witness:
  "tick_callbacks [graph_state_new 0 RealTime Forever nano_zero, graph_state_new 0 RealTime Forever nano_zero]
     \<lparr>ti_interval = NanoTime 10, ti_at_time = None\<rparr> = [AddCallback (NanoTime 10), AddCallback (NanoTime 20)]"
  by (subst ticker_does_not_drift) (simp_all add: nano_steps_def graph_state_new_def nano_zero_def)

text \<open>
  C30. A delay is exact and lossless in a run that honours its callbacks. Over cycles at increasing
  times, with a cycle at every time the node itself asked for by \<^verbatim>\<open>add_callback\<close> and that the run has
  come to (what a historical run does), the node emits precisely the upstream values whose due
  time, the time of the upstream's tick plus the delay, has come, each once, in order and in the cycle
  of its due time, and holds the others. (In a real-time run a cycle may come after several due
  times, and the loop over the queue then keeps the last value only.)
\<close>
theorem delay_is_exact:
  assumes "delay_run_ok i d xs" "d \<noteq> nano_zero" "delay_inv i d [] st"
    and "honoured xs {t. AddCallback t \<in> set (delay_cmds eq xs st)}"
  shows "emits (delay_step eq) delay_out xs (st, now) = filter (\<lambda>p. past xs (fst p)) (dues i d xs) \<and>
    tq_items (dl_queue (fst (after (delay_step eq) xs (st, now)))) = filter (\<lambda>p. \<not> past xs (fst p)) (dues i d xs)"
proof -
  have "{t. AddCallback t \<in> set (delay_cmds eq xs st)} = fst ` set (dues i d xs)"
    using delay_requests[OF assms(1-3), of eq] by auto
  with delay_emits[OF assms(1-3)] delay_after[OF assms(1-3)] assms(4) show ?thesis by (simp add: delay_inv_def)
qed

text \<open>The states of three cycles at times 1, 3 and 5; the upstream (index 0) ticks in the first two.\<close>

definition cycle_at :: "u64 \<Rightarrow> bool \<Rightarrow> graph_state" where
  "cycle_at t b = (graph_state_new 0 RealTime Forever nano_zero)\<lparr>gs_time := NanoTime t, node_ticked := [b]\<rparr>"

definition delay_run :: "(graph_state \<times> nat) list" where
  "delay_run = [(cycle_at 1 True, 7), (cycle_at 3 True, 8), (cycle_at 5 False, 8)]"

theorem delay_is_exact_witness:
  "emits (delay_step (=)) delay_out delay_run
     (delay_new 0 0 (NanoTime 2)\<lparr>dl_upstream_index := Some 0\<rparr>, nano_zero) = [(NanoTime 3, 7), (NanoTime 5, 8)]"
proof -
  let ?st = "delay_new (0 :: nat) 0 (NanoTime 2)\<lparr>dl_upstream_index := Some 0\<rparr>"
  have ok: "delay_run_ok 0 (NanoTime 2) delay_run" "NanoTime 2 \<noteq> nano_zero" "delay_inv 0 (NanoTime 2) [] ?st"
    by (simp add: delay_run_ok_def delay_run_def cycle_at_def node_index_ticked_def word_less_nat_alt, blast)
      (simp_all add: nano_zero_def delay_inv_def delay_new_def dues_def tq_new_def tq_items_def tq_inv_def)
  have "delay_cmds (=) delay_run ?st = [AddCallback (NanoTime 3), AddCallback (NanoTime 5)]"
    unfolding delay_requests[OF ok] by (simp add: delay_run_def cycle_at_def node_index_ticked_def dues_def nano_add_def)
  then have "honoured delay_run {t. AddCallback t \<in> set (delay_cmds (=) delay_run ?st)}"
    by (auto simp: honoured_def delay_run_def cycle_at_def)
  with ok have "emits (delay_step (=)) delay_out delay_run
     (delay_new 0 0 (NanoTime 2)\<lparr>dl_upstream_index := Some 0\<rparr>, nano_zero) =
     filter (\<lambda>p. past delay_run (fst p)) (dues 0 (NanoTime 2) delay_run)"
    by (intro delay_is_exact[THEN conjunct1])
  also have "\<dots> = [(NanoTime 3, 7), (NanoTime 5, 8)]"
    by (simp add: delay_run_def cycle_at_def node_index_ticked_def dues_def nano_add_def past_def)
  finally show ?thesis .
qed

text \<open>
  A value sent through an empty feedback channel is scheduled for the next nanosecond and
  is the value the source emits in its next cycle, which empties the channel.
\<close>
lemma feedback_delivers:
  assumes "tq_inv (fc_queue cell)" "tq_items (fc_queue cell) = []" "tq_room (fc_queue cell)"
    "fc_node_id cell = Some i" "gs_time gs < gs_time gs'"
  shows "\<exists>cell'. feedback_send eq v gs cell =
      Some (cell', [AddCallbackForNode i (nano_add_raw (gs_time gs) 1)]) \<and>
    (\<exists>cell''. feedback_cycle gs' cell' w = (cell'', v, True) \<and> tq_items (fc_queue cell'') = [])"
  using assms by (rule feedback_round_trip)

lemma feedback_delivers_witness:
  "\<exists>cell'. feedback_send (=) (7 :: nat) (cycle_at 1 True) (feedback_new\<lparr>fc_node_id := Some 0\<rparr>) =
      Some (cell', [AddCallbackForNode 0 (NanoTime 2)]) \<and>
    (\<exists>cell''. feedback_cycle (cycle_at 2 True) cell' 0 = (cell'', 7, True) \<and> tq_items (fc_queue cell'') = [])"
  using feedback_delivers[of "feedback_new\<lparr>fc_node_id := Some 0\<rparr>" 0 "cycle_at 1 True" "cycle_at 2 True" "(=)" 7 0]
  by (simp add: feedback_new_def tq_new_def tq_inv_def tq_items_def tq_room_def cycle_at_def nano_add_raw_def)

text \<open>
  An iterator source replays its items without loss: cycled at the times it asks for, the
  bursts it emits, one after the other, are the values of the iterator in order.
\<close>
lemma iterator_replays_all: "concat (map snd (iterator_replay gs st)) = map va_value (it_peekable st)"
  by (rule iterator_replay_values)

end
