(* ===== verification/Node_Table.thy ===== *)
theory Node_Table
  imports Timed_Nodes Engine
begin

text \<open>
  The engine's view of the operators: a store that holds the state of every node, and the
  table \<open>node_table\<close> that dispatches the methods of \<^verbatim>\<open>trait Node\<close> to the operators of
  \<^verbatim>\<open>src/wingfoil/src/nodes/\<close>, with the upstreams their \<^verbatim>\<open>#[node(active = .., passive = ..)]\<close>
  attributes declare. Streams of different element types meet in one store, so values are
  drawn from \<open>val\<close>. The table satisfies the engine's contract (\<open>tbl\<close>, an interpretation of
  \<open>static_contract\<close>), so what is proved of the engine holds of graphs of these operators.

  \<^verbatim>\<open>WindowStream\<close> and \<^verbatim>\<open>SimpleIteratorStream\<close> are not in the table: the first may not return
  and the second may panic (see \<open>Operators\<close> and \<open>Timed_Nodes\<close>).
\<close>

datatype val = VUnit | VBool bool | VInt int | VTime nanotime | VList "val list" | VPair val val

fun as_bool :: "val \<Rightarrow> bool" where
  "as_bool (VBool b) = b"
| "as_bool _ = False"

datatype op =
    Tick tick_node
  | Constant "val constant_stream"
  | AlwaysTick
  | NeverTick
  | MapOp "(val, val) map_stream"
  | TryMapOp "(val, val) try_map_stream"
  | MapFilterOp "(val, val) map_filter_stream"
  | FilterOp "val filter_stream"
  | FoldOp "(val, val) fold_stream"
  | LimitOp "val limit_stream"
  | DistinctOp "val distinct_stream"
  | DifferenceOp "val \<Rightarrow> val \<Rightarrow> val" "val difference_stream"
  | SampleOp "val sample_stream"
  | MergeOp "val merge_stream"
  | BufferOp "val buffer_stream"
  | ThrottleOp "val throttle_stream"
  | DelayOp "val delay_stream"
  | DelayWithResetOp "val delay_with_reset_stream"
  | CallBackOp "val callback_stream"
  | BiMapOp "(val, val, val) bimap_stream"
  | TriMapOp "(val, val, val, val) trimap_stream"
  | TryBiMapOp "(val, val, val) try_bimap_stream"
  | TryTriMapOp "(val, val, val, val) try_trimap_stream"
  | WithTimeOp "val with_time_stream"
  | InspectOp "val inspect_stream"
  | PrintOp "val print_stream"
  | ConsumerOp "val consumer_node"
  | TryConsumerOp "val try_consumer_node"
  | ProducerOp "val producer_stream"
  | FinallyOp "val finally_node"
  | ThrottleNodeOp throttle_node
  | DelayNodeOp delay_node
  | LimitNodeOp limit_node
  | FilterNodeOp filter_node
  | IteratorOp "val iterator_stream"
  | TryIteratorOp "val try_iterator_stream"
  | CombineNodeOp node nat
  | CombineStreamOp "node list" nat "val list"
  | FeedbackStreamOp nat val
  | FeedbackSendOp nat "val feedback_send_stream"
  | GraphStateOp "val graph_state_stream"
  | TimedOp "val timed_stream"

text \<open>The states of the nodes, the bursts of \<^verbatim>\<open>combine\<close> and the cells of \<^verbatim>\<open>feedback\<close>.\<close>

record store =
  st_nodes :: "node \<Rightarrow> op"
  st_bursts :: "nat \<Rightarrow> val list"
  st_cells :: "nat \<Rightarrow> val feedback_cell"

text \<open>The \<^verbatim>\<open>output\<close> field of a node, \<^verbatim>\<open>peek_value()\<close>.\<close>

fun op_value :: "op \<Rightarrow> val" where
  "op_value (Constant st) = co_value st"
| "op_value (MapOp st) = mp_value st"
| "op_value (TryMapOp st) = tm_value st"
| "op_value (MapFilterOp st) = mf_value st"
| "op_value (FilterOp st) = fi_value st"
| "op_value (FoldOp st) = fo_value st"
| "op_value (LimitOp st) = li_value st"
| "op_value (DistinctOp st) = di_value st"
| "op_value (DifferenceOp f st) = df_diff st"
| "op_value (SampleOp st) = sa_value st"
| "op_value (MergeOp st) = mg_value st"
| "op_value (BufferOp st) = VList (bu_value st)"
| "op_value (ThrottleOp st) = th_value st"
| "op_value (DelayOp st) = dl_value st"
| "op_value (DelayWithResetOp st) = dr_value st"
| "op_value (CallBackOp st) = cb_value st"
| "op_value (BiMapOp st) = bm_value st"
| "op_value (TriMapOp st) = tr_value st"
| "op_value (TryBiMapOp st) = tb_value st"
| "op_value (TryTriMapOp st) = tt_value st"
| "op_value (WithTimeOp st) = VPair (VTime (fst (wt_value st))) (snd (wt_value st))"
| "op_value (InspectOp st) = in_value st"
| "op_value (PrintOp st) = pr_value st"
| "op_value (ProducerOp st) = pd_value st"
| "op_value (IteratorOp st) = VList (it_value st)"
| "op_value (TryIteratorOp st) = VList (tr_burst st)"
| "op_value (CombineStreamOp ups c burst) = VList burst"
| "op_value (FeedbackStreamOp c v) = v"
| "op_value (FeedbackSendOp c st) = fb_value st"
| "op_value (GraphStateOp st) = gq_value st"
| "op_value (TimedOp st) = td_value st"
| "op_value _ = VUnit"

definition peek :: "store \<Rightarrow> node \<Rightarrow> val" where
  "peek s n = op_value (st_nodes s n)"

text \<open>Active upstreams, passive upstreams.\<close>

fun op_ups :: "op \<Rightarrow> node list \<times> node list" where
  "op_ups (MapOp st) = ([mp_upstream st], [])"
| "op_ups (TryMapOp st) = ([tm_upstream st], [])"
| "op_ups (MapFilterOp st) = ([mf_upstream st], [])"
| "op_ups (FilterOp st) = ([fi_source st, fi_condition st], [])"
| "op_ups (FoldOp st) = ([fo_upstream st], [])"
| "op_ups (LimitOp st) = ([li_source st], [])"
| "op_ups (DistinctOp st) = ([di_source st], [])"
| "op_ups (DifferenceOp f st) = ([df_upstream st], [])"
| "op_ups (SampleOp st) = ([sa_trigger st], [sa_upstream st])"
| "op_ups (MergeOp st) = (mg_upstreams st, [])"
| "op_ups (BufferOp st) = ([bu_upstream st], [])"
| "op_ups (ThrottleOp st) = ([th_upstream st], [])"
| "op_ups (DelayOp st) = ([dl_upstream st], [])"
| "op_ups (DelayWithResetOp st) = ([dr_upstream st, dr_trigger st], [])"
| "op_ups (BiMapOp st) = bimap_upstreams st"
| "op_ups (TriMapOp st) = trimap_upstreams st"
| "op_ups (TryBiMapOp st) = try_bimap_upstreams st"
| "op_ups (TryTriMapOp st) = try_trimap_upstreams st"
| "op_ups (WithTimeOp st) = ([wt_upstream st], [])"
| "op_ups (InspectOp st) = ([in_upstream st], [])"
| "op_ups (PrintOp st) = ([pr_upstream st], [])"
| "op_ups (ConsumerOp st) = ([cn_upstream st], [])"
| "op_ups (TryConsumerOp st) = ([tc_upstream st], [])"
| "op_ups (ProducerOp st) = ([pd_upstream st], [])"
| "op_ups (FinallyOp st) = ([fl_source st], [])"
| "op_ups (ThrottleNodeOp st) = ([tn_upstream st], [])"
| "op_ups (DelayNodeOp st) = ([dn_upstream st], [])"
| "op_ups (LimitNodeOp st) = ([ln_upstream st], [])"
| "op_ups (FilterNodeOp st) = ([fn_upstream st], [fn_condition st])"
| "op_ups (CombineNodeOp n c) = ([n], [])"
| "op_ups (CombineStreamOp ns c burst) = (ns, [])"
| "op_ups (FeedbackSendOp c st) = ([fb_upstream st], [])"
| "op_ups (GraphStateOp st) = ([gq_upstream st], [])"
| "op_ups (TimedOp st) = ([td_upstream st], [])"
| "op_ups _ = ([], [])"

section \<open>Dispatch\<close>

type_synonym op_result = "(op \<times> cmd list \<times> (anyhow + bool)) option"

definition pure_result :: "('a \<Rightarrow> op) \<Rightarrow> 'a \<times> bool \<Rightarrow> op_result" where
  "pure_result k r = Some (k (fst r), [], Inr (snd r))"

definition fallible_result :: "('a \<Rightarrow> op) \<Rightarrow> 'a \<times> (anyhow + bool) \<Rightarrow> op_result" where
  "fallible_result k r = Some (k (fst r), [], snd r)"

definition calling_result :: "('a \<Rightarrow> op) \<Rightarrow> 'a \<times> cmd list \<times> bool \<Rightarrow> op_result" where
  "calling_result k r = Some (k (fst r), fst (snd r), Inr (snd (snd r)))"

fun op_step :: "(node \<Rightarrow> val) \<Rightarrow> graph_state \<Rightarrow> op \<Rightarrow> op_result" where
  "op_step p gs (Tick st) = calling_result Tick (tick_cycle gs st)"
| "op_step p gs (Constant st) = pure_result Constant (constant_cycle st)"
| "op_step p gs AlwaysTick = Some (AlwaysTick, [], Inr always_cycle)"
| "op_step p gs NeverTick = Some (NeverTick, [], Inr never_cycle)"
| "op_step p gs (MapOp st) = pure_result MapOp (map_cycle p st)"
| "op_step p gs (TryMapOp st) = fallible_result TryMapOp (try_map_cycle p st)"
| "op_step p gs (MapFilterOp st) = pure_result MapFilterOp (map_filter_cycle p st)"
| "op_step p gs (FilterOp st) = pure_result FilterOp (filter_cycle p (as_bool \<circ> p) st)"
| "op_step p gs (FoldOp st) = pure_result FoldOp (fold_cycle p st)"
| "op_step p gs (LimitOp st) = pure_result LimitOp (limit_cycle p st)"
| "op_step p gs (DistinctOp st) = pure_result DistinctOp (distinct_cycle (=) p st)"
| "op_step p gs (DifferenceOp f st) = pure_result (DifferenceOp f) (difference_cycle f p st)"
| "op_step p gs (SampleOp st) = pure_result SampleOp (sample_cycle p st)"
| "op_step p gs (MergeOp st) = Option.bind (merge_cycle p gs st) (pure_result MergeOp)"
| "op_step p gs (BufferOp st) = pure_result BufferOp (buffer_cycle p gs st)"
| "op_step p gs (ThrottleOp st) = pure_result ThrottleOp (throttle_cycle p gs st)"
| "op_step p gs (DelayOp st) = Option.bind (delay_cycle (=) p gs st) (calling_result DelayOp)"
| "op_step p gs (DelayWithResetOp st) =
     Option.bind (delay_with_reset_cycle (=) p gs st) (calling_result DelayWithResetOp)"
| "op_step p gs (CallBackOp st) = calling_result CallBackOp (callback_cycle gs st)"
| "op_step p gs (BiMapOp st) = pure_result BiMapOp (bimap_cycle p p st)"
| "op_step p gs (TriMapOp st) = pure_result TriMapOp (trimap_cycle p p p st)"
| "op_step p gs (TryBiMapOp st) = fallible_result TryBiMapOp (try_bimap_cycle p p st)"
| "op_step p gs (TryTriMapOp st) = fallible_result TryTriMapOp (try_trimap_cycle p p p st)"
| "op_step p gs (WithTimeOp st) = pure_result WithTimeOp (with_time_cycle p gs st)"
| "op_step p gs (InspectOp st) = pure_result InspectOp (inspect_cycle p st)"
| "op_step p gs (PrintOp st) = pure_result PrintOp (print_cycle p st)"
| "op_step p gs (ConsumerOp st) = pure_result ConsumerOp (consumer_cycle p gs st)"
| "op_step p gs (TryConsumerOp st) = fallible_result TryConsumerOp (try_consumer_cycle p gs st)"
| "op_step p gs (ProducerOp st) = pure_result ProducerOp (producer_cycle st)"
| "op_step p gs (FinallyOp st) = pure_result FinallyOp (finally_cycle p st)"
| "op_step p gs (ThrottleNodeOp st) = pure_result ThrottleNodeOp (throttle_node_cycle gs st)"
| "op_step p gs (DelayNodeOp st) = Option.bind (delay_node_cycle gs st) (calling_result DelayNodeOp)"
| "op_step p gs (LimitNodeOp st) = pure_result LimitNodeOp (limit_node_cycle st)"
| "op_step p gs (FilterNodeOp st) = pure_result FilterNodeOp (filter_node_cycle (as_bool \<circ> p) st)"
| "op_step p gs (IteratorOp st) = calling_result IteratorOp (iterator_cycle gs st)"
| "op_step p gs (TryIteratorOp st) = (case try_iterator_cycle gs st of
     (st', cmds, r) \<Rightarrow> Some (TryIteratorOp st', cmds, r))"
| "op_step p gs (GraphStateOp st) = pure_result GraphStateOp (graph_state_stream_cycle gs st)"
| "op_step p gs (TimedOp st) = pure_result TimedOp (timed_cycle p st)"
| "op_step p gs op = None"

definition set_op :: "node \<Rightarrow> op \<Rightarrow> store \<Rightarrow> store" where
  "set_op n op s = s\<lparr>st_nodes := (st_nodes s)(n := op)\<rparr>"

definition set_cell :: "nat \<Rightarrow> val feedback_cell \<Rightarrow> store \<Rightarrow> store" where
  "set_cell c cell s = s\<lparr>st_cells := (st_cells s)(c := cell)\<rparr>"

definition set_burst :: "nat \<Rightarrow> val list \<Rightarrow> store \<Rightarrow> store" where
  "set_burst c b s = s\<lparr>st_bursts := (st_bursts s)(c := b)\<rparr>"

definition table_cycle :: "node \<Rightarrow> (store, bool) node_call" where
  "table_cycle n gs s = (case st_nodes s n of
       CombineNodeOp up c \<Rightarrow> (case combine_node_cycle (peek s) up (st_bursts s c) of
           (b, t) \<Rightarrow> Some (set_burst c b s, [], Inr t))
     | CombineStreamOp ups c burst \<Rightarrow> (case combine_stream_cycle (st_bursts s c) of
           (b, v, t) \<Rightarrow> Some (set_burst c b (set_op n (CombineStreamOp ups c v) s), [], Inr t))
     | FeedbackStreamOp c v \<Rightarrow> (case feedback_cycle gs (st_cells s c) v of
           (cell, v', t) \<Rightarrow> Some (set_cell c cell (set_op n (FeedbackStreamOp c v') s), [], Inr t))
     | FeedbackSendOp c st \<Rightarrow> (case feedback_send_cycle (=) (peek s) gs (st_cells s c) st of
           None \<Rightarrow> None
         | Some (cell, st', cmds, t) \<Rightarrow>
             Some (set_cell c cell (set_op n (FeedbackSendOp c st') s), cmds, Inr t))
     | op \<Rightarrow> (case op_step (peek s) gs op of
           None \<Rightarrow> None
         | Some (op', cmds, r) \<Rightarrow> Some (set_op n op' s, cmds, r)))"

definition table_setup :: "node \<Rightarrow> (store, unit) node_call" where
  "table_setup n gs s = (case st_nodes s n of
       FeedbackStreamOp c v \<Rightarrow> (case feedback_setup gs (st_cells s c) of
           None \<Rightarrow> None | Some cell \<Rightarrow> Some (set_cell c cell s, [], Inr ()))
     | _ \<Rightarrow> Some (s, [], Inr ()))"

definition table_start :: "node \<Rightarrow> (store, unit) node_call" where
  "table_start n gs s = (case st_nodes s n of
       Tick st \<Rightarrow> Some (s, tick_start gs, Inr ())
     | Constant st \<Rightarrow> Some (s, constant_start gs, Inr ())
     | AlwaysTick \<Rightarrow> Some (s, always_start, Inr ())
     | CallBackOp st \<Rightarrow> Some (s, callback_start st, Inr ())
     | IteratorOp st \<Rightarrow> Some (s, iterator_start st, Inr ())
     | TryIteratorOp st \<Rightarrow> (case try_iterator_start st of
           (st', cmds, r) \<Rightarrow> Some (set_op n (TryIteratorOp st') s, cmds, r))
     | TimedOp st \<Rightarrow> Some (set_op n (TimedOp (timed_start st)) s, [], Inr ())
     | _ \<Rightarrow> Some (s, [], Inr ()))"

definition table_stop :: "node \<Rightarrow> (store, unit) node_call" where
  "table_stop n gs s = (case st_nodes s n of
       FinallyOp st \<Rightarrow> (case finally_stop gs st of (st', r) \<Rightarrow> Some (set_op n (FinallyOp st') s, [], r))
     | _ \<Rightarrow> Some (s, [], Inr ()))"

definition table_teardown :: "node \<Rightarrow> (store, unit) node_call" where
  "table_teardown n gs s = Some (s, [], Inr ())"

definition node_table :: "store node_ops" where
  "node_table = \<lparr>op_upstreams = (\<lambda>s n. op_ups (st_nodes s n)), op_cycle = table_cycle,
     op_setup = table_setup, op_start = table_start, op_stop = table_stop, op_teardown = table_teardown\<rparr>"


section \<open>The table satisfies the contract\<close>

definition cached_ok :: "graph_state \<Rightarrow> node \<Rightarrow> nat option \<Rightarrow> bool" where
  "cached_ok gs n cached \<longleftrightarrow> node_index gs n \<noteq> None \<and>
     (case cached of None \<Rightarrow> True | Some i \<Rightarrow> i < length (nodes gs))"

text \<open>
  What the operators with an \<^verbatim>\<open>expect\<close> need: their upstreams are registered and the indices
  they keep are in range; the source of a feedback channel has been set up.
\<close>

fun op_ok :: "graph_state \<Rightarrow> (nat \<Rightarrow> val feedback_cell) \<Rightarrow> op \<Rightarrow> bool" where
  "op_ok gs cells (MergeOp st) \<longleftrightarrow> (\<forall>n \<in> set (mg_upstreams st). node_index gs n \<noteq> None) \<and>
     (\<forall>i \<in> set (mg_upstream_indices st). i < length (nodes gs))"
| "op_ok gs cells (DelayOp st) \<longleftrightarrow> cached_ok gs (dl_upstream st) (dl_upstream_index st)"
| "op_ok gs cells (DelayWithResetOp st) \<longleftrightarrow> cached_ok gs (dr_upstream st) (dr_upstream_index st) \<and>
     cached_ok gs (dr_trigger st) (dr_trigger_index st)"
| "op_ok gs cells (FeedbackSendOp c st) \<longleftrightarrow>
     (case fc_node_id (cells c) of None \<Rightarrow> False | Some i \<Rightarrow> i < length (nodes gs))"
| "op_ok gs cells _ \<longleftrightarrow> True"

definition table_inv :: "graph_state \<Rightarrow> store \<Rightarrow> bool" where
  "table_inv gs s \<longleftrightarrow> (\<forall>i < length (nodes gs). op_ok gs (st_cells s) (st_nodes s (nd_node (nodes gs ! i))))"

lemma registered_ticked:
  assumes "wf_graph gs" "i < length (nodes gs)"
  shows "\<exists>b. node_index_ticked gs i = Some b"
  using assms by (simp add: node_index_ticked_def wf_defs)

lemma node_index_in_range: "wf_graph gs \<Longrightarrow> node_index gs n = Some i \<Longrightarrow> i < length (nodes gs)"
  by (auto simp: wf_graph_def wf_indices_def node_index_def intro: ranI)

lemma get_or_resolve_ok:
  assumes "wf_graph gs" "cached_ok gs n cached"
  shows "\<exists>i b. get_or_resolve gs n cached = Some i \<and> i < length (nodes gs) \<and> node_index_ticked gs i = Some b"
proof -
  have "\<exists>i. get_or_resolve gs n cached = Some i \<and> i < length (nodes gs)"
    using assms(2) node_index_in_range[OF assms(1), of n]
    by (auto simp: cached_ok_def get_or_resolve_def split: option.splits)
  with registered_ticked[OF assms(1)] show ?thesis by blast
qed

lemma resolve_all_ok:
  assumes "wf_graph gs" "\<forall>n \<in> set ns. node_index gs n \<noteq> None"
  shows "\<exists>is. resolve_all gs ns = Some is \<and> (\<forall>i \<in> set is. i < length (nodes gs))"
  using assms(2)
proof (induction ns)
  case Nil
  then show ?case by simp
next
  case (Cons n ns)
  then show ?case using node_index_in_range[OF assms(1), of n] by fastforce
qed

lemma first_ticked_total:
  assumes "wf_graph gs" "\<forall>p \<in> set ps. snd p < length (nodes gs)"
  shows "\<exists>m. first_ticked gs ps = Some m"
  using assms(2)
proof (induction ps)
  case Nil
  then show ?case by simp
next
  case (Cons p ps)
  obtain n i where p: "p = (n, i)" by fastforce
  with registered_ticked[OF assms(1), of i] Cons show ?case by (auto split: if_splits)
qed

lemma merge_cycle_ok:
  assumes "wf_graph gs" "op_ok gs cells (MergeOp st)"
  shows "\<exists>st' t. merge_cycle p gs st = Some (st', t) \<and> op_ok gs cells (MergeOp st')"
proof -
  obtain "is" where r: "(if mg_upstream_indices st = [] \<and> mg_upstreams st \<noteq> [] then resolve_all gs (mg_upstreams st)
      else Some (mg_upstream_indices st)) = Some is" "\<forall>i \<in> set is. i < length (nodes gs)"
    using resolve_all_ok[OF assms(1), of "mg_upstreams st"] assms(2)
    by (cases "mg_upstream_indices st = [] \<and> mg_upstreams st \<noteq> []") auto
  have "\<forall>p \<in> set (zip (mg_upstreams st) is). snd p < length (nodes gs)"
    using r(2) by (auto dest: set_zip_rightD)
  from first_ticked_total[OF assms(1) this] obtain m where
    "first_ticked gs (zip (mg_upstreams st) is) = Some m" by blast
  with r assms(2) show ?thesis by (cases m) (auto simp: merge_cycle_def Let_def)
qed

lemma delay_cycle_ok:
  assumes "wf_graph gs" "op_ok gs cells (DelayOp st)"
  shows "\<exists>st' cs t. delay_cycle eq p gs st = Some (st', cs, t) \<and> op_ok gs cells (DelayOp st') \<and>
    (\<forall>c \<in> set cs. \<exists>t. c = AddCallback t)"
  using get_or_resolve_ok[OF assms(1), of "dl_upstream st" "dl_upstream_index st"] assms(2)
  by (auto simp: delay_cycle_def Let_def cached_ok_def split: prod.splits if_splits)

lemma delay_with_reset_cycle_ok:
  assumes "wf_graph gs" "op_ok gs cells (DelayWithResetOp st)"
  shows "\<exists>st' cs t. delay_with_reset_cycle eq p gs st = Some (st', cs, t) \<and>
    op_ok gs cells (DelayWithResetOp st') \<and> (\<forall>c \<in> set cs. \<exists>t. c = AddCallback t)"
  using get_or_resolve_ok[OF assms(1), of "dr_upstream st" "dr_upstream_index st"]
    get_or_resolve_ok[OF assms(1), of "dr_trigger st" "dr_trigger_index st"] assms(2)
  by (auto simp: delay_with_reset_cycle_def Let_def cached_ok_def split: prod.splits if_splits)

lemma delay_node_cycle_ok:
  assumes "wf_graph gs"
  shows "\<exists>st' cs t. delay_node_cycle gs st = Some (st', cs, t) \<and> (\<forall>c \<in> set cs. \<exists>t. c = AddCallback t)"
proof -
  have "\<exists>b. ticked gs (dn_upstream st) = Some b"
    using node_index_in_range[OF assms] registered_ticked[OF assms]
    by (auto simp: ticked_def split: option.splits)
  then show ?thesis by (auto simp: delay_node_cycle_def Let_def split: prod.splits if_splits)
qed

definition shares_state :: "op \<Rightarrow> bool" where
  "shares_state op \<longleftrightarrow> (case op of CombineNodeOp _ _ \<Rightarrow> True | CombineStreamOp _ _ _ \<Rightarrow> True
     | FeedbackStreamOp _ _ \<Rightarrow> True | FeedbackSendOp _ _ \<Rightarrow> True | _ \<Rightarrow> False)"

lemma iterator_add_callback_cmds: "c \<in> set (iterator_add_callback its) \<Longrightarrow> \<exists>t. c = AddCallback t"
  by (cases its) (auto simp: iterator_add_callback_def)

lemma try_add_callback_cmds: "try_add_callback its = (its', cs, r) \<Longrightarrow> c \<in> set cs \<Longrightarrow> \<exists>t. c = AddCallback t"
  by (auto simp: try_add_callback_def split: list.splits sum.splits)

lemma op_step_ok:
  assumes wf: "wf_graph gs" and ok: "op_ok gs cells op" and own: "\<not> shares_state op"
  shows "\<exists>op' cs r. op_step p gs op = Some (op', cs, r) \<and> op_ok gs cells op' \<and>
    (\<forall>c \<in> set cs. \<exists>t. c = AddCallback t)"
proof (cases op)
  case (MergeOp st)
  with merge_cycle_ok[OF wf, of cells st p] ok show ?thesis by (auto simp: pure_result_def)
next
  case (DelayOp st)
  with delay_cycle_ok[OF wf, of cells st "(=)" p] ok show ?thesis by (auto simp: calling_result_def)
next
  case (DelayWithResetOp st)
  with delay_with_reset_cycle_ok[OF wf, of cells st "(=)" p] ok show ?thesis by (auto simp: calling_result_def)
next
  case (DelayNodeOp st)
  with delay_node_cycle_ok[OF wf, of st] show ?thesis by (auto simp: calling_result_def)
next
  case (Tick st)
  then show ?thesis by (auto simp: calling_result_def tick_cycle_def Let_def)
next
  case (CallBackOp st)
  then show ?thesis by (auto simp: calling_result_def callback_cycle_def split: prod.splits option.splits)
next
  case (IteratorOp st)
  then show ?thesis by (auto simp: calling_result_def iterator_cycle_def Let_def dest: iterator_add_callback_cmds)
next
  case (TryIteratorOp st)
  then show ?thesis
    by (auto simp: try_iterator_cycle_def dest: try_add_callback_cmds split: prod.splits sum.splits)
qed (use own in \<open>simp_all add: pure_result_def fallible_result_def shares_state_def\<close>)


lemma table_inv_set_op:
  assumes "table_inv gs s" "op_ok gs (st_cells s) op"
  shows "table_inv gs (set_op n op s)"
  using assms by (auto simp: table_inv_def set_op_def)

lemma table_inv_set_burst: "table_inv gs (set_burst c b s) = table_inv gs s"
  by (simp add: table_inv_def set_burst_def)

lemma op_ok_cells:
  "op_ok gs cells op \<Longrightarrow> fc_node_id cell = fc_node_id (cells c) \<or>
     (\<exists>i < length (nodes gs). fc_node_id cell = Some i) \<Longrightarrow> op_ok gs (cells(c := cell)) op"
  by (cases op) (auto split: option.splits)

lemma table_inv_set_cell:
  assumes "table_inv gs s" "fc_node_id cell = fc_node_id (st_cells s c) \<or>
     (\<exists>i < length (nodes gs). fc_node_id cell = Some i)"
  shows "table_inv gs (set_cell c cell s)"
  using assms op_ok_cells by (auto simp: table_inv_def set_cell_def)

lemma table_cycle_ok:
  assumes wf: "wf_graph gs" and inv: "table_inv gs s" and ix: "ix < length (nodes gs)"
  shows "\<exists>s' cs r. table_cycle (nd_node (nodes gs ! ix)) gs s = Some (s', cs, r) \<and> table_inv gs s' \<and>
    (\<forall>c \<in> set cs. (\<exists>t. c = AddCallback t) \<or> (\<exists>i t. c = AddCallbackForNode i t \<and> i < length (nodes gs)))"
proof -
  let ?n = "nd_node (nodes gs ! ix)"
  let ?op = "st_nodes s ?n"
  have ok: "op_ok gs (st_cells s) ?op" using inv ix by (simp add: table_inv_def)
  show ?thesis
  proof (cases "shares_state ?op")
    case False
    from op_step_ok[OF wf ok False, of "peek s"] obtain op' cs r where
      "op_step (peek s) gs ?op = Some (op', cs, r)" "op_ok gs (st_cells s) op'"
      "\<forall>c \<in> set cs. \<exists>t. c = AddCallback t" by blast
    moreover have "table_cycle ?n gs s = (case op_step (peek s) gs ?op of
        None \<Rightarrow> None | Some (op', cmds, r) \<Rightarrow> Some (set_op ?n op' s, cmds, r))"
      using False by (simp add: table_cycle_def shares_state_def split: op.splits)
    ultimately show ?thesis using table_inv_set_op[OF inv] by auto
  next
    case True
    then consider up c where "?op = CombineNodeOp up c" | ups c b where "?op = CombineStreamOp ups c b"
      | c v where "?op = FeedbackStreamOp c v" | c st where "?op = FeedbackSendOp c st"
      by (auto simp: shares_state_def split: op.splits)
    then show ?thesis
    proof cases
      case 1
      then show ?thesis
        using inv by (simp add: table_cycle_def combine_node_cycle_def table_inv_set_burst)
    next
      case 2
      then show ?thesis
        using table_inv_set_op[OF inv] by (simp add: table_cycle_def combine_stream_cycle_def table_inv_set_burst)
    next
      case 3
      obtain q v' t where d: "drain_last (gs_time gs) (fc_queue (st_cells s c)) v = (q, v', t)"
        by (cases "drain_last (gs_time gs) (fc_queue (st_cells s c)) v") auto
      have "table_inv gs (set_cell c ((st_cells s c)\<lparr>fc_queue := q\<rparr>) (set_op ?n (FeedbackStreamOp c v') s))"
        using table_inv_set_op[OF inv] by (intro table_inv_set_cell) (auto simp: set_op_def)
      with 3 d show ?thesis by (simp add: table_cycle_def feedback_cycle_def)
    next
      case 4
      with ok obtain i where i: "fc_node_id (st_cells s c) = Some i" "i < length (nodes gs)"
        by (auto split: option.splits)
      have "table_inv gs (set_cell c cell (set_op ?n (FeedbackSendOp c st') s))"
        if "fc_node_id cell = Some i" for cell st'
        using table_inv_set_op[OF inv] i that by (intro table_inv_set_cell) (auto simp: set_op_def)
      with 4 i show ?thesis
        by (simp add: table_cycle_def feedback_send_cycle_def feedback_send_def Let_def)
    qed
  qed
qed

lemma table_phase_ok:
  assumes ph: "f \<in> phases node_table" and inv: "table_inv gs s"
    and ix: "ix < length (nodes gs)" "current_node_index gs = Some ix"
  shows "\<exists>s' cs r. f n gs s = Some (s', cs, r) \<and> table_inv gs s' \<and>
    (\<forall>c \<in> set cs. (\<exists>t. c = AddCallback t) \<or> c = AlwaysCallback)"
proof -
  consider "f = table_setup" | "f = table_start" | "f = table_stop" | "f = table_teardown"
    using ph by (auto simp: phases_def node_table_def)
  then show ?thesis
  proof cases
    case 1
    have "table_inv gs (set_cell c ((st_cells s c)\<lparr>fc_node_id := Some ix\<rparr>) s)" for c
      using ix by (intro table_inv_set_cell[OF inv]) auto
    with 1 ix inv show ?thesis
      by (auto simp: table_setup_def feedback_setup_def split: op.splits)
  next
    case 2
    have "\<exists>t. c = AddCallback t" if "try_iterator_start st = (st', cs, r)" "c \<in> set cs" for st st' :: "val try_iterator_stream" and cs r c
      using that by (auto simp: try_iterator_start_def dest: try_add_callback_cmds split: prod.splits sum.splits)
    moreover have "\<exists>t. c = AddCallback t" if "c \<in> set (callback_start st)" for c and st :: "val callback_stream"
      using that by (auto simp: callback_start_def split: option.splits)
    ultimately show ?thesis
      using 2 inv table_inv_set_op[OF inv] iterator_add_callback_cmds
      by (auto simp: table_start_def tick_start_def constant_start_def always_start_def iterator_start_def
          split: op.splits prod.splits)
  next
    case 3
    with inv table_inv_set_op[OF inv] show ?thesis
      by (auto simp: table_stop_def split: op.splits prod.splits)
  next
    case 4
    with inv show ?thesis by (simp add: table_teardown_def)
  qed
qed


subsection \<open>No operator of the table grows the graph\<close>

lemma delay_cycle_cmds: "delay_cycle eq p gs st = Some (st', cs, t) \<Longrightarrow> c \<in> set cs \<Longrightarrow> \<exists>t. c = AddCallback t"
  by (auto simp: delay_cycle_def Let_def split: prod.splits if_splits Option.bind_splits)

lemma delay_with_reset_cycle_cmds:
  "delay_with_reset_cycle eq p gs st = Some (st', cs, t) \<Longrightarrow> c \<in> set cs \<Longrightarrow> \<exists>t. c = AddCallback t"
  by (auto simp: delay_with_reset_cycle_def Let_def split: prod.splits if_splits Option.bind_splits)

lemma delay_node_cycle_cmds: "delay_node_cycle gs st = Some (st', cs, t) \<Longrightarrow> c \<in> set cs \<Longrightarrow> \<exists>t. c = AddCallback t"
  by (auto simp: delay_node_cycle_def Let_def split: prod.splits if_splits Option.bind_splits)

lemma op_step_cmds:
  assumes "op_step p gs op = Some (op', cs, r)" "c \<in> set cs"
  shows "\<exists>t. c = AddCallback t"
  using assms
proof (cases op)
  case (DelayOp st)
  with assms show ?thesis by (auto simp: calling_result_def split: Option.bind_splits dest: delay_cycle_cmds)
next
  case (DelayWithResetOp st)
  with assms show ?thesis
    by (auto simp: calling_result_def split: Option.bind_splits dest: delay_with_reset_cycle_cmds)
next
  case (DelayNodeOp st)
  with assms show ?thesis by (auto simp: calling_result_def split: Option.bind_splits dest: delay_node_cycle_cmds)
next
  case (MergeOp st)
  with assms show ?thesis by (auto simp: pure_result_def split: Option.bind_splits)
next
  case (Tick st)
  with assms show ?thesis by (auto simp: calling_result_def tick_cycle_def Let_def)
next
  case (CallBackOp st)
  with assms show ?thesis by (auto simp: calling_result_def callback_cycle_def split: prod.splits option.splits)
next
  case (IteratorOp st)
  with assms show ?thesis by (auto simp: calling_result_def iterator_cycle_def Let_def dest: iterator_add_callback_cmds)
next
  case (TryIteratorOp st)
  with assms show ?thesis
    by (auto simp: try_iterator_cycle_def dest: try_add_callback_cmds split: prod.splits sum.splits)
qed (auto simp: pure_result_def fallible_result_def)

lemma table_cycle_cmds:
  assumes "table_cycle n gs s = Some (s', cs, r)" "c \<in> set cs"
  shows "c \<noteq> AddUpstream m a b"
proof (cases "shares_state (st_nodes s n)")
  case False
  have "table_cycle n gs s = (case op_step (peek s) gs (st_nodes s n) of
      None \<Rightarrow> None | Some (op', cmds, r) \<Rightarrow> Some (set_op n op' s, cmds, r))"
    using False by (simp add: table_cycle_def shares_state_def split: op.splits)
  with assms show ?thesis by (auto split: option.splits dest: op_step_cmds)
next
  case True
  with assms show ?thesis
    by (auto simp: table_cycle_def shares_state_def combine_node_cycle_def combine_stream_cycle_def
        feedback_send_cycle_def feedback_send_def Let_def split: op.splits option.splits prod.splits Option.bind_splits)
qed

lemma table_phase_cmds:
  assumes "f \<in> phases node_table" "f n gs s = Some (s', cs, r)" "c \<in> set cs"
  shows "c \<noteq> AddUpstream m a b"
proof -
  consider "f = table_setup" | "f = table_start" | "f = table_stop" | "f = table_teardown"
    using assms(1) by (auto simp: phases_def node_table_def)
  then show ?thesis
  proof cases
    case 2
    with assms(2,3) show ?thesis
      by (auto simp: table_start_def tick_start_def constant_start_def always_start_def callback_start_def
          iterator_start_def try_iterator_start_def dest: iterator_add_callback_cmds try_add_callback_cmds
          split: op.splits prod.splits option.splits sum.splits)
  qed (use assms(2,3) in \<open>auto simp: table_setup_def table_stop_def table_teardown_def feedback_setup_def
        split: op.splits option.splits prod.splits\<close>)
qed

lemma table_inv_shape:
  assumes "same_shape gs gs'" "table_inv gs s"
  shows "table_inv gs' s"
proof -
  have len: "length (nodes gs') = length (nodes gs)"
    using assms(1) unfolding same_shape_def by (metis length_map)
  have node: "nd_node (nodes gs' ! i) = nd_node (nodes gs ! i)" if "i < length (nodes gs)" for i
  proof -
    have "map (\<lambda>nd. (nd_node nd, nd_layer nd)) (nodes gs') ! i = map (\<lambda>nd. (nd_node nd, nd_layer nd)) (nodes gs) ! i"
      using assms(1) by (simp add: same_shape_def)
    with that len show ?thesis by simp
  qed
  have idx: "node_index gs' n = node_index gs n" for n using assms(1) by (simp add: same_shape_def node_index_def)
  have "op_ok gs' cells op = op_ok gs cells op" for cells op
    by (cases op) (auto simp: cached_ok_def idx len split: option.splits)
  with assms(2) node show ?thesis by (simp add: table_inv_def len)
qed

interpretation tbl: static_contract node_table table_inv
proof
  fix gs gs' s
  show "same_shape gs gs' \<Longrightarrow> table_inv gs s \<Longrightarrow> table_inv gs' s" by (rule table_inv_shape)
next
  fix gs s ix
  assume "wf_graph gs" "table_inv gs s" "ix < length (nodes gs)"
  from table_cycle_ok[OF this]
  show "\<exists>s' cs r. op_cycle node_table (nd_node (nodes gs ! ix)) gs s = Some (s', cs, r) \<and> table_inv gs s' \<and>
      (\<forall>c\<in>set cs. cmd_in_range gs c \<and> cmd_deeper gs ix c)"
    by (force simp: node_table_def)
next
  fix f gs s ix
  assume "f \<in> phases node_table" "wf_graph gs" "table_inv gs s" "ix < length (nodes gs)"
    "current_node_index gs = Some ix"
  from table_phase_ok[OF this(1,3,4,5), of "nd_node (nodes gs ! ix)"]
  show "\<exists>s' cs r. f (nd_node (nodes gs ! ix)) gs s = Some (s', cs, r) \<and> table_inv gs s' \<and>
      (\<forall>c\<in>set cs. cmd_in_range gs c)" by force
next
  fix n gs s s' cs r c m a b
  show "op_cycle node_table n gs s = Some (s', cs, r) \<Longrightarrow> c \<in> set cs \<Longrightarrow> c \<noteq> AddUpstream m a b"
    using table_cycle_cmds by (simp add: node_table_def)
next
  fix f n gs s s' cs res c m a b
  show "f \<in> phases node_table \<Longrightarrow> f n gs s = Some (s', cs, res) \<Longrightarrow> c \<in> set cs \<Longrightarrow> c \<noteq> AddUpstream m a b"
    by (rule table_phase_cmds)
qed

end
