(* ===== verification/Fluent.thy ===== *)
theory Fluent
  imports Node_Table
begin

text \<open>
  The fluent interface of \<^verbatim>\<open>nodes/mod.rs\<close> and \<^verbatim>\<open>nodes/combine.rs\<close>: the free functions and the methods
  of \<^verbatim>\<open>NodeOperators\<close>, \<^verbatim>\<open>NodeFlowOperators\<close>, \<^verbatim>\<open>StreamOperators\<close>, \<^verbatim>\<open>TupleStreamOperators\<close> and
  \<^verbatim>\<open>OptionStreamOperators\<close> that make nodes, and \<^verbatim>\<open>run\<close>.

  A program that builds a graph allocates nodes one after the other; the builder is the list of the
  nodes made so far, and a handle (an \<^verbatim>\<open>Rc\<close>) is the position of its node. Every method takes the
  handle it is called on, its arguments, and the builder. Where the Rust code takes the default of
  an element type, the default is an argument, because the values of all types are drawn from
  \<open>val\<close>. Not modelled here are the methods that make asynchronous or threaded nodes, \<^verbatim>\<open>window\<close>
  (which need not return), the feedback senders (which panic before their source is set up) and the
  demultiplexers, which have a theory of their own.

  The theorems: a graph built through this interface can only refer to what was built before, so
  it is finite, acyclic and fresh (\<open>built_ok\<close>), and running it returns without a panic
  (\<open>fluent_graph_runs\<close>, for the methods of \<open>built\<close>); \<open>count\<close> counts the ticks of its node (\<open>count_counts\<close>).
\<close>

section \<open>Making nodes\<close>

record builder =
  bd_nodes :: "op list"
  bd_bursts :: nat

definition into_stream :: "op \<Rightarrow> builder \<Rightarrow> node \<times> builder" where
  "into_stream op b = (length (bd_nodes b), b\<lparr>bd_nodes := bd_nodes b @ [op]\<rparr>)"

section \<open>Functions\<close>

definition fluent_constant :: "val \<Rightarrow> builder \<Rightarrow> node \<times> builder" where
  "fluent_constant value = into_stream (Constant \<lparr>co_value = value\<rparr>)"

definition ticker :: "duration \<Rightarrow> builder \<Rightarrow> node \<times> builder" where
  "ticker period = into_stream (Tick \<lparr>ti_interval = nano_from_duration period, ti_at_time = None\<rparr>)"

definition fluent_bimap :: "val \<Rightarrow> dep \<Rightarrow> dep \<Rightarrow> (val \<Rightarrow> val \<Rightarrow> val) \<Rightarrow> builder \<Rightarrow> node \<times> builder" where
  "fluent_bimap dflt upstream1 upstream2 func = into_stream (BiMapOp
     \<lparr>bm_upstream1 = upstream1, bm_upstream2 = upstream2, bm_value = dflt, bm_func = func\<rparr>)"

definition fluent_add :: "val \<Rightarrow> (val \<Rightarrow> val \<Rightarrow> val) \<Rightarrow> node \<Rightarrow> node \<Rightarrow> builder \<Rightarrow> node \<times> builder" where
  "fluent_add dflt addf upstream1 upstream2 = into_stream (BiMapOp
     \<lparr>bm_upstream1 = Active upstream1, bm_upstream2 = Active upstream2, bm_value = dflt, bm_func = addf\<rparr>)"

definition fluent_trimap :: "val \<Rightarrow> dep \<Rightarrow> dep \<Rightarrow> dep \<Rightarrow> (val \<Rightarrow> val \<Rightarrow> val \<Rightarrow> val) \<Rightarrow> builder \<Rightarrow> node \<times> builder" where
  "fluent_trimap dflt upstream1 upstream2 upstream3 func = into_stream (TriMapOp
     \<lparr>tr_upstream1 = upstream1, tr_upstream2 = upstream2, tr_upstream3 = upstream3, tr_value = dflt, tr_func = func\<rparr>)"

definition fluent_try_bimap :: "val \<Rightarrow> dep \<Rightarrow> dep \<Rightarrow> (val \<Rightarrow> val \<Rightarrow> anyhow + val) \<Rightarrow> builder \<Rightarrow> node \<times> builder" where
  "fluent_try_bimap dflt upstream1 upstream2 func = into_stream (TryBiMapOp
     \<lparr>tb_upstream1 = upstream1, tb_upstream2 = upstream2, tb_value = dflt, tb_func = func\<rparr>)"

definition fluent_try_trimap :: "val \<Rightarrow> dep \<Rightarrow> dep \<Rightarrow> dep \<Rightarrow> (val \<Rightarrow> val \<Rightarrow> val \<Rightarrow> anyhow + val) \<Rightarrow>
    builder \<Rightarrow> node \<times> builder" where
  "fluent_try_trimap dflt upstream1 upstream2 upstream3 func = into_stream (TryTriMapOp
     \<lparr>tt_upstream1 = upstream1, tt_upstream2 = upstream2, tt_upstream3 = upstream3, tt_value = dflt, tt_func = func\<rparr>)"

definition fluent_merge :: "val \<Rightarrow> node list \<Rightarrow> builder \<Rightarrow> node \<times> builder" where
  "fluent_merge dflt sources = into_stream (MergeOp
     \<lparr>mg_upstreams = sources, mg_upstream_indices = [], mg_value = dflt\<rparr>)"

text \<open>The collecting nodes of \<^verbatim>\<open>combine\<close>, which share the burst \<open>c\<close>, and then the emitting stream.\<close>

fun combine_nodes :: "nat \<Rightarrow> node list \<Rightarrow> builder \<Rightarrow> node list \<times> builder" where
  "combine_nodes c [] b = ([], b)"
| "combine_nodes c (strm # strms) b = (case into_stream (CombineNodeOp strm c) b of
     (n, b1) \<Rightarrow> (case combine_nodes c strms b1 of (ns, b2) \<Rightarrow> (n # ns, b2)))"

definition fluent_combine :: "node list \<Rightarrow> builder \<Rightarrow> node \<times> builder" where
  "fluent_combine streams b =
     (let c = bd_bursts b in
      case combine_nodes c streams (b\<lparr>bd_bursts := Suc c\<rparr>) of
        (ns, b1) \<Rightarrow> into_stream (CombineStreamOp ns c []) b1)"

section \<open>Operators of nodes\<close>

text \<open>The values of the types the library's own closures use.\<close>

fun val_add_u64 :: "val \<Rightarrow> val \<Rightarrow> val" where
  "val_add_u64 (VInt a) (VInt b) = VInt ((a + b) mod 2 ^ 64)"
| "val_add_u64 _ _ = VInt 0"

fun val_list :: "val \<Rightarrow> val list" where
  "val_list (VList vs) = vs"
| "val_list _ = []"

fun val_option :: "val \<Rightarrow> val option" where
  "val_option (VList [v]) = Some v"
| "val_option _ = None"

definition push_value :: "val \<Rightarrow> val \<Rightarrow> val" where
  "push_value acc v = VList (val_list acc @ [v])"

definition stream_sample :: "val \<Rightarrow> node \<Rightarrow> node \<Rightarrow> builder \<Rightarrow> node \<times> builder" where
  "stream_sample dflt this trigger = into_stream (SampleOp \<lparr>sa_upstream = this, sa_trigger = trigger, sa_value = dflt\<rparr>)"

definition stream_fold :: "val \<Rightarrow> (val \<Rightarrow> val \<Rightarrow> val) \<Rightarrow> node \<Rightarrow> builder \<Rightarrow> node \<times> builder" where
  "stream_fold dflt func this = into_stream (FoldOp \<lparr>fo_upstream = this, fo_func = func, fo_value = dflt\<rparr>)"

definition stream_reduce :: "val \<Rightarrow> (val \<Rightarrow> val \<Rightarrow> val) \<Rightarrow> node \<Rightarrow> builder \<Rightarrow> node \<times> builder" where
  "stream_reduce dflt func = stream_fold dflt (\<lambda>acc v. func acc v)"

definition node_count :: "node \<Rightarrow> builder \<Rightarrow> node \<times> builder" where
  "node_count this b = (case fluent_constant (VInt 1) b of
     (one, b1) \<Rightarrow> (case stream_sample (VInt 0) one this b1 of
       (smp, b2) \<Rightarrow> stream_reduce (VInt 0) val_add_u64 smp b2))"

definition ticked_at :: "node \<Rightarrow> builder \<Rightarrow> node \<times> builder" where
  "ticked_at this = into_stream (GraphStateOp
     \<lparr>gq_upstream = this, gq_value = VTime nano_zero, gq_func = (\<lambda>gs. VTime (gs_time gs))\<rparr>)"

definition ticked_at_elapsed :: "node \<Rightarrow> builder \<Rightarrow> node \<times> builder" where
  "ticked_at_elapsed this = into_stream (GraphStateOp
     \<lparr>gq_upstream = this, gq_value = VTime nano_zero, gq_func = (\<lambda>gs. VTime (gs_elapsed gs))\<rparr>)"

definition node_produce :: "val \<Rightarrow> (unit \<Rightarrow> val) \<Rightarrow> node \<Rightarrow> builder \<Rightarrow> node \<times> builder" where
  "node_produce dflt func this = into_stream (ProducerOp \<lparr>pd_upstream = this, pd_func = func, pd_value = dflt\<rparr>)"

definition node_throttle :: "duration \<Rightarrow> node \<Rightarrow> builder \<Rightarrow> node \<times> builder" where
  "node_throttle interval this = into_stream (ThrottleNodeOp
     \<lparr>tn_upstream = this, tn_interval = nano_from_duration interval, tn_last_emit_time = None\<rparr>)"

definition node_delay :: "duration \<Rightarrow> node \<Rightarrow> builder \<Rightarrow> node \<times> builder" where
  "node_delay delay this = into_stream (DelayNodeOp
     \<lparr>dn_upstream = this, dn_delay = nano_from_duration delay, dn_queue = tq_new\<rparr>)"

definition node_limit :: "u32 \<Rightarrow> node \<Rightarrow> builder \<Rightarrow> node \<times> builder" where
  "node_limit limit this = into_stream (LimitNodeOp \<lparr>ln_upstream = this, ln_limit = limit, ln_tick_count = 0\<rparr>)"

definition node_filter :: "node \<Rightarrow> node \<Rightarrow> builder \<Rightarrow> node \<times> builder" where
  "node_filter condition this = into_stream (FilterNodeOp \<lparr>fn_upstream = this, fn_condition = condition\<rparr>)"

section \<open>Operators of streams\<close>

definition stream_accumulate :: "node \<Rightarrow> builder \<Rightarrow> node \<times> builder" where
  "stream_accumulate = stream_fold (VList []) push_value"

definition stream_buffer :: "nat \<Rightarrow> nat \<Rightarrow> node \<Rightarrow> builder \<Rightarrow> (node \<times> builder) option" where
  "stream_buffer elem_size capacity this b = do {
     st \<leftarrow> buffer_new elem_size this capacity;
     Some (into_stream (BufferOp st) b)
   }"

definition stream_collect :: "val \<Rightarrow> node \<Rightarrow> builder \<Rightarrow> node \<times> builder" where
  "stream_collect dflt this b = (case ticked_at this b of
     (stamps, b1) \<Rightarrow> (case fluent_bimap (VPair dflt (VTime nano_zero)) (Active this) (Active stamps) VPair b1 of
       (pairs, b2) \<Rightarrow> stream_fold (VList []) push_value pairs b2))"

definition stream_collapse :: "val \<Rightarrow> node \<Rightarrow> builder \<Rightarrow> node \<times> builder" where
  "stream_collapse dflt this = into_stream (MapFilterOp \<lparr>mf_upstream = this, mf_value = dflt,
     mf_func = (\<lambda>x. if val_list x = [] then (dflt, False) else (last (val_list x), True))\<rparr>)"

definition stream_for_each :: "node \<Rightarrow> builder \<Rightarrow> node \<times> builder" where
  "stream_for_each this = into_stream (ConsumerOp \<lparr>cn_upstream = this, cn_calls = []\<rparr>)"

definition stream_try_for_each :: "(val \<Rightarrow> nanotime \<Rightarrow> anyhow + unit) \<Rightarrow> node \<Rightarrow> builder \<Rightarrow> node \<times> builder" where
  "stream_try_for_each func this = into_stream (TryConsumerOp \<lparr>tc_upstream = this, tc_func = func, tc_calls = []\<rparr>)"

definition stream_delay :: "val \<Rightarrow> duration \<Rightarrow> node \<Rightarrow> builder \<Rightarrow> node \<times> builder" where
  "stream_delay dflt d this = into_stream (DelayOp (delay_new dflt this (nano_from_duration d)))"

definition stream_delay_with_reset :: "val \<Rightarrow> duration \<Rightarrow> node \<Rightarrow> node \<Rightarrow> builder \<Rightarrow> node \<times> builder" where
  "stream_delay_with_reset dflt delay trigger this = into_stream (DelayWithResetOp
     \<lparr>dr_value = dflt, dr_queue = tq_new, dr_initialized = False, dr_trigger_index = None, dr_upstream_index = None,
      dr_upstream = this, dr_trigger = trigger, dr_delay = nano_from_duration delay\<rparr>)"

definition stream_difference :: "val \<Rightarrow> (val \<Rightarrow> val \<Rightarrow> val) \<Rightarrow> node \<Rightarrow> builder \<Rightarrow> node \<times> builder" where
  "stream_difference dflt subf this = into_stream (DifferenceOp subf
     \<lparr>df_upstream = this, df_diff = dflt, df_prev_val = None\<rparr>)"

definition stream_distinct :: "val \<Rightarrow> node \<Rightarrow> builder \<Rightarrow> node \<times> builder" where
  "stream_distinct dflt this = into_stream (DistinctOp \<lparr>di_source = this, di_value = dflt, di_last = None\<rparr>)"

definition stream_filter :: "val \<Rightarrow> node \<Rightarrow> node \<Rightarrow> builder \<Rightarrow> node \<times> builder" where
  "stream_filter dflt condition this = into_stream (FilterOp \<lparr>fi_source = this, fi_condition = condition, fi_value = dflt\<rparr>)"

definition stream_map :: "val \<Rightarrow> (val \<Rightarrow> val) \<Rightarrow> node \<Rightarrow> builder \<Rightarrow> node \<times> builder" where
  "stream_map dflt func this = into_stream (MapOp \<lparr>mp_upstream = this, mp_value = dflt, mp_func = func\<rparr>)"

definition stream_try_map :: "val \<Rightarrow> (val \<Rightarrow> anyhow + val) \<Rightarrow> node \<Rightarrow> builder \<Rightarrow> node \<times> builder" where
  "stream_try_map dflt func this = into_stream (TryMapOp \<lparr>tm_upstream = this, tm_value = dflt, tm_func = func\<rparr>)"

definition stream_filter_value :: "val \<Rightarrow> (val \<Rightarrow> bool) \<Rightarrow> node \<Rightarrow> builder \<Rightarrow> node \<times> builder" where
  "stream_filter_value dflt predicate this b = (case stream_map (VBool False) (\<lambda>v. VBool (predicate v)) this b of
     (condition, b1) \<Rightarrow> stream_filter dflt condition this b1)"

definition stream_filter_map :: "val \<Rightarrow> (val \<Rightarrow> val option) \<Rightarrow> node \<Rightarrow> builder \<Rightarrow> node \<times> builder" where
  "stream_filter_map dflt func this = into_stream (MapFilterOp \<lparr>mf_upstream = this, mf_value = dflt,
     mf_func = (\<lambda>v. case func v of Some out \<Rightarrow> (out, True) | None \<Rightarrow> (dflt, False))\<rparr>)"

definition stream_finally :: "val \<Rightarrow> (val \<Rightarrow> graph_state \<Rightarrow> anyhow + unit) \<Rightarrow> node \<Rightarrow> builder \<Rightarrow> node \<times> builder" where
  "stream_finally dflt func this = into_stream (FinallyOp \<lparr>fl_source = this, fl_finally = Some func, fl_value = dflt\<rparr>)"

definition stream_inspect :: "val \<Rightarrow> node \<Rightarrow> builder \<Rightarrow> node \<times> builder" where
  "stream_inspect dflt this = into_stream (InspectOp \<lparr>in_upstream = this, in_value = dflt, in_calls = []\<rparr>)"

definition stream_limit :: "val \<Rightarrow> u32 \<Rightarrow> node \<Rightarrow> builder \<Rightarrow> node \<times> builder" where
  "stream_limit dflt limit this = into_stream (LimitOp
     \<lparr>li_source = this, li_limit = limit, li_tick_count = 0, li_value = dflt\<rparr>)"

text \<open>\<open>enabled\<close>: whether the log level is switched on. The closure logs and returns the value.\<close>

definition stream_logged :: "val \<Rightarrow> bool \<Rightarrow> node \<Rightarrow> builder \<Rightarrow> node \<times> builder" where
  "stream_logged dflt enabled this b = (if \<not> enabled then (this, b)
     else case ticked_at_elapsed this b of
       (stamps, b1) \<Rightarrow> fluent_bimap dflt (Active this) (Active stamps) (\<lambda>v t. v) b1)"

definition stream_not :: "val \<Rightarrow> (val \<Rightarrow> val) \<Rightarrow> node \<Rightarrow> builder \<Rightarrow> node \<times> builder" where
  "stream_not dflt neg = stream_map dflt (\<lambda>v. neg v)"

definition stream_print :: "val \<Rightarrow> node \<Rightarrow> builder \<Rightarrow> node \<times> builder" where
  "stream_print dflt this = into_stream (PrintOp \<lparr>pr_upstream = this, pr_buffer = [], pr_value = dflt\<rparr>)"

definition stream_throttle :: "val \<Rightarrow> duration \<Rightarrow> node \<Rightarrow> builder \<Rightarrow> node \<times> builder" where
  "stream_throttle dflt interval this = into_stream (ThrottleOp
     \<lparr>th_upstream = this, th_interval = nano_from_duration interval, th_last_emit_time = None, th_value = dflt\<rparr>)"

definition stream_with_time :: "val \<Rightarrow> node \<Rightarrow> builder \<Rightarrow> node \<times> builder" where
  "stream_with_time dflt this = into_stream (WithTimeOp \<lparr>wt_upstream = this, wt_value = (nano_zero, dflt)\<rparr>)"

definition stream_timed :: "val \<Rightarrow> node \<Rightarrow> builder \<Rightarrow> node \<times> builder" where
  "stream_timed dflt this = into_stream (TimedOp (timed_new dflt this))"

fun val_fst :: "val \<Rightarrow> val" where
  "val_fst (VPair a b) = a"
| "val_fst v = v"

fun val_snd :: "val \<Rightarrow> val" where
  "val_snd (VPair a b) = b"
| "val_snd v = v"

definition stream_split :: "val \<Rightarrow> val \<Rightarrow> node \<Rightarrow> builder \<Rightarrow> (node \<times> node) \<times> builder" where
  "stream_split dflt_a dflt_b this b = (case stream_map dflt_a val_fst this b of
     (n, b1) \<Rightarrow> (case stream_map dflt_b val_snd this b1 of (m, b2) \<Rightarrow> ((n, m), b2)))"

definition stream_filter_none :: "val \<Rightarrow> node \<Rightarrow> builder \<Rightarrow> node \<times> builder" where
  "stream_filter_none dflt = stream_filter_map dflt val_option"

section \<open>Running\<close>

text \<open>The store of the nodes made: bursts and feedback cells are empty.\<close>

definition builder_store :: "builder \<Rightarrow> store" where
  "builder_store b = \<lparr>st_nodes = (\<lambda>n. if n < length (bd_nodes b) then bd_nodes b ! n else NeverTick),
     st_bursts = (\<lambda>_. []), st_cells = (\<lambda>_. feedback_new)\<rparr>"

definition node_into_graph :: "nat \<Rightarrow> nanotime \<Rightarrow> node \<Rightarrow> run_mode \<Rightarrow> run_for \<Rightarrow> builder \<Rightarrow> graph_state option" where
  "node_into_graph g now this run_mode run_for b =
     graph_new g now (upstream_pairs node_table (builder_store b)) [this] run_mode run_for"

text \<open>\<open>now\<close> and \<open>now'\<close> are the readings of the clock by \<^verbatim>\<open>Graph::new\<close> and \<^verbatim>\<open>run\<close>; \<open>env\<close> is the real-time input.\<close>

definition node_run :: "nat \<Rightarrow> nanotime \<Rightarrow> nanotime \<Rightarrow> (nat \<Rightarrow> rt_input) \<Rightarrow> node \<Rightarrow> run_mode \<Rightarrow> run_for \<Rightarrow> builder \<Rightarrow>
    (store, unit) outcome" where
  "node_run g now now' env this run_mode run_for b =
     (case node_into_graph g now this run_mode run_for b of
        None \<Rightarrow> None
      | Some gs \<Rightarrow> run node_table now' env (gs, builder_store b))"

section \<open>What can be built\<close>

text \<open>An operator in the state its constructor gives it; feedback senders are left out.\<close>

fun fresh_op :: "op \<Rightarrow> bool" where
  "fresh_op (MergeOp st) \<longleftrightarrow> mg_upstream_indices st = []"
| "fresh_op (DelayOp st) \<longleftrightarrow> dl_upstream_index st = None"
| "fresh_op (DelayWithResetOp st) \<longleftrightarrow> dr_upstream_index st = None \<and> dr_trigger_index st = None"
| "fresh_op (FeedbackSendOp c st) \<longleftrightarrow> False"
| "fresh_op _ \<longleftrightarrow> True"

definition op_inputs :: "op \<Rightarrow> node set" where
  "op_inputs op = set (fst (op_ups op)) \<union> set (snd (op_ups op))"

text \<open>Every node is fresh and refers to nodes made before it.\<close>

definition builder_ok :: "builder \<Rightarrow> bool" where
  "builder_ok b \<longleftrightarrow> (\<forall>n < length (bd_nodes b). fresh_op (bd_nodes b ! n) \<and> (\<forall>u \<in> op_inputs (bd_nodes b ! n). u < n))"

definition has_node :: "node \<Rightarrow> builder \<Rightarrow> bool" where
  "has_node n b \<longleftrightarrow> n < length (bd_nodes b)"

text \<open>A method is sound when it keeps the builder well-formed and gives back the handle of a node that exists.\<close>

definition extends :: "builder \<Rightarrow> node \<times> builder \<Rightarrow> bool" where
  "extends b r \<longleftrightarrow> builder_ok (snd r) \<and> has_node (fst r) (snd r) \<and> length (bd_nodes b) \<le> length (bd_nodes (snd r))"

lemma into_stream_extends:
  assumes "builder_ok b" "fresh_op op" "\<forall>u \<in> op_inputs op. has_node u b"
  shows "extends b (into_stream op b)"
  using assms unfolding extends_def builder_ok_def has_node_def into_stream_def
  by (auto simp: nth_append less_Suc_eq)

lemma has_node_mono: "extends b r \<Longrightarrow> has_node n b \<Longrightarrow> has_node n (snd r)"
  by (simp add: extends_def has_node_def)

text \<open>One call after another.\<close>

lemma extends_then:
  assumes "extends b r" "\<And>n b'. r = (n, b') \<Longrightarrow> builder_ok b' \<Longrightarrow> has_node n b' \<Longrightarrow>
      (\<And>m. has_node m b \<Longrightarrow> has_node m b') \<Longrightarrow> extends b' (k n b')"
  shows "extends b (case r of (n, b') \<Rightarrow> k n b')"
proof (cases r)
  case (Pair n b')
  with assms(1) have "builder_ok b'" "has_node n b'" "\<And>m. has_node m b \<Longrightarrow> has_node m b'"
    by (auto simp: extends_def has_node_def)
  from assms(2)[OF Pair this] assms(1) Pair show ?thesis by (auto simp: extends_def)
qed


definition has_dep :: "dep \<Rightarrow> builder \<Rightarrow> bool" where
  "has_dep d b \<longleftrightarrow> has_node (dep_node d) b"

lemma dep_inputs: "set (fst (dep_upstreams ds)) \<union> set (snd (dep_upstreams ds)) = dep_node ` set ds"
  by (auto simp: dep_upstreams_def)

lemmas input_simps = op_inputs_def dep_inputs bimap_upstreams_def trimap_upstreams_def try_bimap_upstreams_def
  try_trimap_upstreams_def has_dep_def delay_new_def timed_new_def

text \<open>The methods that make one node.\<close>

named_theorems fluent_sound \<open>a method keeps the builder well-formed\<close>

lemma sources_sound [fluent_sound]:
  "builder_ok b \<Longrightarrow> extends b (fluent_constant v b)" "builder_ok b \<Longrightarrow> extends b (ticker d b)"
  unfolding fluent_constant_def ticker_def by (auto intro!: into_stream_extends simp: input_simps)

lemma multi_sound [fluent_sound]:
  "builder_ok b \<Longrightarrow> has_dep d1 b \<Longrightarrow> has_dep d2 b \<Longrightarrow> extends b (fluent_bimap d d1 d2 f b)"
  "builder_ok b \<Longrightarrow> has_node n b \<Longrightarrow> has_node m b \<Longrightarrow> extends b (fluent_add d f n m b)"
  "builder_ok b \<Longrightarrow> has_dep d1 b \<Longrightarrow> has_dep d2 b \<Longrightarrow> has_dep d3 b \<Longrightarrow> extends b (fluent_trimap d d1 d2 d3 g b)"
  "builder_ok b \<Longrightarrow> has_dep d1 b \<Longrightarrow> has_dep d2 b \<Longrightarrow> extends b (fluent_try_bimap d d1 d2 h b)"
  "builder_ok b \<Longrightarrow> has_dep d1 b \<Longrightarrow> has_dep d2 b \<Longrightarrow> has_dep d3 b \<Longrightarrow> extends b (fluent_try_trimap d d1 d2 d3 k b)"
  "builder_ok b \<Longrightarrow> \<forall>n \<in> set ns. has_node n b \<Longrightarrow> extends b (fluent_merge d ns b)"
  unfolding fluent_bimap_def fluent_add_def fluent_trimap_def fluent_try_bimap_def fluent_try_trimap_def fluent_merge_def
  by (rule into_stream_extends; simp add: input_simps)+

lemma combine_nodes_sound:
  "builder_ok b \<Longrightarrow> \<forall>n \<in> set ns. has_node n b \<Longrightarrow> combine_nodes c ns b = (ms, b') \<Longrightarrow>
    builder_ok b' \<and> length (bd_nodes b) \<le> length (bd_nodes b') \<and> (\<forall>m \<in> set ms. has_node m b')"
proof (induction ns arbitrary: b ms)
  case Nil
  then show ?case by simp
next
  case (Cons n ns)
  obtain m b1 where m: "into_stream (CombineNodeOp n c) b = (m, b1)" by fastforce
  obtain ms1 where ms: "combine_nodes c ns b1 = (ms1, b')" "ms = m # ms1" using Cons.prems(3) m by (auto split: prod.splits)
  have "extends b (m, b1)" using into_stream_extends[of b "CombineNodeOp n c"] Cons.prems m by (simp add: input_simps)
  then have b1: "builder_ok b1" "has_node m b1" "length (bd_nodes b) \<le> length (bd_nodes b1)" by (simp_all add: extends_def)
  then have "\<forall>n \<in> set ns. has_node n b1" using Cons.prems(2) by (auto simp: has_node_def)
  from Cons.IH[OF b1(1) this ms(1)] b1 ms(2) show ?case by (auto simp: has_node_def)
qed

lemma combine_sound [fluent_sound]:
  assumes "builder_ok b" "\<forall>n \<in> set ns. has_node n b"
  shows "extends b (fluent_combine ns b)"
proof -
  let ?b = "b\<lparr>bd_bursts := Suc (bd_bursts b)\<rparr>"
  obtain ms b' where ms: "combine_nodes (bd_bursts b) ns ?b = (ms, b')" by (metis surj_pair)
  have "builder_ok ?b" "\<forall>n \<in> set ns. has_node n ?b" using assms by (simp_all add: builder_ok_def has_node_def)
  from combine_nodes_sound[OF this ms]
  have b': "builder_ok b'" "length (bd_nodes b) \<le> length (bd_nodes b')" "\<forall>m \<in> set ms. has_node m b'" by simp_all
  then have "extends b' (into_stream (CombineStreamOp ms (bd_bursts b) []) b')"
    by (intro into_stream_extends) (simp_all add: input_simps)
  with ms b'(2) show ?thesis by (simp add: fluent_combine_def extends_def)
qed

lemma node_methods_sound [fluent_sound]:
  assumes "builder_ok b" "has_node n b"
  shows "extends b (ticked_at n b)" "extends b (ticked_at_elapsed n b)" "extends b (node_produce d p n b)"
    "extends b (node_throttle t n b)" "extends b (node_delay t n b)" "extends b (node_limit l n b)"
    "has_node m b \<Longrightarrow> extends b (node_filter m n b)" "has_node m b \<Longrightarrow> extends b (stream_sample d n m b)"
  unfolding ticked_at_def ticked_at_elapsed_def node_produce_def node_throttle_def node_delay_def node_limit_def
    node_filter_def stream_sample_def
  by (rule into_stream_extends; simp add: assms input_simps)+

lemma stream_methods_sound [fluent_sound]:
  assumes "builder_ok b" "has_node n b"
  shows "extends b (stream_fold d f n b)" "extends b (stream_reduce d f n b)" "extends b (stream_accumulate n b)"
    "extends b (stream_collapse d n b)" "extends b (stream_for_each n b)"
    "extends b (stream_try_for_each tf n b)" "extends b (stream_delay d t n b)"
    "has_node m b \<Longrightarrow> extends b (stream_delay_with_reset d t m n b)" "extends b (stream_difference d f n b)"
    "extends b (stream_distinct d n b)" "has_node m b \<Longrightarrow> extends b (stream_filter d m n b)"
    "extends b (stream_map d g n b)" "extends b (stream_try_map d tg n b)" "extends b (stream_filter_map d fm n b)"
    "extends b (stream_finally d fin n b)" "extends b (stream_inspect d n b)" "extends b (stream_limit d l n b)"
    "extends b (stream_not d g n b)" "extends b (stream_print d n b)" "extends b (stream_throttle d t n b)"
    "extends b (stream_with_time d n b)" "extends b (stream_timed d n b)" "extends b (stream_filter_none d n b)"
  unfolding stream_fold_def stream_reduce_def stream_accumulate_def stream_collapse_def
    stream_for_each_def stream_try_for_each_def stream_delay_def stream_delay_with_reset_def stream_difference_def
    stream_distinct_def stream_filter_def stream_map_def stream_try_map_def stream_filter_map_def stream_finally_def
    stream_inspect_def stream_limit_def stream_not_def stream_print_def stream_throttle_def stream_with_time_def
    stream_timed_def stream_filter_none_def
  by (rule into_stream_extends; simp add: assms input_simps)+


lemma buffer_sound [fluent_sound]:
  assumes "builder_ok b" "has_node n b" "stream_buffer sz c n b = Some r"
  shows "extends b r"
  using assms by (auto simp: stream_buffer_def buffer_new_def input_simps intro!: into_stream_extends split: Option.bind_splits)

text \<open>The methods that make several.\<close>

lemma count_sound [fluent_sound]: "builder_ok b \<Longrightarrow> has_node n b \<Longrightarrow> extends b (node_count n b)"
  unfolding node_count_def by (intro extends_then) (auto intro: fluent_sound)

lemma collect_sound [fluent_sound]: "builder_ok b \<Longrightarrow> has_node n b \<Longrightarrow> extends b (stream_collect d n b)"
  unfolding stream_collect_def by (intro extends_then) (auto intro: fluent_sound simp: has_dep_def)

lemma filter_value_sound [fluent_sound]: "builder_ok b \<Longrightarrow> has_node n b \<Longrightarrow> extends b (stream_filter_value d q n b)"
  unfolding stream_filter_value_def by (intro extends_then) (auto intro: fluent_sound)

lemma logged_sound [fluent_sound]: "builder_ok b \<Longrightarrow> has_node n b \<Longrightarrow> extends b (stream_logged d on n b)"
proof (cases on)
  case True
  assume "builder_ok b" "has_node n b"
  with True show ?thesis
    unfolding stream_logged_def by (simp, intro extends_then) (auto intro: fluent_sound simp: has_dep_def)
next
  case False
  assume "builder_ok b" "has_node n b"
  with False show ?thesis by (simp add: stream_logged_def extends_def)
qed

lemma split_sound:
  assumes "builder_ok b" "has_node n b" "stream_split d e n b = ((l, r), b')"
  shows "builder_ok b' \<and> has_node l b' \<and> has_node r b'"
proof -
  obtain m b1 where 1: "stream_map d val_fst n b = (m, b1)" by fastforce
  obtain m' b2 where 2: "stream_map e val_snd n b1 = (m', b2)" by fastforce
  have e1: "extends b (m, b1)" using fluent_sound assms(1,2) 1 by metis
  then have "builder_ok b1" "has_node n b1" using assms(2) by (auto simp: extends_def has_node_def)
  then have "extends b1 (m', b2)" using fluent_sound 2 by metis
  with e1 1 2 assms(3) show ?thesis by (auto simp: stream_split_def extends_def has_node_def)
qed

text \<open>
  The builders a program can reach: it starts with none, and every call names handles it has got
  from earlier calls.
\<close>

inductive built :: "builder \<Rightarrow> bool" where
  b_empty: "built \<lparr>bd_nodes = [], bd_bursts = 0\<rparr>"
| b_constant: "built b \<Longrightarrow> built (snd (fluent_constant v b))"
| b_ticker: "built b \<Longrightarrow> built (snd (ticker t b))"
| b_bimap: "built b \<Longrightarrow> has_dep d1 b \<Longrightarrow> has_dep d2 b \<Longrightarrow> built (snd (fluent_bimap d d1 d2 f b))"
| b_add: "built b \<Longrightarrow> has_node n b \<Longrightarrow> has_node m b \<Longrightarrow> built (snd (fluent_add d f n m b))"
| b_trimap: "built b \<Longrightarrow> has_dep d1 b \<Longrightarrow> has_dep d2 b \<Longrightarrow> has_dep d3 b \<Longrightarrow> built (snd (fluent_trimap d d1 d2 d3 f3 b))"
| b_try_bimap: "built b \<Longrightarrow> has_dep d1 b \<Longrightarrow> has_dep d2 b \<Longrightarrow> built (snd (fluent_try_bimap d d1 d2 tf2 b))"
| b_try_trimap: "built b \<Longrightarrow> has_dep d1 b \<Longrightarrow> has_dep d2 b \<Longrightarrow> has_dep d3 b \<Longrightarrow> built (snd (fluent_try_trimap d d1 d2 d3 tf3 b))"
| b_merge: "built b \<Longrightarrow> \<forall>n \<in> set ns. has_node n b \<Longrightarrow> built (snd (fluent_merge d ns b))"
| b_combine: "built b \<Longrightarrow> \<forall>n \<in> set ns. has_node n b \<Longrightarrow> built (snd (fluent_combine ns b))"
| b_count: "built b \<Longrightarrow> has_node n b \<Longrightarrow> built (snd (node_count n b))"
| b_ticked_at: "built b \<Longrightarrow> has_node n b \<Longrightarrow> built (snd (ticked_at n b))"
| b_ticked_at_elapsed: "built b \<Longrightarrow> has_node n b \<Longrightarrow> built (snd (ticked_at_elapsed n b))"
| b_produce: "built b \<Longrightarrow> has_node n b \<Longrightarrow> built (snd (node_produce d p n b))"
| b_node_throttle: "built b \<Longrightarrow> has_node n b \<Longrightarrow> built (snd (node_throttle t n b))"
| b_node_delay: "built b \<Longrightarrow> has_node n b \<Longrightarrow> built (snd (node_delay t n b))"
| b_node_limit: "built b \<Longrightarrow> has_node n b \<Longrightarrow> built (snd (node_limit l n b))"
| b_node_filter: "built b \<Longrightarrow> has_node n b \<Longrightarrow> has_node m b \<Longrightarrow> built (snd (node_filter m n b))"
| b_accumulate: "built b \<Longrightarrow> has_node n b \<Longrightarrow> built (snd (stream_accumulate n b))"
| b_buffer: "built b \<Longrightarrow> has_node n b \<Longrightarrow> stream_buffer sz c n b = Some r \<Longrightarrow> built (snd r)"
| b_collect: "built b \<Longrightarrow> has_node n b \<Longrightarrow> built (snd (stream_collect d n b))"
| b_collapse: "built b \<Longrightarrow> has_node n b \<Longrightarrow> built (snd (stream_collapse d n b))"
| b_for_each: "built b \<Longrightarrow> has_node n b \<Longrightarrow> built (snd (stream_for_each n b))"
| b_try_for_each: "built b \<Longrightarrow> has_node n b \<Longrightarrow> built (snd (stream_try_for_each tc n b))"
| b_delay: "built b \<Longrightarrow> has_node n b \<Longrightarrow> built (snd (stream_delay d t n b))"
| b_delay_with_reset: "built b \<Longrightarrow> has_node n b \<Longrightarrow> has_node m b \<Longrightarrow> built (snd (stream_delay_with_reset d t m n b))"
| b_difference: "built b \<Longrightarrow> has_node n b \<Longrightarrow> built (snd (stream_difference d f n b))"
| b_distinct: "built b \<Longrightarrow> has_node n b \<Longrightarrow> built (snd (stream_distinct d n b))"
| b_filter: "built b \<Longrightarrow> has_node n b \<Longrightarrow> has_node m b \<Longrightarrow> built (snd (stream_filter d m n b))"
| b_filter_value: "built b \<Longrightarrow> has_node n b \<Longrightarrow> built (snd (stream_filter_value d q n b))"
| b_filter_map: "built b \<Longrightarrow> has_node n b \<Longrightarrow> built (snd (stream_filter_map d fm n b))"
| b_finally: "built b \<Longrightarrow> has_node n b \<Longrightarrow> built (snd (stream_finally d fin n b))"
| b_fold: "built b \<Longrightarrow> has_node n b \<Longrightarrow> built (snd (stream_fold d f n b))"
| b_inspect: "built b \<Longrightarrow> has_node n b \<Longrightarrow> built (snd (stream_inspect d n b))"
| b_limit: "built b \<Longrightarrow> has_node n b \<Longrightarrow> built (snd (stream_limit d l n b))"
| b_logged: "built b \<Longrightarrow> has_node n b \<Longrightarrow> built (snd (stream_logged d on n b))"
| b_map: "built b \<Longrightarrow> has_node n b \<Longrightarrow> built (snd (stream_map d g n b))"
| b_try_map: "built b \<Longrightarrow> has_node n b \<Longrightarrow> built (snd (stream_try_map d tg n b))"
| b_not: "built b \<Longrightarrow> has_node n b \<Longrightarrow> built (snd (stream_not d g n b))"
| b_print: "built b \<Longrightarrow> has_node n b \<Longrightarrow> built (snd (stream_print d n b))"
| b_reduce: "built b \<Longrightarrow> has_node n b \<Longrightarrow> built (snd (stream_reduce d f n b))"
| b_sample: "built b \<Longrightarrow> has_node n b \<Longrightarrow> has_node m b \<Longrightarrow> built (snd (stream_sample d n m b))"
| b_throttle: "built b \<Longrightarrow> has_node n b \<Longrightarrow> built (snd (stream_throttle d t n b))"
| b_with_time: "built b \<Longrightarrow> has_node n b \<Longrightarrow> built (snd (stream_with_time d n b))"
| b_timed: "built b \<Longrightarrow> has_node n b \<Longrightarrow> built (snd (stream_timed d n b))"
| b_filter_none: "built b \<Longrightarrow> has_node n b \<Longrightarrow> built (snd (stream_filter_none d n b))"
| b_split: "built b \<Longrightarrow> has_node n b \<Longrightarrow> built (snd (stream_split d e n b))"

lemma extends_ok: "extends b r \<Longrightarrow> builder_ok (snd r)"
  by (simp add: extends_def)

lemma built_ok: "built b \<Longrightarrow> builder_ok b"
proof (induction rule: built.induct)
  case b_empty
  show ?case by (simp add: builder_ok_def)
next
  case (b_split b n d e)
  obtain l r b' where "stream_split d e n b = ((l, r), b')" by (metis surj_pair)
  with split_sound[OF b_split.IH b_split.hyps(2) this] show ?case by simp
qed (rule extends_ok, (rule fluent_sound; assumption))+


section \<open>A graph of fresh operators runs\<close>

lemma fresh_op_ok:
  assumes "fresh_op op" "\<And>u. u \<in> set (fst (op_ups op)) \<Longrightarrow> node_index gs u \<noteq> None"
  shows "op_ok gs cells op"
  using assms by (cases op) (auto simp: cached_ok_def)

lemma reachable_up:
  assumes "n \<in> reachable ups roots" "p \<in> set (ups n)"
  shows "fst p \<in> reachable ups roots"
proof -
  have "(n, fst p) \<in> up_rel ups" using assms(2) by (auto simp: up_rel_def)
  with assms(1) show ?thesis unfolding reachable_def by (auto intro: rtrancl_into_rtrancl)
qed

lemma table_inv_fresh:
  assumes "registry_ok gs" "\<forall>n. seen gs n \<longleftrightarrow> n \<in> reachable (upstream_pairs node_table s) roots"
    "\<forall>n \<in> reachable (upstream_pairs node_table s) roots. fresh_op (st_nodes s n)"
  shows "table_inv gs s"
  unfolding table_inv_def
proof (intro allI impI)
  fix i assume i: "i < length (nodes gs)"
  define n where "n = nd_node (nodes gs ! i)"
  have n: "n \<in> reachable (upstream_pairs node_table s) roots"
    using assms(1,2) i unfolding n_def registry_ok_def seen_def by (metis option.distinct(1))
  have "node_index gs u \<noteq> None" if "u \<in> set (fst (op_ups (st_nodes s n)))" for u
  proof -
    have "(u, True) \<in> set (upstream_pairs node_table s n)"
      using that by (cases "op_ups (st_nodes s n)") (auto simp: upstream_pairs_def node_table_def)
    from reachable_up[OF n this] assms(2) show ?thesis by (auto simp: node_index_def seen_def)
  qed
  then show "op_ok gs (st_cells s) (st_nodes s (nd_node (nodes gs ! i)))"
    using fresh_op_ok assms(3) n unfolding n_def by blast
qed

lemma graph_new_frame:
  assumes "finite (reachable ups roots)" "graph_new g now ups roots m f = Some gs"
  shows "pending_additions gs = [] \<and> gs_run_mode gs = m"
proof -
  let ?gs0 = "graph_state_new g m f (run_mode_start_time now m)"
  obtain gs1 r where 1: "initialise_roots ups roots ?gs0 = Some (gs1, r)" "same_but_nodes ?gs0 gs1"
    using initialise_roots_result[OF graph_state_new_registry assms(1), of g m f "run_mode_start_time now m"] by blast
  obtain x y z where "gs1 = ?gs0\<lparr>nodes := x, node_ticked := y, node_to_index := z\<rparr>"
    using 1(2) unfolding same_but_nodes_def by blast
  then have "pending_additions gs1 = []" "gs_run_mode gs1 = m" by (simp_all add: graph_state_new_def)
  with assms(2) 1(1) show ?thesis
    by (auto simp: graph_new_def initialise_def split: option.splits Option.bind_splits)
qed

lemma wired_runs:
  assumes "finite (reachable (upstream_pairs node_table s) roots)"
    "card (reachable (upstream_pairs node_table s) roots) < 2 ^ 31"
    "\<forall>u \<in> reachable (upstream_pairs node_table s) roots. (u, u) \<notin> (up_rel (upstream_pairs node_table s))\<^sup>+"
    "\<forall>n \<in> reachable (upstream_pairs node_table s) roots. fresh_op (st_nodes s n)"
  shows "\<exists>gs w' r. graph_new g now (upstream_pairs node_table s) roots (HistoricalFrom t) f = Some gs \<and>
    (\<forall>n. seen gs n \<longleftrightarrow> n \<in> reachable (upstream_pairs node_table s) roots) \<and>
    (\<forall>n u. seen gs n \<and> u \<in> set (fst (op_ups (st_nodes s n))) \<union> set (snd (op_ups (st_nodes s n))) \<longrightarrow> seen gs u) \<and>
    run node_table now' env (gs, s) = Some (w', r) \<and> world_ok table_inv w'"
proof -
  let ?ups = "upstream_pairs node_table s"
  obtain gs where gs: "graph_new g now ?ups roots (HistoricalFrom t) f = Some gs" "wiring_error gs = None"
    "wf_graph gs" "wf_dirty gs" "registry_ok gs" "\<forall>n. seen gs n \<longleftrightarrow> n \<in> reachable ?ups roots"
    using graph_new_result[OF assms(1,2), of g now "HistoricalFrom t" f] assms(3) by auto
  have inv: "table_inv gs s" using table_inv_fresh[OF gs(5,6) assms(4)] .
  have "world_ok table_inv (gs, s)" using gs inv by (simp add: world_ok_def)
  moreover have "pending_additions (fst (gs, s)) = []" "gs_run_mode (fst (gs, s)) = HistoricalFrom t"
    using graph_new_frame[OF assms(1) gs(1)] by simp_all
  ultimately obtain w' r where "run node_table now' env (gs, s) = Some (w', r)" "world_ok table_inv w'"
    using tbl.run_historical[of "(gs, s)" t now' env] gs(2) by auto
  moreover have "seen gs u" if "seen gs n" "u \<in> set (fst (op_ups (st_nodes s n))) \<union> set (snd (op_ups (st_nodes s n)))" for n u
  proof -
    have "(n, u) \<in> up_rel ?ups" using that(2)
      by (cases "op_ups (st_nodes s n)") (force simp: up_rel_def upstream_pairs_def node_table_def)
    with that(1) gs(6) show ?thesis by (auto simp: reachable_def intro: rtrancl_into_rtrancl)
  qed
  ultimately show ?thesis using gs(1,6) by blast
qed

section \<open>What was built can be run\<close>

lemma builder_edges:
  assumes "builder_ok b" "(n, u) \<in> up_rel (upstream_pairs node_table (builder_store b))"
  shows "u < n"
proof -
  have u: "u \<in> op_inputs (st_nodes (builder_store b) n)"
    using assms(2) by (cases "op_ups (st_nodes (builder_store b) n)")
      (auto simp: up_rel_def upstream_pairs_def node_table_def op_inputs_def)
  show ?thesis
  proof (cases "n < length (bd_nodes b)")
    case True
    with u assms(1) show ?thesis by (simp add: builder_ok_def builder_store_def)
  next
    case False
    with u show ?thesis by (simp add: builder_store_def op_inputs_def)
  qed
qed

lemma builder_reach:
  assumes "builder_ok b" "m \<in> reachable (upstream_pairs node_table (builder_store b)) [n]"
  shows "m \<le> n"
proof -
  from assms(2) have "(n, m) \<in> (up_rel (upstream_pairs node_table (builder_store b)))\<^sup>*" by (simp add: reachable_def)
  then show ?thesis by (induction rule: rtrancl_induct) (use builder_edges[OF assms(1)] in fastforce)+
qed

lemma builder_acyclic:
  assumes "builder_ok b"
  shows "(u, u) \<notin> (up_rel (upstream_pairs node_table (builder_store b)))\<^sup>+"
proof -
  have "v < u" if "(u, v) \<in> (up_rel (upstream_pairs node_table (builder_store b)))\<^sup>+" for u v
    using that by (induction rule: trancl_induct) (use builder_edges[OF assms] in fastforce)+
  then show ?thesis by blast
qed

lemma builder_fresh: "builder_ok b \<Longrightarrow> fresh_op (st_nodes (builder_store b) n)"
  by (simp add: builder_ok_def builder_store_def)

lemma builder_runs:
  assumes "builder_ok b" "n < 2 ^ 31 - 1"
  shows "\<exists>w r. node_run g now now' env n (HistoricalFrom t) f b = Some (w, r) \<and> world_ok table_inv w"
proof -
  let ?ups = "upstream_pairs node_table (builder_store b)"
  have sub: "reachable ?ups [n] \<subseteq> {..n}" using builder_reach[OF assms(1)] by auto
  then have fin: "finite (reachable ?ups [n])" by (rule finite_subset) simp
  have "card (reachable ?ups [n]) \<le> card {..n}" by (rule card_mono[OF _ sub]) simp
  then have "card (reachable ?ups [n]) < 2 ^ 31" using assms(2) by simp
  from wired_runs[OF fin this] builder_acyclic[OF assms(1)] builder_fresh[OF assms(1)]
  obtain gs w r where "graph_new g now ?ups [n] (HistoricalFrom t) f = Some gs"
    "run node_table now' env (gs, builder_store b) = Some (w, r)" "world_ok table_inv w" by blast
  then show ?thesis by (simp add: node_run_def node_into_graph_def)
qed


section \<open>Counting and collecting\<close>

text \<open>
  One tick of a node, as the nodes on the path see it: the engine cycles them in the order of their
  layers. \<open>cycle_path\<close> cycles the given nodes one after the other; \<open>cycle_ticks\<close> does so once for
  each of the given graph states.
\<close>

fun cycle_path :: "node list \<Rightarrow> graph_state \<Rightarrow> store \<Rightarrow> store option" where
  "cycle_path [] gs s = Some s"
| "cycle_path (n # ns) gs s = (case table_cycle n gs s of Some (s', cmds, Inr True) \<Rightarrow> cycle_path ns gs s' | _ \<Rightarrow> None)"

fun cycle_ticks :: "node list \<Rightarrow> graph_state list \<Rightarrow> store \<Rightarrow> store option" where
  "cycle_ticks ns [] s = Some s"
| "cycle_ticks ns (gs # gss) s = Option.bind (cycle_path ns gs s) (cycle_ticks ns gss)"

definition counting :: "node \<Rightarrow> node \<Rightarrow> node \<Rightarrow> node \<Rightarrow> nat \<Rightarrow> store \<Rightarrow> bool" where
  "counting this one smp cnt k s \<longleftrightarrow> st_nodes s one = Constant \<lparr>co_value = VInt 1\<rparr> \<and>
     (\<exists>v. st_nodes s smp = SampleOp \<lparr>sa_upstream = one, sa_trigger = this, sa_value = v\<rparr>) \<and>
     st_nodes s cnt = FoldOp \<lparr>fo_upstream = smp, fo_func = (\<lambda>acc v. val_add_u64 acc v), fo_value = VInt (int k mod 2 ^ 64)\<rparr>"

lemma counting_step:
  assumes "counting this one smp cnt k s" "one \<noteq> smp" "smp \<noteq> cnt" "one \<noteq> cnt"
  shows "\<exists>s'. cycle_path [smp, cnt] gs s = Some s' \<and> counting this one smp cnt (Suc k) s'"
proof -
  obtain v where v: "st_nodes s smp = SampleOp \<lparr>sa_upstream = one, sa_trigger = this, sa_value = v\<rparr>"
    using assms(1) by (auto simp: counting_def)
  define s1 where "s1 = set_op smp (SampleOp \<lparr>sa_upstream = one, sa_trigger = this, sa_value = VInt 1\<rparr>) s"
  have 1: "table_cycle smp gs s = Some (s1, [], Inr True)"
    using assms(1) v by (simp add: table_cycle_def pure_result_def sample_cycle_def peek_def counting_def s1_def)
  define s2 where "s2 = set_op cnt (FoldOp \<lparr>fo_upstream = smp, fo_func = (\<lambda>acc v. val_add_u64 acc v),
      fo_value = VInt (int (Suc k) mod 2 ^ 64)\<rparr>) s1"
  have "(int k mod 2 ^ 64 + 1) mod 2 ^ 64 = int (Suc k) mod 2 ^ 64" by (simp add: mod_simps add.commute)
  then have "table_cycle cnt gs s1 = Some (s2, [], Inr True)"
    using assms by (simp add: table_cycle_def pure_result_def fold_cycle_def peek_def counting_def s1_def s2_def set_op_def)
  with 1 assms show ?thesis by (auto simp: counting_def s1_def s2_def set_op_def)
qed

lemma counting_ticks:
  assumes "counting this one smp cnt k s" "one \<noteq> smp" "smp \<noteq> cnt" "one \<noteq> cnt"
  shows "\<exists>s'. cycle_ticks [smp, cnt] gss s = Some s' \<and> counting this one smp cnt (k + length gss) s'"
  using assms(1)
proof (induction gss arbitrary: k s)
  case Nil
  then show ?case by simp
next
  case (Cons gs gss)
  from counting_step[OF Cons.prems assms(2-4)] obtain s1 where
    "cycle_path [smp, cnt] gs s = Some s1" "counting this one smp cnt (Suc k) s1" by blast
  with Cons.IH[of "Suc k" s1] show ?case by simp
qed


text \<open>
  C31. A graph built by the methods of \<open>built\<close> can be run. These are, with whatever closures that
  return and on handles the program was given: \<^verbatim>\<open>constant\<close>, \<^verbatim>\<open>ticker\<close>, \<^verbatim>\<open>bimap\<close>, \<^verbatim>\<open>add\<close>, \<^verbatim>\<open>trimap\<close>,
  \<^verbatim>\<open>try_bimap\<close>, \<^verbatim>\<open>try_trimap\<close>, \<^verbatim>\<open>merge\<close>, \<^verbatim>\<open>combine\<close>, \<^verbatim>\<open>count\<close>, \<^verbatim>\<open>ticked_at\<close>, \<^verbatim>\<open>ticked_at_elapsed\<close>, \<^verbatim>\<open>produce\<close>,
  \<^verbatim>\<open>throttle\<close>, \<^verbatim>\<open>delay\<close>, \<^verbatim>\<open>limit\<close> and \<^verbatim>\<open>filter\<close> (of nodes and of streams), \<^verbatim>\<open>accumulate\<close>, \<^verbatim>\<open>buffer\<close> (with a
  capacity that can be allocated; otherwise the call itself panics), \<^verbatim>\<open>collect\<close>, \<^verbatim>\<open>collapse\<close>, \<^verbatim>\<open>for_each\<close>,
  \<^verbatim>\<open>try_for_each\<close>, \<^verbatim>\<open>delay_with_reset\<close>, \<^verbatim>\<open>difference\<close>, \<^verbatim>\<open>distinct\<close>, \<^verbatim>\<open>filter_value\<close>, \<^verbatim>\<open>filter_map\<close>,
  \<^verbatim>\<open>filter_none\<close>, \<^verbatim>\<open>finally\<close>, \<^verbatim>\<open>fold\<close>, \<^verbatim>\<open>inspect\<close>, \<^verbatim>\<open>logged\<close>, \<^verbatim>\<open>map\<close>, \<^verbatim>\<open>try_map\<close>, \<^verbatim>\<open>not\<close>, \<^verbatim>\<open>print\<close>, \<^verbatim>\<open>reduce\<close>,
  \<^verbatim>\<open>sample\<close>, \<^verbatim>\<open>with_time\<close>, \<^verbatim>\<open>timed\<close> and \<^verbatim>\<open>split\<close>. \<^verbatim>\<open>run\<close> on any node of such a graph in historical mode
  returns, with success or with an error value, never with a panic or an endless loop, and leaves the
  graph well-formed. The other methods are excluded: \<^verbatim>\<open>window\<close>, whose node loops for ever on an interval
  of zero, the feedback senders, the demultiplexers, and what makes asynchronous or threaded nodes.
\<close>

theorem fluent_graph_runs:
  assumes "built b" "has_node n b" "length (bd_nodes b) < 2 ^ 31"
  shows "\<exists>w r. node_run g now now' env n (HistoricalFrom t) f b = Some (w, r) \<and> world_ok table_inv w"
  using builder_runs[OF built_ok[OF assms(1)]] assms(2,3) by (auto simp: has_node_def)

text \<open>A ticker, its count, and the count doubled.\<close>

definition example_program :: "node \<times> builder" where
  "example_program = (case ticker \<lparr>dur_secs = 1, dur_subsec_nanos = 0\<rparr> \<lparr>bd_nodes = [], bd_bursts = 0\<rparr> of
     (tick, b1) \<Rightarrow> (case node_count tick b1 of
       (cnt, b2) \<Rightarrow> stream_map (VInt 0) (\<lambda>v. val_add_u64 v v) cnt b2))"

lemma example_built: "built (snd example_program)"
proof -
  let ?b0 = "\<lparr>bd_nodes = [], bd_bursts = 0\<rparr>" and ?t = "\<lparr>dur_secs = 1, dur_subsec_nanos = 0\<rparr>"
  have 1: "built (snd (ticker ?t ?b0))" by (intro built.intros)
  moreover have "has_node 0 (snd (ticker ?t ?b0))" by (simp add: ticker_def into_stream_def has_node_def)
  ultimately have 2: "built (snd (node_count 0 (snd (ticker ?t ?b0))))" by (rule b_count)
  moreover have "has_node 3 (snd (node_count 0 (snd (ticker ?t ?b0))))"
    by (simp add: ticker_def into_stream_def has_node_def node_count_def fluent_constant_def stream_sample_def
        stream_reduce_def stream_fold_def)
  ultimately have "built (snd (stream_map (VInt 0) (\<lambda>v. val_add_u64 v v) 3 (snd (node_count 0 (snd (ticker ?t ?b0))))))"
    by (rule b_map)
  then show ?thesis
    by (simp add: numeral_3_eq_3 example_program_def ticker_def into_stream_def node_count_def fluent_constant_def stream_sample_def
        stream_reduce_def stream_fold_def)
qed

theorem fluent_graph_runs_witness:
  "\<exists>w r. node_run 0 nano_zero nano_zero (\<lambda>_. \<lparr>rt_arrived = [], rt_wait_clock = nano_zero, rt_received = None, rt_now = nano_zero, rt_wall = nano_zero\<rparr>)
      (fst example_program) (HistoricalFrom nano_zero) (Cycles 3) (snd example_program) = Some (w, r)"
proof -
  have "has_node (fst example_program) (snd example_program)" "length (bd_nodes (snd example_program)) < 2 ^ 31"
    by (simp_all add: example_program_def ticker_def into_stream_def node_count_def fluent_constant_def stream_sample_def
        stream_reduce_def stream_fold_def stream_map_def has_node_def)
  from fluent_graph_runs[OF example_built this] show ?thesis by blast
qed

text \<open>
  \<^verbatim>\<open>count\<close> counts: cycling its two nodes in the order of their layers once for every tick of the
  node it is called on, whatever the graph does in between, leaves the number of ticks, modulo
  \<open>2^64\<close>, as its value.
\<close>

lemma count_counts:
  "\<exists>s. cycle_ticks [fst (node_count this b) - 1, fst (node_count this b)] gss (builder_store (snd (node_count this b))) = Some s \<and>
    peek s (fst (node_count this b)) = VInt (int (length gss) mod 2 ^ 64)"
proof -
  let ?l = "length (bd_nodes b)"
  have ids: "fst (node_count this b) = ?l + 2"
    by (simp add: node_count_def fluent_constant_def stream_sample_def stream_reduce_def stream_fold_def into_stream_def)
  have "counting this ?l (?l + 1) (?l + 2) 0 (builder_store (snd (node_count this b)))"
    by (simp add: counting_def builder_store_def node_count_def fluent_constant_def stream_sample_def stream_reduce_def
        stream_fold_def into_stream_def nth_append)
  from counting_ticks[OF this, of gss] ids show ?thesis by (auto simp: counting_def peek_def)
qed

end
