(* ===== verification/Demux.thy ===== *)
theory Demux
  imports Graph_State
begin

text \<open>
  The demultiplexer of \<^verbatim>\<open>nodes/demux.rs\<close>: the map from keys to output slots, the parent nodes
  that route values to child nodes by marking them dirty, and the children.

  \<open>pick\<close> stands for \<^verbatim>\<open>HashSet::iter().next()\<close>, the first element in an unspecified order;
  \<open>picks\<close> says what the standard library documents: some element of a non-empty set. Closures
  are arguments.

  The theorems: live keys have slots of their own and keep them, values overflow only when
  every slot is taken (\<open>demux_slots\<close>), and a burst is distributed without loss and in order
  (\<open>demux_burst_partitioned\<close>).
\<close>

section \<open>The slot map\<close>

datatype demux_event = NoEvent | Close

datatype demux_entry = Slot nat | Overflow

record 'k demux_map =
  dm_available :: "nat set"
  dm_in_use :: "'k \<rightharpoonup> nat option"
  dm_size :: nat

definition demux_map_new :: "nat \<Rightarrow> 'k demux_map" where
  "demux_map_new n = \<lparr>dm_available = {..<n}, dm_in_use = Map.empty, dm_size = n\<rparr>"

definition peek_available :: "(nat set \<Rightarrow> nat option) \<Rightarrow> 'k demux_map \<Rightarrow> nat option" where
  "peek_available pick m = pick (dm_available m)"

definition release :: "(nat set \<Rightarrow> nat option) \<Rightarrow> 'k \<Rightarrow> 'k demux_map \<Rightarrow> 'k demux_map \<times> demux_entry" where
  "release pick key m = (case dm_in_use m key of
       Some (Some ix) \<Rightarrow>
         (m\<lparr>dm_in_use := (dm_in_use m)(key := None), dm_available := insert ix (dm_available m)\<rparr>, Slot ix)
     | Some None \<Rightarrow> (m\<lparr>dm_in_use := (dm_in_use m)(key := None)\<rparr>, Overflow)
     | None \<Rightarrow> (m, case peek_available pick m of Some ix \<Rightarrow> Slot ix | None \<Rightarrow> Overflow))"

definition get_or_insert :: "(nat set \<Rightarrow> nat option) \<Rightarrow> 'k \<Rightarrow> 'k demux_map \<Rightarrow> 'k demux_map \<times> demux_entry" where
  "get_or_insert pick key m = (case dm_in_use m key of
       Some (Some ix) \<Rightarrow> (m, Slot ix)
     | Some None \<Rightarrow> (m, Overflow)
     | None \<Rightarrow> (case peek_available pick m of
           Some index \<Rightarrow> (m\<lparr>dm_available := dm_available m - {index},
              dm_in_use := (dm_in_use m)(key \<mapsto> Some index)\<rparr>, Slot index)
         | None \<Rightarrow> (m\<lparr>dm_in_use := (dm_in_use m)(key \<mapsto> None)\<rparr>, Overflow)))"

text \<open>The dispatch on the event, common to the two parents.\<close>

definition route_entry :: "(nat set \<Rightarrow> nat option) \<Rightarrow> 'k \<times> demux_event \<Rightarrow> 'k demux_map \<Rightarrow> 'k demux_map \<times> demux_entry" where
  "route_entry pick ke m = (case snd ke of
       Close \<Rightarrow> release pick (fst ke) m
     | NoEvent \<Rightarrow> get_or_insert pick (fst ke) m)"

section \<open>Setup\<close>

text \<open>
  The handles shared with the factory: the children still to be resolved and the overflow
  child. \<^verbatim>\<open>drain(..)\<close> empties the list even when a child cannot be resolved.
\<close>

record demux_handles =
  dh_children :: "node list"
  dh_overflow_child :: "node option"

fun resolve_children :: "graph_state \<Rightarrow> node list \<Rightarrow> anyhow + nat list" where
  "resolve_children gs [] = Inr []"
| "resolve_children gs (n # ns) = (case node_index gs n of
       None \<Rightarrow> Inl (Anyhow ''Failed to resolve graph index of demux child node.  Was it added to the graph?'')
     | Some i \<Rightarrow> (case resolve_children gs ns of Inl e \<Rightarrow> Inl e | Inr is \<Rightarrow> Inr (i # is)))"

definition setup_demux_children :: "graph_state \<Rightarrow> demux_handles \<Rightarrow> nat list \<Rightarrow>
    demux_handles \<times> nat list \<times> (anyhow + nat option)" where
  "setup_demux_children gs h index_map =
     (let h1 = h\<lparr>dh_children := []\<rparr> in
      case resolve_children gs (dh_children h) of
        Inl e \<Rightarrow> (h1, index_map, Inl e)
      | Inr is \<Rightarrow>
          (let im = index_map @ is in
           case dh_overflow_child h of
             None \<Rightarrow> (h1, im, Inl (Anyhow ''demux overflow child is already taken''))
           | Some ov \<Rightarrow>
               (let h2 = h1\<lparr>dh_overflow_child := None\<rparr> in
                case node_index gs ov of
                  None \<Rightarrow> (h2, im, Inl (Anyhow ''Failed to resolve graph index of demux overflow node.  Was it added to the graph?''))
                | Some i \<Rightarrow>
                    if im = [] then (h2, im, Inl (Anyhow ''Failed to resolve any children to demux into''))
                    else (h2, im, Inr (Some i)))))"

section \<open>One value at a time\<close>

record ('t, 'k) demux_parent =
  dp_source :: node
  dp_func :: "'t \<Rightarrow> 'k \<times> demux_event"
  dp_map :: "'k demux_map"
  dp_handles :: demux_handles
  dp_value :: 't
  dp_index_map :: "nat list"
  dp_overflow_graph_index :: "nat option"

definition demux :: "node \<Rightarrow> 'k demux_map \<Rightarrow> ('t \<Rightarrow> 'k \<times> demux_event) \<Rightarrow> (nat \<Rightarrow> node) \<Rightarrow> 't \<Rightarrow> ('t, 'k) demux_parent" where
  "demux source m func build_child dflt =
     \<lparr>dp_source = source, dp_func = func, dp_map = m,
      dp_handles = \<lparr>dh_children = map build_child [0..<dm_size m], dh_overflow_child = Some (build_child (dm_size m))\<rparr>,
      dp_value = dflt, dp_index_map = [], dp_overflow_graph_index = None\<rparr>"

text \<open>The graph index of an entry; an index out of range or a missing overflow index panics.\<close>

definition entry_graph_index :: "nat list \<Rightarrow> nat option \<Rightarrow> demux_entry \<Rightarrow> nat option" where
  "entry_graph_index index_map overflow e = (case e of
       Overflow \<Rightarrow> overflow
     | Slot i \<Rightarrow> if i < length index_map then Some (index_map ! i) else None)"

definition demux_parent_cycle :: "(nat set \<Rightarrow> nat option) \<Rightarrow> (node \<Rightarrow> 't) \<Rightarrow> ('t, 'k) demux_parent \<Rightarrow>
    (('t, 'k) demux_parent \<times> cmd list \<times> bool) option" where
  "demux_parent_cycle pick peek st =
     (let v = peek (dp_source st);
          (m, entry) = route_entry pick (dp_func st v) (dp_map st)
      in case entry_graph_index (dp_index_map st) (dp_overflow_graph_index st) entry of
           None \<Rightarrow> None
         | Some graph_index \<Rightarrow> Some (st\<lparr>dp_value := v, dp_map := m\<rparr>, [MarkDirty graph_index], False))"

definition demux_parent_setup :: "graph_state \<Rightarrow> ('t, 'k) demux_parent \<Rightarrow> ('t, 'k) demux_parent \<times> (anyhow + unit)" where
  "demux_parent_setup gs st = (case setup_demux_children gs (dp_handles st) (dp_index_map st) of
       (h, im, Inl e) \<Rightarrow> (st\<lparr>dp_handles := h, dp_index_map := im\<rparr>, Inl e)
     | (h, im, Inr ov) \<Rightarrow> (st\<lparr>dp_handles := h, dp_index_map := im, dp_overflow_graph_index := ov\<rparr>, Inr ()))"

record 't demux_child =
  dc_source :: node
  dc_value :: 't

definition demux_child_cycle :: "(node \<Rightarrow> 't) \<Rightarrow> 't demux_child \<Rightarrow> 't demux_child \<times> bool" where
  "demux_child_cycle peek st = (st\<lparr>dc_value := peek (dc_source st)\<rparr>, True)"

section \<open>A burst at a time\<close>

record ('t, 'k) demux_vec_parent =
  dv_source :: node
  dv_func :: "'t \<Rightarrow> 'k \<times> demux_event"
  dv_map :: "'k demux_map"
  dv_handles :: demux_handles
  dv_value :: "'t list list"
  dv_index_map :: "nat list"
  dv_overflow_graph_index :: "nat option"

text \<open>One item: its row and the child it wakes.\<close>

definition entry_row :: "'k demux_map \<Rightarrow> demux_entry \<Rightarrow> nat" where
  "entry_row m e = (case e of Overflow \<Rightarrow> dm_size m | Slot i \<Rightarrow> i)"

fun demux_items :: "(nat set \<Rightarrow> nat option) \<Rightarrow> 't list \<Rightarrow> ('t, 'k) demux_vec_parent \<Rightarrow>
    (('t, 'k) demux_vec_parent \<times> cmd list) option" where
  "demux_items pick [] st = Some (st, [])"
| "demux_items pick (item # items) st =
     (let (m, entry) = route_entry pick (dv_func st item) (dv_map st);
          index = entry_row m entry
      in case entry_graph_index (dv_index_map st) (dv_overflow_graph_index st) entry of
           None \<Rightarrow> None
         | Some graph_index \<Rightarrow>
             if index < length (dv_value st) then do {
               (st', cmds) \<leftarrow> demux_items pick items
                 (st\<lparr>dv_map := m, dv_value := (dv_value st)[index := dv_value st ! index @ [item]]\<rparr>);
               Some (st', MarkDirty graph_index # cmds) }
             else None)"

definition demux_vec_parent_cycle :: "(nat set \<Rightarrow> nat option) \<Rightarrow> (node \<Rightarrow> 't list) \<Rightarrow> ('t, 'k) demux_vec_parent \<Rightarrow>
    (('t, 'k) demux_vec_parent \<times> cmd list \<times> bool) option" where
  "demux_vec_parent_cycle pick peek st = do {
     (st', cmds) \<leftarrow> demux_items pick (peek (dv_source st)) (st\<lparr>dv_value := map (\<lambda>_. []) (dv_value st)\<rparr>);
     Some (st', cmds, False) }"

definition demux_vec_parent_setup :: "graph_state \<Rightarrow> ('t, 'k) demux_vec_parent \<Rightarrow>
    ('t, 'k) demux_vec_parent \<times> (anyhow + unit)" where
  "demux_vec_parent_setup gs st = (case setup_demux_children gs (dv_handles st) (dv_index_map st) of
       (h, im, Inl e) \<Rightarrow> (st\<lparr>dv_handles := h, dv_index_map := im\<rparr>, Inl e)
     | (h, im, Inr ov) \<Rightarrow> (st\<lparr>dv_handles := h, dv_index_map := im, dv_overflow_graph_index := ov\<rparr>, Inr ()))"

text \<open>
  The factory: \<open>children\<close> are the streams built for the slots and \<open>overflow\<close> the one built last,
  as many rows as children and one more.
\<close>

definition demux_it :: "node \<Rightarrow> 'k demux_map \<Rightarrow> ('t \<Rightarrow> 'k \<times> demux_event) \<Rightarrow> (nat \<Rightarrow> node) \<Rightarrow> ('t, 'k) demux_vec_parent" where
  "demux_it source m func build_child =
     \<lparr>dv_source = source, dv_func = func, dv_map = m,
      dv_handles = \<lparr>dh_children = map build_child [0..<dm_size m], dh_overflow_child = Some (build_child (dm_size m))\<rparr>,
      dv_value = replicate (dm_size m + 1) [], dv_index_map = [], dv_overflow_graph_index = None\<rparr>"

record 't demux_vec_child =
  dx_index :: nat
  dx_source :: node
  dx_value :: "'t list"

definition demux_vec_child_cycle :: "(node \<Rightarrow> 't list list) \<Rightarrow> 't demux_vec_child \<Rightarrow> ('t demux_vec_child \<times> bool) option" where
  "demux_vec_child_cycle peek st =
     (if dx_index st < length (peek (dx_source st))
      then Some (st\<lparr>dx_value := peek (dx_source st) ! dx_index st\<rparr>, True) else None)"

section \<open>The invariant of the slot map\<close>

definition picks :: "(nat set \<Rightarrow> nat option) \<Rightarrow> bool" where
  "picks pick \<longleftrightarrow> (\<forall>S. finite S \<longrightarrow> (case pick S of None \<Rightarrow> S = {} | Some i \<Rightarrow> i \<in> S))"

text \<open>The keys that hold a slot.\<close>

definition slot_of :: "'k demux_map \<Rightarrow> 'k \<Rightarrow> nat option" where
  "slot_of m k = Option.bind (dm_in_use m k) id"

definition dm_wf :: "'k demux_map \<Rightarrow> bool" where
  "dm_wf m \<longleftrightarrow> dm_available m \<subseteq> {..<dm_size m} \<and> ran (slot_of m) = {..<dm_size m} - dm_available m \<and>
     inj_on (slot_of m) (dom (slot_of m))"

lemma dm_wf_new: "dm_wf (demux_map_new n)"
  by (auto simp: dm_wf_def demux_map_new_def slot_of_def ran_def inj_on_def dom_def)

lemma slot_of_simps:
  "dm_in_use m k = Some (Some i) \<Longrightarrow> slot_of m k = Some i" "dm_in_use m k = Some None \<Longrightarrow> slot_of m k = None"
  "dm_in_use m k = None \<Longrightarrow> slot_of m k = None"
  by (simp_all add: slot_of_def)

lemma slot_of_update:
  "slot_of (m\<lparr>dm_in_use := (dm_in_use m)(k \<mapsto> x), dm_available := a\<rparr>) = (slot_of m)(k := x)"
  "slot_of (m\<lparr>dm_in_use := (dm_in_use m)(k := None), dm_available := a\<rparr>) = (slot_of m)(k := None)"
  "slot_of (m\<lparr>dm_in_use := (dm_in_use m)(k \<mapsto> x)\<rparr>) = (slot_of m)(k := x)"
  "slot_of (m\<lparr>dm_in_use := (dm_in_use m)(k := None)\<rparr>) = (slot_of m)(k := None)"
  by (auto simp: slot_of_def fun_eq_iff)

lemma ran_remove: "inj_on f (dom f) \<Longrightarrow> f k = Some i \<Longrightarrow> ran (f(k := None)) = ran f - {i}"
  unfolding ran_def dom_def inj_on_def by (auto split: if_splits) (metis option.inject)

lemma picks_None: "picks pick \<Longrightarrow> finite S \<Longrightarrow> pick S = None \<Longrightarrow> S = {}"
  unfolding picks_def by (drule spec[of _ S]) simp

lemma picks_Some: "picks pick \<Longrightarrow> finite S \<Longrightarrow> pick S = Some i \<Longrightarrow> i \<in> S"
  unfolding picks_def by (drule spec[of _ S]) simp

lemma inj_remove: "inj_on f (dom f) \<Longrightarrow> inj_on (f(k := None)) (dom (f(k := None)))"
  unfolding inj_on_def dom_def by auto

lemma inj_add: "inj_on f (dom f) \<Longrightarrow> f k = None \<Longrightarrow> i \<notin> ran f \<Longrightarrow> inj_on (f(k \<mapsto> i)) (dom (f(k \<mapsto> i)))"
  unfolding inj_on_def dom_def ran_def by auto

lemma release_wf:
  assumes "dm_wf m"
  shows "dm_wf (fst (release pick k m)) \<and> dm_size (fst (release pick k m)) = dm_size m \<and>
    slot_of (fst (release pick k m)) = (slot_of m)(k := None)"
proof (cases "dm_in_use m k")
  case None
  then show ?thesis using assms slot_of_simps(3)[OF None] by (auto simp: release_def fun_eq_iff)
next
  case (Some x)
  have inj: "inj_on (slot_of m) (dom (slot_of m))" using assms by (simp add: dm_wf_def)
  show ?thesis
  proof (cases x)
    case None
    have nk: "slot_of m k = None" using Some None by (simp add: slot_of_simps)
    have "(slot_of m)(k := None) = slot_of m" using nk by auto
    with assms Some None show ?thesis by (simp add: release_def slot_of_update dm_wf_def)
  next
    case (Some i)
    have ik: "slot_of m k = Some i" using \<open>dm_in_use m k = Some x\<close> Some by (simp add: slot_of_simps)
    then have "i \<in> ran (slot_of m)" by (auto simp: ran_def)
    then have i: "i < dm_size m" "i \<notin> dm_available m" using assms by (auto simp: dm_wf_def)
    have "ran ((slot_of m)(k := None)) = {..<dm_size m} - insert i (dm_available m)"
      using ran_remove[OF inj ik] assms by (auto simp: dm_wf_def)
    with assms i \<open>dm_in_use m k = Some x\<close> Some inj_remove[OF inj] show ?thesis
      by (simp add: release_def slot_of_update dm_wf_def)
  qed
qed

lemma get_or_insert_wf:
  assumes "dm_wf m" "picks pick"
  shows "dm_wf (fst (get_or_insert pick k m)) \<and> dm_size (fst (get_or_insert pick k m)) = dm_size m \<and>
    (\<forall>k'. k' \<noteq> k \<longrightarrow> slot_of (fst (get_or_insert pick k m)) k' = slot_of m k') \<and>
    (case snd (get_or_insert pick k m) of
       Slot i \<Rightarrow> slot_of (fst (get_or_insert pick k m)) k = Some i \<and> i < dm_size m
     | Overflow \<Rightarrow> slot_of (fst (get_or_insert pick k m)) k = None \<and>
         dm_in_use (fst (get_or_insert pick k m)) k = Some None \<and> (dm_in_use m k = None \<longrightarrow> dm_available m = {}))"
proof (cases "dm_in_use m k")
  case (Some x)
  show ?thesis
  proof (cases x)
    case None
    then show ?thesis using Some assms(1) by (simp add: get_or_insert_def slot_of_simps)
  next
    case (Some i)
    have ik: "slot_of m k = Some i" using \<open>dm_in_use m k = Some x\<close> Some by (simp add: slot_of_simps)
    then have "i \<in> ran (slot_of m)" by (auto simp: ran_def)
    then have "i < dm_size m" using assms by (auto simp: dm_wf_def)
    with ik show ?thesis using \<open>dm_in_use m k = Some x\<close> Some assms(1) by (simp add: get_or_insert_def)
  qed
next
  case None
  have nk: "slot_of m k = None" using None by (simp add: slot_of_simps)
  have fin: "finite (dm_available m)" using assms(1) finite_subset by (auto simp: dm_wf_def)
  show ?thesis
  proof (cases "pick (dm_available m)")
    case None
    then have "dm_available m = {}" using picks_None[OF assms(2) fin] by simp
    moreover have "(slot_of m)(k := None) = slot_of m" using nk by auto
    ultimately show ?thesis using \<open>dm_in_use m k = None\<close> None assms(1) nk
      by (simp add: get_or_insert_def peek_available_def slot_of_update dm_wf_def)
  next
    case (Some i)
    then have i: "i \<in> dm_available m" using picks_Some[OF assms(2) fin] by simp
    then have ir: "i < dm_size m" "i \<notin> ran (slot_of m)" using assms(1) by (auto simp: dm_wf_def)
    have up: "slot_of (m\<lparr>dm_available := dm_available m - {i}, dm_in_use := (dm_in_use m)(k \<mapsto> Some i)\<rparr>) =
        (slot_of m)(k \<mapsto> i)" by (auto simp: slot_of_def fun_eq_iff)
    have "ran ((slot_of m)(k \<mapsto> i)) = insert i (ran (slot_of m))" using nk by (simp add: ran_map_upd)
    also have "\<dots> = {..<dm_size m} - (dm_available m - {i})" using assms(1) i ir by (auto simp: dm_wf_def)
    finally have "dm_wf (m\<lparr>dm_available := dm_available m - {i}, dm_in_use := (dm_in_use m)(k \<mapsto> Some i)\<rparr>)"
      using assms(1) inj_add[of "slot_of m" k i] nk ir unfolding dm_wf_def up by auto
    then show ?thesis using \<open>dm_in_use m k = None\<close> Some ir up by (simp add: get_or_insert_def peek_available_def)
  qed
qed

lemma release_entry:
  assumes "dm_wf m" "picks pick"
  shows "case snd (release pick k m) of Slot i \<Rightarrow> i < dm_size m | Overflow \<Rightarrow> True"
proof (cases "dm_in_use m k")
  case None
  have fin: "finite (dm_available m)" using assms(1) finite_subset by (auto simp: dm_wf_def)
  show ?thesis
  proof (cases "pick (dm_available m)")
    case (Some i)
    then have "i \<in> dm_available m" using picks_Some[OF assms(2) fin] by simp
    with None Some assms(1) show ?thesis by (auto simp: release_def peek_available_def dm_wf_def)
  qed (simp add: None release_def peek_available_def)
next
  case (Some x)
  show ?thesis
  proof (cases x)
    case (Some i)
    have "slot_of m k = Some i" using \<open>dm_in_use m k = Some x\<close> Some by (simp add: slot_of_simps)
    then have "i \<in> ran (slot_of m)" by (auto simp: ran_def)
    with \<open>dm_in_use m k = Some x\<close> Some assms(1) show ?thesis by (auto simp: release_def dm_wf_def)
  qed (simp add: Some release_def)
qed

definition entry_ok :: "nat \<Rightarrow> demux_entry \<Rightarrow> bool" where
  "entry_ok n e \<longleftrightarrow> (case e of Slot i \<Rightarrow> i < n | Overflow \<Rightarrow> True)"

lemma route_entry_wf:
  assumes "dm_wf m" "picks pick"
  shows "dm_wf (fst (route_entry pick ke m)) \<and> dm_size (fst (route_entry pick ke m)) = dm_size m \<and>
    entry_ok (dm_size m) (snd (route_entry pick ke m))"
proof (cases "snd ke")
  case NoEvent
  with get_or_insert_wf[OF assms, of "fst ke"] show ?thesis
    by (auto simp: route_entry_def entry_ok_def split: demux_entry.splits)
next
  case Close
  with release_wf[OF assms(1), of pick "fst ke"] release_entry[OF assms, of "fst ke"] show ?thesis
    by (simp add: route_entry_def entry_ok_def)
qed

text \<open>A sequence of routing decisions on one map.\<close>

fun route_all :: "(nat set \<Rightarrow> nat option) \<Rightarrow> ('k \<times> demux_event) list \<Rightarrow> 'k demux_map \<Rightarrow> 'k demux_map \<times> demux_entry list" where
  "route_all pick [] m = (m, [])"
| "route_all pick (ke # kes) m =
     (let (m1, e) = route_entry pick ke m; (m2, es) = route_all pick kes m1 in (m2, e # es))"

lemma route_all_wf:
  assumes "picks pick"
  shows "dm_wf m \<Longrightarrow> route_all pick kes m = (m', es) \<Longrightarrow>
    dm_wf m' \<and> dm_size m' = dm_size m \<and> length es = length kes \<and> (\<forall>e \<in> set es. entry_ok (dm_size m) e)"
proof (induction kes arbitrary: m m' es)
  case (Cons ke kes)
  obtain m1 e where r: "route_entry pick ke m = (m1, e)" by fastforce
  obtain es' where q: "route_all pick kes m1 = (m', es')" and es: "es = e # es'"
    using Cons.prems(2) r by (auto split: prod.splits)
  have w: "dm_wf m1" "dm_size m1 = dm_size m" "entry_ok (dm_size m) e"
    using route_entry_wf[OF Cons.prems(1) assms, of ke] r by auto
  from Cons.IH[OF w(1) q] w es show ?case by simp
qed simp

section \<open>Properties of the demultiplexer\<close>

lemma dm_wf_full: "dm_wf m \<Longrightarrow> dm_available m = {} \<longleftrightarrow> ran (slot_of m) = {..<dm_size m}"
  unfolding dm_wf_def by auto

text \<open>
  C29. After any sequence of values and close events on a map of \<open>n\<close> slots, no two live keys
  share a slot; a key that holds a slot is routed to it again without changing the map; a new
  key is given a slot that nobody holds, and overflows exactly when all \<open>n\<close> slots are held;
  closing a key gives back its slot and touches no other key.
\<close>

theorem demux_slots:
  assumes pick: "picks pick" and run: "route_all pick kes (demux_map_new n) = (m, es)"
  shows "(\<forall>k k' i. slot_of m k = Some i \<and> slot_of m k' = Some i \<longrightarrow> k = k' \<and> i < n) \<and>
    (\<forall>k i. slot_of m k = Some i \<longrightarrow> get_or_insert pick k m = (m, Slot i)) \<and>
    (\<forall>k. dm_in_use m k = None \<longrightarrow>
       (case snd (get_or_insert pick k m) of
          Slot i \<Rightarrow> i < n \<and> i \<notin> ran (slot_of m) \<and> slot_of (fst (get_or_insert pick k m)) = (slot_of m)(k \<mapsto> i)
        | Overflow \<Rightarrow> ran (slot_of m) = {..<n})) \<and>
    (\<forall>k. slot_of (fst (release pick k m)) = (slot_of m)(k := None))"
proof -
  have w: "dm_wf m" and sz: "dm_size m = n"
    using route_all_wf[OF pick dm_wf_new run] by (simp_all add: demux_map_new_def)
  have inj: "inj_on (slot_of m) (dom (slot_of m))" and ran: "ran (slot_of m) \<subseteq> {..<n}"
    using w sz by (auto simp: dm_wf_def)
  have 1: "k = k' \<and> i < n" if "slot_of m k = Some i" "slot_of m k' = Some i" for k k' i
    using that inj ran by (metis (no_types, lifting) domI inj_on_def lessThan_iff ranI subsetD)
  have 2: "get_or_insert pick k m = (m, Slot i)" if "slot_of m k = Some i" for k i
    using that by (cases "dm_in_use m k") (auto simp: get_or_insert_def slot_of_def)
  have 3: "case snd (get_or_insert pick k m) of
          Slot i \<Rightarrow> i < n \<and> i \<notin> ran (slot_of m) \<and> slot_of (fst (get_or_insert pick k m)) = (slot_of m)(k \<mapsto> i)
        | Overflow \<Rightarrow> ran (slot_of m) = {..<n}" if k: "dm_in_use m k = None" for k
  proof (cases "snd (get_or_insert pick k m)")
    case Overflow
    then have "dm_available m = {}" using get_or_insert_wf[OF w pick, of k] k by simp
    with Overflow dm_wf_full[OF w] sz show ?thesis by simp
  next
    case (Slot i)
    have fin: "finite (dm_available m)" using w finite_subset by (auto simp: dm_wf_def)
    have p: "pick (dm_available m) = Some i"
      using Slot k by (auto simp: get_or_insert_def peek_available_def split: option.splits)
    then have "i \<notin> ran (slot_of m)" using picks_Some[OF pick fin] w by (auto simp: dm_wf_def)
    moreover have "slot_of (fst (get_or_insert pick k m)) = (slot_of m)(k \<mapsto> i)"
      using p k by (auto simp: get_or_insert_def peek_available_def slot_of_def fun_eq_iff)
    ultimately show ?thesis using Slot get_or_insert_wf[OF w pick, of k] sz by simp
  qed
  show ?thesis using 1 2 3 release_wf[OF w, of pick] by blast
qed

definition pick_least :: "nat set \<Rightarrow> nat option" where
  "pick_least S = (if S = {} then None else Some (Min S))"

lemma pick_least_picks: "picks pick_least"
  by (simp add: picks_def pick_least_def)

theorem demux_slots_witness:
  "ran (slot_of (fst (route_all pick_least [(CHR ''a'', NoEvent)] (demux_map_new 1)))) = {..<1}"
proof -
  define m where "m = fst (route_all pick_least [(CHR ''a'', NoEvent)] (demux_map_new 1))"
  have run: "route_all pick_least [(CHR ''a'', NoEvent)] (demux_map_new 1) = (m, [Slot 0])"
    by (simp add: m_def route_entry_def get_or_insert_def demux_map_new_def peek_available_def pick_least_def
      lessThan_Suc lessThan_0)
  have fresh: "dm_in_use m CHR ''b'' = None" and over: "snd (get_or_insert pick_least CHR ''b'' m) = Overflow"
    by (simp_all add: m_def route_entry_def get_or_insert_def demux_map_new_def peek_available_def pick_least_def
      lessThan_Suc lessThan_0)
  have "case snd (get_or_insert pick_least CHR ''b'' m) of
      Slot i \<Rightarrow> i < 1 \<and> i \<notin> ran (slot_of m) \<and>
        slot_of (fst (get_or_insert pick_least CHR ''b'' m)) = (slot_of m)(CHR ''b'' \<mapsto> i)
    | Overflow \<Rightarrow> ran (slot_of m) = {..<1}"
    by (rule demux_slots[OF pick_least_picks run, THEN conjunct2, THEN conjunct2, THEN conjunct1, rule_format, OF fresh])
  then show ?thesis unfolding over by (simp only: demux_entry.case m_def)
qed

text \<open>The parent as the factory builds it and setup leaves it.\<close>

definition dv_ready :: "('t, 'k) demux_vec_parent \<Rightarrow> bool" where
  "dv_ready st \<longleftrightarrow> dm_wf (dv_map st) \<and> length (dv_value st) = Suc (dm_size (dv_map st)) \<and>
     length (dv_index_map st) = dm_size (dv_map st) \<and> dv_overflow_graph_index st \<noteq> None"

definition entry_target :: "('t, 'k) demux_vec_parent \<Rightarrow> demux_entry \<Rightarrow> nat" where
  "entry_target st e = the (entry_graph_index (dv_index_map st) (dv_overflow_graph_index st) e)"

definition routed_to :: "nat \<Rightarrow> nat \<Rightarrow> 't list \<Rightarrow> demux_entry list \<Rightarrow> 't list" where
  "routed_to n r items es = map fst (filter (\<lambda>(item, e). (case e of Overflow \<Rightarrow> n | Slot i \<Rightarrow> i) = r) (zip items es))"

lemma demux_items_spec:
  assumes pick: "picks pick"
  shows "dv_ready st \<Longrightarrow> route_all pick (map (dv_func st) items) (dv_map st) = (m, es) \<Longrightarrow>
    \<exists>rows. demux_items pick items st =
        Some (st\<lparr>dv_map := m, dv_value := rows\<rparr>, map (\<lambda>e. MarkDirty (entry_target st e)) es) \<and>
      length rows = Suc (dm_size (dv_map st)) \<and>
      (\<forall>r \<le> dm_size (dv_map st). rows ! r = dv_value st ! r @ routed_to (dm_size (dv_map st)) r items es)"
proof (induction items arbitrary: st es)
  case Nil
  then show ?case by (intro exI[of _ "dv_value st"]) (simp add: dv_ready_def routed_to_def)
next
  case (Cons item items)
  let ?n = "dm_size (dv_map st)"
  obtain m1 e where r: "route_entry pick (dv_func st item) (dv_map st) = (m1, e)" by fastforce
  obtain es' where q: "route_all pick (map (dv_func st) items) m1 = (m, es')" and es: "es = e # es'"
    using Cons.prems(2) r by (auto split: prod.splits)
  have ready: "dm_wf (dv_map st)" "length (dv_value st) = Suc ?n" "length (dv_index_map st) = ?n"
      "dv_overflow_graph_index st \<noteq> None"
    using Cons.prems(1) by (simp_all add: dv_ready_def)
  have w: "dm_wf m1" "dm_size m1 = ?n" "entry_ok ?n e"
    using route_entry_wf[OF ready(1) pick, of "dv_func st item"] r by auto
  define row where "row = entry_row m1 e"
  have row: "row = (case e of Overflow \<Rightarrow> ?n | Slot i \<Rightarrow> i)" "row < length (dv_value st)"
    using w ready(2) by (auto simp: row_def entry_row_def entry_ok_def split: demux_entry.splits)
  have gi: "entry_graph_index (dv_index_map st) (dv_overflow_graph_index st) e = Some (entry_target st e)"
    using w ready by (auto simp: entry_target_def entry_graph_index_def entry_ok_def split: demux_entry.splits)
  define st1 where "st1 = st\<lparr>dv_map := m1, dv_value := (dv_value st)[row := dv_value st ! row @ [item]]\<rparr>"
  have st1: "dv_ready st1" "dv_func st1 = dv_func st" "dv_map st1 = m1"
      "dv_value st1 = (dv_value st)[row := dv_value st ! row @ [item]]" "entry_target st1 = entry_target st"
    using w ready by (simp_all add: dv_ready_def st1_def entry_target_def fun_eq_iff)
  from Cons.IH[OF st1(1)] q st1(2,3)
  obtain rows where rec: "demux_items pick items st1 =
      Some (st1\<lparr>dv_map := m, dv_value := rows\<rparr>, map (\<lambda>e. MarkDirty (entry_target st1 e)) es')"
    and len: "length rows = Suc (dm_size m1)"
    and rows: "\<And>r. r \<le> dm_size m1 \<Longrightarrow> rows ! r = dv_value st1 ! r @ routed_to (dm_size m1) r items es'"
    by auto
  have "demux_items pick (item # items) st =
      Some (st\<lparr>dv_map := m, dv_value := rows\<rparr>, map (\<lambda>e. MarkDirty (entry_target st e)) es)"
    using row(2) gi rec es st1(5) by (simp add: r row_def[symmetric] st1_def[symmetric]) (simp add: st1_def)
  moreover have "rows ! r' = dv_value st ! r' @ routed_to ?n r' (item # items) es" if "r' \<le> ?n" for r'
    using rows[of r'] that w(2) row st1(4) es ready(2)
    by (cases "r' = row") (auto simp: routed_to_def nth_list_update)
  ultimately show ?case using len w(2) by metis
qed

lemma sum_lengths_by_class:
  assumes "\<forall>x \<in> set xs. f x < N"
  shows "sum_list (map (\<lambda>r. length (filter (\<lambda>x. f x = r) xs)) [0..<N]) = length xs"
  using assms
proof (induction xs)
  case (Cons x xs)
  have "map (\<lambda>r. length (filter (\<lambda>x. f x = r) (x # xs))) [0..<N] =
      map (\<lambda>r. (if f x = r then 1 else 0) + length (filter (\<lambda>x. f x = r) xs)) [0..<N]" by simp
  also have "sum_list \<dots> = (\<Sum>r\<leftarrow>[0..<N]. if f x = r then 1 else 0) + length xs"
    using Cons by (simp add: sum_list_addf)
  also have "(\<Sum>r\<leftarrow>[0..<N]. if f x = r then 1 else 0) = (1::nat)"
    using Cons.prems by (simp add: interv_sum_list_conv_sum_set_nat sum.delta')
  finally show ?case by simp
qed simp

text \<open>
  A burst is distributed without loss: the cycle returns, the row of each slot holds exactly
  the items routed to it, in their order in the burst, the last row holds the overflow, every
  item is in exactly one row, and the child of each item's row is marked dirty.
\<close>

lemma demux_burst_partitioned:
  assumes pick: "picks pick" and ready: "dv_ready st"
    and run: "route_all pick (map (dv_func st) (peek (dv_source st))) (dv_map st) = (m, es)"
  shows "\<exists>st'. demux_vec_parent_cycle pick peek st =
        Some (st', map (\<lambda>e. MarkDirty (entry_target st e)) es, False) \<and>
      dv_ready st' \<and> dv_map st' = m \<and>
      dv_value st' = map (\<lambda>r. routed_to (dm_size m) r (peek (dv_source st)) es) [0..<Suc (dm_size m)] \<and>
      sum_list (map length (dv_value st')) = length (peek (dv_source st))"
proof -
  define st0 where "st0 = st\<lparr>dv_value := map (\<lambda>_. []) (dv_value st)\<rparr>"
  have st0: "dv_ready st0" "dv_func st0 = dv_func st" "dv_map st0 = dv_map st" "entry_target st0 = entry_target st"
    using ready by (simp_all add: st0_def dv_ready_def entry_target_def fun_eq_iff)
  have w: "dm_wf m" "dm_size m = dm_size (dv_map st)" "\<forall>e \<in> set es. entry_ok (dm_size m) e"
      "length es = length (peek (dv_source st))"
    using route_all_wf[OF pick _ run] ready by (auto simp: dv_ready_def)
  from demux_items_spec[OF pick st0(1), of "peek (dv_source st)" m es] run st0(2,3)
  obtain rows where it: "demux_items pick (peek (dv_source st)) st0 =
      Some (st0\<lparr>dv_map := m, dv_value := rows\<rparr>, map (\<lambda>e. MarkDirty (entry_target st0 e)) es)"
    and len: "length rows = Suc (dm_size m)"
    and rows: "\<And>r. r \<le> dm_size m \<Longrightarrow> rows ! r = dv_value st0 ! r @ routed_to (dm_size m) r (peek (dv_source st)) es"
    using w(2) by auto
  have "dv_value st0 ! r = []" if "r \<le> dm_size m" for r
    using that ready w(2) by (simp add: st0_def dv_ready_def)
  then have val: "rows = map (\<lambda>r. routed_to (dm_size m) r (peek (dv_source st)) es) [0..<Suc (dm_size m)]"
    using rows len by (intro nth_equalityI) (simp_all del: upt_Suc)
  have bound: "\<forall>x \<in> set (zip (peek (dv_source st)) es). (case snd x of Overflow \<Rightarrow> dm_size m | Slot i \<Rightarrow> i) < Suc (dm_size m)"
    using w(3) by (auto simp: entry_ok_def less_Suc_eq dest!: set_zip_rightD split: demux_entry.splits)
  have "sum_list (map length rows) = length (zip (peek (dv_source st)) es)"
    unfolding val map_map comp_def routed_to_def length_map case_prod_unfold by (rule sum_lengths_by_class[OF bound])
  moreover have "dv_ready (st0\<lparr>dv_map := m, dv_value := rows\<rparr>)"
    using st0(1) w len by (simp add: dv_ready_def st0_def)
  ultimately show ?thesis
    using it w(4) val by (simp add: demux_vec_parent_cycle_def st0_def[symmetric] st0(4))
qed

lemma demux_burst_partitioned_witness:
  "\<exists>st'. demux_vec_parent_cycle pick_least (\<lambda>_. [10, 11, 20::nat])
      \<lparr>dv_source = 0, dv_func = (\<lambda>x. (x div 10, NoEvent)), dv_map = demux_map_new 1,
       dv_handles = \<lparr>dh_children = [], dh_overflow_child = None\<rparr>,
       dv_value = [[], []], dv_index_map = [4], dv_overflow_graph_index = Some 5\<rparr> =
        Some (st', [MarkDirty 4, MarkDirty 4, MarkDirty 5], False) \<and> dv_value st' = [[10, 11], [20]]"
proof -
  define st :: "(nat, nat) demux_vec_parent" where
    "st = \<lparr>dv_source = 0, dv_func = (\<lambda>x. (x div 10, NoEvent)), dv_map = demux_map_new 1,
       dv_handles = \<lparr>dh_children = [], dh_overflow_child = None\<rparr>,
       dv_value = [[], []], dv_index_map = [4], dv_overflow_graph_index = Some 5\<rparr>"
  have ready: "dv_ready st" by (simp add: st_def dv_ready_def dm_wf_new) (simp add: demux_map_new_def)
  obtain m where run: "route_all pick_least (map (dv_func st) [10, 11, 20]) (dv_map st) = (m, [Slot 0, Slot 0, Overflow])"
      and m: "dm_size m = 1"
    by (simp add: st_def route_entry_def get_or_insert_def demux_map_new_def peek_available_def pick_least_def
      lessThan_Suc lessThan_0)
  from demux_burst_partitioned[OF pick_least_picks ready, of "\<lambda>_. [10, 11, 20]", OF run] m
  have "\<exists>st'. demux_vec_parent_cycle pick_least (\<lambda>_. [10, 11, 20]) st =
        Some (st', [MarkDirty 4, MarkDirty 4, MarkDirty 5], False) \<and> dv_value st' = [[10, 11], [20]]"
    by (auto simp: routed_to_def entry_target_def entry_graph_index_def st_def)
  then show ?thesis unfolding st_def .
qed

lemma resolve_children_length: "resolve_children gs ns = Inr is \<Longrightarrow> length is = length ns"
  by (induction ns arbitrary: "is") (auto split: option.splits sum.splits)

lemma demux_it_setup_ready:
  assumes "demux_vec_parent_setup gs (demux_it src (demux_map_new n) func build) = (st, Inr ())"
  shows "dv_ready st"
  using assms resolve_children_length[of gs "map build [0..<n]"]
  by (auto simp: demux_vec_parent_setup_def setup_demux_children_def demux_it_def Let_def dv_ready_def dm_wf_new
    split: sum.splits option.splits if_splits simp del: upt_Suc) (simp_all add: demux_map_new_def)

text \<open>
  Closing a key that is not live names a free slot without claiming it: the value goes to a
  child that belongs to no key.
\<close>

lemma release_unknown_names_free_slot:
  assumes "dm_wf m" "picks pick" "dm_in_use m k = None" "release pick k m = (m', Slot i)"
  shows "m' = m \<and> i \<in> dm_available m"
proof -
  have fin: "finite (dm_available m)" using assms(1) finite_subset by (auto simp: dm_wf_def)
  from assms(3,4) have "pick (dm_available m) = Some i" "m' = m"
    by (auto simp: release_def peek_available_def split: option.splits)
  with picks_Some[OF assms(2) fin] show ?thesis by simp
qed

end
