(* ===== verification/Dynamic_Group.thy ===== *)
theory Dynamic_Group
  imports Dynamic "HOL-Library.AList"
begin

text \<open>
  \<^verbatim>\<open>nodes/dynamic_group.rs\<close>: the keyed collection of streams that are wired into the running
  graph and removed from it, and the stream built on it.

  The trait \<^verbatim>\<open>StreamStore\<close> is a record of its three methods, with the two implementations of
  the crate: \<^verbatim>\<open>BTreeMap\<close>, an association list sorted by key, and \<^verbatim>\<open>HashMap\<close>, an association
  list in an order the theorems do not depend on. The locale \<open>stream_store\<close> states what a store
  promises; the lemmas on the group are proved in it and the theorems take them from its
  interpretation on the two stores.

  The theorems: one cycle of the group (\<open>dynamic_group_cycle_exact\<close>), and that a key added and
  deleted in the same cycle leaves its stream wired and outside the group
  (\<open>dynamic_group_add_del_leaks\<close>).
\<close>

section \<open>Stores\<close>

record ('k, 's) store_ops =
  so_insert :: "'k \<Rightarrow> node \<Rightarrow> 's \<Rightarrow> 's"
  so_remove :: "'k \<Rightarrow> 's \<Rightarrow> 's \<times> node option"
  so_entries :: "'s \<Rightarrow> ('k \<times> node) list"

fun btree_insert :: "'k::linorder \<Rightarrow> node \<Rightarrow> ('k \<times> node) list \<Rightarrow> ('k \<times> node) list" where
  "btree_insert k v [] = [(k, v)]"
| "btree_insert k v ((k', v') # es) =
     (if k < k' then (k, v) # (k', v') # es
      else if k = k' then (k, v) # es
      else (k', v') # btree_insert k v es)"

definition btree_store :: "('k::linorder, ('k \<times> node) list) store_ops" where
  "btree_store = \<lparr>so_insert = btree_insert, so_remove = (\<lambda>k s. (AList.delete k s, map_of s k)), so_entries = id\<rparr>"

definition hash_store :: "('k, ('k \<times> node) list) store_ops" where
  "hash_store = \<lparr>so_insert = AList.update, so_remove = (\<lambda>k s. (AList.delete k s, map_of s k)), so_entries = id\<rparr>"

section \<open>The group\<close>

definition group_insert :: "('k, 's) store_ops \<Rightarrow> 'k \<Rightarrow> node \<Rightarrow> 's \<Rightarrow> 's \<times> cmd list" where
  "group_insert so key stream store = (so_insert so key stream store, [AddUpstream stream True True])"

definition group_remove :: "('k, 's) store_ops \<Rightarrow> 'k \<Rightarrow> 's \<Rightarrow> 's \<times> cmd list" where
  "group_remove so key store = (case so_remove so key store of
       (store', Some stream) \<Rightarrow> (store', [RemoveNode stream])
     | (store', None) \<Rightarrow> (store', []))"

text \<open>\<open>None\<close> when reading the ticked flag panics.\<close>

fun ticked_entries :: "graph_state \<Rightarrow> (node \<Rightarrow> 't) \<Rightarrow> ('k \<times> node) list \<Rightarrow> ('k \<times> 't) list option" where
  "ticked_entries gs peek [] = Some []"
| "ticked_entries gs peek ((k, s) # es) = do {
     t \<leftarrow> ticked gs s;
     r \<leftarrow> ticked_entries gs peek es;
     Some (if t then (k, peek s) # r else r) }"

definition ticked_iter :: "('k, 's) store_ops \<Rightarrow> graph_state \<Rightarrow> (node \<Rightarrow> 't) \<Rightarrow> 's \<Rightarrow> ('k \<times> 't) list option" where
  "ticked_iter so gs peek store = ticked_entries gs peek (so_entries so store)"

section \<open>The stream\<close>

record ('k, 't, 'v, 's) dynamic_group_stream =
  dg_add :: node
  dg_del :: node
  dg_factory :: "'k \<Rightarrow> node"
  dg_group :: 's
  dg_on_tick :: "'v \<Rightarrow> 'k \<Rightarrow> 't \<Rightarrow> 'v"
  dg_on_remove :: "'v \<Rightarrow> 'k \<Rightarrow> 'v"
  dg_value :: 'v

definition dynamic_group_upstreams :: "('k, 't, 'v, 's) dynamic_group_stream \<Rightarrow> node list \<times> node list" where
  "dynamic_group_upstreams st = ([dg_add st, dg_del st], [])"

definition dynamic_group_cycle :: "('k, 's) store_ops \<Rightarrow> graph_state \<Rightarrow> (node \<Rightarrow> 'k) \<Rightarrow> (node \<Rightarrow> 't) \<Rightarrow>
    ('k, 't, 'v, 's) dynamic_group_stream \<Rightarrow> (('k, 't, 'v, 's) dynamic_group_stream \<times> cmd list \<times> bool) option" where
  "dynamic_group_cycle so gs peek_key peek_value st = do {
     added \<leftarrow> ticked gs (dg_add st);
     let (g1, c1) = (if added then
         (let key = peek_key (dg_add st) in group_insert so key (dg_factory st key) (dg_group st))
       else (dg_group st, []));
     deleted \<leftarrow> ticked gs (dg_del st);
     let (v2, g2, c2) = (if deleted then
         (let key = peek_key (dg_del st) in (dg_on_remove st (dg_value st) key, group_remove so key g1))
       else (dg_value st, g1, []));
     entries \<leftarrow> ticked_iter so gs peek_value g2;
     Some (st\<lparr>dg_group := g2, dg_value := foldl (\<lambda>v (k, x). dg_on_tick st v k x) v2 entries\<rparr>,
       c1 @ c2, entries \<noteq> []) }"

definition dynamic_group_stream_with_store :: "node \<Rightarrow> node \<Rightarrow> ('k \<Rightarrow> node) \<Rightarrow> 's \<Rightarrow> 'v \<Rightarrow>
    ('v \<Rightarrow> 'k \<Rightarrow> 't \<Rightarrow> 'v) \<Rightarrow> ('v \<Rightarrow> 'k \<Rightarrow> 'v) \<Rightarrow> ('k, 't, 'v, 's) dynamic_group_stream" where
  "dynamic_group_stream_with_store add del factory store init on_tick on_remove =
     \<lparr>dg_add = add, dg_del = del, dg_factory = factory, dg_group = store,
      dg_on_tick = on_tick, dg_on_remove = on_remove, dg_value = init\<rparr>"

section \<open>What a store promises\<close>

text \<open>The registry a cycle leaves, the requests it makes of the graph, and that every registered index has a flag.\<close>

definition added_key :: "graph_state \<Rightarrow> (node \<Rightarrow> 'k) \<Rightarrow> ('k, 't, 'v, 's) dynamic_group_stream \<Rightarrow> 'k option" where
  "added_key gs peek st = (if ticked gs (dg_add st) = Some True then Some (peek (dg_add st)) else None)"

definition deleted_key :: "graph_state \<Rightarrow> (node \<Rightarrow> 'k) \<Rightarrow> ('k, 't, 'v, 's) dynamic_group_stream \<Rightarrow> 'k option" where
  "deleted_key gs peek st = (if ticked gs (dg_del st) = Some True then Some (peek (dg_del st)) else None)"

definition after_add :: "'k option \<Rightarrow> ('k \<Rightarrow> node) \<Rightarrow> ('k \<rightharpoonup> node) \<Rightarrow> ('k \<rightharpoonup> node)" where
  "after_add a factory m = (case a of None \<Rightarrow> m | Some k \<Rightarrow> m(k \<mapsto> factory k))"

definition after_del :: "'k option \<Rightarrow> ('k \<rightharpoonup> node) \<Rightarrow> ('k \<rightharpoonup> node)" where
  "after_del d m = (case d of None \<Rightarrow> m | Some k \<Rightarrow> m(k := None))"

definition group_requests :: "'k option \<Rightarrow> 'k option \<Rightarrow> ('k \<Rightarrow> node) \<Rightarrow> ('k \<rightharpoonup> node) \<Rightarrow> cmd list" where
  "group_requests a d factory m =
     (case a of None \<Rightarrow> [] | Some k \<Rightarrow> [AddUpstream (factory k) True True]) @
     (case Option.bind d (after_add a factory m) of None \<Rightarrow> [] | Some n \<Rightarrow> [RemoveNode n])"

definition flags_ok :: "graph_state \<Rightarrow> bool" where
  "flags_ok gs \<longleftrightarrow> (\<forall>n i. node_index gs n = Some i \<longrightarrow> i < length (node_ticked gs))"

lemma ticked_defined: "flags_ok gs \<Longrightarrow> \<exists>b. ticked gs n = Some b"
  by (auto simp: flags_ok_def ticked_def node_index_ticked_def split: option.splits)

lemma ticked_entries_defined: "flags_ok gs \<Longrightarrow> \<exists>es. ticked_entries gs peek ns = Some es"
proof (induction ns)
  case (Cons e ns)
  then show ?case using ticked_defined[OF Cons.prems, of "snd e"] by (cases e) auto
qed simp

locale stream_store =
  fixes so :: "('k, 's) store_ops" and ok :: "'s \<Rightarrow> bool"
  assumes entries_distinct: "ok s \<Longrightarrow> distinct (map fst (so_entries so s))"
    and insert_ok: "ok s \<Longrightarrow> ok (so_insert so k v s)"
    and insert_entries: "ok s \<Longrightarrow> map_of (so_entries so (so_insert so k v s)) = (map_of (so_entries so s))(k \<mapsto> v)"
    and remove_ok: "ok s \<Longrightarrow> ok (fst (so_remove so k s))"
    and remove_found: "ok s \<Longrightarrow> snd (so_remove so k s) = map_of (so_entries so s) k"
    and remove_entries: "ok s \<Longrightarrow> map_of (so_entries so (fst (so_remove so k s))) = (map_of (so_entries so s))(k := None)"
begin

definition group_map :: "'s \<Rightarrow> 'k \<rightharpoonup> node" where
  "group_map s = map_of (so_entries so s)"

lemma group_insert_map:
  "ok s \<Longrightarrow> ok (fst (group_insert so k n s)) \<and> group_map (fst (group_insert so k n s)) = (group_map s)(k \<mapsto> n) \<and>
     snd (group_insert so k n s) = [AddUpstream n True True]"
  by (simp add: group_insert_def group_map_def insert_ok insert_entries)

lemma group_remove_map:
  assumes "ok s"
  shows "ok (fst (group_remove so k s)) \<and> group_map (fst (group_remove so k s)) = (group_map s)(k := None) \<and>
     snd (group_remove so k s) = (case group_map s k of None \<Rightarrow> [] | Some n \<Rightarrow> [RemoveNode n])"
  using remove_ok[OF assms, of k] remove_found[OF assms, of k] remove_entries[OF assms, of k]
  by (auto simp: group_remove_def group_map_def split: prod.splits option.splits)

lemma ticked_iter_exact:
  assumes "ok s" "ticked_iter so gs peek s = Some es"
  shows "distinct (map fst es) \<and> (\<forall>k x. (k, x) \<in> set es \<longleftrightarrow>
    (\<exists>n. group_map s k = Some n \<and> ticked gs n = Some True \<and> x = peek n))"
proof -
  have gen: "(\<forall>k x. (k, x) \<in> set es \<longleftrightarrow> (\<exists>n. (k, n) \<in> set ns \<and> ticked gs n = Some True \<and> x = peek n)) \<and>
      (distinct (map fst ns) \<longrightarrow> distinct (map fst es))" if "ticked_entries gs peek ns = Some es" for ns es
    using that
  proof (induction ns arbitrary: es)
    case (Cons e ns)
    obtain k n where e: "e = (k, n)" by fastforce
    obtain t r where r: "ticked gs n = Some t" "ticked_entries gs peek ns = Some r" "es = (if t then (k, peek n) # r else r)"
      using Cons.prems e by (auto simp: Option.bind_eq_Some_conv)
    note IH = Cons.IH[OF r(2)]
    have "fst ` set r \<subseteq> fst ` set ns" using IH by force
    with IH r e show ?case by (auto split: if_splits)
  qed simp
  from gen[of "so_entries so s" es] entries_distinct[OF assms(1)] assms(2) show ?thesis
    by (simp add: ticked_iter_def group_map_def map_of_eq_Some_iff)
qed

lemma cycle_exact:
  fixes st :: "('k, 't, 'v, 's) dynamic_group_stream" and pk :: "node \<Rightarrow> 'k" and pv :: "node \<Rightarrow> 't"
  assumes gs: "flags_ok gs" and ok: "ok (dg_group st)"
  defines "a \<equiv> added_key gs pk st" and "d \<equiv> deleted_key gs pk st"
  shows "\<exists>g es. dynamic_group_cycle so gs pk pv st =
      Some (st\<lparr>dg_group := g,
          dg_value := foldl (\<lambda>v (k, x). dg_on_tick st v k x)
            (case d of None \<Rightarrow> dg_value st | Some k \<Rightarrow> dg_on_remove st (dg_value st) k) es\<rparr>,
        group_requests a d (dg_factory st) (group_map (dg_group st)), es \<noteq> []) \<and>
    ok g \<and> group_map g = after_del d (after_add a (dg_factory st) (group_map (dg_group st))) \<and>
    ticked_iter so gs pv g = Some es"
proof -
  obtain ta td where t: "ticked gs (dg_add st) = Some ta" "ticked gs (dg_del st) = Some td"
    using ticked_defined[OF gs] by blast
  define r1 where "r1 = (if ta then group_insert so (pk (dg_add st)) (dg_factory st (pk (dg_add st))) (dg_group st) else (dg_group st, []))"
  obtain g1 c1 where r1: "r1 = (g1, c1)" by fastforce
  have g1: "ok g1" "group_map g1 = after_add a (dg_factory st) (group_map (dg_group st))"
      "c1 = (case a of None \<Rightarrow> [] | Some k \<Rightarrow> [AddUpstream (dg_factory st k) True True])"
    using group_insert_map[OF ok, of "pk (dg_add st)" "dg_factory st (pk (dg_add st))"] ok r1 t(1)
    by (auto simp: r1_def a_def added_key_def after_add_def split: if_splits)
  define r2 where "r2 = (if td then group_remove so (pk (dg_del st)) g1 else (g1, []))"
  obtain g2 c2 where r2: "r2 = (g2, c2)" by fastforce
  have g2: "ok g2" "group_map g2 = after_del d (group_map g1)"
      "c2 = (case Option.bind d (group_map g1) of None \<Rightarrow> [] | Some n \<Rightarrow> [RemoveNode n])"
    using group_remove_map[OF g1(1), of "pk (dg_del st)"] g1(1) r2 t(2)
    by (auto simp: r2_def d_def deleted_key_def after_del_def split: if_splits)
  obtain es where es: "ticked_iter so gs pv g2 = Some es"
    unfolding ticked_iter_def using ticked_entries_defined[OF gs] by blast
  have "dynamic_group_cycle so gs pk pv st =
      Some (st\<lparr>dg_group := g2,
          dg_value := foldl (\<lambda>v (k, x). dg_on_tick st v k x)
            (case d of None \<Rightarrow> dg_value st | Some k \<Rightarrow> dg_on_remove st (dg_value st) k) es\<rparr>, c1 @ c2, es \<noteq> [])"
    using t es r1[unfolded r1_def] r2[unfolded r2_def]
    by (cases ta; cases td) (simp_all add: dynamic_group_cycle_def d_def deleted_key_def)
  moreover have "c1 @ c2 = group_requests a d (dg_factory st) (group_map (dg_group st))"
    using g1 g2 by (simp add: group_requests_def)
  ultimately show ?thesis using g1 g2 es by auto
qed

end

section \<open>The two stores\<close>

definition btree_ok :: "('k::linorder \<times> node) list \<Rightarrow> bool" where
  "btree_ok s \<longleftrightarrow> sorted_wrt (<) (map fst s)"

lemma btree_insert_keys: "fst ` set (btree_insert k v s) = insert k (fst ` set s)"
  by (induction k v s rule: btree_insert.induct) auto

lemma btree_insert_ok: "btree_ok s \<Longrightarrow> btree_ok (btree_insert k v s)"
  unfolding btree_ok_def
proof (induction k v s rule: btree_insert.induct)
  case (2 k v k' v' es)
  then show ?case using btree_insert_keys[of k v es]
    by (auto simp flip: set_map)
qed simp

lemma btree_insert_map: "btree_ok s \<Longrightarrow> map_of (btree_insert k v s) = (map_of s)(k \<mapsto> v)"
  unfolding btree_ok_def
  by (induction k v s rule: btree_insert.induct) (auto simp: fun_upd_twist)

lemma btree_distinct: "btree_ok s \<Longrightarrow> distinct (map fst s)"
  by (simp add: btree_ok_def strict_sorted_iff)

lemma delete_map_of: "map_of (AList.delete k s) = (map_of s)(k := None)"
  by (simp add: delete_conv')

lemma btree_delete_ok: "btree_ok s \<Longrightarrow> btree_ok (AList.delete k s)"
  unfolding btree_ok_def by (induction s) (auto simp: AList.delete_eq)

interpretation btree: stream_store btree_store btree_ok
  by unfold_locales
    (simp_all add: btree_store_def btree_distinct btree_insert_ok btree_insert_map btree_delete_ok delete_map_of)

interpretation hash: stream_store hash_store "\<lambda>s. distinct (map fst s)"
  by unfold_locales (simp_all add: hash_store_def distinct_update update_conv' distinct_delete delete_map_of)

lemma btree_group_map [simp]: "btree.group_map s = map_of s"
  unfolding btree.group_map_def by (simp add: btree_store_def)

section \<open>Properties of the group\<close>

text \<open>
  One cycle of a dynamic group over a \<^verbatim>\<open>BTreeMap\<close> returns. The registry afterwards is the
  one before with the stream of the added key entered and the deleted key dropped; the graph is
  asked to wire the new stream and to remove the one that the deleted key had; the output is
  cleaned up for the deleted key first and then folded over exactly the registered streams that
  ticked, each once; and the node ticks exactly when there is one.
\<close>

lemma dynamic_group_cycle_exact:
  assumes gs: "flags_ok gs" and ok: "btree_ok (dg_group st)"
  shows "\<exists>g es. dynamic_group_cycle btree_store gs pk pv st =
      Some (st\<lparr>dg_group := g,
          dg_value := foldl (\<lambda>v (k, x). dg_on_tick st v k x)
            (case deleted_key gs pk st of None \<Rightarrow> dg_value st | Some k \<Rightarrow> dg_on_remove st (dg_value st) k) es\<rparr>,
        group_requests (added_key gs pk st) (deleted_key gs pk st) (dg_factory st) (map_of (dg_group st)), es \<noteq> []) \<and>
    btree_ok g \<and>
    map_of g = after_del (deleted_key gs pk st) (after_add (added_key gs pk st) (dg_factory st) (map_of (dg_group st))) \<and>
    distinct (map fst es) \<and>
    (\<forall>k x. (k, x) \<in> set es \<longleftrightarrow> (\<exists>n. map_of g k = Some n \<and> ticked gs n = Some True \<and> x = pv n))"
  using btree.cycle_exact[OF gs ok, of pk pv] btree.ticked_iter_exact[where gs = gs and peek = pv]
  unfolding btree_group_map by (elim exE conjE) (intro exI conjI, assumption+, blast+)

text \<open>
  A key that is added and deleted in the same cycle: its stream ends up outside the group,
  yet the removal the group asks for is processed before the addition, does nothing because the
  stream is not registered yet, and the addition stays pending, so that the stream is wired into
  the graph with nothing left to remove it.
\<close>

lemma dynamic_group_add_del_leaks:
  assumes gs: "flags_ok gs" "pending_removals gs = []" "current_node_index gs = Some ix"
    and ok: "btree_ok (dg_group st)"
    and key: "added_key gs pk st = Some k" "deleted_key gs pk st = Some k"
    and fresh: "node_index gs (dg_factory st k) = None"
  shows "\<exists>st' b gs'. dynamic_group_cycle btree_store gs pk pv st =
        Some (st', [AddUpstream (dg_factory st k) True True, RemoveNode (dg_factory st k)], b) \<and>
      map_of (dg_group st') k = None \<and>
      run_cmds [AddUpstream (dg_factory st k) True True, RemoveNode (dg_factory st k)] gs = Some gs' \<and>
      process_pending_removals ops (gs', s) = Some ((gs'\<lparr>pending_removals := []\<rparr>, s), Inr ()) \<and>
      pending_additions gs' = pending_additions gs @
        [\<lparr>pa_node = dg_factory st k, pa_caller_index = ix, pa_is_active = True, pa_recycle = True\<rparr>]"
proof -
  define gs1 where "gs1 = gs\<lparr>pending_additions := pending_additions gs @
    [\<lparr>pa_node = dg_factory st k, pa_caller_index = ix, pa_is_active = True, pa_recycle = True\<rparr>]\<rparr>"
  define gs' where "gs' = gs1\<lparr>pending_removals := [dg_factory st k]\<rparr>"
  have "run_cmds [AddUpstream (dg_factory st k) True True, RemoveNode (dg_factory st k)] gs = Some gs'"
    using gs by (simp add: add_upstream_def remove_node_def gs'_def gs1_def)
  moreover have "process_pending_removals ops (gs', s) = Some ((gs'\<lparr>pending_removals := []\<rparr>, s), Inr ())"
    using fresh by (simp add: process_pending_removals_def process_removal_def gs'_def gs1_def node_index_def and_then_def)
  moreover have "pending_additions gs' = pending_additions gs @
        [\<lparr>pa_node = dg_factory st k, pa_caller_index = ix, pa_is_active = True, pa_recycle = True\<rparr>]"
    by (simp add: gs'_def gs1_def)
  moreover have "group_requests (Some k) (Some k) (dg_factory st) (map_of (dg_group st)) =
      [AddUpstream (dg_factory st k) True True, RemoveNode (dg_factory st k)]"
    by (simp add: group_requests_def after_add_def)
  moreover obtain st' b where
      "dynamic_group_cycle btree_store gs pk pv st =
        Some (st', group_requests (Some k) (Some k) (dg_factory st) (map_of (dg_group st)), b)"
      "map_of (dg_group st') k = None"
  proof -
    from btree.cycle_exact[OF gs(1) ok, of pk pv] key obtain g es where
      "dynamic_group_cycle btree_store gs pk pv st = Some (st\<lparr>dg_group := g,
          dg_value := foldl (\<lambda>v (k, x). dg_on_tick st v k x) (dg_on_remove st (dg_value st) k) es\<rparr>,
        group_requests (Some k) (Some k) (dg_factory st) (map_of (dg_group st)), es \<noteq> [])"
      "map_of g = after_del (Some k) (after_add (Some k) (dg_factory st) (map_of (dg_group st)))"
      by auto
    then show ?thesis by (intro that) (assumption, simp add: after_del_def)
  qed
  ultimately show ?thesis by auto
qed

definition small_group :: "(nat, nat, nat, (nat \<times> node) list) dynamic_group_stream" where
  "small_group = dynamic_group_stream_with_store 0 1 (\<lambda>k. k + 10) [(7, 2)] 0 (\<lambda>v k x. v + x) (\<lambda>v k. v)"

definition small_group_gs :: graph_state where
  "small_group_gs = (graph_state_new 0 RealTime Forever nano_zero)
     \<lparr>node_to_index := (\<lambda>n. if n < 3 then Some n else None), node_ticked := [True, True, True],
      current_node_index := Some 0\<rparr>"

lemma small_group_simps:
  "flags_ok small_group_gs" "btree_ok (dg_group small_group)"
  "added_key small_group_gs (\<lambda>_. 5) small_group = Some 5" "deleted_key small_group_gs (\<lambda>_. 5) small_group = Some 5"
  "pending_removals small_group_gs = []" "current_node_index small_group_gs = Some 0"
  "node_index small_group_gs (dg_factory small_group 5) = None"
  by (simp_all add: flags_ok_def small_group_gs_def small_group_def dynamic_group_stream_with_store_def node_index_def
    btree_ok_def added_key_def deleted_key_def ticked_def node_index_ticked_def graph_state_new_def split: if_splits)

lemma dynamic_group_cycle_exact_witness:
  "\<exists>g es. dynamic_group_cycle btree_store small_group_gs (\<lambda>_. 5) (\<lambda>_. 3) small_group =
      Some (small_group\<lparr>dg_group := g, dg_value := foldl (\<lambda>v (k, x). dg_on_tick small_group v k x) 0 es\<rparr>,
        [AddUpstream 15 True True, RemoveNode 15], es \<noteq> []) \<and> (7, 3) \<in> set es \<and> map_of g 5 = None"
proof -
  have req: "group_requests (Some 5) (Some 5) (dg_factory small_group) (map_of (dg_group small_group)) =
      [AddUpstream 15 True True, RemoveNode 15]"
      "(case Some 5 of None \<Rightarrow> dg_value small_group | Some k \<Rightarrow> dg_on_remove small_group (dg_value small_group) k) = 0"
      "after_del (Some 5) (after_add (Some 5) (dg_factory small_group) (map_of (dg_group small_group))) = [7 \<mapsto> 2]"
    by (auto simp: group_requests_def after_add_def after_del_def small_group_def dynamic_group_stream_with_store_def)
  have t: "ticked small_group_gs 2 = Some True"
    by (simp add: ticked_def node_index_def node_index_ticked_def small_group_gs_def)
  from dynamic_group_cycle_exact[OF small_group_simps(1,2), of "\<lambda>_. 5" "\<lambda>_. 3"] t
  show ?thesis unfolding small_group_simps(3,4) req by (elim exE conjE) (intro exI conjI, assumption, auto)
qed

lemma dynamic_group_add_del_leaks_witness:
  "\<exists>st' b. dynamic_group_cycle btree_store small_group_gs (\<lambda>_. 5) (\<lambda>_. 3) small_group =
     Some (st', [AddUpstream 15 True True, RemoveNode 15], b) \<and> map_of (dg_group st') 5 = None"
proof -
  have "dg_factory small_group 5 = 15" by (simp add: small_group_def dynamic_group_stream_with_store_def)
  with dynamic_group_add_del_leaks[OF small_group_simps(1,5,6,2,3,4,7), of "\<lambda>_. 3" "undefined :: unit node_ops" "()"]
  show ?thesis by auto
qed

text \<open>Entering a key again asks for no removal: the stream it had is forgotten and stays wired.\<close>

lemma reinsert_forgets:
  assumes "btree_ok s" "map_of s k = Some old"
  shows "snd (group_insert btree_store k new s) = [AddUpstream new True True] \<and>
    map_of (fst (group_insert btree_store k new s)) = (map_of s)(k \<mapsto> new)"
  using btree.group_insert_map[OF assms(1), of k new] by simp

end
