(* ===== verification/Channels.thy ===== *)
theory Channels
  imports Graph_State
begin

text \<open>
  Channels between graphs and threads: \<^verbatim>\<open>channel/message.rs\<close>, \<^verbatim>\<open>channel/kanal_chan.rs\<close>,
  \<^verbatim>\<open>nodes/channel.rs\<close> and \<^verbatim>\<open>nodes/receiver.rs\<close>.

  The queue itself belongs to the crate \<^verbatim>\<open>kanal\<close> and is a parameter: a record of its calls on a
  state \<open>'c\<close>, where a blocking receive that never returns is \<open>None\<close>. The locale \<open>fifo_channel\<close>
  states what is documented of it, first in first out; \<open>scheduled_queue\<close> interprets it for every
  schedule of arrivals. The worker thread of a \<^verbatim>\<open>ReceiverStream\<close> is represented by the result of
  joining it.

  The theorems: a historical receiver replays a stream with strictly increasing times exactly,
  whatever the arrival schedule (\<open>channel_replay_exact\<close>); two messages with the same time can
  abort the run, depending on the schedule (\<open>channel_same_time_race\<close>); and the error of a worker
  thread is reported after the values it had sent (\<open>receiver_error_after_values\<close>).
\<close>

section \<open>Messages\<close>

datatype 'a message =
    CheckPoint nanotime
  | EndOfStream
  | HistoricalValue "'a list value_at"
  | RealtimeValue 'a
  | MsgError anyhow

text \<open>\<^verbatim>\<open>PartialEq for Message\<close>: errors are never equal.\<close>

fun message_eq :: "'a message \<Rightarrow> 'a message \<Rightarrow> bool" where
  "message_eq (CheckPoint t1) (CheckPoint t2) \<longleftrightarrow> t1 = t2"
| "message_eq EndOfStream EndOfStream \<longleftrightarrow> True"
| "message_eq (HistoricalValue v1) (HistoricalValue v2) \<longleftrightarrow> v1 = v2"
| "message_eq (RealtimeValue v1) (RealtimeValue v2) \<longleftrightarrow> v1 = v2"
| "message_eq _ _ \<longleftrightarrow> False"

definition message_build :: "'a \<Rightarrow> graph_state \<Rightarrow> 'a message" where
  "message_build v gs = (case gs_run_mode gs of
       RealTime \<Rightarrow> RealtimeValue v
     | HistoricalFrom _ \<Rightarrow> HistoricalValue \<lparr>va_value = [v], va_time = gs_time gs\<rparr>)"

datatype send_node_error = ChannelClosed | NotifierClosed

definition send_error_display :: "send_node_error \<Rightarrow> string" where
  "send_error_display e = (case e of ChannelClosed \<Rightarrow> ''channel closed'' | NotifierClosed \<Rightarrow> ''ready-notifier dropped'')"

section \<open>The two ends\<close>

record ('a, 'c) kanal =
  kn_send :: "'a message \<Rightarrow> 'c \<Rightarrow> 'c \<times> (unit + unit)"
  kn_try_recv :: "'c \<Rightarrow> 'c \<times> (unit + 'a message option)"
  kn_recv :: "'c \<Rightarrow> ('c \<times> (unit + 'a message)) option"

definition receiver_try_recv :: "('a, 'c) kanal \<Rightarrow> 'c \<Rightarrow> 'c \<times> 'a message option" where
  "receiver_try_recv kc c = (case kn_try_recv kc c of
       (c', Inr msg) \<Rightarrow> (c', msg)
     | (c', Inl _) \<Rightarrow> (c', Some EndOfStream))"

definition receiver_recv :: "('a, 'c) kanal \<Rightarrow> 'c \<Rightarrow> ('c \<times> 'a message) option" where
  "receiver_recv kc c = (case kn_recv kc c of
       None \<Rightarrow> None
     | Some (c', Inr msg) \<Rightarrow> Some (c', msg)
     | Some (c', Inl _) \<Rightarrow> Some (c', EndOfStream))"

text \<open>\<open>senders i\<close> is the number of senders at the \<open>i\<close>-th poll.\<close>

fun receiver_poll_closed :: "nat \<Rightarrow> (nat \<Rightarrow> nat) \<Rightarrow> nat \<Rightarrow> anyhow + unit" where
  "receiver_poll_closed 0 senders i = Inl (Anyhow ''timed out waiting for the sending end of the channel to close'')"
| "receiver_poll_closed (Suc n) senders i = (if senders i = 0 then Inr () else receiver_poll_closed n senders (Suc i))"

definition receiver_teardown :: "(nat \<Rightarrow> nat) \<Rightarrow> anyhow + unit" where
  "receiver_teardown senders = receiver_poll_closed 100 senders 0"

text \<open>A sender; \<open>notify\<close> is the result of waking the graph at a node.\<close>

record 'c channel_sender =
  cs_kanal_sender :: "'c option"
  cs_ready_notifier :: "nat option"

definition channel_sender_new :: "'c \<Rightarrow> nat option \<Rightarrow> 'c channel_sender" where
  "channel_sender_new c notifier = \<lparr>cs_kanal_sender = Some c, cs_ready_notifier = notifier\<rparr>"

definition set_notifier :: "nat \<Rightarrow> 'c channel_sender \<Rightarrow> 'c channel_sender" where
  "set_notifier n s = s\<lparr>cs_ready_notifier := Some n\<rparr>"

definition send_message :: "('a, 'c) kanal \<Rightarrow> (nat \<Rightarrow> unit + unit) \<Rightarrow> 'a message \<Rightarrow> 'c channel_sender \<Rightarrow>
    'c channel_sender \<times> (send_node_error + unit)" where
  "send_message kc notify msg s = (case cs_kanal_sender s of
       None \<Rightarrow> (s, Inl ChannelClosed)
     | Some c \<Rightarrow> (case kn_send kc msg c of
           (c', Inl _) \<Rightarrow> (s\<lparr>cs_kanal_sender := Some c'\<rparr>, Inl ChannelClosed)
         | (c', Inr _) \<Rightarrow> (s\<lparr>cs_kanal_sender := Some c'\<rparr>,
             case cs_ready_notifier s of
               None \<Rightarrow> Inr ()
             | Some n \<Rightarrow> (case notify n of Inl _ \<Rightarrow> Inl NotifierClosed | Inr _ \<Rightarrow> Inr ()))))"

definition channel_send :: "('a, 'c) kanal \<Rightarrow> (nat \<Rightarrow> unit + unit) \<Rightarrow> graph_state \<Rightarrow> 'a \<Rightarrow> 'c channel_sender \<Rightarrow>
    'c channel_sender \<times> (send_node_error + unit)" where
  "channel_send kc notify gs v s =
     (let message = (case gs_run_mode gs of
          HistoricalFrom _ \<Rightarrow> HistoricalValue \<lparr>va_value = [v], va_time = gs_time gs\<rparr>
        | RealTime \<Rightarrow> RealtimeValue v)
      in send_message kc notify message s)"

definition send_checkpoint :: "('a, 'c) kanal \<Rightarrow> (nat \<Rightarrow> unit + unit) \<Rightarrow> graph_state \<Rightarrow> 'c channel_sender \<Rightarrow>
    'c channel_sender \<times> (send_node_error + unit)" where
  "send_checkpoint kc notify gs s = send_message kc notify (CheckPoint (gs_time gs)) s"

definition channel_close :: "('a, 'c) kanal \<Rightarrow> (nat \<Rightarrow> unit + unit) \<Rightarrow> 'c channel_sender \<Rightarrow>
    'c channel_sender \<times> (send_node_error + unit)" where
  "channel_close kc notify s = (case cs_kanal_sender s of
       None \<Rightarrow> (s, Inr ())
     | Some _ \<Rightarrow> ((fst (send_message kc notify EndOfStream s))\<lparr>cs_kanal_sender := None\<rparr>, Inr ()))"

section \<open>The sending node\<close>

record ('a, 'c) sender_stream =
  sn_source :: node
  sn_sender :: "'c channel_sender"
  sn_trigger :: "node option"
  sn_source_index :: "nat option"

definition send_outcome :: "send_node_error + unit \<Rightarrow> 'r \<Rightarrow> anyhow + 'r" where
  "send_outcome r v = (case r of Inl e \<Rightarrow> Inl (Anyhow (send_error_display e)) | Inr _ \<Rightarrow> Inr v)"

definition sender_upstreams :: "('a, 'c) sender_stream \<Rightarrow> node list \<times> node list" where
  "sender_upstreams st = (sn_source st # (case sn_trigger st of None \<Rightarrow> [] | Some t \<Rightarrow> [t]), [])"

definition sender_stream_cycle :: "('a, 'c) kanal \<Rightarrow> (nat \<Rightarrow> unit + unit) \<Rightarrow> graph_state \<Rightarrow> (node \<Rightarrow> 'a) \<Rightarrow>
    ('a, 'c) sender_stream \<Rightarrow> (('a, 'c) sender_stream \<times> (anyhow + bool)) option" where
  "sender_stream_cycle kc notify gs peek st = do {
     source_index \<leftarrow> (case sn_source_index st of Some i \<Rightarrow> Some i | None \<Rightarrow> node_index gs (sn_source st));
     let st1 = st\<lparr>sn_source_index := Some source_index\<rparr>;
     t \<leftarrow> node_index_ticked gs source_index;
     Some (if t then
         (case channel_send kc notify gs (peek (sn_source st)) (sn_sender st) of
            (s, r) \<Rightarrow> (st1\<lparr>sn_sender := s\<rparr>, send_outcome r True))
       else (case sn_trigger st of
            Some _ \<Rightarrow> (case send_checkpoint kc notify gs (sn_sender st) of
                (s, r) \<Rightarrow> (st1\<lparr>sn_sender := s\<rparr>, send_outcome r False))
          | None \<Rightarrow> (st1, Inl (Anyhow ''None trigger!'')))) }"

definition sender_stream_stop :: "('a, 'c) kanal \<Rightarrow> (nat \<Rightarrow> unit + unit) \<Rightarrow> ('a, 'c) sender_stream \<Rightarrow>
    ('a, 'c) sender_stream \<times> (anyhow + unit)" where
  "sender_stream_stop kc notify st = (case send_message kc notify EndOfStream (sn_sender st) of
       (s, r) \<Rightarrow> (st\<lparr>sn_sender := s\<rparr>, send_outcome r ()))"

section \<open>The receiving node\<close>

record ('a, 'c) channel_receiver_stream =
  cr_receiver :: 'c
  cr_trigger :: "node option"
  cr_has_notifier_channel :: bool
  cr_value :: "'a list"
  cr_finished :: bool
  cr_message_time :: "nanotime option"
  cr_queue :: "'a list value_at list"

definition channel_receiver_stream_new :: "'c \<Rightarrow> node option \<Rightarrow> bool \<Rightarrow> ('a, 'c) channel_receiver_stream" where
  "channel_receiver_stream_new c trigger has_notifier_channel =
     \<lparr>cr_receiver = c, cr_trigger = trigger, cr_has_notifier_channel = has_notifier_channel, cr_value = [],
      cr_finished = False, cr_message_time = None, cr_queue = []\<rparr>"

definition receiver_upstreams :: "('a, 'c) channel_receiver_stream \<Rightarrow> node list \<times> node list" where
  "receiver_upstreams st = ((case cr_trigger st of None \<Rightarrow> [] | Some t \<Rightarrow> [t]), [])"

text \<open>The real-time loop, with the values collected so far.\<close>

partial_function (option) realtime_loop :: "('a, 'c) kanal \<Rightarrow> ('a, 'c) channel_receiver_stream \<Rightarrow> 'a list \<Rightarrow>
    (('a, 'c) channel_receiver_stream \<times> (anyhow + 'a list)) option" where
  "realtime_loop kc st vals =
     (if cr_finished st then Some (st, Inr vals)
      else case receiver_try_recv kc (cr_receiver st) of (c, m) \<Rightarrow>
        (let st1 = st\<lparr>cr_receiver := c\<rparr> in
         case m of
           None \<Rightarrow> Some (st1, Inr vals)
         | Some (RealtimeValue v) \<Rightarrow> realtime_loop kc st1 (vals @ [v])
         | Some (HistoricalValue va) \<Rightarrow> realtime_loop kc st1 (vals @ va_value va)
         | Some EndOfStream \<Rightarrow> realtime_loop kc (st1\<lparr>cr_finished := True\<rparr>) vals
         | Some (CheckPoint _) \<Rightarrow> realtime_loop kc st1 vals
         | Some (MsgError e) \<Rightarrow> Some (st1, Inl e)))"

declare realtime_loop.simps [code]

text \<open>
  What the historical loop does before it reads: stop, read without blocking, or block. Of the
  error messages the rendered times are left out.
\<close>

datatype read_mode = Stop | NonBlocking | Blocking

definition historical_read_mode :: "nanotime \<Rightarrow> ('a, 'c) channel_receiver_stream \<Rightarrow> read_mode" where
  "historical_read_mode time st =
     (if cr_finished st then Stop
      else case cr_message_time st of
        None \<Rightarrow> Blocking
      | Some t \<Rightarrow> if time < t then Stop
          else if t = time then (if cr_trigger st \<noteq> None then Stop else NonBlocking)
          else Blocking)"

definition historical_message :: "nanotime \<Rightarrow> 'a message \<Rightarrow> ('a, 'c) channel_receiver_stream \<Rightarrow>
    ('a, 'c) channel_receiver_stream \<times> (anyhow + unit)" where
  "historical_message time msg st = (case msg of
       RealtimeValue _ \<Rightarrow> (st, Inl (Anyhow ''received RealtimeValue but RunMode is Historical''))
     | HistoricalValue va \<Rightarrow>
         if va_time va < time then
           (st, Inl (Anyhow ''received Historical message but with time less than graph time''))
         else (st\<lparr>cr_message_time := Some (va_time va), cr_queue := cr_queue st @ [va]\<rparr>, Inr ())
     | EndOfStream \<Rightarrow> (st\<lparr>cr_finished := True\<rparr>, Inr ())
     | CheckPoint t \<Rightarrow> (st\<lparr>cr_message_time := Some t\<rparr>, Inr ())
     | MsgError e \<Rightarrow> (st, Inl e))"

partial_function (option) historical_loop :: "('a, 'c) kanal \<Rightarrow> nanotime \<Rightarrow> ('a, 'c) channel_receiver_stream \<Rightarrow>
    (('a, 'c) channel_receiver_stream \<times> (anyhow + unit)) option" where
  "historical_loop kc time st = (case historical_read_mode time st of
       Stop \<Rightarrow> Some (st, Inr ())
     | NonBlocking \<Rightarrow> (case receiver_try_recv kc (cr_receiver st) of
           (c, None) \<Rightarrow> Some (st\<lparr>cr_receiver := c\<rparr>, Inr ())
         | (c, Some msg) \<Rightarrow> (case historical_message time msg (st\<lparr>cr_receiver := c\<rparr>) of
               (st', Inl e) \<Rightarrow> Some (st', Inl e)
             | (st', Inr _) \<Rightarrow> historical_loop kc time st'))
     | Blocking \<Rightarrow> (case receiver_recv kc (cr_receiver st) of
           None \<Rightarrow> None
         | Some (c, msg) \<Rightarrow> (case historical_message time msg (st\<lparr>cr_receiver := c\<rparr>) of
               (st', Inl e) \<Rightarrow> Some (st', Inl e)
             | (st', Inr _) \<Rightarrow> historical_loop kc time st')))"

declare historical_loop.simps [code]

fun pop_due :: "nanotime \<Rightarrow> 'a list value_at list \<Rightarrow> 'a list value_at list \<times> 'a list" where
  "pop_due time [] = ([], [])"
| "pop_due time (va # q) = (if va_time va \<le> time then (case pop_due time q of (q', vals) \<Rightarrow> (q', va_value va @ vals))
     else (va # q, []))"

definition next_wakeup :: "nanotime \<Rightarrow> ('a, 'c) channel_receiver_stream \<Rightarrow> ('a, 'c) channel_receiver_stream \<times> cmd list" where
  "next_wakeup time st = (case cr_queue st of
       head # _ \<Rightarrow> (st, [AddCallback (va_time head)])
     | [] \<Rightarrow> (st\<lparr>cr_message_time := None\<rparr>,
         if \<not> cr_finished st \<and> cr_trigger st = None then [AddCallback time] else []))"

definition deliver :: "'a list \<Rightarrow> ('a, 'c) channel_receiver_stream \<Rightarrow> ('a, 'c) channel_receiver_stream \<times> bool" where
  "deliver vals st = (if vals \<noteq> [] then (st\<lparr>cr_value := vals\<rparr>, True) else (st, False))"

definition channel_receiver_cycle :: "('a, 'c) kanal \<Rightarrow> graph_state \<Rightarrow> ('a, 'c) channel_receiver_stream \<Rightarrow>
    (('a, 'c) channel_receiver_stream \<times> cmd list \<times> (anyhow + bool)) option" where
  "channel_receiver_cycle kc gs st = (case gs_run_mode gs of
       RealTime \<Rightarrow> (case realtime_loop kc st [] of
           None \<Rightarrow> None
         | Some (st1, Inl e) \<Rightarrow> Some (st1, [], Inl e)
         | Some (st1, Inr vals) \<Rightarrow> (case deliver vals st1 of (st2, b) \<Rightarrow> Some (st2, [], Inr b)))
     | HistoricalFrom _ \<Rightarrow> (case historical_loop kc (gs_time gs) st of
           None \<Rightarrow> None
         | Some (st1, Inl e) \<Rightarrow> Some (st1, [], Inl e)
         | Some (st1, Inr _) \<Rightarrow> (case pop_due (gs_time gs) (cr_queue st1) of (q, vals) \<Rightarrow>
             (case next_wakeup (gs_time gs) (st1\<lparr>cr_queue := q\<rparr>) of (st2, cmds) \<Rightarrow>
               (case deliver vals st2 of (st3, b) \<Rightarrow> Some (st3, cmds, Inr b))))))"

text \<open>\<open>sent\<close> is the result of handing the ready notifier to the producer.\<close>

definition channel_receiver_setup :: "anyhow + unit \<Rightarrow> graph_state \<Rightarrow> ('a, 'c) channel_receiver_stream \<Rightarrow>
    ('a, 'c) channel_receiver_stream \<times> cmd list \<times> (anyhow + unit)" where
  "channel_receiver_setup sent gs st = (case gs_run_mode gs of
       RealTime \<Rightarrow> if cr_has_notifier_channel st then (st\<lparr>cr_has_notifier_channel := False\<rparr>, [], sent) else (st, [], Inr ())
     | HistoricalFrom time \<Rightarrow> (st, if cr_trigger st = None then [AddCallback time] else [], Inr ()))"

section \<open>The node that owns a producer thread\<close>

datatype join_result = ThreadPanicked | ThreadReturned "anyhow + unit"

datatype thread_state = Func | JoinHandle | Done | Empty

text \<open>\<^verbatim>\<open>State::start\<close>: the function is handed to a new thread.\<close>

definition thread_start :: "thread_state \<Rightarrow> thread_state" where
  "thread_start s = (if s = Func then JoinHandle else s)"

text \<open>\<open>joined\<close>: the result of joining the thread, \<open>None\<close> while it is running.\<close>

definition check_running :: "join_result option \<Rightarrow> bool \<Rightarrow> thread_state \<Rightarrow> thread_state \<times> (anyhow + unit)" where
  "check_running joined finished s = (case s of
       JoinHandle \<Rightarrow> (case joined of
           None \<Rightarrow> (JoinHandle, Inr ())
         | Some ThreadPanicked \<Rightarrow> (Empty, Inl (Anyhow ''Receiver thread panicked: Any { .. }''))
         | Some (ThreadReturned (Inl e)) \<Rightarrow> (Empty, Inl e)
         | Some (ThreadReturned (Inr _)) \<Rightarrow>
             if finished then (Done, Inr ())
             else (Empty, Inl (Anyhow ''Receiver thread exited unexpectedly'')))
     | Done \<Rightarrow> (Done, Inr ())
     | Func \<Rightarrow> (Func, Inl (Anyhow ''Receiver thread not running''))
     | Empty \<Rightarrow> (Empty, Inl (Anyhow ''Receiver thread not running'')))"

definition thread_stop :: "join_result \<Rightarrow> thread_state \<Rightarrow> thread_state \<times> (anyhow + unit)" where
  "thread_stop joined s = (case s of
       JoinHandle \<Rightarrow> (Empty, case joined of
           ThreadPanicked \<Rightarrow> Inl (Anyhow ''Thread panicked: Any { .. }'')
         | ThreadReturned r \<Rightarrow> r)
     | _ \<Rightarrow> (Empty, Inr ()))"

record ('a, 'c) receiver_stream =
  rv_inner :: "('a, 'c) channel_receiver_stream"
  rv_sender :: "'c channel_sender option"
  rv_state :: thread_state
  rv_stop :: bool
  rv_assert_realtime :: bool
  rv_pending_err :: "anyhow option"
  rv_notifier :: "nat option"

definition receiver_stream_new :: "'c \<Rightarrow> bool \<Rightarrow> ('a, 'c) receiver_stream" where
  "receiver_stream_new c assert_realtime =
     \<lparr>rv_inner = channel_receiver_stream_new c None False, rv_sender = Some (channel_sender_new c None),
      rv_state = Func, rv_stop = False, rv_assert_realtime = assert_realtime, rv_pending_err = None, rv_notifier = None\<rparr>"

definition receiver_stream_cycle :: "('a, 'c) kanal \<Rightarrow> join_result option \<Rightarrow> graph_state \<Rightarrow> ('a, 'c) receiver_stream \<Rightarrow>
    (('a, 'c) receiver_stream \<times> cmd list \<times> (anyhow + bool)) option" where
  "receiver_stream_cycle kc joined gs st = (case rv_pending_err st of
       Some e \<Rightarrow> Some (st\<lparr>rv_pending_err := None\<rparr>, [], Inl e)
     | None \<Rightarrow> (case channel_receiver_cycle kc gs (rv_inner st) of
           None \<Rightarrow> None
         | Some (inner, cmds, Inl e) \<Rightarrow> Some (st\<lparr>rv_inner := inner\<rparr>, cmds, Inl e)
         | Some (inner, cmds, Inr b) \<Rightarrow>
             (let st1 = st\<lparr>rv_inner := inner\<rparr> in
              case check_running joined (cr_finished inner) (rv_state st) of
                (s, Inr _) \<Rightarrow> Some (st1\<lparr>rv_state := s\<rparr>, cmds, Inr b)
              | (s, Inl e) \<Rightarrow> Some (st1\<lparr>rv_state := s, rv_pending_err := Some e\<rparr>,
                  cmds @ (case rv_notifier st of None \<Rightarrow> [] | Some n \<Rightarrow> [NotifyReady n]), Inr b))))"

text \<open>The ready notifier of a node is its index; \<open>None\<close> outside a node call.\<close>

definition receiver_stream_setup :: "graph_state \<Rightarrow> ('a, 'c) receiver_stream \<Rightarrow>
    (('a, 'c) receiver_stream \<times> cmd list \<times> (anyhow + unit)) option" where
  "receiver_stream_setup gs st = (case rv_sender st of
       None \<Rightarrow> Some (st, [], Inl (Anyhow ''missing sender''))
     | Some sender \<Rightarrow>
         (let st1 = st\<lparr>rv_sender := None\<rparr>;
              finish = (\<lambda>st2. case channel_receiver_setup (Inr ()) gs (rv_inner st2) of
                (inner, cmds, r) \<Rightarrow> Some (st2\<lparr>rv_state := thread_start (rv_state st2), rv_inner := inner\<rparr>, cmds, r))
          in if gs_run_mode gs = RealTime
             then (case current_node_index gs of None \<Rightarrow> None | Some ix \<Rightarrow> finish (st1\<lparr>rv_notifier := Some ix\<rparr>))
             else finish st1))"

definition receiver_stream_start :: "graph_state \<Rightarrow> ('a, 'c) receiver_stream \<Rightarrow> anyhow + unit" where
  "receiver_stream_start gs st =
     (if rv_assert_realtime st \<and> gs_run_mode gs \<noteq> RealTime
      then Inl (Anyhow ''ReceiverStream only supports real-time mode'') else Inr ())"

definition receiver_stream_stop :: "join_result \<Rightarrow> ('a, 'c) receiver_stream \<Rightarrow> ('a, 'c) receiver_stream \<times> (anyhow + unit)" where
  "receiver_stream_stop joined st = (case thread_stop joined (rv_state st) of
       (s, r) \<Rightarrow> (st\<lparr>rv_stop := True, rv_state := s\<rparr>, r))"

section \<open>A receiver on its own\<close>

text \<open>
  The engine with an untriggered receiver as its only source: after each cycle the clock moves
  to the time the receiver asks for, at least one nanosecond on. The result is what was emitted
  and how it ended: still busy after \<open>n\<close> cycles, blocked for ever, aborted, or with nothing left
  to wake it.
\<close>

datatype drive_end = Busy | Stuck | Aborted anyhow | Quiet

fun drive :: "('a, 'c) kanal \<Rightarrow> nat \<Rightarrow> graph_state \<Rightarrow> ('a, 'c) channel_receiver_stream \<Rightarrow>
    (nanotime \<times> 'a list) list \<times> drive_end" where
  "drive kc 0 gs st = ([], Busy)"
| "drive kc (Suc n) gs st = (case channel_receiver_cycle kc gs st of
       None \<Rightarrow> ([], Stuck)
     | Some (st', cmds, Inl e) \<Rightarrow> ([], Aborted e)
     | Some (st', cmds, Inr b) \<Rightarrow>
         (let out = (if b then [(gs_time gs, cr_value st')] else []) in
          case cmds of
            [AddCallback u] \<Rightarrow>
              (case drive kc n (gs\<lparr>gs_time := max u (nano_add_raw (gs_time gs) 1)\<rparr>) st' of (outs, e) \<Rightarrow> (out @ outs, e))
          | _ \<Rightarrow> (out, Quiet)))"

text \<open>A well-behaved producer: bursts with strictly increasing times below the end of time, then the end.\<close>

definition value_stream :: "'a list value_at list \<Rightarrow> 'a message list" where
  "value_stream vs = map HistoricalValue vs @ [EndOfStream]"

definition replayable :: "'a list value_at list \<Rightarrow> bool" where
  "replayable vs \<longleftrightarrow> sorted_wrt (<) (map va_time vs) \<and> (\<forall>v \<in> set vs. va_value v \<noteq> [] \<and> va_time v < nano_max)"

definition emissions :: "'a list value_at list \<Rightarrow> (nanotime \<times> 'a list) list" where
  "emissions vs = map (\<lambda>v. (va_time v, va_value v)) vs"

lemma nano_succ_le: "t < u \<Longrightarrow> nano_add_raw t 1 \<le> u"
  by (cases t; cases u) (simp add: nano_add_raw_def inc_le)

section \<open>What a channel promises\<close>

text \<open>
  \<open>pending c\<close> are the messages the receiver will get, buffered or still to be sent. A blocking
  receive gets the next one; a non-blocking one gets it or finds that it has not arrived.
\<close>

locale fifo_channel =
  fixes kc :: "('a, 'c) kanal" and pending :: "'c \<Rightarrow> 'a message list"
  assumes recv_next: "pending c = m # ms \<Longrightarrow> \<exists>c'. kn_recv kc c = Some (c', Inr m) \<and> pending c' = ms"
    and try_next: "pending c = m # ms \<Longrightarrow>
      (\<exists>c'. kn_try_recv kc c = (c', Inr None) \<and> pending c' = m # ms) \<or>
      (\<exists>c'. kn_try_recv kc c = (c', Inr (Some m)) \<and> pending c' = ms)"
begin

definition idle :: "('a, 'c) channel_receiver_stream \<Rightarrow> 'a message list \<Rightarrow> bool" where
  "idle st ms \<longleftrightarrow> cr_trigger st = None \<and> \<not> cr_finished st \<and> cr_message_time st = None \<and> cr_queue st = [] \<and>
     pending (cr_receiver st) = ms"

definition holding :: "('a, 'c) channel_receiver_stream \<Rightarrow> 'a list value_at \<Rightarrow> 'a message list \<Rightarrow> bool" where
  "holding st va ms \<longleftrightarrow> cr_trigger st = None \<and> \<not> cr_finished st \<and> cr_message_time st = Some (va_time va) \<and>
     cr_queue st = [va] \<and> pending (cr_receiver st) = ms"

lemma holding_loop_later: "holding st va ms \<Longrightarrow> t < va_time va \<Longrightarrow> historical_loop kc t st = Some (st, Inr ())"
  by (subst historical_loop.simps) (simp add: holding_def historical_read_mode_def)

lemma idle_loop_end:
  assumes "idle st (EndOfStream # rest)"
  shows "\<exists>st'. historical_loop kc t st = Some (st', Inr ()) \<and> cr_finished st' \<and> cr_queue st' = []"
proof -
  obtain c where c: "kn_recv kc (cr_receiver st) = Some (c, Inr EndOfStream)"
    using recv_next[of "cr_receiver st"] assms by (auto simp: idle_def)
  have "historical_loop kc t st = historical_loop kc t (st\<lparr>cr_receiver := c, cr_finished := True\<rparr>)"
    using assms c by (subst historical_loop.simps)
      (simp add: idle_def historical_read_mode_def receiver_recv_def historical_message_def)
  also have "\<dots> = Some (st\<lparr>cr_receiver := c, cr_finished := True\<rparr>, Inr ())"
    by (subst historical_loop.simps) (simp add: historical_read_mode_def)
  finally show ?thesis using assms by (simp add: idle_def)
qed

lemma idle_loop_value:
  assumes "idle st (HistoricalValue va # ms)" "t \<le> va_time va"
  shows "\<exists>st'. holding st' va ms \<and> historical_loop kc t st = historical_loop kc t st'"
proof -
  obtain c where c: "kn_recv kc (cr_receiver st) = Some (c, Inr (HistoricalValue va))" "pending c = ms"
    using recv_next[of "cr_receiver st"] assms by (auto simp: idle_def)
  define st' where "st' = st\<lparr>cr_receiver := c, cr_message_time := Some (va_time va), cr_queue := [va]\<rparr>"
  have "historical_loop kc t st = historical_loop kc t st'"
    using assms(1) leD[OF assms(2)] c by (subst historical_loop.simps)
      (simp add: idle_def historical_read_mode_def receiver_recv_def historical_message_def st'_def)
  moreover have "holding st' va ms" using assms c(2) by (simp add: idle_def holding_def st'_def)
  ultimately show ?thesis by blast
qed

lemma holding_loop_now:
  assumes "holding st va (m # ms)"
    and m: "m = EndOfStream \<or> (\<exists>w. m = HistoricalValue w \<and> va_time va < va_time w)"
  shows "\<exists>st'. historical_loop kc (va_time va) st = Some (st', Inr ()) \<and> cr_trigger st' = None \<and>
    (holding st' va (m # ms) \<or>
     m = EndOfStream \<and> cr_finished st' \<and> cr_queue st' = [va] \<or>
     (\<exists>w. m = HistoricalValue w \<and> \<not> cr_finished st' \<and> cr_queue st' = [va, w] \<and> cr_message_time st' = Some (va_time w) \<and>
        pending (cr_receiver st') = ms))"
proof -
  let ?t = "va_time va"
  have mode: "historical_read_mode ?t st = NonBlocking" using assms(1) by (simp add: holding_def historical_read_mode_def)
  from try_next[of "cr_receiver st" m ms] assms(1)
  consider (late) c where "kn_try_recv kc (cr_receiver st) = (c, Inr None)" "pending c = m # ms"
    | (arrived) c where "kn_try_recv kc (cr_receiver st) = (c, Inr (Some m))" "pending c = ms"
    by (auto simp: holding_def)
  then show ?thesis
  proof cases
    case late
    then show ?thesis using assms(1) mode
      by (intro exI[of _ "st\<lparr>cr_receiver := c\<rparr>"]) (simp add: historical_loop.simps receiver_try_recv_def holding_def)
  next
    case arrived
    show ?thesis using m
    proof (elim disjE exE conjE)
      assume "m = EndOfStream"
      moreover have "historical_loop kc ?t st = historical_loop kc ?t (st\<lparr>cr_receiver := c, cr_finished := True\<rparr>)"
        using arrived mode calculation
        by (subst historical_loop.simps) (simp add: receiver_try_recv_def historical_message_def)
      ultimately show ?thesis using assms(1)
        by (intro exI[of _ "st\<lparr>cr_receiver := c, cr_finished := True\<rparr>"])
          (simp add: historical_loop.simps[of kc ?t "st\<lparr>cr_receiver := c, cr_finished := True\<rparr>"]
            historical_read_mode_def holding_def)
    next
      fix w assume w: "m = HistoricalValue w" "?t < va_time w"
      define st' where "st' = st\<lparr>cr_receiver := c, cr_message_time := Some (va_time w), cr_queue := [va, w]\<rparr>"
      have "historical_loop kc ?t st = historical_loop kc ?t st'"
        using arrived mode w(1) leD[OF less_imp_le[OF w(2)]] assms(1) by (subst historical_loop.simps)
          (simp add: receiver_try_recv_def historical_message_def st'_def holding_def)
      moreover have "historical_loop kc ?t st' = Some (st', Inr ())"
        using w(2) assms(1) by (subst historical_loop.simps) (simp add: st'_def historical_read_mode_def holding_def)
      ultimately show ?thesis using w arrived(2) assms(1)
        by (intro exI[of _ st']) (simp add: st'_def holding_def)
    qed
  qed
qed

lemma historical_cycle:
  assumes "gs_run_mode gs = HistoricalFrom t0" "historical_loop kc (gs_time gs) st = Some (st1, Inr ())"
    "pop_due (gs_time gs) (cr_queue st1) = (q, vals)" "next_wakeup (gs_time gs) (st1\<lparr>cr_queue := q\<rparr>) = (st2, cmds)"
  shows "channel_receiver_cycle kc gs st =
    Some (if vals \<noteq> [] then st2\<lparr>cr_value := vals\<rparr> else st2, cmds, Inr (vals \<noteq> []))"
  using assms by (simp add: channel_receiver_cycle_def deliver_def)

lemma idle_cycle_end:
  assumes "gs_run_mode gs = HistoricalFrom t0" "idle st (EndOfStream # rest)"
  shows "\<exists>st'. channel_receiver_cycle kc gs st = Some (st', [], Inr False)"
proof -
  obtain st1 where l: "historical_loop kc (gs_time gs) st = Some (st1, Inr ())" "cr_finished st1" "cr_queue st1 = []"
    using idle_loop_end[OF assms(2)] by blast
  show ?thesis using historical_cycle[OF assms(1) l(1)] l(2,3) by (simp add: next_wakeup_def)
qed

lemma idle_cycle_later:
  assumes "gs_run_mode gs = HistoricalFrom t0" "idle st (HistoricalValue va # ms)" "gs_time gs < va_time va"
  shows "\<exists>st'. channel_receiver_cycle kc gs st = Some (st', [AddCallback (va_time va)], Inr False) \<and> holding st' va ms"
proof -
  obtain st1 where h: "holding st1 va ms" "historical_loop kc (gs_time gs) st = historical_loop kc (gs_time gs) st1"
    using idle_loop_value[OF assms(2)] assms(3) by (metis less_imp_le)
  then have l: "historical_loop kc (gs_time gs) st = Some (st1, Inr ())" using holding_loop_later assms(3) by simp
  have q: "cr_queue st1 = [va]" using h(1) by (simp add: holding_def)
  then have "st1\<lparr>cr_queue := [va]\<rparr> = st1" by simp
  with historical_cycle[OF assms(1) l, of "[va]" "[]" st1 "[AddCallback (va_time va)]"] q leD[of "va_time va"] assms(3) h(1)
  show ?thesis by (auto simp: next_wakeup_def not_le)
qed

lemma idle_cycle_now:
  assumes "gs_run_mode gs = HistoricalFrom t0" "idle st (HistoricalValue va # ms)" "gs_time gs = va_time va"
  shows "\<exists>st1. holding st1 va ms \<and> channel_receiver_cycle kc gs st = channel_receiver_cycle kc gs st1"
proof -
  obtain st1 where "holding st1 va ms" "historical_loop kc (gs_time gs) st = historical_loop kc (gs_time gs) st1"
    using idle_loop_value[OF assms(2), of "gs_time gs"] assms(3) by auto
  then show ?thesis using assms(1) by (auto simp: channel_receiver_cycle_def)
qed

lemma holding_cycle:
  assumes "gs_run_mode gs = HistoricalFrom t0" "holding st va (m # ms)" "gs_time gs = va_time va" "va_value va \<noteq> []"
    and m: "m = EndOfStream \<or> (\<exists>w. m = HistoricalValue w \<and> va_time va < va_time w)"
  shows "\<exists>st' cmds. channel_receiver_cycle kc gs st = Some (st', cmds, Inr True) \<and> cr_value st' = va_value va \<and>
    (cmds = [AddCallback (gs_time gs)] \<and> idle st' (m # ms) \<or>
     m = EndOfStream \<and> cmds = [] \<or>
     (\<exists>w. m = HistoricalValue w \<and> cmds = [AddCallback (va_time w)] \<and> holding st' w ms))"
proof -
  obtain st1 where l: "historical_loop kc (gs_time gs) st = Some (st1, Inr ())" "cr_trigger st1 = None"
    and c: "holding st1 va (m # ms) \<or> m = EndOfStream \<and> cr_finished st1 \<and> cr_queue st1 = [va] \<or>
     (\<exists>w. m = HistoricalValue w \<and> \<not> cr_finished st1 \<and> cr_queue st1 = [va, w] \<and> cr_message_time st1 = Some (va_time w) \<and>
        pending (cr_receiver st1) = ms)"
    using holding_loop_now[OF assms(2) m] assms(3) by auto
  note cyc = historical_cycle[OF assms(1) l(1)]
  from c show ?thesis
  proof (elim disjE exE conjE)
    assume h: "holding st1 va (m # ms)"
    then have "cr_queue st1 = [va]" "\<not> cr_finished st1" by (simp_all add: holding_def)
    with cyc[of "[]" "va_value va"] assms(3,4) l(2) h show ?thesis
      by (auto simp: next_wakeup_def idle_def holding_def)
  next
    assume "m = EndOfStream" "cr_finished st1" "cr_queue st1 = [va]"
    with cyc[of "[]" "va_value va"] assms(3,4) show ?thesis by (auto simp: next_wakeup_def)
  next
    fix w assume w: "m = HistoricalValue w" "\<not> cr_finished st1" "cr_queue st1 = [va, w]"
      "cr_message_time st1 = Some (va_time w)" "pending (cr_receiver st1) = ms"
    have "va_time va < va_time w" using m w(1) by auto
    with w cyc[of "[w]" "va_value va"] assms(3,4) l(2) show ?thesis
      by (auto simp: next_wakeup_def holding_def)
  qed
qed

lemma drive_holding_step:
  fixes st :: "('a, 'c) channel_receiver_stream"
  assumes gs: "gs_run_mode gs = HistoricalFrom t0" "gs_time gs = va_time v"
    and h: "holding st v (value_stream vs @ rest)" and r: "replayable (v # vs)"
    and idl: "\<And>st' :: ('a, 'c) channel_receiver_stream.
      idle st' (value_stream vs @ rest) \<Longrightarrow> drive kc n (gs\<lparr>gs_time := nano_add_raw (va_time v) 1\<rparr>) st' = (emissions vs, Quiet)"
    and hld: "\<And>w ws st' :: ('a, 'c) channel_receiver_stream. vs = w # ws \<Longrightarrow> holding st' w (value_stream ws @ rest) \<Longrightarrow>
      drive kc n (gs\<lparr>gs_time := va_time w\<rparr>) st' = (emissions vs, Quiet)"
  shows "drive kc (Suc n) gs st = (emissions (v # vs), Quiet)"
proof -
  obtain m ms where ms: "value_stream vs @ rest = m # ms" by (cases vs) (simp_all add: value_stream_def)
  have m: "m = EndOfStream \<or> (\<exists>w. m = HistoricalValue w \<and> va_time v < va_time w)"
    using ms r by (cases vs) (auto simp: value_stream_def replayable_def)
  have v: "va_value v \<noteq> []" "va_time v < nano_max" using r by (simp_all add: replayable_def)
  obtain st' cmds where c: "channel_receiver_cycle kc gs st = Some (st', cmds, Inr True)" "cr_value st' = va_value v"
    and k: "cmds = [AddCallback (gs_time gs)] \<and> idle st' (m # ms) \<or> m = EndOfStream \<and> cmds = [] \<or>
      (\<exists>w. m = HistoricalValue w \<and> cmds = [AddCallback (va_time w)] \<and> holding st' w ms)"
    using holding_cycle[OF gs(1) h[unfolded ms] gs(2) v(1) m] by blast
  have up: "max (va_time v) (nano_add_raw (va_time v) 1) = nano_add_raw (va_time v) 1"
    using nano_succ_greater[OF v(2)] by (simp add: max_absorb2 less_imp_le)
  from k show ?thesis
  proof (elim disjE exE conjE)
    assume "cmds = [AddCallback (gs_time gs)]" "idle st' (m # ms)"
    with c gs(2) idl[of st'] ms up show ?thesis by (simp add: emissions_def)
  next
    assume e: "m = EndOfStream" "cmds = []"
    then have "vs = []" using ms by (cases vs) (simp_all add: value_stream_def)
    with e c gs(2) show ?thesis by (simp add: emissions_def)
  next
    fix w assume w: "m = HistoricalValue w" "cmds = [AddCallback (va_time w)]" "holding st' w ms"
    then obtain ws where vs: "vs = w # ws" "ms = value_stream ws @ rest"
      using ms by (cases vs) (auto simp: value_stream_def)
    have "va_time v < va_time w" using r vs(1) by (simp add: replayable_def)
    then have "max (va_time w) (nano_add_raw (va_time v) 1) = va_time w" by (simp add: max_absorb1 nano_succ_le)
    with w c gs(2) hld[OF vs(1)] vs(2) show ?thesis by (simp add: emissions_def)
  qed
qed

lemma drive_idle_step:
  fixes st :: "('a, 'c) channel_receiver_stream"
  assumes gs: "gs_run_mode gs = HistoricalFrom t0" "gs_time gs \<le> va_time w"
    and st: "idle st (value_stream (w # ws) @ rest)"
    and H: "\<And>(st1 :: ('a, 'c) channel_receiver_stream) gs1 k. gs_run_mode gs1 = HistoricalFrom t0 \<Longrightarrow> gs_time gs1 = va_time w \<Longrightarrow>
      holding st1 w (value_stream ws @ rest) \<Longrightarrow> n \<le> k \<Longrightarrow> drive kc k gs1 st1 = out"
    and out: "snd out = Quiet"
  shows "drive kc (Suc n) gs st = out"
proof -
  have i: "idle st (HistoricalValue w # value_stream ws @ rest)" using st by (simp add: value_stream_def)
  show ?thesis
  proof (cases "gs_time gs = va_time w")
    case True
    then obtain st1 where "holding st1 w (value_stream ws @ rest)" "channel_receiver_cycle kc gs st = channel_receiver_cycle kc gs st1"
      using idle_cycle_now[OF gs(1) i] by blast
    then show ?thesis using H[OF gs(1) True, of st1 "Suc n"] by simp
  next
    case False
    then have lt: "gs_time gs < va_time w" using gs(2) by simp
    obtain st1 where h: "channel_receiver_cycle kc gs st = Some (st1, [AddCallback (va_time w)], Inr False)"
      "holding st1 w (value_stream ws @ rest)" using idle_cycle_later[OF gs(1) i lt] by blast
    have "max (va_time w) (nano_add_raw (gs_time gs) 1) = va_time w" using nano_succ_le[OF lt] by (simp add: max_absorb1)
    with h H[of "gs\<lparr>gs_time := va_time w\<rparr>" st1 n] gs(1) show ?thesis by simp
  qed
qed

text \<open>The two states a receiver is in between cycles, by induction on what is still to come.\<close>

lemma drive_exact:
  fixes vs :: "'a list value_at list" and st :: "('a, 'c) channel_receiver_stream" and gs :: graph_state
  shows "gs_run_mode gs = HistoricalFrom t0 \<Longrightarrow> gs_time gs = va_time v \<Longrightarrow> holding st v (value_stream vs @ rest) \<Longrightarrow>
      replayable (v # vs) \<Longrightarrow> 2 * length vs + 2 \<le> n \<Longrightarrow> drive kc n gs st = (emissions (v # vs), Quiet)"
    and "gs_run_mode gs = HistoricalFrom t0 \<Longrightarrow> \<forall>v \<in> set vs. gs_time gs \<le> va_time v \<Longrightarrow> idle st (value_stream vs @ rest) \<Longrightarrow>
      replayable vs \<Longrightarrow> 2 * length vs + 1 \<le> n \<Longrightarrow> drive kc n gs st = (emissions vs, Quiet)"
proof (induction vs arbitrary: gs st v n)
  case Nil
  { case 2
    then obtain n' where "n = Suc n'" by (cases n) auto
    with idle_cycle_end[of gs t0 st rest] 2 show ?case by (auto simp: value_stream_def emissions_def)
  next
    case 1
    then obtain n' where n: "n = Suc n'" "1 \<le> n'" by (cases n) auto
    show ?case unfolding n(1)
    proof (rule drive_holding_step[OF 1(1-4)])
      fix st' :: "('a, 'c) channel_receiver_stream"
      assume "idle st' (value_stream [] @ rest)"
      then show "drive kc n' (gs\<lparr>gs_time := nano_add_raw (va_time v) 1\<rparr>) st' = (emissions [], Quiet)"
        using n(2) idle_cycle_end[of "gs\<lparr>gs_time := nano_add_raw (va_time v) 1\<rparr>" t0 st' rest] 1(1)
        by (cases n') (auto simp: value_stream_def emissions_def)
    qed simp
  }
next
  case (Cons w ws)
  have I: "drive kc n gs st = (emissions (w # ws), Quiet)"
    if asm: "gs_run_mode gs = HistoricalFrom t0" "\<forall>v \<in> set (w # ws). gs_time gs \<le> va_time v" "idle st (value_stream (w # ws) @ rest)"
      "replayable (w # ws)" "2 * length (w # ws) + 1 \<le> n" for gs st n
  proof -
    obtain n' where n: "n = Suc n'" "2 * length ws + 2 \<le> n'" using asm(5) by (cases n) auto
    show ?thesis unfolding n(1) using asm(2) Cons.IH(1) asm(4) n(2)
      by (intro drive_idle_step[OF asm(1) _ asm(3)]) auto
  qed
  { case 1
    obtain n' where n: "n = Suc n'" "2 * length (w # ws) + 1 \<le> n'" "2 * length ws + 2 \<le> n'" using 1(5) by (cases n) auto
    have r: "replayable (w # ws)" "\<forall>u \<in> set (w # ws). nano_add_raw (va_time v) 1 \<le> va_time u"
      using 1(4) by (auto simp: replayable_def intro: nano_succ_le)
    show ?case unfolding n(1)
    proof (rule drive_holding_step[OF 1(1-4)])
      fix st' :: "('a, 'c) channel_receiver_stream"
      assume "idle st' (value_stream (w # ws) @ rest)"
      then show "drive kc n' (gs\<lparr>gs_time := nano_add_raw (va_time v) 1\<rparr>) st' = (emissions (w # ws), Quiet)"
        using I 1(1) r n(2) by simp
    next
      fix w' ws' and st' :: "('a, 'c) channel_receiver_stream"
      assume "w # ws = w' # ws'" "holding st' w' (value_stream ws' @ rest)"
      then show "drive kc n' (gs\<lparr>gs_time := va_time w'\<rparr>) st' = (emissions (w # ws), Quiet)"
        using Cons.IH(1)[of "gs\<lparr>gs_time := va_time w\<rparr>" w st' n'] 1(1) r(1) n(3) by simp
    qed
  next
    case 2
    then show ?case by (rule I)
  }
qed

end

text \<open>Unfolding the loop when the mode is known.\<close>

lemma historical_loop_modes:
  "historical_read_mode t st = Stop \<Longrightarrow> historical_loop kc t st = Some (st, Inr ())"
  "historical_read_mode t st = NonBlocking \<Longrightarrow> historical_loop kc t st =
    (case receiver_try_recv kc (cr_receiver st) of
       (c, None) \<Rightarrow> Some (st\<lparr>cr_receiver := c\<rparr>, Inr ())
     | (c, Some msg) \<Rightarrow> (case historical_message t msg (st\<lparr>cr_receiver := c\<rparr>) of
           (st', Inl e) \<Rightarrow> Some (st', Inl e)
         | (st', Inr _) \<Rightarrow> historical_loop kc t st'))"
  "historical_read_mode t st = Blocking \<Longrightarrow> historical_loop kc t st =
    (case receiver_recv kc (cr_receiver st) of
       None \<Rightarrow> None
     | Some (c, msg) \<Rightarrow> (case historical_message t msg (st\<lparr>cr_receiver := c\<rparr>) of
           (st', Inl e) \<Rightarrow> Some (st', Inl e)
         | (st', Inr _) \<Rightarrow> historical_loop kc t st'))"
  by (subst historical_loop.simps, simp)+

section \<open>A queue with a schedule of arrivals\<close>

text \<open>
  The messages a producer sends in order, and for each non-blocking receive whether the next
  message has arrived by then (after the schedule ends, everything has).
\<close>

record 'a scheduled_queue =
  sq_messages :: "'a message list"
  sq_arrivals :: "bool list"

definition sq_try_recv :: "'a scheduled_queue \<Rightarrow> 'a scheduled_queue \<times> (unit + 'a message option)" where
  "sq_try_recv q = (case sq_messages q of
       [] \<Rightarrow> (q, Inr None)
     | m # ms \<Rightarrow> (case sq_arrivals q of
           False # bs \<Rightarrow> (q\<lparr>sq_arrivals := bs\<rparr>, Inr None)
         | bs \<Rightarrow> (\<lparr>sq_messages = ms, sq_arrivals = tl bs\<rparr>, Inr (Some m))))"

definition sq_recv :: "'a scheduled_queue \<Rightarrow> ('a scheduled_queue \<times> (unit + 'a message)) option" where
  "sq_recv q = (case sq_messages q of [] \<Rightarrow> None | m # ms \<Rightarrow> Some (q\<lparr>sq_messages := ms\<rparr>, Inr m))"

definition scheduled_queue :: "('a, 'a scheduled_queue) kanal" where
  "scheduled_queue = \<lparr>kn_send = (\<lambda>m q. (q\<lparr>sq_messages := sq_messages q @ [m]\<rparr>, Inr ())),
     kn_try_recv = sq_try_recv, kn_recv = sq_recv\<rparr>"

interpretation sched: fifo_channel scheduled_queue sq_messages
  by unfold_locales (auto simp: scheduled_queue_def sq_recv_def sq_try_recv_def split: list.splits bool.splits)

section \<open>Properties of channels\<close>

text \<open>What comes after the end of the stream is not read.\<close>

lemma channel_replay_then:
  assumes "fifo_channel kc pending" "pending c = value_stream vs @ rest" "replayable vs"
    "gs_run_mode gs = HistoricalFrom t0" "\<forall>v \<in> set vs. gs_time gs \<le> va_time v" "2 * length vs + 1 \<le> n"
  shows "drive kc n gs (channel_receiver_stream_new c None b) = (emissions vs, Quiet)"
proof -
  have "fifo_channel.idle pending (channel_receiver_stream_new c None b) (value_stream vs @ rest)"
    using assms(2) by (simp add: fifo_channel.idle_def[OF assms(1)] channel_receiver_stream_new_def)
  from fifo_channel.drive_exact(2)[OF assms(1,4,5) this assms(3,6)] show ?thesis .
qed

text \<open>
  C14. Replay does not depend on thread scheduling: an untriggered historical receiver whose
  producer sends bursts with strictly increasing times and then the end of the stream emits
  exactly these bursts, each at its own time, and comes to rest, within two cycles per burst,
  whatever the times at which the messages arrive in the channel.
\<close>

theorem channel_replay_exact:
  assumes "fifo_channel kc pending" "pending c = value_stream vs" "replayable vs"
    "gs_run_mode gs = HistoricalFrom t0" "\<forall>v \<in> set vs. gs_time gs \<le> va_time v" "2 * length vs + 1 \<le> n"
  shows "drive kc n gs (channel_receiver_stream_new c None b) = (emissions vs, Quiet)"
  using channel_replay_then[OF assms(1) _ assms(3-6), of c "[]"] assms(2) by simp

definition two_bursts :: "nat list value_at list" where
  "two_bursts = [\<lparr>va_value = [1], va_time = NanoTime 5\<rparr>, \<lparr>va_value = [2, 3], va_time = NanoTime 6\<rparr>]"

definition historical_gs :: "nanotime \<Rightarrow> graph_state" where
  "historical_gs t = (graph_state_new 0 (HistoricalFrom t) Forever t)\<lparr>gs_time := t\<rparr>"

theorem channel_replay_exact_witness:
  "drive scheduled_queue 5 (historical_gs (NanoTime 2))
     (channel_receiver_stream_new \<lparr>sq_messages = value_stream two_bursts, sq_arrivals = [False]\<rparr> None False) =
   ([(NanoTime 5, [1]), (NanoTime 6, [2, 3])], Quiet)"
proof -
  have "replayable two_bursts" by (simp add: replayable_def two_bursts_def nano_max_def)
  from channel_replay_exact[OF sched.fifo_channel_axioms _ this,
      of "\<lparr>sq_messages = value_stream two_bursts, sq_arrivals = [False]\<rparr>" "historical_gs (NanoTime 2)" "NanoTime 2" 5 False]
  show ?thesis by (simp add: two_bursts_def emissions_def historical_gs_def graph_state_new_def)
qed

text \<open>
  Two messages with the same time are a race: if the second has arrived when the first is
  read, the two are emitted as one burst; if it arrives later, the first is emitted alone, the
  clock moves on, and the second aborts the run as a message from the past.
\<close>

lemma channel_same_time_race:
  fixes a b :: "'a list" and t :: nanotime
  assumes "gs_run_mode gs = HistoricalFrom t0" "gs_time gs = t" "t < nano_max" "a \<noteq> []"
  defines "msgs \<equiv> [HistoricalValue \<lparr>va_value = a, va_time = t\<rparr>, HistoricalValue \<lparr>va_value = b, va_time = t\<rparr>, EndOfStream]"
  shows "drive scheduled_queue (n + 2) gs (channel_receiver_stream_new \<lparr>sq_messages = msgs, sq_arrivals = []\<rparr> None h) =
      ([(t, a @ b)], Quiet) \<and>
    drive scheduled_queue (n + 2) gs (channel_receiver_stream_new \<lparr>sq_messages = msgs, sq_arrivals = [False]\<rparr> None h) =
      ([(t, a)], Aborted (Anyhow ''received Historical message but with time less than graph time''))"
proof -
  note unf = channel_receiver_cycle_def historical_loop_modes historical_read_mode_def channel_receiver_stream_new_def
    receiver_recv_def receiver_try_recv_def scheduled_queue_def sq_recv_def sq_try_recv_def historical_message_def
    next_wakeup_def deliver_def msgs_def
  have up: "t < nano_add_raw t 1" using nano_succ_greater[OF assms(3)] .
  then have mx: "max t (nano_add_raw t 1) = nano_add_raw t 1" by (simp add: max_absorb2 less_imp_le)
  have "drive scheduled_queue (Suc (Suc n)) gs (channel_receiver_stream_new \<lparr>sq_messages = msgs, sq_arrivals = []\<rparr> None h) =
      ([(t, a @ b)], Quiet)"
    using assms(1,2,4) by (simp add: unf)
  moreover have "drive scheduled_queue (Suc (Suc n)) gs (channel_receiver_stream_new \<lparr>sq_messages = msgs, sq_arrivals = [False]\<rparr> None h) =
      ([(t, a)], Aborted (Anyhow ''received Historical message but with time less than graph time''))"
    using assms(1,2,4) up by (simp add: unf mx)
  ultimately show ?thesis by simp
qed

lemma channel_same_time_race_witness:
  "snd (drive scheduled_queue 2 (historical_gs (NanoTime 4)) (channel_receiver_stream_new
     \<lparr>sq_messages = [HistoricalValue \<lparr>va_value = [1 :: nat], va_time = NanoTime 4\<rparr>,
        HistoricalValue \<lparr>va_value = [2], va_time = NanoTime 4\<rparr>, EndOfStream], sq_arrivals = []\<rparr> None False)) = Quiet"
proof -
  have "gs_run_mode (historical_gs (NanoTime 4)) = HistoricalFrom (NanoTime 4)" "gs_time (historical_gs (NanoTime 4)) = NanoTime 4"
      "NanoTime 4 < nano_max" "[1 :: nat] \<noteq> []"
    by (simp_all add: historical_gs_def graph_state_new_def nano_max_def)
  from channel_same_time_race[OF this, of 0 "[2]" False, THEN conjunct1] show ?thesis
    by (simp only: add_0 snd_conv)
qed

text \<open>The messages a run of non-blocking receives finds.\<close>

fun buffered :: "('a, 'c) kanal \<Rightarrow> 'c \<Rightarrow> 'a message list \<Rightarrow> bool" where
  "buffered kc c [] \<longleftrightarrow> (\<exists>c'. kn_try_recv kc c = (c', Inr None))"
| "buffered kc c (m # ms) \<longleftrightarrow> (\<exists>c'. kn_try_recv kc c = (c', Inr (Some m)) \<and> buffered kc c' ms)"

lemma realtime_loop_values:
  "\<not> cr_finished st \<Longrightarrow> buffered kc (cr_receiver st) (map RealtimeValue xs) \<Longrightarrow>
    \<exists>c'. realtime_loop kc st vals = Some (st\<lparr>cr_receiver := c'\<rparr>, Inr (vals @ xs))"
proof (induction xs arbitrary: st vals)
  case Nil
  then show ?case by (auto simp: realtime_loop.simps receiver_try_recv_def)
next
  case (Cons x xs)
  then obtain c' where c': "kn_try_recv kc (cr_receiver st) = (c', Inr (Some (RealtimeValue x)))"
    "buffered kc c' (map RealtimeValue xs)" by auto
  from Cons.IH[of "st\<lparr>cr_receiver := c'\<rparr>" "vals @ [x]"] Cons.prems(1) c' show ?case
    by (auto simp: realtime_loop.simps[of kc st] receiver_try_recv_def)
qed

text \<open>
  The error of a producer thread comes after its values: in the cycle that finds the thread
  gone, all values left in the channel are emitted in order and the node wakes itself, and its
  next cycle, whatever happened in between, reports the error.
\<close>

lemma receiver_error_after_values:
  assumes "gs_run_mode gs = RealTime" "rv_pending_err st = None" "rv_state st = JoinHandle" "rv_notifier st = Some ix"
    "\<not> cr_finished (rv_inner st)" "buffered kc (cr_receiver (rv_inner st)) (map RealtimeValue xs)" "xs \<noteq> []"
  shows "\<exists>st'. receiver_stream_cycle kc (Some (ThreadReturned (Inl e))) gs st = Some (st', [NotifyReady ix], Inr True) \<and>
    cr_value (rv_inner st') = xs \<and>
    (\<exists>st''. receiver_stream_cycle kc joined gs' st' = Some (st'', [], Inl e))"
proof -
  obtain c' where "realtime_loop kc (rv_inner st) [] = Some ((rv_inner st)\<lparr>cr_receiver := c'\<rparr>, Inr xs)"
    using realtime_loop_values[OF assms(5,6), of "[]"] by auto
  with assms show ?thesis
    by (simp add: receiver_stream_cycle_def channel_receiver_cycle_def deliver_def check_running_def)
qed

lemma receiver_error_after_values_witness:
  "\<exists>st'. receiver_stream_cycle scheduled_queue (Some (ThreadReturned (Inl (Anyhow ''boom''))))
      (graph_state_new 0 RealTime Forever nano_zero)
      ((receiver_stream_new \<lparr>sq_messages = [RealtimeValue (7 :: nat)], sq_arrivals = []\<rparr> True)
         \<lparr>rv_state := JoinHandle, rv_notifier := Some 3\<rparr>) = Some (st', [NotifyReady 3], Inr True) \<and>
    cr_value (rv_inner st') = [7]"
  using receiver_error_after_values[of "graph_state_new 0 RealTime Forever nano_zero"
      "(receiver_stream_new \<lparr>sq_messages = [RealtimeValue (7 :: nat)], sq_arrivals = []\<rparr> True)
         \<lparr>rv_state := JoinHandle, rv_notifier := Some 3\<rparr>" 3 scheduled_queue "[7]" "Anyhow ''boom''" None
      "graph_state_new 0 RealTime Forever nano_zero"]
  by (auto simp: graph_state_new_def receiver_stream_new_def channel_receiver_stream_new_def scheduled_queue_def sq_try_recv_def)

end
