(* ===== verification/Time_Slices.thy ===== *)
theory Time_Slices
  imports Nano_Time
begin

text \<open>
  The helpers the historical readers share, \<^verbatim>\<open>adapters/common.rs\<close>: the row filter
  \<^verbatim>\<open>WindowFilter\<close> and the splitting of a run window into query slices.

  The slicing computes in \<^verbatim>\<open>i64\<close>; here in \<open>int\<close> with the wrap-around written out by \<open>i64w\<close>
  (and \<open>u64w\<close> for the \<^verbatim>\<open>usize\<close> counter). The inner \<^verbatim>\<open>loop\<close> is a partial function into
  \<open>option\<close>: \<open>None\<close> when it does not return, and for the division by a zero period, which panics.

  The theorem \<open>time_slices_partition\<close> shows that inside the range of times up to the year 2262
  the slices are computed, that every instant of the run falls into the window of exactly one
  of them, and that no slice is longer than the period or straddles midnight.
\<close>

section \<open>The row filter\<close>

record time_window =
  tw_lo :: nanotime
  tw_hi :: nanotime

definition tw_clamp :: "nanotime \<Rightarrow> nanotime \<Rightarrow> nanotime \<Rightarrow> nanotime \<Rightarrow> time_window" where
  "tw_clamp t0 t1 start end = \<lparr>tw_lo = max t0 start, tw_hi = min t1 end\<rparr>"

definition tw_contains :: "time_window \<Rightarrow> nanotime \<Rightarrow> bool" where
  "tw_contains w time \<longleftrightarrow> tw_lo w \<le> time \<and> time < tw_hi w"

record window_filter =
  wf_label :: string
  wf_window :: time_window
  wf_dropped :: nat

definition window_filter_new :: "string \<Rightarrow> time_window \<Rightarrow> window_filter" where
  "window_filter_new label window = \<lparr>wf_label = label, wf_window = window, wf_dropped = 0\<rparr>"

definition window_filter_keep :: "nanotime \<Rightarrow> window_filter \<Rightarrow> window_filter \<times> bool" where
  "window_filter_keep time f =
     (if tw_contains (wf_window f) time then (f, True) else (f\<lparr>wf_dropped := wf_dropped f + 1\<rparr>, False))"

text \<open>The arguments of the warning, if one is logged.\<close>

definition window_filter_finish :: "window_filter \<Rightarrow> (string \<times> nat \<times> nanotime \<times> nanotime) option" where
  "window_filter_finish f =
     (if 0 < wf_dropped f then Some (wf_label f, wf_dropped f, tw_lo (wf_window f), tw_hi (wf_window f)) else None)"

section \<open>Slices\<close>

definition i64w :: "int \<Rightarrow> int" where
  "i64w x = (x + 2 ^ 63) mod 2 ^ 64 - 2 ^ 63"

definition u64w :: "int \<Rightarrow> int" where
  "u64w x = x mod 2 ^ 64"

text \<open>Rust's \<^verbatim>\<open>/\<close> truncates towards zero; \<^verbatim>\<open>div_euclid\<close> by a positive number is \<open>div\<close>.\<close>

definition trunc_div :: "int \<Rightarrow> int \<Rightarrow> int" where
  "trunc_div a b = sgn a * sgn b * (\<bar>a\<bar> div \<bar>b\<bar>)"

definition DAY_NANOS :: int where
  "DAY_NANOS = 86400000000000"

type_synonym slice = "(nanotime \<times> nanotime) \<times> i32 \<times> nat"

definition from_kdb_int :: "int \<Rightarrow> nanotime" where
  "from_kdb_int k = from_kdb_timestamp (word_of_int k)"

partial_function (option) slice_loop ::
    "bool \<Rightarrow> int \<Rightarrow> int \<Rightarrow> int \<Rightarrow> int \<Rightarrow> i32 \<Rightarrow> int \<Rightarrow> slice list option" where
  "slice_loop last_day midnight next_midnight end_kdb period kdb_date iteration =
     (let t0 = i64w (midnight + i64w (i64w iteration * period)) in
      if last_day \<and> end_kdb \<le> t0 then Some []
      else
        (let natural_t1 = i64w (t0 + period);
             t1 = min natural_t1 next_midnight;
             s = ((from_kdb_int t0, from_kdb_int t1), kdb_date, nat iteration)
         in if next_midnight \<le> natural_t1 then Some [s]
            else Option.bind
              (slice_loop last_day midnight next_midnight end_kdb period kdb_date (u64w (iteration + 1)))
              (\<lambda>rest. Some (s # rest))))"

declare slice_loop.simps [code]

definition day_slices :: "int \<Rightarrow> int \<Rightarrow> int \<Rightarrow> int \<Rightarrow> int \<Rightarrow> int \<Rightarrow> slice list option" where
  "day_slices start_day end_day start_kdb end_kdb period day =
     (let midnight = i64w (day * DAY_NANOS);
          next_midnight = i64w (midnight + DAY_NANOS)
      in if day = start_day \<and> period = 0 then None
         else slice_loop (day = end_day) midnight next_midnight end_kdb period (word_of_int day)
           (if day = start_day then u64w (trunc_div (i64w (start_kdb - midnight)) period) else 0))"

fun all_days :: "(int \<Rightarrow> slice list option) \<Rightarrow> int list \<Rightarrow> slice list option" where
  "all_days f [] = Some []"
| "all_days f (d # ds) = Option.bind (f d) (\<lambda>s. Option.bind (all_days f ds) (\<lambda>r. Some (s @ r)))"

definition compute_time_slices :: "nanotime \<Rightarrow> nanotime \<Rightarrow> duration \<Rightarrow> slice list option" where
  "compute_time_slices start_time end_time period =
     (let period_nanos = i64w (uint (duration_as_nanos period));
          start_kdb = sint (to_kdb_timestamp start_time);
          end_kdb = sint (to_kdb_timestamp end_time);
          start_day = start_kdb div DAY_NANOS;
          end_day = i64w (end_kdb - 1) div DAY_NANOS
      in all_days (day_slices start_day end_day start_kdb end_kdb period_nanos) [start_day..end_day])"

definition duration_is_zero :: "duration \<Rightarrow> bool" where
  "duration_is_zero d \<longleftrightarrow> dur_secs d = 0 \<and> dur_subsec_nanos d = 0"

definition compute_validated_time_slices ::
    "string \<Rightarrow> nanotime \<Rightarrow> anyhow + nanotime \<Rightarrow> duration \<Rightarrow> (anyhow + slice list) option" where
  "compute_validated_time_slices adapter start_time end_time period =
     (if duration_is_zero period then Some (Inl (Anyhow (adapter @ '': period must be greater than zero'')))
      else if start_time = nano_zero then Some (Inl (Anyhow (adapter @
        '': start_time is NanoTime::ZERO; use RunMode::HistoricalFrom with an explicit start time'')))
      else case end_time of
        Inr t \<Rightarrow>
          if t = nano_max then Some (Inl (Anyhow (adapter @
            '' requires RunFor::Duration; RunFor::Forever would generate an unbounded number of slices'')))
          else map_option Inr (compute_time_slices start_time t period)
      | Inl _ \<Rightarrow> Some (Inl (Anyhow (adapter @
            '' requires RunFor::Duration; RunFor::Cycles does not provide an end time''))))"

section \<open>The row filter keeps exactly the window\<close>

fun keep_all :: "nanotime list \<Rightarrow> window_filter \<Rightarrow> window_filter \<times> nanotime list" where
  "keep_all [] f = (f, [])"
| "keep_all (t # ts) f =
     (let (f1, k) = window_filter_keep t f; (f2, ks) = keep_all ts f1 in (f2, if k then t # ks else ks))"

lemma keep_all_spec:
  "keep_all ts f = (f\<lparr>wf_dropped := wf_dropped f + length (filter (\<lambda>t. \<not> tw_contains (wf_window f) t) ts)\<rparr>,
     filter (tw_contains (wf_window f)) ts)"
  by (induction ts arbitrary: f) (auto simp: window_filter_keep_def)

section \<open>Arithmetic without overflow\<close>

lemma i64w_id [simp]: "- (2 ^ 63) \<le> x \<Longrightarrow> x < 2 ^ 63 \<Longrightarrow> i64w x = x"
  by (simp add: i64w_def)

lemma u64w_id [simp]: "0 \<le> x \<Longrightarrow> x < 2 ^ 64 \<Longrightarrow> u64w x = x"
  by (simp add: u64w_def)

lemma trunc_div_nonneg: "0 \<le> a \<Longrightarrow> 0 < b \<Longrightarrow> trunc_div a b = a div b"
  by (cases "a = 0") (simp_all add: trunc_div_def)

text \<open>Times as integers on the KDB scale, up to the year 2262.\<close>

definition kdb :: "nanotime \<Rightarrow> int" where
  "kdb t = uint (raw t) - 946684800000000000"

lemma to_kdb_int:
  assumes "raw t < 2 ^ 63"
  shows "sint (to_kdb_timestamp t) = kdb t"
proof -
  have r: "uint (raw t) < 2 ^ 63" using assms by (simp add: word_less_def)
  then have "raw t \<noteq> - 1" by (auto simp: unsigned_minus_1_eq_mask mask_eq_exp_minus_1)
  then have "to_kdb_timestamp t = word_of_int (kdb t)"
    by (simp add: to_kdb_timestamp_def kdb_def kdb_epoch_offset_nanos_def)
  then show ?thesis using r uint_ge_0[of "raw t"]
    by (simp only: int_word_sint) (simp add: kdb_def)
qed

lemma kdb_from_kdb_int:
  assumes "- 946684800000000000 \<le> k" "k < 2 ^ 63"
  shows "kdb (from_kdb_int k) = k"
proof -
  have "from_kdb_int k = NanoTime (word_of_int (k + 946684800000000000))"
    by (simp add: from_kdb_int_def from_kdb_timestamp_def kdb_epoch_offset_nanos_def)
  then have "kdb (from_kdb_int k) = (k + 946684800000000000) mod 2 ^ 64 - 946684800000000000"
    by (simp only: kdb_def nanotime.sel uint_word_of_int) simp
  then show ?thesis using assms by simp
qed

lemma nanotime_le_kdb: "s \<le> t \<longleftrightarrow> kdb s \<le> kdb t" "s < t \<longleftrightarrow> kdb s < kdb t"
  by (cases s; cases t; simp add: kdb_def word_le_def word_less_def)+

section \<open>Chains of slices\<close>

definition slice_lo :: "slice \<Rightarrow> int" where "slice_lo s = kdb (fst (fst s))"
definition slice_hi :: "slice \<Rightarrow> int" where "slice_hi s = kdb (snd (fst s))"

text \<open>The slices lead from \<open>a\<close> to \<open>b\<close> without a gap.\<close>

fun chain :: "int \<Rightarrow> slice list \<Rightarrow> int \<Rightarrow> bool" where
  "chain a [] b \<longleftrightarrow> a = b"
| "chain a (s # ss) b \<longleftrightarrow> slice_lo s = a \<and> slice_lo s < slice_hi s \<and> chain (slice_hi s) ss b"

lemma chain_le: "chain a ss b \<Longrightarrow> a \<le> b"
  by (induction ss arbitrary: a) force+

lemma chain_append: "chain a ss b \<Longrightarrow> chain b ts c \<Longrightarrow> chain a (ss @ ts) c"
  by (induction ss arbitrary: a) auto

lemma chain_bounds: "chain a ss b \<Longrightarrow> i < length ss \<Longrightarrow> a \<le> slice_lo (ss ! i) \<and> slice_hi (ss ! i) \<le> b"
proof (induction ss arbitrary: a i)
  case (Cons s ss)
  then show ?case using chain_le[of "slice_hi s" ss b]
    by (cases i) force+
qed simp

lemma chain_covers:
  assumes "chain a ss b" "a \<le> t" "t < b"
  shows "\<exists>!i. i < length ss \<and> slice_lo (ss ! i) \<le> t \<and> t < slice_hi (ss ! i)"
  using assms
proof (induction ss arbitrary: a)
  case (Cons s ss)
  let ?P = "\<lambda>ss i. i < length ss \<and> slice_lo (ss ! i) \<le> t \<and> t < slice_hi (ss ! i)"
  have tail: "chain (slice_hi s) ss b" and lo: "slice_lo s = a" using Cons.prems(1) by auto
  show ?case
  proof (cases "t < slice_hi s")
    case True
    have "\<not> ?P ss i" for i using chain_bounds[OF tail] True by force
    then have "?P (s # ss) i \<longleftrightarrow> i = 0" for i
      using True lo Cons.prems(2) by (cases i) auto
    then show ?thesis by simp
  next
    case False
    then obtain i where i: "?P ss i" "\<And>j. ?P ss j \<Longrightarrow> j = i"
      using Cons.IH[OF tail _ Cons.prems(3)] by (auto simp: not_less)
    have "?P (s # ss) (Suc i)" using i(1) by simp
    moreover have "j = Suc i" if "?P (s # ss) j" for j
      using that False i(2) by (cases j) auto
    ultimately show ?thesis by blast
  qed
qed simp

section \<open>The loops\<close>

definition slice_ok :: "int \<Rightarrow> slice \<Rightarrow> bool" where
  "slice_ok p s \<longleftrightarrow> slice_hi s - slice_lo s \<le> p \<and>
     slice_hi s \<le> (slice_lo s div DAY_NANOS + 1) * DAY_NANOS \<and>
     fst (snd s) = word_of_int (slice_lo s div DAY_NANOS) \<and>
     slice_lo s = (slice_lo s div DAY_NANOS) * DAY_NANOS + int (snd (snd s)) * p"

lemma day_no_overflow:
  assumes "0 \<le> q" "q < DAY_NANOS" "0 < p" "- 946684800000000000 \<le> m" "m + DAY_NANOS + p < 2 ^ 63"
  shows "i64w q = q" "i64w (m + q) = m + q" "i64w (m + q + p) = m + q + p"
  using assms by (simp_all add: DAY_NANOS_def)

lemma slice_loop_chain:
  assumes p: "0 < p" and mid: "- 946684800000000000 \<le> d * DAY_NANOS" "d * DAY_NANOS + DAY_NANOS + p < 2 ^ 63"
    and last: "last_day \<Longrightarrow> e \<le> d * DAY_NANOS + DAY_NANOS"
  shows "0 \<le> it \<Longrightarrow> it * p < DAY_NANOS \<Longrightarrow>
    \<exists>ss b. slice_loop last_day (d * DAY_NANOS) (d * DAY_NANOS + DAY_NANOS) e p (word_of_int d) it = Some ss \<and>
      chain (d * DAY_NANOS + it * p) ss b \<and> (if last_day then e \<le> b else b = d * DAY_NANOS + DAY_NANOS) \<and>
      (\<forall>s \<in> set ss. slice_ok p s)"
proof (induction "nat (DAY_NANOS - it * p)" arbitrary: it rule: less_induct)
  case less
  let ?mid = "d * DAY_NANOS" and ?t0 = "d * DAY_NANOS + it * p"
  have "it \<le> it * p" using p less.prems(1) by (simp add: mult_le_cancel_left1)
  then have it: "it < DAY_NANOS" "0 \<le> it * p" using less.prems p by simp_all
  have w: "i64w it = it" "i64w (it * p) = it * p" "i64w ?t0 = ?t0" "i64w (?t0 + p) = ?t0 + p" "u64w (it + 1) = it + 1"
    using day_no_overflow[OF it(2) less.prems(2) p mid] it(1) less.prems(1) by (simp_all add: DAY_NANOS_def)
  define t1 where "t1 = min (?t0 + p) (?mid + DAY_NANOS)"
  define s :: slice where "s = ((from_kdb_int ?t0, from_kdb_int t1), word_of_int d, nat it)"
  have lo: "slice_lo s = ?t0" using it mid less.prems(2) p
    by (simp add: slice_lo_def s_def kdb_from_kdb_int)
  have hi: "slice_hi s = t1" using it mid less.prems(2) p
    by (simp add: slice_hi_def s_def kdb_from_kdb_int t1_def DAY_NANOS_def)
  have "?t0 div DAY_NANOS = d" using it less.prems(2) by (simp add: DAY_NANOS_def)
  then have ok: "slice_ok p s" using lo hi less.prems(1)
    by (simp add: slice_ok_def t1_def s_def algebra_simps)
  have lt: "?t0 < t1" using p less.prems(2) by (simp add: t1_def)
  have step: "slice_loop last_day ?mid (?mid + DAY_NANOS) e p (word_of_int d) it =
      (if last_day \<and> e \<le> ?t0 then Some [] else if ?mid + DAY_NANOS \<le> ?t0 + p then Some [s]
       else Option.bind (slice_loop last_day ?mid (?mid + DAY_NANOS) e p (word_of_int d) (it + 1)) (\<lambda>rest. Some (s # rest)))"
    by (subst slice_loop.simps) (simp only: w Let_def t1_def[symmetric] s_def[symmetric])
  consider (past) "last_day \<and> e \<le> ?t0" | (final) "\<not> (last_day \<and> e \<le> ?t0)" "?mid + DAY_NANOS \<le> ?t0 + p"
    | (more) "\<not> (last_day \<and> e \<le> ?t0)" "?t0 + p < ?mid + DAY_NANOS" by linarith
  then show ?case
  proof cases
    case past
    then show ?thesis using step by (intro exI[of _ "[]"] exI[of _ "?t0"]) simp
  next
    case final
    then have "t1 = ?mid + DAY_NANOS" by (simp add: t1_def)
    with final step lo hi lt ok last show ?thesis by (intro exI[of _ "[s]"] exI[of _ t1]) simp
  next
    case more
    then have t1: "t1 = d * DAY_NANOS + (it + 1) * p" by (simp add: t1_def algebra_simps)
    have "nat (DAY_NANOS - (it + 1) * p) < nat (DAY_NANOS - it * p)" "(it + 1) * p < DAY_NANOS"
      using more p less.prems(2) by (simp_all add: algebra_simps)
    from less.hyps[OF this(1)] less.prems(1) this(2)
    obtain ss b where rec: "slice_loop last_day ?mid (?mid + DAY_NANOS) e p (word_of_int d) (it + 1) = Some ss"
      "chain (d * DAY_NANOS + (it + 1) * p) ss b" "if last_day then e \<le> b else b = ?mid + DAY_NANOS"
      "\<forall>s \<in> set ss. slice_ok p s" by auto
    have "slice_loop last_day ?mid (?mid + DAY_NANOS) e p (word_of_int d) it = Some (s # ss)"
      using step more rec(1) by auto
    moreover have "chain ?t0 (s # ss) b" using lo hi lt t1 rec(2) by simp
    ultimately show ?thesis using rec(3,4) ok by (intro exI[of _ "s # ss"] exI[of _ b]) auto
  qed
qed

text \<open>Where slicing begins on a day.\<close>

definition day_begin :: "int \<Rightarrow> int \<Rightarrow> int \<Rightarrow> int \<Rightarrow> int" where
  "day_begin start_day start_kdb p day = day * DAY_NANOS +
     (if day = start_day then (start_kdb - day * DAY_NANOS) div p * p else 0)"

lemma day_slices_chain:
  assumes p: "0 < p" and d: "- 946684800000000000 \<le> d * DAY_NANOS" "d * DAY_NANOS + DAY_NANOS + p < 2 ^ 63"
    and sd: "sd = st div DAY_NANOS" and e: "d = ed \<Longrightarrow> e \<le> d * DAY_NANOS + DAY_NANOS"
  shows "\<exists>ss b. day_slices sd ed st e p d = Some ss \<and> chain (day_begin sd st p d) ss b \<and>
    (if d = ed then e \<le> b else b = d * DAY_NANOS + DAY_NANOS) \<and> (\<forall>s \<in> set ss. slice_ok p s)"
proof -
  define it where "it = (if d = sd then (st - d * DAY_NANOS) div p else 0)"
  have w: "i64w (d * DAY_NANOS) = d * DAY_NANOS" "i64w (d * DAY_NANOS + DAY_NANOS) = d * DAY_NANOS + DAY_NANOS"
    using d p by (simp_all add: DAY_NANOS_def)
  have off: "st - d * DAY_NANOS = st mod DAY_NANOS" if "d = sd"
    using that sd by (simp add: minus_div_mult_eq_mod)
  have r: "0 \<le> st mod DAY_NANOS" "st mod DAY_NANOS < DAY_NANOS" by (simp_all add: DAY_NANOS_def)
  have "st mod DAY_NANOS div p * p \<le> st mod DAY_NANOS"
    using minus_mod_eq_div_mult[of "st mod DAY_NANOS" p] pos_mod_sign[OF p, of "st mod DAY_NANOS"] by linarith
  then have q: "0 \<le> st mod DAY_NANOS div p" "st mod DAY_NANOS div p * p \<le> st mod DAY_NANOS"
      "st mod DAY_NANOS div p \<le> st mod DAY_NANOS"
    using p r zdiv_mono2[of "st mod DAY_NANOS" 1 p] by (simp_all add: pos_imp_zdiv_nonneg_iff)
  have it: "0 \<le> it" "it * p < DAY_NANOS"
    using off q r by (auto simp: it_def DAY_NANOS_def)
  have "u64w (trunc_div (i64w (st - d * DAY_NANOS)) p) = it" if "d = sd"
    using that off[OF that] q r p by (simp add: trunc_div_nonneg it_def DAY_NANOS_def)
  then have "day_slices sd ed st e p d =
      slice_loop (d = ed) (d * DAY_NANOS) (d * DAY_NANOS + DAY_NANOS) e p (word_of_int d) it"
    using p by (auto simp: day_slices_def Let_def w it_def)
  with slice_loop_chain[OF p d, of "d = ed" e it] e it show ?thesis
    by (simp add: day_begin_def it_def if_distrib[of "\<lambda>x. x * p"] cong: if_cong)
qed

lemma all_days_chain:
  assumes p: "0 < p" and sd: "sd = st div DAY_NANOS" "- 946684800000000000 \<le> sd * DAY_NANOS"
    and ed: "e \<le> ed * DAY_NANOS + DAY_NANOS" "ed * DAY_NANOS + DAY_NANOS + p < 2 ^ 63"
  shows "sd \<le> d \<Longrightarrow> d \<le> ed \<Longrightarrow> \<exists>ss b. all_days (day_slices sd ed st e p) [d..ed] = Some ss \<and>
    chain (day_begin sd st p d) ss b \<and> e \<le> b \<and> (\<forall>s \<in> set ss. slice_ok p s)"
proof (induction "nat (ed - d)" arbitrary: d)
  case 0
  then have "d = ed" by simp
  with day_slices_chain[OF p, of ed sd st ed e] 0 sd ed show ?case
    by (auto simp: DAY_NANOS_def upto_rec1)
next
  case (Suc n)
  then have d: "d < ed" "n = nat (ed - (d + 1))" by auto
  have "- 946684800000000000 \<le> d * DAY_NANOS" "d * DAY_NANOS + DAY_NANOS + p < 2 ^ 63"
    using Suc.prems sd ed d(1) by (simp_all add: DAY_NANOS_def)
  from day_slices_chain[OF p this sd(1), of ed e] d(1)
  obtain ss where ss: "day_slices sd ed st e p d = Some ss" "chain (day_begin sd st p d) ss (d * DAY_NANOS + DAY_NANOS)"
    "\<forall>s \<in> set ss. slice_ok p s" by auto
  from Suc.hyps(1)[OF d(2)] Suc.prems d(1)
  obtain ts b where ts: "all_days (day_slices sd ed st e p) [d + 1..ed] = Some ts"
    "chain (day_begin sd st p (d + 1)) ts b" "e \<le> b" "\<forall>s \<in> set ts. slice_ok p s" by auto
  have "day_begin sd st p (d + 1) = d * DAY_NANOS + DAY_NANOS"
    using Suc.prems(1) by (simp add: day_begin_def algebra_simps)
  then have "chain (day_begin sd st p d) (ss @ ts) b" using chain_append[OF ss(2)] ts(2) by simp
  moreover have "[d..ed] = d # [d + 1..ed]" using d(1) by (simp add: upto_rec1)
  ultimately show ?case using ss(1,3) ts(1,3,4)
    by (intro exI[of _ "ss @ ts"] exI[of _ b]) auto
qed

section \<open>Properties of the slicing\<close>

lemma period_nanos:
  assumes "uint (duration_as_nanos p) \<le> 900000000000000000"
  shows "i64w (uint (duration_as_nanos p)) = uint (duration_as_nanos p)"
proof (rule i64w_id)
  show "- (2 ^ 63) \<le> uint (duration_as_nanos p)" by (rule order_trans[OF _ uint_ge_0]) simp
  show "uint (duration_as_nanos p) < 2 ^ 63" using assms by simp
qed

lemma compute_time_slices_chain:
  assumes start: "start < end" and e: "raw end < 2 ^ 63"
    and p: "0 < uint (duration_as_nanos period)" "uint (duration_as_nanos period) \<le> 900000000000000000"
  shows "\<exists>ss a b. compute_time_slices start end period = Some ss \<and> chain a ss b \<and> a \<le> kdb start \<and> kdb end \<le> b \<and>
    (\<forall>s \<in> set ss. slice_ok (uint (duration_as_nanos period)) s)"
proof -
  let ?p = "uint (duration_as_nanos period)" and ?s = "kdb start" and ?e = "kdb end"
  define sd where "sd = ?s div DAY_NANOS"
  define ed where "ed = (?e - 1) div DAY_NANOS"
  have s63: "raw start < 2 ^ 63" using start e by (cases start; cases "end") simp
  have se: "?s < ?e" using start nanotime_le_kdb(2) by blast
  have rng: "- 946684800000000000 \<le> ?s" "?e < 2 ^ 63 - 946684800000000000"
    using e by (simp_all add: kdb_def word_less_def)
  have w: "i64w (?e - 1) = ?e - 1" using rng se by (intro i64w_id) simp_all
  have sd: "- 946684800000000000 \<le> sd * DAY_NANOS" using rng by (simp add: sd_def DAY_NANOS_def)
  have ed: "?e \<le> ed * DAY_NANOS + DAY_NANOS" "ed * DAY_NANOS + DAY_NANOS + ?p < 2 ^ 63" "sd \<le> ed"
    using rng p(2) se by (simp_all add: ed_def sd_def DAY_NANOS_def)
  have "day_begin sd ?s ?p sd \<le> ?s"
    using minus_mod_eq_div_mult[of "?s - sd * DAY_NANOS" ?p] pos_mod_sign[OF p(1), of "?s - sd * DAY_NANOS"]
    by (simp add: day_begin_def)
  with all_days_chain[OF p(1) sd_def sd ed(1,2) order_refl ed(3)] show ?thesis
    unfolding compute_time_slices_def Let_def to_kdb_int[OF s63] to_kdb_int[OF e] period_nanos[OF p(2)] w
      sd_def[symmetric] ed_def[symmetric] by blast
qed

definition slice_window :: "nanotime \<Rightarrow> nanotime \<Rightarrow> slice \<Rightarrow> time_window" where
  "slice_window start end s = tw_clamp (fst (fst s)) (snd (fst s)) start end"

lemma slice_window_contains:
  "tw_contains (slice_window start end s) t \<longleftrightarrow> start \<le> t \<and> t < end \<and> slice_lo s \<le> kdb t \<and> kdb t < slice_hi s"
  by (auto simp: slice_window_def tw_contains_def tw_clamp_def slice_lo_def slice_hi_def simp flip: nanotime_le_kdb)

text \<open>
  C28. Times up to the year 2262 and a period of at most \<open>9 \<cdot> 10\<^sup>17\<close> nanoseconds (28 years): the
  validated slicing returns slices such that every instant of the run window \<open>[start, end)\<close> is in
  the clamped window of exactly one slice, and instants outside it are in none, so that the
  readers neither lose nor repeat a row; no slice is longer than the period, none straddles
  midnight, and the date and iteration of each slice are those of its start.
\<close>

theorem time_slices_partition:
  assumes start: "start \<noteq> nano_zero" "start < end" and e: "raw end < 2 ^ 63"
    and p: "0 < uint (duration_as_nanos period)" "uint (duration_as_nanos period) \<le> 900000000000000000"
  shows "\<exists>ss. compute_validated_time_slices adapter start (Inr end) period = Some (Inr ss) \<and>
    (\<forall>t. (start \<le> t \<and> t < end \<longrightarrow> (\<exists>!i. i < length ss \<and> tw_contains (slice_window start end (ss ! i)) t)) \<and>
      (\<not> (start \<le> t \<and> t < end) \<longrightarrow> (\<forall>s \<in> set ss. \<not> tw_contains (slice_window start end s) t))) \<and>
    (\<forall>s \<in> set ss. slice_ok (uint (duration_as_nanos period)) s)"
proof -
  obtain ss a b where ss: "compute_time_slices start end period = Some ss" "chain a ss b" "a \<le> kdb start" "kdb end \<le> b"
      "\<forall>s \<in> set ss. slice_ok (uint (duration_as_nanos period)) s"
    using compute_time_slices_chain[OF start(2) e p] by blast
  have "\<not> duration_is_zero period" using p(1) by (auto simp: duration_is_zero_def duration_as_nanos_def)
  moreover have "end \<noteq> nano_max" using e by (auto simp: nano_max_def)
  ultimately have "compute_validated_time_slices adapter start (Inr end) period = Some (Inr ss)"
    using start(1) ss(1) by (simp add: compute_validated_time_slices_def)
  moreover have "\<exists>!i. i < length ss \<and> tw_contains (slice_window start end (ss ! i)) t" if t: "start \<le> t" "t < end" for t
  proof -
    have "a \<le> kdb t" "kdb t < b" using t ss(3,4) unfolding nanotime_le_kdb by linarith+
    from chain_covers[OF ss(2) this] show ?thesis using t by (simp add: slice_window_contains)
  qed
  ultimately show ?thesis using ss(5) by (intro exI[of _ ss]) (auto simp: slice_window_contains)
qed

theorem time_slices_partition_witness:
  "\<exists>ss. compute_validated_time_slices ''kdb_read'' (NanoTime 946684800000000005) (Inr (NanoTime 946771200000000001))
      \<lparr>dur_secs = 3600, dur_subsec_nanos = 0\<rparr> = Some (Inr ss) \<and>
    (\<exists>!i. i < length ss \<and> tw_contains (slice_window (NanoTime 946684800000000005) (NanoTime 946771200000000001) (ss ! i))
      (NanoTime 946771200000000000))"
proof -
  let ?p = "\<lparr>dur_secs = 3600, dur_subsec_nanos = 0\<rparr>"
  have "duration_as_nanos ?p = 3600000000000" by (simp add: duration_as_nanos_def)
  then have p: "0 < uint (duration_as_nanos ?p)" "uint (duration_as_nanos ?p) \<le> 900000000000000000" by simp_all
  show ?thesis
    using time_slices_partition[of "NanoTime 946684800000000005" "NanoTime 946771200000000001" ?p "''kdb_read''", OF _ _ _ p]
    by (auto simp: nano_zero_def)
qed

text \<open>What the validation refuses.\<close>

lemma validated_slices_errors:
  "duration_is_zero period \<or> start = nano_zero \<or> end_time = Inr nano_max \<or> (\<exists>e. end_time = Inl e) \<Longrightarrow>
    \<exists>e. compute_validated_time_slices adapter start end_time period = Some (Inl e)"
  by (auto simp: compute_validated_time_slices_def split: sum.splits)

text \<open>
  A period of \<open>2 ^ 64\<close> nanoseconds passes the validation, but its cast to \<^verbatim>\<open>i64\<close> is zero and the
  division panics.
\<close>

lemma slices_huge_period_panics:
  "compute_validated_time_slices adapter (NanoTime 946684800000000005) (Inr (NanoTime 946684800000000009))
     \<lparr>dur_secs = 18446744073, dur_subsec_nanos = 709551616\<rparr> = None"
  by (simp add: compute_validated_time_slices_def duration_is_zero_def nano_zero_def nano_max_def
    compute_time_slices_def duration_as_nanos_def i64w_def to_kdb_timestamp_def kdb_epoch_offset_nanos_def
    DAY_NANOS_def upto_rec1 day_slices_def)

end
