(* ===== verification/Rust_Strings.thy ===== *)
theory Rust_Strings
  imports Prelude
begin

text \<open>
  What the adapters use of \<^verbatim>\<open>str\<close>, \<^verbatim>\<open>String\<close> and byte slices. A Rust string is the list of its
  bytes, which is well-formed UTF-8; byte slices are arbitrary byte lists and
  \<^verbatim>\<open>str::from_utf8\<close> is the check. Decimal printing (\<^verbatim>\<open>to_string\<close>, \<^verbatim>\<open>{:03}\<close>) and parsing
  (\<^verbatim>\<open>str::parse\<close> at an unsigned type) are inverse to each other (\<open>parse_unsigned_decimal\<close>).
\<close>

type_synonym bytes = "u8 list"

definition ascii :: "string \<Rightarrow> bytes" where
  "ascii s = map (\<lambda>c. of_nat (of_char c)) s"

section \<open>Searching\<close>

text \<open>\<^verbatim>\<open>iter().position(p)\<close>\<close>

primrec position :: "('a \<Rightarrow> bool) \<Rightarrow> 'a list \<Rightarrow> nat option" where
  "position p [] = None"
| "position p (x # xs) = (if p x then Some 0 else map_option Suc (position p xs))"

text \<open>\<^verbatim>\<open>windows(pattern.len()).position(|w| w == pattern)\<close>\<close>

fun find_pattern :: "'a list \<Rightarrow> 'a list \<Rightarrow> nat option" where
  "find_pattern pat xs =
     (if length xs < length pat then None
      else if take (length pat) xs = pat then Some 0
      else (case xs of [] \<Rightarrow> None | _ # ys \<Rightarrow> map_option Suc (find_pattern pat ys)))"

declare find_pattern.simps [simp del]

lemma position_None: "position p xs = None \<longleftrightarrow> (\<forall>x \<in> set xs. \<not> p x)"
  by (induction xs) auto

lemma position_Some: "position p xs = Some k \<Longrightarrow> k < length xs \<and> p (xs ! k) \<and> (\<forall>i < k. \<not> p (xs ! i))"
  by (induction xs arbitrary: k) (auto simp: less_Suc_eq_0_disj split: if_splits)

lemma position_append:
  "position p (xs @ ys) = (case position p xs of Some k \<Rightarrow> Some k
     | None \<Rightarrow> map_option (\<lambda>k. length xs + k) (position p ys))"
proof (induction xs)
  case Nil
  show ?case by (cases "position p ys") simp_all
next
  case (Cons x xs)
  then show ?case by (cases "position p xs"; cases "position p ys") auto
qed

lemma position_first: "\<forall>x \<in> set xs. \<not> p x \<Longrightarrow> p y \<Longrightarrow> position p (xs @ y # ys) = Some (length xs)"
  by (induction xs) auto

lemma find_pattern_Some:
  "find_pattern pat xs = Some k \<Longrightarrow> k + length pat \<le> length xs \<and> take (length pat) (drop k xs) = pat"
proof (induction pat xs arbitrary: k rule: find_pattern.induct)
  case (1 pat xs)
  show ?case
  proof (cases "length xs < length pat \<or> take (length pat) xs = pat")
    case True
    with 1(2) show ?thesis by (auto simp: find_pattern.simps[of pat xs] split: if_splits)
  next
    case False
    then obtain y ys k' where "xs = y # ys" "find_pattern pat ys = Some k'" "k = Suc k'"
      using 1(2) by (auto simp: find_pattern.simps[of pat xs] split: list.splits)
    with False 1(1)[of y ys k'] show ?thesis by auto
  qed
qed

lemma find_pattern_append:
  "find_pattern pat xs = Some k \<Longrightarrow> find_pattern pat (xs @ ys) = Some k"
proof (induction pat xs arbitrary: k rule: find_pattern.induct)
  case (1 pat xs)
  have len: "length pat \<le> length xs" using find_pattern_Some[OF 1(2)] by simp
  show ?case
  proof (cases "take (length pat) xs = pat")
    case True
    with 1(2) len show ?thesis by (simp add: find_pattern.simps[of pat xs] find_pattern.simps[of pat "xs @ ys"])
  next
    case False
    then obtain z zs k' where "xs = z # zs" "find_pattern pat zs = Some k'" "k = Suc k'"
      using 1(2) len by (auto simp: find_pattern.simps[of pat xs] split: list.splits)
    with False len 1(1)[of z zs k'] show ?thesis
      by (subst find_pattern.simps) (auto simp: take_Cons' split: list.splits)
  qed
qed

text \<open>No occurrence can start inside a stretch without the first symbol of the pattern.\<close>

lemma find_pattern_skip:
  assumes "a \<notin> set ws"
  shows "find_pattern (a # pat) (ws @ a # ys) =
    (if length pat \<le> length ys \<and> take (length pat) ys = pat then Some (length ws)
     else map_option (\<lambda>k. length ws + Suc k) (find_pattern (a # pat) ys))"
  using assms
proof (induction ws)
  case Nil
  have "find_pattern (a # pat) ys = None" if "length ys < length pat"
    using that find_pattern_Some[of "a # pat" ys] by (cases "find_pattern (a # pat) ys") auto
  then show ?case by (auto simp: find_pattern.simps[of _ "a # ys"])
next
  case (Cons w ws)
  have "find_pattern (a # pat) (w # ws @ a # ys) = (if length ws + length ys + 2 < Suc (length pat) then None
      else map_option Suc (find_pattern (a # pat) (ws @ a # ys)))"
    using Cons.prems by (subst find_pattern.simps) auto
  moreover have "find_pattern (a # pat) ys = None" if "length ys < Suc (length pat)"
    using that find_pattern_Some[of "a # pat" ys] by (cases "find_pattern (a # pat) ys") auto
  ultimately show ?case using Cons by (auto simp: option.map_comp comp_def)
qed

section \<open>Splitting and joining\<close>

text \<open>\<^verbatim>\<open>split_once\<close> and \<^verbatim>\<open>split\<close> at an (ASCII) byte.\<close>

definition split_once :: "u8 \<Rightarrow> bytes \<Rightarrow> (bytes \<times> bytes) option" where
  "split_once c s = map_option (\<lambda>k. (take k s, drop (Suc k) s)) (position (\<lambda>b. b = c) s)"

fun split_on :: "u8 \<Rightarrow> bytes \<Rightarrow> bytes list" where
  "split_on c [] = [[]]"
| "split_on c (x # xs) = (if x = c then [] # split_on c xs else (case split_on c xs of y # ys \<Rightarrow> (x # y) # ys | [] \<Rightarrow> [[x]]))"

text \<open>\<^verbatim>\<open>str::replace\<close> of one (ASCII) byte.\<close>

definition replace_byte :: "u8 \<Rightarrow> bytes \<Rightarrow> bytes \<Rightarrow> bytes" where
  "replace_byte c to s = concat (map (\<lambda>b. if b = c then to else [b]) s)"

text \<open>\<^verbatim>\<open>join\<close>\<close>

fun join :: "bytes \<Rightarrow> bytes list \<Rightarrow> bytes" where
  "join sep [] = []"
| "join sep [x] = x"
| "join sep (x # y # xs) = x @ sep @ join sep (y # xs)"

lemma split_once_iff: "split_once c s = Some (a, b) \<longleftrightarrow> s = a @ c # b \<and> c \<notin> set a"
proof
  assume "split_once c s = Some (a, b)"
  then obtain k where k: "position (\<lambda>x. x = c) s = Some k" "a = take k s" "b = drop (Suc k) s"
    by (auto simp: split_once_def)
  from position_Some[OF k(1)] have "k < length s" "s ! k = c" "\<forall>i < k. s ! i \<noteq> c" by auto
  with k(2,3) show "s = a @ c # b \<and> c \<notin> set a"
    by (auto simp: id_take_nth_drop[symmetric] in_set_conv_nth)
next
  assume "s = a @ c # b \<and> c \<notin> set a"
  then have "position (\<lambda>x. x = c) s = Some (length a)" by (auto intro: position_first)
  with \<open>s = a @ c # b \<and> c \<notin> set a\<close> show "split_once c s = Some (a, b)" by (simp add: split_once_def)
qed

lemma split_once_None: "split_once c s = None \<longleftrightarrow> c \<notin> set s"
  by (auto simp: split_once_def position_None)

lemma split_on_last: "c \<notin> set a \<Longrightarrow> split_on c a = [a]"
  by (induction a) auto

lemma split_on_append: "c \<notin> set a \<Longrightarrow> split_on c (a @ c # b) = a # split_on c b"
  by (induction a) auto

section \<open>Case and substrings\<close>

definition to_ascii_lowercase :: "u8 \<Rightarrow> u8" where
  "to_ascii_lowercase b = (if 65 \<le> b \<and> b \<le> 90 then b + 32 else b)"

text \<open>\<^verbatim>\<open>str::contains\<close>\<close>

definition str_contains :: "bytes \<Rightarrow> bytes \<Rightarrow> bool" where
  "str_contains pat s \<longleftrightarrow> find_pattern pat s \<noteq> None"

section \<open>UTF-8\<close>

definition utf8_cont :: "u8 \<Rightarrow> bool" where
  "utf8_cont b \<longleftrightarrow> 0x80 \<le> b \<and> b \<le> 0xBF"

text \<open>The well-formed byte sequences that \<^verbatim>\<open>str::from_utf8\<close> accepts.\<close>

fun utf8_valid :: "bytes \<Rightarrow> bool" where
  "utf8_valid [] \<longleftrightarrow> True"
| "utf8_valid (b # bs) \<longleftrightarrow>
     (if b < 0x80 then utf8_valid bs
      else if 0xC2 \<le> b \<and> b \<le> 0xDF then
        (case bs of c # cs \<Rightarrow> utf8_cont c \<and> utf8_valid cs | _ \<Rightarrow> False)
      else if 0xE0 \<le> b \<and> b \<le> 0xEF then
        (case bs of c # d # cs \<Rightarrow> utf8_cont c \<and> (b = 0xE0 \<longrightarrow> 0xA0 \<le> c) \<and> (b = 0xED \<longrightarrow> c \<le> 0x9F) \<and>
           utf8_cont d \<and> utf8_valid cs | _ \<Rightarrow> False)
      else if 0xF0 \<le> b \<and> b \<le> 0xF4 then
        (case bs of c # d # e # cs \<Rightarrow> utf8_cont c \<and> (b = 0xF0 \<longrightarrow> 0x90 \<le> c) \<and> (b = 0xF4 \<longrightarrow> c \<le> 0x8F) \<and>
           utf8_cont d \<and> utf8_cont e \<and> utf8_valid cs | _ \<Rightarrow> False)
      else False)"

definition from_utf8 :: "bytes \<Rightarrow> bytes option" where
  "from_utf8 bs = (if utf8_valid bs then Some bs else None)"

lemma utf8_valid_ascii: "\<forall>b \<in> set bs. b < 0x80 \<Longrightarrow> utf8_valid bs"
  by (induction bs) auto

section \<open>Decimal numbers\<close>

definition digit :: "nat \<Rightarrow> u8" where
  "digit d = 48 + of_nat d"

fun decimal :: "nat \<Rightarrow> bytes" where
  "decimal n = (if n < 10 then [digit n] else decimal (n div 10) @ [digit (n mod 10)])"

declare decimal.simps [simp del]

text \<open>\<^verbatim>\<open>format!("{n:03}")\<close>\<close>

definition decimal_padded :: "nat \<Rightarrow> nat \<Rightarrow> bytes" where
  "decimal_padded width n = replicate (width - length (decimal n)) (digit 0) @ decimal n"

definition is_digit :: "u8 \<Rightarrow> bool" where
  "is_digit b \<longleftrightarrow> 48 \<le> b \<and> b \<le> 57"

definition digit_value :: "u8 \<Rightarrow> nat" where
  "digit_value b = unat b - 48"

definition digits_value :: "bytes \<Rightarrow> nat" where
  "digits_value ds = foldl (\<lambda>n b. n * 10 + digit_value b) 0 ds"

text \<open>
  \<^verbatim>\<open>str::parse\<close> at an unsigned type of \<open>w\<close> bits: an optional \<^verbatim>\<open>+\<close>, at least one digit, and no
  overflow.
\<close>

definition parse_unsigned :: "nat \<Rightarrow> bytes \<Rightarrow> nat option" where
  "parse_unsigned w s =
     (let ds = (case s of c # cs \<Rightarrow> if c = 43 \<and> cs \<noteq> [] then cs else s | [] \<Rightarrow> s) in
      if ds \<noteq> [] \<and> list_all is_digit ds \<and> digits_value ds < 2 ^ w then Some (digits_value ds) else None)"

lemma digit_props: "d < 10 \<Longrightarrow> is_digit (digit d) \<and> digit_value (digit d) = d \<and> unat (digit d) = 48 + d"
proof -
  assume "d < 10"
  then have "unat (digit d) = 48 + d" by (simp add: digit_def unat_word_ariths unat_of_nat)
  with \<open>d < 10\<close> show ?thesis by (simp add: is_digit_def digit_value_def word_le_nat_alt)
qed

lemma decimal_digits: "b \<in> set (decimal n) \<Longrightarrow> is_digit b"
proof (induction n rule: decimal.induct)
  case (1 n)
  then show ?case
    by (cases "n < 10") (auto simp: decimal.simps[of n] digit_props)
qed

lemma decimal_nonempty: "decimal n \<noteq> []"
  by (simp add: decimal.simps[of n])

lemma digits_value_snoc: "digits_value (ds @ [d]) = digits_value ds * 10 + digit_value d"
  by (simp add: digits_value_def)

lemma digits_value_decimal: "digits_value (decimal n) = n"
proof (induction n rule: decimal.induct)
  case (1 n)
  show ?case
  proof (cases "n < 10")
    case True
    then show ?thesis by (simp add: decimal.simps[of n] digits_value_def digit_props)
  next
    case False
    then show ?thesis using 1 by (simp add: decimal.simps[of n] digits_value_snoc digit_props)
  qed
qed

lemma decimal_inj: "decimal m = decimal n \<Longrightarrow> m = n"
  by (metis digits_value_decimal)

lemma is_digit_range: "is_digit b \<Longrightarrow> b < 0x80 \<and> b \<noteq> 43 \<and> b \<noteq> 61 \<and> b \<noteq> 1"
  by (auto simp: is_digit_def word_le_nat_alt word_less_nat_alt)

lemma decimal_utf8: "utf8_valid (decimal n)"
  using decimal_digits is_digit_range by (intro utf8_valid_ascii) blast

lemma parse_unsigned_digits:
  assumes "\<forall>b \<in> set ds. is_digit b" "ds \<noteq> []" "digits_value ds < 2 ^ w"
  shows "parse_unsigned w ds = Some (digits_value ds)"
proof -
  have "(case ds of c # cs \<Rightarrow> if c = 43 \<and> cs \<noteq> [] then cs else ds | [] \<Rightarrow> ds) = ds"
    using assms(1) is_digit_range by (cases ds) auto
  with assms show ?thesis by (simp add: parse_unsigned_def list_all_iff)
qed

lemma parse_unsigned_decimal: "n < 2 ^ w \<Longrightarrow> parse_unsigned w (decimal n) = Some n"
  using parse_unsigned_digits[of "decimal n" w] decimal_digits decimal_nonempty digits_value_decimal by metis

lemma digits_value_zeros: "digits_value (replicate k (digit 0) @ ds) = digits_value ds"
proof (induction ds rule: rev_induct)
  case Nil
  show ?case by (induction k) (simp_all add: digits_value_def digit_props)
next
  case (snoc d ds)
  have "replicate k (digit 0) @ ds @ [d] = (replicate k (digit 0) @ ds) @ [d]" by simp
  with snoc show ?case by (simp only: digits_value_snoc)
qed

lemma decimal_padded_props:
  "\<forall>b \<in> set (decimal_padded k n). is_digit b" "decimal_padded k n \<noteq> []" "digits_value (decimal_padded k n) = n"
  using decimal_digits decimal_nonempty[of n] digits_value_decimal[of n] digit_props[of 0]
  by (auto simp: decimal_padded_def digits_value_zeros)

end
