(* ===== verification/Fix_Codec.thy ===== *)
theory Fix_Codec
  imports Rust_Strings Nano_Time
begin

text \<open>
  The FIX tag-value codec of \<^verbatim>\<open>adapters/fix/mod.rs\<close>: encoding a message with its header, body
  length and checksum, decoding a byte slice into fields, rebuilding the message, and cutting
  messages off the front of a receive buffer. Positions in a slice are kept as the suffix that
  starts there.

  The theorems: what is encoded is decoded to the same message wherever it stands in the
  stream (\<open>fix_round_trip\<close>), the frame carries its own length and checksum
  (\<open>fix_frame_well_formed\<close>), and how the network cuts the stream into reads does not matter
  (\<open>framing_chunk_independent\<close>).
\<close>

section \<open>Constants\<close>

definition TAG_BEGIN_STRING :: u32 where "TAG_BEGIN_STRING = 8"
definition TAG_BODY_LENGTH :: u32 where "TAG_BODY_LENGTH = 9"
definition TAG_CHECKSUM :: u32 where "TAG_CHECKSUM = 10"
definition TAG_MSG_SEQ_NUM :: u32 where "TAG_MSG_SEQ_NUM = 34"
definition TAG_MSG_TYPE :: u32 where "TAG_MSG_TYPE = 35"
definition TAG_SENDER_COMP_ID :: u32 where "TAG_SENDER_COMP_ID = 49"
definition TAG_SENDING_TIME :: u32 where "TAG_SENDING_TIME = 52"
definition TAG_TARGET_COMP_ID :: u32 where "TAG_TARGET_COMP_ID = 56"

definition SOH :: u8 where "SOH = 1"
definition EQ_SIGN :: u8 where "EQ_SIGN = 61"

definition BEGIN_STRING :: bytes where
  "BEGIN_STRING = ascii ''FIX.4.4''"

definition HEADER_TAGS :: "u32 list" where
  "HEADER_TAGS = [TAG_BEGIN_STRING, TAG_BODY_LENGTH, TAG_MSG_TYPE, TAG_SENDER_COMP_ID,
     TAG_TARGET_COMP_ID, TAG_MSG_SEQ_NUM, TAG_SENDING_TIME, TAG_CHECKSUM]"

lemmas fix_tag_defs = TAG_BEGIN_STRING_def TAG_BODY_LENGTH_def TAG_CHECKSUM_def TAG_MSG_SEQ_NUM_def
  TAG_MSG_TYPE_def TAG_SENDER_COMP_ID_def TAG_SENDING_TIME_def TAG_TARGET_COMP_ID_def

section \<open>Messages\<close>

type_synonym fix_field = "u32 \<times> bytes"

record fix_message =
  fm_msg_type :: bytes
  fm_seq_num :: u64
  fm_sending_time :: nanotime
  fm_fields :: "fix_field list"

definition find_tag :: "u32 \<Rightarrow> fix_field list \<Rightarrow> bytes option" where
  "find_tag tag fs = map_option snd (find (\<lambda>f. fst f = tag) fs)"

text \<open>\<^verbatim>\<open>FixMessage::field\<close>\<close>

definition fm_field :: "fix_message \<Rightarrow> u32 \<Rightarrow> bytes option" where
  "fm_field m tag = find_tag tag (fm_fields m)"

section \<open>Encoding\<close>

definition append_field :: "bytes \<Rightarrow> u32 \<Rightarrow> bytes \<Rightarrow> bytes" where
  "append_field buf tag val = buf @ decimal (unat tag) @ [EQ_SIGN] @ val @ [SOH]"

definition wrapping_sum :: "bytes \<Rightarrow> u8" where
  "wrapping_sum bs = foldl (+) 0 bs"

definition encode_body :: "bytes \<Rightarrow> bytes \<Rightarrow> bytes \<Rightarrow> u64 \<Rightarrow> bytes \<Rightarrow> fix_field list \<Rightarrow> bytes" where
  "encode_body msg_type sender target seq sending_time extra =
     (let body = append_field [] TAG_MSG_TYPE msg_type;
          body = append_field body TAG_SENDER_COMP_ID sender;
          body = append_field body TAG_TARGET_COMP_ID target;
          body = append_field body TAG_MSG_SEQ_NUM (decimal (unat seq));
          body = append_field body TAG_SENDING_TIME sending_time
      in foldl (\<lambda>b (tag, val). append_field b tag val) body extra)"

definition encode_message :: "bytes \<Rightarrow> bytes \<Rightarrow> bytes \<Rightarrow> u64 \<Rightarrow> bytes \<Rightarrow> fix_field list \<Rightarrow> bytes" where
  "encode_message msg_type sender target seq sending_time extra =
     (let body = encode_body msg_type sender target seq sending_time extra;
          out = append_field [] TAG_BEGIN_STRING BEGIN_STRING;
          out = append_field out TAG_BODY_LENGTH (decimal (length body));
          out = out @ body
      in append_field out TAG_CHECKSUM (decimal_padded 3 (unat (wrapping_sum out))))"

section \<open>Decoding\<close>

definition parse_tag :: "bytes \<Rightarrow> u32 option" where
  "parse_tag bs = Option.bind (from_utf8 bs) (\<lambda>s. map_option of_nat (parse_unsigned 32 s))"

function decode_fields :: "bytes \<Rightarrow> fix_field list" where
  "decode_fields data = (case position (\<lambda>b. b = EQ_SIGN) data of
       None \<Rightarrow> []
     | Some eq \<Rightarrow>
         (let rest = drop (eq + 1) data in
          case parse_tag (take eq data) of
            None \<Rightarrow> decode_fields rest
          | Some tag \<Rightarrow> (case position (\<lambda>b. b = SOH) rest of
                None \<Rightarrow> []
              | Some soh \<Rightarrow> (tag, (case from_utf8 (take soh rest) of None \<Rightarrow> [] | Some s \<Rightarrow> s))
                  # decode_fields (drop (soh + 1) rest))))"
  by pat_completeness auto
termination
  by (relation "measure length") (auto dest!: position_Some)

declare decode_fields.simps [simp del]

definition build_message :: "fix_field list \<Rightarrow> fix_message option" where
  "build_message fs = do {
     msg_type \<leftarrow> find_tag TAG_MSG_TYPE fs;
     Some \<lparr>fm_msg_type = msg_type,
       fm_seq_num = (case Option.bind (find_tag TAG_MSG_SEQ_NUM fs) (parse_unsigned 64) of None \<Rightarrow> 0 | Some n \<Rightarrow> of_nat n),
       fm_sending_time = nano_zero,
       fm_fields = filter (\<lambda>f. fst f \<notin> set HEADER_TAGS) fs\<rparr> }"

definition checksum_pattern :: bytes where
  "checksum_pattern = [SOH, 49, 48, EQ_SIGN]"

definition find_message :: "bytes \<Rightarrow> (bytes \<times> nat) option" where
  "find_message buf = do {
     pos \<leftarrow> find_pattern checksum_pattern buf;
     let val_start = pos + length checksum_pattern;
     soh_off \<leftarrow> position (\<lambda>b. b = SOH) (drop val_start buf);
     let e = val_start + soh_off + 1;
     Some (take e buf, e) }"

section \<open>Fields one after the other\<close>

definition enc_field :: "fix_field \<Rightarrow> bytes" where
  "enc_field f = append_field [] (fst f) (snd f)"

definition enc_fields :: "fix_field list \<Rightarrow> bytes" where
  "enc_fields fs = concat (map enc_field fs)"

lemma append_field_enc: "append_field buf tag val = buf @ enc_field (tag, val)"
  by (simp add: append_field_def enc_field_def)

lemma enc_fields_simps [simp]: "enc_fields [] = []" "enc_fields (f # fs) = enc_field f @ enc_fields fs"
  "enc_fields (fs @ gs) = enc_fields fs @ enc_fields gs"
  by (simp_all add: enc_fields_def)

lemma foldl_append_field: "foldl (\<lambda>b (tag, val). append_field b tag val) buf fs = buf @ enc_fields fs"
  by (induction fs arbitrary: buf) (auto simp: append_field_enc)

definition body_fields :: "bytes \<Rightarrow> bytes \<Rightarrow> bytes \<Rightarrow> u64 \<Rightarrow> bytes \<Rightarrow> fix_field list \<Rightarrow> fix_field list" where
  "body_fields msg_type sender target seq sending_time extra =
     [(TAG_MSG_TYPE, msg_type), (TAG_SENDER_COMP_ID, sender), (TAG_TARGET_COMP_ID, target),
      (TAG_MSG_SEQ_NUM, decimal (unat seq)), (TAG_SENDING_TIME, sending_time)] @ extra"

definition frame_fields :: "fix_field list \<Rightarrow> fix_field list" where
  "frame_fields body = [(TAG_BEGIN_STRING, BEGIN_STRING), (TAG_BODY_LENGTH, decimal (length (enc_fields body)))] @ body"

lemma encode_body_fields:
  "encode_body mt s t seq st extra = enc_fields (body_fields mt s t seq st extra)"
  unfolding encode_body_def body_fields_def Let_def foldl_append_field by (simp add: append_field_enc)

lemma encode_message_fields:
  "encode_message mt s t seq st extra =
     (let fs = frame_fields (body_fields mt s t seq st extra) in
      enc_fields fs @ enc_field (TAG_CHECKSUM, decimal_padded 3 (unat (wrapping_sum (enc_fields fs)))))"
  by (simp add: encode_message_def encode_body_fields frame_fields_def append_field_enc Let_def)

text \<open>A value that can stand in a field: a string without the delimiter.\<close>

definition clean :: "bytes \<Rightarrow> bool" where
  "clean v \<longleftrightarrow> SOH \<notin> set v \<and> utf8_valid v"

lemma digits_clean: "\<forall>b \<in> set ds. is_digit b \<Longrightarrow> clean ds"
  using is_digit_range unfolding clean_def SOH_def by (metis utf8_valid_ascii)

lemma decimal_clean: "clean (decimal n)" "clean (decimal_padded k n)"
  using decimal_digits decimal_padded_props(1) by (auto intro: digits_clean)

lemma begin_string_clean: "clean BEGIN_STRING"
  by (simp add: clean_def BEGIN_STRING_def SOH_def ascii_def)

lemma enc_field_unfold: "enc_field (t, v) = decimal (unat t) @ EQ_SIGN # v @ [SOH]"
  by (simp add: enc_field_def append_field_def)

lemma parse_tag_decimal: "parse_tag (decimal (unat t)) = Some t"
proof -
  have "unat t < 2 ^ 32" using unsigned_less[of t, where ?'a = nat] by simp
  then show ?thesis by (simp add: parse_tag_def from_utf8_def decimal_utf8 parse_unsigned_decimal del: power_numeral)
qed

lemma decimal_ten: "decimal 10 = [49, 48]"
  by (simp add: decimal.simps[of 10] decimal.simps[of "Suc 0"] digit_def)

lemma decimal_no_eq: "b \<in> set (decimal n) \<Longrightarrow> b \<noteq> EQ_SIGN" "b \<in> set (decimal n) \<Longrightarrow> b \<noteq> SOH"
  using decimal_digits is_digit_range by (auto simp: EQ_SIGN_def SOH_def)

lemma decode_enc_field:
  assumes "clean v"
  shows "decode_fields (enc_field (t, v) @ rest) = (t, v) # decode_fields rest"
proof -
  have "position (\<lambda>b. b = EQ_SIGN) (decimal (unat t) @ EQ_SIGN # v @ SOH # rest) = Some (length (decimal (unat t)))"
    using decimal_no_eq(1) by (intro position_first) auto
  moreover have "position (\<lambda>b. b = SOH) (v @ SOH # rest) = Some (length v)"
    using assms by (intro position_first) (auto simp: clean_def)
  ultimately show ?thesis
    using assms by (subst decode_fields.simps) (simp add: enc_field_unfold parse_tag_decimal from_utf8_def clean_def)
qed

lemma decode_enc_fields:
  "\<forall>f \<in> set fs. clean (snd f) \<Longrightarrow> decode_fields (enc_fields fs @ rest) = fs @ decode_fields rest"
proof (induction fs)
  case (Cons f fs)
  then show ?case using decode_enc_field[of "snd f" "fst f"] by simp
qed simp

lemma decode_fields_Nil [simp]: "decode_fields [] = []"
  by (simp add: decode_fields.simps)

section \<open>Framing\<close>

lemma take_checksum_tag: "take 3 (enc_field (t, v) @ rest) = [49, 48, EQ_SIGN] \<longleftrightarrow> t = TAG_CHECKSUM"
proof
  assume t3: "take 3 (enc_field (t, v) @ rest) = [49, 48, EQ_SIGN]"
  let ?d = "decimal (unat t)"
  have eq: "(?d @ EQ_SIGN # v @ SOH # rest) ! i = [49, 48, EQ_SIGN] ! i" if "i < 3" for i
    using t3 that by (metis append.assoc append_Cons enc_field_unfold nth_take append_Nil)
  have len: "length ?d = 2"
  proof (rule ccontr)
    assume "length ?d \<noteq> 2"
    moreover have "length ?d \<noteq> 0" using decimal_nonempty by simp
    ultimately consider "length ?d = 1" | "2 < length ?d" by linarith
    then show False
    proof cases
      case 1
      then have "(?d @ EQ_SIGN # v @ SOH # rest) ! 1 = EQ_SIGN" by (simp add: nth_append)
      with eq[of 1] show False by (simp add: EQ_SIGN_def)
    next
      case 2
      then have "?d ! 2 = EQ_SIGN" using eq[of 2] by (simp add: nth_append)
      with 2 decimal_no_eq(1)[of "?d ! 2" "unat t"] nth_mem[OF 2] show False by simp
    qed
  qed
  then have "?d ! 0 = 49" "?d ! 1 = 48" using eq[of 0] eq[of 1] by (simp_all add: nth_append)
  with len have "?d = [49, 48]" by (auto simp: length_Suc_conv numeral_2_eq_2)
  also have "\<dots> = decimal 10" by (simp add: decimal_ten)
  finally have "unat t = 10" by (rule decimal_inj)
  then show "t = TAG_CHECKSUM" by (simp add: word_unat_eq_iff TAG_CHECKSUM_def)
next
  assume "t = TAG_CHECKSUM"
  then show "take 3 (enc_field (t, v) @ rest) = [49, 48, EQ_SIGN]"
    by (simp add: enc_field_unfold TAG_CHECKSUM_def decimal_ten)
qed

lemma enc_field_body: "enc_field f = decimal (unat (fst f)) @ EQ_SIGN # snd f @ [SOH]"
  using enc_field_unfold[of "fst f" "snd f"] by simp

lemma find_checksum:
  assumes "fs \<noteq> []" "\<forall>f \<in> set fs. SOH \<notin> set (snd f)" "\<forall>f \<in> set (tl fs). fst f \<noteq> TAG_CHECKSUM"
  shows "find_pattern checksum_pattern (enc_fields fs @ enc_field (TAG_CHECKSUM, c) @ rest) =
    Some (length (enc_fields fs) - 1)"
  using assms
proof (induction fs)
  case (Cons f fs)
  let ?w = "decimal (unat (fst f)) @ EQ_SIGN # snd f"
  define ys where "ys = enc_fields fs @ enc_field (TAG_CHECKSUM, c) @ rest"
  have w: "SOH \<notin> set ?w" using Cons.prems(2) decimal_no_eq(2) by (auto simp: EQ_SIGN_def SOH_def)
  have split: "enc_fields (f # fs) @ enc_field (TAG_CHECKSUM, c) @ rest = ?w @ SOH # ys"
    by (simp add: enc_field_body ys_def)
  have found: "find_pattern checksum_pattern (enc_fields (f # fs) @ enc_field (TAG_CHECKSUM, c) @ rest) =
    (if 3 \<le> length ys \<and> take 3 ys = [49, 48, EQ_SIGN] then Some (length ?w)
     else map_option (\<lambda>k. length ?w + Suc k) (find_pattern checksum_pattern ys))"
    unfolding split checksum_pattern_def using find_pattern_skip[OF w, of "[49, 48, EQ_SIGN]" ys]
    by (simp add: numeral_3_eq_3)
  have len3: "3 \<le> length ys" if "take 3 ys = [49, 48, EQ_SIGN]"
    using arg_cong[OF that, of length] by simp
  show ?case
  proof (cases fs)
    case Nil
    then have "take 3 ys = [49, 48, EQ_SIGN]" using take_checksum_tag[of TAG_CHECKSUM c rest] by (simp add: ys_def)
    with found len3 Nil show ?thesis by (simp add: enc_field_body)
  next
    case (Cons g gs)
    then have "take 3 ys \<noteq> [49, 48, EQ_SIGN]"
      using take_checksum_tag[of "fst g" "snd g" "enc_fields gs @ enc_field (TAG_CHECKSUM, c) @ rest"] Cons.prems(3)
      by (simp add: ys_def del: take_append)
    moreover have "find_pattern checksum_pattern ys = Some (length (enc_fields fs) - 1)"
      using Cons.IH Cons.prems Cons by (simp add: ys_def)
    moreover have "0 < length (enc_fields fs)" using Cons by (simp add: enc_field_body)
    ultimately show ?thesis using found by (simp add: enc_field_body)
  qed
qed simp

lemma find_message_frame:
  assumes "fs \<noteq> []" "\<forall>f \<in> set fs. clean (snd f) \<and> fst f \<noteq> TAG_CHECKSUM" "clean c"
  defines "m \<equiv> enc_fields fs @ enc_field (TAG_CHECKSUM, c)"
  shows "find_message (m @ rest) = Some (m, length m)"
proof -
  have 1: "find_pattern checksum_pattern (m @ rest) = Some (length (enc_fields fs) - 1)"
    using find_checksum[of fs c rest] assms by (auto simp: clean_def m_def dest: list.set_sel(2))
  have pos: "0 < length (enc_fields fs)" using assms(1) by (cases fs) (simp_all add: enc_field_body)
  have dec10: "decimal (unat TAG_CHECKSUM) = [49, 48]" by (simp add: TAG_CHECKSUM_def decimal_ten)
  have 2: "drop (length (enc_fields fs) - 1 + length checksum_pattern) (m @ rest) = c @ SOH # rest"
    using pos by (simp add: checksum_pattern_def enc_field_unfold dec10 m_def)
  have 3: "position (\<lambda>b. b = SOH) (c @ SOH # rest) = Some (length c)"
    using assms(3) by (intro position_first) (auto simp: clean_def)
  have 4: "length (enc_fields fs) - 1 + length checksum_pattern + length c + 1 = length m"
    using pos by (simp add: checksum_pattern_def enc_field_unfold dec10 m_def)
  show ?thesis
    by (simp only: find_message_def Let_def 1 2 3 4 Option.bind_lunit) simp
qed

lemma find_message_bounds:
  assumes "find_message buf = Some (m, n)"
  shows "m = take n buf" "0 < n" "n \<le> length buf"
proof -
  obtain pos k where 1: "find_pattern checksum_pattern buf = Some pos"
    "position (\<lambda>b. b = SOH) (drop (pos + length checksum_pattern) buf) = Some k"
    and n: "n = pos + length checksum_pattern + k + 1" "m = take n buf"
    using assms by (auto simp: find_message_def Let_def split: Option.bind_splits)
  from position_Some[OF 1(2)] n show "m = take n buf" "0 < n" "n \<le> length buf" by auto
qed

lemma find_message_append:
  assumes "find_message buf = Some (m, n)"
  shows "find_message (buf @ tail) = Some (m, n)"
proof -
  obtain pos k where 1: "find_pattern checksum_pattern buf = Some pos"
    "position (\<lambda>b. b = SOH) (drop (pos + length checksum_pattern) buf) = Some k"
    and n: "n = pos + length checksum_pattern + k + 1" "m = take n buf"
    using assms by (auto simp: find_message_def Let_def split: Option.bind_splits)
  have "drop (pos + length checksum_pattern) (buf @ tail) = drop (pos + length checksum_pattern) buf @ tail"
    using find_pattern_Some[OF 1(1)] by simp
  then have "position (\<lambda>b. b = SOH) (drop (pos + length checksum_pattern) (buf @ tail)) = Some k"
    using 1(2) by (simp add: position_append)
  then have "find_message (buf @ tail) = Some (take n (buf @ tail), n)"
    by (simp only: find_message_def Let_def find_pattern_append[OF 1(1)] n(1) Option.bind_lunit)
  then show ?thesis using find_message_bounds[OF assms] by simp
qed

text \<open>Cutting all complete messages off the front of the receive buffer.\<close>

function split_frames :: "bytes \<Rightarrow> bytes list \<times> bytes" where
  "split_frames buf = (case find_message buf of
       None \<Rightarrow> ([], buf)
     | Some (m, n) \<Rightarrow> (case split_frames (drop n buf) of (fs, rest) \<Rightarrow> (m # fs, rest)))"
  by pat_completeness auto
termination
proof (relation "measure length")
  fix buf p m n assume "find_message buf = Some p" "(m, n) = p"
  then have "find_message buf = Some (m, n)" by simp
  from find_message_bounds[OF this] show "(drop n buf, buf) \<in> measure length" by simp
qed simp

declare split_frames.simps [simp del]

lemma split_frames_append:
  "split_frames buf = (fs, rest) \<Longrightarrow>
   split_frames (buf @ tail) = (case split_frames (rest @ tail) of (gs, rest') \<Rightarrow> (fs @ gs, rest'))"
proof (induction buf arbitrary: fs rest rule: split_frames.induct)
  case (1 buf)
  show ?case
  proof (cases "find_message buf")
    case None
    with 1(2) have "fs = []" "rest = buf" by (simp_all add: split_frames.simps[of buf])
    then show ?thesis by (simp split: prod.splits)
  next
    case (Some p)
    obtain m n where p: "p = (m, n)" by (cases p)
    obtain fs' where s: "split_frames (drop n buf) = (fs', rest)" "fs = m # fs'"
      using 1(2) Some p by (auto simp: split_frames.simps[of buf] split: prod.splits)
    have "n \<le> length buf" using find_message_bounds Some p by simp
    with find_message_append[of buf m n tail] Some p 1(1)[OF Some p[symmetric] s(1)] s(2) show ?thesis
      by (simp add: split_frames.simps[of "buf @ tail"] split: prod.splits)
  qed
qed

lemma split_frames_message:
  assumes "find_message buf = Some (m, n)"
  shows "split_frames buf = (m # fst (split_frames (drop n buf)), snd (split_frames (drop n buf)))"
  using assms by (simp add: split_frames.simps[of buf] split: prod.splits)

definition feed_chunk :: "bytes list \<times> bytes \<Rightarrow> bytes \<Rightarrow> bytes list \<times> bytes" where
  "feed_chunk st chunk = (case split_frames (snd st @ chunk) of (fs, rest) \<Rightarrow> (fst st @ fs, rest))"

lemma feed_chunks: "split_frames buf = st \<Longrightarrow> foldl feed_chunk st chunks = split_frames (buf @ concat chunks)"
proof (induction chunks arbitrary: buf st)
  case (Cons c cs)
  have "split_frames (buf @ c) = feed_chunk st c"
    using split_frames_append[of buf "fst st" "snd st" c] Cons.prems by (simp add: feed_chunk_def)
  from Cons.IH[OF this] show ?case by simp
qed simp


section \<open>Properties\<close>

definition message_of :: "bytes \<Rightarrow> u64 \<Rightarrow> fix_field list \<Rightarrow> fix_message" where
  "message_of msg_type seq extra =
     \<lparr>fm_msg_type = msg_type, fm_seq_num = seq, fm_sending_time = nano_zero, fm_fields = extra\<rparr>"

definition sendable :: "bytes \<Rightarrow> bytes \<Rightarrow> bytes \<Rightarrow> bytes \<Rightarrow> fix_field list \<Rightarrow> bool" where
  "sendable msg_type sender target sending_time extra \<longleftrightarrow> clean msg_type \<and> clean sender \<and> clean target \<and>
     clean sending_time \<and> (\<forall>f \<in> set extra. clean (snd f) \<and> fst f \<notin> set HEADER_TAGS)"

lemma frame_fields_clean:
  assumes "sendable mt s t st extra"
  shows "\<forall>f \<in> set (frame_fields (body_fields mt s t seq st extra)). clean (snd f) \<and> fst f \<noteq> TAG_CHECKSUM"
  using assms by (auto simp: sendable_def frame_fields_def body_fields_def decimal_clean begin_string_clean
      HEADER_TAGS_def fix_tag_defs)

lemma build_message_frame:
  assumes "sendable mt s t st extra"
  shows "build_message (frame_fields (body_fields mt s t seq st extra) @ [(TAG_CHECKSUM, c)]) = Some (message_of mt seq extra)"
proof -
  have "unat seq < 2 ^ 64" using unsigned_less[of seq, where ?'a = nat] by simp
  moreover have "filter (\<lambda>f. fst f \<notin> set HEADER_TAGS) extra = extra"
    using assms by (simp add: sendable_def)
  ultimately show ?thesis
    by (simp add: build_message_def frame_fields_def body_fields_def find_tag_def message_of_def fix_tag_defs
        HEADER_TAGS_def parse_unsigned_decimal del: power_numeral)
qed

lemma decode_frame:
  assumes "sendable mt s t st extra"
  shows "find_message (encode_message mt s t seq st extra @ rest) =
      Some (encode_message mt s t seq st extra, length (encode_message mt s t seq st extra))"
    "build_message (decode_fields (encode_message mt s t seq st extra)) = Some (message_of mt seq extra)"
proof -
  define fs where "fs = frame_fields (body_fields mt s t seq st extra)"
  define c where "c = decimal_padded 3 (unat (wrapping_sum (enc_fields fs)))"
  have m: "encode_message mt s t seq st extra = enc_fields fs @ enc_field (TAG_CHECKSUM, c)"
    by (simp add: encode_message_fields fs_def c_def Let_def)
  have cl: "\<forall>f \<in> set fs. clean (snd f) \<and> fst f \<noteq> TAG_CHECKSUM" "clean c" "fs \<noteq> []"
    using frame_fields_clean[OF assms] by (simp_all add: fs_def c_def decimal_clean frame_fields_def)
  show "find_message (encode_message mt s t seq st extra @ rest) =
      Some (encode_message mt s t seq st extra, length (encode_message mt s t seq st extra))"
    unfolding m using find_message_frame[OF cl(3,1,2)] .
  have "decode_fields (enc_fields fs @ enc_field (TAG_CHECKSUM, c)) = fs @ [(TAG_CHECKSUM, c)]"
    using decode_enc_fields[of fs "enc_field (TAG_CHECKSUM, c)"] decode_enc_field[OF cl(2), of TAG_CHECKSUM "[]"] cl(1) by simp
  then show "build_message (decode_fields (encode_message mt s t seq st extra)) = Some (message_of mt seq extra)"
    unfolding m using build_message_frame[OF assms] by (simp add: fs_def)
qed

text \<open>
  C23. What is encoded is decoded: a message whose strings contain no delimiter and whose extra
  fields avoid the header tags is cut off the front of any stream that starts with its
  encoding, exactly at its end, and decodes to the same type, sequence number and fields.
\<close>
theorem fix_round_trip:
  assumes "sendable mt s t st extra"
  shows "find_message (encode_message mt s t seq st extra @ rest) =
      Some (encode_message mt s t seq st extra, length (encode_message mt s t seq st extra)) \<and>
    build_message (decode_fields (encode_message mt s t seq st extra)) = Some (message_of mt seq extra)"
  using decode_frame[OF assms] by simp

theorem fix_round_trip_witness:
  "build_message (decode_fields (encode_message (ascii ''D'') (ascii ''ME'') (ascii ''YOU'') 7 (ascii ''now'')
     [(55, ascii ''AAPL''), (38, ascii ''100'')])) =
   Some (message_of (ascii ''D'') 7 [(55, ascii ''AAPL''), (38, ascii ''100'')])"
  using fix_round_trip[of "ascii ''D''" "ascii ''ME''" "ascii ''YOU''" "ascii ''now''"
      "[(55, ascii ''AAPL''), (38, ascii ''100'')]" 7]
  by (simp add: sendable_def clean_def SOH_def ascii_def HEADER_TAGS_def fix_tag_defs)

text \<open>
  The frame is well formed: it is the begin string, the body length and the body, followed
  by the trailer; the length field counts the bytes of the body and the trailer holds, in
  three digits, the sum modulo 256 of all bytes before it.
\<close>
lemma fix_frame_well_formed:
  "\<exists>front. encode_message mt s t seq st extra =
      front @ encode_body mt s t seq st extra @ enc_field (TAG_CHECKSUM,
        decimal_padded 3 (sum_list (map unat (front @ encode_body mt s t seq st extra)) mod 256)) \<and>
    front = enc_field (TAG_BEGIN_STRING, BEGIN_STRING) @
      enc_field (TAG_BODY_LENGTH, decimal (length (encode_body mt s t seq st extra)))"
proof -
  have "unat (foldl (+) a bs) = (unat a + sum_list (map unat bs)) mod 256" for a :: u8 and bs
  proof (induction bs arbitrary: a)
    case Nil
    then show ?case using unsigned_less[of a, where ?'a = nat] by simp
  next
    case (Cons b bs)
    then show ?case by (simp add: unat_word_ariths mod_add_left_eq add.assoc)
  qed
  then have "unat (wrapping_sum bs) = sum_list (map unat bs) mod 256" for bs by (simp add: wrapping_sum_def)
  then show ?thesis by (simp add: encode_message_def append_field_enc Let_def)
qed

text \<open>
  C24. How the network cuts the stream does not matter: feeding the receive buffer chunk by
  chunk extracts the same messages, and leaves the same incomplete rest, as one read of the
  whole stream.
\<close>
theorem framing_chunk_independent: "foldl feed_chunk ([], []) chunks = split_frames (concat chunks)"
proof -
  have "find_pattern checksum_pattern [] = None" by (subst find_pattern.simps) (simp add: checksum_pattern_def)
  then have "split_frames [] = ([], [])" by (subst split_frames.simps) (simp add: find_message_def)
  from feed_chunks[OF this] show ?thesis by simp
qed

end
