(* ===== verification/Fix_Session.thy ===== *)
theory Fix_Session
  imports Fix_Codec
begin

text \<open>
  The FIX session layer of \<^verbatim>\<open>adapters/fix/mod.rs\<close>: \<^verbatim>\<open>FixSession\<close> (sequence numbers, logon,
  logout, heartbeats), the initiator and acceptor handlers, and \<^verbatim>\<open>drain_parse_buf\<close>, which cuts
  messages off the receive buffer and dispatches them.

  The socket is a parameter: \<open>wr\<close> stands for \<^verbatim>\<open>write_all\<close> followed by \<^verbatim>\<open>flush\<close> on a
  \<^verbatim>\<open>W: Write\<close>, and returns the socket after it and the error if there was one. \<open>stamp\<close> stands
  for \<^verbatim>\<open>now_sending_time()\<close> (the clock of the \<^verbatim>\<open>chrono\<close> crate), given the sequence number of
  the message that is being stamped.
\<close>

definition TAG_HEARTBT_INT :: u32 where "TAG_HEARTBT_INT = 108"
definition TAG_TEST_REQ_ID :: u32 where "TAG_TEST_REQ_ID = 112"
definition TAG_ENCRYPT_METHOD :: u32 where "TAG_ENCRYPT_METHOD = 98"
definition TAG_USERNAME :: u32 where "TAG_USERNAME = 553"
definition TAG_PASSWORD :: u32 where "TAG_PASSWORD = 554"
definition TAG_RESET_SEQ_NUM_FLAG :: u32 where "TAG_RESET_SEQ_NUM_FLAG = 141"
definition TAG_TEXT :: u32 where "TAG_TEXT = 58"

definition MSG_HEARTBEAT :: bytes where "MSG_HEARTBEAT = ascii ''0''"
definition MSG_TEST_REQUEST :: bytes where "MSG_TEST_REQUEST = ascii ''1''"
definition MSG_LOGON :: bytes where "MSG_LOGON = ascii ''A''"
definition MSG_LOGOUT :: bytes where "MSG_LOGOUT = ascii ''5''"

definition HEARTBEAT_INTERVAL :: u32 where "HEARTBEAT_INTERVAL = 30"

lemmas session_tag_defs = TAG_HEARTBT_INT_def TAG_TEST_REQ_ID_def TAG_ENCRYPT_METHOD_def TAG_USERNAME_def
  TAG_PASSWORD_def TAG_RESET_SEQ_NUM_FLAG_def TAG_TEXT_def

lemmas msg_type_defs = MSG_HEARTBEAT_def MSG_TEST_REQUEST_def MSG_LOGON_def MSG_LOGOUT_def

section \<open>Types\<close>

datatype session_status = Disconnected | LoggingIn | LoggedIn | LoggedOut "bytes option" | StatusError anyhow

datatype fix_event = Data fix_message | Status session_status

record logon_context =
  lc_msg_type :: bytes
  lc_sender_comp_id :: bytes
  lc_target_comp_id :: bytes
  lc_msg_seq_num :: u64
  lc_sending_time :: bytes

datatype fix_logon =
    NoLogon
  | PasswordLogon bytes
  | CustomLogon "logon_context \<Rightarrow> fix_field list"

text \<open>\<^verbatim>\<open>From<Option<&str>> for FixLogon\<close>\<close>

definition logon_from_password :: "bytes option \<Rightarrow> fix_logon" where
  "logon_from_password p = (case p of Some pw \<Rightarrow> PasswordLogon pw | None \<Rightarrow> NoLogon)"

record fix_session =
  se_sender_comp_id :: bytes
  se_target_comp_id :: bytes
  se_out_seq :: u64
  se_logon :: fix_logon

definition session_new_with_logon :: "bytes \<Rightarrow> bytes \<Rightarrow> fix_logon \<Rightarrow> fix_session" where
  "session_new_with_logon sender target logon =
     \<lparr>se_sender_comp_id = sender, se_target_comp_id = target, se_out_seq = 0, se_logon = logon\<rparr>"

definition session_new :: "bytes \<Rightarrow> bytes \<Rightarrow> fix_session" where
  "session_new sender target = session_new_with_logon sender target NoLogon"

section \<open>Sending\<close>

type_synonym 'w writer = "'w \<Rightarrow> bytes \<Rightarrow> 'w \<times> (anyhow + unit)"

definition write_encoded :: "'w writer \<Rightarrow> fix_session \<Rightarrow> 'w \<Rightarrow> bytes \<Rightarrow> bytes \<Rightarrow> fix_field list \<Rightarrow>
    'w \<times> (anyhow + unit)" where
  "write_encoded wr se sock msg_type sending_time extra =
     wr sock (encode_message msg_type (se_sender_comp_id se) (se_target_comp_id se) (se_out_seq se)
       sending_time extra)"

definition send_with :: "'w writer \<Rightarrow> (u64 \<Rightarrow> bytes) \<Rightarrow> fix_session \<Rightarrow> 'w \<Rightarrow> bytes \<Rightarrow>
    (u64 \<Rightarrow> bytes \<Rightarrow> fix_field list) \<Rightarrow> fix_session \<times> 'w \<times> (anyhow + unit)" where
  "send_with wr stamp se sock msg_type build_extra =
     (let se' = se\<lparr>se_out_seq := se_out_seq se + 1\<rparr>;
          sending_time = stamp (se_out_seq se');
          extra = build_extra (se_out_seq se') sending_time
      in (se', write_encoded wr se' sock msg_type sending_time extra))"

definition send :: "'w writer \<Rightarrow> (u64 \<Rightarrow> bytes) \<Rightarrow> fix_session \<Rightarrow> 'w \<Rightarrow> bytes \<Rightarrow> fix_field list \<Rightarrow>
    fix_session \<times> 'w \<times> (anyhow + unit)" where
  "send wr stamp se sock msg_type extra =
     (let se' = se\<lparr>se_out_seq := se_out_seq se + 1\<rparr>;
          sending_time = stamp (se_out_seq se')
      in (se', write_encoded wr se' sock msg_type sending_time extra))"

definition logon_fields :: "fix_session \<Rightarrow> u64 \<Rightarrow> bytes \<Rightarrow> fix_field list" where
  "logon_fields se seq sending_time =
     [(TAG_ENCRYPT_METHOD, ascii ''0''), (TAG_HEARTBT_INT, decimal (unat HEARTBEAT_INTERVAL)),
      (TAG_RESET_SEQ_NUM_FLAG, ascii ''Y'')] @
     (case se_logon se of
        NoLogon \<Rightarrow> []
      | PasswordLogon pwd \<Rightarrow> [(TAG_USERNAME, se_sender_comp_id se), (TAG_PASSWORD, pwd)]
      | CustomLogon builder \<Rightarrow> builder \<lparr>lc_msg_type = MSG_LOGON, lc_sender_comp_id = se_sender_comp_id se,
          lc_target_comp_id = se_target_comp_id se, lc_msg_seq_num = seq, lc_sending_time = sending_time\<rparr>)"

definition send_logon :: "'w writer \<Rightarrow> (u64 \<Rightarrow> bytes) \<Rightarrow> fix_session \<Rightarrow> 'w \<Rightarrow> fix_session \<times> 'w \<times> (anyhow + unit)" where
  "send_logon wr stamp se sock = send_with wr stamp se sock MSG_LOGON (logon_fields se)"

definition send_logout :: "'w writer \<Rightarrow> (u64 \<Rightarrow> bytes) \<Rightarrow> fix_session \<Rightarrow> 'w \<Rightarrow> fix_session \<times> 'w \<times> (anyhow + unit)" where
  "send_logout wr stamp se sock = send wr stamp se sock MSG_LOGOUT []"

definition send_heartbeat :: "'w writer \<Rightarrow> (u64 \<Rightarrow> bytes) \<Rightarrow> fix_session \<Rightarrow> 'w \<Rightarrow> bytes option \<Rightarrow>
    fix_session \<times> 'w \<times> (anyhow + unit)" where
  "send_heartbeat wr stamp se sock test_req_id =
     send wr stamp se sock MSG_HEARTBEAT
       (case test_req_id of None \<Rightarrow> [] | Some i \<Rightarrow> [(TAG_TEST_REQ_ID, i)])"

section \<open>Receiving\<close>

definition handle_initiator :: "'w writer \<Rightarrow> (u64 \<Rightarrow> bytes) \<Rightarrow> fix_session \<Rightarrow> fix_message \<Rightarrow> 'w \<Rightarrow>
    fix_event list \<Rightarrow> fix_session \<times> 'w \<times> fix_event list \<times> (anyhow + bool)" where
  "handle_initiator wr stamp se msg sock events =
     (if fm_msg_type msg = MSG_LOGON then (se, sock, events @ [Status LoggedIn], Inr False)
      else if fm_msg_type msg = MSG_HEARTBEAT then (se, sock, events, Inr False)
      else if fm_msg_type msg = MSG_TEST_REQUEST then
        (case send_heartbeat wr stamp se sock (fm_field msg TAG_TEST_REQ_ID) of
           (se', sock', Inl e) \<Rightarrow> (se', sock', events, Inl e)
         | (se', sock', Inr _) \<Rightarrow> (se', sock', events, Inr False))
      else if fm_msg_type msg = MSG_LOGOUT then
        (se, sock, events @ [Status (LoggedOut (fm_field msg TAG_TEXT))], Inr False)
      else (se, sock, events, Inr True))"

definition handle_acceptor :: "'w writer \<Rightarrow> (u64 \<Rightarrow> bytes) \<Rightarrow> fix_session \<Rightarrow> fix_message \<Rightarrow> 'w \<Rightarrow>
    fix_event list \<Rightarrow> fix_session \<times> 'w \<times> fix_event list \<times> (anyhow + bool)" where
  "handle_acceptor wr stamp se msg sock events =
     (if fm_msg_type msg = MSG_LOGON then
        (case send_logon wr stamp se sock of
           (se', sock', Inl e) \<Rightarrow> (se', sock', events, Inl e)
         | (se', sock', Inr _) \<Rightarrow> (se', sock', events @ [Status LoggedIn], Inr False))
      else if fm_msg_type msg = MSG_HEARTBEAT then (se, sock, events, Inr False)
      else if fm_msg_type msg = MSG_TEST_REQUEST then
        (case send_heartbeat wr stamp se sock (fm_field msg TAG_TEST_REQ_ID) of
           (se', sock', Inl e) \<Rightarrow> (se', sock', events, Inl e)
         | (se', sock', Inr _) \<Rightarrow> (se', sock', events, Inr False))
      else if fm_msg_type msg = MSG_LOGOUT then
        (se, sock, events @ [Status (LoggedOut (fm_field msg TAG_TEXT))], Inr False)
      else (se, sock, events, Inr True))"

definition handle :: "'w writer \<Rightarrow> (u64 \<Rightarrow> bytes) \<Rightarrow> bool \<Rightarrow> fix_session \<Rightarrow> fix_message \<Rightarrow> 'w \<Rightarrow>
    fix_event list \<Rightarrow> fix_session \<times> 'w \<times> fix_event list \<times> (anyhow + bool)" where
  "handle wr stamp is_acceptor =
     (if is_acceptor then handle_acceptor wr stamp else handle_initiator wr stamp)"

text \<open>The receive buffer, the socket, the session and the events collected so far.\<close>

record 'w drain_state =
  dr_parse_buf :: bytes
  dr_socket :: "'w option"
  dr_session :: fix_session
  dr_events :: "fix_event list"

text \<open>
  One message: an undecodable one is dropped, so is one with no socket to answer on; after an
  error the socket is gone (it was taken and not put back).
\<close>

definition dispatch :: "'w writer \<Rightarrow> (u64 \<Rightarrow> bytes) \<Rightarrow> bool \<Rightarrow> bytes \<Rightarrow> 'w drain_state \<Rightarrow> 'w drain_state \<times> (anyhow + unit)" where
  "dispatch wr stamp is_acceptor msg_bytes st = (case build_message (decode_fields msg_bytes) of
       None \<Rightarrow> (st, Inr ())
     | Some msg \<Rightarrow> (case dr_socket st of
           None \<Rightarrow> (st, Inr ())
         | Some sock \<Rightarrow> (case handle wr stamp is_acceptor (dr_session st) msg sock (dr_events st) of
               (se, sock', ev, Inl e) \<Rightarrow> (st\<lparr>dr_socket := None, dr_session := se, dr_events := ev\<rparr>, Inl e)
             | (se, sock', ev, Inr pass) \<Rightarrow>
                 (st\<lparr>dr_socket := Some sock', dr_session := se,
                     dr_events := ev @ (if pass then [Data msg] else [])\<rparr>, Inr ()))))"

lemma dispatch_parse_buf [simp]: "dr_parse_buf (fst (dispatch wr stamp a m st)) = dr_parse_buf st"
  by (auto simp: dispatch_def split: option.splits prod.splits sum.splits)

function drain_loop :: "'w writer \<Rightarrow> (u64 \<Rightarrow> bytes) \<Rightarrow> bool \<Rightarrow> 'w drain_state \<Rightarrow> 'w drain_state \<times> (anyhow + unit)" where
  "drain_loop wr stamp is_acceptor st = (case find_message (dr_parse_buf st) of
       None \<Rightarrow> (st, Inr ())
     | Some (msg_bytes, consumed) \<Rightarrow>
         (let r = dispatch wr stamp is_acceptor msg_bytes (st\<lparr>dr_parse_buf := drop consumed (dr_parse_buf st)\<rparr>) in
          if isl (snd r) then r else drain_loop wr stamp is_acceptor (fst r)))"
  by pat_completeness auto
termination
proof (relation "measure (\<lambda>(wr, stamp, a, st). length (dr_parse_buf st))")
  fix wr :: "'w writer" and stamp a and st :: "'w drain_state" and p m n r
  assume "find_message (dr_parse_buf st) = Some p" "(m, n) = p"
    and r: "r = dispatch wr stamp a m (st\<lparr>dr_parse_buf := drop n (dr_parse_buf st)\<rparr>)"
  then have "find_message (dr_parse_buf st) = Some (m, n)" by simp
  from find_message_bounds[OF this] r
  show "((wr, stamp, a, fst r), wr, stamp, a, st) \<in> measure (\<lambda>(wr, stamp, a, st). length (dr_parse_buf st))" by simp
qed simp

declare drain_loop.simps [simp del]

text \<open>\<^verbatim>\<open>Ok(events.len() > before)\<close>\<close>

definition drain_parse_buf :: "'w writer \<Rightarrow> (u64 \<Rightarrow> bytes) \<Rightarrow> bool \<Rightarrow> 'w drain_state \<Rightarrow> 'w drain_state \<times> (anyhow + bool)" where
  "drain_parse_buf wr stamp is_acceptor st = (case drain_loop wr stamp is_acceptor st of
       (st', Inl e) \<Rightarrow> (st', Inl e)
     | (st', Inr _) \<Rightarrow> (st', Inr (length (dr_events st) < length (dr_events st'))))"

section \<open>Draining a stream of messages\<close>

lemma drain_loop_none:
  "find_message (dr_parse_buf st) = None \<Longrightarrow> drain_loop wr stamp a st = (st, Inr ())"
  by (simp add: drain_loop.simps)

lemma drain_loop_message:
  assumes "sendable mt s t time extra" "dr_parse_buf st = encode_message mt s t seq time extra @ rest"
    "dr_socket st = Some sock" "handle wr stamp a (dr_session st) (message_of mt seq extra) sock (dr_events st) =
       (se, sock', ev, Inr pass)"
  shows "drain_loop wr stamp a st = drain_loop wr stamp a (st\<lparr>dr_parse_buf := rest, dr_socket := Some sock',
    dr_session := se, dr_events := ev @ (if pass then [Data (message_of mt seq extra)] else [])\<rparr>)"
  using decode_frame(1)[OF assms(1), of seq rest] decode_frame(2)[OF assms(1), of seq] assms(2-4)
  by (simp add: drain_loop.simps[of wr stamp a st] dispatch_def Let_def)

text \<open>A message of the peer: type, sequence number, sending time and fields.\<close>

type_synonym wire_message = "bytes \<times> u64 \<times> bytes \<times> fix_field list"

definition wire_ok :: "bytes \<Rightarrow> bytes \<Rightarrow> wire_message \<Rightarrow> bool" where
  "wire_ok s t w = (case w of (mt, seq, time, extra) \<Rightarrow> sendable mt s t time extra)"

definition wire_bytes :: "bytes \<Rightarrow> bytes \<Rightarrow> wire_message \<Rightarrow> bytes" where
  "wire_bytes s t w = (case w of (mt, seq, time, extra) \<Rightarrow> encode_message mt s t seq time extra)"

definition wire_content :: "wire_message \<Rightarrow> fix_message" where
  "wire_content w = (case w of (mt, seq, time, extra) \<Rightarrow> message_of mt seq extra)"

definition application_type :: "bytes \<Rightarrow> bool" where
  "application_type mt \<longleftrightarrow> mt \<notin> {MSG_LOGON, MSG_HEARTBEAT, MSG_TEST_REQUEST, MSG_LOGOUT}"

text \<open>
  What a message of the peer means: the events for the application, and the answer on the session's
  connection, a logon of an acceptor to a logon and a heartbeat to a test request.
\<close>

definition events_of :: "wire_message \<Rightarrow> fix_event list" where
  "events_of w =
     (if fst w = MSG_LOGON then [Status LoggedIn]
      else if fst w = MSG_LOGOUT then [Status (LoggedOut (fm_field (wire_content w) TAG_TEXT))]
      else if application_type (fst w) then [Data (wire_content w)] else [])"

definition answer_to :: "bool \<Rightarrow> wire_message \<Rightarrow> fix_session \<Rightarrow> u64 \<Rightarrow> bytes \<Rightarrow> (bytes \<times> fix_field list) option" where
  "answer_to is_acceptor w se seq time =
     (if is_acceptor \<and> fst w = MSG_LOGON then Some (MSG_LOGON, logon_fields se seq time)
      else if fst w = MSG_TEST_REQUEST then Some (MSG_HEARTBEAT,
        (case fm_field (wire_content w) TAG_TEST_REQ_ID of None \<Rightarrow> [] | Some i \<Rightarrow> [(TAG_TEST_REQ_ID, i)]))
      else None)"

definition answered :: "'w writer \<Rightarrow> (u64 \<Rightarrow> bytes) \<Rightarrow> bool \<Rightarrow> fix_session \<times> 'w \<Rightarrow> wire_message \<Rightarrow> fix_session \<times> 'w" where
  "answered wr stamp is_acceptor ses w = (case ses of (se, sock) \<Rightarrow>
     let seq = se_out_seq se + 1; time = stamp seq in
     case answer_to is_acceptor w se seq time of
       None \<Rightarrow> (se, sock)
     | Some (mt, extra) \<Rightarrow> (se\<lparr>se_out_seq := seq\<rparr>,
         fst (wr sock (encode_message mt (se_sender_comp_id se) (se_target_comp_id se) seq time extra))))"

lemma handle_answered:
  assumes "\<forall>sock b. snd (wr sock b) = Inr ()"
  shows "\<exists>ev' pass. handle wr stamp a se (wire_content w) sock ev =
      (fst (answered wr stamp a (se, sock) w), snd (answered wr stamp a (se, sock) w), ev', Inr pass) \<and>
    ev' @ (if pass then [Data (wire_content w)] else []) = ev @ events_of w"
proof -
  obtain mt seq time extra where w: "w = (mt, seq, time, extra)" by (cases w)
  have mt: "fm_msg_type (wire_content w) = mt" "fst w = mt" by (simp_all add: w wire_content_def message_of_def)
  have wr: "wr s b = (fst (wr s b), Inr ())" for s b using assms by (metis surjective_pairing)
  have hb: "send_heartbeat wr stamp se sock tid = (se\<lparr>se_out_seq := se_out_seq se + 1\<rparr>,
      fst (wr sock (encode_message MSG_HEARTBEAT (se_sender_comp_id se) (se_target_comp_id se) (se_out_seq se + 1)
        (stamp (se_out_seq se + 1)) (case tid of None \<Rightarrow> [] | Some i \<Rightarrow> [(TAG_TEST_REQ_ID, i)]))), Inr ())" for tid
    unfolding send_heartbeat_def send_def write_encoded_def Let_def by (subst wr) simp
  have lo: "send_logon wr stamp se sock = (se\<lparr>se_out_seq := se_out_seq se + 1\<rparr>,
      fst (wr sock (encode_message MSG_LOGON (se_sender_comp_id se) (se_target_comp_id se) (se_out_seq se + 1)
        (stamp (se_out_seq se + 1)) (logon_fields se (se_out_seq se + 1) (stamp (se_out_seq se + 1))))), Inr ())"
    unfolding send_logon_def send_with_def write_encoded_def Let_def by (subst wr) simp
  have ne: "MSG_LOGON \<noteq> MSG_TEST_REQUEST" "MSG_LOGOUT \<noteq> MSG_TEST_REQUEST" "MSG_HEARTBEAT \<noteq> MSG_TEST_REQUEST" "MSG_LOGOUT \<noteq> MSG_LOGON"
    "MSG_HEARTBEAT \<noteq> MSG_LOGON" "MSG_HEARTBEAT \<noteq> MSG_LOGOUT"
    by (simp_all add: msg_type_defs ascii_def)
  consider "mt = MSG_LOGON" | "mt = MSG_HEARTBEAT" | "mt = MSG_TEST_REQUEST" | "mt = MSG_LOGOUT" | "application_type mt"
    by (auto simp: application_type_def)
  then show ?thesis
  proof cases
    case 1
    then show ?thesis using ne ne[symmetric]
      by (cases a; intro exI[of _ "ev @ [Status LoggedIn]"] exI[of _ False])
        (simp_all add: ex_bool_eq handle_def handle_acceptor_def handle_initiator_def mt lo answered_def answer_to_def events_of_def Let_def)
  next
    case 2
    then show ?thesis using ne ne[symmetric]
      by (cases a) (simp_all add: ex_bool_eq handle_def handle_acceptor_def handle_initiator_def mt answered_def answer_to_def events_of_def Let_def application_type_def)
  next
    case 3
    then show ?thesis using ne ne[symmetric]
      by (cases a) (simp_all add: ex_bool_eq handle_def handle_acceptor_def handle_initiator_def mt hb answered_def answer_to_def events_of_def Let_def application_type_def)
  next
    case 4
    then show ?thesis using ne ne[symmetric]
      by (cases a) (simp_all add: ex_bool_eq handle_def handle_acceptor_def handle_initiator_def mt answered_def answer_to_def events_of_def Let_def)
  next
    case 5
    then show ?thesis
      by (cases a) (simp_all add: ex_bool_eq handle_def handle_acceptor_def handle_initiator_def mt answered_def answer_to_def events_of_def Let_def application_type_def)
  qed
qed

lemma drain_loop_messages:
  assumes "\<forall>sock b. snd (wr sock b) = Inr ()" "\<forall>w \<in> set ws. wire_ok s t w" "find_message rest = None"
    "dr_parse_buf st = concat (map (wire_bytes s t) ws) @ rest" "dr_socket st = Some sock"
  shows "drain_loop wr stamp a st =
    (\<lparr>dr_parse_buf = rest, dr_socket = Some (snd (foldl (answered wr stamp a) (dr_session st, sock) ws)),
      dr_session = fst (foldl (answered wr stamp a) (dr_session st, sock) ws),
      dr_events = dr_events st @ concat (map events_of ws)\<rparr>, Inr ())"
  using assms(2-)
proof (induction ws arbitrary: st sock)
  case Nil
  then have "drain_loop wr stamp a st = (st, Inr ())" by (intro drain_loop_none) simp
  with Nil show ?case by simp
next
  case (Cons w ws)
  obtain mt seq time extra where w: "w = (mt, seq, time, extra)" by (cases w)
  have ok: "sendable mt s t time extra" using Cons.prems(1) w by (auto simp: wire_ok_def)
  obtain se' sock' where ans: "answered wr stamp a (dr_session st, sock) w = (se', sock')" by fastforce
  obtain ev' pass where h: "handle wr stamp a (dr_session st) (wire_content w) sock (dr_events st) = (se', sock', ev', Inr pass)"
    "ev' @ (if pass then [Data (wire_content w)] else []) = dr_events st @ events_of w"
    using handle_answered[OF assms(1), of stamp a "dr_session st" w sock "dr_events st"] ans by auto
  have wc: "wire_content w = message_of mt seq extra" "wire_bytes s t w = encode_message mt s t seq time extra"
    by (simp_all add: w wire_content_def wire_bytes_def)
  let ?st = "st\<lparr>dr_parse_buf := concat (map (wire_bytes s t) ws) @ rest, dr_socket := Some sock', dr_session := se',
    dr_events := dr_events st @ events_of w\<rparr>"
  have "drain_loop wr stamp a st = drain_loop wr stamp a ?st"
    using drain_loop_message[OF ok _ Cons.prems(4) h(1)[unfolded wc(1)], of "concat (map (wire_bytes s t) ws) @ rest"]
      Cons.prems(3) by (simp add: wc(2) h(2)[unfolded wc(1)])
  with Cons.IH[of ?st sock'] Cons.prems ans show ?case by simp
qed

section \<open>A lossless connection\<close>

definition wire :: "bytes writer" where
  "wire sock bs = (sock @ bs, Inr ())"

definition connected :: "bytes \<Rightarrow> fix_session \<Rightarrow> bytes drain_state" where
  "connected received se = \<lparr>dr_parse_buf = received, dr_socket = Some [], dr_session = se, dr_events = []\<rparr>"

definition logon_ok :: "(u64 \<Rightarrow> bytes) \<Rightarrow> fix_session \<Rightarrow> bool" where
  "logon_ok stamp se \<longleftrightarrow> (let seq = se_out_seq se + 1 in
     sendable MSG_LOGON (se_sender_comp_id se) (se_target_comp_id se) (stamp seq) (logon_fields se seq (stamp seq)))"

definition logon_bytes :: "(u64 \<Rightarrow> bytes) \<Rightarrow> fix_session \<Rightarrow> bytes" where
  "logon_bytes stamp se = (let seq = se_out_seq se + 1 in
     encode_message MSG_LOGON (se_sender_comp_id se) (se_target_comp_id se) seq (stamp seq)
       (logon_fields se seq (stamp seq)))"

lemma send_logon_wire:
  "send_logon wire stamp se sock =
     (se\<lparr>se_out_seq := se_out_seq se + 1\<rparr>, sock @ logon_bytes stamp se, Inr ())"
  by (simp add: send_logon_def send_with_def write_encoded_def wire_def logon_bytes_def Let_def)

lemma find_message_Nil: "find_message [] = None"
proof -
  have "find_pattern checksum_pattern [] = None" by (subst find_pattern.simps) (simp add: checksum_pattern_def)
  then show ?thesis by (simp add: find_message_def)
qed

lemma drain_logon:
  assumes ok: "logon_ok stamp' peer"
    and h: "\<And>m. fm_msg_type m = MSG_LOGON \<Longrightarrow> handle wire stamp a se m [] [] = (se', out, [Status LoggedIn], Inr False)"
  shows "drain_parse_buf wire stamp a (connected (logon_bytes stamp' peer) se) =
    (\<lparr>dr_parse_buf = [], dr_socket = Some out, dr_session = se', dr_events = [Status LoggedIn]\<rparr>, Inr True)"
proof -
  define seq where "seq = se_out_seq peer + 1"
  define extra where "extra = logon_fields peer seq (stamp' seq)"
  have s: "sendable MSG_LOGON (se_sender_comp_id peer) (se_target_comp_id peer) (stamp' seq) extra"
    using ok by (simp add: logon_ok_def seq_def extra_def Let_def)
  have bs: "logon_bytes stamp' peer =
      encode_message MSG_LOGON (se_sender_comp_id peer) (se_target_comp_id peer) seq (stamp' seq) extra"
    by (simp add: logon_bytes_def seq_def extra_def Let_def)
  have h': "handle wire stamp a se (message_of MSG_LOGON seq extra) [] [] = (se', out, [Status LoggedIn], Inr False)"
    by (rule h) (simp add: message_of_def)
  have "drain_loop wire stamp a (connected (logon_bytes stamp' peer) se) =
    (\<lparr>dr_parse_buf = [], dr_socket = Some out, dr_session = se', dr_events = [Status LoggedIn]\<rparr>, Inr ())"
    using drain_loop_message[OF s, of "connected (logon_bytes stamp' peer) se" seq "[]" "[]" wire stamp a se' out
        "[Status LoggedIn]" False] h' drain_loop_none[of "\<lparr>dr_parse_buf = [], dr_socket = Some out, dr_session = se',
          dr_events = [Status LoggedIn]\<rparr>" wire stamp a] find_message_Nil
    by (simp add: connected_def bs)
  then show ?thesis by (simp add: drain_parse_buf_def connected_def)
qed

text \<open>Sending several messages over the connection.\<close>

definition send_one :: "(u64 \<Rightarrow> bytes) \<Rightarrow> fix_session \<times> bytes \<Rightarrow> bytes \<times> fix_field list \<Rightarrow> fix_session \<times> bytes" where
  "send_one stamp st m = (case send wire stamp (fst st) (snd st) (fst m) (snd m) of (se, sock, _) \<Rightarrow> (se, sock))"

fun numbered :: "u64 \<Rightarrow> (bytes \<times> fix_field list) list \<Rightarrow> fix_message list" where
  "numbered seq [] = []"
| "numbered seq (m # ms) = message_of (fst m) (seq + 1) (snd m) # numbered (seq + 1) ms"

lemma send_one_eq:
  "send_one stamp (se, sock) m = (se\<lparr>se_out_seq := se_out_seq se + 1\<rparr>,
     sock @ encode_message (fst m) (se_sender_comp_id se) (se_target_comp_id se) (se_out_seq se + 1)
       (stamp (se_out_seq se + 1)) (snd m))"
  by (simp add: send_one_def send_def write_encoded_def wire_def Let_def)

lemma split_frames_Nil: "split_frames [] = ([], [])"
  by (subst split_frames.simps) (simp add: find_message_Nil)

lemma send_all_frames:
  assumes "\<forall>m \<in> set ms. \<forall>seq. sendable (fst m) (se_sender_comp_id se) (se_target_comp_id se) (stamp seq) (snd m)"
  shows "\<exists>frames. snd (foldl (send_one stamp) (se, sock) ms) = sock @ concat frames \<and>
    split_frames (concat frames) = (frames, []) \<and>
    map (build_message \<circ> decode_fields) frames = map Some (numbered (se_out_seq se) ms)"
  using assms
proof (induction ms arbitrary: se sock)
  case Nil
  then show ?case by (auto simp: split_frames_Nil intro!: exI[of _ "[]"])
next
  case (Cons m ms)
  let ?seq = "se_out_seq se + 1"
  define f where "f = encode_message (fst m) (se_sender_comp_id se) (se_target_comp_id se) ?seq (stamp ?seq) (snd m)"
  define se' where "se' = se\<lparr>se_out_seq := ?seq\<rparr>"
  have ids: "se_sender_comp_id se' = se_sender_comp_id se" "se_target_comp_id se' = se_target_comp_id se"
    "se_out_seq se' = ?seq" by (simp_all add: se'_def)
  have "\<forall>m \<in> set ms. \<forall>seq. sendable (fst m) (se_sender_comp_id se') (se_target_comp_id se') (stamp seq) (snd m)"
    using Cons.prems by (simp add: ids)
  from Cons.IH[OF this, of "sock @ f"] obtain frames where
    fr: "snd (foldl (send_one stamp) (se', sock @ f) ms) = (sock @ f) @ concat frames"
    "split_frames (concat frames) = (frames, [])"
    "map (build_message \<circ> decode_fields) frames = map Some (numbered (se_out_seq se') ms)" by blast
  have s: "sendable (fst m) (se_sender_comp_id se) (se_target_comp_id se) (stamp ?seq) (snd m)"
    using Cons.prems by simp
  have "split_frames (f @ concat frames) = (f # frames, [])"
    using split_frames_message[OF decode_frame(1)[OF s, of ?seq "concat frames"]] fr(2) by (simp add: f_def)
  moreover have "send_one stamp (se, sock) m = (se', sock @ f)" by (simp add: send_one_eq se'_def f_def)
  moreover have "build_message (decode_fields f) = Some (message_of (fst m) ?seq (snd m))"
    using decode_frame(2)[OF s, of ?seq] by (simp add: f_def)
  ultimately show ?case using fr by (intro exI[of _ "f # frames"]) (simp add: ids comp_def)
qed


section \<open>Properties\<close>

text \<open>
  C26. A receive buffer is handled message by message, in order. It may hold the encodings of any
  number of messages of any types, session and application messages mixed, and then an incomplete
  one. On a connection whose writes succeed, draining it pushes one data event with the decoded content
  for each application message and a status for each logon and logout, in the order of the messages;
  answers each test request with a heartbeat that carries its identifier and, as an acceptor, each logon
  with a logon, with consecutive sequence numbers and in order; and leaves exactly the incomplete rest.
\<close>
theorem drain_delivers_in_order:
  assumes "\<forall>sock b. snd (wr sock b) = Inr ()" "\<forall>w \<in> set ws. wire_ok s t w" "find_message rest = None"
    "dr_parse_buf st = concat (map (wire_bytes s t) ws) @ rest" "dr_socket st = Some sock"
  shows "drain_parse_buf wr stamp a st =
    (\<lparr>dr_parse_buf = rest, dr_socket = Some (snd (foldl (answered wr stamp a) (dr_session st, sock) ws)),
      dr_session = fst (foldl (answered wr stamp a) (dr_session st, sock) ws),
      dr_events = dr_events st @ concat (map events_of ws)\<rparr>, Inr (concat (map events_of ws) \<noteq> []))"
  using drain_loop_messages[OF assms, of stamp a] by (simp add: drain_parse_buf_def)

text \<open>An order, a test request, a heartbeat, an execution report and a logout.\<close>

definition sample_messages :: "wire_message list" where
  "sample_messages = [(ascii ''D'', 2, ascii ''t2'', [(55, ascii ''AAPL'')]), (MSG_TEST_REQUEST, 3, ascii ''t3'', [(TAG_TEST_REQ_ID, ascii ''x'')]),
     (MSG_HEARTBEAT, 4, ascii ''t4'', []), (ascii ''8'', 5, ascii ''t5'', []), (MSG_LOGOUT, 6, ascii ''t6'', [])]"

lemma sample_messages_ok:
  "\<forall>w \<in> set sample_messages. wire_ok (ascii ''A'') (ascii ''B'') w"
  by (simp add: sample_messages_def wire_ok_def sendable_def clean_def SOH_def ascii_def HEADER_TAGS_def fix_tag_defs
      session_tag_defs msg_type_defs)

theorem drain_delivers_in_order_witness:
  "drain_parse_buf wire (\<lambda>_. []) False
     (connected (concat (map (wire_bytes (ascii ''A'') (ascii ''B'')) sample_messages)) (session_new (ascii ''B'') (ascii ''A''))) =
   (\<lparr>dr_parse_buf = [],
     dr_socket = Some (encode_message MSG_HEARTBEAT (ascii ''B'') (ascii ''A'') 1 [] [(TAG_TEST_REQ_ID, ascii ''x'')]),
     dr_session = (session_new (ascii ''B'') (ascii ''A''))\<lparr>se_out_seq := 1\<rparr>,
     dr_events = [Data (message_of (ascii ''D'') 2 [(55, ascii ''AAPL'')]), Data (message_of (ascii ''8'') 5 []),
       Status (LoggedOut None)]\<rparr>, Inr True)"
proof -
  have lossless: "\<forall>sock b. snd (wire sock b) = Inr ()" by (simp add: wire_def)
  have ans: "foldl (answered wire (\<lambda>_. []) False) (session_new (ascii ''B'') (ascii ''A''), []) sample_messages =
      ((session_new (ascii ''B'') (ascii ''A''))\<lparr>se_out_seq := 1\<rparr>,
       encode_message MSG_HEARTBEAT (ascii ''B'') (ascii ''A'') 1 [] [(TAG_TEST_REQ_ID, ascii ''x'')])"
    by (simp add: sample_messages_def answered_def answer_to_def wire_content_def message_of_def fm_field_def find_tag_def wire_def
        session_new_def session_new_with_logon_def msg_type_defs ascii_def Let_def)
  have ev: "concat (map events_of sample_messages) = [Data (message_of (ascii ''D'') 2 [(55, ascii ''AAPL'')]),
      Data (message_of (ascii ''8'') 5 []), Status (LoggedOut None)]"
    by (simp add: sample_messages_def events_of_def application_type_def wire_content_def message_of_def fm_field_def find_tag_def
        msg_type_defs ascii_def)
  show ?thesis
    using drain_delivers_in_order[OF lossless sample_messages_ok find_message_Nil, of
        "connected (concat (map (wire_bytes (ascii ''A'') (ascii ''B'')) sample_messages)) (session_new (ascii ''B'') (ascii ''A''))" "[]"
        "\<lambda>_. []" False]
    by (simp add: connected_def ans ev)
qed

text \<open>
  The logon handshake: over a lossless connection the initiator's logon makes the acceptor
  log in and answer with a logon of its own, and the answer makes the initiator log in; each
  side has sent one message.
\<close>
lemma fix_handshake:
  assumes "logon_ok stamp_i initiator" "logon_ok stamp_a acceptor"
  shows "\<exists>initiator' acceptor' request reply.
    send_logon wire stamp_i initiator [] = (initiator', request, Inr ()) \<and>
    drain_parse_buf wire stamp_a True (connected request acceptor) =
      (\<lparr>dr_parse_buf = [], dr_socket = Some reply, dr_session = acceptor', dr_events = [Status LoggedIn]\<rparr>, Inr True) \<and>
    drain_parse_buf wire stamp_i False (connected reply initiator') =
      (\<lparr>dr_parse_buf = [], dr_socket = Some [], dr_session = initiator', dr_events = [Status LoggedIn]\<rparr>, Inr True) \<and>
    se_out_seq initiator' = se_out_seq initiator + 1 \<and> se_out_seq acceptor' = se_out_seq acceptor + 1"
proof -
  have "drain_parse_buf wire stamp_a True (connected (logon_bytes stamp_i initiator) acceptor) =
      (\<lparr>dr_parse_buf = [], dr_socket = Some (logon_bytes stamp_a acceptor),
        dr_session = acceptor\<lparr>se_out_seq := se_out_seq acceptor + 1\<rparr>, dr_events = [Status LoggedIn]\<rparr>, Inr True)"
    by (rule drain_logon[OF assms(1)]) (simp add: handle_def handle_acceptor_def send_logon_wire)
  moreover have "drain_parse_buf wire stamp_i False (connected (logon_bytes stamp_a acceptor)
        (initiator\<lparr>se_out_seq := se_out_seq initiator + 1\<rparr>)) =
      (\<lparr>dr_parse_buf = [], dr_socket = Some [],
        dr_session = initiator\<lparr>se_out_seq := se_out_seq initiator + 1\<rparr>, dr_events = [Status LoggedIn]\<rparr>, Inr True)"
    by (rule drain_logon[OF assms(2)]) (simp add: handle_def handle_initiator_def)
  ultimately show ?thesis using send_logon_wire[of stamp_i initiator "[]"] by simp
qed

lemma sample_logon_ok: "logon_ok (\<lambda>_. ascii ''now'') (session_new_with_logon (ascii ''ME'') (ascii ''YOU'') (PasswordLogon (ascii ''pw'')))"
  "logon_ok (\<lambda>_. ascii ''now'') (session_new (ascii ''YOU'') (ascii ''ME''))"
  by (simp_all add: logon_ok_def Let_def sendable_def session_new_def session_new_with_logon_def logon_fields_def
      decimal_clean)
    (simp_all add: clean_def SOH_def ascii_def HEADER_TAGS_def fix_tag_defs session_tag_defs msg_type_defs)

lemma fix_handshake_witness:
  "\<exists>initiator' acceptor' request reply.
    send_logon wire (\<lambda>_. ascii ''now'') (session_new_with_logon (ascii ''ME'') (ascii ''YOU'') (PasswordLogon (ascii ''pw''))) []
      = (initiator', request, Inr ()) \<and>
    drain_parse_buf wire (\<lambda>_. ascii ''now'') True (connected request (session_new (ascii ''YOU'') (ascii ''ME''))) =
      (\<lparr>dr_parse_buf = [], dr_socket = Some reply, dr_session = acceptor', dr_events = [Status LoggedIn]\<rparr>, Inr True)"
  using fix_handshake[OF sample_logon_ok] by blast

text \<open>
  C25. Outbound sequence numbers have no gaps: whatever is sent on a session over a lossless
  connection, the bytes on the wire split into exactly one frame per message, and the frames
  decode to the messages sent, numbered consecutively after the session's last number.
\<close>
theorem outbound_numbering:
  assumes "\<forall>m \<in> set ms. \<forall>seq. sendable (fst m) (se_sender_comp_id se) (se_target_comp_id se) (stamp seq) (snd m)"
  shows "\<exists>frames. split_frames (snd (foldl (send_one stamp) (se, []) ms)) = (frames, []) \<and>
    map (build_message \<circ> decode_fields) frames = map Some (numbered (se_out_seq se) ms)"
  using send_all_frames[OF assms, of "[]"] by auto

theorem outbound_numbering_witness:
  "\<exists>frames. split_frames (snd (foldl (send_one (\<lambda>_. [])) (session_new (ascii ''A'') (ascii ''B''), [])
      [(ascii ''D'', []), (ascii ''F'', [])])) = (frames, []) \<and>
    map (build_message \<circ> decode_fields) frames =
      [Some (message_of (ascii ''D'') 1 []), Some (message_of (ascii ''F'') 2 [])]"
  using outbound_numbering[of "[(ascii ''D'', []), (ascii ''F'', [])]" "session_new (ascii ''A'') (ascii ''B'')" "\<lambda>_. []"]
  by (simp add: session_new_def session_new_with_logon_def sendable_def clean_def SOH_def ascii_def)

text \<open>
  A test request is answered with a heartbeat that carries the same identifier and the
  session's next sequence number, in either role, and nothing reaches the application.
\<close>
lemma test_request_answered:
  assumes "sendable MSG_TEST_REQUEST s t time [(TAG_TEST_REQ_ID, i)]"
    "sendable MSG_HEARTBEAT (se_sender_comp_id se) (se_target_comp_id se) (stamp (se_out_seq se + 1)) [(TAG_TEST_REQ_ID, i)]"
  shows "\<exists>answer. drain_parse_buf wire stamp a
      (connected (encode_message MSG_TEST_REQUEST s t seq time [(TAG_TEST_REQ_ID, i)]) se) =
      (\<lparr>dr_parse_buf = [], dr_socket = Some answer, dr_session = se\<lparr>se_out_seq := se_out_seq se + 1\<rparr>, dr_events = []\<rparr>,
       Inr False) \<and>
    build_message (decode_fields answer) = Some (message_of MSG_HEARTBEAT (se_out_seq se + 1) [(TAG_TEST_REQ_ID, i)])"
proof -
  let ?se = "se\<lparr>se_out_seq := se_out_seq se + 1\<rparr>"
  let ?answer = "encode_message MSG_HEARTBEAT (se_sender_comp_id se) (se_target_comp_id se) (se_out_seq se + 1)
    (stamp (se_out_seq se + 1)) [(TAG_TEST_REQ_ID, i)]"
  let ?st = "connected (encode_message MSG_TEST_REQUEST s t seq time [(TAG_TEST_REQ_ID, i)]) se"
  have h: "handle wire stamp a se (message_of MSG_TEST_REQUEST seq [(TAG_TEST_REQ_ID, i)]) [] [] =
      (?se, ?answer, [], Inr False)"
    by (simp add: handle_def handle_initiator_def handle_acceptor_def message_of_def fm_field_def find_tag_def
        send_heartbeat_def send_def write_encoded_def wire_def Let_def msg_type_defs ascii_def)
  have "drain_loop wire stamp a ?st =
      (\<lparr>dr_parse_buf = [], dr_socket = Some ?answer, dr_session = ?se, dr_events = []\<rparr>, Inr ())"
    using drain_loop_message[OF assms(1), of ?st seq "[]" "[]" wire stamp a ?se ?answer "[]" False] h
      drain_loop_none[of "\<lparr>dr_parse_buf = [], dr_socket = Some ?answer, dr_session = ?se, dr_events = []\<rparr>" wire stamp a]
      find_message_Nil
    by (simp add: connected_def)
  then show ?thesis using decode_frame(2)[OF assms(2), of "se_out_seq se + 1"]
    by (simp add: drain_parse_buf_def connected_def)
qed

lemma test_request_answered_witness:
  "\<exists>answer. drain_parse_buf wire (\<lambda>_. []) False
      (connected (encode_message MSG_TEST_REQUEST (ascii ''A'') (ascii ''B'') 9 [] [(TAG_TEST_REQ_ID, ascii ''x'')])
        (session_new (ascii ''B'') (ascii ''A''))) =
      (\<lparr>dr_parse_buf = [], dr_socket = Some answer, dr_session = (session_new (ascii ''B'') (ascii ''A''))\<lparr>se_out_seq := 1\<rparr>,
        dr_events = []\<rparr>, Inr False) \<and>
    build_message (decode_fields answer) = Some (message_of MSG_HEARTBEAT 1 [(TAG_TEST_REQ_ID, ascii ''x'')])"
  using test_request_answered[of "ascii ''A''" "ascii ''B''" "[]" "ascii ''x''" "session_new (ascii ''B'') (ascii ''A'')"
      "\<lambda>_. []" False 9]
  by (simp add: session_new_def session_new_with_logon_def sendable_def clean_def SOH_def ascii_def HEADER_TAGS_def
      fix_tag_defs session_tag_defs msg_type_defs)

end
