(* ===== verification/Fix_Nodes.thy ===== *)
theory Fix_Nodes
  imports Fix_Session Graph_State
begin

text \<open>
  The nodes and the session thread of \<^verbatim>\<open>adapters/fix/mod.rs\<close>: the polling initiator and
  acceptor, the sender, the market-data subscriber, the session loop of the threaded source and
  the loop around it that (re)connects. What the operating system answers is an argument: the
  results of \<^verbatim>\<open>connect\<close>, \<^verbatim>\<open>bind\<close>, \<^verbatim>\<open>accept\<close> and of each \<^verbatim>\<open>read\<close>; the outbound queue and the
  channel into the graph (\<^verbatim>\<open>kanal\<close>) are given by their \<^verbatim>\<open>try_send\<close> and \<^verbatim>\<open>send\<close> operations.
\<close>

section \<open>Shared helpers\<close>

text \<open>\<^verbatim>\<open>connect_with_retry\<close>: the results of the attempts, at most twenty.\<close>

fun connect_with_retry :: "nat \<Rightarrow> (nat \<Rightarrow> anyhow + 'w) \<Rightarrow> nat \<Rightarrow> anyhow + 'w" where
  "connect_with_retry left attempt n = (case attempt n of
       Inr s \<Rightarrow> Inr s
     | Inl e \<Rightarrow> (case left of 0 \<Rightarrow> Inl e | Suc left' \<Rightarrow> connect_with_retry left' attempt (Suc n)))"

declare connect_with_retry.simps [simp del]

definition connect :: "(nat \<Rightarrow> anyhow + 'w) \<Rightarrow> anyhow + 'w" where
  "connect attempt = connect_with_retry 19 attempt 0"

text \<open>\<^verbatim>\<open>Ok(n)\<close> with its bytes (\<^verbatim>\<open>Ok(0)\<close> is the end of the stream), \<^verbatim>\<open>WouldBlock\<close>, or an error.\<close>

datatype read_result = ReadOk bytes | WouldBlock | ReadError anyhow

text \<open>The read loop of a node: \<^verbatim>\<open>true\<close> is the end of the stream. With no more results it blocks.\<close>

fun read_loop :: "read_result list \<Rightarrow> bytes \<Rightarrow> bytes \<times> (anyhow + bool)" where
  "read_loop [] buf = (buf, Inr False)"
| "read_loop (ReadOk bs # rs) buf = (if bs = [] then (buf, Inr True) else read_loop rs (buf @ bs))"
| "read_loop (WouldBlock # rs) buf = (buf, Inr False)"
| "read_loop (ReadError e # rs) buf = (buf, Inl e)"

text \<open>\<^verbatim>\<open>split_events\<close>: the two closures of the \<^verbatim>\<open>MapFilterStream\<close>s.\<close>

fun event_data :: "fix_event \<Rightarrow> fix_message option" where
  "event_data (Data m) = Some m"
| "event_data (Status s) = None"

fun event_status :: "fix_event \<Rightarrow> session_status option" where
  "event_status (Data m) = None"
| "event_status (Status s) = Some s"

definition split_data :: "fix_event list \<Rightarrow> fix_message list \<times> bool" where
  "split_data burst = (let msgs = List.map_filter event_data burst in (msgs, msgs \<noteq> []))"

definition split_status :: "fix_event list \<Rightarrow> session_status list \<times> bool" where
  "split_status burst = (let statuses = List.map_filter event_status burst in (statuses, statuses \<noteq> []))"

definition only_realtime :: anyhow where
  "only_realtime = Anyhow ''FIX nodes only support real-time mode''"

section \<open>The polling initiator\<close>

record 'w spin_source =
  sp_session :: fix_session
  sp_socket :: "'w option"
  sp_parse_buf :: bytes
  sp_value :: "fix_event list"

definition spin_source_new :: "bytes \<Rightarrow> bytes \<Rightarrow> 'w spin_source" where
  "spin_source_new sender target =
     \<lparr>sp_session = session_new sender target, sp_socket = None, sp_parse_buf = [], sp_value = []\<rparr>"

text \<open>\<open>nonblocking\<close> is the result of \<^verbatim>\<open>set_nonblocking\<close>.\<close>

definition spin_start :: "'w writer \<Rightarrow> (u64 \<Rightarrow> bytes) \<Rightarrow> run_mode \<Rightarrow> (nat \<Rightarrow> anyhow + 'w) \<Rightarrow> (anyhow + unit) \<Rightarrow>
    'w spin_source \<Rightarrow> 'w spin_source \<times> cmd list \<times> (anyhow + unit)" where
  "spin_start wr stamp mode attempt nonblocking st =
     (if mode \<noteq> RealTime then (st, [], Inl only_realtime)
      else (case connect attempt of
          Inl e \<Rightarrow> (st, [AlwaysCallback], Inl e)
        | Inr sock \<Rightarrow> (case send_logon wr stamp (sp_session st) sock of
              (se, sock', Inl e) \<Rightarrow> (st\<lparr>sp_session := se\<rparr>, [AlwaysCallback], Inl e)
            | (se, sock', Inr _) \<Rightarrow> (case nonblocking of
                  Inl e \<Rightarrow> (st\<lparr>sp_session := se\<rparr>, [AlwaysCallback], Inl e)
                | Inr _ \<Rightarrow> (st\<lparr>sp_session := se, sp_socket := Some sock',
                     sp_value := sp_value st @ [Status LoggingIn]\<rparr>, [AlwaysCallback], Inr ())))))"

definition spin_drain_state :: "'w spin_source \<Rightarrow> 'w drain_state" where
  "spin_drain_state st = \<lparr>dr_parse_buf = sp_parse_buf st, dr_socket = sp_socket st, dr_session = sp_session st,
     dr_events = sp_value st\<rparr>"

definition spin_of_drain :: "'w drain_state \<Rightarrow> 'w spin_source" where
  "spin_of_drain d = \<lparr>sp_session = dr_session d, sp_socket = dr_socket d, sp_parse_buf = dr_parse_buf d,
     sp_value = dr_events d\<rparr>"

definition drain_messages :: "'w writer \<Rightarrow> (u64 \<Rightarrow> bytes) \<Rightarrow> 'w spin_source \<Rightarrow> 'w spin_source \<times> (anyhow + bool)" where
  "drain_messages wr stamp st = (case drain_parse_buf wr stamp False (spin_drain_state st) of
     (d, r) \<Rightarrow> (spin_of_drain d, r))"

definition spin_cycle :: "'w writer \<Rightarrow> (u64 \<Rightarrow> bytes) \<Rightarrow> read_result list \<Rightarrow> 'w spin_source \<Rightarrow>
    'w spin_source \<times> (anyhow + bool)" where
  "spin_cycle wr stamp reads st0 =
     (let st = st0\<lparr>sp_value := []\<rparr> in
      case (if sp_socket st = None then (sp_parse_buf st, Inr False) else read_loop reads (sp_parse_buf st)) of
        (buf, Inl e) \<Rightarrow> (st\<lparr>sp_parse_buf := buf\<rparr>, Inl e)
      | (buf, Inr True) \<Rightarrow>
          (st\<lparr>sp_parse_buf := buf, sp_socket := None, sp_value := [Status Disconnected]\<rparr>, Inr True)
      | (buf, Inr False) \<Rightarrow> drain_messages wr stamp (st\<lparr>sp_parse_buf := buf\<rparr>))"

text \<open>The result of the logout is ignored.\<close>

definition spin_stop :: "'w writer \<Rightarrow> (u64 \<Rightarrow> bytes) \<Rightarrow> 'w spin_source \<Rightarrow> 'w spin_source \<times> 'w option" where
  "spin_stop wr stamp st = (case sp_socket st of
       None \<Rightarrow> (st, None)
     | Some sock \<Rightarrow> (case send_logout wr stamp (sp_session st) sock of
           (se, sock', _) \<Rightarrow> (st\<lparr>sp_session := se, sp_socket := None\<rparr>, Some sock')))"

section \<open>The polling acceptor\<close>

record 'w acceptor_spin =
  ac_session :: fix_session
  ac_listening :: bool
  ac_socket :: "'w option"
  ac_parse_buf :: bytes
  ac_value :: "fix_event list"

definition acceptor_spin_new :: "bytes \<Rightarrow> bytes \<Rightarrow> 'w acceptor_spin" where
  "acceptor_spin_new sender target = \<lparr>ac_session = session_new sender target, ac_listening = False,
     ac_socket = None, ac_parse_buf = [], ac_value = []\<rparr>"

text \<open>\<open>bound\<close> is the result of \<^verbatim>\<open>bind\<close> and \<^verbatim>\<open>set_nonblocking\<close>.\<close>

definition acceptor_start :: "run_mode \<Rightarrow> (anyhow + unit) \<Rightarrow> 'w acceptor_spin \<Rightarrow>
    'w acceptor_spin \<times> cmd list \<times> (anyhow + unit)" where
  "acceptor_start mode bound st =
     (if mode \<noteq> RealTime then (st, [], Inl only_realtime)
      else (case bound of
          Inl e \<Rightarrow> (st, [AlwaysCallback], Inl e)
        | Inr _ \<Rightarrow> (st\<lparr>ac_listening := True\<rparr>, [AlwaysCallback], Inr ())))"

datatype 'w accept_result = Accepted 'w | NoConnection | AcceptError anyhow

text \<open>The accept phase: the state after it and whether a connection came in.\<close>

definition accept_phase :: "'w accept_result \<Rightarrow> 'w acceptor_spin \<Rightarrow> 'w acceptor_spin \<times> (anyhow + bool)" where
  "accept_phase acc st =
     (if ac_socket st = None \<and> ac_listening st then (case acc of
          Accepted s \<Rightarrow> (st\<lparr>ac_socket := Some s, ac_value := ac_value st @ [Status LoggingIn]\<rparr>, Inr True)
        | NoConnection \<Rightarrow> (st, Inr False)
        | AcceptError e \<Rightarrow> (st, Inl e))
      else (st, Inr False))"

definition acceptor_cycle :: "'w writer \<Rightarrow> (u64 \<Rightarrow> bytes) \<Rightarrow> 'w accept_result \<Rightarrow> read_result list \<Rightarrow>
    'w acceptor_spin \<Rightarrow> 'w acceptor_spin \<times> (anyhow + bool)" where
  "acceptor_cycle wr stamp acc reads st0 = (case accept_phase acc (st0\<lparr>ac_value := []\<rparr>) of
       (st, Inl e) \<Rightarrow> (st, Inl e)
     | (st, Inr accepted) \<Rightarrow>
         (case (if ac_socket st = None then (ac_parse_buf st, Inr False) else read_loop reads (ac_parse_buf st)) of
            (buf, Inl e) \<Rightarrow> (st\<lparr>ac_parse_buf := buf\<rparr>, Inl e)
          | (buf, Inr eof) \<Rightarrow>
              (let d = \<lparr>dr_parse_buf = buf, dr_socket = (if eof then None else ac_socket st),
                     dr_session = ac_session st,
                     dr_events = ac_value st @ (if eof then [Status Disconnected] else [])\<rparr>
               in case drain_parse_buf wr stamp True d of (d', r) \<Rightarrow>
                 (st\<lparr>ac_session := dr_session d', ac_socket := dr_socket d', ac_parse_buf := dr_parse_buf d',
                     ac_value := dr_events d'\<rparr>,
                  case r of Inl e \<Rightarrow> Inl e | Inr msg_ticked \<Rightarrow> Inr (accepted \<or> eof \<or> msg_ticked)))))"

definition acceptor_stop :: "'w writer \<Rightarrow> (u64 \<Rightarrow> bytes) \<Rightarrow> 'w acceptor_spin \<Rightarrow> 'w acceptor_spin \<times> 'w option" where
  "acceptor_stop wr stamp st = (case ac_socket st of
       None \<Rightarrow> (st, None)
     | Some sock \<Rightarrow> (case send_logout wr stamp (ac_session st) sock of
           (se, sock', _) \<Rightarrow> (st\<lparr>ac_session := se, ac_socket := None\<rparr>, Some sock')))"

section \<open>The sender\<close>

record 'w sender_node =
  sn_session :: fix_session
  sn_socket :: "'w option"
  sn_parse_buf :: bytes

definition sender_start :: "'w writer \<Rightarrow> (u64 \<Rightarrow> bytes) \<Rightarrow> run_mode \<Rightarrow> (nat \<Rightarrow> anyhow + 'w) \<Rightarrow> (anyhow + unit) \<Rightarrow>
    'w sender_node \<Rightarrow> 'w sender_node \<times> (anyhow + unit)" where
  "sender_start wr stamp mode attempt nonblocking st =
     (if mode \<noteq> RealTime then (st, Inl only_realtime)
      else (case connect attempt of
          Inl e \<Rightarrow> (st, Inl e)
        | Inr sock \<Rightarrow> (case send_logon wr stamp (sn_session st) sock of
              (se, sock', Inl e) \<Rightarrow> (st\<lparr>sn_session := se\<rparr>, Inl e)
            | (se, sock', Inr _) \<Rightarrow> (case nonblocking of
                  Inl e \<Rightarrow> (st\<lparr>sn_session := se\<rparr>, Inl e)
                | Inr _ \<Rightarrow> (st\<lparr>sn_session := se, sn_socket := Some sock'\<rparr>, Inr ())))))"

text \<open>A read error counts as a lost connection here.\<close>

definition sender_cycle :: "'w writer \<Rightarrow> (u64 \<Rightarrow> bytes) \<Rightarrow> read_result list \<Rightarrow> fix_message \<Rightarrow> 'w sender_node \<Rightarrow>
    'w sender_node \<times> (anyhow + bool)" where
  "sender_cycle wr stamp reads msg st =
     (let (buf, sock) = (case sn_socket st of
            None \<Rightarrow> (sn_parse_buf st, None)
          | Some s \<Rightarrow> (case read_loop reads (sn_parse_buf st) of
                (buf, Inr False) \<Rightarrow> (buf, Some s) | (buf, _) \<Rightarrow> (buf, None)))
      in case drain_parse_buf wr stamp False
           \<lparr>dr_parse_buf = buf, dr_socket = sock, dr_session = sn_session st, dr_events = []\<rparr> of
        (d, r) \<Rightarrow>
          (let st' = st\<lparr>sn_session := dr_session d, sn_socket := None, sn_parse_buf := dr_parse_buf d\<rparr> in
           case r of
             Inl e \<Rightarrow> (st', Inl e)
           | Inr _ \<Rightarrow> (case dr_socket d of
                 None \<Rightarrow> (st', Inl (Anyhow ''FIX sender: connection lost''))
               | Some s \<Rightarrow> (case send wr stamp (sn_session st') s (fm_msg_type msg) (fm_fields msg) of
                     (se, s', Inl e) \<Rightarrow> (st'\<lparr>sn_session := se\<rparr>, Inl e)
                   | (se, s', Inr _) \<Rightarrow> (st'\<lparr>sn_session := se, sn_socket := Some s'\<rparr>, Inr True)))))"

definition sender_stop :: "'w writer \<Rightarrow> (u64 \<Rightarrow> bytes) \<Rightarrow> 'w sender_node \<Rightarrow> 'w sender_node \<times> 'w option" where
  "sender_stop wr stamp st = (case sn_socket st of
       None \<Rightarrow> (st, None)
     | Some sock \<Rightarrow> (case send_logout wr stamp (sn_session st) sock of
           (se, sock', _) \<Rightarrow> (st\<lparr>sn_session := se, sn_socket := None\<rparr>, Some sock')))"

section \<open>Queueing outbound messages\<close>

datatype send_error = QueueFull | Closed

text \<open>\<^verbatim>\<open>try_send\<close> of the queue: \<open>None\<close> for a closed queue, else whether there was room.\<close>

type_synonym 'q try_send = "fix_message \<Rightarrow> 'q \<Rightarrow> 'q \<times> bool option"

definition sender_send :: "'q try_send \<Rightarrow> fix_message \<Rightarrow> 'q \<Rightarrow> 'q \<times> (send_error + unit)" where
  "sender_send try_send msg q = (case try_send msg q of
       (q', Some True) \<Rightarrow> (q', Inr ()) | (q', Some False) \<Rightarrow> (q', Inl QueueFull) | (q', None) \<Rightarrow> (q', Inl Closed))"

definition send_or_log :: "'q try_send \<Rightarrow> fix_message \<Rightarrow> 'q \<Rightarrow> 'q" where
  "send_or_log try_send msg q = fst (sender_send try_send msg q)"

section \<open>The market-data subscriber\<close>

definition market_data_request :: "bytes \<Rightarrow> bytes \<Rightarrow> fix_message" where
  "market_data_request symbol req_id = \<lparr>fm_msg_type = ascii ''V'', fm_seq_num = 0, fm_sending_time = nano_zero,
     fm_fields = [(262, req_id), (263, ascii ''1''), (264, ascii ''1''), (265, ascii ''0''), (267, ascii ''2''),
       (269, ascii ''0''), (269, ascii ''1''), (146, ascii ''1''), (48, symbol), (22, ascii ''8'')]\<rparr>"

record sub_node =
  su_pending :: "bytes list"
  su_sent :: "bytes list"
  su_logged_in :: bool

definition sub_new :: sub_node where
  "sub_new = \<lparr>su_pending = [], su_sent = [], su_logged_in = False\<rparr>"

definition subscribe :: "'q try_send \<Rightarrow> bytes \<Rightarrow> sub_node \<times> 'q \<Rightarrow> sub_node \<times> 'q" where
  "subscribe try_send symb s = (case s of (st, q) \<Rightarrow>
     (let req_id = ascii ''sub_'' @ decimal (length (su_sent st)) @ ascii ''_'' @ symb in
      (st\<lparr>su_sent := su_sent st @ [symb]\<rparr>, send_or_log try_send (market_data_request symb req_id) q)))"

definition take_symbol :: "'q try_send \<Rightarrow> bytes \<Rightarrow> sub_node \<times> 'q \<Rightarrow> sub_node \<times> 'q" where
  "take_symbol try_send symb s =
     (if symb \<notin> set (su_sent (fst s)) \<and> symb \<notin> set (su_pending (fst s)) then
        (if su_logged_in (fst s) then subscribe try_send symb s
         else ((fst s)\<lparr>su_pending := su_pending (fst s) @ [symb]\<rparr>, snd s))
      else s)"

definition subscribe_unsent :: "'q try_send \<Rightarrow> bytes \<Rightarrow> sub_node \<times> 'q \<Rightarrow> sub_node \<times> 'q" where
  "subscribe_unsent try_send symb s = (if symb \<notin> set (su_sent (fst s)) then subscribe try_send symb s else s)"

definition sub_cycle :: "'q try_send \<Rightarrow> session_status list \<Rightarrow> bytes list \<Rightarrow> sub_node \<times> 'q \<Rightarrow> (sub_node \<times> 'q) \<times> bool" where
  "sub_cycle try_send statuses symbols s =
     (let (st, q) = s;
          st1 = (if LoggedIn \<in> set statuses then st\<lparr>su_logged_in := True\<rparr> else st);
          s2 = fold (take_symbol try_send) symbols (st1, q);
          s3 = (if su_logged_in (fst s2) \<and> su_pending (fst s2) \<noteq> []
                then fold (subscribe_unsent try_send) (su_pending (fst s2)) ((fst s2)\<lparr>su_pending := []\<rparr>, snd s2)
                else s2)
      in (s3, False))"

section \<open>The session thread\<close>

text \<open>\<^verbatim>\<open>chan.send_message\<close>: the channel after it, and whether it is still open.\<close>

type_synonym 'c chan_send = "fix_event \<Rightarrow> 'c \<Rightarrow> 'c \<times> bool"

fun send_events :: "'c chan_send \<Rightarrow> fix_event list \<Rightarrow> 'c \<Rightarrow> 'c \<times> bool" where
  "send_events csend [] c = (c, True)"
| "send_events csend (e # es) c = (case csend e c of (c', ok) \<Rightarrow> if ok then send_events csend es c' else (c', False))"

text \<open>Messages taken off the inject queue, sent one after the other; stops at the first failure.\<close>

fun flush_injected :: "'w writer \<Rightarrow> (u64 \<Rightarrow> bytes) \<Rightarrow> fix_message list \<Rightarrow> fix_session \<Rightarrow> 'w \<Rightarrow> fix_session \<times> 'w \<times> bool" where
  "flush_injected wr stamp [] se sock = (se, sock, True)"
| "flush_injected wr stamp (m # ms) se sock = (case send wr stamp se sock (fm_msg_type m) (fm_fields m) of
       (se', sock', Inl _) \<Rightarrow> (se', sock', False)
     | (se', sock', Inr _) \<Rightarrow> flush_injected wr stamp ms se' sock')"

record ('w, 'c) session_vars =
  sl_sock :: "'w option"
  sl_session :: fix_session
  sl_parse_buf :: bytes
  sl_chan :: 'c

text \<open>What happens around one iteration: the read, and the messages queued by then.\<close>

record session_input =
  si_read :: read_result
  si_injected :: "fix_message list"

text \<open>One iteration: \<open>Inl b\<close> is \<^verbatim>\<open>return b\<close>.\<close>

definition session_step :: "'w writer \<Rightarrow> (u64 \<Rightarrow> bytes) \<Rightarrow> 'c chan_send \<Rightarrow> bool \<Rightarrow> session_input \<Rightarrow>
    ('w, 'c) session_vars \<Rightarrow> bool \<times> 'c + ('w, 'c) session_vars" where
  "session_step wr stamp csend is_acceptor inp st = (case sl_sock st of
       None \<Rightarrow> Inl (True, sl_chan st)
     | Some sock \<Rightarrow>
         (if (case si_read inp of ReadOk bs \<Rightarrow> bs = [] | WouldBlock \<Rightarrow> False | ReadError _ \<Rightarrow> True)
          then Inl (True, sl_chan st)
          else
            (let bs = (case si_read inp of ReadOk bs \<Rightarrow> bs | _ \<Rightarrow> []);
                 d = \<lparr>dr_parse_buf = sl_parse_buf st @ bs, dr_socket = Some sock, dr_session = sl_session st, dr_events = []\<rparr>;
                 (d', r) = (if bs \<noteq> [] then drain_parse_buf wr stamp is_acceptor d else (d, Inr False))
             in if isl r then Inl (True, sl_chan st)
                else (case dr_socket d' of
                    None \<Rightarrow> (case send_events csend (dr_events d') (sl_chan st) of
                        (c, False) \<Rightarrow> Inl (False, c)
                      | (c, True) \<Rightarrow> Inr \<lparr>sl_sock = None, sl_session = dr_session d', sl_parse_buf = dr_parse_buf d', sl_chan = c\<rparr>)
                  | Some s \<Rightarrow> (case flush_injected wr stamp (si_injected inp) (dr_session d') s of
                        (se, s', False) \<Rightarrow> Inl (True, sl_chan st)
                      | (se, s', True) \<Rightarrow> (case send_events csend (dr_events d') (sl_chan st) of
                            (c, False) \<Rightarrow> Inl (False, c)
                          | (c, True) \<Rightarrow> Inr \<lparr>sl_sock = Some s', sl_session = se, sl_parse_buf = dr_parse_buf d', sl_chan = c\<rparr>))))))"

text \<open>The loop over the inputs; \<open>None\<close> when it has not returned by the end of them.\<close>

fun session_loop :: "'w writer \<Rightarrow> (u64 \<Rightarrow> bytes) \<Rightarrow> 'c chan_send \<Rightarrow> bool \<Rightarrow> session_input list \<Rightarrow>
    ('w, 'c) session_vars \<Rightarrow> (bool \<times> 'c) option" where
  "session_loop wr stamp csend is_acceptor [] st = None"
| "session_loop wr stamp csend is_acceptor (inp # inps) st = (case session_step wr stamp csend is_acceptor inp st of
       Inl r \<Rightarrow> Some r
     | Inr st' \<Rightarrow> session_loop wr stamp csend is_acceptor inps st')"

definition run_fix_session :: "'w writer \<Rightarrow> (u64 \<Rightarrow> bytes) \<Rightarrow> 'c chan_send \<Rightarrow> bool \<Rightarrow> session_input list \<Rightarrow>
    fix_session \<Rightarrow> 'w \<Rightarrow> 'c \<Rightarrow> (bool \<times> 'c) option" where
  "run_fix_session wr stamp csend is_acceptor inps session sock chan =
     (case csend (Status LoggingIn) chan of
        (c, False) \<Rightarrow> Some (False, c)
      | (c, True) \<Rightarrow>
          (if is_acceptor then session_loop wr stamp csend is_acceptor inps
             \<lparr>sl_sock = Some sock, sl_session = session, sl_parse_buf = [], sl_chan = c\<rparr>
           else (case send_logon wr stamp session sock of
               (se, sock', Inl e) \<Rightarrow> Some (True, fst (csend (Status (StatusError e)) c))
             | (se, sock', Inr _) \<Rightarrow> session_loop wr stamp csend is_acceptor inps
                 \<lparr>sl_sock = Some sock', sl_session = se, sl_parse_buf = [], sl_chan = c\<rparr>)))"

text \<open>
  One round of the thread of \<^verbatim>\<open>FixThreadedSource::setup\<close>: the stop flag, the connection attempts
  (or the bound listener and its polls), \<^verbatim>\<open>try_clone\<close>, the TLS wrapping, and what happens in the
  session.
\<close>

record 'w attempt =
  at_stop :: bool
  at_connects :: "nat \<Rightarrow> anyhow + 'w"
  at_bound :: "anyhow + unit"
  at_polls :: "('w accept_result \<times> bool) list"
  at_clone :: "anyhow + unit"
  at_tls :: "anyhow + 'w"
  at_inputs :: "session_input list"

text \<open>
  The accept loop of an acceptor: the polls of the listener, each with the stop flag read after
  it; \<open>None\<close> while it is waiting.
\<close>

fun accept_loop :: "('w accept_result \<times> bool) list \<Rightarrow> (anyhow + 'w) option" where
  "accept_loop [] = None"
| "accept_loop ((Accepted s, _) # ps) = Some (Inr s)"
| "accept_loop ((NoConnection, stop) # ps) = (if stop then Some (Inl (Anyhow ''stop requested'')) else accept_loop ps)"
| "accept_loop ((AcceptError e, _) # ps) = Some (Inl e)"

definition round_socket :: "bool \<Rightarrow> 'w attempt \<Rightarrow> (anyhow + 'w) option" where
  "round_socket is_acceptor at =
     (if is_acceptor then (case at_bound at of Inl e \<Rightarrow> Some (Inl e) | Inr _ \<Rightarrow> accept_loop (at_polls at))
      else Some (connect (at_connects at)))"

datatype 'c round = Break 'c | Continue 'c | StillRunning

text \<open>A failed round reports the error; an acceptor tries again, an initiator gives up.\<close>

definition failed_round :: "'c chan_send \<Rightarrow> bool \<Rightarrow> anyhow \<Rightarrow> 'c \<Rightarrow> 'c round" where
  "failed_round csend is_acceptor e c = (case csend (Status (StatusError e)) c of
     (c', ok) \<Rightarrow> if ok \<and> is_acceptor then Continue c' else Break c')"

definition thread_round :: "'w writer \<Rightarrow> (u64 \<Rightarrow> bytes) \<Rightarrow> 'c chan_send \<Rightarrow> bool \<Rightarrow> bool \<Rightarrow> fix_session \<Rightarrow> 'w attempt \<Rightarrow>
    'c \<Rightarrow> 'c round" where
  "thread_round wr stamp csend is_acceptor tls session at c =
     (if at_stop at then Break c
      else (case round_socket is_acceptor at of
          None \<Rightarrow> StillRunning
        | Some (Inl e) \<Rightarrow> failed_round csend is_acceptor e c
        | Some (Inr sock) \<Rightarrow> (case at_clone at of
              Inl e \<Rightarrow> failed_round csend is_acceptor e c
            | Inr _ \<Rightarrow> (case (if tls then at_tls at else Inr sock) of
                  Inl e \<Rightarrow> failed_round csend is_acceptor e c
                | Inr stream \<Rightarrow> (case run_fix_session wr stamp csend is_acceptor (at_inputs at) session stream c of
                      None \<Rightarrow> StillRunning
                    | Some (False, c') \<Rightarrow> Break c'
                    | Some (True, c') \<Rightarrow> (case csend (Status Disconnected) c' of
                          (c'', ok) \<Rightarrow> if ok then Continue c'' else Break c''))))))"

text \<open>The rounds one after the other, until the thread ends; \<open>None\<close> while it is running.\<close>

fun thread_loop :: "'w writer \<Rightarrow> (u64 \<Rightarrow> bytes) \<Rightarrow> 'c chan_send \<Rightarrow> bool \<Rightarrow> bool \<Rightarrow> fix_session \<Rightarrow> 'w attempt list \<Rightarrow>
    'c \<Rightarrow> 'c option" where
  "thread_loop wr stamp csend is_acceptor tls session [] c = None"
| "thread_loop wr stamp csend is_acceptor tls session (at # ats) c =
     (case thread_round wr stamp csend is_acceptor tls session at c of
        Break c' \<Rightarrow> Some c'
      | Continue c' \<Rightarrow> thread_loop wr stamp csend is_acceptor tls session ats c'
      | StillRunning \<Rightarrow> None)"

section \<open>Lost input\<close>

lemma drain_loop_no_socket:
  assumes "dr_socket st = None"
  shows "drain_loop wr stamp a st = (st\<lparr>dr_parse_buf := snd (split_frames (dr_parse_buf st))\<rparr>, Inr ())"
  using assms
proof (induction wr stamp a st rule: drain_loop.induct)
  case (1 wr stamp a st)
  show ?case
  proof (cases "find_message (dr_parse_buf st)")
    case None
    then show ?thesis by (simp add: drain_loop_none split_frames.simps[of "dr_parse_buf st"])
  next
    case (Some p)
    obtain m n where p: "p = (m, n)" by (cases p)
    let ?st = "st\<lparr>dr_parse_buf := drop n (dr_parse_buf st)\<rparr>"
    have d: "dispatch wr stamp a m ?st = (?st, Inr ())"
      using 1(2) by (simp add: dispatch_def split: option.splits)
    have "drain_loop wr stamp a ?st = (?st\<lparr>dr_parse_buf := snd (split_frames (dr_parse_buf ?st))\<rparr>, Inr ())"
      using 1(1)[OF Some p[symmetric] refl] d 1(2) by simp
    then show ?thesis using Some p d split_frames_message[of "dr_parse_buf st" m n]
      by (simp add: drain_loop.simps[of wr stamp a st] Let_def)
  qed
qed

lemma spin_cycle_forgets: "spin_cycle wr stamp reads (st\<lparr>sp_value := v\<rparr>) = spin_cycle wr stamp reads st"
  by (simp add: spin_cycle_def Let_def)

section \<open>Subscriptions\<close>

definition record_all :: "fix_message list try_send" where
  "record_all m q = (q @ [m], Some True)"

definition request :: "nat \<Rightarrow> bytes \<Rightarrow> fix_message" where
  "request i symb = market_data_request symb (ascii ''sub_'' @ decimal i @ ascii ''_'' @ symb)"

fun requests :: "bytes list \<Rightarrow> fix_message list" where
  "requests ss = map2 request [0 ..< length ss] ss"

definition sub_run :: "(session_status list \<times> bytes list) list \<Rightarrow> sub_node \<times> fix_message list \<Rightarrow> sub_node \<times> fix_message list" where
  "sub_run inps s = foldl (\<lambda>s i. fst (sub_cycle record_all (fst i) (snd i) s)) s inps"

definition sub_inv :: "bytes set \<Rightarrow> sub_node \<times> fix_message list \<Rightarrow> bool" where
  "sub_inv S s \<longleftrightarrow> snd s = requests (su_sent (fst s)) \<and> distinct (su_sent (fst s)) \<and> distinct (su_pending (fst s)) \<and>
     set (su_sent (fst s)) \<inter> set (su_pending (fst s)) = {} \<and> set (su_sent (fst s)) \<union> set (su_pending (fst s)) = S"

lemma subscribe_record:
  "subscribe record_all symb (st, q) = (st\<lparr>su_sent := su_sent st @ [symb]\<rparr>, q @ [request (length (su_sent st)) symb])"
  by (simp add: subscribe_def send_or_log_def sender_send_def record_all_def request_def Let_def)

lemma requests_snoc: "requests (ss @ [x]) = requests ss @ [request (length ss) x]"
  by simp

lemma take_symbol_inv:
  assumes "sub_inv S s"
  shows "sub_inv (insert x S) (take_symbol record_all x s) \<and>
    su_logged_in (fst (take_symbol record_all x s)) = su_logged_in (fst s)"
  using assms
  by (cases s) (auto simp: sub_inv_def take_symbol_def subscribe_record requests_snoc simp del: requests.simps)

lemma take_symbols_inv:
  "sub_inv S s \<Longrightarrow> sub_inv (S \<union> set xs) (fold (take_symbol record_all) xs s) \<and>
    su_logged_in (fst (fold (take_symbol record_all) xs s)) = su_logged_in (fst s)"
proof (induction xs arbitrary: S s)
  case (Cons x xs)
  from Cons.IH[of "insert x S" "take_symbol record_all x s"] take_symbol_inv[OF Cons.prems, of x]
  show ?case by (simp add: Un_insert_left)
qed simp

lemma subscribe_pending_inv:
  assumes "sub_inv S (st\<lparr>su_pending := xs\<rparr>, q)"
  shows "sub_inv S (fold (subscribe_unsent record_all) xs (st\<lparr>su_pending := []\<rparr>, q)) \<and>
    su_pending (fst (fold (subscribe_unsent record_all) xs (st\<lparr>su_pending := []\<rparr>, q))) = [] \<and>
    su_logged_in (fst (fold (subscribe_unsent record_all) xs (st\<lparr>su_pending := []\<rparr>, q))) = su_logged_in st"
  using assms
proof (induction xs arbitrary: st q)
  case (Cons x xs)
  let ?st = "st\<lparr>su_sent := su_sent st @ [x]\<rparr>"
  let ?q = "q @ [request (length (su_sent st)) x]"
  have "x \<notin> set (su_sent st)" using Cons.prems by (auto simp: sub_inv_def)
  then have s: "subscribe_unsent record_all x (st\<lparr>su_pending := []\<rparr>, q) = (?st\<lparr>su_pending := []\<rparr>, ?q)"
    by (simp add: subscribe_unsent_def subscribe_record)
  have "sub_inv S (?st\<lparr>su_pending := xs\<rparr>, ?q)"
    using Cons.prems by (auto simp: sub_inv_def requests_snoc simp del: requests.simps)
  from Cons.IH[OF this] s show ?case by simp
qed (simp add: sub_inv_def)

lemma sub_cycle_inv:
  assumes "sub_inv S s"
  shows "sub_inv (S \<union> set symbols) (fst (sub_cycle record_all statuses symbols s)) \<and>
    (let s' = fst (sub_cycle record_all statuses symbols s) in
     su_logged_in (fst s') = (su_logged_in (fst s) \<or> LoggedIn \<in> set statuses) \<and>
     (su_logged_in (fst s') \<longrightarrow> su_pending (fst s') = []))"
proof -
  obtain st q where s: "s = (st, q)" by (cases s)
  define st1 where "st1 = (if LoggedIn \<in> set statuses then st\<lparr>su_logged_in := True\<rparr> else st)"
  define s2 where "s2 = fold (take_symbol record_all) symbols (st1, q)"
  have "sub_inv S (st1, q)" using assms by (auto simp: s st1_def sub_inv_def)
  from take_symbols_inv[OF this, of symbols] have s2: "sub_inv (S \<union> set symbols) s2" "su_logged_in (fst s2) = su_logged_in st1"
    by (simp_all add: s2_def)
  have cyc: "fst (sub_cycle record_all statuses symbols s) =
      (if su_logged_in (fst s2) \<and> su_pending (fst s2) \<noteq> []
       then fold (subscribe_unsent record_all) (su_pending (fst s2)) ((fst s2)\<lparr>su_pending := []\<rparr>, snd s2) else s2)"
    by (simp add: sub_cycle_def s Let_def st1_def s2_def)
  have "sub_inv (S \<union> set symbols) ((fst s2)\<lparr>su_pending := su_pending (fst s2)\<rparr>, snd s2)" using s2(1) by simp
  note pend = subscribe_pending_inv[OF this]
  have li: "su_logged_in st1 = (su_logged_in (fst s) \<or> LoggedIn \<in> set statuses)" by (simp add: st1_def s)
  show ?thesis
  proof (cases "su_logged_in (fst s2) \<and> su_pending (fst s2) \<noteq> []")
    case True
    with cyc pend s2(2) li show ?thesis by (simp add: Let_def)
  next
    case False
    with cyc s2 li show ?thesis by (auto simp: Let_def)
  qed
qed

lemma sub_run_inv:
  assumes "sub_inv S s" "su_logged_in (fst s) \<Longrightarrow> su_pending (fst s) = []"
  shows "sub_inv (S \<union> (\<Union>i \<in> set inps. set (snd i))) (sub_run inps s) \<and>
    (su_logged_in (fst s) \<or> (\<exists>i \<in> set inps. LoggedIn \<in> set (fst i)) \<longrightarrow> su_pending (fst (sub_run inps s)) = [])"
  using assms
proof (induction inps arbitrary: S s)
  case Nil
  then show ?case by (simp add: sub_run_def)
next
  case (Cons i inps)
  let ?s = "fst (sub_cycle record_all (fst i) (snd i) s)"
  note c = sub_cycle_inv[OF Cons.prems(1), of "snd i" "fst i"]
  have run: "sub_run (i # inps) s = sub_run inps ?s" by (simp add: sub_run_def)
  from Cons.IH[of "S \<union> set (snd i)" ?s] c show ?case
    unfolding run by (auto simp: Let_def Un_assoc)
qed


section \<open>Properties\<close>

text \<open>
  Market-data subscriptions: over any sequence of cycles, with a queue that accepts
  everything, each symbol is requested at most once, the requests are those of the symbols in
  \<open>su_sent\<close> in order with consecutive request numbers, every symbol received is requested or
  waits for the logon, and after the first logon none waits.
\<close>
lemma subscriptions_exactly_once:
  "case sub_run inps (sub_new, []) of (st, q) \<Rightarrow>
     q = requests (su_sent st) \<and> distinct (su_sent st) \<and>
     set (su_sent st) \<union> set (su_pending st) = (\<Union>i \<in> set inps. set (snd i)) \<and>
     ((\<exists>i \<in> set inps. LoggedIn \<in> set (fst i)) \<longrightarrow> su_pending st = [])"
proof -
  have "sub_inv {} (sub_new, [])" by (simp add: sub_inv_def sub_new_def)
  from sub_run_inv[OF this, of inps] show ?thesis
    by (auto simp: sub_inv_def sub_new_def split: prod.splits)
qed

lemma subscriptions_exactly_once_witness:
  "case sub_run [([], [ascii ''X'']), ([LoggedIn], [ascii ''Y'', ascii ''X''])] (sub_new, []) of (st, q) \<Rightarrow>
     q = requests (su_sent st) \<and> su_pending st = []"
  using subscriptions_exactly_once[of "[([], [ascii ''X'']), ([LoggedIn], [ascii ''Y'', ascii ''X''])]"]
  by (simp split: prod.splits)

text \<open>
  A new logon does not renew subscriptions: once a symbol has been requested, no later
  cycle requests it again, not even one that reports a logon on a new connection.
\<close>
lemma relogin_does_not_resubscribe:
  assumes "set symbols \<subseteq> set (su_sent st)" "su_pending st = []"
  shows "snd (fst (sub_cycle try_send statuses symbols (st, q))) = q \<and>
    su_sent (fst (fst (sub_cycle try_send statuses symbols (st, q)))) = su_sent st"
proof -
  have "fold (take_symbol try_send) symbols (st', q) = (st', q)" if "su_sent st' = su_sent st" for st'
    using assms(1) by (induction symbols) (auto simp: take_symbol_def that)
  then show ?thesis using assms(2) by (simp add: sub_cycle_def Let_def)
qed

lemma relogin_does_not_resubscribe_witness:
  "snd (fst (sub_cycle record_all [LoggedIn] [ascii ''X''] (sub_new\<lparr>su_sent := [ascii ''X''], su_logged_in := True\<rparr>, []))) = []"
  using relogin_does_not_resubscribe[of "[ascii ''X'']" "sub_new\<lparr>su_sent := [ascii ''X''], su_logged_in := True\<rparr>" record_all "[LoggedIn]" "[]"]
  by (simp add: sub_new_def)

text \<open>
  C27. Messages that arrive together with the end of the stream are lost: the polling initiator
  emits only the disconnect in that cycle, and its next cycle consumes every complete message
  of the buffer without emitting anything.
\<close>
theorem messages_before_eof_lost:
  assumes "sp_socket st = Some s" "read_loop reads (sp_parse_buf st) = (buf, Inr True)"
  shows "\<exists>st'. spin_cycle wr stamp reads st = (st', Inr True) \<and> sp_value st' = [Status Disconnected] \<and>
    (\<exists>st''. spin_cycle wr stamp reads' st' = (st'', Inr False) \<and> sp_value st'' = [] \<and>
       sp_parse_buf st'' = snd (split_frames buf))"
  using assms
  by (simp add: spin_cycle_def drain_messages_def drain_parse_buf_def spin_drain_state_def spin_of_drain_def
      drain_loop_no_socket Let_def)

theorem messages_before_eof_lost_witness:
  "\<exists>st'. spin_cycle wire (\<lambda>_. []) [ReadOk (encode_message (ascii ''D'') [] [] 1 [] []), ReadOk []]
      ((spin_source_new [] [])\<lparr>sp_socket := Some []\<rparr>) = (st', Inr True) \<and> sp_value st' = [Status Disconnected]"
proof -
  let ?st = "(spin_source_new [] [])\<lparr>sp_socket := Some ([] :: bytes)\<rparr>"
  let ?reads = "[ReadOk (encode_message (ascii ''D'') [] [] 1 [] []), ReadOk []]"
  have "encode_message (ascii ''D'') [] [] 1 [] [] \<noteq> []"
    by (simp add: encode_message_def append_field_def Let_def)
  then have "sp_socket ?st = Some []" "read_loop ?reads (sp_parse_buf ?st) =
      (encode_message (ascii ''D'') [] [] 1 [] [], Inr True)"
    by (simp_all add: spin_source_new_def)
  from messages_before_eof_lost[OF this, of wire "\<lambda>_. []" "[]"] show ?thesis by blast
qed

text \<open>
  The session thread ends with the graph: when the channel into the graph is closed, the
  round in progress is the last one, whatever the network does, once the round is past waiting
  for a connection.
\<close>
lemma thread_ends_when_channel_closed:
  assumes "\<forall>e c. \<not> snd (csend e c)" "round_socket is_acceptor at \<noteq> None"
  shows "\<exists>c'. thread_loop wr stamp csend is_acceptor tls session (at # ats) c = Some c'"
proof -
  have no: "snd (csend e c) = False" for e c using assms by simp
  have f: "failed_round csend a e c = Break (fst (csend (Status (StatusError e)) c))" for a e c
    by (simp add: failed_round_def no split: prod.splits) (metis no snd_conv)
  have r: "run_fix_session wr stamp csend is_acceptor inps session sock c = Some (False, fst (csend (Status LoggingIn) c))"
    for inps sock c by (cases "csend (Status LoggingIn) c") (use no[of "Status LoggingIn" c] in \<open>simp add: run_fix_session_def\<close>)
  have "\<exists>c'. thread_round wr stamp csend is_acceptor tls session at c = Break c'"
    using assms(2) by (auto simp: thread_round_def f r split: sum.splits)
  then show ?thesis by auto
qed

lemma thread_ends_when_channel_closed_witness:
  "\<exists>c'. thread_loop wire (\<lambda>_. []) (\<lambda>e c. (c, False)) True False (session_new [] [])
     [\<lparr>at_stop = False, at_connects = (\<lambda>_. Inr []), at_bound = Inr (), at_polls = [(Accepted [], False)], at_clone = Inr (), at_tls = Inr [], at_inputs = []\<rparr>] () = Some c'"
  by (rule thread_ends_when_channel_closed) (simp_all add: round_socket_def)

end
