(* ===== verification/Aeron_Transport.thy ===== *)
theory Aeron_Transport
  imports Rust_Strings Graph_State
begin

text \<open>
  The transport layer of the Aeron adapter: \<^verbatim>\<open>adapters/aeron/error.rs\<close>, \<^verbatim>\<open>status.rs\<close>,
  \<^verbatim>\<open>status_stream.rs\<close>, \<^verbatim>\<open>transport.rs\<close>, \<^verbatim>\<open>buffer.rs\<close> and the part of \<^verbatim>\<open>rusteron_backend.rs\<close> and
  \<^verbatim>\<open>aeron_rs_backend.rs\<close> that is not a call into the client library.

  A backend is a record of its trait methods on a state \<open>'b\<close>. A poll yields the fragments it hands
  to the callback, in order, and then its result, so that fragments delivered before an error are
  kept. The native client is a parameter of the two backends. Log output is left out.

  The theorems: the status stream forwards exactly the changes of the observed status
  (\<open>record_all\<close>); every claimed buffer is finalised exactly once (\<open>claim_finalised_once\<close>); both
  backends report the number of fragments they delivered, which is the contract \<open>counted_backend\<close>
  the polling thread relies on.
\<close>

section \<open>Errors and status\<close>

datatype transport_error =
    BackPressure
  | ConnectionErr string
  | BackendErr string
  | InvalidErr string

definition transport_error_display :: "transport_error \<Rightarrow> string" where
  "transport_error_display e = (case e of
       BackPressure \<Rightarrow> ''Back-pressure: buffer full''
     | ConnectionErr msg \<Rightarrow> ''Connection error: '' @ msg
     | BackendErr msg \<Rightarrow> ''Backend error: '' @ msg
     | InvalidErr msg \<Rightarrow> ''Invalid operation: '' @ msg)"

text \<open>An \<^verbatim>\<open>anyhow::Error\<close> that may hold a \<^verbatim>\<open>TransportError\<close>, which \<^verbatim>\<open>downcast_ref\<close> recovers.\<close>

datatype offer_error = Transport transport_error | OtherError anyhow

definition offer_error_anyhow :: "offer_error \<Rightarrow> anyhow" where
  "offer_error_anyhow e = (case e of Transport t \<Rightarrow> Anyhow (transport_error_display t) | OtherError a \<Rightarrow> a)"

datatype aeron_status = Connected | Disconnected | BackPressured | Closed

section \<open>The status stream\<close>

record aeron_status_stream =
  as_last :: aeron_status
  as_out :: "aeron_status list"
  as_producer :: "node option"

definition status_stream_default :: aeron_status_stream where
  "status_stream_default = \<lparr>as_last = Disconnected, as_out = [], as_producer = None\<rparr>"

definition set_producer :: "node \<Rightarrow> aeron_status_stream \<Rightarrow> aeron_status_stream" where
  "set_producer p st = st\<lparr>as_producer := Some p\<rparr>"

definition status_record :: "aeron_status \<Rightarrow> aeron_status_stream \<Rightarrow> aeron_status_stream \<times> bool" where
  "status_record new st = (if new \<noteq> as_last st
     then (st\<lparr>as_last := new, as_out := as_out st @ [new]\<rparr>, True) else (st, False))"

definition status_clear :: "aeron_status_stream \<Rightarrow> aeron_status_stream" where
  "status_clear st = st\<lparr>as_out := []\<rparr>"

definition status_current :: "aeron_status_stream \<Rightarrow> aeron_status" where
  "status_current st = (if as_out st = [] then as_last st else last (as_out st))"

definition status_stream_cycle :: "aeron_status_stream \<Rightarrow> bool" where
  "status_stream_cycle st = (as_out st \<noteq> [])"

text \<open>\<open>alive\<close> tells whether the weak reference to the producer can be upgraded.\<close>

definition status_stream_upstreams :: "(node \<Rightarrow> bool) \<Rightarrow> aeron_status_stream \<Rightarrow> node list \<times> node list" where
  "status_stream_upstreams alive st = (case as_producer st of
       Some p \<Rightarrow> if alive p then ([p], []) else ([], [])
     | None \<Rightarrow> ([], []))"

section \<open>Fragments and claims\<close>

record fragment_header =
  fh_position :: i64
  fh_session_id :: i32
  fh_stream_id :: i32

record fragment_buffer =
  fb_buffer :: bytes
  fb_header :: fragment_header

definition fragment_new :: "bytes \<Rightarrow> fragment_header \<Rightarrow> fragment_buffer" where
  "fragment_new buffer header = \<lparr>fb_buffer = buffer, fb_header = header\<rparr>"

text \<open>The native claim is of the client library: its calls are the record, its state is \<open>'q\<close>.\<close>

record 'q native_claim =
  nc_commit :: "'q \<Rightarrow> 'q \<times> (string + unit)"
  nc_abort :: "'q \<Rightarrow> 'q \<times> (string + unit)"

record 'q claim_buffer =
  cb_claim :: 'q
  cb_position :: i64
  cb_finalised :: bool

definition from_aeron :: "'q \<Rightarrow> i64 \<Rightarrow> 'q claim_buffer" where
  "from_aeron claim pos = \<lparr>cb_claim = claim, cb_position = pos, cb_finalised = False\<rparr>"

definition native_result :: "string \<Rightarrow> string + unit \<Rightarrow> transport_error + unit" where
  "native_result what r = (case r of Inl e \<Rightarrow> Inl (BackendErr (what @ e)) | Inr _ \<Rightarrow> Inr ())"

definition claim_drop :: "'q native_claim \<Rightarrow> 'q claim_buffer \<Rightarrow> 'q claim_buffer" where
  "claim_drop nc cb = (if \<not> cb_finalised cb then cb\<lparr>cb_claim := fst (nc_abort nc (cb_claim cb))\<rparr> else cb)"

text \<open>\<^verbatim>\<open>commit\<close> and \<^verbatim>\<open>abort\<close> consume the claim, which is dropped on return.\<close>

definition claim_commit :: "'q native_claim \<Rightarrow> 'q claim_buffer \<Rightarrow> 'q claim_buffer \<times> (transport_error + unit)" where
  "claim_commit nc cb = (case nc_commit nc (cb_claim cb) of
       (q, r) \<Rightarrow> (claim_drop nc (cb\<lparr>cb_finalised := True, cb_claim := q\<rparr>), native_result ''aeron buffer commit: '' r))"

definition claim_abort :: "'q native_claim \<Rightarrow> 'q claim_buffer \<Rightarrow> 'q claim_buffer \<times> (transport_error + unit)" where
  "claim_abort nc cb = (case nc_abort nc (cb_claim cb) of
       (q, r) \<Rightarrow> (claim_drop nc (cb\<lparr>cb_finalised := True, cb_claim := q\<rparr>), native_result ''aeron buffer abort: '' r))"

section \<open>The backend traits\<close>

record 'b subscriber_backend =
  sb_poll :: "'b \<Rightarrow> 'b \<times> bytes list \<times> (anyhow + nat)"
  sb_poll_fragments :: "'b \<Rightarrow> 'b \<times> fragment_buffer list \<times> (transport_error + nat)"
  sb_is_connected :: "'b \<Rightarrow> bool"
  sb_is_closed :: "'b \<Rightarrow> bool"
  sb_supports_graph_thread_poll :: "'b \<Rightarrow> bool"
  sb_with_fragment_limit :: "nat \<Rightarrow> 'b \<Rightarrow> 'b"

text \<open>\<open>render\<close> is the alternate display of an \<^verbatim>\<open>anyhow::Error\<close>.\<close>

definition default_poll_fragments :: "(anyhow \<Rightarrow> string) \<Rightarrow> ('b \<Rightarrow> 'b \<times> bytes list \<times> (anyhow + nat)) \<Rightarrow> 'b \<Rightarrow>
    'b \<times> fragment_buffer list \<times> (transport_error + nat)" where
  "default_poll_fragments render poll b = (case poll b of
       (b', bs, r) \<Rightarrow> (b', map (\<lambda>buf. fragment_new buf \<lparr>fh_position = 0, fh_session_id = 0, fh_stream_id = 0\<rparr>) bs,
         case r of Inl e \<Rightarrow> Inl (BackendErr (render e)) | Inr n \<Rightarrow> Inr n))"

definition subscriber_defaults :: "(anyhow \<Rightarrow> string) \<Rightarrow> ('b \<Rightarrow> 'b \<times> bytes list \<times> (anyhow + nat)) \<Rightarrow> 'b subscriber_backend" where
  "subscriber_defaults render poll =
     \<lparr>sb_poll = poll, sb_poll_fragments = default_poll_fragments render poll,
      sb_is_connected = (\<lambda>_. False), sb_is_closed = (\<lambda>_. False),
      sb_supports_graph_thread_poll = (\<lambda>_. True), sb_with_fragment_limit = (\<lambda>_ b. b)\<rparr>"

record ('b, 'q) publisher_backend =
  pb_offer :: "bytes \<Rightarrow> 'b \<Rightarrow> 'b \<times> (offer_error + unit)"
  pb_is_connected :: "'b \<Rightarrow> bool"
  pb_is_closed :: "'b \<Rightarrow> bool"
  pb_try_claim :: "nat \<Rightarrow> 'b \<Rightarrow> 'b \<times> (transport_error + 'q claim_buffer)"

definition publisher_defaults :: "(bytes \<Rightarrow> 'b \<Rightarrow> 'b \<times> (offer_error + unit)) \<Rightarrow> ('b, 'q) publisher_backend" where
  "publisher_defaults offer =
     \<lparr>pb_offer = offer, pb_is_connected = (\<lambda>_. False), pb_is_closed = (\<lambda>_. False),
      pb_try_claim = (\<lambda>_ b. (b, Inl (InvalidErr ''try_claim not supported on this backend'')))\<rparr>"

section \<open>The rusteron backend\<close>

text \<open>A position or a negative error code; the number in the message of an unknown code is left out.\<close>

definition result_to_transport_error :: "i64 \<Rightarrow> transport_error + i64" where
  "result_to_transport_error r =
     (if 0 \<le> sint r then Inr r
      else if sint r = -2 then Inl BackPressure
      else if sint r = -1 then Inl (ConnectionErr ''Not connected'')
      else if sint r = -4 then Inl (ConnectionErr ''Publication closed'')
      else Inl (BackendErr ''Rusteron error code''))"

text \<open>
  The calls of the client library. \<open>poll_once\<close> gives the fragments with their position and, when
  the lookup of the values frame succeeds, the two identifiers.
\<close>

record ('s, 'p, 'q) rusteron_client =
  rc_poll_once :: "nat \<Rightarrow> 's \<Rightarrow> 's \<times> (bytes \<times> i64 \<times> (i32 \<times> i32) option) list \<times> (string + unit)"
  rc_sub_connected :: "'s \<Rightarrow> bool"
  rc_sub_closed :: "'s \<Rightarrow> bool"
  rc_offer :: "bytes \<Rightarrow> 'p \<Rightarrow> 'p \<times> i64"
  rc_try_claim :: "nat \<Rightarrow> 'p \<Rightarrow> 'p \<times> i64 \<times> 'q"
  rc_pub_connected :: "'p \<Rightarrow> bool"
  rc_pub_closed :: "'p \<Rightarrow> bool"

record 's rusteron_subscriber =
  rs_sub :: 's
  rs_fragment_limit :: nat

definition DEFAULT_FRAGMENT_LIMIT :: nat where
  "DEFAULT_FRAGMENT_LIMIT = 256"

definition rusteron_subscriber_new :: "'s \<Rightarrow> 's rusteron_subscriber" where
  "rusteron_subscriber_new sub = \<lparr>rs_sub = sub, rs_fragment_limit = DEFAULT_FRAGMENT_LIMIT\<rparr>"

definition rusteron_with_fragment_limit :: "nat \<Rightarrow> 's rusteron_subscriber \<Rightarrow> 's rusteron_subscriber" where
  "rusteron_with_fragment_limit fragment_limit sub = sub\<lparr>rs_fragment_limit := fragment_limit\<rparr>"

definition rusteron_poll :: "('s, 'p, 'q) rusteron_client \<Rightarrow> 's rusteron_subscriber \<Rightarrow>
    's rusteron_subscriber \<times> bytes list \<times> (anyhow + nat)" where
  "rusteron_poll rc sub = (case rc_poll_once rc (rs_fragment_limit sub) (rs_sub sub) of
       (s, frags, r) \<Rightarrow> (sub\<lparr>rs_sub := s\<rparr>, map fst frags,
         case r of Inl e \<Rightarrow> Inl (Anyhow e) | Inr _ \<Rightarrow> Inr (length frags)))"

definition rusteron_fragment :: "bytes \<times> i64 \<times> (i32 \<times> i32) option \<Rightarrow> fragment_buffer" where
  "rusteron_fragment f = (case f of (buffer, pos, vals) \<Rightarrow>
     (case (case vals of Some v \<Rightarrow> v | None \<Rightarrow> (0, 0)) of (session_id, stream_id) \<Rightarrow>
       fragment_new buffer \<lparr>fh_position = pos, fh_session_id = session_id, fh_stream_id = stream_id\<rparr>))"

definition rusteron_poll_fragments :: "('s, 'p, 'q) rusteron_client \<Rightarrow> 's rusteron_subscriber \<Rightarrow>
    's rusteron_subscriber \<times> fragment_buffer list \<times> (transport_error + nat)" where
  "rusteron_poll_fragments rc sub = (case rc_poll_once rc (rs_fragment_limit sub) (rs_sub sub) of
       (s, frags, r) \<Rightarrow> (sub\<lparr>rs_sub := s\<rparr>, map rusteron_fragment frags,
         case r of Inl e \<Rightarrow> Inl (BackendErr e) | Inr _ \<Rightarrow> Inr (length frags)))"

definition rusteron_subscriber_backend :: "('s, 'p, 'q) rusteron_client \<Rightarrow> 's rusteron_subscriber subscriber_backend" where
  "rusteron_subscriber_backend rc =
     \<lparr>sb_poll = rusteron_poll rc, sb_poll_fragments = rusteron_poll_fragments rc,
      sb_is_connected = rc_sub_connected rc \<circ> rs_sub, sb_is_closed = rc_sub_closed rc \<circ> rs_sub,
      sb_supports_graph_thread_poll = (\<lambda>_. True), sb_with_fragment_limit = rusteron_with_fragment_limit\<rparr>"

definition rusteron_offer :: "('s, 'p, 'q) rusteron_client \<Rightarrow> bytes \<Rightarrow> 'p \<Rightarrow> 'p \<times> (offer_error + unit)" where
  "rusteron_offer rc buffer p = (case rc_offer rc buffer p of
       (p', pos) \<Rightarrow> (p', case result_to_transport_error pos of
           Inl e \<Rightarrow> Inl (Transport e)
         | Inr _ \<Rightarrow> Inr ()))"

definition rusteron_try_claim :: "('s, 'p, 'q) rusteron_client \<Rightarrow> nat \<Rightarrow> 'p \<Rightarrow> 'p \<times> (transport_error + 'q claim_buffer)" where
  "rusteron_try_claim rc len p = (case rc_try_claim rc len p of
       (p', code, claim) \<Rightarrow> (p', case result_to_transport_error code of
           Inl e \<Rightarrow> Inl e
         | Inr pos \<Rightarrow> Inr (from_aeron claim pos)))"

definition rusteron_publisher_backend :: "('s, 'p, 'q) rusteron_client \<Rightarrow> ('p, 'q) publisher_backend" where
  "rusteron_publisher_backend rc =
     \<lparr>pb_offer = rusteron_offer rc, pb_is_connected = rc_pub_connected rc, pb_is_closed = rc_pub_closed rc,
      pb_try_claim = rusteron_try_claim rc\<rparr>"

section \<open>The aeron-rs backend\<close>

text \<open>\<open>poisoned\<close> is the state of the mutex that guards the subscription; the poll of the library cannot fail.
  The fragment limit is cast to 32 bits.\<close>

record 's aeron_rs_client =
  ac_poisoned :: "'s \<Rightarrow> bool"
  ac_poll :: "i32 \<Rightarrow> 's \<Rightarrow> 's \<times> (bytes \<times> fragment_header) list"

definition aeron_rs_poll :: "'s aeron_rs_client \<Rightarrow> 's rusteron_subscriber \<Rightarrow>
    's rusteron_subscriber \<times> bytes list \<times> (anyhow + nat)" where
  "aeron_rs_poll ac sub =
     (if ac_poisoned ac (rs_sub sub) then (sub, [], Inl (Anyhow ''aeron-rs subscription mutex poisoned''))
      else case ac_poll ac (of_nat (rs_fragment_limit sub)) (rs_sub sub) of
        (s, frags) \<Rightarrow> (sub\<lparr>rs_sub := s\<rparr>, map fst frags, Inr (length frags)))"

definition aeron_rs_poll_fragments :: "'s aeron_rs_client \<Rightarrow> 's rusteron_subscriber \<Rightarrow>
    's rusteron_subscriber \<times> fragment_buffer list \<times> (transport_error + nat)" where
  "aeron_rs_poll_fragments ac sub =
     (if ac_poisoned ac (rs_sub sub) then (sub, [], Inl (BackendErr ''aeron-rs subscription mutex''))
      else case ac_poll ac (of_nat (rs_fragment_limit sub)) (rs_sub sub) of
        (s, frags) \<Rightarrow> (sub\<lparr>rs_sub := s\<rparr>, map (\<lambda>(buf, h). fragment_new buf h) frags, Inr (length frags)))"

definition aeron_rs_subscriber_backend :: "'s aeron_rs_client \<Rightarrow> 's rusteron_subscriber subscriber_backend" where
  "aeron_rs_subscriber_backend ac =
     \<lparr>sb_poll = aeron_rs_poll ac, sb_poll_fragments = aeron_rs_poll_fragments ac,
      sb_is_connected = (\<lambda>_. False), sb_is_closed = (\<lambda>_. False),
      sb_supports_graph_thread_poll = (\<lambda>_. False), sb_with_fragment_limit = rusteron_with_fragment_limit\<rparr>"

section \<open>What the status stream forwards\<close>

text \<open>\<open>observe ss st\<close>: the statuses \<open>ss\<close> recorded one after the other.\<close>

definition observe :: "aeron_status list \<Rightarrow> aeron_status_stream \<Rightarrow> aeron_status_stream" where
  "observe ss st = foldl (\<lambda>st s. fst (status_record s st)) st ss"

lemma observe_simps [simp]:
  "observe [] st = st" "observe (s # ss) st = observe ss (fst (status_record s st))"
  "observe (ss @ ss') st = observe ss' (observe ss st)"
  by (simp_all add: observe_def)

text \<open>The changes of a status sequence that starts from \<open>s0\<close>.\<close>

definition transitions :: "aeron_status \<Rightarrow> aeron_status list \<Rightarrow> aeron_status list" where
  "transitions s0 ss = tl (remdups_adj (s0 # ss))"

lemma remdups_adj_hd_tl: "remdups_adj (x # xs) = x # tl (remdups_adj (x # xs))"
  by (cases "remdups_adj (x # xs)"; metis hd_remdups_adj list.sel remdups_adj_Nil_iff list.distinct(1))

lemma transitions_Nil [simp]: "transitions s0 [] = []"
  by (simp add: transitions_def)

lemma transitions_Cons [simp]:
  "transitions s0 (s # ss) = (if s = s0 then transitions s0 ss else s # transitions s ss)"
  using remdups_adj_hd_tl[of s ss] by (auto simp: transitions_def)

lemma transitions_append: "transitions s0 (ss @ ss') = transitions s0 ss @ transitions (last (s0 # ss)) ss'"
  by (induction ss arbitrary: s0) auto

lemma transitions_last: "last (s0 # transitions s0 ss) = last (s0 # ss)"
proof (induction ss arbitrary: s0)
  case Nil
  show ?case by simp
next
  case (Cons s ss)
  then show ?case by (cases "s = s0") (metis last_ConsR list.distinct(1) transitions_Cons)+
qed

lemma transitions_distinct_adj: "distinct_adj (s0 # transitions s0 ss)"
  by (induction ss arbitrary: s0) (auto simp: distinct_adj_Cons)

lemma observe_out: "as_out (observe ss st) = as_out st @ transitions (as_last st) ss"
  by (induction ss arbitrary: st) (auto simp: status_record_def)

lemma observe_last: "as_last (observe ss st) = last (as_last st # ss)"
  by (induction ss arbitrary: st) (auto simp: status_record_def)

lemma observe_producer [frame_simps]: "as_producer (observe ss st) = as_producer st"
  by (induction ss arbitrary: st) (auto simp: status_record_def)

text \<open>In between, the status of the last element of the burst is the last status observed.\<close>

definition status_stream_ok :: "aeron_status_stream \<Rightarrow> bool" where
  "status_stream_ok st \<longleftrightarrow> (as_out st \<noteq> [] \<longrightarrow> last (as_out st) = as_last st)"

lemma status_record_ok [wf_intros]: "status_stream_ok st \<Longrightarrow> status_stream_ok (fst (status_record s st))"
  by (simp add: status_stream_ok_def status_record_def)

lemma status_clear_ok [wf_intros]: "status_stream_ok (status_clear st)"
  by (simp add: status_stream_ok_def status_clear_def)

lemma status_default_ok [wf_intros]: "status_stream_ok status_stream_default"
  by (simp add: status_stream_ok_def status_stream_default_def)

lemma status_current_last: "status_stream_ok st \<Longrightarrow> status_current st = as_last st"
  by (simp add: status_stream_ok_def status_current_def)

section \<open>Claims\<close>

text \<open>
  Every way to end the life of a claim makes one finalising call on the native claim: a commit
  makes the commit, also when it fails, and an abort or a drop makes the abort. What is left is
  finalised, so that dropping it again changes nothing.
\<close>

lemma claim_finalised_once:
  "cb_claim (fst (claim_commit nc (from_aeron q pos))) = fst (nc_commit nc q)"
  "cb_claim (fst (claim_abort nc (from_aeron q pos))) = fst (nc_abort nc q)"
  "cb_claim (claim_drop nc (from_aeron q pos)) = fst (nc_abort nc q)"
  "claim_drop nc (fst (claim_commit nc cb)) = fst (claim_commit nc cb)"
  "claim_drop nc (fst (claim_abort nc cb)) = fst (claim_abort nc cb)"
  by (auto simp: claim_commit_def claim_abort_def claim_drop_def from_aeron_def split: prod.splits)

lemma rusteron_offer_back_pressure:
  "snd (rusteron_offer rc buf p) = Inl (Transport BackPressure) \<longleftrightarrow> sint (snd (rc_offer rc buf p)) = - 2"
  by (auto simp: rusteron_offer_def result_to_transport_error_def split: prod.splits)

section \<open>The contract of a poll\<close>

text \<open>A successful poll reports how many fragments it has delivered.\<close>

locale counted_backend =
  fixes poll_fragments :: "'b \<Rightarrow> 'b \<times> fragment_buffer list \<times> (transport_error + nat)"
  assumes poll_counts: "poll_fragments b = (b', fs, Inr n) \<Longrightarrow> n = length fs"
begin

lemma idle_iff: "poll_fragments b = (b', fs, Inr n) \<Longrightarrow> n = 0 \<longleftrightarrow> fs = []"
  using poll_counts by fastforce

end

interpretation rusteron: counted_backend "rusteron_poll_fragments rc"
  by unfold_locales (auto simp: rusteron_poll_fragments_def split: prod.splits sum.splits)

interpretation aeron_rs: counted_backend "aeron_rs_poll_fragments ac"
  by unfold_locales (auto simp: aeron_rs_poll_fragments_def split: prod.splits if_splits)

lemma default_poll_counted:
  assumes "\<And>b b' bs n. poll b = (b', bs, Inr n) \<Longrightarrow> n = length bs"
  shows "counted_backend (default_poll_fragments render poll)"
  using assms by unfold_locales (auto simp: default_poll_fragments_def split: prod.splits sum.splits)

end
