(* ===== verification/Aeron_Uri.thy ===== *)
theory Aeron_Uri
  imports Aeron_Transport
begin

text \<open>
  The channel URIs of the Aeron adapter: \<^verbatim>\<open>adapters/aeron/channel.rs\<close>, with the recogniser behind
  \<^verbatim>\<open>Ipv6Addr::from_str\<close> of the standard library. Strings are byte lists, so that a character outside
  ASCII is a run of bytes above 127, none of which is in the allow list. Of the error messages the
  rendered values are left out.

  The theorems: the host and port check accepts exactly the two documented shapes
  (\<open>validate_host_port_iff\<close>), and a URI that is built from accepted parameters is read back by a
  reference parser as exactly these parameters (\<open>mdc_subscription_roundtrip\<close>): no parameter can
  smuggle in another one.
\<close>

section \<open>IPv6 addresses\<close>

definition hex_digit_value :: "u8 \<Rightarrow> nat option" where
  "hex_digit_value c =
     (if is_digit c then Some (unat c - 48)
      else if 97 \<le> c \<and> c \<le> 102 then Some (unat c - 87)
      else if 65 \<le> c \<and> c \<le> 70 then Some (unat c - 55)
      else None)"

text \<open>
  A parser takes the rest of the input and gives the value and what is left; a failure leaves the
  input where it was. \<^verbatim>\<open>read_number\<close> reads as many digits as there are and fails on too many.
\<close>

fun read_digits :: "(u8 \<Rightarrow> nat option) \<Rightarrow> nat \<Rightarrow> nat \<Rightarrow> bytes \<Rightarrow> nat \<times> nat \<times> bytes" where
  "read_digits dv radix acc [] = (acc, 0, [])"
| "read_digits dv radix acc (c # cs) = (case dv c of
       None \<Rightarrow> (acc, 0, c # cs)
     | Some d \<Rightarrow> (case read_digits dv radix (acc * radix + d) cs of (v, n, rest) \<Rightarrow> (v, Suc n, rest)))"

definition read_number :: "(u8 \<Rightarrow> nat option) \<Rightarrow> nat \<Rightarrow> nat \<Rightarrow> bool \<Rightarrow> nat \<Rightarrow> bytes \<Rightarrow> (nat \<times> bytes) option" where
  "read_number dv radix max_digits allow_zero_prefix bound s = (case read_digits dv radix 0 s of
     (v, n, rest) \<Rightarrow>
       if n = 0 \<or> max_digits < n \<or> (\<not> allow_zero_prefix \<and> hd s = 48 \<and> 1 < n) \<or> bound \<le> v then None
       else Some (v, rest))"

definition read_given_char :: "u8 \<Rightarrow> bytes \<Rightarrow> bytes option" where
  "read_given_char ch s = (case s of c # cs \<Rightarrow> if c = ch then Some cs else None | [] \<Rightarrow> None)"

definition read_separator :: "u8 \<Rightarrow> nat \<Rightarrow> (bytes \<Rightarrow> ('a \<times> bytes) option) \<Rightarrow> bytes \<Rightarrow> ('a \<times> bytes) option" where
  "read_separator sep index inner s =
     (if 0 < index then (case read_given_char sep s of None \<Rightarrow> None | Some s' \<Rightarrow> inner s') else inner s)"

definition decimal_digit_value :: "u8 \<Rightarrow> nat option" where
  "decimal_digit_value c = (if is_digit c then Some (unat c - 48) else None)"

fun read_ipv4_from :: "nat \<Rightarrow> nat \<Rightarrow> bytes \<Rightarrow> (nat list \<times> bytes) option" where
  "read_ipv4_from i 0 s = Some ([], s)"
| "read_ipv4_from i (Suc k) s = (case read_separator 46 i (read_number decimal_digit_value 10 3 False 256) s of
       None \<Rightarrow> None
     | Some (g, s') \<Rightarrow> map_option (\<lambda>(gs, r). (g # gs, r)) (read_ipv4_from (Suc i) k s'))"

definition read_ipv4_addr :: "bytes \<Rightarrow> (nat list \<times> bytes) option" where
  "read_ipv4_addr s = read_ipv4_from 0 4 s"

text \<open>
  \<^verbatim>\<open>read_groups\<close> from group \<open>i\<close> on, with \<open>k\<close> groups left: the groups read, whether the last two were
  an embedded IPv4 address, and the rest of the input.
\<close>

fun read_groups_from :: "nat \<Rightarrow> nat \<Rightarrow> bytes \<Rightarrow> nat list \<times> bool \<times> bytes" where
  "read_groups_from i 0 s = ([], False, s)"
| "read_groups_from i (Suc k) s = (case (if 0 < k then read_separator 58 i read_ipv4_addr s else None) of
       Some (v4, rest) \<Rightarrow> ([v4 ! 0 * 256 + v4 ! 1, v4 ! 2 * 256 + v4 ! 3], True, rest)
     | None \<Rightarrow> (case read_separator 58 i (read_number hex_digit_value 16 4 True 65536) s of
           None \<Rightarrow> ([], False, s)
         | Some (g, s') \<Rightarrow> (case read_groups_from (Suc i) k s' of (gs, v4, rest) \<Rightarrow> (g # gs, v4, rest))))"

definition read_ipv6_addr :: "bytes \<Rightarrow> (nat list \<times> bytes) option" where
  "read_ipv6_addr s = (case read_groups_from 0 8 s of (hd_groups, hd_ipv4, s1) \<Rightarrow>
     if length hd_groups = 8 then Some (hd_groups, s1)
     else if hd_ipv4 then None
     else do {
       s2 \<leftarrow> read_given_char 58 s1;
       s3 \<leftarrow> read_given_char 58 s2;
       (case read_groups_from 0 (8 - (length hd_groups + 1)) s3 of (tl_groups, _, s4) \<Rightarrow>
         Some (hd_groups @ replicate (8 - length hd_groups - length tl_groups) 0 @ tl_groups, s4)) })"

definition ipv6_from_str :: "bytes \<Rightarrow> nat list option" where
  "ipv6_from_str s = (case read_ipv6_addr s of Some (gs, []) \<Rightarrow> Some gs | _ \<Rightarrow> None)"

section \<open>Validation\<close>

definition URI_ALLOWED_PUNCT :: "u8 list" where
  "URI_ALLOWED_PUNCT = [58, 91, 93, 46, 45, 95]"

definition is_ascii_alphanumeric :: "u8 \<Rightarrow> bool" where
  "is_ascii_alphanumeric c \<longleftrightarrow> is_digit c \<or> (65 \<le> c \<and> c \<le> 90) \<or> (97 \<le> c \<and> c \<le> 122)"

definition is_uri_char :: "u8 \<Rightarrow> bool" where
  "is_uri_char c \<longleftrightarrow> is_ascii_alphanumeric c \<or> c \<in> set URI_ALLOWED_PUNCT"

definition validate_param :: "string \<Rightarrow> bytes \<Rightarrow> transport_error + unit" where
  "validate_param label value =
     (if value = [] then Inl (InvalidErr (label @ '' must not be empty''))
      else if list_ex (\<lambda>c. \<not> is_uri_char c) value then Inl (InvalidErr (label @ '' contains invalid character''))
      else Inr ())"

definition bracketed_host_port :: "string \<Rightarrow> bytes \<Rightarrow> transport_error + bytes \<times> bytes" where
  "bracketed_host_port label rest = (case split_once 93 rest of
       None \<Rightarrow> Inl (InvalidErr (label @ '' bracketed IPv6 address missing closing bracket''))
     | Some (host, after) \<Rightarrow> (case read_given_char 58 after of
           None \<Rightarrow> Inl (InvalidErr (label @ '' bracketed IPv6 address must be followed by :port''))
         | Some port \<Rightarrow> if ipv6_from_str host = None
             then Inl (InvalidErr (label @ '' bracketed IPv6 is not a valid IPv6 address''))
             else Inr (host, port)))"

definition plain_host_port :: "string \<Rightarrow> bytes \<Rightarrow> transport_error + bytes \<times> bytes" where
  "plain_host_port label value =
     (let colons = length (filter (\<lambda>c. c = 58) value) in
      if colons = 0 then Inl (InvalidErr (label @ '' expected host:port''))
      else if 1 < colons then Inl (InvalidErr (label @ '' bare IPv6 must be bracketed''))
      else case the (split_once 58 value) of (host, port) \<Rightarrow>
        if 91 \<in> set host \<or> 93 \<in> set host
        then Inl (InvalidErr (label @ '' brackets are only allowed as the bracketed-IPv6 prefix''))
        else Inr (host, port))"

definition validate_host_port :: "string \<Rightarrow> bytes \<Rightarrow> transport_error + unit" where
  "validate_host_port label value = (case validate_param label value of
       Inl e \<Rightarrow> Inl e
     | Inr _ \<Rightarrow> (case (case read_given_char 91 value of
             Some rest \<Rightarrow> bracketed_host_port label rest
           | None \<Rightarrow> plain_host_port label value) of
           Inl e \<Rightarrow> Inl e
         | Inr (host, port) \<Rightarrow>
             if host = [] then Inl (InvalidErr (label @ '' host part must not be empty''))
             else if parse_unsigned 16 port = None then Inl (InvalidErr (label @ '' port must be a valid u16 (0-65535)''))
             else Inr ()))"

section \<open>The builders\<close>

definition uri_ipc :: bytes where
  "uri_ipc = ascii ''aeron:ipc''"

definition uri_udp :: "bytes \<Rightarrow> transport_error + bytes" where
  "uri_udp endpoint = (case validate_host_port ''endpoint'' endpoint of
       Inl e \<Rightarrow> Inl e
     | Inr _ \<Rightarrow> Inr (ascii ''aeron:udp?endpoint='' @ endpoint))"

definition mdc_publication :: "bytes \<Rightarrow> transport_error + bytes" where
  "mdc_publication control = (case validate_host_port ''control'' control of
       Inl e \<Rightarrow> Inl e
     | Inr _ \<Rightarrow> Inr (ascii ''aeron:udp?control='' @ control @ ascii ''|control-mode=dynamic''))"

definition mdc_subscription :: "bytes \<Rightarrow> bytes \<Rightarrow> transport_error + bytes" where
  "mdc_subscription endpoint control = (case validate_host_port ''endpoint'' endpoint of
       Inl e \<Rightarrow> Inl e
     | Inr _ \<Rightarrow> (case validate_host_port ''control'' control of
           Inl e \<Rightarrow> Inl e
         | Inr _ \<Rightarrow> Inr (ascii ''aeron:udp?endpoint='' @ endpoint @ ascii ''|control='' @ control @
             ascii ''|control-mode=dynamic'')))"

section \<open>The accepted shapes\<close>

text \<open>\<open>port_ok\<close>: a decimal number below 65536; \<open>host_port_shape\<close>: one of the two documented shapes.\<close>

definition port_ok :: "bytes \<Rightarrow> bool" where
  "port_ok port \<longleftrightarrow> port \<noteq> [] \<and> list_all is_digit port \<and> digits_value port < 65536"

definition host_port_shape :: "bytes \<Rightarrow> bool" where
  "host_port_shape value \<longleftrightarrow> (\<exists>host port. port_ok port \<and> host \<noteq> [] \<and> list_all is_uri_char host \<and>
     (value = 91 # host @ 93 # 58 # port \<and> 93 \<notin> set host \<and> ipv6_from_str host \<noteq> None \<or>
      value = host @ 58 # port \<and> set host \<inter> {58, 91, 93} = {}))"

text \<open>
  A reference reader of channel URIs, as the media driver cuts them: the parameters after the
  question mark, separated by bars, each a key and a value around the first equals sign.
\<close>

definition uri_params :: "bytes \<Rightarrow> (bytes \<times> bytes) list" where
  "uri_params u = (case split_once 63 u of
       None \<Rightarrow> []
     | Some (_, query) \<Rightarrow> map (\<lambda>p. case split_once 61 p of Some kv \<Rightarrow> kv | None \<Rightarrow> (p, [])) (split_on 124 query))"

lemma read_given_char_iff: "read_given_char ch s = Some cs \<longleftrightarrow> s = ch # cs"
  by (auto simp: read_given_char_def split: list.splits)

lemma read_given_char_None: "read_given_char ch s = None \<longleftrightarrow> (\<forall>cs. s \<noteq> ch # cs)"
  by (auto simp: read_given_char_def split: list.splits)

lemma is_uri_char_facts: "is_uri_char c \<Longrightarrow> c \<noteq> 43 \<and> c \<noteq> 61 \<and> c \<noteq> 63 \<and> c \<noteq> 124 \<and> c < 0x80"
  by (auto simp: is_uri_char_def is_ascii_alphanumeric_def is_digit_def URI_ALLOWED_PUNCT_def word_le_nat_alt word_less_nat_alt)

lemma digit_uri_char: "is_digit c \<Longrightarrow> is_uri_char c \<and> c \<noteq> 58 \<and> c \<noteq> 91 \<and> c \<noteq> 93"
  by (auto simp: is_uri_char_def is_ascii_alphanumeric_def is_digit_def word_le_nat_alt)

lemma punct_uri_char [simp]: "is_uri_char 58" "is_uri_char 91" "is_uri_char 93"
  by (simp_all add: is_uri_char_def URI_ALLOWED_PUNCT_def)

lemma parse_port: "list_all is_uri_char port \<Longrightarrow> parse_unsigned 16 port \<noteq> None \<longleftrightarrow> port_ok port"
  using is_uri_char_facts
  by (cases port) (auto simp: parse_unsigned_def port_ok_def Let_def)

lemma port_ok_colon: "port_ok port \<Longrightarrow> 58 \<notin> set port"
  using digit_uri_char by (auto simp: port_ok_def list_all_iff)

lemma validate_param_iff: "validate_param label v = Inr u \<longleftrightarrow> v \<noteq> [] \<and> list_all is_uri_char v"
  by (auto simp: validate_param_def list_all_iff list_ex_iff)

lemma bracketed_iff:
  "bracketed_host_port label rest = Inr (host, port) \<longleftrightarrow>
     rest = host @ 93 # 58 # port \<and> 93 \<notin> set host \<and> ipv6_from_str host \<noteq> None"
proof (cases "split_once 93 rest")
  case None
  then have "93 \<notin> set rest" by (simp add: split_once_None)
  with None show ?thesis by (auto simp: bracketed_host_port_def)
next
  case (Some ha)
  obtain h a where ha: "ha = (h, a)" by (cases ha)
  with Some have rest: "rest = h @ 93 # a" "93 \<notin> set h" by (simp_all add: split_once_iff)
  have eq: "h @ 93 # a = host @ 93 # 58 # port \<and> 93 \<notin> set host \<longleftrightarrow> h = host \<and> a = 58 # port"
    using split_once_iff[of 93 rest h a] split_once_iff[of 93 rest host "58 # port"] rest by auto
  show ?thesis
  proof (cases "read_given_char 58 a")
    case None
    then have "\<forall>cs. a \<noteq> 58 # cs" by (simp add: read_given_char_None)
    with None Some ha rest eq show ?thesis by (simp add: bracketed_host_port_def)
  next
    case (Some p)
    then have "a = 58 # p" by (simp add: read_given_char_iff)
    with Some \<open>split_once 93 rest = Some ha\<close> ha rest eq show ?thesis
      by (simp add: bracketed_host_port_def) (metis option.distinct(1))
  qed
qed

lemma one_colon: "length (filter (\<lambda>c. c = 58) v) = 1 \<longleftrightarrow> (\<exists>h p. v = h @ 58 # p \<and> 58 \<notin> set h \<and> 58 \<notin> set (p :: bytes))"
proof
  assume "length (filter (\<lambda>c. c = 58) v) = 1"
  moreover have "filter (\<lambda>c. c = 58) v = []" if "58 \<notin> set v" using that by (auto simp: filter_empty_conv)
  ultimately have "58 \<in> set v" by fastforce
  then obtain h p where v: "v = h @ 58 # p" "58 \<notin> set h" by (metis split_list_first)
  with \<open>length (filter (\<lambda>c. c = 58) v) = 1\<close> have "58 \<notin> set p" by (auto simp: filter_empty_conv)
  with v show "\<exists>h p. v = h @ 58 # p \<and> 58 \<notin> set h \<and> 58 \<notin> set p" by blast
next
  assume "\<exists>h p. v = h @ 58 # p \<and> 58 \<notin> set h \<and> 58 \<notin> set p"
  then show "length (filter (\<lambda>c. c = 58) v) = 1" by (auto simp: filter_empty_conv)
qed

lemma plain_iff:
  "plain_host_port label v = Inr (host, port) \<longleftrightarrow>
     v = host @ 58 # port \<and> set host \<inter> {58, 91, 93} = {} \<and> 58 \<notin> set port"
proof (cases "length (filter (\<lambda>c. c = 58) v) = 1")
  case True
  then obtain h p where v: "v = h @ 58 # p" "58 \<notin> set h" "58 \<notin> set p" using one_colon[of v] by blast
  then have "split_once 58 v = Some (h, p)" by (simp add: split_once_iff)
  moreover have "v = host @ 58 # port \<and> 58 \<notin> set host \<longleftrightarrow> host = h \<and> port = p"
    using split_once_iff[of 58 v host port] split_once_iff[of 58 v h p] v by auto
  ultimately show ?thesis using True v by (auto simp: plain_host_port_def)
next
  case False
  define k where "k = length (filter (\<lambda>c. c = 58) v)"
  have "plain_host_port label v \<noteq> Inr (host, port)"
    using False unfolding plain_host_port_def Let_def k_def[symmetric] by (cases k) auto
  moreover have "\<not> (v = host @ 58 # port \<and> 58 \<notin> set host \<and> 58 \<notin> set port)" using False one_colon by blast
  ultimately show ?thesis by blast
qed


text \<open>
  The check of a host and port accepts exactly the two documented shapes: a host without
  colons and brackets, or an IPv6 address in brackets, followed by a colon and a decimal port below
  65536, all in the ASCII allow list. In particular an address that the recogniser of the standard
  library rejects, a bare IPv6 address and a signed port are refused.
\<close>

lemma validate_host_port_iff: "validate_host_port label v = Inr () \<longleftrightarrow> host_port_shape v"
proof (cases "list_all is_uri_char v")
  case False
  then have "\<not> host_port_shape v" using digit_uri_char by (auto simp: host_port_shape_def port_ok_def list_all_iff)
  moreover have "validate_host_port label v \<noteq> Inr ()"
    using False validate_param_iff[of label v "()"] by (auto simp: validate_host_port_def split: sum.splits)
  ultimately show ?thesis by simp
next
  case True
  show ?thesis
  proof (cases "v = []")
    case True
    then show ?thesis by (auto simp: validate_host_port_def validate_param_def host_port_shape_def)
  next
    case False
    define r where "r = (case read_given_char 91 v of Some rest \<Rightarrow> bracketed_host_port label rest | None \<Rightarrow> plain_host_port label v)"
    have ok: "validate_host_port label v = Inr () \<longleftrightarrow> (\<exists>h p. r = Inr (h, p) \<and> h \<noteq> [] \<and> parse_unsigned 16 p \<noteq> None)"
      using True False validate_param_iff[of label v "()"]
      by (simp add: validate_host_port_def r_def[symmetric]) (auto split: sum.splits)
    have r: "r = Inr (h, p) \<longleftrightarrow> v = 91 # h @ 93 # 58 # p \<and> 93 \<notin> set h \<and> ipv6_from_str h \<noteq> None \<or>
        (\<forall>cs. v \<noteq> 91 # cs) \<and> v = h @ 58 # p \<and> set h \<inter> {58, 91, 93} = {} \<and> 58 \<notin> set p" for h p
    proof (cases "read_given_char 91 v")
      case None
      then have "\<forall>cs. v \<noteq> 91 # cs" by (simp add: read_given_char_None)
      with None show ?thesis by (auto simp: r_def plain_iff)
    next
      case (Some rest)
      then have "v = 91 # rest" by (simp add: read_given_char_iff)
      with Some show ?thesis by (auto simp: r_def bracketed_iff)
    qed
    have port: "parse_unsigned 16 p \<noteq> None \<longleftrightarrow> port_ok p" if "r = Inr (h, p)" for h p
      using that r True by (intro parse_port) auto
    have shape: "r = Inr (h, p) \<and> h \<noteq> [] \<and> port_ok p \<longleftrightarrow> port_ok p \<and> h \<noteq> [] \<and> list_all is_uri_char h \<and>
       (v = 91 # h @ 93 # 58 # p \<and> 93 \<notin> set h \<and> ipv6_from_str h \<noteq> None \<or> v = h @ 58 # p \<and> set h \<inter> {58, 91, 93} = {})" for h p
    proof -
      have "\<forall>cs. v \<noteq> 91 # cs" if "v = h @ 58 # p" "h \<noteq> []" "set h \<inter> {58, 91, 93} = {}" using that by (cases h) auto
      moreover have "list_all is_uri_char h" if "v = h @ 58 # p \<or> v = 91 # h @ 93 # 58 # p" using that True by auto
      ultimately show ?thesis unfolding r using port_ok_colon[of p] by blast
    qed
    have "validate_host_port label v = Inr () \<longleftrightarrow> (\<exists>h p. r = Inr (h, p) \<and> h \<noteq> [] \<and> port_ok p)"
      using ok port by metis
    then show ?thesis unfolding host_port_shape_def shape .
  qed
qed

lemma shape_chars: "host_port_shape v \<Longrightarrow> list_all is_uri_char v"
  using digit_uri_char by (auto simp: host_port_shape_def port_ok_def list_all_iff)

lemma shape_separators: "host_port_shape v \<Longrightarrow> set v \<inter> {61, 63, 124} = {}"
  using shape_chars[of v] is_uri_char_facts by (auto simp: list_all_iff)


lemma validate_cases: "validate_host_port label v = (if host_port_shape v then Inr () else Inl (projl (validate_host_port label v)))"
  using validate_host_port_iff[of label v] by (cases "validate_host_port label v") auto

lemma ascii_Cons: "ascii (c # s) = of_nat (of_char c) # ascii s" "ascii [] = []"
  by (simp_all add: ascii_def)

lemma uri_param_split: "61 \<notin> set key \<Longrightarrow> split_once 61 (key @ 61 # v) = Some (key, v)"
  by (simp add: split_once_iff)

lemma uri_params_query: "63 \<notin> set pre \<Longrightarrow> uri_params (pre @ 63 # q) =
    map (\<lambda>p. case split_once 61 p of Some kv \<Rightarrow> kv | None \<Rightarrow> (p, [])) (split_on 124 q)"
proof -
  assume "63 \<notin> set pre"
  then have "split_once 63 (pre @ 63 # q) = Some (pre, q)" by (simp add: split_once_iff)
  then show ?thesis by (simp add: uri_params_def)
qed

lemma subscription_params:
  assumes "set e \<inter> {61, 63, 124} = {}" "set c \<inter> {61, 63, 124} = {}"
  shows "uri_params (ascii ''aeron:udp?endpoint='' @ e @ ascii ''|control='' @ c @ ascii ''|control-mode=dynamic'') =
    [(ascii ''endpoint'', e), (ascii ''control'', c), (ascii ''control-mode'', ascii ''dynamic'')]"
proof -
  let ?m = "ascii ''control-mode'' @ 61 # ascii ''dynamic''"
  let ?q = "(ascii ''endpoint'' @ 61 # e) @ 124 # (ascii ''control'' @ 61 # c) @ 124 # ?m"
  have "ascii ''aeron:udp?endpoint='' @ e @ ascii ''|control='' @ c @ ascii ''|control-mode=dynamic'' =
      ascii ''aeron:udp'' @ 63 # ?q"
    by (simp add: ascii_Cons)
  moreover have "split_on 124 ?q = [ascii ''endpoint'' @ 61 # e, ascii ''control'' @ 61 # c, ?m]"
  proof -
    have 1: "124 \<notin> set (ascii ''endpoint'' @ 61 # e)" and 2: "124 \<notin> set (ascii ''control'' @ 61 # c)" and 3: "124 \<notin> set ?m"
      using assms by (auto simp: ascii_Cons)
    show ?thesis by (simp only: split_on_append[OF 1] split_on_append[OF 2] split_on_last[OF 3])
  qed
  moreover have "63 \<notin> set (ascii ''aeron:udp'')" by (simp add: ascii_Cons)
  moreover have "61 \<notin> set (ascii ''endpoint'')" "61 \<notin> set (ascii ''control'')" "61 \<notin> set (ascii ''control-mode'')"
    by (simp_all add: ascii_Cons)
  ultimately show ?thesis by (simp only: uri_params_query list.map uri_param_split option.case not_False_eq_True)
qed

text \<open>
  A subscription URI is built exactly from two parameters of the documented host and port
  shape, in the ASCII allow list and with an IPv6 address that the standard library accepts; and the
  reference reader gets back these two parameters and the control mode, nothing else: neither
  parameter can introduce a further one or end its value early.
\<close>

lemma mdc_subscription_roundtrip:
  "case mdc_subscription endpoint control of
     Inr u \<Rightarrow> host_port_shape endpoint \<and> host_port_shape control \<and>
       uri_params u = [(ascii ''endpoint'', endpoint), (ascii ''control'', control), (ascii ''control-mode'', ascii ''dynamic'')]
   | Inl e \<Rightarrow> \<not> (host_port_shape endpoint \<and> host_port_shape control)"
proof (cases "host_port_shape endpoint \<and> host_port_shape control")
  case True
  then show ?thesis
    using validate_cases[of "''endpoint''" endpoint] validate_cases[of "''control''" control]
      subscription_params[OF shape_separators shape_separators, of endpoint control]
    by (simp add: mdc_subscription_def)
next
  case False
  then show ?thesis
    using validate_host_port_iff[of "''endpoint''" endpoint] validate_host_port_iff[of "''control''" control]
    by (auto simp: mdc_subscription_def split: sum.splits)
qed

end
