(* ===== verification/Latency.thy ===== *)
theory Latency
  imports Graph_State
begin

text \<open>
  Latency tracing: \<^verbatim>\<open>latency.rs\<close>. A latency record is generated by a macro as a struct of \<^verbatim>\<open>u64\<close>
  fields with a slice view; here it is the list of its stamps, whose length is the number of
  stages. A payload with a record is \<^verbatim>\<open>Traced\<close>. A stage is its index. The function that formats a
  report is not modelled; the product of a count and a quantile, which is a floating-point number,
  enters \<open>quantile_ns\<close> as the rank it is rounded to.

  The theorems: the report never panics, and its count, sum and extremes are exactly those of the
  deltas between stamped stages, every delta being in one bucket of the histogram
  (\<open>latency_report_exact\<close>); a quantile bounds the exact one within a factor of two
  (\<open>quantile_brackets\<close>). Which bucket counts a delta is stated by \<open>bucket_boundary\<close>; the
  documentation of the struct gives boundaries that are larger by one.
\<close>

section \<open>Records and stamps\<close>

type_synonym latency = "u64 list"

text \<open>\<^verbatim>\<open>Stage::stamp\<close>; the index is checked as by the slice.\<close>

definition latency_stamp :: "nat \<Rightarrow> u64 \<Rightarrow> latency \<Rightarrow> latency option" where
  "latency_stamp index t l = (if index < length l then Some (l[index := t]) else None)"

record 'a traced =
  tr_payload :: 'a
  tr_latency :: latency

definition traced_new :: "nat \<Rightarrow> 'a \<Rightarrow> 'a traced" where
  "traced_new n payload = \<lparr>tr_payload = payload, tr_latency = replicate n 0\<rparr>"

definition traced_with_latency :: "'a \<Rightarrow> latency \<Rightarrow> 'a traced" where
  "traced_with_latency payload latency = \<lparr>tr_payload = payload, tr_latency = latency\<rparr>"

record 'a stamp_stream =
  ss_upstream :: node
  ss_stage :: nat
  ss_value :: "'a traced"

definition stamp_stream_new :: "node \<Rightarrow> nat \<Rightarrow> 'a traced \<Rightarrow> 'a stamp_stream" where
  "stamp_stream_new upstream stage initial = \<lparr>ss_upstream = upstream, ss_stage = stage, ss_value = initial\<rparr>"

definition stamp_value :: "nat \<Rightarrow> u64 \<Rightarrow> 'a traced \<Rightarrow> 'a traced option" where
  "stamp_value stage t v = map_option (\<lambda>l. v\<lparr>tr_latency := l\<rparr>) (latency_stamp stage t (tr_latency v))"

definition stamp_cycle :: "graph_state \<Rightarrow> (node \<Rightarrow> 'a traced) \<Rightarrow> 'a stamp_stream \<Rightarrow> ('a stamp_stream \<times> bool) option" where
  "stamp_cycle gs peek st =
     map_option (\<lambda>v. (st\<lparr>ss_value := v\<rparr>, True)) (stamp_value (ss_stage st) (raw (gs_wall_time gs)) (peek (ss_upstream st)))"

text \<open>\<open>now\<close> is the fresh reading of the clock.\<close>

definition stamp_precise_cycle :: "nanotime \<Rightarrow> (node \<Rightarrow> 'a traced) \<Rightarrow> 'a stamp_stream \<Rightarrow> ('a stamp_stream \<times> bool) option" where
  "stamp_precise_cycle now peek st =
     map_option (\<lambda>v. (st\<lparr>ss_value := v\<rparr>, True)) (stamp_value (ss_stage st) (raw now) (peek (ss_upstream st)))"

definition stamp_upstreams :: "'a stamp_stream \<Rightarrow> node list \<times> node list" where
  "stamp_upstreams st = ([ss_upstream st], [])"

text \<open>A conditional stage: without it the stream itself is used.\<close>

datatype 'a stamped = Stamped "'a stamp_stream" | Unstamped node

definition stamp_if :: "node \<Rightarrow> nat \<Rightarrow> 'a traced \<Rightarrow> bool \<Rightarrow> 'a stamped" where
  "stamp_if upstream stage initial enabled =
     (if enabled then Stamped (stamp_stream_new upstream stage initial) else Unstamped upstream)"

section \<open>Statistics of a stage\<close>

definition HISTOGRAM_BUCKETS :: nat where
  "HISTOGRAM_BUCKETS = 64"

record stage_stats =
  st_count :: u64
  st_sum_ns :: u64
  st_min_ns :: u64
  st_max_ns :: u64
  st_histogram :: "u64 list"

definition stage_stats_default :: stage_stats where
  "stage_stats_default = \<lparr>st_count = 0, st_sum_ns = 0, st_min_ns = - 1, st_max_ns = 0,
     st_histogram = replicate HISTOGRAM_BUCKETS 0\<rparr>"

fun log2 :: "nat \<Rightarrow> nat" where
  "log2 n = (if n < 2 then 0 else Suc (log2 (n div 2)))"

declare log2.simps [simp del]

text \<open>\<^verbatim>\<open>u64::ilog2\<close> panics at zero.\<close>

definition ilog2 :: "u64 \<Rightarrow> nat option" where
  "ilog2 x = (if x = 0 then None else Some (log2 (unat x)))"

definition stage_record :: "u64 \<Rightarrow> stage_stats \<Rightarrow> stage_stats option" where
  "stage_record delta_ns st = do {
     b \<leftarrow> ilog2 (delta_ns + 1);
     let bucket = min b (HISTOGRAM_BUCKETS - 1);
     Some \<lparr>st_count = st_count st + 1,
       st_sum_ns = saturating_add (st_sum_ns st) delta_ns,
       st_min_ns = (if delta_ns < st_min_ns st then delta_ns else st_min_ns st),
       st_max_ns = (if st_max_ns st < delta_ns then delta_ns else st_max_ns st),
       st_histogram = (st_histogram st)[bucket := st_histogram st ! bucket + 1]\<rparr> }"

definition mean_ns :: "stage_stats \<Rightarrow> u64" where
  "mean_ns st = (if st_count st = 0 then 0 else st_sum_ns st div st_count st)"

text \<open>The search of the histogram from bucket \<open>i\<close> on, with the samples counted so far.\<close>

fun quantile_loop :: "u64 \<Rightarrow> nat \<Rightarrow> u64 \<Rightarrow> u64 list \<Rightarrow> u64 \<Rightarrow> u64" where
  "quantile_loop target i cum [] max_ns = max_ns"
| "quantile_loop target i cum (n # ns) max_ns =
     (let cum' = cum + n in
      if target \<le> cum' then push_bit (min (i + 1) 63) 1 else quantile_loop target (Suc i) cum' ns max_ns)"

text \<open>\<open>rank\<close> gives, for the count, the rank that the product with the quantile is rounded up to.\<close>

definition quantile_ns :: "(u64 \<Rightarrow> u64) \<Rightarrow> stage_stats \<Rightarrow> u64" where
  "quantile_ns rank st = (if st_count st = 0 then 0
     else quantile_loop (rank (st_count st)) 0 0 (st_histogram st) (st_max_ns st))"

section \<open>Reports\<close>

type_synonym latency_stats = "stage_stats list"

definition latency_stats_new :: "nat \<Rightarrow> latency_stats" where
  "latency_stats_new n = replicate n stage_stats_default"

text \<open>One step of the loop of \<^verbatim>\<open>observe\<close>, at stage \<open>i\<close>.\<close>

definition observe_stage :: "latency \<Rightarrow> nat \<Rightarrow> latency_stats \<Rightarrow> latency_stats option" where
  "observe_stage stamps i stages =
     (if i < length stamps \<and> 1 \<le> i then
        (let prev = stamps ! (i - 1); cur = stamps ! i in
         if prev = 0 \<or> cur = 0 \<or> cur < prev then Some stages
         else if i < length stages then map_option (\<lambda>s. stages[i := s]) (stage_record (cur - prev) (stages ! i))
         else None)
      else None)"

fun observe_from :: "latency \<Rightarrow> nat list \<Rightarrow> latency_stats \<Rightarrow> latency_stats option" where
  "observe_from stamps [] stages = Some stages"
| "observe_from stamps (i # is) stages = Option.bind (observe_stage stamps i stages) (observe_from stamps is)"

definition latency_observe :: "latency \<Rightarrow> latency_stats \<Rightarrow> latency_stats option" where
  "latency_observe stamps stages = observe_from stamps [1..<length stamps] stages"

record latency_report =
  lr_upstream :: node
  lr_stats :: latency_stats
  lr_print_on_teardown :: bool

definition latency_report_new :: "nat \<Rightarrow> node \<Rightarrow> latency_report" where
  "latency_report_new n upstream = \<lparr>lr_upstream = upstream, lr_stats = latency_stats_new n, lr_print_on_teardown = False\<rparr>"

definition print_on_teardown :: "bool \<Rightarrow> latency_report \<Rightarrow> latency_report" where
  "print_on_teardown yes st = st\<lparr>lr_print_on_teardown := yes\<rparr>"

definition latency_report_cycle :: "(node \<Rightarrow> 'a traced) \<Rightarrow> latency_report \<Rightarrow> (latency_report \<times> bool) option" where
  "latency_report_cycle peek st =
     map_option (\<lambda>stats. (st\<lparr>lr_stats := stats\<rparr>, True)) (latency_observe (tr_latency (peek (lr_upstream st))) (lr_stats st))"

text \<open>The sink, or the upstream itself when the report is switched off, and the statistics.\<close>

definition latency_report_if :: "nat \<Rightarrow> node \<Rightarrow> bool \<Rightarrow> bool \<Rightarrow> (node + latency_report) \<times> latency_stats" where
  "latency_report_if n upstream enabled print =
     (if enabled then (let report = print_on_teardown print (latency_report_new n upstream) in (Inr report, lr_stats report))
      else (Inl upstream, latency_stats_new n))"

section \<open>The statistics of a list of deltas\<close>

lemma log2_bounds: "0 < n \<Longrightarrow> 2 ^ log2 n \<le> n \<and> n < 2 ^ Suc (log2 n)"
proof (induction n rule: log2.induct)
  case (1 n)
  show ?case
  proof (cases "n < 2")
    case True
    with 1(2) show ?thesis by (simp add: log2.simps[of n])
  next
    case False
    then have "2 ^ log2 (n div 2) \<le> n div 2 \<and> n div 2 < 2 ^ Suc (log2 (n div 2))" using 1(1) by simp
    with False show ?thesis by (auto simp: log2.simps[of n])
  qed
qed

lemma log2_less_iff: "0 < n \<Longrightarrow> log2 n < k \<longleftrightarrow> n < 2 ^ k"
proof
  assume "0 < n" "log2 n < k"
  then show "n < 2 ^ k" using log2_bounds[of n] power_increasing[of "Suc (log2 n)" k "2 :: nat"] by linarith
next
  assume "0 < n" "n < 2 ^ k"
  then show "log2 n < k" using log2_bounds[of n] power_less_imp_less_exp[of "2 :: nat" "log2 n" k] by linarith
qed

text \<open>The bucket a delta falls into.\<close>

definition bucket_of :: "u64 \<Rightarrow> nat" where
  "bucket_of d = log2 (unat d + 1)"

lemma unat_succ_u64: "d \<noteq> - 1 \<Longrightarrow> unat (d + 1) = unat (d :: u64) + 1"
  using unatSuc[of d] by (auto simp: add.commute eq_neg_iff_add_eq_0)

lemma bucket_of_bound: "d \<noteq> - 1 \<Longrightarrow> bucket_of d < 64"
proof -
  assume "d \<noteq> - 1"
  moreover have "unat (d + 1) < 2 ^ 64" using unsigned_less[of "d + 1"] by simp
  ultimately show ?thesis using unat_succ_u64[of d] by (simp add: bucket_of_def log2_less_iff)
qed

lemma ilog2_succ: "d \<noteq> - 1 \<Longrightarrow> ilog2 (d + 1) = Some (bucket_of d)"
  using unat_succ_u64[of d] by (auto simp: ilog2_def bucket_of_def unat_eq_zero)

definition stats_of :: "u64 list \<Rightarrow> stage_stats" where
  "stats_of ds = \<lparr>st_count = of_nat (length ds),
     st_sum_ns = of_nat (min (sum_list (map unat ds)) (2 ^ 64 - 1)),
     st_min_ns = foldr min ds (- 1), st_max_ns = foldr max ds 0,
     st_histogram = map (\<lambda>i. of_nat (length (filter (\<lambda>d. bucket_of d = i) ds))) [0..<64]\<rparr>"

lemma saturating_sum:
  "saturating_add (of_nat (min m (2 ^ 64 - 1))) (d :: u64) = of_nat (min (unat d + m) (2 ^ 64 - 1))"
proof -
  have u: "unat (of_nat (min m (2 ^ 64 - 1)) :: u64) = min m (2 ^ 64 - 1)"
  proof -
    have "min m (2 ^ 64 - 1) < 2 ^ 64" by (simp add: min_def)
    then show ?thesis by (simp add: unat_of_nat)
  qed
  show ?thesis
  proof (cases "min m (2 ^ 64 - 1) + unat d < 2 ^ 64")
    case True
    then have "saturating_add (of_nat (min m (2 ^ 64 - 1))) d = of_nat (min m (2 ^ 64 - 1) + unat d)"
      by (simp add: saturating_add_def u[simplified])
    moreover have "min m (2 ^ 64 - 1) + unat d = min (unat d + m) (2 ^ 64 - 1)"
      using True by (auto simp: min_def)
    ultimately show ?thesis by argo
  next
    case False
    then have "min (unat d + m) (2 ^ 64 - 1) = 2 ^ 64 - 1" by (auto simp: min_def)
    with False show ?thesis by (simp add: saturating_add_def u[simplified])
  qed
qed

lemma stage_record_stats:
  assumes "d \<noteq> - 1"
  shows "stage_record d (stats_of ds) = Some (stats_of (d # ds))"
proof -
  let ?h = "\<lambda>ds. map (\<lambda>i. of_nat (length (filter (\<lambda>d. bucket_of d = i) ds)) :: u64) [0..<64]"
  have "(?h ds)[bucket_of d := ?h ds ! bucket_of d + 1] = ?h (d # ds)"
    using bucket_of_bound[OF assms] by (intro nth_equalityI) (auto simp: nth_list_update)
  moreover have "min (bucket_of d) (HISTOGRAM_BUCKETS - 1) = bucket_of d"
    using bucket_of_bound[OF assms] by (simp add: HISTOGRAM_BUCKETS_def)
  moreover have "(if d < m then d else m) = min d m" "(if m < d then d else m) = max d m" for m
    by (auto simp: min_def max_def)
  ultimately show ?thesis
    using saturating_sum[of "sum_list (map unat ds)" d]
    by (simp add: stage_record_def ilog2_succ[OF assms] stats_of_def Let_def)
qed

lemma stats_of_Nil: "stats_of [] = stage_stats_default"
  by (simp add: stats_of_def stage_stats_default_def HISTOGRAM_BUCKETS_def map_replicate_const)


section \<open>What a report has seen\<close>

text \<open>The deltas that \<^verbatim>\<open>observe\<close> takes at a stage: both stamps set, and in order. The latest comes first.\<close>

definition stage_deltas :: "nat \<Rightarrow> latency list \<Rightarrow> u64 list" where
  "stage_deltas i ls = rev (map (\<lambda>l. l ! i - l ! (i - 1))
     (filter (\<lambda>l. 1 \<le> i \<and> l ! (i - 1) \<noteq> 0 \<and> l ! i \<noteq> 0 \<and> l ! (i - 1) \<le> l ! i) ls))"

lemma delta_not_max: "(prev :: u64) \<noteq> 0 \<Longrightarrow> prev \<le> cur \<Longrightarrow> cur - prev \<noteq> - 1"
proof
  assume p: "prev \<noteq> 0" "prev \<le> cur" and eq: "cur - prev = - 1"
  then have "unat (- 1 :: u64) = unat cur - unat prev" by (metis unat_sub)
  moreover have "unat prev > 0" using p(1) by (simp add: unat_gt_0)
  moreover have "unat cur \<le> unat (- 1 :: u64)" using word_le_nat_alt[of cur "- 1"] by simp
  moreover have "unat prev \<le> unat cur" using p(2) by (simp add: word_le_nat_alt)
  ultimately show False by linarith
qed

text \<open>Stage by stage: the first \<open>k\<close> stages have seen the new record, the others not yet.\<close>

definition partial_stats :: "nat \<Rightarrow> nat \<Rightarrow> latency \<Rightarrow> latency list \<Rightarrow> latency_stats" where
  "partial_stats n k l ls = map (\<lambda>i. stats_of (stage_deltas i (if i < k then ls @ [l] else ls))) [0..<n]"

lemma observe_stage_partial:
  assumes "length l = n" "1 \<le> i" "i < n"
  shows "observe_stage l i (partial_stats n i l ls) = Some (partial_stats n (Suc i) l ls)"
proof -
  let ?take = "l ! (i - 1) \<noteq> 0 \<and> l ! i \<noteq> 0 \<and> l ! (i - 1) \<le> l ! i"
  have d: "stage_deltas i (ls @ [l]) = (if ?take then (l ! i - l ! (i - 1)) # stage_deltas i ls else stage_deltas i ls)"
    using assms(2) by (simp add: stage_deltas_def)
  have others: "partial_stats n (Suc i) l ls = (partial_stats n i l ls)[i := stats_of (stage_deltas i (ls @ [l]))]"
    using assms(3) by (intro nth_equalityI) (auto simp: partial_stats_def nth_list_update less_Suc_eq)
  have at_i: "partial_stats n i l ls ! i = stats_of (stage_deltas i ls)" "length (partial_stats n i l ls) = n"
    using assms(3) by (simp_all add: partial_stats_def)
  show ?thesis
  proof (cases ?take)
    case True
    then have "l ! i - l ! (i - 1) \<noteq> - 1" by (intro delta_not_max) auto
    moreover have "\<not> l ! i < l ! (i - 1)" using True by (simp add: not_less)
    ultimately show ?thesis using stage_record_stats True d others at_i assms
      by (simp add: observe_stage_def Let_def)
  next
    case False
    then have "partial_stats n (Suc i) l ls = partial_stats n i l ls" using d others at_i(1) by (metis list_update_id)
    moreover have "l ! (i - 1) = 0 \<or> l ! i = 0 \<or> l ! i < l ! (i - 1)" using False by auto
    ultimately show ?thesis using assms by (simp add: observe_stage_def Let_def)
  qed
qed

lemma observe_from_partial:
  assumes "length l = n" "1 \<le> i" "i \<le> n"
  shows "observe_from l [i..<n] (partial_stats n i l ls) = Some (partial_stats n n l ls)"
  using assms(2,3)
proof (induction "n - i" arbitrary: i)
  case 0
  then show ?case by simp
next
  case (Suc k)
  then have "[i..<n] = i # [Suc i..<n]" "i < n" by (simp_all add: upt_conv_Cons)
  with Suc observe_stage_partial[OF assms(1) Suc.prems(1) \<open>i < n\<close>, of ls] show ?case by simp
qed

definition stats_after :: "nat \<Rightarrow> latency list \<Rightarrow> latency_stats" where
  "stats_after n ls = map (\<lambda>i. stats_of (stage_deltas i ls)) [0..<n]"

lemma observe_after: "length l = n \<Longrightarrow> latency_observe l (stats_after n ls) = Some (stats_after n (ls @ [l]))"
proof (cases "n = 0")
  case True
  then show "length l = n \<Longrightarrow> ?thesis" by (simp add: latency_observe_def stats_after_def)
next
  case False
  have "partial_stats n 1 l ls = stats_after n ls" "partial_stats n n l ls = stats_after n (ls @ [l])"
    by (auto simp: partial_stats_def stats_after_def stage_deltas_def)
  with False observe_from_partial[of l n 1 ls] show "length l = n \<Longrightarrow> ?thesis" by (simp add: latency_observe_def)
qed

text \<open>A report that sees the messages one after the other.\<close>

fun report_run :: "'a traced list \<Rightarrow> latency_report \<Rightarrow> latency_report option" where
  "report_run [] st = Some st"
| "report_run (v # vs) st = Option.bind (latency_report_cycle (\<lambda>_. v) st) (\<lambda>r. report_run vs (fst r))"

lemma report_run_after:
  "\<forall>v \<in> set vs. length (tr_latency v) = n \<Longrightarrow> lr_stats st = stats_after n ls \<Longrightarrow>
    report_run vs st = Some (st\<lparr>lr_stats := stats_after n (ls @ map tr_latency vs)\<rparr>)"
proof (induction vs arbitrary: st ls)
  case Nil
  then show ?case by simp
next
  case (Cons v vs)
  then have "latency_report_cycle (\<lambda>_. v) st = Some (st\<lparr>lr_stats := stats_after n (ls @ [tr_latency v])\<rparr>, True)"
    using observe_after[of "tr_latency v" n ls] by (simp add: latency_report_cycle_def)
  with Cons.IH[of "st\<lparr>lr_stats := stats_after n (ls @ [tr_latency v])\<rparr>" "ls @ [tr_latency v]"] Cons.prems
  show ?case by simp
qed


lemma report_run_stats:
  assumes "\<forall>v \<in> set vs. length (tr_latency v) = n"
  shows "report_run vs (latency_report_new n upstream) =
    Some ((latency_report_new n upstream)\<lparr>lr_stats := map (\<lambda>i. stats_of (stage_deltas i (map tr_latency vs))) [0..<n]\<rparr>)"
proof -
  have "lr_stats (latency_report_new n upstream) = stats_after n []"
    by (simp add: latency_report_new_def latency_stats_new_def stats_after_def stage_deltas_def stats_of_Nil map_replicate_const)
  from report_run_after[OF assms this] show ?thesis by (simp add: stats_after_def)
qed

lemma foldr_extremes:
  "foldr min ds a = Min (insert a (set ds))" "foldr max ds a = Max (insert a (set ds))" for a :: "'b :: linorder"
  by (induction ds) (simp_all add: insert_commute)

lemma stage_deltas_bucket: "d \<in> set (stage_deltas i ls) \<Longrightarrow> bucket_of d < 64"
  using delta_not_max by (intro bucket_of_bound) (auto simp: stage_deltas_def)

lemma histogram_total:
  "\<forall>d \<in> set ds. bucket_of d < n \<Longrightarrow>
    sum_list (map (\<lambda>i. of_nat (length (filter (\<lambda>d. bucket_of d = i) ds))) [0..<n]) = (of_nat (length ds) :: u64)"
proof (induction ds)
  case (Cons d ds)
  have "sum_list (map (\<lambda>i. of_nat (length (filter (\<lambda>d. bucket_of d = i) (d # ds)))) [0..<n]) =
      (\<Sum>i \<leftarrow> [0..<n]. (if i = bucket_of d then 1 else 0) + of_nat (length (filter (\<lambda>d. bucket_of d = i) ds)) :: u64)"
    by (intro arg_cong[of _ _ sum_list] map_cong) auto
  also have "\<dots> = (\<Sum>i \<leftarrow> [0..<n]. if i = bucket_of d then 1 else 0) +
      sum_list (map (\<lambda>i. of_nat (length (filter (\<lambda>d. bucket_of d = i) ds))) [0..<n])" by (rule sum_list_addf)
  also have "(\<Sum>i \<leftarrow> [0..<n]. if i = bucket_of d then 1 else 0) = (1 :: u64)"
    using Cons.prems by (simp add: interv_sum_list_conv_sum_set_nat)
  finally show ?case using Cons by simp
qed simp

text \<open>
  C34. A latency report never panics, whatever stamps the messages carry, and its statistics of a
  stage are exactly those of the deltas of the messages on which the stage and its predecessor
  were stamped in order: their number, their sum, saturating at the largest \<^verbatim>\<open>u64\<close>, their least and
  their greatest (the largest \<^verbatim>\<open>u64\<close> and zero without any); and its histogram of 64 buckets counts each
  of them once. The report's other fields stay as they are.
\<close>

theorem latency_report_exact:
  assumes "\<forall>v \<in> set vs. length (tr_latency v) = n"
  shows "\<exists>stats. report_run vs (latency_report_new n upstream) = Some ((latency_report_new n upstream)\<lparr>lr_stats := stats\<rparr>) \<and>
    length stats = n \<and>
    (\<forall>i < n. let ds = stage_deltas i (map tr_latency vs); s = stats ! i in
       st_count s = of_nat (length ds) \<and> st_sum_ns s = of_nat (min (sum_list (map unat ds)) (2 ^ 64 - 1)) \<and>
       st_min_ns s = Min (insert (- 1) (set ds)) \<and> st_max_ns s = Max (insert 0 (set ds)) \<and>
       length (st_histogram s) = 64 \<and> sum_list (st_histogram s) = of_nat (length ds))"
proof -
  let ?stats = "map (\<lambda>i. stats_of (stage_deltas i (map tr_latency vs))) [0..<n]"
  have "sum_list (st_histogram (stats_of ds)) = of_nat (length ds)" if "\<forall>d \<in> set ds. bucket_of d < 64" for ds
    unfolding stats_of_def by (simp only: stage_stats.select_convs histogram_total[OF that])
  with stage_deltas_bucket have h: "sum_list (st_histogram (stats_of (stage_deltas i ls))) = of_nat (length (stage_deltas i ls))" for i ls
    by blast
  show ?thesis
    using report_run_stats[OF assms, of upstream] h
    by (intro exI[of _ ?stats]) (simp add: Let_def, simp add: stats_of_def foldr_extremes)
qed

theorem latency_report_exact_witness:
  "\<exists>stats. report_run [traced_with_latency () [5, 8, 0], traced_with_latency () [10, 17, 25]] (latency_report_new 3 0) =
      Some ((latency_report_new 3 0)\<lparr>lr_stats := stats\<rparr>) \<and>
    st_count (stats ! 1) = 2 \<and> st_sum_ns (stats ! 1) = 10 \<and> st_min_ns (stats ! 1) = 3 \<and> st_max_ns (stats ! 1) = 7 \<and> st_count (stats ! 2) = 1"
proof -
  let ?vs = "[traced_with_latency () [5, 8, 0], traced_with_latency () [10, 17, 25]]"
  have d: "stage_deltas 1 (map tr_latency ?vs) = [7, 3]" "stage_deltas 2 (map tr_latency ?vs) = [8]"
    by (simp_all add: traced_with_latency_def stage_deltas_def)
  obtain stats where "report_run ?vs (latency_report_new 3 0) = Some ((latency_report_new 3 0)\<lparr>lr_stats := stats\<rparr>)"
    and s: "\<forall>i < 3. let ds = stage_deltas i (map tr_latency ?vs); s = stats ! i in
       st_count s = of_nat (length ds) \<and> st_sum_ns s = of_nat (min (sum_list (map unat ds)) (2 ^ 64 - 1)) \<and>
       st_min_ns s = Min (insert (- 1) (set ds)) \<and> st_max_ns s = Max (insert 0 (set ds)) \<and>
       length (st_histogram s) = 64 \<and> sum_list (st_histogram s) = of_nat (length ds)"
    using latency_report_exact[of ?vs 3 0] by (auto simp: traced_with_latency_def)
  moreover have "st_count (stats ! 1) = 2 \<and> st_sum_ns (stats ! 1) = 10 \<and> st_min_ns (stats ! 1) = 3 \<and> st_max_ns (stats ! 1) = 7"
    using s[rule_format, of 1] unfolding d Let_def
    by (simp add: word_le_nat_alt min_def unsigned_minus_1_eq_mask mask_eq_exp_minus_1)
  moreover have "st_count (stats ! 2) = 1" using s[rule_format, of 2] unfolding d Let_def by simp
  ultimately show ?thesis by blast
qed

section \<open>Quantiles\<close>

lemma filter_rank:
  assumes "sorted s" "j < length s" and down: "\<And>x y. x \<le> y \<Longrightarrow> Q y \<Longrightarrow> Q x"
  shows "j < length (filter Q s) \<longleftrightarrow> Q (s ! j)"
proof -
  have s: "s = take j s @ s ! j # drop (Suc j) s" using assms(2) by (rule id_take_nth_drop)
  have before: "x \<le> s ! j" if "x \<in> set (take j s)" for x
    using that assms(1,2) by (auto simp: in_set_conv_nth sorted_iff_nth_mono)
  have after: "s ! j \<le> x" if "x \<in> set (drop (Suc j) s)" for x
    using that assms(1,2) by (auto simp: in_set_conv_nth sorted_iff_nth_mono)
  show ?thesis
  proof
    assume "Q (s ! j)"
    then have "filter Q (take j s) = take j s" using before down by (auto intro!: filter_True)
    then have "filter Q s = take j s @ s ! j # filter Q (drop (Suc j) s)" using \<open>Q (s ! j)\<close> by (subst s) simp
    then show "j < length (filter Q s)" using assms(2) by simp
  next
    assume "j < length (filter Q s)"
    show "Q (s ! j)"
    proof (rule ccontr)
      assume n: "\<not> Q (s ! j)"
      then have "filter Q (drop (Suc j) s) = []" using after down by (auto simp: filter_empty_conv)
      with n have "filter Q s = filter Q (take j s)" by (subst s) simp
      moreover have "length (filter Q (take j s)) \<le> j" using length_filter_le[of Q "take j s"] assms(2) by simp
      ultimately show False using \<open>j < length (filter Q s)\<close> by simp
    qed
  qed
qed

text \<open>The number of deltas in the buckets below \<open>i\<close>.\<close>

definition below :: "nat \<Rightarrow> u64 list \<Rightarrow> nat" where
  "below i ds = length (filter (\<lambda>d. bucket_of d < i) ds)"

lemma below_Suc: "below (Suc i) ds = below i ds + length (filter (\<lambda>d. bucket_of d = i) ds)"
  unfolding below_def by (induction ds) (auto simp: less_Suc_eq)

lemma below_le: "below i ds \<le> length ds"
  by (simp add: below_def)

lemma quantile_loop_finds:
  assumes "length ds < 2 ^ 64" "below i ds < unat target" "unat target \<le> below 64 ds" "i \<le> 64"
  shows "\<exists>k < 64. below k ds < unat target \<and> unat target \<le> below (Suc k) ds \<and>
    quantile_loop target i (of_nat (below i ds))
      (map (\<lambda>i. of_nat (length (filter (\<lambda>d. bucket_of d = i) ds))) [i..<64]) m = push_bit (min (k + 1) 63) 1"
  using assms(2-4)
proof (induction "64 - i" arbitrary: i)
  case 0
  then show ?case by simp
next
  case (Suc j)
  then have "i < 64" "[i..<64] = i # [Suc i..<64]" by (simp_all add: upt_conv_Cons)
  have next_cum: "of_nat (below i ds) + of_nat (length (filter (\<lambda>d. bucket_of d = i) ds)) = (of_nat (below (Suc i) ds) :: u64)"
    by (simp add: below_Suc)
  have "below (Suc i) ds < 2 ^ 64" using assms(1) below_le[of "Suc i" ds] by linarith
  then have reached: "target \<le> of_nat (below (Suc i) ds) \<longleftrightarrow> unat target \<le> below (Suc i) ds"
    by (simp add: word_le_nat_alt unat_of_nat)
  show ?case
  proof (cases "unat target \<le> below (Suc i) ds")
    case True
    with Suc.prems reached \<open>i < 64\<close> \<open>[i..<64] = i # [Suc i..<64]\<close> next_cum show ?thesis
      by (intro exI[of _ i]) (simp add: Let_def)
  next
    case False
    then have "below (Suc i) ds < unat target" by simp
    from Suc.hyps(1)[OF _ this Suc.prems(2)] Suc.hyps(2) \<open>i < 64\<close>
    have "\<exists>k < 64. below k ds < unat target \<and> unat target \<le> below (Suc k) ds \<and>
      quantile_loop target (Suc i) (of_nat (below (Suc i) ds))
        (map (\<lambda>i. of_nat (length (filter (\<lambda>d. bucket_of d = i) ds))) [Suc i..<64]) m = push_bit (min (k + 1) 63) 1"
      by simp
    with False reached \<open>[i..<64] = i # [Suc i..<64]\<close> next_cum show ?thesis by (simp add: Let_def)
  qed
qed


lemma unat_push_bit_one: "n < 64 \<Longrightarrow> unat (push_bit n 1 :: u64) = 2 ^ n"
proof -
  assume "n < 64"
  then have "(2 :: nat) ^ n < 2 ^ 64" by (intro power_strict_increasing) auto
  moreover have "unat (push_bit n 1 :: u64) = take_bit 64 (push_bit n (1 :: nat))"
    by (subst unsigned_push_bit_eq) simp
  ultimately show ?thesis by (simp add: take_bit_eq_mod push_bit_eq_mult)
qed

lemma bucket_rank:
  assumes "t < length ds"
  shows "t < below i ds \<longleftrightarrow> unat (sort ds ! t) + 1 < 2 ^ i"
proof -
  have "bucket_of d < i \<longleftrightarrow> unat d + 1 < 2 ^ i" for d by (simp add: bucket_of_def log2_less_iff)
  moreover have "below i ds = length (filter (\<lambda>d. bucket_of d < i) (sort ds))"
    by (simp add: below_def filter_sort)
  ultimately show ?thesis
    using filter_rank[of "sort ds" t "\<lambda>d. unat d + 1 < 2 ^ i"] assms by (simp add: word_le_nat_alt)
qed

text \<open>
  A quantile read from the histogram brackets the exact one within a factor of two: when the
  rank that the product of count and quantile is rounded to lies between one and the count, and no
  delta reaches the top bucket (some 292 years), then for the delta \<open>x\<close> of that rank among all
  recorded deltas, \<open>x + 1\<close> is less than the value returned and at least half of it.
\<close>

lemma quantile_brackets:
  assumes "\<forall>d \<in> set ds. unat d < 2 ^ 63 - 1" "length ds < 2 ^ 64"
    "1 \<le> unat (rank (of_nat (length ds)))" "unat (rank (of_nat (length ds))) \<le> length ds"
  shows "unat (sort ds ! (unat (rank (of_nat (length ds))) - 1)) + 1 < unat (quantile_ns rank (stats_of ds)) \<and>
    unat (quantile_ns rank (stats_of ds)) \<le> 2 * (unat (sort ds ! (unat (rank (of_nat (length ds))) - 1)) + 1)"
proof -
  define target where "target = rank (of_nat (length ds))"
  have all: "below i ds = length ds" if "63 \<le> i" for i
  proof -
    have "bucket_of d < 63" if "d \<in> set ds" for d
      using assms(1) that by (auto simp: bucket_of_def log2_less_iff)
    with that show ?thesis unfolding below_def by (metis filter_True order_less_le_trans)
  qed
  have count: "st_count (stats_of ds) \<noteq> 0"
    using assms(2-4) by (auto simp: stats_of_def word_unat_eq_iff unat_of_nat)
  have "below 0 ds < unat target" "unat target \<le> below 64 ds" using assms all[of 64] by (simp_all add: target_def below_def)
  from quantile_loop_finds[OF assms(2) this(1) this(2)] obtain k where k: "k < 64"
    "below k ds < unat target" "unat target \<le> below (Suc k) ds"
    "quantile_ns rank (stats_of ds) = push_bit (min (k + 1) 63) 1"
    using count by (auto simp: quantile_ns_def target_def stats_of_def below_def)
  have "k < 63" using k(2) all[of k] assms(4) by (cases "63 \<le> k") (auto simp: target_def)
  with k(4) have r: "unat (quantile_ns rank (stats_of ds)) = 2 ^ Suc k" using unat_push_bit_one[of "Suc k"] by simp
  have t: "unat target - 1 < length ds" using assms(3,4) by (simp add: target_def)
  have "unat target - 1 < below (Suc k) ds" "\<not> unat target - 1 < below k ds" using k(2,3) assms(3) by (auto simp: target_def)
  with bucket_rank[OF t, of "Suc k"] bucket_rank[OF t, of k] r show ?thesis by (simp add: target_def)
qed

lemma quantile_brackets_witness:
  "unat (10 :: u64) + 1 < unat (quantile_ns (\<lambda>c. 2) (stats_of [100, 3, 10])) \<and>
    unat (quantile_ns (\<lambda>c. 2) (stats_of [100, 3, 10])) \<le> 2 * (unat (10 :: u64) + 1)"
  using quantile_brackets[of "[100, 3, 10]" "\<lambda>c. 2"] by simp


text \<open>The buckets start one below the powers of two: a delta of \<open>2^i - 1\<close> is already in bucket \<open>i\<close>.\<close>

lemma bucket_boundary: "i < 64 \<Longrightarrow> bucket_of (push_bit i 1 - 1) = i"
proof -
  assume "i < 64"
  then have "unat (push_bit i 1 - 1 :: u64) + 1 = 2 ^ i"
    using unat_push_bit_one[of i] unat_minus_one[of "push_bit i 1 :: u64"] by (cases "push_bit i 1 = (0 :: u64)") auto
  then have "bucket_of (push_bit i 1 - 1) = log2 (2 ^ i)" by (simp add: bucket_of_def)
  moreover have "log2 (2 ^ i) = i" using log2_less_iff[of "2 ^ i" i] log2_less_iff[of "2 ^ i" "Suc i"] by fastforce
  ultimately show ?thesis by simp
qed

section \<open>A message through the stages\<close>

fun stamp_all :: "(nat \<times> u64) list \<Rightarrow> 'a traced \<Rightarrow> 'a traced option" where
  "stamp_all [] v = Some v"
| "stamp_all ((i, t) # its) v = Option.bind (stamp_value i t v) (stamp_all its)"

lemma stamp_all_prefix:
  "length (tr_latency v) = length done + length ts \<Longrightarrow> take (length done) (tr_latency v) = done \<Longrightarrow>
    stamp_all (zip [length done..<length done + length ts] ts) v = Some (v\<lparr>tr_latency := done @ ts\<rparr>)"
proof (induction ts arbitrary: "done" v)
  case Nil
  then show ?case by (cases v) simp
next
  case (Cons t ts)
  let ?v = "v\<lparr>tr_latency := (tr_latency v)[length done := t]\<rparr>"
  have "take (length (done @ [t])) (tr_latency ?v) = done @ [t]"
    using Cons.prems by (simp add: take_Suc_conv_app_nth)
  moreover have "length (tr_latency ?v) = length (done @ [t]) + length ts" using Cons.prems by simp
  ultimately have "stamp_all (zip [length (done @ [t])..<length (done @ [t]) + length ts] ts) ?v =
      Some (?v\<lparr>tr_latency := (done @ [t]) @ ts\<rparr>)"
    by (intro Cons.IH) auto
  moreover have "[length done..<length done + length (t # ts)] = length done # [length (done @ [t])..<length (done @ [t]) + length ts]"
    by (subst upt_conv_Cons) simp_all
  ultimately show ?case using Cons.prems by (simp add: stamp_value_def latency_stamp_def)
qed

text \<open>A message that passes every stage in order carries exactly the times of the stages.\<close>

lemma stamped_message: "stamp_all (zip [0..<length ts] ts) (traced_new (length ts) payload) =
    Some (traced_with_latency payload ts)"
  using stamp_all_prefix[of "traced_new (length ts) payload" "[]" ts] by (simp add: traced_new_def traced_with_latency_def)

end
