(* ===== verification/Float64.thy ===== *)
theory Float64
  imports Complex_Main Nano_Time
begin

text \<open>
  Rust's \<^verbatim>\<open>f64\<close> as far as the crate uses it: IEEE-754 binary64 with one NaN. A value is a finite
  real, an infinity or NaN; the two zeros are one value, so a quotient by zero takes the sign of
  the dividend. Every arithmetic operation is the exact operation followed by a rounding, which is
  an argument \<open>rnd\<close> of the operations: \<open>f64_nearest\<close> is the rounding of the hardware (to nearest,
  ties to even, with gradual underflow and overflow to infinity), and \<open>Fin\<close> is exact arithmetic.

  The locale \<open>rounding\<close> states what the statistics rely on: a rounding leaves the numbers with a
  53-bit significand alone. Both roundings are instances, so a lemma of the locale is a fact about
  the hardware and about exact arithmetic alike.
\<close>

section \<open>Values\<close>

datatype f64 = Fin real | PInf | NInf | NaN

type_synonym rounding_mode = "real \<Rightarrow> f64"

definition is_nan :: "f64 \<Rightarrow> bool" where
  "is_nan x \<longleftrightarrow> x = NaN"

fun f64_neg :: "f64 \<Rightarrow> f64" where
  "f64_neg (Fin x) = Fin (- x)"
| "f64_neg PInf = NInf"
| "f64_neg NInf = PInf"
| "f64_neg NaN = NaN"

text \<open>An infinity of the sign of a real.\<close>

definition inf_of :: "real \<Rightarrow> f64" where
  "inf_of x = (if x < 0 then NInf else PInf)"

section \<open>Comparison\<close>

fun f64_le :: "f64 \<Rightarrow> f64 \<Rightarrow> bool" where
  "f64_le NaN _ \<longleftrightarrow> False"
| "f64_le _ NaN \<longleftrightarrow> False"
| "f64_le NInf _ \<longleftrightarrow> True"
| "f64_le _ PInf \<longleftrightarrow> True"
| "f64_le (Fin x) (Fin y) \<longleftrightarrow> x \<le> y"
| "f64_le _ _ \<longleftrightarrow> False"

definition f64_eq :: "f64 \<Rightarrow> f64 \<Rightarrow> bool" where
  "f64_eq a b \<longleftrightarrow> f64_le a b \<and> f64_le b a"

definition f64_lt :: "f64 \<Rightarrow> f64 \<Rightarrow> bool" where
  "f64_lt a b \<longleftrightarrow> f64_le a b \<and> \<not> f64_le b a"

text \<open>\<^verbatim>\<open>f64::min\<close> and \<^verbatim>\<open>f64::max\<close>: a NaN argument is ignored.\<close>

definition f64_min :: "f64 \<Rightarrow> f64 \<Rightarrow> f64" where
  "f64_min a b = (if is_nan a then b else if is_nan b then a else if f64_le a b then a else b)"

definition f64_max :: "f64 \<Rightarrow> f64 \<Rightarrow> f64" where
  "f64_max a b = (if is_nan a then b else if is_nan b then a else if f64_le b a then a else b)"

section \<open>Arithmetic\<close>

fun f64_add :: "rounding_mode \<Rightarrow> f64 \<Rightarrow> f64 \<Rightarrow> f64" where
  "f64_add rnd (Fin x) (Fin y) = rnd (x + y)"
| "f64_add rnd NaN _ = NaN"
| "f64_add rnd _ NaN = NaN"
| "f64_add rnd PInf NInf = NaN"
| "f64_add rnd NInf PInf = NaN"
| "f64_add rnd PInf _ = PInf"
| "f64_add rnd NInf _ = NInf"
| "f64_add rnd _ PInf = PInf"
| "f64_add rnd _ NInf = NInf"

definition f64_sub :: "rounding_mode \<Rightarrow> f64 \<Rightarrow> f64 \<Rightarrow> f64" where
  "f64_sub rnd a b = f64_add rnd a (f64_neg b)"

fun f64_mul :: "rounding_mode \<Rightarrow> f64 \<Rightarrow> f64 \<Rightarrow> f64" where
  "f64_mul rnd (Fin x) (Fin y) = rnd (x * y)"
| "f64_mul rnd NaN _ = NaN"
| "f64_mul rnd _ NaN = NaN"
| "f64_mul rnd (Fin x) PInf = (if x = 0 then NaN else inf_of x)"
| "f64_mul rnd (Fin x) NInf = (if x = 0 then NaN else inf_of (- x))"
| "f64_mul rnd PInf (Fin y) = (if y = 0 then NaN else inf_of y)"
| "f64_mul rnd NInf (Fin y) = (if y = 0 then NaN else inf_of (- y))"
| "f64_mul rnd PInf b = b"
| "f64_mul rnd NInf b = f64_neg b"

fun f64_div :: "rounding_mode \<Rightarrow> f64 \<Rightarrow> f64 \<Rightarrow> f64" where
  "f64_div rnd (Fin x) (Fin y) = (if y = 0 then if x = 0 then NaN else inf_of x else rnd (x / y))"
| "f64_div rnd NaN _ = NaN"
| "f64_div rnd _ NaN = NaN"
| "f64_div rnd (Fin x) _ = Fin 0"
| "f64_div rnd PInf (Fin y) = inf_of y"
| "f64_div rnd NInf (Fin y) = inf_of (- y)"
| "f64_div rnd _ _ = NaN"

fun f64_sqrt :: "rounding_mode \<Rightarrow> f64 \<Rightarrow> f64" where
  "f64_sqrt rnd (Fin x) = (if x < 0 then NaN else rnd (sqrt x))"
| "f64_sqrt rnd PInf = PInf"
| "f64_sqrt rnd NInf = NaN"
| "f64_sqrt rnd NaN = NaN"

text \<open>\<^verbatim>\<open>Iterator::sum\<close> over \<^verbatim>\<open>f64\<close>: from zero, left to right.\<close>

definition f64_sum :: "rounding_mode \<Rightarrow> f64 list \<Rightarrow> f64" where
  "f64_sum rnd xs = foldl (f64_add rnd) (Fin 0) xs"

section \<open>Casts\<close>

text \<open>An unsigned integer \<^verbatim>\<open>as f64\<close> is rounded; a float \<^verbatim>\<open>as u64\<close> truncates and saturates.\<close>

definition u64_as_f64 :: "rounding_mode \<Rightarrow> 'a::len word \<Rightarrow> f64" where
  "u64_as_f64 rnd w = rnd (real_of_int (uint w))"

fun f64_as_u64 :: "f64 \<Rightarrow> u64" where
  "f64_as_u64 (Fin x) = (if x < 1 then 0 else if 2 ^ 64 \<le> x then - 1 else word_of_int \<lfloor>x\<rfloor>)"
| "f64_as_u64 PInf = - 1"
| "f64_as_u64 NInf = 0"
| "f64_as_u64 NaN = 0"

definition nano_from_f64 :: "f64 \<Rightarrow> nanotime" where
  "nano_from_f64 t = NanoTime (f64_as_u64 t)"

definition f64_from_nano :: "rounding_mode \<Rightarrow> nanotime \<Rightarrow> f64" where
  "f64_from_nano rnd t = u64_as_f64 rnd (raw t)"

section \<open>Rounding to nearest\<close>

definition round_half_even :: "real \<Rightarrow> int" where
  "round_half_even x = (let n = \<lfloor>x\<rfloor>; d = x - of_int n in
     if d < 1 / 2 then n else if 1 / 2 < d then n + 1 else if even n then n else n + 1)"

text \<open>The exponent of the last place of the binary64 numbers around \<open>x\<close>.\<close>

definition f64_last_place :: "real \<Rightarrow> int" where
  "f64_last_place x = max (\<lfloor>log 2 \<bar>x\<bar>\<rfloor> - 52) (- 1074)"

definition f64_nearest :: rounding_mode where
  "f64_nearest x = (if x = 0 then Fin 0 else
     let u = 2 powr of_int (f64_last_place x); y = of_int (round_half_even (x / u)) * u in
     if 2 ^ 1024 \<le> y then PInf else if y \<le> - (2 ^ 1024) then NInf else Fin y)"

section \<open>Lemmas\<close>

lemma f64_le_total: "\<not> is_nan a \<Longrightarrow> \<not> is_nan b \<Longrightarrow> f64_le a b \<or> f64_le b a"
  by (cases a; cases b) (auto simp: is_nan_def)

lemma f64_le_trans: "f64_le a b \<Longrightarrow> f64_le b c \<Longrightarrow> f64_le a c"
  by (cases a; cases b; cases c) auto

lemma f64_le_antisym: "f64_le a b \<Longrightarrow> f64_le b a \<Longrightarrow> a = b"
  by (cases a; cases b) auto

lemma f64_le_refl: "\<not> is_nan a \<Longrightarrow> f64_le a a"
  by (cases a) (auto simp: is_nan_def)

lemma f64_lt_Fin [simp]: "f64_lt (Fin x) (Fin y) \<longleftrightarrow> x < y"
  by (auto simp: f64_lt_def)

lemma f64_eq_Fin [simp]: "f64_eq (Fin x) (Fin y) \<longleftrightarrow> x = y"
  by (auto simp: f64_eq_def)

lemma f64_sub_Fin [simp]: "f64_sub rnd (Fin x) (Fin y) = rnd (x - y)"
  by (simp add: f64_sub_def)

lemma is_nan_Fin [simp]: "\<not> is_nan (Fin x)" "is_nan NaN"
  by (simp_all add: is_nan_def)

lemma NaN_absorbs [simp]:
  "f64_add rnd NaN b = NaN" "f64_add rnd a NaN = NaN" "f64_sub rnd NaN b = NaN" "f64_sub rnd a NaN = NaN"
  by (cases a; cases b; simp add: f64_sub_def)+

lemma f64_max_Fin [simp]: "f64_max (Fin x) (Fin y) = Fin (max x y)"
  by (auto simp: f64_max_def)

lemma f64_min_Fin [simp]: "f64_min (Fin x) (Fin y) = Fin (min x y)"
  by (auto simp: f64_min_def)

lemma round_half_even_int [simp]: "round_half_even (of_int n) = n"
  by (simp add: round_half_even_def)

lemma log_less_53:
  assumes "m \<noteq> 0" "\<bar>m\<bar> < 2 ^ 53"
  shows "log 2 \<bar>real_of_int m\<bar> < 53"
proof -
  have "real_of_int \<bar>m\<bar> < of_int (2 ^ 53)"
    using assms by (simp only: of_int_less_iff)
  then show ?thesis
    using assms by (simp add: log_less_iff powr_numeral)
qed

lemma last_place_le:
  assumes "m \<noteq> 0" "\<bar>m\<bar> < 2 ^ 53" "- 1074 \<le> e"
  shows "f64_last_place (of_int m * 2 powr of_int e) \<le> e"
proof -
  have "log 2 \<bar>of_int m * 2 powr of_int e\<bar> = log 2 \<bar>real_of_int m\<bar> + of_int e"
    using assms by (simp add: abs_mult log_mult)
  then show ?thesis
    using log_less_53[OF assms(1,2)] assms(3) by (simp add: f64_last_place_def floor_le_iff)
qed

lemma scaled_to_int:
  assumes "u \<le> e"
  shows "of_int m * 2 powr of_int e / 2 powr of_int u = real_of_int (m * 2 ^ nat (e - u))"
proof -
  have "(2::real) powr of_int e / 2 powr of_int u = 2 powr (of_int (e - u))"
    by (simp add: powr_diff)
  also have "\<dots> = 2 ^ nat (e - u)"
    using assms by (simp flip: powr_realpow)
  finally show ?thesis by (metis (no_types) of_int_mult of_int_numeral of_int_power times_divide_eq_right)
qed

lemma dyadic_bound:
  assumes "\<bar>m\<bar> < 2 ^ 53" "e \<le> 971"
  shows "\<bar>real_of_int m * 2 powr of_int e\<bar> < 2 ^ 1024"
proof -
  have "real_of_int \<bar>m\<bar> < of_int (2 ^ 53)" using assms(1) by (simp only: of_int_less_iff)
  then have "\<bar>real_of_int m\<bar> < 2 powr 53" by (simp add: powr_numeral)
  then have "\<bar>real_of_int m\<bar> * 2 powr of_int e < 2 powr 53 * 2 powr of_int e" by simp
  also have "\<dots> = 2 powr (53 + of_int e)" by (rule powr_add[symmetric])
  also have "\<dots> \<le> 2 powr 1024" using assms(2) by (intro powr_mono) auto
  also have "\<dots> = 2 ^ 1024" by (rule powr_numeral) simp
  finally show ?thesis by (simp add: abs_mult)
qed

text \<open>A number with a significand below \<open>2\<^sup>53\<close> and an exponent in range is representable.\<close>

lemma f64_nearest_dyadic:
  assumes "\<bar>m\<bar> < 2 ^ 53" "- 1074 \<le> e" "e \<le> 971"
  shows "f64_nearest (of_int m * 2 powr of_int e) = Fin (of_int m * 2 powr of_int e)"
proof (cases "m = 0")
  case False
  let ?x = "real_of_int m * 2 powr of_int e" and ?u = "f64_last_place (of_int m * 2 powr of_int e)"
  have int: "?x / 2 powr of_int ?u = real_of_int (m * 2 ^ nat (e - ?u))"
    by (rule scaled_to_int[OF last_place_le[OF False assms(1,2)]])
  have "?x = real_of_int (m * 2 ^ nat (e - ?u)) * 2 powr of_int ?u"
    by (rule nonzero_divide_eq_eq[THEN iffD1, OF _ int]) simp
  then have "of_int (round_half_even (?x / 2 powr of_int ?u)) * 2 powr of_int ?u = ?x"
    unfolding int round_half_even_int by (rule sym)
  then show ?thesis
    using dyadic_bound[OF assms(1,3)] False by (auto simp: f64_nearest_def Let_def abs_less_iff)
qed (simp add: f64_nearest_def)

locale rounding =
  fixes rnd :: rounding_mode
  assumes rnd_dyadic: "\<bar>m\<bar> < 2 ^ 53 \<Longrightarrow> - 1074 \<le> e \<Longrightarrow> e \<le> 971 \<Longrightarrow>
    rnd (of_int m * 2 powr of_int e) = Fin (of_int m * 2 powr of_int e)"
begin

lemma rnd_int:
  assumes "\<bar>m\<bar> \<le> 2 ^ 53"
  shows "rnd (of_int m) = Fin (of_int m)"
proof (cases "\<bar>m\<bar> < 2 ^ 53")
  case True
  then show ?thesis using rnd_dyadic[of m 0] by simp
next
  case False
  then have "m = 2 ^ 53 \<or> m = - (2 ^ 53)" using assms by linarith
  then have *: "real_of_int m = of_int (sgn m) * 2 powr of_int 53" by (auto simp: powr_numeral)
  have "\<bar>sgn m\<bar> < 2 ^ 53" by (simp add: sgn_if)
  from rnd_dyadic[OF this, of 53] show ?thesis unfolding * by simp
qed

lemma rnd_zero: "rnd 0 = Fin 0" and rnd_one: "rnd 1 = Fin 1" and rnd_two: "rnd 2 = Fin 2"
  using rnd_int[of 0] rnd_int[of 1] rnd_int[of 2] by simp_all

lemma rnd_nat: "n \<le> 2 ^ 53 \<Longrightarrow> rnd (of_nat n) = Fin (of_nat n)"
  using rnd_int[of "int n"] by simp

lemma rnd_half: "\<bar>m\<bar> < 2 ^ 53 \<Longrightarrow> rnd (of_int m / 2) = Fin (of_int m / 2)"
  using rnd_dyadic[of m "-1"] by (simp add: powr_minus_divide)

lemma rnd_half_nat: "n < 2 ^ 53 \<Longrightarrow> rnd (of_nat n / 2) = Fin (of_nat n / 2)"
  using rnd_half[of "int n"] by simp

end

interpretation exact: rounding Fin
  by unfold_locales simp

interpretation nearest: rounding f64_nearest
  by unfold_locales (rule f64_nearest_dyadic)

end
