(* ===== verification/Statistics.thy ===== *)
theory Statistics
  imports Float64 Operators
begin

text \<open>
  The streaming statistics operators: \<^verbatim>\<open>adapters/statistics.rs\<close>. One record per node, its \<^verbatim>\<open>new\<close>
  and its \<^verbatim>\<open>cycle\<close>; the operators of \<^verbatim>\<open>StatisticsOperators\<close> build one of the nodes (\<open>stat_node\<close>) and
  \<open>stat_cycle\<close> runs it. \<open>rnd\<close> is the rounding of the floating-point operations, \<open>to_f64\<close> the
  conversion of a value by \<^verbatim>\<open>ToPrimitive\<close> (a trait of the \<^verbatim>\<open>num_traits\<close> crate) and \<open>fexp\<close> the
  exponential of the platform's library. \<open>None\<close> is a failed \<^verbatim>\<open>expect\<close>. The \<^verbatim>\<open>debug_assert!\<close> on a
  smoothing factor is not part of a release build.
\<close>

section \<open>Parameters\<close>

datatype weighting = CountWeighting | TimeWeighting

datatype ewma_span = SpanPerTick f64 | SpanHalfLife duration

datatype window = CountWindow nat | TimeWindow duration | Unbounded

text \<open>\<^verbatim>\<open>peek_value().to_f64().unwrap_or(f64::NAN)\<close>.\<close>

definition to_sample :: "('a \<Rightarrow> f64 option) \<Rightarrow> 'a \<Rightarrow> f64" where
  "to_sample to_f64 v = (case to_f64 v of Some x \<Rightarrow> x | None \<Rightarrow> NaN)"

text \<open>\<^verbatim>\<open>duration.as_nanos() as u64\<close>.\<close>

definition duration_as_u64 :: "duration \<Rightarrow> u64" where
  "duration_as_u64 d = ucast (duration_as_nanos d)"

section \<open>Weighted moments\<close>

record weighted_moments =
  wm_w_sum :: f64
  wm_count :: u64
  wm_mean :: f64
  wm_m2 :: f64

definition moments_default :: weighted_moments where
  "moments_default = \<lparr>wm_w_sum = Fin 0, wm_count = 0, wm_mean = Fin 0, wm_m2 = Fin 0\<rparr>"

definition moments_push :: "rounding_mode \<Rightarrow> f64 \<Rightarrow> f64 \<Rightarrow> weighted_moments \<Rightarrow> weighted_moments" where
  "moments_push rnd x weight m =
     (if f64_le weight (Fin 0) then m
      else let w_sum = f64_add rnd (wm_w_sum m) weight;
               mean_old = wm_mean m;
               mean = f64_add rnd mean_old (f64_mul rnd (f64_div rnd weight w_sum) (f64_sub rnd x mean_old));
               m2 = f64_add rnd (wm_m2 m)
                      (f64_mul rnd (f64_mul rnd weight (f64_sub rnd x mean_old)) (f64_sub rnd x mean))
           in \<lparr>wm_w_sum = w_sum, wm_count = wm_count m + 1, wm_mean = mean, wm_m2 = m2\<rparr>)"

definition moments_remove :: "rounding_mode \<Rightarrow> f64 \<Rightarrow> f64 \<Rightarrow> weighted_moments \<Rightarrow> weighted_moments" where
  "moments_remove rnd x weight m =
     (if f64_le weight (Fin 0) then m
      else let w_new = f64_sub rnd (wm_w_sum m) weight in
        if wm_count m \<le> 1 \<or> f64_le w_new (Fin 0) then moments_default
        else let mean_old = f64_div rnd (f64_sub rnd (f64_mul rnd (wm_w_sum m) (wm_mean m)) (f64_mul rnd weight x)) w_new;
                 m2 = f64_sub rnd (wm_m2 m)
                        (f64_mul rnd (f64_mul rnd weight (f64_sub rnd x mean_old)) (f64_sub rnd x (wm_mean m)));
                 m2 = (if f64_lt m2 (Fin 0) then Fin 0 else m2)
             in \<lparr>wm_w_sum = w_new, wm_count = wm_count m - 1, wm_mean = mean_old, wm_m2 = m2\<rparr>)"

definition moments_is_empty :: "weighted_moments \<Rightarrow> bool" where
  "moments_is_empty m = f64_le (wm_w_sum m) (Fin 0)"

definition moments_variance :: "rounding_mode \<Rightarrow> weighting \<Rightarrow> weighted_moments \<Rightarrow> f64" where
  "moments_variance rnd weighting m = (case weighting of
     CountWeighting \<Rightarrow> (if wm_count m < 2 then Fin 0
       else f64_div rnd (wm_m2 m) (f64_sub rnd (u64_as_f64 rnd (wm_count m)) (Fin 1)))
   | TimeWeighting \<Rightarrow> (if f64_le (wm_w_sum m) (Fin 0) then Fin 0 else f64_div rnd (wm_m2 m) (wm_w_sum m)))"

datatype moment = Mean | Var | Std

text \<open>The two \<^verbatim>\<open>output\<close> methods have the same body.\<close>

definition moment_output :: "rounding_mode \<Rightarrow> moment \<Rightarrow> weighting \<Rightarrow> weighted_moments \<Rightarrow> f64 \<Rightarrow> f64" where
  "moment_output rnd moment weighting m current = (case moment of
     Mean \<Rightarrow> (if moments_is_empty m then current else wm_mean m)
   | Var \<Rightarrow> moments_variance rnd weighting m
   | Std \<Rightarrow> f64_sqrt rnd (f64_max (moments_variance rnd weighting m) (Fin 0)))"

section \<open>Cumulative moments\<close>

record moment_stream =
  ms_upstream :: node
  ms_moment :: moment
  ms_weighting :: weighting
  ms_moments :: weighted_moments
  ms_last_time :: "nanotime option"
  ms_prev_value :: f64
  ms_value :: f64

definition moment_stream_new :: "node \<Rightarrow> moment \<Rightarrow> weighting \<Rightarrow> moment_stream" where
  "moment_stream_new upstream moment weighting =
     \<lparr>ms_upstream = upstream, ms_moment = moment, ms_weighting = weighting,
      ms_moments = moments_default, ms_last_time = None, ms_prev_value = NaN, ms_value = NaN\<rparr>"

definition moment_cycle ::
  "rounding_mode \<Rightarrow> ('a \<Rightarrow> f64 option) \<Rightarrow> (node \<Rightarrow> 'a) \<Rightarrow> graph_state \<Rightarrow> moment_stream \<Rightarrow> moment_stream \<times> bool" where
  "moment_cycle rnd to_f64 peek gs st = (let
     sample = to_sample to_f64 (peek (ms_upstream st));
     st = (case ms_weighting st of
         CountWeighting \<Rightarrow> st\<lparr>ms_moments := moments_push rnd sample (Fin 1) (ms_moments st)\<rparr>
       | TimeWeighting \<Rightarrow> (let now = gs_time gs;
           st = (case ms_last_time st of
               Some prev_t \<Rightarrow> st\<lparr>ms_moments := moments_push rnd (ms_prev_value st)
                                   (f64_from_nano rnd (nano_sub now prev_t)) (ms_moments st)\<rparr>
             | None \<Rightarrow> st)
           in st\<lparr>ms_prev_value := sample, ms_last_time := Some now\<rparr>))
     in (st\<lparr>ms_value := moment_output rnd (ms_moment st) (ms_weighting st) (ms_moments st) sample\<rparr>, True))"

section \<open>Rolling moments\<close>

record rolling_moment_stream =
  rm_upstream :: node
  rm_moment :: moment
  rm_weighting :: weighting
  rm_window :: window
  rm_buffer :: "(f64 \<times> nanotime) list"
  rm_moments :: weighted_moments
  rm_value :: f64

definition clamp_window :: "window \<Rightarrow> window" where
  "clamp_window w = (case w of CountWindow n \<Rightarrow> CountWindow (max n 1) | _ \<Rightarrow> w)"

definition rolling_moment_new :: "node \<Rightarrow> moment \<Rightarrow> weighting \<Rightarrow> window \<Rightarrow> rolling_moment_stream" where
  "rolling_moment_new upstream moment weighting window =
     \<lparr>rm_upstream = upstream, rm_moment = moment, rm_weighting = weighting,
      rm_window = clamp_window window, rm_buffer = [], rm_moments = moments_default, rm_value = NaN\<rparr>"

definition should_evict :: "window \<Rightarrow> nanotime \<Rightarrow> (f64 \<times> nanotime) list \<Rightarrow> bool" where
  "should_evict window now buffer = (case window of
     CountWindow n \<Rightarrow> n < length buffer
   | TimeWindow duration \<Rightarrow> (case buffer of [] \<Rightarrow> False
       | p # _ \<Rightarrow> duration_as_u64 duration < raw now - raw (snd p))
   | Unbounded \<Rightarrow> False)"

text \<open>The eviction loop; an empty buffer is never to be evicted from.\<close>

fun rolling_evict ::
  "rounding_mode \<Rightarrow> weighting \<Rightarrow> window \<Rightarrow> nanotime \<Rightarrow> (f64 \<times> nanotime) list \<Rightarrow> weighted_moments \<Rightarrow>
   (f64 \<times> nanotime) list \<times> weighted_moments" where
  "rolling_evict rnd weighting window now [] m = ([], m)"
| "rolling_evict rnd weighting window now (p # buffer) m =
     (if should_evict window now (p # buffer)
      then rolling_evict rnd weighting window now buffer
        (case weighting of
           CountWeighting \<Rightarrow> moments_remove rnd (fst p) (Fin 1) m
         | TimeWeighting \<Rightarrow> (case buffer of [] \<Rightarrow> m
             | q # _ \<Rightarrow> moments_remove rnd (fst p) (f64_from_nano rnd (nano_sub (snd q) (snd p))) m))
      else (p # buffer, m))"

definition rolling_commit ::
  "rounding_mode \<Rightarrow> weighting \<Rightarrow> nanotime \<Rightarrow> f64 \<Rightarrow> (f64 \<times> nanotime) list \<Rightarrow> weighted_moments \<Rightarrow> weighted_moments" where
  "rolling_commit rnd weighting now sample buffer m = (case weighting of
     CountWeighting \<Rightarrow> moments_push rnd sample (Fin 1) m
   | TimeWeighting \<Rightarrow> (if buffer = [] then m
       else moments_push rnd (fst (List.last buffer)) (f64_from_nano rnd (nano_sub now (snd (List.last buffer)))) m))"

definition rolling_moment_cycle ::
  "rounding_mode \<Rightarrow> ('a \<Rightarrow> f64 option) \<Rightarrow> (node \<Rightarrow> 'a) \<Rightarrow> graph_state \<Rightarrow> rolling_moment_stream \<Rightarrow>
   rolling_moment_stream \<times> bool" where
  "rolling_moment_cycle rnd to_f64 peek gs st = (let
     now = gs_time gs;
     sample = to_sample to_f64 (peek (rm_upstream st));
     m = rolling_commit rnd (rm_weighting st) now sample (rm_buffer st) (rm_moments st);
     (buffer, m) = rolling_evict rnd (rm_weighting st) (rm_window st) now (rm_buffer st @ [(sample, now)]) m
     in (st\<lparr>rm_buffer := buffer, rm_moments := m,
            rm_value := moment_output rnd (rm_moment st) (rm_weighting st) m sample\<rparr>, True))"

section \<open>Exponentially weighted moving average\<close>

datatype ewma_decay = DecayPerTick f64 | DecayHalfLife f64

record ewma_stream =
  ew_upstream :: node
  ew_decay :: ewma_decay
  ew_value :: f64
  ew_initialised :: bool
  ew_last_time :: "nanotime option"

definition ewma_new :: "node \<Rightarrow> ewma_decay \<Rightarrow> ewma_stream" where
  "ewma_new upstream decay =
     \<lparr>ew_upstream = upstream, ew_decay = decay, ew_value = NaN, ew_initialised = False, ew_last_time = None\<rparr>"

definition LN_2 :: "rounding_mode \<Rightarrow> f64" where
  "LN_2 rnd = rnd (ln 2)"

definition ewma_cycle ::
  "rounding_mode \<Rightarrow> (f64 \<Rightarrow> f64) \<Rightarrow> ('a \<Rightarrow> f64 option) \<Rightarrow> (node \<Rightarrow> 'a) \<Rightarrow> graph_state \<Rightarrow> ewma_stream \<Rightarrow>
   (ewma_stream \<times> bool) option" where
  "ewma_cycle rnd fexp to_f64 peek gs st = (let sample = to_sample to_f64 (peek (ew_upstream st)) in
     if \<not> ew_initialised st
     then Some (st\<lparr>ew_value := sample, ew_initialised := True, ew_last_time := Some (gs_time gs)\<rparr>, True)
     else do {
       (st, alpha) \<leftarrow> (case ew_decay st of
           DecayPerTick alpha \<Rightarrow> Some (st, alpha)
         | DecayHalfLife half_life \<Rightarrow> do {
             prev \<leftarrow> ew_last_time st;
             let now = gs_time gs;
             Some (st\<lparr>ew_last_time := Some now\<rparr>,
               if f64_le half_life (Fin 0) then Fin 1
               else f64_sub rnd (Fin 1) (fexp (f64_mul rnd
                      (f64_neg (f64_div rnd (f64_from_nano rnd (nano_sub now prev)) half_life)) (LN_2 rnd)))) });
       Some (st\<lparr>ew_value := f64_add rnd (ew_value st) (f64_mul rnd alpha (f64_sub rnd sample (ew_value st)))\<rparr>, True) })"

section \<open>Cumulative sum, minimum and maximum\<close>

datatype cumulative_stat = CumulativeSum | CumulativeMin | CumulativeMax

record cumulative_stream =
  cu_upstream :: node
  cu_stat :: cumulative_stat
  cu_acc :: f64
  cu_seeded :: bool
  cu_value :: f64

definition cumulative_new :: "node \<Rightarrow> cumulative_stat \<Rightarrow> cumulative_stream" where
  "cumulative_new upstream stat =
     \<lparr>cu_upstream = upstream, cu_stat = stat, cu_acc = Fin 0, cu_seeded = False, cu_value = NaN\<rparr>"

definition cumulative_cycle ::
  "rounding_mode \<Rightarrow> ('a \<Rightarrow> f64 option) \<Rightarrow> (node \<Rightarrow> 'a) \<Rightarrow> cumulative_stream \<Rightarrow> cumulative_stream \<times> bool" where
  "cumulative_cycle rnd to_f64 peek st = (let
     sample = to_sample to_f64 (peek (cu_upstream st));
     acc = (if \<not> cu_seeded st then sample
            else case cu_stat st of
              CumulativeSum \<Rightarrow> f64_add rnd (cu_acc st) sample
            | CumulativeMin \<Rightarrow> f64_min (cu_acc st) sample
            | CumulativeMax \<Rightarrow> f64_max (cu_acc st) sample)
     in (st\<lparr>cu_acc := acc, cu_seeded := True, cu_value := acc\<rparr>, True))"

section \<open>Rolling sum\<close>

record rolling_sum_stream =
  rs_upstream :: node
  rs_window :: nat
  rs_buffer :: "f64 list"
  rs_sum :: f64
  rs_value :: f64

text \<open>The capacity of a window of eight-byte floats may be refused (\<open>None\<close>).\<close>

definition rolling_sum_new :: "node \<Rightarrow> nat \<Rightarrow> rolling_sum_stream option" where
  "rolling_sum_new upstream window = (let window = max window 1 in do {
     buffer \<leftarrow> vec_with_capacity 8 window;
     Some \<lparr>rs_upstream = upstream, rs_window = window, rs_buffer = buffer, rs_sum = Fin 0, rs_value = NaN\<rparr>
   })"

definition rolling_sum_cycle ::
  "rounding_mode \<Rightarrow> ('a \<Rightarrow> f64 option) \<Rightarrow> (node \<Rightarrow> 'a) \<Rightarrow> rolling_sum_stream \<Rightarrow> (rolling_sum_stream \<times> bool) option" where
  "rolling_sum_cycle rnd to_f64 peek st = (let
     sample = to_sample to_f64 (peek (rs_upstream st));
     st = st\<lparr>rs_buffer := rs_buffer st @ [sample], rs_sum := f64_add rnd (rs_sum st) sample\<rparr>
     in do {
       st \<leftarrow> (if rs_window st < length (rs_buffer st)
              then (case rs_buffer st of [] \<Rightarrow> None
                    | oldest # rest \<Rightarrow> Some (st\<lparr>rs_buffer := rest, rs_sum := f64_sub rnd (rs_sum st) oldest\<rparr>))
              else Some st);
       Some (st\<lparr>rs_value := rs_sum st\<rparr>, True) })"

section \<open>Rolling minimum and maximum\<close>

datatype extreme = ExtremeMin | ExtremeMax

record rolling_extreme_stream =
  re_upstream :: node
  re_extreme :: extreme
  re_window :: u64
  re_deque :: "(u64 \<times> f64) list"
  re_index :: u64
  re_value :: f64

definition rolling_extreme_new :: "node \<Rightarrow> extreme \<Rightarrow> nat \<Rightarrow> rolling_extreme_stream" where
  "rolling_extreme_new upstream extreme window =
     \<lparr>re_upstream = upstream, re_extreme = extreme, re_window = of_nat (max window 1),
      re_deque = [], re_index = 0, re_value = NaN\<rparr>"

fun dominated :: "extreme \<Rightarrow> f64 \<Rightarrow> f64 \<Rightarrow> bool" where
  "dominated ExtremeMin sample b = f64_le sample b"
| "dominated ExtremeMax sample b = f64_le b sample"

text \<open>The loop that pops the back of the deque, and the loop that pops its front.\<close>

definition drop_dominated :: "extreme \<Rightarrow> f64 \<Rightarrow> (u64 \<times> f64) list \<Rightarrow> (u64 \<times> f64) list" where
  "drop_dominated extreme sample deque =
     rev (dropWhile (\<lambda>p. dominated extreme sample (snd p)) (rev deque))"

definition drop_stale :: "u64 \<Rightarrow> u64 \<Rightarrow> (u64 \<times> f64) list \<Rightarrow> (u64 \<times> f64) list" where
  "drop_stale window i deque = dropWhile (\<lambda>p. window \<le> i - fst p) deque"

definition rolling_extreme_cycle ::
  "('a \<Rightarrow> f64 option) \<Rightarrow> (node \<Rightarrow> 'a) \<Rightarrow> rolling_extreme_stream \<Rightarrow> (rolling_extreme_stream \<times> bool) option" where
  "rolling_extreme_cycle to_f64 peek st = (let
     sample = to_sample to_f64 (peek (re_upstream st));
     i = re_index st;
     deque = drop_stale (re_window st) i (drop_dominated (re_extreme st) sample (re_deque st) @ [(i, sample)])
     in case deque of [] \<Rightarrow> None
        | p # _ \<Rightarrow> Some (st\<lparr>re_index := i + 1, re_deque := deque, re_value := snd p\<rparr>, True))"

section \<open>Statistics recomputed at every tick\<close>

datatype window_stat = WindowSum | WindowMin | WindowMax | WindowMedian

record stat_window_stream =
  ws_upstream :: node
  ws_stat :: window_stat
  ws_weighting :: weighting
  ws_window :: window
  ws_buffer :: "(f64 \<times> nanotime) list"
  ws_value :: f64

definition stat_window_new :: "node \<Rightarrow> window_stat \<Rightarrow> weighting \<Rightarrow> window \<Rightarrow> stat_window_stream" where
  "stat_window_new upstream stat weighting window =
     \<lparr>ws_upstream = upstream, ws_stat = stat, ws_weighting = weighting,
      ws_window = clamp_window window, ws_buffer = [], ws_value = NaN\<rparr>"

fun drop_excess :: "nat \<Rightarrow> 'b list \<Rightarrow> 'b list" where
  "drop_excess n [] = []"
| "drop_excess n (p # buffer) = (if n < length (p # buffer) then drop_excess n buffer else p # buffer)"

definition window_evict :: "window \<Rightarrow> nanotime \<Rightarrow> (f64 \<times> nanotime) list \<Rightarrow> (f64 \<times> nanotime) list" where
  "window_evict window now buffer = (case window of
     CountWindow n \<Rightarrow> drop_excess n buffer
   | TimeWindow duration \<Rightarrow> dropWhile (\<lambda>p. duration_as_u64 duration < raw now - raw (snd p)) buffer
   | Unbounded \<Rightarrow> buffer)"

text \<open>The samples with their weights, in the order the callback receives them.\<close>

definition weights_of :: "rounding_mode \<Rightarrow> weighting \<Rightarrow> nanotime \<Rightarrow> (f64 \<times> nanotime) list \<Rightarrow> (f64 \<times> f64) list" where
  "weights_of rnd weighting now buffer = (case weighting of
     CountWeighting \<Rightarrow> map (\<lambda>p. (fst p, Fin 1)) buffer
   | TimeWeighting \<Rightarrow> map (\<lambda>i. (fst (buffer ! i),
       f64_from_nano rnd (nano_sub (if i + 1 < length buffer then snd (buffer ! (i + 1)) else now) (snd (buffer ! i)))))
       [0..<length buffer])"

text \<open>
  \<^verbatim>\<open>sort_by\<close> with the comparison that takes incomparable values as equal. The sort is stable; where
  no value is NaN every stable sort gives this list.
\<close>

fun insert_by_value :: "f64 \<times> f64 \<Rightarrow> (f64 \<times> f64) list \<Rightarrow> (f64 \<times> f64) list" where
  "insert_by_value p [] = [p]"
| "insert_by_value p (q # qs) = (if f64_lt (fst q) (fst p) then q # insert_by_value p qs else p # q # qs)"

definition sort_by_value :: "(f64 \<times> f64) list \<Rightarrow> (f64 \<times> f64) list" where
  "sort_by_value ps = foldr insert_by_value ps []"

fun median_scan :: "rounding_mode \<Rightarrow> f64 \<Rightarrow> f64 \<Rightarrow> (f64 \<times> f64) list \<Rightarrow> f64 option" where
  "median_scan rnd half cumulative [] = None"
| "median_scan rnd half cumulative ((v, w) # ps) = (let cumulative = f64_add rnd cumulative w in
     if f64_lt half cumulative then Some v
     else if f64_eq cumulative half
     then Some (case ps of (nxt, _) # _ \<Rightarrow> f64_div rnd (f64_add rnd v nxt) (Fin 2) | [] \<Rightarrow> v)
     else median_scan rnd half cumulative ps)"

text \<open>A scan that ends without a crossing answers the last value.\<close>

definition weighted_median :: "rounding_mode \<Rightarrow> weighting \<Rightarrow> nanotime \<Rightarrow> (f64 \<times> nanotime) list \<Rightarrow> f64 option" where
  "weighted_median rnd weighting now buffer = (let
     pairs = filter (\<lambda>p. f64_lt (Fin 0) (snd p)) (weights_of rnd weighting now buffer) in
     if pairs = [] then (if buffer = [] then None else Some (fst (List.last buffer)))
     else let pairs = sort_by_value pairs;
              half = f64_div rnd (f64_sum rnd (map snd pairs)) (Fin 2)
          in Some (case median_scan rnd half (Fin 0) pairs of
               Some v \<Rightarrow> v | None \<Rightarrow> fst (List.last pairs)))"

definition window_compute :: "rounding_mode \<Rightarrow> window_stat \<Rightarrow> weighting \<Rightarrow> nanotime \<Rightarrow> (f64 \<times> nanotime) list \<Rightarrow> f64 option" where
  "window_compute rnd stat weighting now buffer =
     (if buffer = [] then Some NaN
      else case stat of
        WindowSum \<Rightarrow> Some (f64_sum rnd (map fst buffer))
      | WindowMin \<Rightarrow> Some (foldl f64_min PInf (map fst buffer))
      | WindowMax \<Rightarrow> Some (foldl f64_max NInf (map fst buffer))
      | WindowMedian \<Rightarrow> weighted_median rnd weighting now buffer)"

definition stat_window_cycle ::
  "rounding_mode \<Rightarrow> ('a \<Rightarrow> f64 option) \<Rightarrow> (node \<Rightarrow> 'a) \<Rightarrow> graph_state \<Rightarrow> stat_window_stream \<Rightarrow>
   (stat_window_stream \<times> bool) option" where
  "stat_window_cycle rnd to_f64 peek gs st = (let
     now = gs_time gs;
     sample = to_sample to_f64 (peek (ws_upstream st));
     buffer = window_evict (ws_window st) now (ws_buffer st @ [(sample, now)])
     in do {
       value \<leftarrow> window_compute rnd (ws_stat st) (ws_weighting st) now buffer;
       Some (st\<lparr>ws_buffer := buffer, ws_value := value\<rparr>, True) })"

section \<open>The operators\<close>

datatype stat_node =
    MomentNode moment_stream
  | RollingMomentNode rolling_moment_stream
  | EwmaNode ewma_stream
  | CumulativeNode cumulative_stream
  | RollingSumNode rolling_sum_stream
  | RollingExtremeNode rolling_extreme_stream
  | WindowNode stat_window_stream

definition stat_moment :: "node \<Rightarrow> moment \<Rightarrow> window \<Rightarrow> weighting \<Rightarrow> stat_node" where
  "stat_moment upstream moment window weighting = (case window of
     Unbounded \<Rightarrow> MomentNode (moment_stream_new upstream moment weighting)
   | _ \<Rightarrow> RollingMomentNode (rolling_moment_new upstream moment weighting window))"

definition stat_mean :: "node \<Rightarrow> window \<Rightarrow> weighting \<Rightarrow> stat_node" where
  "stat_mean upstream window weighting = stat_moment upstream Mean window weighting"

definition stat_variance :: "node \<Rightarrow> window \<Rightarrow> weighting \<Rightarrow> stat_node" where
  "stat_variance upstream window weighting = stat_moment upstream Var window weighting"

definition stat_std :: "node \<Rightarrow> window \<Rightarrow> weighting \<Rightarrow> stat_node" where
  "stat_std upstream window weighting = stat_moment upstream Std window weighting"

definition stat_sum :: "node \<Rightarrow> window \<Rightarrow> stat_node option" where
  "stat_sum upstream window = (case window of
     Unbounded \<Rightarrow> Some (CumulativeNode (cumulative_new upstream CumulativeSum))
   | CountWindow n \<Rightarrow> map_option RollingSumNode (rolling_sum_new upstream n)
   | TimeWindow _ \<Rightarrow> Some (WindowNode (stat_window_new upstream WindowSum CountWeighting window)))"

definition stat_min :: "node \<Rightarrow> window \<Rightarrow> stat_node" where
  "stat_min upstream window = (case window of
     Unbounded \<Rightarrow> CumulativeNode (cumulative_new upstream CumulativeMin)
   | CountWindow n \<Rightarrow> RollingExtremeNode (rolling_extreme_new upstream ExtremeMin n)
   | TimeWindow _ \<Rightarrow> WindowNode (stat_window_new upstream WindowMin CountWeighting window))"

definition stat_max :: "node \<Rightarrow> window \<Rightarrow> stat_node" where
  "stat_max upstream window = (case window of
     Unbounded \<Rightarrow> CumulativeNode (cumulative_new upstream CumulativeMax)
   | CountWindow n \<Rightarrow> RollingExtremeNode (rolling_extreme_new upstream ExtremeMax n)
   | TimeWindow _ \<Rightarrow> WindowNode (stat_window_new upstream WindowMax CountWeighting window))"

definition stat_median :: "node \<Rightarrow> window \<Rightarrow> weighting \<Rightarrow> stat_node" where
  "stat_median upstream window weighting =
     WindowNode (stat_window_new upstream WindowMedian weighting window)"

definition stat_ewma :: "rounding_mode \<Rightarrow> node \<Rightarrow> ewma_span \<Rightarrow> stat_node" where
  "stat_ewma rnd upstream ewma_span = EwmaNode (ewma_new upstream (case ewma_span of
     SpanPerTick alpha \<Rightarrow> DecayPerTick alpha
   | SpanHalfLife half_life \<Rightarrow> DecayHalfLife (u64_as_f64 rnd (duration_as_nanos half_life))))"

text \<open>\<^verbatim>\<open>MutableNode::cycle\<close> and \<^verbatim>\<open>StreamPeekRef::peek_ref\<close> of the node behind the trait object.\<close>

definition stat_cycle ::
  "rounding_mode \<Rightarrow> (f64 \<Rightarrow> f64) \<Rightarrow> ('a \<Rightarrow> f64 option) \<Rightarrow> (node \<Rightarrow> 'a) \<Rightarrow> graph_state \<Rightarrow> stat_node \<Rightarrow>
   (stat_node \<times> bool) option" where
  "stat_cycle rnd fexp to_f64 peek gs sn = (case sn of
     MomentNode st \<Rightarrow> Some (apfst MomentNode (moment_cycle rnd to_f64 peek gs st))
   | RollingMomentNode st \<Rightarrow> Some (apfst RollingMomentNode (rolling_moment_cycle rnd to_f64 peek gs st))
   | EwmaNode st \<Rightarrow> map_option (apfst EwmaNode) (ewma_cycle rnd fexp to_f64 peek gs st)
   | CumulativeNode st \<Rightarrow> Some (apfst CumulativeNode (cumulative_cycle rnd to_f64 peek st))
   | RollingSumNode st \<Rightarrow> map_option (apfst RollingSumNode) (rolling_sum_cycle rnd to_f64 peek st)
   | RollingExtremeNode st \<Rightarrow> map_option (apfst RollingExtremeNode) (rolling_extreme_cycle to_f64 peek st)
   | WindowNode st \<Rightarrow> map_option (apfst WindowNode) (stat_window_cycle rnd to_f64 peek gs st))"

fun stat_value :: "stat_node \<Rightarrow> f64" where
  "stat_value (MomentNode st) = ms_value st"
| "stat_value (RollingMomentNode st) = rm_value st"
| "stat_value (EwmaNode st) = ew_value st"
| "stat_value (CumulativeNode st) = cu_value st"
| "stat_value (RollingSumNode st) = rs_value st"
| "stat_value (RollingExtremeNode st) = re_value st"
| "stat_value (WindowNode st) = ws_value st"

fun stat_upstream :: "stat_node \<Rightarrow> node" where
  "stat_upstream (MomentNode st) = ms_upstream st"
| "stat_upstream (RollingMomentNode st) = rm_upstream st"
| "stat_upstream (EwmaNode st) = ew_upstream st"
| "stat_upstream (CumulativeNode st) = cu_upstream st"
| "stat_upstream (RollingSumNode st) = rs_upstream st"
| "stat_upstream (RollingExtremeNode st) = re_upstream st"
| "stat_upstream (WindowNode st) = ws_upstream st"

definition stat_upstreams :: "stat_node \<Rightarrow> node list \<times> node list" where
  "stat_upstreams sn = ([stat_upstream sn], [])"

end
