(* ===== verification/Statistics_Windows.thy ===== *)
theory Statistics_Windows
  imports Statistics
begin

text \<open>
  What the order statistics and the sums of \<^verbatim>\<open>statistics.rs\<close> emit, against one specification of a
  window: \<open>window_spec\<close> is the part of the samples so far that a window holds. Three different nodes
  implement each operator, one per kind of window; the theorems say that all of them answer the
  statistic of \<open>window_spec\<close>.
\<close>

section \<open>Running an operator\<close>

text \<open>A tick is the state of the graph and the value of the upstream at that cycle.\<close>

fun stat_run ::
  "rounding_mode \<Rightarrow> (f64 \<Rightarrow> f64) \<Rightarrow> ('a \<Rightarrow> f64 option) \<Rightarrow> (graph_state \<times> 'a) list \<Rightarrow> stat_node \<Rightarrow> stat_node option" where
  "stat_run rnd fexp to_f64 [] sn = Some sn"
| "stat_run rnd fexp to_f64 (t # ticks) sn = do {
     (sn, _) \<leftarrow> stat_cycle rnd fexp to_f64 (\<lambda>_. snd t) (fst t) sn;
     stat_run rnd fexp to_f64 ticks sn }"

definition samples_of :: "('a \<Rightarrow> f64 option) \<Rightarrow> (graph_state \<times> 'a) list \<Rightarrow> (f64 \<times> nanotime) list" where
  "samples_of to_f64 ticks = map (\<lambda>t. (to_sample to_f64 (snd t), gs_time (fst t))) ticks"

definition window_spec :: "window \<Rightarrow> (f64 \<times> nanotime) list \<Rightarrow> (f64 \<times> nanotime) list" where
  "window_spec w ps = (case w of
     CountWindow n \<Rightarrow> drop (length ps - max n 1) ps
   | TimeWindow d \<Rightarrow> filter (\<lambda>p. raw (snd (List.last ps)) - raw (snd p) \<le> duration_as_u64 d) ps
   | Unbounded \<Rightarrow> ps)"

abbreviation window_values :: "window \<Rightarrow> ('a \<Rightarrow> f64 option) \<Rightarrow> (graph_state \<times> 'a) list \<Rightarrow> f64 list" where
  "window_values w to_f64 ticks \<equiv> map fst (window_spec w (samples_of to_f64 ticks))"

text \<open>Ticks of a run: the clock does not go back, and no sample is NaN.\<close>

definition time_ordered :: "(f64 \<times> nanotime) list \<Rightarrow> bool" where
  "time_ordered ps \<longleftrightarrow> sorted (map snd ps)"

definition nan_free :: "(f64 \<times> nanotime) list \<Rightarrow> bool" where
  "nan_free ps \<longleftrightarrow> list_all (\<lambda>p. \<not> is_nan (fst p)) ps"

text \<open>A count fits \<^verbatim>\<open>usize\<close>.\<close>

fun window_fits :: "window \<Rightarrow> bool" where
  "window_fits (CountWindow n) \<longleftrightarrow> n < 2 ^ 64"
| "window_fits _ \<longleftrightarrow> True"

lemma stat_run_snoc:
  "stat_run rnd fexp to_f64 (ticks @ [t]) sn = do {
     sn \<leftarrow> stat_run rnd fexp to_f64 ticks sn;
     (sn, _) \<leftarrow> stat_cycle rnd fexp to_f64 (\<lambda>_. snd t) (fst t) sn;
     Some sn }"
  by (induction ticks arbitrary: sn) (auto split: bind_splits)

lemma samples_of_simps [simp]:
  "samples_of to_f64 [] = []"
  "samples_of to_f64 [t] = [(to_sample to_f64 (snd t), gs_time (fst t))]"
  "samples_of to_f64 (ticks @ [t]) = samples_of to_f64 ticks @ [(to_sample to_f64 (snd t), gs_time (fst t))]"
  "length (samples_of to_f64 ticks) = length ticks"
  "samples_of to_f64 ticks = [] \<longleftrightarrow> ticks = []"
  by (simp_all add: samples_of_def)

lemma time_ordered_snoc: "time_ordered (ps @ [p]) \<longleftrightarrow> time_ordered ps \<and> (\<forall>q \<in> set ps. snd q \<le> snd p)"
  by (auto simp: time_ordered_def sorted_append)

lemma time_ordered_le_last: "time_ordered ps \<Longrightarrow> q \<in> set ps \<Longrightarrow> snd q \<le> snd (List.last ps)"
  by (induction ps) (auto simp: time_ordered_def)

lemma nan_free_snoc [simp]: "nan_free (ps @ [p]) \<longleftrightarrow> nan_free ps \<and> \<not> is_nan (fst p)"
  by (auto simp: nan_free_def)

lemma nan_free_values: "nan_free ps \<longleftrightarrow> (\<forall>x \<in> set (map fst ps). \<not> is_nan x)"
  by (simp add: nan_free_def list_all_iff)

section \<open>Eviction\<close>

lemma drop_excess_eq: "drop_excess n xs = drop (length xs - n) xs"
  by (induction xs) (auto simp: Suc_diff_le not_less)

lemma dropWhile_eq_filter:
  "sorted_wrt (\<lambda>x y. P y \<longrightarrow> P x) xs \<Longrightarrow> dropWhile P xs = filter (\<lambda>x. \<not> P x) xs"
  by (induction xs) (auto simp: filter_id_conv)

lemma word_age_mono: "t \<le> now \<Longrightarrow> now \<le> later \<Longrightarrow> now - t \<le> later - t" for t :: "'a::len word"
  by (simp add: word_le_nat_alt unat_sub)

lemma word_age_antimono: "t \<le> u \<Longrightarrow> u \<le> now \<Longrightarrow> now - u \<le> now - t" for t :: "'a::len word"
  by (simp add: word_le_nat_alt unat_sub)

lemma expired_order:
  assumes "time_ordered ps" "\<forall>q \<in> set ps. snd q \<le> now"
  shows "sorted_wrt (\<lambda>x y. d < raw now - raw (snd y) \<longrightarrow> d < raw now - raw (snd x)) ps"
proof -
  have "sorted_wrt (\<lambda>x y. snd x \<le> snd y \<and> snd y \<le> now) ps"
    using assms by (induction ps) (auto simp: time_ordered_def)
  then show ?thesis
    by (rule sorted_wrt_mono_rel[rotated])
      (auto simp: less_eq_nanotime_def intro: less_le_trans word_age_antimono)
qed

lemma window_spec_snoc:
  assumes "time_ordered (ps @ [p])"
  shows "window_evict (clamp_window w) (snd p) (window_spec w ps @ [p]) = window_spec w (ps @ [p])"
proof (cases w)
  case (CountWindow n)
  then show ?thesis
    by (cases "length ps \<le> max n 1")
      (auto simp: window_evict_def window_spec_def clamp_window_def drop_excess_eq Suc_diff_le)
next
  case (TimeWindow d)
  let ?late = "\<lambda>q. duration_as_u64 d < raw (snd p) - raw (snd q)"
  from assms have le: "\<forall>q \<in> set ps. snd q \<le> snd p" by (simp add: time_ordered_snoc)
  have still: "raw (snd (List.last ps)) - raw (snd q) \<le> duration_as_u64 d"
    if "q \<in> set ps" "raw (snd p) - raw (snd q) \<le> duration_as_u64 d" for q
  proof -
    have "List.last ps \<in> set ps" using that(1) by (intro last_in_set) auto
    then have "snd q \<le> snd (List.last ps)" "snd (List.last ps) \<le> snd p"
      using assms that(1) le by (auto simp: time_ordered_snoc time_ordered_le_last)
    then show ?thesis
      using that(2) by (auto simp: less_eq_nanotime_def intro: order_trans[OF word_age_mono])
  qed
  let ?kept = "window_spec w ps @ [p]"
  have "time_ordered ?kept" "\<forall>q \<in> set ?kept. snd q \<le> snd p"
    using assms le TimeWindow sorted_filter
    by (auto simp: window_spec_def time_ordered_def sorted_append)
  from dropWhile_eq_filter[OF expired_order[OF this]]
  have "window_evict (clamp_window w) (snd p) ?kept = filter (\<lambda>q. \<not> ?late q) ?kept"
    by (simp add: window_evict_def clamp_window_def TimeWindow)
  also have "\<dots> = filter (\<lambda>q. \<not> ?late q) (ps @ [p])"
    using still by (auto simp: window_spec_def TimeWindow not_less intro!: filter_cong)
  finally show ?thesis by (simp add: window_spec_def TimeWindow not_less)
qed (simp add: window_evict_def window_spec_def clamp_window_def)

lemma window_spec_nonempty: "ps \<noteq> [] \<Longrightarrow> window_spec w ps \<noteq> []"
  by (cases ps rule: rev_cases) (auto simp: window_spec_def split: window.split)

lemma window_spec_subset: "set (window_spec w ps) \<subseteq> set ps"
  by (auto simp: window_spec_def dest: in_set_dropD split: window.splits)

section \<open>The monotonic deque\<close>

text \<open>
  \<open>dominated ext a b\<close>: \<open>a\<close> is at least as extreme as \<open>b\<close>. On values that are not NaN it is a total
  order, read upwards or downwards.
\<close>

lemma dominated_trans: "dominated ext a b \<Longrightarrow> dominated ext b c \<Longrightarrow> dominated ext a c"
  by (cases ext) (auto intro: f64_le_trans)

lemma dominated_total: "\<not> is_nan a \<Longrightarrow> \<not> is_nan b \<Longrightarrow> \<not> dominated ext a b \<Longrightarrow> dominated ext b a"
  using f64_le_total[of a b] by (cases ext) auto

lemma dominated_refl: "\<not> is_nan a \<Longrightarrow> dominated ext a a"
  by (cases ext) (auto intro: f64_le_refl)

text \<open>The candidates of a list: the entries no later entry dominates.\<close>

fun candidates :: "extreme \<Rightarrow> ('i \<times> f64) list \<Rightarrow> ('i \<times> f64) list" where
  "candidates ext [] = []"
| "candidates ext (p # ps) =
     (if \<exists>q \<in> set ps. dominated ext (snd q) (snd p) then candidates ext ps else p # candidates ext ps)"

lemma candidates_subset: "set (candidates ext ps) \<subseteq> set ps"
  by (induction ps) auto

lemma candidates_snoc:
  "candidates ext (ps @ [s]) = filter (\<lambda>p. \<not> dominated ext (snd s) (snd p)) (candidates ext ps) @ [s]"
  by (induction ps) auto

lemma candidates_nonempty: "ps \<noteq> [] \<Longrightarrow> candidates ext ps \<noteq> []"
  by (cases ps rule: rev_cases) (simp_all add: candidates_snoc)

lemma candidates_ordered: "sorted_wrt (\<lambda>p q. \<not> dominated ext (snd q) (snd p)) (candidates ext ps)"
  using candidates_subset by (induction ps) fastforce+

lemma rev_dropWhile_rev_eq_filter:
  "sorted_wrt (\<lambda>x y. P x \<longrightarrow> P y) xs \<Longrightarrow> rev (dropWhile P (rev xs)) = filter (\<lambda>x. \<not> P x) xs"
  by (induction xs rule: rev_induct) (auto simp: sorted_wrt_append)

lemma drop_dominated_candidates:
  assumes "\<forall>p \<in> set ps. \<not> is_nan (snd p)"
  shows "drop_dominated ext s (candidates ext ps) = filter (\<lambda>p. \<not> dominated ext s (snd p)) (candidates ext ps)"
proof -
  have step: "dominated ext s (snd q)"
    if "p \<in> set (candidates ext ps)" "q \<in> set (candidates ext ps)" "\<not> dominated ext (snd q) (snd p)"
      "dominated ext s (snd p)" for p q
    using that assms candidates_subset[of ext ps] dominated_total[of "snd q" "snd p" ext]
      dominated_trans[of ext s "snd p" "snd q"] by auto
  have "sorted_wrt (\<lambda>p q. dominated ext s (snd p) \<longrightarrow> dominated ext s (snd q)) (candidates ext ps)"
    by (rule sorted_wrt_mono_rel[OF _ candidates_ordered]) (use step in blast)
  then show ?thesis
    unfolding drop_dominated_def by (rule rev_dropWhile_rev_eq_filter)
qed

lemma hd_candidates_extreme:
  assumes "\<forall>p \<in> set ps. \<not> is_nan (snd p)" "q \<in> set ps"
  shows "dominated ext (snd (hd (candidates ext ps))) (snd q)"
  using assms
proof (induction ps arbitrary: q)
  case (Cons p ps)
  show ?case
  proof (cases "\<exists>r \<in> set ps. dominated ext (snd r) (snd p)")
    case True
    then obtain r where r: "r \<in> set ps" "dominated ext (snd r) (snd p)" by blast
    have best: "dominated ext (snd (hd (candidates ext ps))) (snd t)" if "t \<in> set ps" for t
      using Cons that by simp
    have "dominated ext (snd (hd (candidates ext ps))) (snd p)"
      by (rule dominated_trans[OF best[OF r(1)] r(2)])
    with best[of q] True Cons.prems(2) show ?thesis by auto
  next
    case False
    with Cons.prems show ?thesis by (auto intro: dominated_refl dominated_total)
  qed
qed simp

text \<open>The samples so far, with their positions as \<^verbatim>\<open>u64\<close>.\<close>

definition indexed :: "'b list \<Rightarrow> (u64 \<times> 'b) list" where
  "indexed xs = map (\<lambda>i. (of_nat i, xs ! i)) [0..<length xs]"

lemma indexed_snoc: "indexed (xs @ [x]) = indexed xs @ [(of_nat (length xs), x)]"
  by (auto simp: indexed_def nth_append)

lemma length_indexed [simp]: "length (indexed xs) = length xs"
  by (simp add: indexed_def)

lemma map_snd_indexed [simp]: "map snd (indexed xs) = xs"
  by (simp add: indexed_def comp_def map_nth)

lemma indexed_values: "p \<in> set (indexed xs) \<Longrightarrow> snd p \<in> set xs"
  by (auto simp: indexed_def)

lemma stale_index:
  assumes "j \<le> len" "len < 2 ^ 64" "n < 2 ^ 64"
  shows "(of_nat n :: u64) \<le> of_nat len - of_nat j \<longleftrightarrow> n \<le> len - j"
proof -
  have diff: "(of_nat len - of_nat j :: u64) = of_nat (len - j)" using assms(1) by simp
  show ?thesis unfolding diff using assms by (simp add: word_le_nat_alt unat_of_nat del: of_nat_diff)
qed

lemma drop_stale_candidates:
  assumes "length xs < 2 ^ 64" "0 < n" "n < 2 ^ 64"
  shows "drop_stale (of_nat n) (of_nat (length xs))
      (candidates ext (drop (length xs - n) (indexed xs) @ [(of_nat (length xs), x)])) =
    candidates ext (drop (Suc (length xs) - n) (indexed xs @ [(of_nat (length xs), x)]))"
proof -
  let ?len = "length xs"
  define L where "L = indexed xs @ [(of_nat ?len, x)]"
  have len: "length L = Suc ?len" by (simp add: L_def)
  have nth: "fst (L ! j) = of_nat j" if "j \<le> ?len" for j
    using that by (cases "j = ?len") (auto simp: L_def indexed_def nth_append)
  have fresh: "\<not> of_nat n \<le> (of_nat ?len - fst p :: u64)" if "p \<in> set (drop (Suc ?len - n) L)" for p
  proof -
    from that obtain k where k: "k < Suc ?len - (Suc ?len - n)" "p = L ! (Suc ?len - n + k)"
      using len by (auto simp: in_set_conv_nth)
    then show ?thesis
      using nth[of "Suc ?len - n + k"] stale_index[of "Suc ?len - n + k" ?len n] assms by auto
  qed
  have keep: "drop_stale (of_nat n) (of_nat ?len) (candidates ext (drop (Suc ?len - n) L))
      = candidates ext (drop (Suc ?len - n) L)"
    using fresh[OF subsetD[OF candidates_subset hd_in_set]] by (auto simp: drop_stale_def dropWhile_eq_self_iff)
  show ?thesis
  proof (cases "n \<le> ?len")
    case True
    then have "drop (?len - n) L = L ! (?len - n) # drop (Suc ?len - n) L"
      using len by (simp add: Cons_nth_drop_Suc Suc_diff_le)
    moreover have "of_nat n \<le> (of_nat ?len - fst (L ! (?len - n)) :: u64)"
      using nth[of "?len - n"] stale_index[of "?len - n" ?len n] True assms by simp
    ultimately have "drop_stale (of_nat n) (of_nat ?len) (candidates ext (drop (?len - n) L))
        = candidates ext (drop (Suc ?len - n) L)"
      using keep by (simp add: drop_stale_def)
    then show ?thesis using True by (simp add: L_def)
  next
    case False
    then show ?thesis using keep by (simp add: L_def)
  qed
qed

lemma rolling_extreme_run:
  assumes "nan_free (samples_of to_f64 ticks)" "length ticks < 2 ^ 64" "n < 2 ^ 64"
  shows "\<exists>st. stat_run rnd fexp to_f64 ticks (RollingExtremeNode (rolling_extreme_new up ext n)) = Some (RollingExtremeNode st) \<and>
    re_extreme st = ext \<and> re_window st = of_nat (max n 1) \<and> re_index st = of_nat (length ticks) \<and>
    re_deque st = candidates ext (drop (length ticks - max n 1) (indexed (map fst (samples_of to_f64 ticks)))) \<and>
    (ticks \<noteq> [] \<longrightarrow> re_value st = snd (hd (re_deque st)))"
  using assms(1,2)
proof (induction ticks rule: rev_induct)
  case Nil
  then show ?case by (simp add: rolling_extreme_new_def indexed_def)
next
  case (snoc t ticks)
  define xs where "xs = map fst (samples_of to_f64 ticks)"
  have len: "length xs = length ticks" by (simp add: xs_def)
  from snoc obtain st where st: "stat_run rnd fexp to_f64 ticks (RollingExtremeNode (rolling_extreme_new up ext n)) = Some (RollingExtremeNode st)"
    "re_extreme st = ext" "re_window st = of_nat (max n 1)" "re_index st = of_nat (length xs)"
    "re_deque st = candidates ext (drop (length xs - max n 1) (indexed xs))"
    unfolding len unfolding xs_def by auto
  let ?x = "to_sample to_f64 (snd t)" and ?W = "drop (length xs - max n 1) (indexed xs)"
  have "\<not> is_nan (snd p)" if "p \<in> set (indexed xs)" for p
    using indexed_values[OF that] snoc.prems(1) by (auto simp: xs_def nan_free_values)
  then have "\<forall>p \<in> set ?W. \<not> is_nan (snd p)" by (auto dest: in_set_dropD)
  then have popped: "drop_dominated ext ?x (re_deque st) @ [(of_nat (length xs), ?x)]
      = candidates ext (?W @ [(of_nat (length xs), ?x)])"
    by (simp add: st(5) drop_dominated_candidates candidates_snoc)
  define D where "D = candidates ext (drop (Suc (length xs) - max n 1) (indexed (xs @ [?x])))"
  have "length xs < 2 ^ 64" "0 < max n 1" "max n 1 < 2 ^ 64" using snoc.prems(2) assms(3) len by auto
  from drop_stale_candidates[OF this] have front:
    "drop_stale (re_window st) (re_index st) (drop_dominated (re_extreme st) ?x (re_deque st) @ [(re_index st, ?x)]) = D"
    unfolding st(2,3,4) popped D_def indexed_snoc by blast
  have "D \<noteq> []" unfolding D_def by (intro candidates_nonempty) (simp add: indexed_snoc)
  then show ?case
    using st(1-4) front len
    by (auto simp: stat_run_snoc stat_cycle_def rolling_extreme_cycle_def Let_def D_def xs_def add.commute
        split: list.splits)
qed

definition is_extreme :: "extreme \<Rightarrow> f64 \<Rightarrow> f64 list \<Rightarrow> bool" where
  "is_extreme ext v xs \<longleftrightarrow> v \<in> set xs \<and> (\<forall>x \<in> set xs. dominated ext v x)"

lemma candidates_extreme:
  assumes "\<forall>p \<in> set ps. \<not> is_nan (snd p)" "ps \<noteq> []"
  shows "is_extreme ext (snd (hd (candidates ext ps))) (map snd ps)"
  using hd_candidates_extreme[OF assms(1)] candidates_subset[of ext ps] hd_in_set[OF candidates_nonempty[OF assms(2), of ext]]
  by (auto simp: is_extreme_def)

section \<open>Folds\<close>

fun extreme_op :: "extreme \<Rightarrow> f64 \<Rightarrow> f64 \<Rightarrow> f64" where
  "extreme_op ExtremeMin = f64_min"
| "extreme_op ExtremeMax = f64_max"

lemma extreme_op_eq:
  "\<not> is_nan a \<Longrightarrow> \<not> is_nan b \<Longrightarrow> extreme_op ext a b = (if dominated ext a b then a else b)"
  by (cases ext) (simp_all add: f64_min_def f64_max_def)

lemma extreme_fold:
  assumes "\<not> is_nan a" "\<forall>x \<in> set xs. \<not> is_nan x"
  shows "is_extreme ext (foldl (extreme_op ext) a xs) (a # xs)"
  using assms
proof (induction xs arbitrary: a)
  case Nil
  then show ?case by (simp add: is_extreme_def dominated_refl)
next
  case (Cons x xs)
  let ?b = "extreme_op ext a x"
  have b: "?b = a \<and> dominated ext a x \<or> ?b = x \<and> dominated ext x a"
    using Cons.prems dominated_total[of a x ext] by (auto simp: extreme_op_eq)
  with Cons have "is_extreme ext (foldl (extreme_op ext) ?b xs) (?b # xs)" by auto
  with b show ?case by (auto simp: is_extreme_def intro: dominated_trans)
qed

lemma dominated_by_infinity: "\<not> is_nan x \<Longrightarrow> dominated ext x (case ext of ExtremeMin \<Rightarrow> PInf | ExtremeMax \<Rightarrow> NInf)"
  by (cases ext; cases x) auto

lemma extreme_fold_infinity:
  assumes "xs \<noteq> []" "\<forall>x \<in> set xs. \<not> is_nan x"
  shows "is_extreme ext (foldl (extreme_op ext) (case ext of ExtremeMin \<Rightarrow> PInf | ExtremeMax \<Rightarrow> NInf) xs) xs"
    (is "is_extreme ext (foldl _ ?inf xs) xs")
proof -
  have "\<not> is_nan ?inf" by (cases ext) (simp_all add: is_nan_def)
  from extreme_fold[OF this assms(2), of ext]
  have e: "is_extreme ext (foldl (extreme_op ext) ?inf xs) (?inf # xs)" .
  have "foldl (extreme_op ext) ?inf xs \<in> set xs" if "foldl (extreme_op ext) ?inf xs = ?inf"
  proof -
    obtain x where x: "x \<in> set xs" using assms(1) by (cases xs) auto
    with e that have "dominated ext ?inf x" by (simp add: is_extreme_def)
    moreover have "dominated ext x ?inf" using x assms(2) by (intro dominated_by_infinity) auto
    ultimately have "x = ?inf" by (cases ext) (auto dest: f64_le_antisym)
    with x that show ?thesis by simp
  qed
  with e show ?thesis by (auto simp: is_extreme_def)
qed

section \<open>The nodes that keep an accumulator or a buffer\<close>

text \<open>The accumulator after the first sample is a fold over the rest.\<close>

fun cumulative_op :: "rounding_mode \<Rightarrow> cumulative_stat \<Rightarrow> f64 \<Rightarrow> f64 \<Rightarrow> f64" where
  "cumulative_op rnd CumulativeSum = f64_add rnd"
| "cumulative_op rnd CumulativeMin = f64_min"
| "cumulative_op rnd CumulativeMax = f64_max"

lemma cumulative_run:
  "\<exists>st. stat_run rnd fexp to_f64 ticks (CumulativeNode (cumulative_new up stat)) = Some (CumulativeNode st) \<and>
    cu_stat st = stat \<and> cu_seeded st = (ticks \<noteq> []) \<and>
    (ticks \<noteq> [] \<longrightarrow> cu_acc st = cu_value st \<and>
      cu_value st = (case map fst (samples_of to_f64 ticks) of x # xs \<Rightarrow> foldl (cumulative_op rnd stat) x xs))"
proof (induction ticks rule: rev_induct)
  case Nil
  then show ?case by (simp add: cumulative_new_def)
next
  case (snoc t ticks)
  then show ?case
    by (cases stat; cases "samples_of to_f64 ticks")
      (auto simp: stat_run_snoc stat_cycle_def cumulative_cycle_def Let_def)
qed

lemma window_compute_some: "\<exists>v. window_compute rnd stat weighting now buffer = Some v"
  by (cases stat) (auto simp: window_compute_def weighted_median_def Let_def)

lemma window_run:
  assumes "time_ordered (samples_of to_f64 ticks)"
  shows "\<exists>st. stat_run rnd fexp to_f64 ticks (WindowNode (stat_window_new up stat weighting w)) = Some (WindowNode st) \<and>
    ws_stat st = stat \<and> ws_weighting st = weighting \<and> ws_window st = clamp_window w \<and>
    ws_buffer st = window_spec w (samples_of to_f64 ticks) \<and>
    (ticks \<noteq> [] \<longrightarrow> window_compute rnd stat weighting (gs_time (fst (List.last ticks)))
       (window_spec w (samples_of to_f64 ticks)) = Some (ws_value st))"
  using assms
proof (induction ticks rule: rev_induct)
  case Nil
  then show ?case by (cases w) (simp_all add: stat_window_new_def window_spec_def)
next
  case (snoc t ticks)
  let ?p = "(to_sample to_f64 (snd t), gs_time (fst t))"
  from snoc obtain st where st: "stat_run rnd fexp to_f64 ticks (WindowNode (stat_window_new up stat weighting w)) = Some (WindowNode st)"
    "ws_stat st = stat" "ws_weighting st = weighting" "ws_window st = clamp_window w"
    "ws_buffer st = window_spec w (samples_of to_f64 ticks)"
    by (auto simp: time_ordered_snoc)
  have evict: "window_evict (clamp_window w) (gs_time (fst t)) (window_spec w (samples_of to_f64 ticks) @ [?p])
      = window_spec w (samples_of to_f64 ticks @ [?p])"
    using window_spec_snoc[of "samples_of to_f64 ticks" ?p w] snoc.prems by simp
  have "window_spec w (samples_of to_f64 ticks @ [?p]) \<noteq> []" by (simp add: window_spec_nonempty)
  then obtain v where "window_compute rnd stat weighting (gs_time (fst t)) (window_spec w (samples_of to_f64 ticks @ [?p])) = Some v"
    using window_compute_some by blast
  with st evict show ?case
    by (simp add: stat_run_snoc stat_cycle_def stat_window_cycle_def Let_def)
qed

section \<open>Minimum and maximum\<close>

fun stat_extreme :: "extreme \<Rightarrow> node \<Rightarrow> window \<Rightarrow> stat_node" where
  "stat_extreme ExtremeMin = stat_min"
| "stat_extreme ExtremeMax = stat_max"

lemma extreme_over_window:
  assumes "ticks \<noteq> []" "time_ordered (samples_of to_f64 ticks)" "nan_free (samples_of to_f64 ticks)"
    "length ticks < 2 ^ 64" "window_fits w"
  shows "\<exists>sn. stat_run rnd fexp to_f64 ticks (stat_extreme ext up w) = Some sn \<and>
    is_extreme ext (stat_value sn) (window_values w to_f64 ticks)"
proof (cases w)
  case (CountWindow n)
  let ?xs = "map fst (samples_of to_f64 ticks)"
  let ?W = "drop (length ticks - max n 1) (indexed ?xs)"
  have n: "n < 2 ^ 64" using assms(5) CountWindow by simp
  from rolling_extreme_run[OF assms(3,4) n, of rnd fexp up ext] assms(1) obtain st where
    st: "stat_run rnd fexp to_f64 ticks (RollingExtremeNode (rolling_extreme_new up ext n)) = Some (RollingExtremeNode st)"
      "re_value st = snd (hd (candidates ext ?W))" by auto
  have "\<forall>p \<in> set ?W. \<not> is_nan (snd p)"
    using assms(3) indexed_values[of _ ?xs] by (fastforce simp: nan_free_values dest: in_set_dropD)
  moreover have "?W \<noteq> []" using assms(1) by (auto simp: not_le)
  moreover have "map snd ?W = window_values w to_f64 ticks"
    by (simp add: window_spec_def CountWindow flip: drop_map)
  ultimately have "is_extreme ext (re_value st) (window_values w to_f64 ticks)"
    using candidates_extreme[of ?W ext] st(2) by simp
  with st(1) show ?thesis
    by (cases ext) (auto simp: stat_min_def stat_max_def CountWindow)
next
  case (TimeWindow d)
  let ?W = "window_values w to_f64 ticks"
  let ?stat = "case ext of ExtremeMin \<Rightarrow> WindowMin | ExtremeMax \<Rightarrow> WindowMax"
  from window_run[OF assms(2), of rnd fexp up ?stat CountWeighting w] assms(1) obtain st where
    st: "stat_run rnd fexp to_f64 ticks (WindowNode (stat_window_new up ?stat CountWeighting w)) = Some (WindowNode st)"
      "window_compute rnd ?stat CountWeighting (gs_time (fst (List.last ticks))) (window_spec w (samples_of to_f64 ticks)) = Some (ws_value st)"
    by auto
  have ne: "window_spec w (samples_of to_f64 ticks) \<noteq> []" using assms(1) by (simp add: window_spec_nonempty)
  with st(2) have "ws_value st = foldl (extreme_op ext) (case ext of ExtremeMin \<Rightarrow> PInf | ExtremeMax \<Rightarrow> NInf) ?W"
    by (cases ext) (simp_all add: window_compute_def)
  moreover have "\<forall>x \<in> set ?W. \<not> is_nan x"
    using assms(3) window_spec_subset[of w "samples_of to_f64 ticks"] by (auto simp: nan_free_values)
  ultimately have "is_extreme ext (ws_value st) ?W" using extreme_fold_infinity[of ?W ext] ne by simp
  with st(1) show ?thesis
    by (cases ext) (auto simp: stat_min_def stat_max_def TimeWindow)
next
  case Unbounded
  let ?stat = "case ext of ExtremeMin \<Rightarrow> CumulativeMin | ExtremeMax \<Rightarrow> CumulativeMax"
  obtain x xs where xs: "map fst (samples_of to_f64 ticks) = x # xs"
    using assms(1) by (cases "map fst (samples_of to_f64 ticks)") auto
  from cumulative_run[of rnd fexp to_f64 ticks up ?stat] assms(1) obtain st where
    st: "stat_run rnd fexp to_f64 ticks (CumulativeNode (cumulative_new up ?stat)) = Some (CumulativeNode st)"
      "cu_value st = foldl (cumulative_op rnd ?stat) x xs"
    by (auto simp: xs)
  have "cumulative_op rnd ?stat = extreme_op ext" by (cases ext) auto
  moreover have "is_extreme ext (foldl (extreme_op ext) x xs) (x # xs)"
    using assms(3) by (intro extreme_fold) (auto simp: nan_free_values xs)
  ultimately show ?thesis
    using st by (cases ext) (auto simp: stat_min_def stat_max_def Unbounded window_spec_def xs)
qed

section \<open>Sums\<close>

text \<open>An integer of absolute value at most \<open>B\<close>.\<close>

definition integral :: "int \<Rightarrow> f64 \<Rightarrow> bool" where
  "integral B x \<longleftrightarrow> (\<exists>k. \<bar>k\<bar> \<le> B \<and> x = Fin (of_int k))"

fun f64_real :: "f64 \<Rightarrow> real" where
  "f64_real (Fin x) = x"
| "f64_real _ = 0"

definition real_sum :: "f64 list \<Rightarrow> real" where
  "real_sum xs = sum_list (map f64_real xs)"

lemma real_sum_simps [simp]:
  "real_sum [] = 0" "real_sum (x # xs) = f64_real x + real_sum xs" "real_sum (xs @ ys) = real_sum xs + real_sum ys"
  by (simp_all add: real_sum_def)

lemma integral_Fin: "integral B x \<Longrightarrow> Fin (f64_real x) = x"
  by (auto simp: integral_def)

lemma integral_real [simp]: "integral B x \<Longrightarrow> integral B (Fin (f64_real x))"
  by (simp add: integral_Fin)

lemma integral_add: "integral A (Fin x) \<Longrightarrow> integral B (Fin y) \<Longrightarrow> integral (A + B) (Fin (x + y))"
proof -
  assume "integral A (Fin x)" "integral B (Fin y)"
  then obtain k l where "\<bar>k\<bar> \<le> A" "x = of_int k" "\<bar>l\<bar> \<le> B" "y = of_int l" by (auto simp: integral_def)
  then show ?thesis unfolding integral_def by (intro exI[of _ "k + l"]) auto
qed

lemma integral_mono: "integral A x \<Longrightarrow> A \<le> B \<Longrightarrow> integral B x"
  by (auto simp: integral_def)

lemma integral_zero: "0 \<le> B \<Longrightarrow> integral B (Fin 0)"
  unfolding integral_def by (intro exI[of _ 0]) auto

lemma integral_sum:
  "list_all (integral B) xs \<Longrightarrow> integral (int (length xs) * B) (Fin (real_sum xs))"
proof (induction xs)
  case (Cons x xs)
  then have "integral B (Fin (f64_real x))" by simp
  from integral_add[OF this Cons.IH] Cons.prems show ?case by (simp add: algebra_simps)
qed (simp add: integral_zero)

lemma integral_not_nan: "integral B x \<Longrightarrow> \<not> is_nan x"
  by (auto simp: integral_def)

text \<open>
  The samples a node adds up: those in the window, and in a count window one more, which is
  subtracted afterwards.
\<close>

definition summands :: "window \<Rightarrow> (f64 \<times> nanotime) list \<Rightarrow> nat" where
  "summands w ps = (case w of CountWindow n \<Rightarrow> min (length ps) (Suc (max n 1)) | _ \<Rightarrow> length (window_spec w ps))"

lemma window_spec_take:
  assumes "list_all (\<lambda>p. P (fst p)) ps"
  shows "list_all P (map fst (window_spec w ps))"
  using assms window_spec_subset[of w ps] by (auto simp: list_all_iff)

context rounding
begin

lemma rnd_integral: "integral (2 ^ 53) (Fin x) \<Longrightarrow> rnd x = Fin x"
  using rnd_int by (auto simp: integral_def)

lemma fold_add_integral:
  assumes "list_all (integral B) xs" "integral A (Fin a)" "A + int (length xs) * B \<le> 2 ^ 53" "0 \<le> B"
  shows "foldl (f64_add rnd) (Fin a) xs = Fin (a + real_sum xs)"
  using assms
proof (induction xs arbitrary: a A)
  case (Cons x xs)
  from Cons.prems obtain y where y: "x = Fin y" "integral B (Fin y)" by (auto simp: integral_def)
  have i: "integral (A + B) (Fin (a + y))" by (rule integral_add[OF Cons.prems(2) y(2)])
  have "0 \<le> int (length xs) * B" using Cons.prems(4) by simp
  then have "A + B \<le> 2 ^ 53" using Cons.prems(3) by (simp add: distrib_right)
  with i have "rnd (a + y) = Fin (a + y)" by (blast intro: rnd_integral integral_mono)
  then show ?case using Cons.IH[OF _ i] Cons.prems y(1) by (simp add: algebra_simps)
qed simp

lemma rolling_sum_run:
  assumes "list_all (\<lambda>p. integral B (fst p)) (samples_of to_f64 ticks)"
    "int (summands (CountWindow n) (samples_of to_f64 ticks)) * B \<le> 2 ^ 53" "0 \<le> B" "rolling_sum_new up n = Some st0"
  shows "\<exists>st. stat_run rnd fexp to_f64 ticks (RollingSumNode st0) = Some (RollingSumNode st) \<and>
    rs_window st = max n 1 \<and> rs_buffer st = map fst (window_spec (CountWindow n) (samples_of to_f64 ticks)) \<and>
    rs_sum st = Fin (real_sum (rs_buffer st)) \<and> (ticks \<noteq> [] \<longrightarrow> rs_value st = rs_sum st)"
  using assms(1,2)
proof (induction ticks rule: rev_induct)
  case Nil
  with assms(4) show ?case by (auto simp: rolling_sum_new_def Let_def window_spec_def split: Option.bind_splits)
next
  case (snoc t ticks)
  let ?x = "to_sample to_f64 (snd t)" and ?ps = "samples_of to_f64 ticks"
  define buf where "buf = map fst (window_spec (CountWindow n) ?ps)"
  have mono: "summands (CountWindow n) (samples_of to_f64 ticks) \<le> summands (CountWindow n) (samples_of to_f64 (ticks @ [t]))"
    by (simp add: summands_def)
  have "int (summands (CountWindow n) (samples_of to_f64 ticks)) * B \<le> 2 ^ 53"
    by (rule order_trans[OF mult_right_mono snoc.prems(2)]) (use mono assms(3) in simp_all)
  with snoc obtain st where st: "stat_run rnd fexp to_f64 ticks (RollingSumNode st0) = Some (RollingSumNode st)"
    "rs_window st = max n 1" "rs_buffer st = buf" "rs_sum st = Fin (real_sum buf)"
    by (auto simp: buf_def)
  have all: "list_all (integral B) (buf @ [?x])"
    using snoc.prems(1) window_spec_take[of "integral B" ?ps "CountWindow n"] by (simp add: buf_def)
  obtain x where x: "?x = Fin x" using all by (auto simp: integral_def)
  have len: "length (buf @ [?x]) \<le> summands (CountWindow n) (samples_of to_f64 (ticks @ [t]))"
    by (auto simp: buf_def summands_def window_spec_def)
  have exact: "rnd (real_sum ys) = Fin (real_sum ys)"
    if "list_all (integral B) ys" "length ys \<le> length (buf @ [?x])" for ys
  proof -
    have "int (length ys) * B \<le> int (summands (CountWindow n) (samples_of to_f64 (ticks @ [t]))) * B"
      using that(2) len assms(3) by (intro mult_right_mono) linarith+
    with snoc.prems(2) integral_sum[OF that(1)] show ?thesis
      by (intro rnd_integral) (rule integral_mono, assumption, linarith)
  qed
  have add: "f64_add rnd (Fin (real_sum buf)) ?x = Fin (real_sum (buf @ [?x]))"
    using exact[OF all] x by simp
  show ?case
  proof (cases "max n 1 < length (buf @ [?x])")
    case True
    then obtain y rest where b: "buf @ [?x] = y # rest" by (cases "buf @ [?x]") auto
    then obtain z where y: "y = Fin z" using all by (auto simp: integral_def)
    have "f64_sub rnd (Fin (real_sum (buf @ [?x]))) y = Fin (real_sum rest)"
      using exact[of rest] all by (simp add: b y)
    moreover have "rest = map fst (window_spec (CountWindow n) (samples_of to_f64 (ticks @ [t])))"
    proof -
      have "rest = tl (buf @ [?x])" by (simp add: b)
      then show ?thesis using True
        by (auto simp: buf_def window_spec_def Suc_diff_le drop_Suc tl_drop simp flip: map_tl)
    qed
    moreover have "rolling_sum_cycle rnd to_f64 (\<lambda>_. snd t) st =
        Some (st\<lparr>rs_buffer := rest, rs_sum := f64_sub rnd (Fin (real_sum (buf @ [?x]))) y,
          rs_value := f64_sub rnd (Fin (real_sum (buf @ [?x]))) y\<rparr>, True)"
      using True unfolding rolling_sum_cycle_def Let_def st(3,4) add by (simp add: b st(2))
    ultimately show ?thesis
      using st(1,2) by (simp add: stat_run_snoc stat_cycle_def)
  next
    case False
    have "rolling_sum_cycle rnd to_f64 (\<lambda>_. snd t) st =
        Some (st\<lparr>rs_buffer := buf @ [?x], rs_sum := Fin (real_sum (buf @ [?x])),
          rs_value := Fin (real_sum (buf @ [?x]))\<rparr>, True)"
      using False unfolding rolling_sum_cycle_def Let_def st(3,4) add by (auto simp: st(2))
    moreover have "buf @ [?x] = map fst (window_spec (CountWindow n) (samples_of to_f64 (ticks @ [t])))"
      using False by (auto simp: buf_def window_spec_def)
    ultimately show ?thesis
      using st(1,2) by (simp add: stat_run_snoc stat_cycle_def)
  qed
qed

lemma sum_over_window_rnd:
  assumes "ticks \<noteq> []" "time_ordered (samples_of to_f64 ticks)"
    "list_all (\<lambda>p. integral B (fst p)) (samples_of to_f64 ticks)"
    "int (summands w (samples_of to_f64 ticks)) * B \<le> 2 ^ 53" "0 \<le> B" "stat_sum up w = Some node"
  shows "\<exists>sn. stat_run rnd fexp to_f64 ticks node = Some sn \<and>
    stat_value sn = Fin (real_sum (window_values w to_f64 ticks))"
proof (cases w)
  case (CountWindow n)
  with assms(6) obtain st0 where "rolling_sum_new up n = Some st0" "node = RollingSumNode st0" by (auto simp: stat_sum_def)
  with rolling_sum_run[OF assms(3), of n up st0 fexp] assms CountWindow show ?thesis by auto
next
  case (TimeWindow d)
  let ?W = "window_spec w (samples_of to_f64 ticks)"
  from window_run[OF assms(2), of rnd fexp up WindowSum CountWeighting w] assms(1) obtain st where
    st: "stat_run rnd fexp to_f64 ticks (WindowNode (stat_window_new up WindowSum CountWeighting w)) = Some (WindowNode st)"
      "window_compute rnd WindowSum CountWeighting (gs_time (fst (List.last ticks))) ?W = Some (ws_value st)"
    by auto
  have "0 + int (length (map fst ?W)) * B \<le> 2 ^ 53"
    using assms(4) by (simp add: summands_def TimeWindow)
  from fold_add_integral[OF window_spec_take[OF assms(3)] integral_zero[OF order_refl] this assms(5)]
  have "f64_sum rnd (map fst ?W) = Fin (real_sum (map fst ?W))" by (simp add: f64_sum_def)
  with st window_spec_nonempty[of "samples_of to_f64 ticks" w] assms(1) show ?thesis
    using assms(6) by (auto simp: stat_sum_def TimeWindow window_compute_def)
next
  case Unbounded
  obtain x xs where xs: "map fst (samples_of to_f64 ticks) = x # xs"
    using assms(1) by (cases "map fst (samples_of to_f64 ticks)") auto
  from cumulative_run[of rnd fexp to_f64 ticks up CumulativeSum] assms(1) obtain st where
    st: "stat_run rnd fexp to_f64 ticks (CumulativeNode (cumulative_new up CumulativeSum)) = Some (CumulativeNode st)"
      "cu_value st = foldl (f64_add rnd) x xs"
    by (auto simp: xs)
  have all: "list_all (integral B) (x # xs)"
    using window_spec_take[OF assms(3), of Unbounded] by (simp add: window_spec_def xs)
  have len: "length ticks = Suc (length xs)"
    using arg_cong[OF xs, of length] by simp
  have "B + int (length xs) * B \<le> 2 ^ 53" using assms(4) by (simp add: summands_def window_spec_def Unbounded len algebra_simps)
  moreover have "integral B (Fin (f64_real x))" using all by simp
  ultimately have "foldl (f64_add rnd) (Fin (f64_real x)) xs = Fin (f64_real x + real_sum xs)"
    using all assms(5) by (intro fold_add_integral) auto
  with st all show ?thesis
    using assms(6) by (auto simp: stat_sum_def Unbounded window_spec_def xs integral_Fin)
qed

end

section \<open>The median\<close>

lemma insert_by_value_mset: "mset (insert_by_value p ps) = add_mset p (mset ps)"
  by (induction ps) auto

lemma sort_by_value_mset: "mset (sort_by_value ps) = mset ps"
  by (induction ps) (simp_all add: sort_by_value_def insert_by_value_mset)

lemma insert_by_value_sorted:
  assumes "sorted_wrt f64_le (map fst ps)" "\<forall>q \<in> set (p # ps). \<not> is_nan (fst q)"
  shows "sorted_wrt f64_le (map fst (insert_by_value p ps))"
  using assms
proof (induction ps)
  case (Cons q ps)
  show ?case
  proof (cases "f64_lt (fst q) (fst p)")
    case True
    have "set (insert_by_value p ps) = insert p (set ps)"
      using arg_cong[OF insert_by_value_mset, of set_mset p ps] by simp
    with True Cons show ?thesis by (auto simp: f64_lt_def)
  next
    case False
    then have "f64_le (fst p) (fst q)"
      using Cons.prems f64_le_total[of "fst p" "fst q"] by (auto simp: f64_lt_def)
    with False Cons.prems show ?thesis by (auto intro: f64_le_trans)
  qed
qed simp

lemma sort_by_value_sorted:
  "\<forall>q \<in> set ps. \<not> is_nan (fst q) \<Longrightarrow> sorted_wrt f64_le (map fst (sort_by_value ps))"
proof (induction ps)
  case (Cons p ps)
  have "set (sort_by_value ps) = set ps"
    using arg_cong[OF sort_by_value_mset, of set_mset ps] by simp
  with Cons show ?case
    by (simp add: sort_by_value_def insert_by_value_sorted)
qed (simp add: sort_by_value_def)

text \<open>The median of an ordered list: its middle, or the mean of the two in the middle.\<close>

definition median_of :: "rounding_mode \<Rightarrow> f64 list \<Rightarrow> f64" where
  "median_of rnd vs = (let m = length vs div 2 in
     if odd (length vs) then vs ! m else f64_div rnd (f64_add rnd (vs ! (m - 1)) (vs ! m)) (Fin 2))"

context rounding
begin

lemma median_scan_unit:
  assumes "2 * c < length vs" "length vs < 2 ^ 53"
  shows "median_scan rnd (Fin (real (length vs) / 2)) (Fin (real c)) (map (\<lambda>v. (v, Fin 1)) (drop c vs)) = Some (median_of rnd vs)"
  using assms(1)
proof (induction "length vs - c" arbitrary: c)
  case (Suc k)
  then have lt: "c < length vs" by linarith
  then have d: "drop c vs = vs ! c # drop (Suc c) vs" by (simp add: Cons_nth_drop_Suc)
  have add: "rnd (real c + 1) = Fin (real (Suc c))"
    using rnd_nat[of "Suc c"] lt assms(2) by (simp add: add.commute)
  consider "length vs < 2 * Suc c" | "length vs = 2 * Suc c" | "2 * Suc c < length vs" by linarith
  then show ?case
  proof cases
    case 1
    then have "length vs = Suc (2 * c)" using Suc.prems by presburger
    with d add show ?thesis by (simp add: median_of_def)
  next
    case 2
    then have "drop (Suc c) vs = vs ! Suc c # drop (Suc (Suc c)) vs" by (simp add: Cons_nth_drop_Suc)
    with 2 d add show ?thesis by (simp add: median_of_def)
  next
    case 3
    then have "real (2 * Suc c) < real (length vs)" by (simp only: of_nat_less_iff)
    then have "\<not> real (length vs) / 2 < real (Suc c)" "real (Suc c) \<noteq> real (length vs) / 2" by simp_all
    with Suc.hyps(1)[of "Suc c"] Suc.hyps(2) 3 d add show ?thesis by simp
  qed
qed simp

lemma weighted_median_unit:
  assumes "\<forall>p \<in> set buffer. \<not> is_nan (fst p)" "buffer \<noteq> []" "length buffer < 2 ^ 53"
  shows "\<exists>vs. mset vs = mset (map fst buffer) \<and> sorted_wrt f64_le vs \<and>
    weighted_median rnd CountWeighting now buffer = Some (median_of rnd vs)"
proof -
  let ?pairs = "map (\<lambda>p. (fst p, Fin 1)) buffer"
  define S where "S = sort_by_value ?pairs"
  define vs where "vs = map fst S"
  have mS: "mset S = mset ?pairs" by (simp add: S_def sort_by_value_mset)
  then have "set S = set ?pairs" by (metis set_mset_mset)
  then have S: "S = map (\<lambda>v. (v, Fin 1)) vs" by (auto simp: vs_def comp_def intro!: map_idI[symmetric])
  have m: "mset vs = mset (map fst buffer)"
    using arg_cong[OF mS, of "image_mset fst"] by (simp add: vs_def comp_def image_mset.compositionality)
  then have len: "length vs = length buffer" by (metis length_map size_mset)
  have "sorted_wrt f64_le vs"
    unfolding vs_def S_def by (rule sort_by_value_sorted) (use assms(1) in auto)
  moreover have "f64_sum rnd (map snd S) = Fin (real (length vs))"
  proof -
    have "list_all (integral 1) (map snd S)"
      unfolding S by (auto simp: list_all_iff integral_def intro!: exI[of _ 1])
    from fold_add_integral[OF this integral_zero[OF order_refl]] have
      "f64_sum rnd (map snd S) = Fin (real_sum (map snd S))"
      using assms(3) len unfolding f64_sum_def by (simp add: vs_def)
    moreover have "real_sum (map snd S) = real (length vs)"
      unfolding S by (simp add: real_sum_def comp_def sum_list_triv)
    ultimately show ?thesis by simp
  qed
  moreover have "rnd (real (length vs) / 2) = Fin (real (length vs) / 2)"
    using rnd_half_nat[of "length vs"] assms(3) len by simp
  moreover have "median_scan rnd (Fin (real (length vs) / 2)) (Fin 0) S = Some (median_of rnd vs)"
    using median_scan_unit[of 0 vs] assms(2,3) len by (simp add: S)
  ultimately show ?thesis
    using m assms(2) by (intro exI[of _ vs]) (simp add: weighted_median_def weights_of_def Let_def comp_def flip: S_def)
qed

lemma median_over_window_rnd:
  assumes "ticks \<noteq> []" "time_ordered (samples_of to_f64 ticks)" "nan_free (samples_of to_f64 ticks)"
    "length ticks < 2 ^ 53"
  shows "\<exists>sn vs. stat_run rnd fexp to_f64 ticks (stat_median up w CountWeighting) = Some sn \<and>
    mset vs = mset (window_values w to_f64 ticks) \<and> sorted_wrt f64_le vs \<and>
    stat_value sn = median_of rnd vs"
proof -
  let ?W = "window_spec w (samples_of to_f64 ticks)" and ?now = "gs_time (fst (List.last ticks))"
  from window_run[OF assms(2), of rnd fexp up WindowMedian CountWeighting w] assms(1) obtain st where
    st: "stat_run rnd fexp to_f64 ticks (WindowNode (stat_window_new up WindowMedian CountWeighting w)) = Some (WindowNode st)"
      "window_compute rnd WindowMedian CountWeighting ?now ?W = Some (ws_value st)"
    by auto
  have ne: "?W \<noteq> []" using assms(1) by (simp add: window_spec_nonempty)
  have "\<forall>p \<in> set ?W. \<not> is_nan (fst p)"
    using assms(3) window_spec_subset[of w "samples_of to_f64 ticks"] by (auto simp: nan_free_def list_all_iff)
  moreover have "length ?W < 2 ^ 53"
    using assms(4) by (auto simp: window_spec_def intro: le_less_trans[OF length_filter_le] split: window.split)
  ultimately obtain vs where vs: "mset vs = mset (map fst ?W)" "sorted_wrt f64_le vs"
      "weighted_median rnd CountWeighting ?now ?W = Some (median_of rnd vs)"
    using weighted_median_unit[OF _ ne] by blast
  with st ne have "ws_value st = median_of rnd vs" by (simp add: window_compute_def)
  with st(1) vs(1,2) show ?thesis
    by (intro exI[of _ "WindowNode st"] exI[of _ vs]) (simp add: stat_median_def)
qed

end

section \<open>What the operators promise\<close>

text \<open>
  C35. Minimum and maximum of a window. For every kind of window, after a run of ticks in order of
  time with no NaN among the samples, the node that \<^verbatim>\<open>min\<close> builds has emitted a sample of the window
  that is at most every other one, and the node that \<^verbatim>\<open>max\<close> builds one that is at least every other
  one, and neither has panicked: the accumulator, the monotonic deque and the buffer agree with one
  specification, whatever the rounding.
\<close>

theorem extremes_of_window:
  assumes "ticks \<noteq> []" "time_ordered (samples_of to_f64 ticks)" "nan_free (samples_of to_f64 ticks)"
    "length ticks < 2 ^ 64" "window_fits w"
  shows "\<exists>lo hi. stat_run rnd fexp to_f64 ticks (stat_min up w) = Some lo \<and>
    stat_run rnd fexp to_f64 ticks (stat_max up w) = Some hi \<and>
    stat_value lo \<in> set (window_values w to_f64 ticks) \<and> stat_value hi \<in> set (window_values w to_f64 ticks) \<and>
    (\<forall>x \<in> set (window_values w to_f64 ticks). f64_le (stat_value lo) x \<and> f64_le x (stat_value hi))"
  using extreme_over_window[OF assms(1-5), of rnd fexp ExtremeMin up]
    extreme_over_window[OF assms(1-5), of rnd fexp ExtremeMax up]
  by (auto simp: is_extreme_def)


text \<open>
  C38. The count-weighted median is the ordinary median. The scan for the point where the cumulated
  weight crosses one half returns, in the arithmetic of the hardware, the middle of the ordered
  samples of the window, or the mean of the two in the middle when their number is even.
\<close>

theorem median_of_window:
  assumes "ticks \<noteq> []" "time_ordered (samples_of to_f64 ticks)" "nan_free (samples_of to_f64 ticks)"
    "length ticks < 2 ^ 53"
  shows "\<exists>sn vs. stat_run f64_nearest fexp to_f64 ticks (stat_median up w CountWeighting) = Some sn \<and>
    mset vs = mset (window_values w to_f64 ticks) \<and> sorted_wrt f64_le vs \<and>
    stat_value sn = median_of f64_nearest vs"
  by (rule nearest.median_over_window_rnd[OF assms])

text \<open>Three ticks, ten nanoseconds apart, of the values 5, 3 and 4.\<close>

definition at_time :: "u64 \<Rightarrow> graph_state" where
  "at_time t = (graph_state_new 0 RealTime Forever nano_zero)\<lparr>gs_time := NanoTime t\<rparr>"

definition int_to_f64 :: "int \<Rightarrow> f64 option" where
  "int_to_f64 k = Some (Fin (of_int k))"

definition three_ticks :: "(graph_state \<times> int) list" where
  "three_ticks = [(at_time 10, 5), (at_time 20, 3), (at_time 30, 4)]"

lemma three_samples: "samples_of int_to_f64 three_ticks = [(Fin 5, NanoTime 10), (Fin 3, NanoTime 20), (Fin 4, NanoTime 30)]"
  by (simp add: samples_of_def three_ticks_def at_time_def to_sample_def int_to_f64_def)

lemma three_samples_ok:
  "three_ticks \<noteq> []" "time_ordered (samples_of int_to_f64 three_ticks)" "nan_free (samples_of int_to_f64 three_ticks)"
  "list_all (\<lambda>p. integral 5 (fst p)) (samples_of int_to_f64 three_ticks)"
  "length three_ticks = 3"
proof -
  have "integral 5 (Fin 5)" "integral 5 (Fin 3)" "integral 5 (Fin 4)"
    unfolding integral_def by (intro exI[of _ 5], simp, intro exI[of _ 3], simp, intro exI[of _ 4], simp)
  then show "list_all (\<lambda>p. integral 5 (fst p)) (samples_of int_to_f64 three_ticks)"
    by (simp add: three_samples)
qed (simp_all add: three_samples time_ordered_def nan_free_def, simp_all add: three_ticks_def)

lemma three_window: "window_values (CountWindow 2) int_to_f64 three_ticks = [Fin 3, Fin 4]"
  by (simp add: window_spec_def three_samples)

theorem extremes_of_window_witness:
  "\<exists>lo hi. stat_run Fin id int_to_f64 three_ticks (stat_min 0 (CountWindow 2)) = Some lo \<and>
    stat_run Fin id int_to_f64 three_ticks (stat_max 0 (CountWindow 2)) = Some hi \<and>
    stat_value lo = Fin 3 \<and> stat_value hi = Fin 4"
  using extremes_of_window[OF three_samples_ok(1-3), of "CountWindow 2" Fin id 0]
  unfolding three_window by (auto simp: three_samples_ok)


theorem median_of_window_witness:
  "\<exists>sn vs. stat_run f64_nearest id int_to_f64 three_ticks (stat_median 0 (CountWindow 2) CountWeighting) = Some sn \<and>
    mset vs = mset [Fin 3, Fin 4] \<and> sorted_wrt f64_le vs \<and> stat_value sn = median_of f64_nearest vs"
  using median_of_window[OF three_samples_ok(1-3), of id 0 "CountWindow 2"]
  unfolding three_window by (simp add: three_samples_ok)

text \<open>
  A value without a conversion to \<^verbatim>\<open>f64\<close> becomes a NaN sample. The time-windowed and the unbounded
  minimum ignore it; the deque does not, and a NaN in it shields the candidates in front of it: of
  the samples 5, NaN, 3 the last three have the minimum 3, and the node emits 5.
\<close>

definition nan_ticks :: "(graph_state \<times> f64) list" where
  "nan_ticks = [(at_time 10, Fin 5), (at_time 20, NaN), (at_time 30, Fin 3)]"

theorem rolling_min_nan_shields:
  "map_option stat_value (stat_run rnd fexp Some nan_ticks (stat_min up (CountWindow 3))) = Some (Fin 5) \<and>
   map_option stat_value (stat_run rnd fexp Some nan_ticks (stat_min up Unbounded)) = Some (Fin 3) \<and>
   map_option stat_value (stat_run rnd fexp Some nan_ticks (stat_min up (TimeWindow \<lparr>dur_secs = 1, dur_subsec_nanos = 0\<rparr>))) = Some (Fin 3)"
  by (simp add: nan_ticks_def stat_min_def stat_cycle_def rolling_extreme_new_def rolling_extreme_cycle_def
      to_sample_def Let_def drop_dominated_def drop_stale_def cumulative_new_def cumulative_cycle_def f64_min_def
      stat_window_new_def stat_window_cycle_def window_evict_def clamp_window_def window_compute_def
      duration_as_u64_def duration_as_nanos_def at_time_def is_nan_def not_le)

text \<open>
  A NaN sample also stays in the running total of a count window after it has left the window, since
  a total that is NaN stays NaN.
\<close>

theorem rolling_sum_nan_stays:
  assumes "rs_sum st = NaN" "rolling_sum_cycle rnd to_f64 peek st = Some (st', tick)"
  shows "rs_sum st' = NaN \<and> rs_value st' = NaN"
  using assms by (auto simp: rolling_sum_cycle_def Let_def split: if_splits list.splits)

theorem rolling_sum_nan_stays_witness:
  "\<exists>st'. rolling_sum_cycle Fin int_to_f64 (\<lambda>_. 1) \<lparr>rs_upstream = 0, rs_window = 1, rs_buffer = [Fin 1], rs_sum = NaN, rs_value = NaN\<rparr>
     = Some (st', True) \<and> rs_buffer st' = [Fin 1] \<and> rs_value st' = NaN"
  using rolling_sum_nan_stays[of "\<lparr>rs_upstream = 0, rs_window = 1, rs_buffer = [Fin 1], rs_sum = NaN, rs_value = NaN\<rparr>"
      Fin int_to_f64 "\<lambda>_. 1"]
  by (simp add: rolling_sum_cycle_def Let_def to_sample_def int_to_f64_def)

end
