(* ===== verification/Statistics_Moments.thy ===== *)
theory Statistics_Moments
  imports Statistics_Windows
begin

text \<open>
  The moments and the moving average of \<^verbatim>\<open>statistics.rs\<close> in exact arithmetic (the rounding \<open>Fin\<close>):
  what the incremental updates compute, apart from the rounding errors they accumulate. \<open>moments_of\<close>
  is the state that belongs to a list of weighted values; pushing and removing a value move between
  such states, so every node emits the moment of the weighted values of its window.
\<close>

section \<open>Batch moments\<close>

text \<open>Total weight, weighted sum and weighted sum of squares of a list of values with weights.\<close>

definition weight_sum :: "(real \<times> real) list \<Rightarrow> real" where
  "weight_sum ps = sum_list (map snd ps)"

definition value_sum :: "(real \<times> real) list \<Rightarrow> real" where
  "value_sum ps = sum_list (map (\<lambda>p. snd p * fst p) ps)"

definition square_sum :: "(real \<times> real) list \<Rightarrow> real" where
  "square_sum ps = sum_list (map (\<lambda>p. snd p * (fst p)\<^sup>2) ps)"

definition mean_of :: "(real \<times> real) list \<Rightarrow> real" where
  "mean_of ps = value_sum ps / weight_sum ps"

definition deviation_sum :: "(real \<times> real) list \<Rightarrow> real" where
  "deviation_sum ps = sum_list (map (\<lambda>p. snd p * (fst p - mean_of ps)\<^sup>2) ps)"

definition moments_of :: "(real \<times> real) list \<Rightarrow> weighted_moments" where
  "moments_of ps = \<lparr>wm_w_sum = Fin (weight_sum ps), wm_count = of_nat (length ps),
     wm_mean = Fin (mean_of ps), wm_m2 = Fin (deviation_sum ps)\<rparr>"

definition weights_positive :: "(real \<times> real) list \<Rightarrow> bool" where
  "weights_positive ps \<longleftrightarrow> list_all (\<lambda>p. 0 < snd p) ps"

lemma sums_Nil [simp]: "weight_sum [] = 0" "value_sum [] = 0" "square_sum [] = 0"
  by (simp_all add: weight_sum_def value_sum_def square_sum_def)

lemma sums_Cons [simp]:
  "weight_sum (p # ps) = snd p + weight_sum ps"
  "value_sum (p # ps) = snd p * fst p + value_sum ps"
  "square_sum (p # ps) = snd p * (fst p)\<^sup>2 + square_sum ps"
  by (simp_all add: weight_sum_def value_sum_def square_sum_def)

lemma sums_append [simp]:
  "weight_sum (ps @ qs) = weight_sum ps + weight_sum qs"
  "value_sum (ps @ qs) = value_sum ps + value_sum qs"
  "square_sum (ps @ qs) = square_sum ps + square_sum qs"
  by (simp_all add: weight_sum_def value_sum_def square_sum_def)

lemma weights_positive_simps [simp]:
  "weights_positive []" "weights_positive (p # ps) \<longleftrightarrow> 0 < snd p \<and> weights_positive ps"
  "weights_positive (ps @ qs) \<longleftrightarrow> weights_positive ps \<and> weights_positive qs"
  by (simp_all add: weights_positive_def)

lemma weight_sum_nonneg: "weights_positive ps \<Longrightarrow> 0 \<le> weight_sum ps"
  by (induction ps) auto

lemma weight_sum_pos: "weights_positive ps \<Longrightarrow> ps \<noteq> [] \<Longrightarrow> 0 < weight_sum ps"
  using weight_sum_nonneg by (cases ps) (auto simp: add_pos_nonneg)

lemma deviation_sum_expand:
  "sum_list (map (\<lambda>p. snd p * (fst p - m)\<^sup>2) ps) = square_sum ps - 2 * m * value_sum ps + m\<^sup>2 * weight_sum ps"
  by (induction ps) (auto simp: power2_eq_square algebra_simps)

text \<open>The sum of the squared deviations by the three sums.\<close>

lemma deviation_sum_eq:
  assumes "weights_positive ps"
  shows "deviation_sum ps = square_sum ps - (value_sum ps)\<^sup>2 / weight_sum ps"
proof (cases "ps = []")
  case False
  with weight_sum_pos[OF assms] have "weight_sum ps \<noteq> 0" by simp
  then show ?thesis
    unfolding deviation_sum_def deviation_sum_expand mean_of_def by (simp add: field_simps power2_eq_square)
qed (simp add: deviation_sum_def)

lemma deviation_sum_nonneg: "weights_positive ps \<Longrightarrow> 0 \<le> deviation_sum ps"
  unfolding deviation_sum_def weights_positive_def by (intro sum_list_nonneg) (auto simp: list_all_iff)

lemma moments_of_Nil: "moments_of [] = moments_default"
  by (simp add: moments_of_def moments_default_def mean_of_def deviation_sum_def)

section \<open>Push and remove\<close>

text \<open>The two updates of West's algorithm, as identities of the three sums.\<close>

lemma mean_update:
  fixes a b w x :: real
  assumes "0 < w" "0 < a \<or> a = 0 \<and> b = 0"
  shows "b / a + w / (a + w) * (x - b / a) = (b + w * x) / (a + w)"
proof (cases "a = 0")
  case False
  define s where "s = a + w"
  have w: "w = s - a" and "s \<noteq> 0" "a \<noteq> 0" using assms False by (auto simp: s_def)
  then show ?thesis unfolding w by (simp add: field_simps)
qed (use assms in auto)

lemma deviation_update:
  fixes a b c w x :: real
  assumes "0 < w" "0 < a \<or> a = 0 \<and> b = 0"
  shows "c - b\<^sup>2 / a + w * (x - b / a) * (x - (b + w * x) / (a + w)) = c + w * x\<^sup>2 - (b + w * x)\<^sup>2 / (a + w)"
proof (cases "a = 0")
  case True
  with assms show ?thesis by (simp add: power2_eq_square)
next
  case False
  define s where "s = a + w"
  have w: "w = s - a" and "s \<noteq> 0" "a \<noteq> 0" using assms False by (auto simp: s_def)
  then show ?thesis unfolding w by (simp add: field_simps power2_eq_square)
qed

lemma moments_push_exact:
  assumes "weights_positive ps"
  shows "moments_push Fin (Fin x) (Fin w) (moments_of ps) =
    moments_of (if 0 < w then ps @ [(x, w)] else ps)"
proof (cases "0 < w")
  case True
  let ?a = "weight_sum ps" and ?b = "value_sum ps" and ?c = "square_sum ps"
  have ab: "0 < ?a \<or> ?a = 0 \<and> ?b = 0" using weight_sum_pos[OF assms] by (cases "ps = []") auto
  then have ne: "?a + w \<noteq> 0" using True by auto
  have mean: "?b / ?a + w / (?a + w) * (x - ?b / ?a) = mean_of (ps @ [(x, w)])"
    using mean_update[OF True ab] by (simp add: mean_of_def)
  have dev: "deviation_sum ps + w * (x - ?b / ?a) * (x - mean_of (ps @ [(x, w)])) = deviation_sum (ps @ [(x, w)])"
    using deviation_update[OF True ab, of ?c x] assms True
    by (simp add: deviation_sum_eq mean_of_def)
  show ?thesis
    using True ne mean dev
    by (simp add: moments_push_def moments_of_def Let_def mean_of_def[of ps])
qed (simp add: moments_push_def)

lemma moments_remove_exact:
  assumes "weights_positive ps" "length ps < 2 ^ 64 - 1"
  shows "moments_remove Fin (Fin x) (Fin w) (moments_of (if 0 < w then (x, w) # ps else ps)) = moments_of ps"
proof (cases "0 < w")
  case True
  let ?q = "(x, w) # ps" and ?a = "weight_sum ps" and ?b = "value_sum ps" and ?c = "square_sum ps"
  have count: "(of_nat (length ?q) :: u64) \<le> 1 \<longleftrightarrow> ps = []"
    using assms(2) by (simp add: word_le_nat_alt unat_of_nat del: of_nat_Suc)
  show ?thesis
  proof (cases "ps = []")
    case True
    with count \<open>0 < w\<close> show ?thesis by (simp add: moments_remove_def moments_of_def moments_of_Nil[symmetric])
  next
    case False
    with weight_sum_pos[OF assms(1)] have a: "0 < ?a" by simp
    have ne: "w + ?a \<noteq> 0" using True a by simp
    have mean: "((w + ?a) * mean_of ?q - w * x) / ?a = mean_of ps"
      using a ne by (simp add: mean_of_def)
    have dev: "deviation_sum ?q - w * (x - mean_of ps) * (x - mean_of ?q) = deviation_sum ps"
      using deviation_update[OF True, of ?a ?b ?c x] a assms(1) True
      by (simp add: deviation_sum_eq mean_of_def add.commute)
    show ?thesis
      using True False a count mean dev deviation_sum_nonneg[OF assms(1)]
      by (simp add: moments_remove_def moments_of_def Let_def)
  qed
qed (simp add: moments_remove_def)

section \<open>The weighted values of a window\<close>

text \<open>
  Under count weighting every sample has weight one. Under time weighting a sample has the time until
  its successor, the newest sample has none yet, and samples of the same time drop out.
\<close>

definition elapsed_ns :: "nanotime \<Rightarrow> nanotime \<Rightarrow> real" where
  "elapsed_ns t u = real_of_int (uint (raw u - raw t))"

fun intervals :: "(f64 \<times> nanotime) list \<Rightarrow> (real \<times> real) list" where
  "intervals (p # q # ps) =
     (if 0 < elapsed_ns (snd p) (snd q) then [(f64_real (fst p), elapsed_ns (snd p) (snd q))] else []) @ intervals (q # ps)"
| "intervals _ = []"

fun contributions :: "weighting \<Rightarrow> (f64 \<times> nanotime) list \<Rightarrow> (real \<times> real) list" where
  "contributions CountWeighting ps = map (\<lambda>p. (f64_real (fst p), 1)) ps"
| "contributions TimeWeighting ps = intervals ps"

definition finite_samples :: "(f64 \<times> nanotime) list \<Rightarrow> bool" where
  "finite_samples ps \<longleftrightarrow> list_all (\<lambda>p. \<exists>x. fst p = Fin x) ps"

text \<open>The moment of a list of weighted values; \<open>current\<close> is the newest sample.\<close>

definition variance_of :: "weighting \<Rightarrow> (real \<times> real) list \<Rightarrow> real" where
  "variance_of weighting cs = (case weighting of
     CountWeighting \<Rightarrow> (if length cs < 2 then 0 else deviation_sum cs / (real (length cs) - 1))
   | TimeWeighting \<Rightarrow> (if cs = [] then 0 else deviation_sum cs / weight_sum cs))"

definition moment_spec :: "moment \<Rightarrow> weighting \<Rightarrow> (real \<times> real) list \<Rightarrow> f64 \<Rightarrow> f64" where
  "moment_spec moment weighting cs current = (case moment of
     Mean \<Rightarrow> (if cs = [] then current else Fin (mean_of cs))
   | Var \<Rightarrow> Fin (variance_of weighting cs)
   | Std \<Rightarrow> Fin (sqrt (variance_of weighting cs)))"

lemma f64_from_nano_exact: "f64_from_nano Fin (nano_sub u t) = Fin (elapsed_ns t u)"
  by (simp add: f64_from_nano_def u64_as_f64_def nano_sub_def elapsed_ns_def)

lemma intervals_positive: "weights_positive (intervals ps)"
  by (induction ps rule: intervals.induct) auto

lemma contributions_positive: "weights_positive (contributions weighting ps)"
  by (cases weighting) (simp add: weights_positive_def list_all_iff, simp add: intervals_positive)

lemma length_intervals: "length (intervals ps) \<le> length ps"
  by (induction ps rule: intervals.induct) auto

lemma length_contributions: "length (contributions weighting ps) \<le> length ps"
  by (cases weighting) (auto simp: length_intervals)

lemma intervals_snoc:
  "intervals (ps @ [q]) = intervals ps @ (if ps = [] then [] else
     if 0 < elapsed_ns (snd (List.last ps)) (snd q) then [(f64_real (fst (List.last ps)), elapsed_ns (snd (List.last ps)) (snd q))] else [])"
  by (induction ps rule: intervals.induct) auto

lemma moment_output_exact:
  assumes "weights_positive cs" "length cs < 2 ^ 64"
  shows "moment_output Fin moment weighting (moments_of cs) current = moment_spec moment weighting cs current"
proof -
  have empty: "moments_is_empty (moments_of cs) \<longleftrightarrow> cs = []"
    using weight_sum_pos[OF assms(1)] by (cases "cs = []") (auto simp: moments_is_empty_def moments_of_def)
  have small: "(of_nat (length cs) :: u64) < 2 \<longleftrightarrow> length cs < 2"
    using assms(2) by (simp add: word_less_nat_alt unat_of_nat)
  have cast: "u64_as_f64 Fin (of_nat (length cs) :: u64) = Fin (real (length cs))"
    using assms(2) by (simp add: u64_as_f64_def unsigned_of_nat take_bit_eq_mod)
  have "wm_count (moments_of cs) < 2 \<longleftrightarrow> length cs < 2" using small by (simp add: moments_of_def)
  then have var: "moments_variance Fin weighting (moments_of cs) = Fin (variance_of weighting cs)"
    using empty cast by (cases weighting) (auto simp: moments_variance_def variance_of_def moments_of_def moments_is_empty_def)
  have "0 \<le> variance_of weighting cs"
    using deviation_sum_nonneg[OF assms(1)] weight_sum_nonneg[OF assms(1)]
    by (auto simp: variance_of_def split: weighting.split)
  with empty var show ?thesis
    by (cases moment) (auto simp: moment_output_def moment_spec_def moments_of_def)
qed

section \<open>Rolling moments\<close>

lemma rolling_evict_buffer: "fst (rolling_evict rnd weighting window now buffer m) = window_evict window now buffer"
  by (induction rnd weighting window now buffer m rule: rolling_evict.induct)
    (auto simp: should_evict_def window_evict_def split: window.splits)

lemma rolling_evict_moments:
  assumes "finite_samples buffer" "length buffer < 2 ^ 64"
  shows "snd (rolling_evict Fin weighting window now buffer (moments_of (contributions weighting buffer))) =
    moments_of (contributions weighting (window_evict window now buffer))"
  using assms
proof (induction buffer)
  case Nil
  then show ?case by (simp add: window_evict_def split: window.split)
next
  case (Cons p buffer)
  from Cons.prems obtain x where x: "fst p = Fin x" by (auto simp: finite_samples_def)
  have len: "length (contributions weighting buffer) < 2 ^ 64 - 1"
    using Cons.prems(2) length_contributions[of weighting buffer] by simp
  have remove: "(case weighting of
           CountWeighting \<Rightarrow> moments_remove Fin (fst p) (Fin 1) (moments_of (contributions weighting (p # buffer)))
         | TimeWeighting \<Rightarrow> (case buffer of [] \<Rightarrow> moments_of (contributions weighting (p # buffer))
             | q # _ \<Rightarrow> moments_remove Fin (fst p) (f64_from_nano Fin (nano_sub (snd q) (snd p)))
                          (moments_of (contributions weighting (p # buffer))))) = moments_of (contributions weighting buffer)"
  proof (cases weighting)
    case CountWeighting
    with moments_remove_exact[OF contributions_positive[of weighting buffer] len, of x 1] x show ?thesis by simp
  next
    case TimeWeighting
    show ?thesis
    proof (cases buffer)
      case (Cons q ps)
      with moments_remove_exact[OF contributions_positive[of weighting buffer] len, of x "elapsed_ns (snd p) (snd q)"]
        TimeWeighting x show ?thesis by (simp add: f64_from_nano_exact split: if_splits)
    qed (simp add: TimeWeighting)
  qed
  show ?case
  proof (cases "should_evict window now (p # buffer)")
    case True
    then have "window_evict window now (p # buffer) = window_evict window now buffer"
      by (auto simp: should_evict_def window_evict_def split: window.splits)
    with Cons True remove show ?thesis by (simp add: finite_samples_def)
  next
    case False
    then have "window_evict window now (p # buffer) = p # buffer"
      by (auto simp: should_evict_def window_evict_def split: window.splits)
    with False show ?thesis by simp
  qed
qed

lemma rolling_commit_exact:
  assumes "finite_samples (buffer @ [(sample, now)])"
  shows "rolling_commit Fin weighting now sample buffer (moments_of (contributions weighting buffer)) =
    moments_of (contributions weighting (buffer @ [(sample, now)]))"
proof -
  have "\<exists>y. fst (List.last buffer) = Fin y" if "buffer \<noteq> []"
    using assms last_in_set[OF that] by (auto simp: finite_samples_def list_all_iff)
  with assms show ?thesis
    by (cases weighting; cases "buffer = []")
      (auto simp: rolling_commit_def finite_samples_def intervals_snoc f64_from_nano_exact moments_push_exact
        contributions_positive[of CountWeighting, simplified] intervals_positive)
qed

lemma window_spec_finite: "finite_samples ps \<Longrightarrow> finite_samples (window_spec w ps)"
  using window_spec_subset[of w ps] by (auto simp: finite_samples_def list_all_iff)

lemma length_window_spec_le: "length (window_spec w ps) \<le> length ps"
  by (auto simp: window_spec_def split: window.split)

lemma rolling_moment_run:
  assumes "time_ordered (samples_of to_f64 ticks)" "finite_samples (samples_of to_f64 ticks)" "length ticks < 2 ^ 64"
  shows "\<exists>st. stat_run Fin fexp to_f64 ticks (RollingMomentNode (rolling_moment_new up moment weighting w)) = Some (RollingMomentNode st) \<and>
    rm_moment st = moment \<and> rm_weighting st = weighting \<and> rm_window st = clamp_window w \<and>
    rm_buffer st = window_spec w (samples_of to_f64 ticks) \<and>
    rm_moments st = moments_of (contributions weighting (window_spec w (samples_of to_f64 ticks))) \<and>
    (ticks \<noteq> [] \<longrightarrow> rm_value st = moment_spec moment weighting
       (contributions weighting (window_spec w (samples_of to_f64 ticks))) (to_sample to_f64 (snd (List.last ticks))))"
  using assms
proof (induction ticks rule: rev_induct)
  case Nil
  have "contributions weighting [] = []" by (cases weighting) auto
  then show ?case
    by (cases w) (simp_all add: rolling_moment_new_def window_spec_def moments_of_Nil)
next
  case (snoc t ticks)
  let ?x = "to_sample to_f64 (snd t)" and ?now = "gs_time (fst t)" and ?ps = "samples_of to_f64 ticks"
  from snoc obtain st where st: "stat_run Fin fexp to_f64 ticks (RollingMomentNode (rolling_moment_new up moment weighting w)) = Some (RollingMomentNode st)"
    "rm_moment st = moment" "rm_weighting st = weighting" "rm_window st = clamp_window w" "rm_buffer st = window_spec w ?ps"
    "rm_moments st = moments_of (contributions weighting (window_spec w ?ps))"
    by (auto simp: time_ordered_snoc finite_samples_def)
  let ?buf = "window_spec w ?ps @ [(?x, ?now)]" and ?W = "window_spec w (?ps @ [(?x, ?now)])"
  have fin: "finite_samples ?buf"
    using snoc.prems(2) window_spec_finite[of ?ps w] by (simp add: finite_samples_def)
  have evict: "window_evict (clamp_window w) ?now ?buf = ?W"
    using window_spec_snoc[of ?ps "(?x, ?now)" w] snoc.prems(1) by simp
  have "length ?buf < 2 ^ 64" using length_window_spec_le[of w ?ps] snoc.prems(3) by simp
  from rolling_evict_moments[OF fin this, of weighting "clamp_window w" ?now]
  have "rolling_evict Fin weighting (clamp_window w) ?now ?buf (moments_of (contributions weighting ?buf)) =
      (?W, moments_of (contributions weighting ?W))"
    using rolling_evict_buffer[of Fin weighting "clamp_window w" ?now ?buf] by (simp add: evict prod_eq_iff)
  moreover have "length (contributions weighting ?W) < 2 ^ 64"
    using length_contributions[of weighting ?W] length_window_spec_le[of w "?ps @ [(?x, ?now)]"] snoc.prems(3) by simp
  ultimately show ?case
    using st rolling_commit_exact[OF fin, of weighting] moment_output_exact[OF contributions_positive, of weighting ?W]
    by (simp add: stat_run_snoc stat_cycle_def rolling_moment_cycle_def Let_def)
qed

section \<open>Cumulative moments\<close>

lemma moment_run:
  assumes "finite_samples (samples_of to_f64 ticks)" "length ticks < 2 ^ 64"
  shows "\<exists>st. stat_run Fin fexp to_f64 ticks (MomentNode (moment_stream_new up moment weighting)) = Some (MomentNode st) \<and>
    ms_moment st = moment \<and> ms_weighting st = weighting \<and>
    ms_moments st = moments_of (contributions weighting (samples_of to_f64 ticks)) \<and>
    (weighting = TimeWeighting \<longrightarrow> (if ticks = [] then ms_last_time st = None
       else (ms_prev_value st, the (ms_last_time st)) = List.last (samples_of to_f64 ticks) \<and> ms_last_time st \<noteq> None)) \<and>
    (ticks \<noteq> [] \<longrightarrow> ms_value st = moment_spec moment weighting
       (contributions weighting (samples_of to_f64 ticks)) (to_sample to_f64 (snd (List.last ticks))))"
  using assms
proof (induction ticks rule: rev_induct)
  case Nil
  have "contributions weighting [] = []" by (cases weighting) auto
  then show ?case by (simp add: moment_stream_new_def moments_of_Nil)
next
  case (snoc t ticks)
  let ?x = "to_sample to_f64 (snd t)" and ?now = "gs_time (fst t)" and ?ps = "samples_of to_f64 ticks"
  from snoc obtain st where st: "stat_run Fin fexp to_f64 ticks (MomentNode (moment_stream_new up moment weighting)) = Some (MomentNode st)"
    "ms_moment st = moment" "ms_weighting st = weighting" "ms_moments st = moments_of (contributions weighting ?ps)"
    "weighting = TimeWeighting \<longrightarrow> (if ticks = [] then ms_last_time st = None
       else (ms_prev_value st, the (ms_last_time st)) = List.last ?ps \<and> ms_last_time st \<noteq> None)"
    by (auto simp: finite_samples_def)
  have commit: "rolling_commit Fin weighting ?now ?x ?ps (ms_moments st) = moments_of (contributions weighting (?ps @ [(?x, ?now)]))"
    using rolling_commit_exact[of ?ps ?x ?now weighting] snoc.prems(1) st(4) by simp
  have "length (contributions weighting (?ps @ [(?x, ?now)])) < 2 ^ 64"
    using length_contributions[of weighting "?ps @ [(?x, ?now)]"] snoc.prems(2) by simp
  from moment_output_exact[OF contributions_positive this] commit st show ?case
    by (cases weighting; cases "ticks = []")
      (auto simp: stat_run_snoc stat_cycle_def moment_cycle_def Let_def rolling_commit_def prod_eq_iff)
qed

section \<open>What the moment operators promise\<close>

text \<open>
  C36. Incremental moments are batch moments. In exact arithmetic, \<^verbatim>\<open>mean\<close>, \<^verbatim>\<open>variance\<close> and \<^verbatim>\<open>std\<close> over
  every kind of window and under both weightings emit, after a run of ticks in order of time, the
  weighted mean, variance or standard deviation of exactly the weighted values of the window: West's
  update adds a sample and its inverse takes it out again, for count windows and time windows alike.
  Before any weight has accumulated the mean is the current sample.
\<close>

theorem moments_of_window:
  assumes "ticks \<noteq> []" "time_ordered (samples_of to_f64 ticks)" "finite_samples (samples_of to_f64 ticks)"
    "length ticks < 2 ^ 64"
  shows "\<exists>sn. stat_run Fin fexp to_f64 ticks (stat_moment up moment w weighting) = Some sn \<and>
    stat_value sn = moment_spec moment weighting (contributions weighting (window_spec w (samples_of to_f64 ticks)))
      (to_sample to_f64 (snd (List.last ticks)))"
proof (cases "w = Unbounded")
  case True
  from moment_run[OF assms(3,4), of fexp up moment weighting] assms(1) True show ?thesis
    by (auto simp: stat_moment_def window_spec_def)
next
  case False
  then have "stat_moment up moment w weighting = RollingMomentNode (rolling_moment_new up moment weighting w)"
    by (auto simp: stat_moment_def split: window.split)
  with rolling_moment_run[OF assms(2-4), of fexp up moment weighting w] assms(1) show ?thesis by auto
qed

theorem moments_of_window_witness:
  "\<exists>sn. stat_run Fin id int_to_f64 three_ticks (stat_mean 0 (CountWindow 2) TimeWeighting) = Some sn \<and> stat_value sn = Fin 3"
proof -
  have "finite_samples (samples_of int_to_f64 three_ticks)" by (simp add: finite_samples_def three_samples)
  from moments_of_window[OF three_samples_ok(1,2) this, of id 0 Mean "CountWindow 2" TimeWeighting] show ?thesis
    by (simp add: three_samples_ok three_samples window_spec_def stat_mean_def moment_spec_def mean_of_def elapsed_ns_def)
qed

section \<open>The moving average\<close>

text \<open>An exact exponential, for the library function the node calls.\<close>

definition exact_exp :: "f64 \<Rightarrow> f64" where
  "exact_exp y = (case y of Fin x \<Rightarrow> Fin (exp x) | PInf \<Rightarrow> PInf | NInf \<Rightarrow> Fin 0 | NaN \<Rightarrow> NaN)"

lemma ewma_per_tick_step:
  assumes "ew_initialised st" "ew_decay st = DecayPerTick (Fin a)" "ew_value st = Fin v" "to_sample to_f64 x = Fin s"
  shows "ewma_cycle Fin fexp to_f64 (\<lambda>_. x) gs st = Some (st\<lparr>ew_value := Fin ((1 - a) * v + a * s)\<rparr>, True)"
  using assms by (simp add: ewma_cycle_def Let_def algebra_simps)

lemma ewma_half_life_step:
  assumes "ew_initialised st" "ew_decay st = DecayHalfLife (Fin h)" "0 < h" "ew_value st = Fin v"
    "ew_last_time st = Some t" "to_sample to_f64 x = Fin s"
  shows "ewma_cycle Fin exact_exp to_f64 (\<lambda>_. x) gs st =
    Some (st\<lparr>ew_last_time := Some (gs_time gs), ew_value := Fin (s + (v - s) * 2 powr (- elapsed_ns t (gs_time gs) / h))\<rparr>, True)"
proof -
  have "exp (- (elapsed_ns t (gs_time gs) / h) * ln 2) = 2 powr (- elapsed_ns t (gs_time gs) / h)"
    by (simp add: powr_def)
  then show ?thesis
    using assms
    by (simp add: ewma_cycle_def Let_def f64_from_nano_exact LN_2_def exact_exp_def algebra_simps)
qed

text \<open>
  The half-life average does not depend on the tick rate. In exact arithmetic, a tick that repeats
  the sample of a later tick changes nothing: cycling at \<open>gs\<close> and then at \<open>gs'\<close> with the same sample
  leaves the node as one cycle at \<open>gs'\<close> does, since the weight of the past decays by
  \<open>2\<^sup>-\<^sup>\<Delta>\<^sup>t\<^sup>/\<^sup>h\<close> over either route.
\<close>

lemma ewma_tick_rate_independent:
  assumes "ew_initialised st" "ew_decay st = DecayHalfLife (Fin h)" "0 < h" "ew_value st = Fin v"
    "ew_last_time st = Some t" "to_sample to_f64 x = Fin s" "t \<le> gs_time gs" "gs_time gs \<le> gs_time gs'"
  shows "do { (st1, _) \<leftarrow> ewma_cycle Fin exact_exp to_f64 (\<lambda>_. x) gs st; ewma_cycle Fin exact_exp to_f64 (\<lambda>_. x) gs' st1 } =
    ewma_cycle Fin exact_exp to_f64 (\<lambda>_. x) gs' st"
proof -
  let ?u = "gs_time gs" and ?u' = "gs_time gs'"
  have "elapsed_ns t ?u' = elapsed_ns t ?u + elapsed_ns ?u ?u'"
    using assms(7,8) by (simp add: elapsed_ns_def less_eq_nanotime_def uint_sub_lem[THEN iffD1] word_le_def)
  then have decay: "2 powr (- elapsed_ns t ?u' / h) = 2 powr (- elapsed_ns t ?u / h) * 2 powr (- elapsed_ns ?u ?u' / h)"
    by (simp add: powr_add[symmetric] diff_divide_distrib add_divide_distrib)
  let ?v1 = "s + (v - s) * 2 powr (- elapsed_ns t ?u / h)"
  let ?st1 = "st\<lparr>ew_last_time := Some ?u, ew_value := Fin ?v1\<rparr>"
  have "ewma_cycle Fin exact_exp to_f64 (\<lambda>_. x) gs' ?st1 =
      Some (?st1\<lparr>ew_last_time := Some ?u', ew_value := Fin (s + (?v1 - s) * 2 powr (- elapsed_ns ?u ?u' / h))\<rparr>, True)"
    by (rule ewma_half_life_step) (use assms in simp_all)
  then show ?thesis
    using decay by (simp add: ewma_half_life_step[OF assms(1-6)] mult.assoc)
qed

lemma ewma_tick_rate_independent_witness:
  "do { (st1, _) \<leftarrow> ewma_cycle Fin exact_exp int_to_f64 (\<lambda>_. 7) (at_time 10)
          \<lparr>ew_upstream = 0, ew_decay = DecayHalfLife (Fin 5), ew_value = Fin 3, ew_initialised = True, ew_last_time = Some (NanoTime 4)\<rparr>;
        ewma_cycle Fin exact_exp int_to_f64 (\<lambda>_. 7) (at_time 20) st1 } =
   ewma_cycle Fin exact_exp int_to_f64 (\<lambda>_. 7) (at_time 20)
     \<lparr>ew_upstream = 0, ew_decay = DecayHalfLife (Fin 5), ew_value = Fin 3, ew_initialised = True, ew_last_time = Some (NanoTime 4)\<rparr>"
  by (rule ewma_tick_rate_independent[where h = 5 and v = 3 and t = "NanoTime 4" and s = 7])
    (simp_all add: int_to_f64_def to_sample_def at_time_def)

text \<open>The first sample seeds the average, and with a factor in the unit interval it stays in the range of the samples.\<close>

lemma ewma_per_tick_bounded:
  assumes "0 \<le> a" "a \<le> 1" "ticks \<noteq> []" "\<forall>p \<in> set (samples_of to_f64 ticks). \<exists>s. fst p = Fin s \<and> lo \<le> s \<and> s \<le> hi"
  shows "\<exists>st v. stat_run Fin fexp to_f64 ticks (stat_ewma Fin up (SpanPerTick (Fin a))) = Some (EwmaNode st) \<and>
    ew_initialised st \<and> ew_decay st = DecayPerTick (Fin a) \<and> ew_value st = Fin v \<and> lo \<le> v \<and> v \<le> hi"
  using assms(3,4)
proof (induction ticks rule: rev_induct)
  case (snoc t ticks)
  from snoc.prems obtain s where s: "to_sample to_f64 (snd t) = Fin s" "lo \<le> s" "s \<le> hi" by auto
  show ?case
  proof (cases "ticks = []")
    case True
    with s show ?thesis
      by (simp add: stat_ewma_def ewma_new_def stat_cycle_def ewma_cycle_def Let_def)
  next
    case False
    with snoc obtain st v where st: "stat_run Fin fexp to_f64 ticks (stat_ewma Fin up (SpanPerTick (Fin a))) = Some (EwmaNode st)"
      "ew_initialised st" "ew_decay st = DecayPerTick (Fin a)" "ew_value st = Fin v" "lo \<le> v" "v \<le> hi" by auto
    have "lo \<le> (1 - a) * v + a * s" "(1 - a) * v + a * s \<le> hi"
      using convex_bound_le[of v hi s "1 - a" a] convex_bound_le[of "- v" "- lo" "- s" "1 - a" a] st(5,6) s(2,3) assms(1,2)
      by simp_all
    with st s ewma_per_tick_step[OF st(2-4) s(1)] show ?thesis
      by (simp add: stat_run_snoc stat_cycle_def)
  qed
qed simp

end
