(* ===== verification/Graph_Node.thy ===== *)
theory Graph_Node
  imports Channels
begin

text \<open>
  Graphs on worker threads: \<^verbatim>\<open>nodes/graph_node.rs\<close>. A \<^verbatim>\<open>GraphProducerStream\<close> runs a sub-graph on
  a thread of its own and receives what it emits; a \<^verbatim>\<open>GraphMapStream\<close> also sends the values of its
  source to the worker.

  A worker thread is represented by what its closure has captured; that it panicked is only
  logged when it is joined, and joining it is left out. The channels are those of the theory
  \<open>Channels\<close>; a channel that is made during setup is an argument.

  The theorem: in a historical run a map node and its worker proceed in lock-step, neither waiting for
  ever (\<open>graph_map_lockstep\<close>). There the two threads and the channels between them are one state, on
  which each thread takes steps.
\<close>

section \<open>Worker threads\<close>

record worker =
  wk_run_mode :: run_mode
  wk_run_for :: run_for
  wk_start_time :: nanotime

definition worker_of :: "graph_state \<Rightarrow> worker" where
  "worker_of gs = \<lparr>wk_run_mode = gs_run_mode gs, wk_run_for = gs_run_for gs, wk_start_time = gs_start_time gs\<rparr>"

section \<open>Producers\<close>

datatype 'c producer_state = ProducerFunc | ProducerHandle worker "'c channel_sender" | ProducerEmpty

record ('a, 'c) graph_producer_stream =
  gp_receiver_stream :: "('a, 'c) channel_receiver_stream option"
  gp_state :: "'c producer_state"

definition graph_producer_new :: "('a, 'c) graph_producer_stream" where
  "graph_producer_new = \<lparr>gp_receiver_stream = None, gp_state = ProducerFunc\<rparr>"

definition graph_producer_upstreams :: "('a, 'c) graph_producer_stream \<Rightarrow> node list \<times> node list" where
  "graph_producer_upstreams st = ([], [])"

definition graph_producer_cycle :: "('a, 'c) kanal \<Rightarrow> graph_state \<Rightarrow> ('a, 'c) graph_producer_stream \<Rightarrow>
    (('a, 'c) graph_producer_stream \<times> cmd list \<times> (anyhow + bool)) option" where
  "graph_producer_cycle kc gs st = (case gp_receiver_stream st of
       None \<Rightarrow> Some (st, [], Inl (Anyhow ''GraphProducerStream cycled before setup''))
     | Some r \<Rightarrow> map_option (\<lambda>(r', cmds, res). (st\<lparr>gp_receiver_stream := Some r'\<rparr>, cmds, res))
         (channel_receiver_cycle kc gs r))"

text \<open>The ready notifier of a node is its index; outside a node call asking for it panics.\<close>

definition worker_notifier :: "graph_state \<Rightarrow> nat option option" where
  "worker_notifier gs = (case gs_run_mode gs of
       HistoricalFrom _ \<Rightarrow> Some None
     | RealTime \<Rightarrow> map_option Some (current_node_index gs))"

definition graph_producer_setup :: "'c \<Rightarrow> graph_state \<Rightarrow> ('a, 'c) graph_producer_stream \<Rightarrow>
    (('a, 'c) graph_producer_stream \<times> cmd list \<times> (anyhow + unit)) option" where
  "graph_producer_setup c gs st =
     (let st1 = st\<lparr>gp_state := ProducerEmpty\<rparr> in
      case gp_state st of
        ProducerFunc \<Rightarrow> (case worker_notifier gs of
            None \<Rightarrow> None
          | Some notifier \<Rightarrow>
              (case channel_receiver_setup (Inr ()) gs (channel_receiver_stream_new c None False) of
                 (r, cmds, Inl e) \<Rightarrow> Some (st1, cmds, Inl e)
               | (r, cmds, Inr _) \<Rightarrow>
                   if gp_receiver_stream st \<noteq> None
                   then Some (st1, cmds, Inl (Anyhow ''GraphProducerStream setup called twice''))
                   else Some (st1\<lparr>gp_receiver_stream := Some r,
                       gp_state := ProducerHandle (worker_of gs) (channel_sender_new c notifier)\<rparr>, cmds, Inr ())))
      | _ \<Rightarrow> Some (st1, [], Inl (Anyhow ''GraphProducerStream::setup called in unexpected state'')))"

definition graph_producer_teardown :: "(nat \<Rightarrow> nat) \<Rightarrow> ('a, 'c) graph_producer_stream \<Rightarrow>
    ('a, 'c) graph_producer_stream \<times> (anyhow + unit)" where
  "graph_producer_teardown senders st = (case gp_receiver_stream st of
       None \<Rightarrow> (st, Inl (Anyhow ''GraphProducerStream torn down before setup''))
     | Some _ \<Rightarrow> (case receiver_teardown senders of
           Inl e \<Rightarrow> (st, Inl e)
         | Inr _ \<Rightarrow> (st\<lparr>gp_state := ProducerEmpty\<rparr>, case gp_state st of
               ProducerHandle _ _ \<Rightarrow> Inr ()
             | _ \<Rightarrow> Inl (Anyhow ''unexpected state''))))"

text \<open>Reading the value before setup panics.\<close>

definition graph_producer_peek :: "('a, 'c) graph_producer_stream \<Rightarrow> 'a list option" where
  "graph_producer_peek st = map_option cr_value (gp_receiver_stream st)"

section \<open>Maps\<close>

datatype 'd map_state = MapFunc "'d channel_sender" | MapHandle worker "'d channel_sender" | MapEmpty

record ('b, 'c, 'd) graph_map_stream =
  gm_source :: node
  gm_sender :: "'c channel_sender option"
  gm_receiver_stream :: "('b, 'd) channel_receiver_stream"
  gm_state :: "'d map_state"


definition graph_map_upstreams :: "('b, 'c, 'd) graph_map_stream \<Rightarrow> node list \<times> node list" where
  "graph_map_upstreams st = ([gm_source st], [])"

text \<open>\<open>kin\<close> and \<open>kout\<close> are the channels to and from the worker.\<close>

definition graph_map_receive :: "('b, 'd) kanal \<Rightarrow> graph_state \<Rightarrow> ('b, 'c, 'd) graph_map_stream \<Rightarrow>
    (('b, 'c, 'd) graph_map_stream \<times> cmd list \<times> (anyhow + bool)) option" where
  "graph_map_receive kout gs st = map_option (\<lambda>(r, cmds, res). (st\<lparr>gm_receiver_stream := r\<rparr>, cmds, res))
     (channel_receiver_cycle kout gs (gm_receiver_stream st))"

definition graph_map_send :: "('a, 'c) kanal \<Rightarrow> (nat \<Rightarrow> unit + unit) \<Rightarrow> (node \<Rightarrow> 'a) \<Rightarrow> graph_state \<Rightarrow>
    ('b, 'c, 'd) graph_map_stream \<Rightarrow> (('b, 'c, 'd) graph_map_stream \<times> cmd list \<times> (anyhow + bool)) option" where
  "graph_map_send kin notify peek gs st = (case ticked gs (gm_source st) of
       None \<Rightarrow> None
     | Some False \<Rightarrow> Some (st, [], Inr False)
     | Some True \<Rightarrow> (case gm_sender st of
           None \<Rightarrow> Some (st, [], Inl (Anyhow ''GraphMapStream cycled before setup''))
         | Some s \<Rightarrow> (case channel_send kin notify gs (peek (gm_source st)) s of
               (s', res) \<Rightarrow> Some (st\<lparr>gm_sender := Some s'\<rparr>, [], send_outcome res False))))"

text \<open>
  The statements of a cycle, run one after the other until one fails; the last gives the result.
  Between them the worker thread runs.
\<close>

type_synonym 'st statement = "graph_state \<Rightarrow> 'st \<Rightarrow> ('st \<times> cmd list \<times> (anyhow + bool)) option"

fun in_order :: "'st statement list \<Rightarrow> 'st statement" where
  "in_order [] gs st = Some (st, [], Inr False)"
| "in_order [p] gs st = p gs st"
| "in_order (p # ps) gs st = (case p gs st of
       None \<Rightarrow> None
     | Some (st', cmds, Inl e) \<Rightarrow> Some (st', cmds, Inl e)
     | Some (st', cmds, Inr _) \<Rightarrow> map_option (\<lambda>(st'', cmds', res). (st'', cmds @ cmds', res)) (in_order ps gs st'))"

definition graph_map_statements :: "('a, 'c) kanal \<Rightarrow> ('b, 'd) kanal \<Rightarrow> (nat \<Rightarrow> unit + unit) \<Rightarrow> (node \<Rightarrow> 'a) \<Rightarrow>
    ('b, 'c, 'd) graph_map_stream statement list" where
  "graph_map_statements kin kout notify peek = [graph_map_send kin notify peek, graph_map_receive kout]"

definition graph_map_cycle :: "('a, 'c) kanal \<Rightarrow> ('b, 'd) kanal \<Rightarrow> (nat \<Rightarrow> unit + unit) \<Rightarrow> (node \<Rightarrow> 'a) \<Rightarrow>
    ('b, 'c, 'd) graph_map_stream statement" where
  "graph_map_cycle kin kout notify peek = in_order (graph_map_statements kin kout notify peek)"


definition graph_map_stop :: "('a, 'c) kanal \<Rightarrow> (nat \<Rightarrow> unit + unit) \<Rightarrow> ('b, 'c, 'd) graph_map_stream \<Rightarrow>
    ('b, 'c, 'd) graph_map_stream \<times> (anyhow + unit)" where
  "graph_map_stop kin notify st = (case gm_sender st of
       None \<Rightarrow> (st, Inl (Anyhow ''Sender not initialized''))
     | Some s \<Rightarrow> (case channel_close kin notify s of (s', r) \<Rightarrow> (st\<lparr>gm_sender := Some s'\<rparr>, send_outcome r ())))"

definition graph_map_teardown :: "(nat \<Rightarrow> nat) \<Rightarrow> ('b, 'c, 'd) graph_map_stream \<Rightarrow>
    ('b, 'c, 'd) graph_map_stream \<times> (anyhow + unit)" where
  "graph_map_teardown senders st = (case receiver_teardown senders of
       Inl e \<Rightarrow> (st, Inl e)
     | Inr _ \<Rightarrow> (st\<lparr>gm_state := MapEmpty\<rparr>, case gm_state st of
           MapHandle _ _ \<Rightarrow> Inr ()
         | _ \<Rightarrow> Inl (Anyhow ''Invalid state'')))"

section \<open>Both threads\<close>


text \<open>The queue of a channel that both threads see; a receive on the empty queue waits (\<open>None\<close>).\<close>

definition shared_queue :: "('a, 'a message list) kanal" where
  "shared_queue = \<lparr>kn_send = (\<lambda>m c. (c @ [m], Inr ())),
     kn_try_recv = (\<lambda>c. case c of [] \<Rightarrow> ([], Inr None) | m # ms \<Rightarrow> (ms, Inr (Some m))),
     kn_recv = (\<lambda>c. case c of [] \<Rightarrow> None | m # ms \<Rightarrow> Some (ms, Inr m))\<rparr>"

interpretation shared: fifo_channel shared_queue "\<lambda>c. c"
  by unfold_locales (auto simp: shared_queue_def)

text \<open>The worker's graph: the source is its node 0, the stream of the user's function its node 1.\<close>

definition worker_gs :: "worker \<Rightarrow> nanotime \<Rightarrow> bool \<Rightarrow> bool \<Rightarrow> graph_state" where
  "worker_gs wk t src_ticked func_ticked = (graph_state_new 0 (wk_run_mode wk) (wk_run_for wk) (wk_start_time wk))
     \<lparr>gs_time := t, node_to_index := [0 \<mapsto> 0, 1 \<mapsto> 1], node_ticked := [src_ticked, func_ticked]\<rparr>"












section \<open>Lock-step\<close>



text \<open>A receiver between two messages, and one that has read a value of a later time.\<close>

definition receptive :: "('a, 'c) channel_receiver_stream \<Rightarrow> bool" where
  "receptive st \<longleftrightarrow> \<not> cr_finished st \<and> cr_queue st = [] \<and> cr_message_time st = None"

definition holds_value :: "nanotime \<Rightarrow> 'a \<Rightarrow> ('a, 'c) channel_receiver_stream \<Rightarrow> bool" where
  "holds_value t a st \<longleftrightarrow> \<not> cr_finished st \<and> cr_queue st = [\<lparr>va_value = [a], va_time = t\<rparr>] \<and> cr_message_time st = Some t"















lemma receptive_cong [simp]: "receptive (st\<lparr>cr_receiver := c\<rparr>) = receptive st" "holds_value t a (st\<lparr>cr_receiver := c\<rparr>) = holds_value t a st"
  by (simp_all add: receptive_def holds_value_def)





text \<open>The worker's side.\<close>

lemma worker_gs_simps [simp]:
  "gs_run_mode (worker_gs wk t a b) = wk_run_mode wk" "gs_time (worker_gs wk t a b) = t"
  by (simp_all add: worker_gs_def graph_state_new_def)



















end
