(* ===== verification/Async_Io.thy ===== *)
theory Async_Io
  imports Channels
begin

text \<open>
  Asynchronous producers and consumers: \<^verbatim>\<open>nodes/async_io.rs\<close> and the asynchronous sender of
  \<^verbatim>\<open>channel/kanal_chan.rs\<close>.

  A user's asynchronous stream is the list of the items it yields, and the user's function is a
  parameter. A spawned task is represented by the values it has captured and, where the node asks
  for its fate, by its outcome; what the task does with the channel is a function on the state of
  the channel, which producer and receiver share. \<open>now i\<close> is the clock reading for the \<open>i\<close>-th
  message. Log calls are left out.

  The theorems: the messages of a historical producer are its items grouped by time, nothing lost
  and nothing moved (\<open>to_message_stream_groups\<close>); a producer with time-ordered items is replayed by
  its node exactly, up to the point where the run's limit cuts it (\<open>async_producer_replays\<close>); an
  asynchronous consumer receives what its node was given (\<open>async_consumer_receives\<close>); and the last
  burst before a producer's error may be lost, depending on the schedule
  (\<open>producer_error_race\<close>).
\<close>

section \<open>Run parameters\<close>

record run_params =
  rp_run_mode :: run_mode
  rp_run_for :: run_for
  rp_start_time :: nanotime

definition rp_end_time :: "run_params \<Rightarrow> anyhow + nanotime" where
  "rp_end_time rp = (case rp_run_for rp of
       RunDuration d \<Rightarrow> Inr (nano_add_duration (rp_start_time rp) d)
     | Forever \<Rightarrow> Inr nano_max
     | Cycles _ \<Rightarrow> Inl (Anyhow ''end_time not available for RunFor::Cycles''))"

definition run_params_of :: "graph_state \<Rightarrow> run_params" where
  "run_params_of gs = \<lparr>rp_run_mode = gs_run_mode gs, rp_run_for = gs_run_for gs, rp_start_time = gs_start_time gs\<rparr>"

section \<open>The asynchronous sender\<close>

text \<open>\<open>as_open\<close>: the sender still holds its end of the channel.\<close>

record async_channel_sender =
  as_open :: bool
  as_ready_notifier :: "nat option"

text \<open>Converting a closed sender panics.\<close>

definition into_async :: "'c channel_sender \<Rightarrow> async_channel_sender option" where
  "into_async s = (case cs_kanal_sender s of
       None \<Rightarrow> None
     | Some _ \<Rightarrow> Some \<lparr>as_open = True, as_ready_notifier = cs_ready_notifier s\<rparr>)"

definition async_send_message :: "('a, 'c) kanal \<Rightarrow> (nat \<Rightarrow> unit + unit) \<Rightarrow> async_channel_sender \<Rightarrow> 'a message \<Rightarrow> 'c \<Rightarrow>
    'c \<times> (send_node_error + unit)" where
  "async_send_message kc notify s msg c =
     (if \<not> as_open s then (c, Inl ChannelClosed)
      else case kn_send kc msg c of
        (c', Inl _) \<Rightarrow> (c', Inl ChannelClosed)
      | (c', Inr _) \<Rightarrow> (c', case as_ready_notifier s of
            None \<Rightarrow> Inr ()
          | Some n \<Rightarrow> (case notify n of Inl _ \<Rightarrow> Inl NotifierClosed | Inr _ \<Rightarrow> Inr ())))"

definition async_send :: "('a, 'c) kanal \<Rightarrow> (nat \<Rightarrow> unit + unit) \<Rightarrow> async_channel_sender \<Rightarrow> run_mode \<Rightarrow> nanotime \<Rightarrow> 'a \<Rightarrow> 'c \<Rightarrow>
    'c \<times> (send_node_error + unit)" where
  "async_send kc notify s mode time v =
     (let message = (case mode of
          HistoricalFrom _ \<Rightarrow> HistoricalValue \<lparr>va_value = [v], va_time = time\<rparr>
        | RealTime \<Rightarrow> RealtimeValue v)
      in async_send_message kc notify s message)"

definition async_send_checkpoint :: "('a, 'c) kanal \<Rightarrow> (nat \<Rightarrow> unit + unit) \<Rightarrow> async_channel_sender \<Rightarrow> nanotime \<Rightarrow> 'c \<Rightarrow>
    'c \<times> (send_node_error + unit)" where
  "async_send_checkpoint kc notify s time = async_send_message kc notify s (CheckPoint time)"

definition async_close :: "('a, 'c) kanal \<Rightarrow> (nat \<Rightarrow> unit + unit) \<Rightarrow> async_channel_sender \<Rightarrow> 'c \<Rightarrow>
    async_channel_sender \<times> 'c \<times> (send_node_error + unit)" where
  "async_close kc notify s c =
     (if \<not> as_open s then (s, c, Inr ())
      else (s\<lparr>as_open := False\<rparr>, fst (async_send_message kc notify s EndOfStream c), Inr ()))"

section \<open>Streams of messages\<close>

definition flush :: "'a list value_at option \<Rightarrow> 'a message list" where
  "flush pending = (case pending of None \<Rightarrow> [] | Some grp \<Rightarrow> [HistoricalValue grp])"

text \<open>\<^verbatim>\<open>to_message_stream\<close> with the group that is being collected.\<close>

fun message_stream_loop :: "run_mode \<Rightarrow> 'a list value_at option \<Rightarrow> (anyhow + nanotime \<times> 'a) list \<Rightarrow> 'a message list" where
  "message_stream_loop mode pending [] = flush pending @ [EndOfStream]"
| "message_stream_loop mode pending (Inr (time, value) # items) = (case mode of
       RealTime \<Rightarrow> RealtimeValue value # message_stream_loop mode pending items
     | HistoricalFrom _ \<Rightarrow> (case pending of
           Some grp \<Rightarrow>
             if va_time grp = time
             then message_stream_loop mode (Some (grp\<lparr>va_value := va_value grp @ [value]\<rparr>)) items
             else HistoricalValue grp # message_stream_loop mode (Some \<lparr>va_value = [value], va_time = time\<rparr>) items
         | None \<Rightarrow> message_stream_loop mode (Some \<lparr>va_value = [value], va_time = time\<rparr>) items))"
| "message_stream_loop mode pending (Inl e # items) =
     flush pending @ MsgError e # message_stream_loop mode None items"

definition to_message_stream :: "run_mode \<Rightarrow> (anyhow + nanotime \<times> 'a) list \<Rightarrow> 'a message list" where
  "to_message_stream mode items = message_stream_loop mode None items"

definition message_time :: "nanotime \<Rightarrow> nanotime \<Rightarrow> 'a message \<Rightarrow> nanotime" where
  "message_time now time m = (case m of
       RealtimeValue _ \<Rightarrow> now
     | HistoricalValue va \<Rightarrow> va_time va
     | CheckPoint t \<Rightarrow> t
     | EndOfStream \<Rightarrow> time
     | MsgError _ \<Rightarrow> time)"

definition is_end :: "'a message \<Rightarrow> bool" where
  "is_end m = (case m of EndOfStream \<Rightarrow> True | _ \<Rightarrow> False)"

fun limit_loop :: "run_for \<Rightarrow> nanotime \<Rightarrow> (nat \<Rightarrow> nanotime) \<Rightarrow> nat \<Rightarrow> nanotime \<Rightarrow> u32 \<Rightarrow> 'a message list \<Rightarrow> 'a message list" where
  "limit_loop run_for time0 now i time cycle [] = []"
| "limit_loop run_for time0 now i time cycle (message # source) =
     (let time' = message_time (now i) time message; elapsed = nano_sub time' time0
      in message # (if run_for_done run_for cycle elapsed \<or> is_end message then []
                    else limit_loop run_for time0 now (Suc i) time' (cycle + 1) source))"

text \<open>\<open>start\<close> is the clock reading of \<^verbatim>\<open>run_mode.start_time()\<close>.\<close>

definition stream_limit :: "nanotime \<Rightarrow> (nat \<Rightarrow> nanotime) \<Rightarrow> run_mode \<Rightarrow> run_for \<Rightarrow> 'a message list \<Rightarrow> 'a message list" where
  "stream_limit start now mode run_for source =
     (let time0 = run_mode_start_time start mode in limit_loop run_for time0 now 0 time0 0 source)"

fun to_stream :: "(nat \<Rightarrow> nanotime) \<Rightarrow> nat \<Rightarrow> 'a message list \<Rightarrow> (nanotime \<times> 'a) list" where
  "to_stream now i [] = []"
| "to_stream now i (RealtimeValue v # source) = (now i, v) # to_stream now (Suc i) source"
| "to_stream now i (HistoricalValue va # source) = map (Pair (va_time va)) (va_value va) @ to_stream now (Suc i) source"
| "to_stream now i (CheckPoint _ # source) = to_stream now (Suc i) source"
| "to_stream now i (EndOfStream # source) = to_stream now (Suc i) source"
| "to_stream now i (MsgError _ # source) = []"

section \<open>Tasks\<close>

text \<open>What joining a task gives: its result, or that it was cancelled or panicked (with the text of the \<^verbatim>\<open>JoinError\<close>).\<close>

datatype task_outcome = Completed "anyhow + unit" | JoinError bool string

section \<open>The consumer node\<close>

type_synonym 'a consumer_func = "run_params \<Rightarrow> (nanotime \<times> 'a) list \<Rightarrow> anyhow + unit"

record ('a, 'c) async_consumer_node =
  ac_source :: node
  ac_sender :: "'c channel_sender"
  ac_func :: "'a consumer_func option"
  ac_handle :: "('a consumer_func \<times> run_params) option"
  ac_rx :: "'c option"

definition async_consumer_new :: "'c \<Rightarrow> node \<Rightarrow> 'a consumer_func \<Rightarrow> ('a, 'c) async_consumer_node" where
  "async_consumer_new c source func =
     \<lparr>ac_source = source, ac_sender = channel_sender_new c None, ac_func = Some func, ac_handle = None, ac_rx = Some c\<rparr>"

text \<open>\<open>finished\<close>: the outcome of the consumer task, if it has ended.\<close>

definition async_consumer_cycle :: "('a, 'c) kanal \<Rightarrow> (nat \<Rightarrow> unit + unit) \<Rightarrow> task_outcome option \<Rightarrow> (node \<Rightarrow> 'a) \<Rightarrow> graph_state \<Rightarrow>
    ('a, 'c) async_consumer_node \<Rightarrow> ('a, 'c) async_consumer_node \<times> (anyhow + bool)" where
  "async_consumer_cycle kc notify finished peek gs st = (case (ac_handle st, finished) of
       (Some _, Some outcome) \<Rightarrow> (st\<lparr>ac_handle := None\<rparr>, Inl (case outcome of
           Completed (Inr _) \<Rightarrow> Anyhow ''consumer task exited early without error''
         | Completed (Inl e) \<Rightarrow> ErrorContext ''consumer task failed'' e
         | JoinError _ e \<Rightarrow> Anyhow (''consumer task panicked or was cancelled: '' @ e)))
     | _ \<Rightarrow> (case channel_send kc notify gs (peek (ac_source st)) (ac_sender st) of
           (s, r) \<Rightarrow> (st\<lparr>ac_sender := s\<rparr>, send_outcome r True)))"

definition async_consumer_setup :: "graph_state \<Rightarrow> ('a, 'c) async_consumer_node \<Rightarrow>
    ('a, 'c) async_consumer_node \<times> (anyhow + unit)" where
  "async_consumer_setup gs st = (case ac_rx st of
       None \<Rightarrow> (st, Inl (Anyhow ''rx is already taken''))
     | Some _ \<Rightarrow> (let st1 = st\<lparr>ac_rx := None\<rparr> in
         case ac_func st of
           None \<Rightarrow> (st1, Inl (Anyhow ''func is already taken''))
         | Some func \<Rightarrow> (st1\<lparr>ac_func := None, ac_handle := Some (func, run_params_of gs)\<rparr>, Inr ())))"

text \<open>The body of the task, on the messages its end of the channel will deliver.\<close>

definition consumer_task :: "nanotime \<Rightarrow> (nat \<Rightarrow> nanotime) \<Rightarrow> (nat \<Rightarrow> nanotime) \<Rightarrow> 'a consumer_func \<times> run_params \<Rightarrow>
    'a message list \<Rightarrow> anyhow + unit" where
  "consumer_task start now now' task msgs = (case task of (func, ctx) \<Rightarrow>
     func ctx (to_stream now' 0 (stream_limit start now (rp_run_mode ctx) (rp_run_for ctx) msgs)))"

definition async_consumer_stop :: "('a, 'c) kanal \<Rightarrow> (nat \<Rightarrow> unit + unit) \<Rightarrow> ('a, 'c) async_consumer_node \<Rightarrow>
    ('a, 'c) async_consumer_node \<times> (anyhow + unit)" where
  "async_consumer_stop kc notify st = (case channel_close kc notify (ac_sender st) of
       (s, r) \<Rightarrow> (st\<lparr>ac_sender := s\<rparr>, send_outcome r ()))"

definition async_consumer_teardown :: "task_outcome \<Rightarrow> ('a, 'c) async_consumer_node \<Rightarrow>
    ('a, 'c) async_consumer_node \<times> (anyhow + unit)" where
  "async_consumer_teardown outcome st = (case ac_handle st of
       None \<Rightarrow> (st, Inr ())
     | Some _ \<Rightarrow> (st\<lparr>ac_handle := None\<rparr>, case outcome of
           Completed r \<Rightarrow> r
         | JoinError _ e \<Rightarrow> Inl (Anyhow e)))"

section \<open>The producer node\<close>

type_synonym 'a producer_func = "run_params \<Rightarrow> anyhow + (anyhow + nanotime \<times> 'a) list"

record ('a, 'c) async_producer_stream =
  ap_func :: "'a producer_func option"
  ap_receiver_stream :: "('a, 'c) channel_receiver_stream"
  ap_handle :: "('a producer_func \<times> run_params \<times> async_channel_sender) option"
  ap_sender :: "'c channel_sender option"

definition async_producer_new :: "'c \<Rightarrow> 'a producer_func \<Rightarrow> ('a, 'c) async_producer_stream" where
  "async_producer_new c func =
     \<lparr>ap_func = Some func, ap_receiver_stream = channel_receiver_stream_new c None False, ap_handle = None,
      ap_sender = Some (channel_sender_new c None)\<rparr>"

definition async_producer_cycle :: "('a, 'c) kanal \<Rightarrow> graph_state \<Rightarrow> ('a, 'c) async_producer_stream \<Rightarrow>
    (('a, 'c) async_producer_stream \<times> cmd list \<times> (anyhow + bool)) option" where
  "async_producer_cycle kc gs st = map_option (\<lambda>(r, cmds, res). (st\<lparr>ap_receiver_stream := r\<rparr>, cmds, res))
     (channel_receiver_cycle kc gs (ap_receiver_stream st))"

text \<open>The ready notifier of a node is its index; outside a node call asking for it panics.\<close>

definition async_producer_setup :: "graph_state \<Rightarrow> ('a, 'c) async_producer_stream \<Rightarrow>
    (('a, 'c) async_producer_stream \<times> cmd list \<times> (anyhow + unit)) option" where
  "async_producer_setup gs st = (case ap_sender st of
       None \<Rightarrow> Some (st, [], Inl (Anyhow ''sender is already taken''))
     | Some sender \<Rightarrow> do {
         sender' \<leftarrow> (case gs_run_mode gs of
             HistoricalFrom _ \<Rightarrow> Some sender
           | RealTime \<Rightarrow> map_option (\<lambda>ix. set_notifier ix sender) (current_node_index gs));
         async_sender \<leftarrow> into_async sender';
         let st1 = st\<lparr>ap_sender := None\<rparr>;
         (case ap_func st of
            None \<Rightarrow> Some (st1, [], Inl (Anyhow ''func is already taken''))
          | Some func \<Rightarrow> (case channel_receiver_setup (Inr ()) gs (ap_receiver_stream st) of
              (r, cmds, res) \<Rightarrow> Some (st1\<lparr>ap_func := None, ap_handle := Some (func, run_params_of gs, async_sender),
                 ap_receiver_stream := r\<rparr>, cmds, res))) })"

text \<open>The body of the spawned task.\<close>

fun send_all :: "('a, 'c) kanal \<Rightarrow> (nat \<Rightarrow> unit + unit) \<Rightarrow> async_channel_sender \<Rightarrow> 'a message list \<Rightarrow> 'c \<Rightarrow> 'c" where
  "send_all kc notify s [] c = c"
| "send_all kc notify s (m # ms) c = (case async_send_message kc notify s m c of
       (c', Inl _) \<Rightarrow> c'
     | (c', Inr _) \<Rightarrow> send_all kc notify s ms c')"

definition producer_task :: "('a, 'c) kanal \<Rightarrow> (nat \<Rightarrow> unit + unit) \<Rightarrow> nanotime \<Rightarrow> (nat \<Rightarrow> nanotime) \<Rightarrow>
    'a producer_func \<times> run_params \<times> async_channel_sender \<Rightarrow> 'c \<Rightarrow> 'c" where
  "producer_task kc notify start now task c = (case task of (func, ctx, s) \<Rightarrow>
     (let c1 = (case func ctx of
          Inl e \<Rightarrow> fst (async_send_message kc notify s (MsgError e) c)
        | Inr items \<Rightarrow> send_all kc notify s
            (stream_limit start now (rp_run_mode ctx) (rp_run_for ctx) (to_message_stream (rp_run_mode ctx) items)) c)
      in fst (snd (async_close kc notify s c1))))"

definition async_producer_teardown :: "task_outcome \<Rightarrow> (nat \<Rightarrow> nat) \<Rightarrow> ('a, 'c) async_producer_stream \<Rightarrow>
    ('a, 'c) async_producer_stream \<times> (anyhow + unit)" where
  "async_producer_teardown outcome senders st = (case ap_handle st of
       None \<Rightarrow> (st, Inr ())
     | Some _ \<Rightarrow> (st\<lparr>ap_handle := None\<rparr>, case receiver_teardown senders of
           Inl e \<Rightarrow> Inl e
         | Inr _ \<Rightarrow> (case outcome of
               Completed r \<Rightarrow> r
             | JoinError cancelled e \<Rightarrow> if cancelled then Inr () else Inl (Anyhow (''producer task panicked: '' @ e)))))"

section \<open>What the sending end of a channel promises\<close>

locale async_channel = fifo_channel kc pending
  for kc :: "('a, 'c) kanal" and pending :: "'c \<Rightarrow> 'a message list" +
  assumes send_next: "\<exists>c'. kn_send kc m c = (c', Inr ()) \<and> pending c' = pending c @ [m]"
begin

lemma async_send_next:
  assumes "as_open s" "as_ready_notifier s = None"
  shows "\<exists>c'. async_send_message kc notify s m c = (c', Inr ()) \<and> pending c' = pending c @ [m]"
  using send_next[of m c] assms by (auto simp: async_send_message_def)

lemma send_all_next:
  "as_open s \<Longrightarrow> as_ready_notifier s = None \<Longrightarrow> pending (send_all kc notify s ms c) = pending c @ ms"
proof (induction ms arbitrary: c)
  case (Cons m ms)
  obtain c' where "async_send_message kc notify s m c = (c', Inr ())" "pending c' = pending c @ [m]"
    using async_send_next[OF Cons.prems] by blast
  then show ?case using Cons by simp
qed simp

lemma producer_task_sends:
  assumes "as_open s" "as_ready_notifier s = None" "func ctx = Inr items"
  shows "pending (producer_task kc notify start now (func, ctx, s) c) = pending c @
    stream_limit start now (rp_run_mode ctx) (rp_run_for ctx) (to_message_stream (rp_run_mode ctx) items) @ [EndOfStream]"
proof -
  define c1 where "c1 = send_all kc notify s
    (stream_limit start now (rp_run_mode ctx) (rp_run_for ctx) (to_message_stream (rp_run_mode ctx) items)) c"
  obtain c2 where "async_send_message kc notify s EndOfStream c1 = (c2, Inr ())" "pending c2 = pending c1 @ [EndOfStream]"
    using async_send_next[OF assms(1,2)] by blast
  then show ?thesis using assms send_all_next[OF assms(1,2)]
    by (simp add: producer_task_def async_close_def c1_def)
qed

end

interpretation sched_async: async_channel scheduled_queue sq_messages
  by unfold_locales (simp add: scheduled_queue_def)

section \<open>Grouping\<close>

definition ungroup :: "'a list value_at list \<Rightarrow> (nanotime \<times> 'a) list" where
  "ungroup gs = concat (map (\<lambda>g. map (Pair (va_time g)) (va_value g)) gs)"

lemma ungroup_simps [simp]:
  "ungroup [] = []" "ungroup (g # gs) = map (Pair (va_time g)) (va_value g) @ ungroup gs"
  by (simp_all add: ungroup_def)

definition proper_groups :: "'a list value_at list \<Rightarrow> bool" where
  "proper_groups gs \<longleftrightarrow> (\<forall>g \<in> set gs. va_value g \<noteq> []) \<and> distinct_adj (map va_time gs)"

lemma message_stream_loop_some:
  "va_value g \<noteq> [] \<Longrightarrow> \<exists>h gs. message_stream_loop (HistoricalFrom t) (Some g) (map Inr items) = value_stream (h # gs) \<and>
     ungroup (h # gs) = map (Pair (va_time g)) (va_value g) @ items \<and> proper_groups (h # gs) \<and> va_time h = va_time g"
proof (induction items arbitrary: g)
  case Nil
  then show ?case by (intro exI[of _ g] exI[of _ "[]"]) (simp add: flush_def value_stream_def proper_groups_def)
next
  case (Cons it items)
  obtain u v where it: "it = (u, v)" by (cases it)
  show ?case
  proof (cases "va_time g = u")
    case True
    with Cons.IH[of "g\<lparr>va_value := va_value g @ [v]\<rparr>"] it show ?thesis by auto
  next
    case False
    from Cons.IH[of "\<lparr>va_value = [v], va_time = u\<rparr>"] obtain h gs where
      "message_stream_loop (HistoricalFrom t) (Some \<lparr>va_value = [v], va_time = u\<rparr>) (map Inr items) = value_stream (h # gs)"
      "ungroup (h # gs) = (u, v) # items" "proper_groups (h # gs)" "va_time h = u" by auto
    with False it Cons.prems show ?thesis
      by (intro exI[of _ g] exI[of _ "h # gs"]) (auto simp: value_stream_def proper_groups_def)
  qed
qed

text \<open>
  The messages of a historical producer without errors are bursts, none of them empty, consecutive
  ones at different times; taken apart they are the producer's items in their order.
\<close>

lemma to_message_stream_groups:
  "\<exists>gs. to_message_stream (HistoricalFrom t) (map Inr items) = value_stream gs \<and> ungroup gs = items \<and> proper_groups gs"
proof (cases items)
  case Nil
  then show ?thesis by (intro exI[of _ "[]"]) (simp add: to_message_stream_def flush_def value_stream_def proper_groups_def)
next
  case (Cons it items')
  obtain u v where it: "it = (u, v)" by (cases it)
  from message_stream_loop_some[of "\<lparr>va_value = [v], va_time = u\<rparr>" t items'] Cons it show ?thesis
    by (auto simp: to_message_stream_def intro: exI)
qed

lemma group_time_mem: "g \<in> set gs \<Longrightarrow> va_value g \<noteq> [] \<Longrightarrow> va_time g \<in> fst ` set (ungroup gs)"
  by (cases "va_value g") (force simp: ungroup_def)+

lemma length_ungroup: "\<forall>g \<in> set gs. va_value g \<noteq> [] \<Longrightarrow> length gs \<le> length (ungroup gs)"
proof (induction gs)
  case (Cons g gs)
  then show ?case by (cases "va_value g") simp_all
qed simp

lemma groups_sorted:
  "proper_groups gs \<Longrightarrow> sorted (map fst (ungroup gs)) \<Longrightarrow> sorted_wrt (<) (map va_time gs)"
proof (induction gs)
  case (Cons g gs)
  have p: "proper_groups gs" "va_value g \<noteq> []" using Cons.prems(1) by (auto simp: proper_groups_def distinct_adj_Cons)
  have le: "va_time g \<le> va_time h" if "h \<in> set gs" for h
    using group_time_mem[OF that] that Cons.prems p(2) by (force simp: sorted_append proper_groups_def)
  have st: "sorted_wrt (<) (map va_time gs)" using Cons.IH[OF p(1)] Cons.prems(2) by (simp add: sorted_append)
  have "va_time g < va_time h" if h: "h \<in> set gs" for h
  proof (cases gs)
    case (Cons k ks)
    have "va_time g \<noteq> va_time k" using Cons.prems \<open>proper_groups (g # gs)\<close> Cons by (simp add: proper_groups_def)
    then have "va_time g < va_time k" using le[of k] Cons by simp
    then show ?thesis using h st Cons by auto
  qed (use h in simp)
  then show ?case using st by simp
qed simp

section \<open>The limit\<close>

definition cut_after :: "run_for \<Rightarrow> nanotime \<Rightarrow> nat \<Rightarrow> 'a list value_at list \<Rightarrow> bool" where
  "cut_after run_for time0 k gs \<longleftrightarrow> 0 < k \<and>
     run_for_done run_for (word_of_nat (k - 1)) (nano_sub (va_time (gs ! (k - 1))) time0)"

lemma limit_loop_values:
  "\<exists>k. k \<le> length gs \<and>
     (limit_loop rf time0 now i time cy (value_stream gs) = value_stream gs \<and> k = length gs \<or>
      limit_loop rf time0 now i time cy (value_stream gs) = map HistoricalValue (take k gs) \<and> 0 < k \<and>
        run_for_done rf (cy + word_of_nat (k - 1)) (nano_sub (va_time (gs ! (k - 1))) time0))"
proof (induction gs arbitrary: i time cy)
  case Nil
  then show ?case by (simp add: value_stream_def is_end_def)
next
  case (Cons g gs)
  show ?case
  proof (cases "run_for_done rf cy (nano_sub (va_time g) time0)")
    case True
    then show ?thesis by (intro exI[of _ 1]) (simp add: value_stream_def message_time_def)
  next
    case False
    from Cons.IH[of "Suc i" "va_time g" "cy + 1"] obtain k where k: "k \<le> length gs"
      "limit_loop rf time0 now (Suc i) (va_time g) (cy + 1) (value_stream gs) = value_stream gs \<and> k = length gs \<or>
       limit_loop rf time0 now (Suc i) (va_time g) (cy + 1) (value_stream gs) = map HistoricalValue (take k gs) \<and> 0 < k \<and>
        run_for_done rf (cy + 1 + word_of_nat (k - 1)) (nano_sub (va_time (gs ! (k - 1))) time0)" by blast
    moreover have "cy + 1 + word_of_nat (k - 1) = cy + word_of_nat k" if "0 < k"
      using that by (cases k) simp_all
    ultimately show ?thesis using False
      by (intro exI[of _ "Suc k"]) (auto simp: value_stream_def message_time_def is_end_def)
  qed
qed

lemma stream_limit_values:
  fixes gs :: "'a list value_at list"
  obtains k rest where "k \<le> length gs"
    "stream_limit start now (HistoricalFrom t) rf (value_stream gs) @ [EndOfStream] = value_stream (take k gs) @ rest"
    "k < length gs \<Longrightarrow> cut_after rf t k gs"
proof -
  from limit_loop_values[of gs rf t now 0 t 0] obtain k where "k \<le> length gs"
    "limit_loop rf t now 0 t 0 (value_stream gs) = value_stream gs \<and> k = length gs \<or>
      limit_loop rf t now 0 t 0 (value_stream gs) = map HistoricalValue (take k gs) \<and> 0 < k \<and>
        run_for_done rf (word_of_nat (k - 1)) (nano_sub (va_time (gs ! (k - 1))) t)" by auto
  then show thesis
  proof (elim disjE conjE)
    assume "limit_loop rf t now 0 t 0 (value_stream gs) = value_stream gs"
    then show thesis by (intro that[of "length gs" "[EndOfStream]"]) (simp_all add: stream_limit_def)
  next
    assume "limit_loop rf t now 0 t 0 (value_stream gs) = map HistoricalValue (take k gs)" "0 < k"
      "run_for_done rf (word_of_nat (k - 1)) (nano_sub (va_time (gs ! (k - 1))) t)"
    then show thesis using \<open>k \<le> length gs\<close>
      by (intro that[of k "[]"]) (simp_all add: stream_limit_def value_stream_def cut_after_def)
  qed
qed

lemma cut_after_forever [simp]: "\<not> cut_after Forever t k gs"
  by (simp add: cut_after_def)

section \<open>Properties\<close>

text \<open>The node as it is before the run, set up.\<close>

lemma async_producer_setup_historical:
  assumes "gs_run_mode gs = HistoricalFrom t"
  shows "async_producer_setup gs (async_producer_new c func) = Some (\<lparr>ap_func = None,
     ap_receiver_stream = channel_receiver_stream_new c None False,
     ap_handle = Some (func, run_params_of gs, \<lparr>as_open = True, as_ready_notifier = None\<rparr>), ap_sender = None\<rparr>,
     [AddCallback t], Inr ())"
  using assms by (simp add: async_producer_setup_def async_producer_new_def channel_sender_new_def into_async_def
      channel_receiver_setup_def channel_receiver_stream_new_def Let_def)

text \<open>The producer and its node, from setup to the last burst.\<close>

lemma producer_replays:
  assumes chan: "async_channel kc pending" and "pending c = []"
    and gs: "gs_run_mode gs = HistoricalFrom t" "\<forall>i \<in> set items. gs_time gs \<le> fst i \<and> fst i < nano_max"
    and items: "func (run_params_of gs) = Inr (map Inr items)" "sorted (map fst items)"
    and set_up: "async_producer_setup gs (async_producer_new c func) = Some (st, cmds, r)" "ap_handle st = Some task"
    and n: "2 * length items + 1 \<le> n"
  shows "\<exists>bs k. ungroup bs = items \<and> sorted_wrt (<) (map va_time bs) \<and> (\<forall>b \<in> set bs. va_value b \<noteq> []) \<and>
    drive kc n gs ((ap_receiver_stream st)\<lparr>cr_receiver := producer_task kc notify start now task c\<rparr>) =
      (emissions (take k bs), Quiet) \<and>
    (k < length bs \<longrightarrow> cut_after (gs_run_for gs) t k bs)"
proof -
  from async_producer_setup_historical[OF gs(1), of c func] set_up
  have st: "ap_receiver_stream st = channel_receiver_stream_new c None False"
    "task = (func, run_params_of gs, \<lparr>as_open = True, as_ready_notifier = None\<rparr>)" by auto
  obtain bs where bs: "to_message_stream (HistoricalFrom t) (map Inr items) = value_stream bs" "ungroup bs = items"
    "proper_groups bs" using to_message_stream_groups by blast
  obtain k rest where k: "k \<le> length bs"
    "stream_limit start now (HistoricalFrom t) (gs_run_for gs) (value_stream bs) @ [EndOfStream] = value_stream (take k bs) @ rest"
    "k < length bs \<Longrightarrow> cut_after (gs_run_for gs) t k bs" using stream_limit_values by blast
  have pend: "pending (producer_task kc notify start now task c) = value_stream (take k bs) @ rest"
    using async_channel.producer_task_sends[OF chan, where func = func and ctx = "run_params_of gs"] items(1) gs(1) \<open>pending c = []\<close> bs(1) k(2) st(2)
    by (simp add: run_params_of_def)
  have srt: "sorted_wrt (<) (map va_time bs)" using groups_sorted[OF bs(3)] bs(2) items(2) by simp
  have mem: "va_value b \<noteq> []" "gs_time gs \<le> va_time b" "va_time b < nano_max" if b: "b \<in> set bs" for b
  proof -
    show "va_value b \<noteq> []" using bs(3) b by (simp add: proper_groups_def)
    from group_time_mem[OF b this] bs(2) gs(2) show "gs_time gs \<le> va_time b" "va_time b < nano_max" by auto
  qed
  have "length bs \<le> length (ungroup bs)" using length_ungroup[of bs] mem(1) by blast
  then have len: "2 * length (take k bs) + 1 \<le> n" using n bs(2) by simp
  have rep: "replayable (take k bs)"
    using srt mem by (auto simp: replayable_def sorted_wrt_take simp flip: take_map dest: in_set_takeD)
  have "drive kc n gs (channel_receiver_stream_new (producer_task kc notify start now task c) None False) =
      (emissions (take k bs), Quiet)"
    using channel_replay_then[OF async_channel.axioms(1)[OF chan] pend rep gs(1) _ len] mem(2) by (auto dest: in_set_takeD)
  then show ?thesis using srt mem(1) bs(2) k(3) st(1)
    by (intro exI[of _ bs] exI[of _ k]) (simp add: channel_receiver_stream_new_def)
qed

text \<open>
  C15. An asynchronous producer is replayed exactly. Let its items be in time order, and let its
  task run on the channel of its node. Then the node, run on its own, comes to rest after emitting
  the first \<open>k\<close> of the bursts \<open>bs\<close>, each at its own time, where \<open>bs\<close> are the items grouped by time: no
  item is lost, split off its time or reordered, at whatever times the messages arrive. The cut at
  \<open>k\<close> is that of the run: when something is left out, the last burst that is sent is
  already past the end of the run, and a run without an end leaves nothing out.
\<close>

theorem async_producer_replays:
  assumes chan: "async_channel kc pending" and "pending c = []"
    and gs: "gs_run_mode gs = HistoricalFrom t" "\<forall>i \<in> set items. gs_time gs \<le> fst i \<and> fst i < nano_max"
    and items: "func (run_params_of gs) = Inr (map Inr items)" "sorted (map fst items)"
    and set_up: "async_producer_setup gs (async_producer_new c func) = Some (st, cmds, r)" "ap_handle st = Some task"
    and n: "2 * length items + 1 \<le> n"
  shows "\<exists>bs k. ungroup bs = items \<and> sorted_wrt (<) (map va_time bs) \<and> (\<forall>b \<in> set bs. va_value b \<noteq> []) \<and>
    drive kc n gs ((ap_receiver_stream st)\<lparr>cr_receiver := producer_task kc notify start now task c\<rparr>) =
      (emissions (take k bs), Quiet) \<and>
    (k < length bs \<longrightarrow> cut_after (gs_run_for gs) t k bs)"
  by (rule producer_replays[OF assms])

definition three_items :: "(nanotime \<times> nat) list" where
  "three_items = [(NanoTime 5, 1), (NanoTime 5, 2), (NanoTime 7, 3)]"

theorem async_producer_replays_witness:
  "\<exists>st task bs k. async_producer_setup (historical_gs (NanoTime 2))
       (async_producer_new \<lparr>sq_messages = [], sq_arrivals = [False]\<rparr> (\<lambda>_. Inr (map Inr three_items))) =
       Some (st, [AddCallback (NanoTime 2)], Inr ()) \<and>
     ungroup bs = three_items \<and>
     drive scheduled_queue 7 (historical_gs (NanoTime 2)) ((ap_receiver_stream st)\<lparr>cr_receiver :=
         producer_task scheduled_queue (\<lambda>_. Inr ()) nano_zero (\<lambda>_. nano_zero) task \<lparr>sq_messages = [], sq_arrivals = [False]\<rparr>\<rparr>) =
       (emissions (take k bs), Quiet) \<and> \<not> k < length bs"
proof -
  let ?gs = "historical_gs (NanoTime 2)" and ?f = "\<lambda>_ :: run_params. Inr (map Inr three_items) :: anyhow + (anyhow + nanotime \<times> nat) list"
  let ?c = "\<lparr>sq_messages = [], sq_arrivals = [False]\<rparr> :: nat scheduled_queue"
  have gs: "gs_run_mode ?gs = HistoricalFrom (NanoTime 2)" "gs_time ?gs = NanoTime 2" "gs_run_for ?gs = Forever"
    by (simp_all add: historical_gs_def graph_state_new_def)
  define task where "task = (?f, run_params_of ?gs, \<lparr>as_open = True, as_ready_notifier = None\<rparr>)"
  obtain st where su: "async_producer_setup ?gs (async_producer_new ?c ?f) = Some (st, [AddCallback (NanoTime 2)], Inr ())"
    "ap_handle st = Some task"
    using async_producer_setup_historical[OF gs(1), of ?c ?f] by (simp add: task_def)
  have "\<forall>i \<in> set three_items. gs_time ?gs \<le> fst i \<and> fst i < nano_max" "sorted (map fst three_items)"
    "2 * length three_items + 1 \<le> 7"
    by (simp_all add: three_items_def gs nano_max_def)
  from async_producer_replays[OF sched_async.async_channel_axioms _ gs(1) this(1) _ this(2) su this(3), of "\<lambda>_. Inr ()" nano_zero "\<lambda>_. nano_zero"]
  obtain bs k where "ungroup bs = three_items" "\<not> k < length bs"
    "drive scheduled_queue 7 ?gs ((ap_receiver_stream st)\<lparr>cr_receiver :=
        producer_task scheduled_queue (\<lambda>_. Inr ()) nano_zero (\<lambda>_. nano_zero) task ?c\<rparr>) = (emissions (take k bs), Quiet)"
    unfolding gs(3) by auto
  with su(1) show ?thesis by blast
qed

text \<open>
  The user's asynchronous consumer receives the values its node was given, each with the time of
  its cycle, up to the point where the run's limit cuts the stream.
\<close>

lemma to_stream_values: "to_stream now i (map HistoricalValue gs @ rest) = ungroup gs @ to_stream now (i + length gs) rest"
  by (induction gs arbitrary: i) simp_all

lemma async_consumer_receives:
  assumes "rp_run_mode ctx = HistoricalFrom t"
  shows "\<exists>k. consumer_task start now now' (func, ctx)
      (value_stream (map (\<lambda>(u, v). \<lparr>va_value = [v], va_time = u\<rparr>) ticks)) = func ctx (take k ticks) \<and>
    (k < length ticks \<longrightarrow> cut_after (rp_run_for ctx) t k (map (\<lambda>(u, v). \<lparr>va_value = [v], va_time = u\<rparr>) ticks))"
proof -
  let ?gs = "map (\<lambda>(u, v). \<lparr>va_value = [v], va_time = u\<rparr>) ticks"
  have ug: "ungroup (take k ?gs) = take k ticks" for k
    by (induction ticks arbitrary: k) (auto simp: take_Cons' split: prod.splits)
  from limit_loop_values[of ?gs "rp_run_for ctx" t now 0 t 0] obtain k where "k \<le> length ticks"
    "limit_loop (rp_run_for ctx) t now 0 t 0 (value_stream ?gs) = value_stream ?gs \<and> k = length ticks \<or>
     limit_loop (rp_run_for ctx) t now 0 t 0 (value_stream ?gs) = map HistoricalValue (take k ?gs) \<and> 0 < k \<and>
       run_for_done (rp_run_for ctx) (word_of_nat (k - 1)) (nano_sub (va_time (?gs ! (k - 1))) t)" by auto
  then show ?thesis
    using assms to_stream_values[of now' 0 ?gs "[EndOfStream]"] to_stream_values[of now' 0 "take k ?gs" "[]"] ug[of k] ug[of "length ticks"]
    by (intro exI[of _ k]) (auto simp: consumer_task_def stream_limit_def cut_after_def value_stream_def)
qed

text \<open>The messages a node sends, one per cycle while its consumer runs.\<close>

lemma async_consumer_cycle_sends:
  assumes "async_channel kc pending" "ac_sender st = channel_sender_new c None"
  shows "\<exists>c'. async_consumer_cycle kc notify None peek gs st = (st\<lparr>ac_sender := channel_sender_new c' None\<rparr>, Inr True) \<and>
    pending c' = pending c @ [message_build (peek (ac_source st)) gs]"
proof -
  obtain c' where "kn_send kc (message_build (peek (ac_source st)) gs) c = (c', Inr ())"
    "pending c' = pending c @ [message_build (peek (ac_source st)) gs]"
    using async_channel.send_next[OF assms(1)] by blast
  then show ?thesis using assms(2)
    by (auto simp: async_consumer_cycle_def channel_send_def send_message_def channel_sender_new_def send_outcome_def
        message_build_def Let_def split: option.splits run_mode.splits)
qed

text \<open>
  A producer that yields a value and then fails: when the error has arrived by the time the value is
  due, the run aborts without emitting the value; when it arrives later, the value is emitted first.
\<close>

lemma producer_error_race:
  fixes v :: 'a and e :: anyhow
  assumes "gs_run_mode gs = HistoricalFrom t0" "gs_time gs = t" "t < nano_max"
  defines "msgs \<equiv> to_message_stream (HistoricalFrom t0) [Inr (t, v), Inl e]"
  shows "drive scheduled_queue (n + 2) gs (channel_receiver_stream_new \<lparr>sq_messages = msgs, sq_arrivals = []\<rparr> None h) =
      ([], Aborted e)"
    and "drive scheduled_queue (n + 2) gs (channel_receiver_stream_new \<lparr>sq_messages = msgs, sq_arrivals = [False]\<rparr> None h) =
      ([(t, [v])], Aborted e)"
proof -
  have m: "msgs = [HistoricalValue \<lparr>va_value = [v], va_time = t\<rparr>, MsgError e, EndOfStream]"
    by (simp add: msgs_def to_message_stream_def flush_def)
  note unf = channel_receiver_cycle_def historical_loop_modes historical_read_mode_def channel_receiver_stream_new_def
    receiver_recv_def receiver_try_recv_def scheduled_queue_def sq_recv_def sq_try_recv_def historical_message_def
    next_wakeup_def deliver_def m
  have up: "max t (nano_add_raw t 1) = nano_add_raw t 1"
    using nano_succ_greater[OF assms(3)] by (simp add: max_absorb2 less_imp_le)
  show "drive scheduled_queue (n + 2) gs (channel_receiver_stream_new \<lparr>sq_messages = msgs, sq_arrivals = []\<rparr> None h) =
      ([], Aborted e)"
    using assms(1,2) by (simp add: numeral_2_eq_2 unf)
  show "drive scheduled_queue (n + 2) gs (channel_receiver_stream_new \<lparr>sq_messages = msgs, sq_arrivals = [False]\<rparr> None h) =
      ([(t, [v])], Aborted e)"
    using assms(1,2) by (simp add: numeral_2_eq_2 unf up)
qed

end
