(* ===== verification/Window_Reader.thy ===== *)
theory Window_Reader
  imports Time_Slices Async_Io
begin

text \<open>
  What the bounded historical readers (\<^verbatim>\<open>kdb_read\<close>, \<^verbatim>\<open>postgres_read\<close>) share beyond the slices of the theory
  \<open>Time_Slices\<close>: the windows of consecutive slices are ordered, rows in time order cut at the bounds of
  the slices are put together again, and a producer that yields the rows of the run's window is
  replayed completely, because the limit of the run does not cut it (\<open>window_replays\<close>).
\<close>

section \<open>Streams that fail last\<close>

text \<open>A stream of rows and at most one error, at its end.\<close>

definition fails_last :: "bool \<Rightarrow> (nanotime \<times> 'a) list \<Rightarrow> (anyhow + nanotime \<times> 'a) list \<Rightarrow> bool" where
  "fails_last ok ks items \<longleftrightarrow> (if ok then items = map Inr ks else \<exists>e. items = map Inr ks @ [Inl e])"

section \<open>Windows\<close>

definition windows_ordered :: "time_window list \<Rightarrow> bool" where
  "windows_ordered = sorted_wrt (\<lambda>w w'. \<forall>t t'. tw_contains w t \<longrightarrow> tw_contains w' t' \<longrightarrow> t < t')"

lemma chain_windows_ordered:
  "chain a ss b \<Longrightarrow> windows_ordered (map (slice_window start e) ss)"
proof (induction ss arbitrary: a)
  case (Cons s ss)
  have ch: "chain (slice_hi s) ss b" using Cons.prems by simp
  have "t < t'" if t: "tw_contains (slice_window start e s) t" and s': "s' \<in> set ss"
    and t': "tw_contains (slice_window start e s') t'" for s' t t'
  proof -
    obtain i where "i < length ss" "ss ! i = s'" using s' by (auto simp: in_set_conv_nth)
    then have "slice_hi s \<le> slice_lo s'" using chain_bounds[OF ch] by blast
    with t t' show ?thesis unfolding nanotime_le_kdb by (simp add: slice_window_contains)
  qed
  then show ?case using Cons.IH[OF ch] by (auto simp: windows_ordered_def)
qed (simp add: windows_ordered_def)

lemma validated_chain:
  assumes "start \<noteq> nano_zero" "start < e" "raw e < 2 ^ 63" "\<not> duration_is_zero period"
    "0 < uint (duration_as_nanos period)" "uint (duration_as_nanos period) \<le> 900000000000000000"
  obtains ss a b where "compute_validated_time_slices adapter start (Inr e) period = Some (Inr ss)"
    "chain a ss b" "a \<le> kdb start" "kdb e \<le> b"
proof -
  obtain ss a b where "compute_time_slices start e period = Some ss" "chain a ss b" "a \<le> kdb start" "kdb e \<le> b"
    using compute_time_slices_chain[OF assms(2,3,5,6)] by blast
  moreover have "e \<noteq> nano_max" using assms(3) by (auto simp: nano_max_def)
  ultimately show thesis using that assms(1,4) by (simp add: compute_validated_time_slices_def)
qed

text \<open>Rows in time order, cut at the bounds of a chain of slices and put together again.\<close>

lemma filter_split_at:
  assumes "sorted (map fst T)" "\<forall>r \<in> set T. P r \<longrightarrow> Q r \<longrightarrow> False" "\<forall>r \<in> set T. \<forall>r' \<in> set T. P r \<longrightarrow> Q r' \<longrightarrow> fst r < (fst r' :: nanotime)"
  shows "filter (\<lambda>r. P r \<or> Q r) T = filter P T @ filter Q T"
  using assms
proof (induction T)
  case (Cons r T)
  then have IH: "filter (\<lambda>r. P r \<or> Q r) T = filter P T @ filter Q T" by simp
  show ?case
  proof (cases "Q r")
    case True
    have "\<not> P r'" if "r' \<in> set T" for r' using Cons.prems True that by (fastforce simp: not_less[symmetric])
    then have "filter P T = []" by simp
    with IH True Cons.prems(2) show ?thesis by simp
  next
    case False
    with IH show ?thesis by simp
  qed
qed simp

lemma chain_filter:
  assumes "sorted (map fst T)" "chain a ss b"
  shows "concat (map (\<lambda>s. filter (\<lambda>r. tw_contains (slice_window start e s) (fst r)) T) ss) =
    filter (\<lambda>r. start \<le> fst r \<and> fst r < e \<and> a \<le> kdb (fst r) \<and> kdb (fst r) < b) T"
  using assms(2)
proof (induction ss arbitrary: a)
  case Nil
  then show ?case by (auto simp: filter_empty_conv)
next
  case (Cons s ss)
  let ?h = "slice_hi s"
  have c: "chain ?h ss b" "slice_lo s = a" "a < ?h" "?h \<le> b" using Cons.prems chain_le[of ?h ss b] by auto
  have "filter (\<lambda>r. start \<le> fst r \<and> fst r < e \<and> a \<le> kdb (fst r) \<and> kdb (fst r) < b) T =
    filter (\<lambda>r. tw_contains (slice_window start e s) (fst r) \<or>
      (start \<le> fst r \<and> fst r < e \<and> ?h \<le> kdb (fst r) \<and> kdb (fst r) < b)) T"
    using c by (intro filter_cong) (auto simp: slice_window_contains)
  also have "\<dots> = filter (\<lambda>r. tw_contains (slice_window start e s) (fst r)) T @
      filter (\<lambda>r. start \<le> fst r \<and> fst r < e \<and> ?h \<le> kdb (fst r) \<and> kdb (fst r) < b) T"
    by (rule filter_split_at[OF assms(1)]) (auto simp: slice_window_contains nanotime_le_kdb)
  finally show ?case using Cons.IH[OF c(1)] by simp
qed

lemma clamp_filter:
  "filter (\<lambda>r. tw_contains (tw_clamp t0 t1 start e) (fst r)) X =
    filter (\<lambda>r. tw_contains (tw_clamp t0 t1 start e) (fst r)) (filter (\<lambda>r. t0 \<le> fst r \<and> fst r < t1) X)"
  unfolding filter_filter by (intro filter_cong refl) (auto simp: tw_contains_def tw_clamp_def)

section \<open>Replay\<close>

lemma elapsed_within:
  assumes "start \<le> t" "t < nano_add_duration start d"
  shows "\<not> nano_from_duration d < nano_sub t start"
proof -
  define D :: u64 where "D = ucast (duration_as_nanos d)"
  obtain s u where st: "start = NanoTime s" "t = NanoTime u" by (cases start; cases t)
  have "s \<le> u" "u < s + D" using assms st by (simp_all add: nano_add_duration_def D_def)
  then have "unat (s + D) = unat s + unat D" using unat_plus_simple[of s D] by (meson order_trans less_imp_le)
  then have "u - s < D" using \<open>s \<le> u\<close> \<open>u < s + D\<close> by (simp add: word_less_nat_alt word_le_nat_alt unat_sub)
  then show ?thesis using st ucast_as_nanos[of d] by (simp add: nano_sub_def nano_from_duration_def D_def)
qed

lemma window_replays:
  assumes chan: "async_channel kc pending" "pending c = []"
    and gs: "gs_run_mode gs = HistoricalFrom start" "gs_start_time gs = start" "gs_time gs = start" "gs_run_for gs = RunDuration d"
    and items: "func (run_params_of gs) = Inr (map Inr (filter (\<lambda>r. start \<le> fst r \<and> fst r < nano_add_duration start d) T))"
      "sorted (map fst T)"
    and set_up: "async_producer_setup gs (async_producer_new c func) = Some (st, cmds, r)" "ap_handle st = Some task"
    and n: "2 * length T + 1 \<le> n"
  shows "\<exists>bs. ungroup bs = filter (\<lambda>r. start \<le> fst r \<and> fst r < nano_add_duration start d) T \<and>
    sorted_wrt (<) (map va_time bs) \<and> (\<forall>b \<in> set bs. va_value b \<noteq> []) \<and>
    drive kc n gs ((ap_receiver_stream st)\<lparr>cr_receiver := producer_task kc notify first_now now task c\<rparr>) = (emissions bs, Quiet)"
proof -
  let ?e = "nano_add_duration start d"
  define items' where "items' = filter (\<lambda>r. start \<le> fst r \<and> fst r < ?e) T"
  have rng: "\<forall>i \<in> set items'. gs_time gs \<le> fst i \<and> fst i < nano_max"
    using gs(3) by (auto simp: items'_def intro: less_le_trans)
  have srt: "sorted (map fst items')" using items(2) by (simp add: items'_def sorted_filter)
  have len: "2 * length items' + 1 \<le> n" using n length_filter_le[of _ T] by (fastforce simp: items'_def intro: order_trans[rotated])
  obtain bs k where bs: "ungroup bs = items'" "sorted_wrt (<) (map va_time bs)" "\<forall>b \<in> set bs. va_value b \<noteq> []"
    "drive kc n gs ((ap_receiver_stream st)\<lparr>cr_receiver := producer_task kc notify first_now now task c\<rparr>) = (emissions (take k bs), Quiet)"
    "k < length bs \<longrightarrow> cut_after (gs_run_for gs) start k bs"
    using producer_replays[OF chan gs(1) rng items(1)[folded items'_def] srt set_up len, of notify first_now now] by (elim exE conjE)
  have "\<not> cut_after (gs_run_for gs) start k bs" if "k < length bs"
  proof
    assume cut: "cut_after (gs_run_for gs) start k bs"
    let ?b = "bs ! (k - 1)"
    have "?b \<in> set bs" using that by simp
    from group_time_mem[OF this] bs(1,3) this have "start \<le> va_time ?b" "va_time ?b < ?e" by (auto simp: items'_def)
    from elapsed_within[OF this] cut gs(4) show False by (simp add: cut_after_def)
  qed
  with bs show ?thesis by (intro exI[of _ bs]) (auto simp: items'_def not_less)
qed

end
