(* ===== verification/Kdb_Read.thy ===== *)
theory Kdb_Read
  imports Window_Reader Float64 Rust_Strings
begin

text \<open>
  Reading from KDB+: \<^verbatim>\<open>adapters/kdb/mod.rs\<close>, \<^verbatim>\<open>adapters/kdb/read.rs\<close> and \<^verbatim>\<open>adapters/kdb/sub.rs\<close>.

  The values of the crate \<^verbatim>\<open>kdb_plus_fixed\<close> are a type \<open>'k\<close> and a record of the crate's functions on
  them; an \<^verbatim>\<open>f32\<close> is represented by the \<^verbatim>\<open>f64\<close> of the same value. A connection is a state \<open>'s\<close>: \<open>ask\<close> is
  a synchronous query, \<open>receive\<close> the next message. The conversion of a row and the function that
  writes a query are the user's, and parameters. Of the error messages the rendered times, numbers
  and addresses are left out, and so are the log calls.

  The theorems: whatever the server sends, the rows a read yields are inside the run's window and in
  time order (\<open>kdb_read_safe\<close>); and a server that answers each query with the rows of its slice is
  read completely and exactly, up to the bursts the node emits (\<open>kdb_read_exact\<close>).
\<close>

section \<open>Connections and symbols\<close>

datatype sym = Sym string

definition sym_default :: sym where
  "sym_default = Sym []"

definition sym_display :: "sym \<Rightarrow> string" where
  "sym_display s = (case s of Sym t \<Rightarrow> t)"

text \<open>The interner shares storage; the set holds the texts it has seen.\<close>

record symbol_interner =
  si_set :: "string set"

definition symbol_interner_default :: symbol_interner where
  "symbol_interner_default = \<lparr>si_set = {}\<rparr>"

definition intern :: "string \<Rightarrow> symbol_interner \<Rightarrow> symbol_interner \<times> sym" where
  "intern s i = (if s \<in> si_set i then (i, Sym s) else (i\<lparr>si_set := insert s (si_set i)\<rparr>, Sym s))"

record kdb_credentials =
  kd_username :: string
  kd_password :: string

record kdb_connection =
  kd_host :: string
  kd_port :: "16 word"
  kd_credentials :: "kdb_credentials option"

definition kdb_connection_new :: "string \<Rightarrow> 16 word \<Rightarrow> kdb_connection" where
  "kdb_connection_new host port = \<lparr>kd_host = host, kd_port = port, kd_credentials = None\<rparr>"

definition with_credentials :: "string \<Rightarrow> string \<Rightarrow> kdb_connection \<Rightarrow> kdb_connection" where
  "with_credentials username password c =
     c\<lparr>kd_credentials := Some \<lparr>kd_username = username, kd_password = password\<rparr>\<rparr>"

definition credentials_string :: "kdb_connection \<Rightarrow> string" where
  "credentials_string c = (case kd_credentials c of
       Some creds \<Rightarrow> kd_username creds @ '':'' @ kd_password creds
     | None \<Rightarrow> [])"

section \<open>Values of the crate\<close>

datatype qtype = TABLE | LONG_LIST | TIMESTAMP_LIST | TIMESPAN_LIST | FLOAT_LIST | SYMBOL_LIST | QSTRING
  | INT_LIST | DATE_LIST | TIME_LIST | SHORT_LIST | BOOL_LIST | REAL_LIST | COMPOUND_LIST
  | SYMBOL_ATOM | FLOAT_ATOM | LONG_ATOM | INT_ATOM | BOOL_ATOM | REAL_ATOM | QERROR | OtherType int

datatype kdb_error =
    IndexOutOfBounds nat nat
  | InvalidOperation string string "string option"
  | KdbError string

record 'k kdb_lib =
  k_get_type :: "'k \<Rightarrow> qtype"
  k_len :: "'k \<Rightarrow> nat"
  k_vec_i64 :: "'k \<Rightarrow> kdb_error + i64 list"
  k_vec_f64 :: "'k \<Rightarrow> kdb_error + f64 list"
  k_vec_string :: "'k \<Rightarrow> kdb_error + string list"
  k_vec_u8 :: "'k \<Rightarrow> kdb_error + u8 list"
  k_vec_i32 :: "'k \<Rightarrow> kdb_error + i32 list"
  k_vec_i16 :: "'k \<Rightarrow> kdb_error + 16 word list"
  k_vec_bool :: "'k \<Rightarrow> kdb_error + bool list"
  k_vec_f32 :: "'k \<Rightarrow> kdb_error + f64 list"
  k_vec_k :: "'k \<Rightarrow> kdb_error + 'k list"
  k_get_dictionary :: "'k \<Rightarrow> kdb_error + 'k"
  k_get_symbol :: "'k \<Rightarrow> kdb_error + string"
  k_get_long :: "'k \<Rightarrow> kdb_error + i64"
  k_get_float :: "'k \<Rightarrow> kdb_error + f64"
  k_get_int :: "'k \<Rightarrow> kdb_error + i32"
  k_get_bool :: "'k \<Rightarrow> kdb_error + bool"
  k_get_real :: "'k \<Rightarrow> kdb_error + f64"
  k_get_error_string :: "'k \<Rightarrow> kdb_error + string"
  k_new_long :: "i64 \<Rightarrow> 'k"
  k_new_float :: "f64 \<Rightarrow> 'k"
  k_new_symbol :: "string \<Rightarrow> 'k"
  k_new_byte :: "u8 \<Rightarrow> 'k"
  k_new_int :: "i32 \<Rightarrow> 'k"
  k_new_short :: "16 word \<Rightarrow> 'k"
  k_new_bool :: "bool \<Rightarrow> 'k"
  k_new_real :: "f64 \<Rightarrow> 'k"
  k_error_display :: "kdb_error \<Rightarrow> string"

definition kdb_anyhow :: "'k kdb_lib \<Rightarrow> kdb_error \<Rightarrow> anyhow" where
  "kdb_anyhow lib e = Anyhow (k_error_display lib e)"

text \<open>\<^verbatim>\<open>Vec::get\<close>, and \<^verbatim>\<open>v.ok().and_then(|v| v.get(index).map(f))\<close>.\<close>

definition vec_get :: "'b list \<Rightarrow> nat \<Rightarrow> 'b option" where
  "vec_get v i = (if i < length v then Some (v ! i) else None)"

definition get_mapped :: "('b \<Rightarrow> 'k) \<Rightarrow> nat \<Rightarrow> kdb_error + 'b list \<Rightarrow> 'k option" where
  "get_mapped f index r = (case r of Inl _ \<Rightarrow> None | Inr v \<Rightarrow> map_option f (vec_get v index))"

definition element_at :: "'k kdb_lib \<Rightarrow> nat \<Rightarrow> 'k \<Rightarrow> kdb_error + 'k" where
  "element_at lib index k =
     (let ktype = k_get_type lib k;
          len = k_len lib k;
          finish = (\<lambda>r. case r of Some x \<Rightarrow> Inr x | None \<Rightarrow> Inl (IndexOutOfBounds index len))
      in if ktype \<in> {LONG_LIST, TIMESTAMP_LIST, TIMESPAN_LIST} then finish (get_mapped (k_new_long lib) index (k_vec_i64 lib k))
         else if ktype = FLOAT_LIST then finish (get_mapped (k_new_float lib) index (k_vec_f64 lib k))
         else if ktype = SYMBOL_LIST then finish (get_mapped (k_new_symbol lib) index (k_vec_string lib k))
         else if ktype = QSTRING then finish (get_mapped (k_new_byte lib) index (k_vec_u8 lib k))
         else if ktype \<in> {INT_LIST, DATE_LIST, TIME_LIST} then finish (get_mapped (k_new_int lib) index (k_vec_i32 lib k))
         else if ktype = SHORT_LIST then finish (get_mapped (k_new_short lib) index (k_vec_i16 lib k))
         else if ktype = BOOL_LIST then finish (get_mapped (k_new_bool lib) index (k_vec_bool lib k))
         else if ktype = REAL_LIST then finish (get_mapped (k_new_real lib) index (k_vec_f32 lib k))
         else if ktype = COMPOUND_LIST then finish (get_mapped id index (k_vec_k lib k))
         else Inl (InvalidOperation ''element_at'' ''K'' (Some ''list type'')))"

section \<open>Rows\<close>

record 'k rows =
  rs_columns :: "'k list"
  rs_n_rows :: nat

record 'k row =
  rw_columns :: "'k list"
  rw_index :: nat

record 'k row_iter =
  ri_columns :: "'k list"
  ri_n_rows :: nat
  ri_current :: nat

definition rows_is_empty :: "'k rows \<Rightarrow> bool" where
  "rows_is_empty rs \<longleftrightarrow> rs_n_rows rs = 0"

definition from_column_list :: "'k kdb_lib \<Rightarrow> 'k list \<Rightarrow> 'k rows" where
  "from_column_list lib columns =
     \<lparr>rs_columns = columns, rs_n_rows = (case columns of [] \<Rightarrow> 0 | c # _ \<Rightarrow> k_len lib c)\<rparr>"

definition rows_get :: "nat \<Rightarrow> 'k rows \<Rightarrow> 'k row option" where
  "rows_get index rs = (if index < rs_n_rows rs then Some \<lparr>rw_columns = rs_columns rs, rw_index = index\<rparr> else None)"

definition rows_iter :: "'k rows \<Rightarrow> 'k row_iter" where
  "rows_iter rs = \<lparr>ri_columns = rs_columns rs, ri_n_rows = rs_n_rows rs, ri_current = 0\<rparr>"

definition row_iter_next :: "'k row_iter \<Rightarrow> 'k row_iter \<times> 'k row option" where
  "row_iter_next it =
     (if ri_current it < ri_n_rows it
      then (it\<lparr>ri_current := ri_current it + 1\<rparr>, Some \<lparr>rw_columns = ri_columns it, rw_index = ri_current it\<rparr>)
      else (it, None))"

definition row_iter_size_hint :: "'k row_iter \<Rightarrow> nat \<times> nat option" where
  "row_iter_size_hint it = (let remaining = ri_n_rows it - ri_current it in (remaining, Some remaining))"

text \<open>What a \<^verbatim>\<open>for\<close> loop over the iterator sees.\<close>

function row_iter_collect :: "'k row_iter \<Rightarrow> 'k row list" where
  "row_iter_collect it = (case row_iter_next it of
       (it', None) \<Rightarrow> []
     | (it', Some r) \<Rightarrow> r # row_iter_collect it')"
  by pat_completeness auto
termination
  by (relation "measure (\<lambda>it. ri_n_rows it - ri_current it)") (auto simp: row_iter_next_def split: if_splits)

declare row_iter_collect.simps [simp del]

definition row_get :: "'k kdb_lib \<Rightarrow> nat \<Rightarrow> 'k row \<Rightarrow> kdb_error + 'k" where
  "row_get lib col r = (case vec_get (rw_columns r) col of
       None \<Rightarrow> Inl (IndexOutOfBounds col (length (rw_columns r)))
     | Some c \<Rightarrow> element_at lib (rw_index r) c)"

definition row_get_timestamp :: "'k kdb_lib \<Rightarrow> nat \<Rightarrow> 'k row \<Rightarrow> kdb_error + nanotime" where
  "row_get_timestamp lib col r = (case row_get lib col r of
       Inl e \<Rightarrow> Inl e
     | Inr k \<Rightarrow> (case k_get_long lib k of Inl e \<Rightarrow> Inl e | Inr l \<Rightarrow> Inr (from_kdb_timestamp l)))"

definition row_get_sym :: "'k kdb_lib \<Rightarrow> nat \<Rightarrow> 'k row \<Rightarrow> symbol_interner \<Rightarrow> symbol_interner \<times> (kdb_error + sym)" where
  "row_get_sym lib col r interner = (case vec_get (rw_columns r) col of
       None \<Rightarrow> (interner, Inl (IndexOutOfBounds col (length (rw_columns r))))
     | Some c \<Rightarrow> (case k_vec_string lib c of
           Inl _ \<Rightarrow> (interner, Inl (InvalidOperation ''get_sym'' ''K'' (Some ''symbol list'')))
         | Inr strings \<Rightarrow> (case vec_get strings (rw_index r) of
               None \<Rightarrow> (interner, Inl (IndexOutOfBounds (rw_index r) (length strings)))
             | Some s \<Rightarrow> (case intern s interner of (i, x) \<Rightarrow> (i, Inr x)))))"

definition row_len :: "'k row \<Rightarrow> nat" where
  "row_len r = length (rw_columns r)"

definition row_is_empty :: "'k row \<Rightarrow> bool" where
  "row_is_empty r \<longleftrightarrow> rw_columns r = []"

definition column_names :: "'k kdb_lib \<Rightarrow> 'k \<Rightarrow> anyhow + string list" where
  "column_names lib k =
     (if k_get_type lib k \<noteq> TABLE then Inl (Anyhow ''expected table (qtype 98)'')
      else case k_get_dictionary lib k of
        Inl e \<Rightarrow> Inl (kdb_anyhow lib e)
      | Inr dict \<Rightarrow> (case k_vec_k lib dict of
          Inl e \<Rightarrow> Inl (kdb_anyhow lib e)
        | Inr [] \<Rightarrow> Inl (Anyhow ''table dictionary has no keys'')
        | Inr (keys # _) \<Rightarrow> (case k_vec_string lib keys of
            Inl e \<Rightarrow> Inl (kdb_anyhow lib e)
          | Inr symbols \<Rightarrow> Inr symbols)))"

definition table_rows :: "'k kdb_lib \<Rightarrow> 'k \<Rightarrow> anyhow + 'k rows" where
  "table_rows lib k =
     (if k_get_type lib k \<noteq> TABLE then Inl (Anyhow ''expected table (qtype 98)'')
      else case k_get_dictionary lib k of
        Inl e \<Rightarrow> Inl (kdb_anyhow lib e)
      | Inr dict \<Rightarrow> (case k_vec_k lib dict of
          Inl e \<Rightarrow> Inl (kdb_anyhow lib e)
        | Inr dict_parts \<Rightarrow>
            if length dict_parts < 2 then Inl (Anyhow ''table dictionary missing values'')
            else (case k_vec_k lib (dict_parts ! 1) of
                Inl e \<Rightarrow> Inl (kdb_anyhow lib e)
              | Inr columns \<Rightarrow> Inr \<lparr>rs_columns = columns,
                  rs_n_rows = (case columns of [] \<Rightarrow> 0 | c # _ \<Rightarrow> k_len lib c)\<rparr>)))"

definition upd_payload_rows :: "'k kdb_lib \<Rightarrow> 'k \<Rightarrow> anyhow + 'k rows" where
  "upd_payload_rows lib data =
     (if k_get_type lib data = TABLE then table_rows lib data
      else case k_vec_k lib data of
        Inl _ \<Rightarrow> Inl (Anyhow ''kdb_sub: upd payload is neither a table nor a list of columns'')
      | Inr columns \<Rightarrow> Inr (from_column_list lib columns))"

section \<open>The historical reader\<close>

type_synonym ('k, 'a) from_kdb_row = "'k row \<Rightarrow> string list \<Rightarrow> symbol_interner \<Rightarrow> symbol_interner \<times> (kdb_error + nanotime \<times> 'a)"

text \<open>The items one slice yields, the interner, and whether the stream goes on.\<close>

fun chunk_rows :: "'k kdb_lib \<Rightarrow> ('k, 'a) from_kdb_row \<Rightarrow> string list \<Rightarrow> 'k row list \<Rightarrow> nanotime option \<Rightarrow> window_filter \<Rightarrow>
    symbol_interner \<Rightarrow> (anyhow + nanotime \<times> 'a) list \<times> symbol_interner \<times> bool" where
  "chunk_rows lib from_row columns [] prev_time f interner = ([], interner, True)"
| "chunk_rows lib from_row columns (r # rs) prev_time f interner = (case from_row r columns interner of
       (interner', Inl e) \<Rightarrow> ([Inl (kdb_anyhow lib e)], interner', False)
     | (interner', Inr (time, record)) \<Rightarrow> (case window_filter_keep time f of
           (f', False) \<Rightarrow> chunk_rows lib from_row columns rs prev_time f' interner'
         | (f', True) \<Rightarrow>
             if (case prev_time of Some prev \<Rightarrow> time < prev | None \<Rightarrow> False)
             then ([Inl (Anyhow ''KDB data is not sorted by time'')], interner', False)
             else (case chunk_rows lib from_row columns rs (Some time) f' interner' of
                 (items, res) \<Rightarrow> (Inr (time, record) # items, res))))"

text \<open>The closure \<^verbatim>\<open>next_slice\<close> is the list of what it returns: nothing else changes its state.\<close>

fun chunk_stream :: "'k kdb_lib \<Rightarrow> ('k, 'a) from_kdb_row \<Rightarrow> ('s \<Rightarrow> bytes \<Rightarrow> 's \<times> (kdb_error + 'k)) \<Rightarrow>
    (bytes \<times> time_window) list \<Rightarrow> 's \<Rightarrow> symbol_interner \<Rightarrow> (anyhow + nanotime \<times> 'a) list" where
  "chunk_stream lib from_row ask [] socket interner = []"
| "chunk_stream lib from_row ask ((query, window) # slices) socket interner = (case ask socket query of
       (socket', Inl e) \<Rightarrow> [Inl (kdb_anyhow lib e)]
     | (socket', Inr result) \<Rightarrow> (case (column_names lib result, table_rows lib result) of
           (Inr columns, Inr rows) \<Rightarrow>
             (case chunk_rows lib from_row columns (row_iter_collect (rows_iter rows)) None
                 (window_filter_new ''kdb_read'' window) interner of
                (items, interner', go_on) \<Rightarrow>
                  items @ (if go_on then chunk_stream lib from_row ask slices socket' interner' else []))
         | (Inl e, _) \<Rightarrow> [Inl e]
         | (_, Inl e) \<Rightarrow> [Inl e]))"

text \<open>The queries of the slices; the query function may have a state of its own.\<close>

type_synonym 'q query_fn = "'q \<Rightarrow> nanotime \<times> nanotime \<Rightarrow> i32 \<Rightarrow> nat \<Rightarrow> 'q \<times> bytes"

fun slice_queries :: "'q query_fn \<Rightarrow> nanotime \<Rightarrow> nanotime \<Rightarrow> 'q \<Rightarrow> slice list \<Rightarrow> (bytes \<times> time_window) list" where
  "slice_queries query_fn start_time end_time q [] = []"
| "slice_queries query_fn start_time end_time q (((t0, t1), date, iteration) # slices) =
     (case query_fn q (t0, t1) date iteration of
        (q', query) \<Rightarrow> (query, tw_clamp t0 t1 start_time end_time) # slice_queries query_fn start_time end_time q' slices)"

text \<open>The function given to \<^verbatim>\<open>produce_async\<close>. A panic is \<open>None\<close>.\<close>

definition kdb_read_func :: "'k kdb_lib \<Rightarrow> ('k, 'a) from_kdb_row \<Rightarrow> (kdb_connection \<Rightarrow> string \<Rightarrow> kdb_error + 's) \<Rightarrow>
    ('s \<Rightarrow> bytes \<Rightarrow> 's \<times> (kdb_error + 'k)) \<Rightarrow> kdb_connection \<Rightarrow> duration \<Rightarrow> 'q query_fn \<Rightarrow> 'q \<Rightarrow> run_params \<Rightarrow>
    (anyhow + (anyhow + nanotime \<times> 'a) list) option" where
  "kdb_read_func lib from_row connect ask connection period query_fn q ctx =
     (let start_time = rp_start_time ctx; end_time_result = rp_end_time ctx in
      case compute_validated_time_slices ''kdb_read_time_sliced'' start_time end_time_result period of
        None \<Rightarrow> None
      | Some (Inl e) \<Rightarrow> Some (Inl e)
      | Some (Inr slices) \<Rightarrow> (case end_time_result of
          Inl _ \<Rightarrow> None
        | Inr end_time \<Rightarrow> (case connect connection (credentials_string connection) of
            Inl e \<Rightarrow> Some (Inl (kdb_anyhow lib e))
          | Inr socket \<Rightarrow> Some (Inr (chunk_stream lib from_row ask
              (slice_queries query_fn start_time end_time q slices) socket symbol_interner_default)))))"

section \<open>The subscription\<close>

fun sub_rows :: "'k kdb_lib \<Rightarrow> ('k, 'a) from_kdb_row \<Rightarrow> string list \<Rightarrow> 'k row list \<Rightarrow> symbol_interner \<Rightarrow>
    (anyhow + nanotime \<times> 'a) list \<times> symbol_interner \<times> bool" where
  "sub_rows lib from_row columns [] interner = ([], interner, True)"
| "sub_rows lib from_row columns (r # rs) interner = (case from_row r columns interner of
       (interner', Inl e) \<Rightarrow> ([Inl (kdb_anyhow lib e)], interner', False)
     | (interner', Inr x) \<Rightarrow> (case sub_rows lib from_row columns rs interner' of
           (items, res) \<Rightarrow> (Inr x # items, res)))"

text \<open>\<open>is_upd\<close>: a compound list of at least three elements that begins with the symbol \<^verbatim>\<open>upd\<close>.\<close>

definition is_upd :: "'k kdb_lib \<Rightarrow> 'k \<Rightarrow> bool" where
  "is_upd lib msg \<longleftrightarrow> k_get_type lib msg = COMPOUND_LIST \<and> \<not> k_len lib msg < 3 \<and>
     (case element_at lib 0 msg of
        Inl _ \<Rightarrow> False
      | Inr f \<Rightarrow> (case k_get_symbol lib f of Inl _ \<Rightarrow> False | Inr s \<Rightarrow> s = ''upd''))"

text \<open>The loop, on the results of \<^verbatim>\<open>receive_message\<close> so far.\<close>

fun sub_loop :: "'k kdb_lib \<Rightarrow> ('k, 'a) from_kdb_row \<Rightarrow> string list \<Rightarrow> (kdb_error + 'k) list \<Rightarrow> symbol_interner \<Rightarrow>
    (anyhow + nanotime \<times> 'a) list" where
  "sub_loop lib from_row columns [] interner = []"
| "sub_loop lib from_row columns (Inl e # msgs) interner = [Inl (ErrorContext ''kdb_sub: receive failed'' (kdb_anyhow lib e))]"
| "sub_loop lib from_row columns (Inr msg # msgs) interner =
     (if \<not> is_upd lib msg then sub_loop lib from_row columns msgs interner
      else case element_at lib 2 msg of
        Inl e \<Rightarrow> [Inl (ErrorContext ''kdb_sub: upd message has no data'' (kdb_anyhow lib e))]
      | Inr data \<Rightarrow> (case upd_payload_rows lib data of
          Inl e \<Rightarrow> [Inl e]
        | Inr rows \<Rightarrow> (case sub_rows lib from_row columns (row_iter_collect (rows_iter rows)) interner of
            (items, interner', go_on) \<Rightarrow> items @ (if go_on then sub_loop lib from_row columns msgs interner' else []))))"

definition sub_query :: "string \<Rightarrow> string \<Rightarrow> bytes" where
  "sub_query tbl symbols = ascii (''.u.sub[`'' @ tbl @ '';'' @ symbols @ '']'')"

definition kdb_sub_func :: "'k kdb_lib \<Rightarrow> ('k, 'a) from_kdb_row \<Rightarrow> (kdb_connection \<Rightarrow> string \<Rightarrow> kdb_error + 's) \<Rightarrow>
    ('s \<Rightarrow> bytes \<Rightarrow> 's \<times> (kdb_error + 'k)) \<Rightarrow> ('s \<Rightarrow> (kdb_error + 'k) list) \<Rightarrow> kdb_connection \<Rightarrow> string \<Rightarrow> string \<Rightarrow> run_params \<Rightarrow>
    anyhow + (anyhow + nanotime \<times> 'a) list" where
  "kdb_sub_func lib from_row connect ask received connection tbl symbols ctx =
     (if rp_run_mode ctx \<noteq> RealTime
      then Inl (Anyhow ''kdb_sub requires RunMode::RealTime; use kdb_read for historical replay'')
      else case connect connection (credentials_string connection) of
        Inl e \<Rightarrow> Inl (ErrorContext ''kdb_sub: failed to connect'' (kdb_anyhow lib e))
      | Inr socket \<Rightarrow> (case ask socket (sub_query tbl symbols) of
          (socket', Inl e) \<Rightarrow> Inl (ErrorContext ''kdb_sub: subscription failed'' (kdb_anyhow lib e))
        | (socket', Inr sub_reply) \<Rightarrow>
            (let columns = (case element_at lib 1 sub_reply of
                 Inl _ \<Rightarrow> []
               | Inr schema \<Rightarrow> (case column_names lib schema of Inl _ \<Rightarrow> [] | Inr cs \<Rightarrow> cs))
             in Inr (sub_loop lib from_row columns (received socket') symbol_interner_default))))"

section \<open>Lemmas\<close>

lemma row_iter_collect_from:
  "ri_current it \<le> ri_n_rows it \<Longrightarrow> row_iter_collect it =
     map (\<lambda>i. \<lparr>rw_columns = ri_columns it, rw_index = i\<rparr>) [ri_current it..<ri_n_rows it]"
proof (induction it rule: row_iter_collect.induct)
  case (1 it)
  show ?case
  proof (cases "ri_current it < ri_n_rows it")
    case True
    with 1 show ?thesis by (subst row_iter_collect.simps) (simp add: row_iter_next_def upt_conv_Cons)
  next
    case False
    with 1 show ?thesis by (subst row_iter_collect.simps) (simp add: row_iter_next_def)
  qed
qed

text \<open>Iterating visits every row once and in order.\<close>

lemma rows_iter_visits:
  "map Some (row_iter_collect (rows_iter rs)) = map (\<lambda>i. rows_get i rs) [0..<rs_n_rows rs]"
  by (simp add: row_iter_collect_from rows_iter_def rows_get_def)

lemma chunk_rows_safe:
  assumes "chunk_rows lib from_row columns rs prev f i = (items, i', ok)"
  shows "\<exists>ks. fails_last ok ks items \<and> sorted (map fst ks) \<and> (\<forall>k \<in> set ks. tw_contains (wf_window f) (fst k)) \<and>
    (\<forall>p. prev = Some p \<longrightarrow> (\<forall>k \<in> set ks. p \<le> fst k))"
  using assms
proof (induction rs arbitrary: prev f i items i' ok)
  case Nil
  then show ?case by (intro exI[of _ "[]"]) (simp add: fails_last_def)
next
  case (Cons r rs)
  obtain i1 res where fr: "from_row r columns i = (i1, res)" by (cases "from_row r columns i")
  show ?case
  proof (cases res)
    case (Inl e)
    with Cons.prems fr show ?thesis by (intro exI[of _ "[]"]) (auto simp: fails_last_def)
  next
    case (Inr x)
    obtain t v where x: "x = (t, v)" by (cases x)
    obtain f' b where k: "window_filter_keep t f = (f', b)" "wf_window f' = wf_window f" "b \<longleftrightarrow> tw_contains (wf_window f) t"
      by (cases "tw_contains (wf_window f) t") (simp_all add: window_filter_keep_def)
    show ?thesis
    proof (cases b)
      case False
      with Cons.prems fr Inr x k have "chunk_rows lib from_row columns rs prev f' i1 = (items, i', ok)" by simp
      from Cons.IH[OF this] k(2) show ?thesis by simp
    next
      case b: True
      show ?thesis
      proof (cases "case prev of Some p \<Rightarrow> t < p | None \<Rightarrow> False")
        case True
        with Cons.prems fr Inr x k b show ?thesis by (intro exI[of _ "[]"]) (auto simp: fails_last_def)
      next
        case False
        obtain items' where it: "chunk_rows lib from_row columns rs (Some t) f' i1 = (items', i', ok)" "items = Inr (t, v) # items'"
          using Cons.prems fr Inr x k b False by (auto split: prod.splits)
        from Cons.IH[OF it(1)] obtain ks where ks: "fails_last ok ks items'" "sorted (map fst ks)"
          "\<forall>k \<in> set ks. tw_contains (wf_window f) (fst k)" "\<forall>k \<in> set ks. t \<le> fst k" using k(2) by auto
        moreover have "p \<le> fst k" if "prev = Some p" "k \<in> set ((t, v) # ks)" for p k
          using that False ks(4) by (auto intro: order_trans)
        ultimately show ?thesis using it(2) k(3) b
          by (intro exI[of _ "(t, v) # ks"]) (auto simp: fails_last_def split: if_splits)
      qed
    qed
  qed
qed

lemma chunk_stream_safe:
  assumes "windows_ordered (map snd slices)"
  shows "\<exists>ok ks. fails_last ok ks (chunk_stream lib from_row ask slices sock i) \<and> sorted (map fst ks) \<and>
    (\<forall>k \<in> set ks. \<exists>w \<in> snd ` set slices. tw_contains w (fst k))"
  using assms
proof (induction slices arbitrary: sock i)
  case Nil
  then show ?case by (intro exI[of _ True] exI[of _ "[]"]) (simp add: fails_last_def)
next
  case (Cons s slices)
  let ?out = "chunk_stream lib from_row ask (s # slices) sock i"
  obtain query w where s: "s = (query, w)" by (cases s)
  obtain sock' res where a: "ask sock query = (sock', res)" by (cases "ask sock query")
  have stop: ?case if "?out = [Inl e]" for e
    by (intro exI[of _ False] exI[of _ "[]"]) (simp add: that fails_last_def)
  show ?case
  proof (cases "\<exists>k columns rows. res = Inr k \<and> column_names lib k = Inr columns \<and> table_rows lib k = Inr rows")
    case False
    then show ?thesis using s a stop by (auto split: sum.splits)
  next
    case True
    then obtain k columns rows where k: "res = Inr k" "column_names lib k = Inr columns" "table_rows lib k = Inr rows" by blast
    obtain items i' ok where c: "chunk_rows lib from_row columns (row_iter_collect (rows_iter rows)) None
        (window_filter_new ''kdb_read'' w) i = (items, i', ok)" by (metis prod_cases3)
    obtain ks where ks: "fails_last ok ks items" "sorted (map fst ks)" "\<forall>k \<in> set ks. tw_contains w (fst k)"
      using chunk_rows_safe[OF c] by (auto simp: window_filter_new_def)
    show ?thesis
    proof (cases ok)
      case False
      then have "?out = items" using s a k c by simp
      with ks s False show ?thesis by (intro exI[of _ False] exI[of _ ks]) auto
    next
      case True
      from Cons obtain ok' ks' where r: "fails_last ok' ks' (chunk_stream lib from_row ask slices sock' i')" "sorted (map fst ks')"
        "\<forall>k \<in> set ks'. \<exists>w \<in> snd ` set slices. tw_contains w (fst k)" by (fastforce simp: windows_ordered_def)
      have "?out = map Inr ks @ chunk_stream lib from_row ask slices sock' i'" using s a k c ks(1) True by (simp add: fails_last_def)
      then have "fails_last ok' (ks @ ks') ?out" using r(1) by (auto simp: fails_last_def split: if_splits)
      moreover have "fst x < fst y" if "x \<in> set ks" "y \<in> set ks'" for x y
        using that ks(3) r(3) Cons.prems s by (fastforce simp: windows_ordered_def)
      then have "sorted (map fst (ks @ ks'))" using ks(2) r(2) by (auto simp: sorted_append less_imp_le)
      ultimately show ?thesis using ks(3) r(3) s by (intro exI[of _ ok'] exI[of _ "ks @ ks'"]) auto
    qed
  qed
qed

lemma slice_queries_windows:
  "map snd (slice_queries query_fn start e q slices) = map (slice_window start e) slices"
  by (induction query_fn start e q slices rule: slice_queries.induct) (auto simp: slice_window_def split: prod.splits)

section \<open>Properties\<close>

text \<open>
  C19. Whatever the server answers, and whatever the conversion of rows and the queries are, the
  reader yields rows inside the run's window \<open>[start, end)\<close> and in time order, and at most one error,
  at the end: a row of the reader can neither lie outside the run nor drive the engine's clock
  backwards. (For times up to the year 2262 and a period of at most \<open>9 \<cdot> 10\<^sup>17\<close> nanoseconds.)
\<close>

theorem kdb_read_safe:
  assumes read: "kdb_read_func lib from_row connect ask connection period query_fn q ctx = Some (Inr items)"
    and e: "rp_end_time ctx = Inr e" "rp_start_time ctx < e" "raw e < 2 ^ 63"
    and p: "0 < uint (duration_as_nanos period)" "uint (duration_as_nanos period) \<le> 900000000000000000"
  shows "\<exists>ks err. items = map Inr ks @ map Inl err \<and> length err \<le> 1 \<and> sorted (map fst ks) \<and>
    (\<forall>k \<in> set ks. rp_start_time ctx \<le> fst k \<and> fst k < e)"
proof -
  have z: "rp_start_time ctx \<noteq> nano_zero" "\<not> duration_is_zero period"
    using read e(1) by (auto simp: kdb_read_func_def compute_validated_time_slices_def Let_def split: if_splits)
  obtain ss a b where ss: "compute_validated_time_slices ''kdb_read_time_sliced'' (rp_start_time ctx) (Inr e) period = Some (Inr ss)"
    "chain a ss b" using validated_chain[OF z(1) e(2,3) z(2) p] by blast
  let ?sq = "slice_queries query_fn (rp_start_time ctx) e q ss"
  obtain socket where items: "items = chunk_stream lib from_row ask ?sq socket symbol_interner_default"
    using read ss(1) e(1) by (auto simp: kdb_read_func_def Let_def split: sum.splits)
  have "windows_ordered (map snd ?sq)" using chain_windows_ordered[OF ss(2)] by (simp add: slice_queries_windows)
  from chunk_stream_safe[OF this, of lib from_row ask socket symbol_interner_default] items obtain ok ks where
    k: "fails_last ok ks items" "sorted (map fst ks)" "\<forall>k \<in> set ks. \<exists>w \<in> set (map snd ?sq). tw_contains w (fst k)"
    by auto
  have "rp_start_time ctx \<le> fst k \<and> fst k < e" if "k \<in> set ks" for k
    using k(3) that unfolding slice_queries_windows by (auto simp: slice_window_contains)
  moreover obtain err where "items = map Inr ks @ map Inl err" "length err \<le> 1"
    using k(1) that[of "[]"] that[of "[_]"] by (fastforce simp: fails_last_def split: if_splits)
  ultimately show ?thesis using k(2) by blast
qed

text \<open>
  \<open>answered\<close>: the server answers a query, on whatever connection state, by a table whose rows
  convert to \<open>rows\<close>.
\<close>

fun decode_rows :: "('k, 'a) from_kdb_row \<Rightarrow> string list \<Rightarrow> 'k row list \<Rightarrow> symbol_interner \<Rightarrow>
    symbol_interner \<times> (kdb_error + (nanotime \<times> 'a) list)" where
  "decode_rows from_row columns [] i = (i, Inr [])"
| "decode_rows from_row columns (r # rs) i = (case from_row r columns i of
       (i', Inl e) \<Rightarrow> (i', Inl e)
     | (i', Inr x) \<Rightarrow> (case decode_rows from_row columns rs i' of
           (i'', Inl e) \<Rightarrow> (i'', Inl e)
         | (i'', Inr xs) \<Rightarrow> (i'', Inr (x # xs))))"

definition answered :: "'k kdb_lib \<Rightarrow> ('k, 'a) from_kdb_row \<Rightarrow> ('s \<Rightarrow> bytes \<Rightarrow> 's \<times> (kdb_error + 'k)) \<Rightarrow> bytes \<Rightarrow>
    (nanotime \<times> 'a) list \<Rightarrow> bool" where
  "answered lib from_row ask query rows \<longleftrightarrow> (\<forall>sock. \<exists>sock' k columns rs.
     ask sock query = (sock', Inr k) \<and> column_names lib k = Inr columns \<and> table_rows lib k = Inr rs \<and>
     (\<forall>i. \<exists>i'. decode_rows from_row columns (row_iter_collect (rows_iter rs)) i = (i', Inr rows)))"

lemma chunk_rows_decoded:
  assumes "decode_rows from_row columns rs i = (i', Inr rows)" "sorted (map fst rows)"
    "\<forall>p. prev = Some p \<longrightarrow> (\<forall>r \<in> set rows. p \<le> fst r)"
  shows "chunk_rows lib from_row columns rs prev f i = (map Inr (filter (\<lambda>r. tw_contains (wf_window f) (fst r)) rows), i', True)"
  using assms
proof (induction rs arbitrary: rows prev f i)
  case (Cons r rs)
  obtain i1 x rows' where x: "from_row r columns i = (i1, Inr x)" "decode_rows from_row columns rs i1 = (i', Inr rows')" "rows = x # rows'"
    using Cons.prems(1) by (auto split: prod.splits sum.splits)
  obtain t v where tv: "x = (t, v)" by (cases x)
  have srt: "sorted (map fst rows')" "\<forall>r \<in> set rows'. t \<le> fst r" using Cons.prems(2) x(3) tv by auto
  note IH = Cons.IH[OF x(2) srt(1)]
  show ?case
  proof (cases "tw_contains (wf_window f) t")
    case True
    have "\<not> (case prev of Some p \<Rightarrow> t < p | None \<Rightarrow> False)" using Cons.prems(3) x(3) tv by (auto split: option.splits)
    with IH[of "Some t" f] True srt(2) x tv show ?thesis by (simp add: window_filter_keep_def)
  next
    case False
    with IH[of prev "f\<lparr>wf_dropped := wf_dropped f + 1\<rparr>"] Cons.prems(3) x tv show ?thesis by (simp add: window_filter_keep_def)
  qed
qed simp

lemma chunk_stream_rows:
  assumes "\<forall>s \<in> set slices. answered lib from_row ask (fst s) (rows_of (fst s)) \<and> sorted (map fst (rows_of (fst s)))"
  shows "chunk_stream lib from_row ask slices sock i =
    map Inr (concat (map (\<lambda>s. filter (\<lambda>r. tw_contains (snd s) (fst r)) (rows_of (fst s))) slices))"
  using assms
proof (induction slices arbitrary: sock i)
  case (Cons s slices)
  obtain query w where s: "s = (query, w)" by (cases s)
  have R: "answered lib from_row ask query (rows_of query)" "sorted (map fst (rows_of query))" using Cons.prems s by auto
  obtain sock' k columns rs i' where k: "ask sock query = (sock', Inr k)" "column_names lib k = Inr columns" "table_rows lib k = Inr rs"
    "decode_rows from_row columns (row_iter_collect (rows_iter rs)) i = (i', Inr (rows_of query))" using R(1) unfolding answered_def by metis
  from chunk_rows_decoded[OF k(4) R(2), of None lib "window_filter_new ''kdb_read'' w"] k(1-3) Cons s
  show ?case by (simp add: window_filter_new_def)
qed simp

lemma answered_unique:
  assumes "answered lib from_row ask query R" "answered lib from_row ask query R'"
  shows "R = R'"
  using assms unfolding answered_def by (metis prod.inject sum.inject(2))

lemma chunk_stream_answered:
  assumes "\<forall>s \<in> set slices. \<exists>R. answered lib from_row ask (fst s) R \<and> sorted (map fst R) \<and>
      filter (\<lambda>r. tw_contains (snd s) (fst r)) R = filter (\<lambda>r. tw_contains (snd s) (fst r)) T"
  shows "chunk_stream lib from_row ask slices sock i =
    map Inr (concat (map (\<lambda>s. filter (\<lambda>r. tw_contains (snd s) (fst r)) T) slices))"
proof -
  define rows_of where "rows_of q = (THE R. answered lib from_row ask q R)" for q
  have "rows_of q = R" if "answered lib from_row ask q R" for q R
    using that answered_unique[of lib from_row ask q] by (auto simp: rows_of_def)
  then have "\<forall>s \<in> set slices. answered lib from_row ask (fst s) (rows_of (fst s)) \<and> sorted (map fst (rows_of (fst s))) \<and>
      filter (\<lambda>r. tw_contains (snd s) (fst r)) (rows_of (fst s)) = filter (\<lambda>r. tw_contains (snd s) (fst r)) T"
    using assms by metis
  with chunk_stream_rows[of slices lib from_row ask rows_of sock i] show ?thesis by (simp cong: map_cong)
qed

lemma slice_queries_mem:
  "s \<in> set (slice_queries query_fn start e q slices) \<Longrightarrow>
    \<exists>q' ts date it. fst s = snd (query_fn q' ts date it) \<and> snd s = tw_clamp (fst ts) (snd ts) start e"
proof (induction query_fn start e q slices rule: slice_queries.induct)
  case (2 query_fn start e q t0 t1 date it slices)
  obtain q' query where "query_fn q (t0, t1) date it = (q', query)" by (cases "query_fn q (t0, t1) date it")
  with 2 show ?case
    by (cases "s = (query, tw_clamp t0 t1 start e)")
      (force intro!: exI[of _ q] exI[of _ "(t0, t1)"] exI[of _ date] exI[of _ it], simp)
qed simp

text \<open>What the function of the reader yields when the server holds the rows \<open>T\<close>.\<close>

definition serves :: "'k kdb_lib \<Rightarrow> ('k, 'a) from_kdb_row \<Rightarrow> ('s \<Rightarrow> bytes \<Rightarrow> 's \<times> (kdb_error + 'k)) \<Rightarrow> 'q query_fn \<Rightarrow>
    (nanotime \<times> 'a) list \<Rightarrow> bool" where
  "serves lib from_row ask query_fn T \<longleftrightarrow> sorted (map fst T) \<and>
     (\<forall>q ts date it. \<exists>R. answered lib from_row ask (snd (query_fn q ts date it)) R \<and> sorted (map fst R) \<and>
        filter (\<lambda>r. fst ts \<le> fst r \<and> fst r < snd ts) R = filter (\<lambda>r. fst ts \<le> fst r \<and> fst r < snd ts) T)"

lemma slice_rows:
  assumes "serves lib from_row ask query_fn T" "s \<in> set (slice_queries query_fn start e q ss)"
  shows "\<exists>R. answered lib from_row ask (fst s) R \<and> sorted (map fst R) \<and>
    filter (\<lambda>r. tw_contains (snd s) (fst r)) R = filter (\<lambda>r. tw_contains (snd s) (fst r)) T"
proof -
  obtain q' ts date it where s: "fst s = snd (query_fn q' ts date it)" "snd s = tw_clamp (fst ts) (snd ts) start e"
    using slice_queries_mem[OF assms(2)] by blast
  obtain R where R: "answered lib from_row ask (fst s) R" "sorted (map fst R)"
    "filter (\<lambda>r. fst ts \<le> fst r \<and> fst r < snd ts) R = filter (\<lambda>r. fst ts \<le> fst r \<and> fst r < snd ts) T"
    using assms(1)[unfolded serves_def, THEN conjunct2, THEN spec[of _ q'], THEN spec[of _ ts], THEN spec[of _ date], THEN spec[of _ it]]
      s(1) by auto
  have "filter (\<lambda>r. tw_contains (snd s) (fst r)) R = filter (\<lambda>r. tw_contains (snd s) (fst r)) T"
    unfolding s(2) by (subst (1 2) clamp_filter) (simp only: R(3))
  with R(1,2) show ?thesis by blast
qed

lemma kdb_read_func_served:
  assumes "serves lib from_row ask query_fn T" "rp_end_time ctx = Inr e" "connect connection (credentials_string connection) = Inr socket"
    and "rp_start_time ctx \<noteq> nano_zero" "rp_start_time ctx < e" "raw e < 2 ^ 63"
    and "0 < uint (duration_as_nanos period)" "uint (duration_as_nanos period) \<le> 900000000000000000"
  shows "kdb_read_func lib from_row connect ask connection period query_fn q ctx =
    Some (Inr (map Inr (filter (\<lambda>r. rp_start_time ctx \<le> fst r \<and> fst r < e) T)))"
proof -
  let ?start = "rp_start_time ctx"
  have "\<not> duration_is_zero period" using assms(7) by (auto simp: duration_is_zero_def duration_as_nanos_def)
  then obtain ss a b where ss: "compute_validated_time_slices ''kdb_read_time_sliced'' ?start (Inr e) period = Some (Inr ss)"
    "chain a ss b" "a \<le> kdb ?start" "kdb e \<le> b" using validated_chain[OF assms(4,5,6) _ assms(7,8)] by blast
  let ?sq = "slice_queries query_fn ?start e q ss"
  have srt: "sorted (map fst T)" using assms(1) by (simp add: serves_def)
  have "chunk_stream lib from_row ask ?sq socket symbol_interner_default =
      map Inr (concat (map (\<lambda>s. filter (\<lambda>r. tw_contains (snd s) (fst r)) T) ?sq))"
    using slice_rows[OF assms(1)] by (intro chunk_stream_answered) blast
  also have "concat (map (\<lambda>s. filter (\<lambda>r. tw_contains (snd s) (fst r)) T) ?sq) =
      concat (map (\<lambda>s. filter (\<lambda>r. tw_contains (slice_window ?start e s) (fst r)) T) ss)"
    using arg_cong[OF slice_queries_windows[of query_fn ?start e q ss], of "map (\<lambda>w. filter (\<lambda>r. tw_contains w (fst r)) T)"]
    by (simp add: comp_def)
  also have "\<dots> = filter (\<lambda>r. ?start \<le> fst r \<and> fst r < e) T"
    unfolding chain_filter[OF srt ss(2)] using ss(3,4) by (intro filter_cong) (auto simp: nanotime_le_kdb)
  finally show ?thesis using ss(1) assms(2,3) by (simp add: kdb_read_func_def)
qed

text \<open>
  C17. A bounded historical read is exact from the server to the graph. Let the server hold the rows
  \<open>T\<close> in time order, and answer the query of every slice \<open>[t0, t1)\<close> by rows in time order that agree
  with \<open>T\<close> on that slice (it may send more). Then the node made by \<^verbatim>\<open>kdb_read\<close>, run on its own, emits
  the rows of \<open>T\<close> in the run's window, all of them, in order, grouped by time, each group at its own
  time, and comes to rest, at whatever times the messages of the producer arrive.
\<close>

theorem kdb_read_exact:
  assumes chan: "async_channel kc pending" "pending c = []"
    and gs: "gs_run_mode gs = HistoricalFrom start" "gs_start_time gs = start" "gs_time gs = start" "gs_run_for gs = RunDuration d"
    and e: "start \<noteq> nano_zero" "start < nano_add_duration start d" "raw (nano_add_duration start d) < 2 ^ 63"
    and p: "0 < uint (duration_as_nanos period)" "uint (duration_as_nanos period) \<le> 900000000000000000"
    and server: "connect connection (credentials_string connection) = Inr socket" "serves lib from_row ask query_fn T"
    and func: "kdb_read_func lib from_row connect ask connection period query_fn q (run_params_of gs) = Some (func (run_params_of gs))"
    and set_up: "async_producer_setup gs (async_producer_new c func) = Some (st, cmds, r)" "ap_handle st = Some task"
    and n: "2 * length T + 1 \<le> n"
  shows "\<exists>bs. ungroup bs = filter (\<lambda>r. start \<le> fst r \<and> fst r < nano_add_duration start d) T \<and>
    sorted_wrt (<) (map va_time bs) \<and> (\<forall>b \<in> set bs. va_value b \<noteq> []) \<and>
    drive kc n gs ((ap_receiver_stream st)\<lparr>cr_receiver := producer_task kc notify first_now now task c\<rparr>) = (emissions bs, Quiet)"
proof -
  have ctx: "rp_end_time (run_params_of gs) = Inr (nano_add_duration start d)" "rp_start_time (run_params_of gs) = start"
    using gs by (simp_all add: run_params_of_def rp_end_time_def)
  have "func (run_params_of gs) = Inr (map Inr (filter (\<lambda>r. start \<le> fst r \<and> fst r < nano_add_duration start d) T))"
    using kdb_read_func_served[where connect = connect and connection = connection, OF server(2) ctx(1) server(1), of period q] ctx(2) e p func
    by simp
  then show ?thesis using window_replays[OF chan gs _ _ set_up n] server(2) by (simp add: serves_def)
qed

section \<open>An example\<close>

text \<open>A server that answers every query with the same table of two rows.\<close>

definition sample_lib :: "unit kdb_lib" where
  "sample_lib = \<lparr>k_get_type = (\<lambda>_. TABLE), k_len = (\<lambda>_. 2), k_vec_i64 = (\<lambda>_. Inr []), k_vec_f64 = (\<lambda>_. Inr []),
     k_vec_string = (\<lambda>_. Inr []), k_vec_u8 = (\<lambda>_. Inr []), k_vec_i32 = (\<lambda>_. Inr []), k_vec_i16 = (\<lambda>_. Inr []),
     k_vec_bool = (\<lambda>_. Inr []), k_vec_f32 = (\<lambda>_. Inr []), k_vec_k = (\<lambda>_. Inr [(), ()]), k_get_dictionary = Inr,
     k_get_symbol = (\<lambda>_. Inr []), k_get_long = (\<lambda>_. Inr 0), k_get_float = (\<lambda>_. Inr NaN), k_get_int = (\<lambda>_. Inr 0),
     k_get_bool = (\<lambda>_. Inr False), k_get_real = (\<lambda>_. Inr NaN), k_get_error_string = (\<lambda>_. Inr []), k_new_long = (\<lambda>_. ()),
     k_new_float = (\<lambda>_. ()), k_new_symbol = (\<lambda>_. ()), k_new_byte = (\<lambda>_. ()), k_new_int = (\<lambda>_. ()), k_new_short = (\<lambda>_. ()),
     k_new_bool = (\<lambda>_. ()), k_new_real = (\<lambda>_. ()), k_error_display = (\<lambda>_. [])\<rparr>"

definition sample_rows :: "(nanotime \<times> nat) list" where
  "sample_rows = [(NanoTime 946684800000000006, 0), (NanoTime 946684800000000009, 1)]"

definition sample_from_row :: "(unit, nat) from_kdb_row" where
  "sample_from_row r columns i = (i, Inr (sample_rows ! rw_index r))"

definition sample_ask :: "unit \<Rightarrow> bytes \<Rightarrow> unit \<times> (kdb_error + unit)" where
  "sample_ask s query = ((), Inr ())"

definition sample_query :: "unit query_fn" where
  "sample_query q ts date iteration = ((), ascii ''trades'')"

definition sample_start :: nanotime where
  "sample_start = NanoTime 946684800000000005"

definition one_hour :: duration where
  "one_hour = \<lparr>dur_secs = 3600, dur_subsec_nanos = 0\<rparr>"

lemma sample_answered: "answered sample_lib sample_from_row sample_ask query sample_rows"
proof -
  have tr: "column_names sample_lib () = Inr []" "table_rows sample_lib () = Inr \<lparr>rs_columns = [(), ()], rs_n_rows = 2\<rparr>"
    by (simp_all add: column_names_def table_rows_def sample_lib_def)
  have "row_iter_collect (rows_iter \<lparr>rs_columns = [(), ()], rs_n_rows = 2\<rparr>) =
      [\<lparr>rw_columns = [(), ()], rw_index = 0\<rparr>, \<lparr>rw_columns = [(), ()], rw_index = 1\<rparr>]"
    by (simp add: rows_iter_def row_iter_collect_from upt_rec)
  then have "decode_rows sample_from_row [] (row_iter_collect (rows_iter \<lparr>rs_columns = [(), ()], rs_n_rows = 2\<rparr>)) i =
      (i, Inr sample_rows)" for i by (simp add: sample_from_row_def sample_rows_def)
  with tr show ?thesis
    unfolding answered_def by (intro allI exI[of _ "()"] exI[of _ "[]"] exI[of _ "\<lparr>rs_columns = [(), ()], rs_n_rows = 2\<rparr>"])
      (simp add: sample_ask_def)
qed

lemma sample_serves: "serves sample_lib sample_from_row sample_ask sample_query sample_rows"
proof -
  have "sorted (map fst sample_rows)" by (simp add: sample_rows_def)
  with sample_answered show ?thesis unfolding serves_def by blast
qed

lemma sample_bounds:
  "sample_start \<noteq> nano_zero" "sample_start < nano_add_duration sample_start one_hour"
  "raw (nano_add_duration sample_start one_hour) < 2 ^ 63"
  "0 < uint (duration_as_nanos one_hour)" "uint (duration_as_nanos one_hour) \<le> 900000000000000000"
  by (simp_all add: sample_start_def one_hour_def nano_zero_def nano_add_duration_def duration_as_nanos_def)

definition sample_gs :: graph_state where
  "sample_gs = (graph_state_new 0 (HistoricalFrom sample_start) (RunDuration one_hour) sample_start)\<lparr>gs_time := sample_start\<rparr>"

lemma sample_gs_simps:
  "gs_run_mode sample_gs = HistoricalFrom sample_start" "gs_start_time sample_gs = sample_start"
  "gs_time sample_gs = sample_start" "gs_run_for sample_gs = RunDuration one_hour"
  by (simp_all add: sample_gs_def graph_state_new_def)

lemma sample_read:
  "\<exists>items. kdb_read_func sample_lib sample_from_row (\<lambda>_ _. Inr ()) sample_ask (kdb_connection_new ''localhost'' 5000) one_hour
     sample_query () (run_params_of sample_gs) = Some (Inr items)"
proof -
  let ?ctx = "run_params_of sample_gs" and ?e = "nano_add_duration sample_start one_hour"
  have "rp_end_time ?ctx = Inr ?e" "rp_start_time ?ctx = sample_start"
    by (simp_all add: run_params_of_def rp_end_time_def sample_gs_simps)
  from kdb_read_func_served[where connect = "\<lambda>_ _. Inr ()" and connection = "kdb_connection_new ''localhost'' 5000" and socket = "()",
      OF sample_serves this(1) refl _ _ sample_bounds(3-5)] sample_bounds this(2) show ?thesis by auto
qed

theorem kdb_read_safe_witness:
  "\<exists>items ks err. kdb_read_func sample_lib sample_from_row (\<lambda>_ _. Inr ()) sample_ask (kdb_connection_new ''localhost'' 5000) one_hour
     sample_query () (run_params_of sample_gs) = Some (Inr items) \<and> items = map Inr ks @ map Inl err \<and> sorted (map fst ks)"
proof -
  obtain items where i: "kdb_read_func sample_lib sample_from_row (\<lambda>_ _. Inr ()) sample_ask (kdb_connection_new ''localhost'' 5000) one_hour
     sample_query () (run_params_of sample_gs) = Some (Inr items)" using sample_read by blast
  have "rp_end_time (run_params_of sample_gs) = Inr (nano_add_duration sample_start one_hour)" "rp_start_time (run_params_of sample_gs) = sample_start"
    by (simp_all add: run_params_of_def rp_end_time_def sample_gs_simps)
  with kdb_read_safe[OF i, of "nano_add_duration sample_start one_hour"] sample_bounds i show ?thesis by auto
qed

theorem kdb_read_exact_witness:
  "\<exists>func st cmds task bs. async_producer_setup sample_gs (async_producer_new \<lparr>sq_messages = [], sq_arrivals = [False]\<rparr> func) =
       Some (st, cmds, Inr ()) \<and> ap_handle st = Some task \<and>
     ungroup bs = sample_rows \<and>
     drive scheduled_queue 5 sample_gs ((ap_receiver_stream st)\<lparr>cr_receiver :=
         producer_task scheduled_queue (\<lambda>_. Inr ()) nano_zero (\<lambda>_. nano_zero) task \<lparr>sq_messages = [], sq_arrivals = [False]\<rparr>\<rparr>) =
       (emissions bs, Quiet)"
proof -
  let ?c = "\<lparr>sq_messages = [], sq_arrivals = [False]\<rparr> :: nat scheduled_queue" and ?con = "\<lambda>_ _. Inr () :: kdb_error + unit"
  define func :: "nat producer_func" where "func = (\<lambda>ctx. the (kdb_read_func sample_lib sample_from_row ?con sample_ask
    (kdb_connection_new ''localhost'' 5000) one_hour sample_query () ctx))"
  have f: "kdb_read_func sample_lib sample_from_row ?con sample_ask (kdb_connection_new ''localhost'' 5000) one_hour sample_query ()
      (run_params_of sample_gs) = Some (func (run_params_of sample_gs))" using sample_read by (auto simp: func_def)
  obtain st cmds task where su: "async_producer_setup sample_gs (async_producer_new ?c func) = Some (st, cmds, Inr ())"
    "ap_handle st = Some task" using async_producer_setup_historical[OF sample_gs_simps(1), of ?c func] by auto
  have "2 * length sample_rows + 1 \<le> 5" by (simp add: sample_rows_def)
  from kdb_read_exact[where connect = ?con, OF sched_async.async_channel_axioms _ sample_gs_simps sample_bounds refl sample_serves f su this,
      of "\<lambda>_. Inr ()" nano_zero "\<lambda>_. nano_zero"]
  obtain bs where "ungroup bs = filter (\<lambda>r. sample_start \<le> fst r \<and> fst r < nano_add_duration sample_start one_hour) sample_rows"
    "drive scheduled_queue 5 sample_gs ((ap_receiver_stream st)\<lparr>cr_receiver :=
         producer_task scheduled_queue (\<lambda>_. Inr ()) nano_zero (\<lambda>_. nano_zero) task ?c\<rparr>) = (emissions bs, Quiet)" by auto
  moreover have "filter (\<lambda>r. sample_start \<le> fst r \<and> fst r < nano_add_duration sample_start one_hour) sample_rows = sample_rows"
    by (simp add: sample_rows_def sample_start_def one_hour_def nano_add_duration_def duration_as_nanos_def)
  ultimately have "ungroup bs = sample_rows \<and> drive scheduled_queue 5 sample_gs ((ap_receiver_stream st)\<lparr>cr_receiver :=
         producer_task scheduled_queue (\<lambda>_. Inr ()) nano_zero (\<lambda>_. nano_zero) task ?c\<rparr>) = (emissions bs, Quiet)" by simp
  with su show ?thesis by blast
qed

end
