(* ===== verification/File_Cache.thy ===== *)
theory File_Cache
  imports Rust_Strings Nano_Time
begin

text \<open>
  The file cache of query results: \<^verbatim>\<open>adapters/cache/mod.rs\<close> and \<^verbatim>\<open>adapters/cache/file_cache.rs\<close>. The
  cache folder is the list of its files in the order in which the system lists them, each with
  contents and modification time; a counter stands for the system clock. Every call of the file
  system can fail: \<open>faults\<close> gives the error of a call and, for a write, how many bytes were written
  before it. The digest (\<^verbatim>\<open>sha2\<close>) and the serialisation of rows (\<^verbatim>\<open>bincode\<close>) are parameters. Logging
  is left out.
\<close>

section \<open>Keys and paths\<close>

type_synonym cache_key = bytes

text \<open>\<open>sha_hex\<close> is the digest as 64 hexadecimal digits.\<close>

definition key_from_parts :: "(bytes \<Rightarrow> bytes) \<Rightarrow> bytes list \<Rightarrow> cache_key" where
  "key_from_parts sha_hex parts = take 16 (sha_hex (concat (map (\<lambda>p. p @ [0]) parts)))"

record cache_config =
  cc_max_size_bytes :: u64

definition cache_config_new :: "u64 \<Rightarrow> cache_config" where
  "cache_config_new max_size_bytes = \<lparr>cc_max_size_bytes = max_size_bytes\<rparr>"

text \<open>File names within the folder. \<open>extension\<close> and \<open>with_extension\<close> are those of \<^verbatim>\<open>Path\<close>.\<close>

definition dot :: u8 where "dot = 46"

definition last_dot :: "bytes \<Rightarrow> nat option" where
  "last_dot name = (case position (\<lambda>b. b = dot) (rev name) of
     None \<Rightarrow> None
   | Some k \<Rightarrow> (if length name - 1 - k = 0 then None else Some (length name - 1 - k)))"

definition extension :: "bytes \<Rightarrow> bytes option" where
  "extension name = map_option (\<lambda>k. drop (k + 1) name) (last_dot name)"

definition with_extension :: "bytes \<Rightarrow> bytes \<Rightarrow> bytes" where
  "with_extension name ext = (case last_dot name of None \<Rightarrow> name | Some k \<Rightarrow> take k name) @ [dot] @ ext"

definition is_cache_file :: "bytes \<Rightarrow> bool" where
  "is_cache_file name \<longleftrightarrow> extension name = Some (ascii ''cache'')"

definition cache_path :: "cache_key \<Rightarrow> bytes" where
  "cache_path key = key @ ascii ''.cache''"

section \<open>The folder\<close>

record cfile =
  f_bytes :: bytes
  f_mtime :: nat

record folder =
  d_files :: "(bytes \<times> cfile) list"
  d_clock :: nat

datatype io_call = IoRead bytes | IoWrite bytes | IoRename bytes | IoRemove bytes | IoReadDir | IoMeta bytes

type_synonym faults = "io_call \<Rightarrow> (anyhow \<times> nat) option"

definition no_faults :: faults where
  "no_faults _ = None"

fun put_file :: "bytes \<Rightarrow> cfile \<Rightarrow> (bytes \<times> cfile) list \<Rightarrow> (bytes \<times> cfile) list" where
  "put_file name f [] = [(name, f)]"
| "put_file name f ((n, g) # fs) = (if n = name then (n, f) # fs else (n, g) # put_file name f fs)"

definition fs_lookup :: "bytes \<Rightarrow> folder \<Rightarrow> cfile option" where
  "fs_lookup name d = map_of (d_files d) name"

text \<open>\<^verbatim>\<open>tokio::fs::write\<close>: truncates, writes and sets the modification time.\<close>

definition fs_write :: "faults \<Rightarrow> bytes \<Rightarrow> bytes \<Rightarrow> folder \<Rightarrow> folder \<times> (anyhow + unit)" where
  "fs_write faults name bytes d = (let
     write = (\<lambda>bs. d\<lparr>d_files := put_file name \<lparr>f_bytes = bs, f_mtime = d_clock d\<rparr> (d_files d), d_clock := d_clock d + 1\<rparr>) in
     case faults (IoWrite name) of
       None \<Rightarrow> (write bytes, Inr ())
     | Some (e, n) \<Rightarrow> (write (take n bytes), Inl e))"

definition fs_remove :: "faults \<Rightarrow> bytes \<Rightarrow> folder \<Rightarrow> folder \<times> (anyhow + unit)" where
  "fs_remove faults name d = (case faults (IoRemove name) of
     Some (e, _) \<Rightarrow> (d, Inl e)
   | None \<Rightarrow> (d\<lparr>d_files := filter (\<lambda>p. fst p \<noteq> name) (d_files d)\<rparr>, Inr ()))"

text \<open>\<^verbatim>\<open>tokio::fs::rename\<close>: atomic, replaces the target and keeps the modification time.\<close>

definition fs_rename :: "faults \<Rightarrow> bytes \<Rightarrow> bytes \<Rightarrow> folder \<Rightarrow> folder \<times> (anyhow + unit)" where
  "fs_rename faults from to d = (case faults (IoRename from) of
     Some (e, _) \<Rightarrow> (d, Inl e)
   | None \<Rightarrow> (case fs_lookup from d of
       None \<Rightarrow> (d, Inl (Anyhow ''No such file or directory''))
     | Some f \<Rightarrow> (d\<lparr>d_files := put_file to f (filter (\<lambda>p. fst p \<noteq> from) (d_files d))\<rparr>, Inr ())))"

section \<open>Clearing\<close>

text \<open>The removals that failed, with their errors.\<close>

fun clear_files :: "faults \<Rightarrow> bytes list \<Rightarrow> folder \<Rightarrow> folder \<times> (bytes \<times> anyhow) list" where
  "clear_files faults [] d = (d, [])"
| "clear_files faults (name # names) d =
     (if is_cache_file name
      then case fs_remove faults name d of
          (d1, Inl e) \<Rightarrow> (case clear_files faults names d1 of (d2, es) \<Rightarrow> (d2, (name, e) # es))
        | (d1, Inr _) \<Rightarrow> clear_files faults names d1
      else clear_files faults names d)"

text \<open>A folder that does not exist is \<open>None\<close>; the error carries the failed removals.\<close>

definition cache_clear :: "faults \<Rightarrow> folder option \<Rightarrow> folder option \<times> ((anyhow + (bytes \<times> anyhow) list) + unit)" where
  "cache_clear faults dir = (case dir of
     None \<Rightarrow> (None, Inr ())
   | Some d \<Rightarrow> (case faults IoReadDir of
       Some (e, _) \<Rightarrow> (Some d, Inl (Inl e))
     | None \<Rightarrow> (case clear_files faults (map fst (d_files d)) d of
         (d1, errors) \<Rightarrow> (Some d1, if errors = [] then Inr () else Inl (Inr errors)))))"

section \<open>Lookup\<close>

type_synonym 'a deserialize = "bytes \<Rightarrow> anyhow + (u64 \<times> 'a) list"
type_synonym 'a serialize = "(u64 \<times> 'a) list \<Rightarrow> anyhow + bytes"

definition cache_get ::
  "faults \<Rightarrow> 'a deserialize \<Rightarrow> cache_key \<Rightarrow> folder \<Rightarrow> folder \<times> (anyhow + (nanotime \<times> 'a) list option)" where
  "cache_get faults deserialize key d = (let path = cache_path key in
     case faults (IoRead path) of
       Some (e, _) \<Rightarrow> (d, Inl e)
     | None \<Rightarrow> (case fs_lookup path d of
         None \<Rightarrow> (d, Inr None)
       | Some f \<Rightarrow> (case position (\<lambda>b. b = 10) (f_bytes f) of
           None \<Rightarrow> (d, Inl (Anyhow ''cache file missing header newline''))
         | Some i \<Rightarrow> (case deserialize (drop (i + 1) (f_bytes f)) of
             Inl e \<Rightarrow> (d, Inl e)
           | Inr rows \<Rightarrow> (fst (fs_write faults path (f_bytes f) d),
               Inr (Some (map (\<lambda>(ns, t). (NanoTime ns, t)) rows)))))))"

section \<open>Storing\<close>

definition file_size :: "cfile \<Rightarrow> u64" where
  "file_size f = of_nat (length (f_bytes f))"

text \<open>The files that may go, with size and modification time, and the loop that removes the oldest.\<close>

definition evictable :: "faults \<Rightarrow> bytes \<Rightarrow> folder \<Rightarrow> (bytes \<times> u64 \<times> nat) list" where
  "evictable faults exclude d =
     map (\<lambda>(name, f). (name, file_size f, f_mtime f))
       (filter (\<lambda>(name, f). is_cache_file name \<and> name \<noteq> exclude \<and> faults (IoMeta name) = None) (d_files d))"

fun evict_loop :: "faults \<Rightarrow> u64 \<Rightarrow> u64 \<Rightarrow> (bytes \<times> u64 \<times> nat) list \<Rightarrow> folder \<Rightarrow> folder" where
  "evict_loop faults needed freed [] d = d"
| "evict_loop faults needed freed ((name, sz, mtime) # files) d =
     (if needed \<le> freed then d
      else case fs_remove faults name d of
          (d1, Inr _) \<Rightarrow> evict_loop faults needed (freed + sz) files d1
        | (d1, Inl _) \<Rightarrow> evict_loop faults needed freed files d1)"

definition evict_lru :: "faults \<Rightarrow> cache_config \<Rightarrow> u64 \<Rightarrow> bytes \<Rightarrow> folder \<Rightarrow> folder" where
  "evict_lru faults config new_size exclude d =
     (if faults IoReadDir \<noteq> None then d
      else let files = sort_key (\<lambda>(_, _, mtime). mtime) (evictable faults exclude d);
               total_existing = sum_list (map (\<lambda>(_, sz, _). sz) files);
               needed = saturating_sub (total_existing + new_size) (cc_max_size_bytes config)
           in if needed = 0 then d else evict_loop faults needed 0 files d)"

definition cache_put ::
  "faults \<Rightarrow> 'a serialize \<Rightarrow> cache_config \<Rightarrow> cache_key \<Rightarrow> bytes \<Rightarrow> (nanotime \<times> 'a) list \<Rightarrow> folder \<Rightarrow>
   folder \<times> (anyhow + unit)" where
  "cache_put faults serialize config key query data d = (let
     path = cache_path key;
     tmp = with_extension path (ascii ''tmp'') in
     case serialize (map (\<lambda>(t, v). (raw t, v)) data) of
       Inl e \<Rightarrow> (d, Inl e)
     | Inr payload \<Rightarrow> (let buf = query @ [10] @ payload in
         case fs_write faults tmp buf d of
           (d1, Inl e) \<Rightarrow> (d1, Inl e)
         | (d1, Inr _) \<Rightarrow> (let
             d2 = (if cc_max_size_bytes config < - 1 then evict_lru faults config (of_nat (length buf)) path d1 else d1)
             in fs_rename faults tmp path d2)))"

section \<open>Lemmas on folders\<close>

definition wf_folder :: "folder \<Rightarrow> bool" where
  "wf_folder d \<longleftrightarrow> distinct (map fst (d_files d))"

definition key_ok :: "cache_key \<Rightarrow> bool" where
  "key_ok key \<longleftrightarrow> key \<noteq> [] \<and> dot \<notin> set key"

lemma no_faults_ops:
  "fs_remove no_faults name d = (d\<lparr>d_files := filter (\<lambda>p. fst p \<noteq> name) (d_files d)\<rparr>, Inr ())"
  "fs_write no_faults name bs d =
     (d\<lparr>d_files := put_file name \<lparr>f_bytes = bs, f_mtime = d_clock d\<rparr> (d_files d), d_clock := d_clock d + 1\<rparr>, Inr ())"
  "fs_rename no_faults from to d = (case fs_lookup from d of
       None \<Rightarrow> (d, Inl (Anyhow ''No such file or directory''))
     | Some f \<Rightarrow> (d\<lparr>d_files := put_file to f (filter (\<lambda>p. fst p \<noteq> from) (d_files d))\<rparr>, Inr ()))"
  by (simp_all add: no_faults_def fs_remove_def fs_write_def fs_rename_def Let_def)

lemma put_file_map_of: "map_of (put_file name f fs) = (map_of fs)(name \<mapsto> f)"
  by (induction name f fs rule: put_file.induct) (auto simp: fun_eq_iff)

lemma put_file_names: "set (map fst (put_file name f fs)) = insert name (set (map fst fs))"
  by (induction name f fs rule: put_file.induct) auto

lemma put_file_distinct: "distinct (map fst fs) \<Longrightarrow> distinct (map fst (put_file name f fs))"
  using put_file_names by (induction name f fs rule: put_file.induct) fastforce+

lemma map_of_filter_names: "map_of (filter (\<lambda>p. P (fst p)) fs) n = (if P n then map_of fs n else None)"
  by (induction fs) auto

lemma last_dot_key:
  assumes "key_ok key" "dot \<notin> set ext"
  shows "last_dot (key @ [dot] @ ext) = Some (length key)"
proof -
  have "position (\<lambda>b. b = dot) (rev ext @ dot # rev key) = Some (length (rev ext))"
    by (rule position_first) (use assms(2) in auto)
  then show ?thesis using assms(1) by (simp add: last_dot_def key_ok_def)
qed

lemma ascii_cache: "ascii ''.cache'' = [dot] @ ascii ''cache''" "dot \<notin> set (ascii ''cache'')" "dot \<notin> set (ascii ''tmp'')"
  "ascii ''cache'' \<noteq> ascii ''tmp''"
  by (simp_all add: ascii_def dot_def)

lemma cache_path_props:
  assumes "key_ok key"
  shows "is_cache_file (cache_path key)" "with_extension (cache_path key) (ascii ''tmp'') = key @ [dot] @ ascii ''tmp''"
    "\<not> is_cache_file (key @ [dot] @ ascii ''tmp'')" "key @ [dot] @ ascii ''tmp'' \<noteq> cache_path key"
  using last_dot_key[OF assms ascii_cache(2)] last_dot_key[OF assms ascii_cache(3)] ascii_cache
  by (auto simp: is_cache_file_def extension_def cache_path_def with_extension_def)

section \<open>Eviction\<close>

text \<open>Without faults the loop removes the first files of its list, as many as it takes.\<close>

lemma evict_loop_prefix:
  assumes "unat freed + sum_list (map (\<lambda>(_, sz, _). unat sz) files) < 2 ^ 64"
  shows "\<exists>k \<le> length files.
    evict_loop no_faults needed freed files d =
      d\<lparr>d_files := filter (\<lambda>p. fst p \<notin> fst ` set (take k files)) (d_files d)\<rparr> \<and>
    (k = length files \<or> unat needed \<le> unat freed + sum_list (map (\<lambda>(_, sz, _). unat sz) (take k files)))"
  using assms
proof (induction files arbitrary: freed d)
  case Nil
  then show ?case by simp
next
  case (Cons x files)
  obtain name sz mtime where x: "x = (name, sz, mtime)" by (cases x)
  show ?case
  proof (cases "needed \<le> freed")
    case True
    then show ?thesis by (intro exI[of _ 0]) (simp add: x word_le_nat_alt)
  next
    case False
    have u: "unat (freed + sz) = unat freed + unat sz"
      using Cons.prems by (simp add: x unat_word_ariths)
    let ?d = "d\<lparr>d_files := filter (\<lambda>p. fst p \<noteq> name) (d_files d)\<rparr>"
    from Cons.IH[of "freed + sz" ?d] Cons.prems obtain k where k: "k \<le> length files"
      "evict_loop no_faults needed (freed + sz) files ?d =
        ?d\<lparr>d_files := filter (\<lambda>p. fst p \<notin> fst ` set (take k files)) (d_files ?d)\<rparr>"
      "k = length files \<or> unat needed \<le> unat freed + unat sz + sum_list (map (\<lambda>(_, sz, _). unat sz) (take k files))"
      by (auto simp: x u add.assoc)
    moreover have "filter (\<lambda>p. fst p \<notin> fst ` set (take k files)) (filter (\<lambda>p. fst p \<noteq> name) (d_files d)) =
        filter (\<lambda>p. fst p \<notin> fst ` set (take (Suc k) (x # files))) (d_files d)"
      by (auto simp: x intro!: filter_cong)
    ultimately show ?thesis
      using False by (intro exI[of _ "Suc k"]) (auto simp: x no_faults_ops add.assoc)
  qed
qed

definition cache_files :: "bytes \<Rightarrow> folder \<Rightarrow> (bytes \<times> cfile) list" where
  "cache_files exclude d = filter (\<lambda>p. is_cache_file (fst p) \<and> fst p \<noteq> exclude) (d_files d)"

definition total_bytes :: "(bytes \<times> cfile) list \<Rightarrow> nat" where
  "total_bytes fs = sum_list (map (\<lambda>p. length (f_bytes (snd p))) fs)"

text \<open>All cache files of the folder.\<close>

definition cache_total :: "folder \<Rightarrow> nat" where
  "cache_total d = total_bytes (filter (\<lambda>p. is_cache_file (fst p)) (d_files d))"

lemma filter_not_taken:
  assumes "distinct (map fst xs)"
  shows "filter (\<lambda>x. fst x \<notin> fst ` set (take k xs)) xs = drop k xs"
  using assms
proof (induction xs arbitrary: k)
  case (Cons x xs)
  show ?case
  proof (cases k)
    case (Suc j)
    have other: "fst y \<noteq> fst x" if "y \<in> set xs" for y
    proof -
      have "fst y \<in> set (map fst xs)" "fst x \<notin> set (map fst xs)" using that Cons.prems by simp_all
      then show ?thesis by metis
    qed
    have "filter (\<lambda>y. fst y \<notin> fst ` set (take j xs)) xs = filter (\<lambda>y. fst y \<notin> insert (fst x) (fst ` set (take j xs))) xs"
      using other by (intro filter_cong) auto
    with Cons Suc show ?thesis by simp
  qed simp
qed simp

definition file_info :: "bytes \<times> cfile \<Rightarrow> bytes \<times> u64 \<times> nat" where
  "file_info p = (fst p, file_size (snd p), f_mtime (snd p))"

lemma evictable_no_faults: "evictable no_faults exclude d = map file_info (cache_files exclude d)"
  by (simp add: evictable_def cache_files_def no_faults_def case_prod_unfold file_info_def)

lemma total_bytes_info:
  assumes "total_bytes fs < 2 ^ 64"
  shows "sum_list (map (\<lambda>(_, sz, _). unat sz) (map file_info fs)) = total_bytes fs"
  using assms by (induction fs) (auto simp: total_bytes_def file_info_def file_size_def unat_of_nat)

lemma unat_sum_info:
  "sum_list (map (\<lambda>(_, sz, _). unat sz) fs) < 2 ^ 64 \<Longrightarrow>
   unat (sum_list (map (\<lambda>(_, sz, _). sz) fs) :: u64) = sum_list (map (\<lambda>(_, sz, _). unat sz) fs)"
  by (induction fs) (auto simp: unat_word_ariths)

lemma sum_list_mset_cong: "mset xs = mset ys \<Longrightarrow> sum_list (map f xs) = sum_list (map f ys)" for f :: "'b \<Rightarrow> nat"
  by (metis mset_map sum_mset_sum_list)

lemma sum_list_take_drop: "sum_list (map f (take k xs)) + sum_list (map f (drop k xs)) = sum_list (map f xs)" for f :: "'b \<Rightarrow> nat"
  by (simp flip: sum_list_append map_append)

lemma total_bytes_filter_le: "total_bytes (filter P fs) \<le> total_bytes fs"
  by (induction fs) (auto simp: total_bytes_def)

lemma evict_lru_spec:
  assumes wf: "wf_folder d" and small: "total_bytes (cache_files exclude d) + unat new < 2 ^ 64"
  shows "\<exists>gone. evict_lru no_faults config new exclude d = d\<lparr>d_files := filter (\<lambda>p. fst p \<notin> gone) (d_files d)\<rparr> \<and>
    gone \<subseteq> fst ` set (cache_files exclude d) \<and>
    (unat new \<le> unat (cc_max_size_bytes config) \<longrightarrow>
      total_bytes (filter (\<lambda>p. fst p \<notin> gone) (cache_files exclude d)) + unat new \<le> unat (cc_max_size_bytes config)) \<and>
    (\<forall>p \<in> set (cache_files exclude d). \<forall>q \<in> set (cache_files exclude d).
      fst p \<in> gone \<and> fst q \<notin> gone \<longrightarrow> f_mtime (snd p) \<le> f_mtime (snd q))"
proof -
  let ?C = "cache_files exclude d" and ?max = "cc_max_size_bytes config"
  let ?sz = "\<lambda>(_ :: bytes, sz :: u64, _ :: nat). unat sz"
  let ?mt = "\<lambda>(_ :: bytes, _ :: u64, mtime :: nat). mtime"
  define L where "L = sort_key (\<lambda>(_, _, mtime). mtime) (evictable no_faults exclude d)"
  have mL: "mset L = mset (map file_info ?C)" by (simp add: L_def evictable_no_faults)
  then have sL: "set L = file_info ` set ?C" by (metis set_map set_mset_mset)
  have sumL: "sum_list (map ?sz L) = total_bytes ?C"
    using sum_list_mset_cong[OF mL, of ?sz] total_bytes_info[of ?C] small by simp
  have dC: "distinct (map fst ?C)" using wf by (simp add: wf_folder_def cache_files_def distinct_map_filter)
  have "mset (map fst L) = mset (map fst (map file_info ?C))" using mL by (metis mset_map)
  then have "mset (map fst L) = mset (map fst ?C)" by (simp add: file_info_def comp_def)
  then have dL: "distinct (map fst L)" using dC by (metis mset_eq_imp_distinct_iff)
  define needed where "needed = saturating_sub (sum_list (map (\<lambda>(_, sz, _). sz) L) + new) ?max"
  have total: "unat (sum_list (map (\<lambda>(_, sz, _). sz) L) + new) = total_bytes ?C + unat new"
    using unat_sum_info[of L] sumL small by (simp add: unat_word_ariths)
  have needed: "unat needed = total_bytes ?C + unat new - unat ?max"
    using total by (simp add: needed_def saturating_sub_def word_le_nat_alt unat_sub)
  have ev: "evict_lru no_faults config new exclude d = (if needed = 0 then d else evict_loop no_faults needed 0 L d)"
    by (simp add: evict_lru_def no_faults_def[of IoReadDir] L_def needed_def Let_def)
  have sorted: "sorted (map (\<lambda>(_, _, mtime). mtime) L)" unfolding L_def by (rule sorted_sort_key)
  show ?thesis
  proof (cases "needed = 0")
    case True
    then have "total_bytes ?C + unat new \<le> unat ?max" using needed by simp
    with True ev show ?thesis by (intro exI[of _ "{}"]) auto
  next
    case False
    from evict_loop_prefix[of 0 L needed d] sumL small obtain k where k: "k \<le> length L"
      "evict_loop no_faults needed 0 L d = d\<lparr>d_files := filter (\<lambda>p. fst p \<notin> fst ` set (take k L)) (d_files d)\<rparr>"
      "k = length L \<or> unat needed \<le> sum_list (map ?sz (take k L))" by auto
    let ?gone = "fst ` set (take k L)"
    have "mset (map file_info (filter (\<lambda>p. fst p \<notin> ?gone) ?C)) = mset (filter (\<lambda>x. fst x \<notin> ?gone) (map file_info ?C))"
      by (simp add: filter_map comp_def file_info_def)
    also have "\<dots> = mset (drop k L)" using mL filter_not_taken[OF dL, of k] by (metis mset_filter)
    finally have "sum_list (map ?sz (map file_info (filter (\<lambda>p. fst p \<notin> ?gone) ?C))) = sum_list (map ?sz (drop k L))"
      by (rule sum_list_mset_cong)
    then have rest: "total_bytes (filter (\<lambda>p. fst p \<notin> ?gone) ?C) = sum_list (map ?sz (drop k L))"
      using total_bytes_info[of "filter (\<lambda>p. fst p \<notin> ?gone) ?C"] total_bytes_filter_le[of "\<lambda>p. fst p \<notin> ?gone" ?C] small by simp
    have "sum_list (map ?sz (take k L)) + sum_list (map ?sz (drop k L)) = total_bytes ?C"
      using sumL sum_list_take_drop[of ?sz k L] by (rule trans[rotated])
    then have bound: "total_bytes (filter (\<lambda>p. fst p \<notin> ?gone) ?C) + unat new \<le> unat ?max" if "unat new \<le> unat ?max"
      using k(3) needed rest that by auto
    have lru: "f_mtime (snd p) \<le> f_mtime (snd q)"
      if pq: "p \<in> set ?C" "q \<in> set ?C" "fst p \<in> ?gone" "fst q \<notin> ?gone" for p q
    proof -
      have inL: "file_info p \<in> set L" "file_info q \<in> set L" using pq sL by auto
      have "file_info p \<in> set (take k L)"
      proof -
        from pq(3) obtain y where y: "y \<in> set (take k L)" "fst y = fst p" by auto
        then have "y \<in> set L" by (auto dest: in_set_takeD)
        moreover have "fst y = fst (file_info p)" using y(2) by (simp add: file_info_def)
        ultimately have "y = file_info p" using dL inL(1) unfolding distinct_map inj_on_def by blast
        with y(1) show ?thesis by simp
      qed
      moreover have "file_info q \<in> set (drop k L)"
      proof -
        have "file_info q \<in> set (take k L) \<union> set (drop k L)" using inL(2) by (metis append_take_drop_id set_append)
        moreover have "file_info q \<notin> set (take k L)"
          using pq(4) imageI[of "file_info q" "set (take k L)" fst] by (auto simp: file_info_def)
        ultimately show ?thesis by blast
      qed
      moreover have "sorted (map ?mt (take k L) @ map ?mt (drop k L))"
        using sorted by (simp flip: map_append)
      then have "\<forall>x \<in> set (take k L). \<forall>y \<in> set (drop k L). ?mt x \<le> ?mt y" by (simp add: sorted_append)
      ultimately have "?mt (file_info p) \<le> ?mt (file_info q)" by blast
      then show ?thesis by (simp add: file_info_def)
    qed
    have "?gone \<subseteq> fst ` set ?C" using sL by (force simp: file_info_def dest: in_set_takeD)
    with False ev k(2) bound lru show ?thesis by (intro exI[of _ ?gone]) auto
  qed
qed

section \<open>What the cache promises\<close>

lemma cache_put_no_faults:
  fixes query :: bytes and d :: folder
  assumes "key_ok key" "serialize (map (\<lambda>(t, v). (raw t, v)) data) = Inr payload"
  defines "tmp \<equiv> key @ [dot] @ ascii ''tmp''" and "buf \<equiv> query @ [10] @ payload"
  defines "d1 \<equiv> d\<lparr>d_files := put_file tmp \<lparr>f_bytes = buf, f_mtime = d_clock d\<rparr> (d_files d), d_clock := d_clock d + 1\<rparr>"
  shows "cache_put no_faults serialize config key query data d =
    fs_rename no_faults tmp (cache_path key) (if cc_max_size_bytes config < - 1
      then evict_lru no_faults config (of_nat (length buf)) (cache_path key) d1 else d1)"
  using assms(2) cache_path_props(2)[OF assms(1)]
  by (simp add: cache_put_def Let_def no_faults_ops(2) d1_def buf_def tmp_def)

lemma cache_put_result:
  fixes query :: bytes and config :: cache_config
  assumes "key_ok key" "serialize (map (\<lambda>(t, v). (raw t, v)) data) = Inr payload" "wf_folder d"
    "total_bytes (cache_files (cache_path key) d) + length (query @ [10] @ payload) < 2 ^ 64"
  defines "lim \<equiv> unat (cc_max_size_bytes config)" and "new \<equiv> length (query @ [10] @ payload)"
  shows "\<exists>d' gone. cache_put no_faults serialize config key query data d = (d', Inr ()) \<and> wf_folder d' \<and>
    fs_lookup (cache_path key) d' = Some \<lparr>f_bytes = query @ [10] @ payload, f_mtime = d_clock d\<rparr> \<and>
    cache_files (cache_path key) d' = filter (\<lambda>p. fst p \<notin> gone) (cache_files (cache_path key) d) \<and>
    (cc_max_size_bytes config < - 1 \<and> new \<le> lim \<longrightarrow> total_bytes (cache_files (cache_path key) d') + new \<le> lim) \<and>
    (\<forall>p \<in> set (cache_files (cache_path key) d). \<forall>q \<in> set (cache_files (cache_path key) d).
      fst p \<in> gone \<and> fst q \<notin> gone \<longrightarrow> f_mtime (snd p) \<le> f_mtime (snd q))"
proof -
  let ?path = "cache_path key" and ?tmp = "key @ [dot] @ ascii ''tmp''" and ?buf = "query @ [10] @ payload"
  let ?f = "\<lparr>f_bytes = ?buf, f_mtime = d_clock d\<rparr>"
  define d1 where "d1 = d\<lparr>d_files := put_file ?tmp ?f (d_files d), d_clock := d_clock d + 1\<rparr>"
  note path = cache_path_props[OF assms(1)]
  have files: "cache_files e (dd\<lparr>d_files := put_file n g fs\<rparr>) = cache_files e (dd\<lparr>d_files := fs\<rparr>)"
    if "\<not> is_cache_file n \<or> n = e" for e n g fs and dd :: folder
    using that by (induction n g fs rule: put_file.induct) (auto simp: cache_files_def)
  have c1: "cache_files ?path d1 = cache_files ?path d"
    using files[where n = ?tmp and e = ?path and dd = "d\<lparr>d_clock := d_clock d + 1\<rparr>" and g = ?f and fs = "d_files d"] path(3)
    by (simp add: d1_def cache_files_def)
  have wf1: "wf_folder d1" using assms(3) by (simp add: wf_folder_def d1_def put_file_distinct)
  have lk1: "fs_lookup ?tmp d1 = Some ?f" by (simp add: fs_lookup_def d1_def put_file_map_of)
  have "new < 2 ^ 64" using assms(4) unfolding new_def by linarith
  then have new: "unat (of_nat new :: u64) = new" by (simp add: unat_of_nat)
  define d2 where "d2 = (if cc_max_size_bytes config < - 1 then evict_lru no_faults config (of_nat new) ?path d1 else d1)"
  obtain gone where g: "d2 = d1\<lparr>d_files := filter (\<lambda>p. fst p \<notin> gone) (d_files d1)\<rparr>"
    "gone \<subseteq> fst ` set (cache_files ?path d1)"
    "cc_max_size_bytes config < - 1 \<and> new \<le> lim \<longrightarrow>
      total_bytes (filter (\<lambda>p. fst p \<notin> gone) (cache_files ?path d1)) + new \<le> lim"
    "\<forall>p \<in> set (cache_files ?path d1). \<forall>q \<in> set (cache_files ?path d1).
      fst p \<in> gone \<and> fst q \<notin> gone \<longrightarrow> f_mtime (snd p) \<le> f_mtime (snd q)"
  proof (cases "cc_max_size_bytes config < - 1")
    case True
    have "total_bytes (cache_files ?path d1) + unat (of_nat new :: u64) < 2 ^ 64"
      using assms(4) c1 new by (simp add: new_def)
    from evict_lru_spec[OF wf1 this, of config, unfolded new] obtain gone where
      gone: "evict_lru no_faults config (of_nat new) ?path d1 = d1\<lparr>d_files := filter (\<lambda>p. fst p \<notin> gone) (d_files d1)\<rparr>"
        "gone \<subseteq> fst ` set (cache_files ?path d1)"
        "new \<le> unat (cc_max_size_bytes config) \<longrightarrow>
          total_bytes (filter (\<lambda>p. fst p \<notin> gone) (cache_files ?path d1)) + new \<le> unat (cc_max_size_bytes config)"
        "\<forall>p \<in> set (cache_files ?path d1). \<forall>q \<in> set (cache_files ?path d1).
          fst p \<in> gone \<and> fst q \<notin> gone \<longrightarrow> f_mtime (snd p) \<le> f_mtime (snd q)" by blast
    show thesis by (rule that[OF _ gone(2) _ gone(4)]) (use gone(1,3) True in \<open>simp_all add: d2_def lim_def\<close>)
  next
    case False
    then show thesis using that[of "{}"] by (simp add: d2_def)
  qed
  have keep: "?tmp \<notin> gone" using g(2) path(3) by (auto simp: cache_files_def)
  have lk2: "fs_lookup ?tmp d2 = Some ?f"
    using lk1 keep map_of_filter_names[of "\<lambda>n. n \<notin> gone" "d_files d1" ?tmp] by (simp add: g(1) fs_lookup_def)
  define d' where "d' = d2\<lparr>d_files := put_file ?path ?f (filter (\<lambda>p. fst p \<noteq> ?tmp) (d_files d2))\<rparr>"
  have "cache_put no_faults serialize config key query data d = fs_rename no_faults ?tmp ?path d2"
    unfolding d2_def d1_def new_def
    by (rule cache_put_no_faults[where serialize = serialize and data = data, OF assms(1,2)])
  with lk2 have put: "cache_put no_faults serialize config key query data d = (d', Inr ())"
    by (simp add: no_faults_ops(3) d'_def)
  have c': "cache_files ?path d' = filter (\<lambda>p. fst p \<notin> gone) (cache_files ?path d)"
  proof -
    have "cache_files ?path d' = cache_files ?path (d2\<lparr>d_files := filter (\<lambda>p. fst p \<noteq> ?tmp) (d_files d2)\<rparr>)"
      unfolding d'_def by (rule files) simp
    also have "\<dots> = filter (\<lambda>p. fst p \<notin> gone) (cache_files ?path d1)"
      using path(3) by (auto simp: cache_files_def g(1) intro!: filter_cong)
    finally show ?thesis by (simp add: c1)
  qed
  have "wf_folder d'"
    using wf1 by (simp add: wf_folder_def d'_def g(1) put_file_distinct distinct_map_filter)
  moreover have "fs_lookup ?path d' = Some ?f" by (simp add: fs_lookup_def d'_def put_file_map_of)
  ultimately show ?thesis
    using put c' g(3,4) c1 by (intro exI[of _ d'] exI[of _ gone]) auto
qed

lemma total_bytes_remove:
  assumes "distinct (map fst fs)" "map_of fs n = Some f" "P n"
  shows "total_bytes (filter (\<lambda>p. P (fst p)) fs) = total_bytes (filter (\<lambda>p. P (fst p) \<and> fst p \<noteq> n) fs) + length (f_bytes f)"
  using assms
proof (induction fs)
  case (Cons p fs)
  show ?case
  proof (cases "fst p = n")
    case True
    then have "filter (\<lambda>p. P (fst p) \<and> fst p \<noteq> n) fs = filter (\<lambda>p. P (fst p)) fs"
      using Cons.prems(1) by (intro filter_cong) (auto simp: rev_image_eqI)
    with True Cons.prems show ?thesis by (simp add: total_bytes_def)
  next
    case False
    with Cons show ?thesis by (cases p) (simp add: total_bytes_def)
  qed
qed simp

lemma cache_get_hit:
  assumes "fs_lookup (cache_path key) d = Some f" "f_bytes f = query @ [10] @ payload" "10 \<notin> set query"
    "deserialize payload = Inr rows"
  shows "snd (cache_get no_faults deserialize key d) = Inr (Some (map (\<lambda>(ns, t). (NanoTime ns, t)) rows))"
proof -
  have "position (\<lambda>b. b = 10) (query @ 10 # payload) = Some (length query)"
    by (rule position_first) (use assms(3) in auto)
  then show ?thesis
    using assms by (simp add: cache_get_def no_faults_def Let_def)
qed

text \<open>
  C39. The cache returns what was stored, and stays within its bound. On a file system without faults,
  for a query of one line, a stored result is found again unchanged; if the new file fits the bound
  and the cache is bounded, then all cache files together fit the bound afterwards, and every
  evicted file was used no later than every file that was kept.
\<close>

theorem cache_put_get:
  assumes "key_ok key" "wf_folder d" "10 \<notin> set query"
    "serialize (map (\<lambda>(t, v). (raw t, v)) data) = Inr payload" "deserialize payload = Inr (map (\<lambda>(t, v). (raw t, v)) data)"
    "cache_total d + length (query @ [10] @ payload) < 2 ^ 64"
    "cc_max_size_bytes config < - 1" "length (query @ [10] @ payload) \<le> unat (cc_max_size_bytes config)"
  shows "\<exists>d' gone. cache_put no_faults serialize config key query data d = (d', Inr ()) \<and>
    snd (cache_get no_faults deserialize key d') = Inr (Some data) \<and>
    cache_total d' \<le> unat (cc_max_size_bytes config) \<and>
    cache_files (cache_path key) d' = filter (\<lambda>p. fst p \<notin> gone) (cache_files (cache_path key) d) \<and>
    (\<forall>p \<in> set (cache_files (cache_path key) d). \<forall>q \<in> set (cache_files (cache_path key) d).
      fst p \<in> gone \<and> fst q \<notin> gone \<longrightarrow> f_mtime (snd p) \<le> f_mtime (snd q))"
proof -
  let ?path = "cache_path key" and ?buf = "query @ [10] @ payload"
  have le: "total_bytes (cache_files ?path d) \<le> cache_total d"
    using total_bytes_filter_le[of "\<lambda>p. fst p \<noteq> ?path" "filter (\<lambda>p. is_cache_file (fst p)) (d_files d)"]
    by (simp add: cache_files_def cache_total_def conj_commute)
  have total: "cache_total e = total_bytes (cache_files ?path e) + length (f_bytes f)"
    if "wf_folder e" "fs_lookup ?path e = Some f" for e f
    using that cache_path_props(1)[OF assms(1)] unfolding wf_folder_def fs_lookup_def cache_total_def cache_files_def
    by (rule total_bytes_remove)
  have "total_bytes (cache_files ?path d) + length ?buf < 2 ^ 64" using le assms(6) by linarith
  from cache_put_result[where serialize = serialize and data = data and query = query and config = config,
      OF assms(1,4,2) this] obtain d' gone where
    d': "cache_put no_faults serialize config key query data d = (d', Inr ())" "wf_folder d'"
      "fs_lookup ?path d' = Some \<lparr>f_bytes = ?buf, f_mtime = d_clock d\<rparr>"
      "cache_files ?path d' = filter (\<lambda>p. fst p \<notin> gone) (cache_files ?path d)"
      "cc_max_size_bytes config < - 1 \<and> length ?buf \<le> unat (cc_max_size_bytes config) \<longrightarrow>
        total_bytes (cache_files ?path d') + length ?buf \<le> unat (cc_max_size_bytes config)"
      "\<forall>p \<in> set (cache_files ?path d). \<forall>q \<in> set (cache_files ?path d).
        fst p \<in> gone \<and> fst q \<notin> gone \<longrightarrow> f_mtime (snd p) \<le> f_mtime (snd q)"
    by blast
  have "snd (cache_get no_faults deserialize key d') = Inr (Some data)"
    using cache_get_hit[where deserialize = deserialize and payload = payload, OF d'(3) _ assms(3,5)]
    by (simp add: comp_def case_prod_unfold)
  moreover have "cache_total d' \<le> unat (cc_max_size_bytes config)"
    using total[OF d'(2,3)] d'(5) assms(7,8) by simp
  ultimately show ?thesis using d'(1,4,6) by blast
qed

text \<open>A row of one byte is serialised as its time (one byte here) and its value.\<close>

definition byte_rows :: "(u64 \<times> u8) list \<Rightarrow> anyhow + bytes" where
  "byte_rows rows = Inr (concat (map (\<lambda>(t, v). [ucast t, v]) rows))"

fun rows_of_bytes :: "bytes \<Rightarrow> anyhow + (u64 \<times> u8) list" where
  "rows_of_bytes (t # v # bs) = (case rows_of_bytes bs of Inl e \<Rightarrow> Inl e | Inr rows \<Rightarrow> Inr ((ucast t, v) # rows))"
| "rows_of_bytes [] = Inr []"
| "rows_of_bytes _ = Inl (Anyhow ''unexpected end of file'')"

definition old_folder :: folder where
  "old_folder = \<lparr>d_files = [(ascii ''ab.cache'', \<lparr>f_bytes = ascii ''q12345'', f_mtime = 3\<rparr>),
     (ascii ''cd.cache'', \<lparr>f_bytes = ascii ''q6789'', f_mtime = 1\<rparr>)], d_clock = 9\<rparr>"

theorem cache_put_get_witness:
  "\<exists>d'. cache_put no_faults byte_rows \<lparr>cc_max_size_bytes = 12\<rparr> (ascii ''ef'') (ascii ''q'') [(NanoTime 5, 7)] old_folder = (d', Inr ()) \<and>
    snd (cache_get no_faults rows_of_bytes (ascii ''ef'') d') = Inr (Some [(NanoTime 5, 7)]) \<and> cache_total d' \<le> 12"
proof -
  have "key_ok (ascii ''ef'')" "wf_folder old_folder" "10 \<notin> set (ascii ''q'')"
    "byte_rows (map (\<lambda>(t, v). (raw t, v)) [(NanoTime 5, 7)]) = Inr [5, 7]"
    "rows_of_bytes [5, 7] = Inr (map (\<lambda>(t, v). (raw t, v)) [(NanoTime 5, 7)])"
    by (simp_all add: key_ok_def ascii_def dot_def wf_folder_def old_folder_def byte_rows_def)
  moreover have "cache_total old_folder \<le> 11"
    by (simp add: cache_total_def total_bytes_def old_folder_def ascii_def)
  ultimately show ?thesis
    using cache_put_get[of "ascii ''ef''" old_folder "ascii ''q''" byte_rows "[(NanoTime 5, 7)]" "[5, 7]" rows_of_bytes
        "\<lparr>cc_max_size_bytes = 12\<rparr>"]
    by (auto simp: ascii_def)
qed

section \<open>Faults\<close>

lemma evict_loop_keeps:
  "name \<notin> fst ` set files \<Longrightarrow> fs_lookup name (evict_loop faults needed freed files d) = fs_lookup name d"
proof (induction faults needed freed files d rule: evict_loop.induct)
  case (2 faults needed freed n sz mtime files d)
  have "fs_lookup name (d\<lparr>d_files := filter (\<lambda>p. fst p \<noteq> n) (d_files d)\<rparr>) = fs_lookup name d"
    using "2.prems" map_of_filter_names[of "\<lambda>m. m \<noteq> n" "d_files d" name] by (auto simp: fs_lookup_def)
  with 2 show ?case by (auto simp: fs_remove_def split: option.split)
qed simp

lemma evict_lru_keeps:
  assumes "name = exclude \<or> \<not> is_cache_file name"
  shows "fs_lookup name (evict_lru faults config new exclude d) = fs_lookup name d"
proof -
  have "name \<notin> fst ` set (sort_key (\<lambda>(_, _, mtime). mtime) (evictable faults exclude d))"
    using assms by (auto simp: evictable_def)
  then show ?thesis by (auto simp: evict_lru_def Let_def evict_loop_keeps)
qed

lemma put_atomic:
  assumes "key_ok key" "cache_put faults serialize config key query data d = (d', r)"
  shows "(case r of
      Inl _ \<Rightarrow> fs_lookup (cache_path key) d' = fs_lookup (cache_path key) d
    | Inr _ \<Rightarrow> \<exists>payload. serialize (map (\<lambda>(t, v). (raw t, v)) data) = Inr payload \<and>
        fs_lookup (cache_path key) d' = Some \<lparr>f_bytes = query @ [10] @ payload, f_mtime = d_clock d\<rparr>)"
proof -
  let ?path = "cache_path key" and ?tmp = "key @ [dot] @ ascii ''tmp''"
  note path = cache_path_props[OF assms(1)]
  show ?thesis
  proof (cases "serialize (map (\<lambda>(t, v). (raw t, v)) data)")
    case (Inl e)
    with assms(2) show ?thesis by (auto simp: cache_put_def Let_def)
  next
    case (Inr payload)
    obtain d1 w where d1: "fs_write faults ?tmp (query @ [10] @ payload) d = (d1, w)" by (cases "fs_write faults ?tmp (query @ [10] @ payload) d")
    have same: "fs_lookup ?path d1 = fs_lookup ?path d"
      using d1 path(4) by (auto simp: fs_write_def Let_def fs_lookup_def put_file_map_of split: option.splits)
    show ?thesis
    proof (cases w)
      case (Inl e)
      with assms(2) Inr d1 path(2) same show ?thesis by (auto simp: cache_put_def Let_def)
    next
      case w: (Inr u)
      define d2 where "d2 = (if cc_max_size_bytes config < - 1
        then evict_lru faults config (of_nat (length (query @ [10] @ payload))) ?path d1 else d1)"
      have r: "fs_rename faults ?tmp ?path d2 = (d', r)"
        using assms(2) Inr d1 path(2) w by (simp add: cache_put_def Let_def d2_def split: if_splits)
      have "fs_lookup ?tmp d1 = Some \<lparr>f_bytes = query @ [10] @ payload, f_mtime = d_clock d\<rparr>"
        using d1 w by (auto simp: fs_write_def Let_def fs_lookup_def put_file_map_of split: option.splits)
      then have "fs_lookup ?tmp d2 = Some \<lparr>f_bytes = query @ [10] @ payload, f_mtime = d_clock d\<rparr>" "fs_lookup ?path d2 = fs_lookup ?path d"
        using same evict_lru_keeps[of ?tmp ?path] evict_lru_keeps[of ?path ?path] path(3) by (auto simp: d2_def)
      with r Inr show ?thesis
        by (auto simp: fs_rename_def fs_lookup_def put_file_map_of split: option.splits)
    qed
  qed
qed

text \<open>The files of other keys stay as they are or are evicted.\<close>

lemma fs_lookup_remove: "fs_lookup name (d\<lparr>d_files := filter (\<lambda>p. fst p \<noteq> n) (d_files d)\<rparr>) = (if name = n then None else fs_lookup name d)"
  using map_of_filter_names[of "\<lambda>m. m \<noteq> n" "d_files d" name] by (auto simp: fs_lookup_def)

lemma evict_loop_removes:
  "fs_lookup name (evict_loop faults needed freed files d) \<in> {fs_lookup name d, None}"
proof (induction faults needed freed files d rule: evict_loop.induct)
  case (2 faults needed freed n sz mtime files d)
  show ?case
  proof (cases "faults (IoRemove n)")
    case None
    let ?d = "d\<lparr>d_files := filter (\<lambda>p. fst p \<noteq> n) (d_files d)\<rparr>"
    have "\<not> needed \<le> freed \<Longrightarrow> fs_lookup name (evict_loop faults needed (freed + sz) files ?d) \<in> {fs_lookup name ?d, None}"
      using 2(2)[of ?d "Inr ()" "()"] None by (simp add: fs_remove_def)
    with None show ?thesis by (auto simp: fs_remove_def fs_lookup_remove split: if_splits)
  next
    case (Some f)
    with 2(1)[of d "Inl (fst f)" "fst f"] show ?thesis by (cases f) (auto simp: fs_remove_def)
  qed
qed simp

lemma put_others:
  assumes "key_ok key" "cache_put faults serialize config key query data d = (d', r)" "is_cache_file name" "name \<noteq> cache_path key"
  shows "fs_lookup name d' \<in> {fs_lookup name d, None}"
proof -
  let ?path = "cache_path key" and ?tmp = "key @ [dot] @ ascii ''tmp''"
  note path = cache_path_props[OF assms(1)]
  have tmp: "name \<noteq> ?tmp" using assms(3) path(3) by auto
  have ev: "fs_lookup name (evict_lru faults config sz ?path d1) \<in> {fs_lookup name d1, None}" for sz d1
    using evict_loop_removes by (auto simp: evict_lru_def Let_def)
  have wr: "fs_lookup name (fst (fs_write faults ?tmp bs d)) = fs_lookup name d" for bs
    using tmp by (auto simp: fs_write_def Let_def fs_lookup_def put_file_map_of split: option.splits)
  have rn: "fs_lookup name (fst (fs_rename faults ?tmp ?path d2)) = fs_lookup name d2" for d2
    using tmp assms(4) fs_lookup_remove[of name ?tmp d2]
    by (auto simp: fs_rename_def fs_lookup_def put_file_map_of split: option.splits)
  show ?thesis
  proof (cases "serialize (map (\<lambda>(t, v). (raw t, v)) data)")
    case (Inl e)
    with assms(2) show ?thesis by (auto simp: cache_put_def Let_def)
  next
    case (Inr payload)
    obtain d1 w where d1: "fs_write faults ?tmp (query @ [10] @ payload) d = (d1, w)" by (cases "fs_write faults ?tmp (query @ [10] @ payload) d")
    then have same: "fs_lookup name d1 = fs_lookup name d" using wr by (metis fst_conv)
    show ?thesis
    proof (cases w)
      case (Inl e)
      with assms(2) Inr d1 path(2) same show ?thesis by (auto simp: cache_put_def Let_def)
    next
      case w: (Inr u)
      define d2 where "d2 = (if cc_max_size_bytes config < - 1
        then evict_lru faults config (of_nat (length (query @ [10] @ payload))) ?path d1 else d1)"
      have r: "fs_rename faults ?tmp ?path d2 = (d', r)"
        using assms(2) Inr d1 path(2) w by (simp add: cache_put_def Let_def d2_def split: if_splits)
      have "fs_lookup name d2 \<in> {fs_lookup name d1, None}" using ev by (simp add: d2_def)
      with r rn[of d2] same show ?thesis by simp
    qed
  qed
qed

text \<open>
  C40. Storing is atomic whatever fails. After \<^verbatim>\<open>put\<close>, with any faults of the file system, the cache
  file of the key is either what it was before or the complete new file, and it is the new one
  exactly when \<^verbatim>\<open>put\<close> reports success.
\<close>

theorem cache_put_atomic:
  assumes "key_ok key" "cache_put faults serialize config key query data d = (d', r)"
  shows "(case r of
      Inl _ \<Rightarrow> fs_lookup (cache_path key) d' = fs_lookup (cache_path key) d
    | Inr _ \<Rightarrow> \<exists>payload. serialize (map (\<lambda>(t, v). (raw t, v)) data) = Inr payload \<and>
        fs_lookup (cache_path key) d' = Some \<lparr>f_bytes = query @ [10] @ payload, f_mtime = d_clock d\<rparr>)"
  by (rule put_atomic[OF assms])

definition full_disk :: faults where
  "full_disk c = (case c of IoWrite _ \<Rightarrow> Some (Anyhow ''No space left on device'', 3) | _ \<Rightarrow> None)"

theorem cache_put_atomic_witness:
  "\<exists>d' e. cache_put full_disk byte_rows \<lparr>cc_max_size_bytes = 12\<rparr> (ascii ''ab'') (ascii ''q'') [(NanoTime 5, 7)] old_folder = (d', Inl e) \<and>
    fs_lookup (ascii ''ab.cache'') d' = Some \<lparr>f_bytes = ascii ''q12345'', f_mtime = 3\<rparr>"
proof -
  let ?r = "cache_put full_disk byte_rows \<lparr>cc_max_size_bytes = 12\<rparr> (ascii ''ab'') (ascii ''q'') [(NanoTime 5, 7)] old_folder"
  have "key_ok (ascii ''ab'')" by (simp add: key_ok_def ascii_def dot_def)
  from cache_put_atomic[OF this, of full_disk byte_rows "\<lparr>cc_max_size_bytes = 12\<rparr>" "ascii ''q''" "[(NanoTime 5, 7)]" old_folder "fst ?r" "snd ?r"]
  show ?thesis
    by (simp add: cache_put_def Let_def fs_write_def full_disk_def byte_rows_def old_folder_def fs_lookup_def cache_path_def
        ascii_def with_extension_def last_dot_def dot_def)
qed

text \<open>
  A lookup rewrites the file in place to renew its modification time, ignoring errors: when the
  disk is full the file is left truncated although the lookup answers with the rows.
\<close>

lemma cache_get_can_tear:
  "case cache_get full_disk rows_of_bytes (ascii ''ab'')
      \<lparr>d_files = [(ascii ''ab.cache'', \<lparr>f_bytes = ascii ''q'' @ [10, 5, 7], f_mtime = 3\<rparr>)], d_clock = 9\<rparr> of
    (d', r) \<Rightarrow> r = Inr (Some [(NanoTime 5, 7)]) \<and> map_option f_bytes (fs_lookup (ascii ''ab.cache'') d') = Some (ascii ''q'' @ [10, 5])"
  by (simp add: cache_get_def Let_def full_disk_def fs_lookup_def cache_path_def ascii_def fs_write_def)

text \<open>
  The header that a lookup skips ends at the first newline: the file of a query of several lines is
  read from its second line on.
\<close>

lemma cache_get_multiline:
  assumes "fs_lookup (cache_path key) d = Some f" "f_bytes f = (line @ [10] @ lines) @ [10] @ payload" "10 \<notin> set line"
    "deserialize (lines @ [10] @ payload) = Inl e"
  shows "cache_get no_faults deserialize key d = (d, Inl e)"
proof -
  have "position (\<lambda>b. b = 10) (line @ 10 # lines @ 10 # payload) = Some (length line)"
    by (rule position_first) (use assms(3) in auto)
  then show ?thesis using assms by (simp add: cache_get_def no_faults_def Let_def)
qed

end
