(* ===== verification/Kdb_Cached.thy ===== *)
theory Kdb_Cached
  imports Kdb_Read File_Cache
begin

text \<open>
  The cached reader: \<^verbatim>\<open>adapters/kdb/read_cached.rs\<close>, over the file cache of the theory \<open>File_Cache\<close> and
  the reader of the theory \<open>Kdb_Read\<close>. \<open>sha_hex\<close>, \<open>serialize\<close> and \<open>deserialize\<close> are the parameters of
  the cache; log calls are left out.

  The theorems: over a coherent cache whose folder can be made, and for a server whose answers are in
  time order, the cached reader yields what the uncached one yields and leaves the cache coherent,
  whatever the file system's faults outside the rewriting of cache files; without the folder it
  fails before it yields anything (\<open>kdb_cached_same\<close>); when every query has a file, nothing depends on the server
  (\<open>cached_loop_offline\<close>).
\<close>

section \<open>The reader\<close>

text \<open>Rows are parsed and checked for their order before anything is stored or emitted.\<close>

fun parse_rows :: "'k kdb_lib \<Rightarrow> ('k, 'a) from_kdb_row \<Rightarrow> string list \<Rightarrow> 'k row list \<Rightarrow> nanotime option \<Rightarrow> symbol_interner \<Rightarrow>
    symbol_interner \<times> (anyhow + (nanotime \<times> 'a) list)" where
  "parse_rows lib from_row columns [] prev_time interner = (interner, Inr [])"
| "parse_rows lib from_row columns (r # rs) prev_time interner = (case from_row r columns interner of
       (interner', Inl e) \<Rightarrow> (interner', Inl (kdb_anyhow lib e))
     | (interner', Inr (time, record)) \<Rightarrow>
         if (case prev_time of Some prev \<Rightarrow> time < prev | None \<Rightarrow> False)
         then (interner', Inl (Anyhow ''KDB data is not sorted by time''))
         else (case parse_rows lib from_row columns rs (Some time) interner' of
             (i, Inl e) \<Rightarrow> (i, Inl e)
           | (i, Inr parsed) \<Rightarrow> (i, Inr ((time, record) # parsed))))"

fun emit_rows :: "(nanotime \<times> 'a) list \<Rightarrow> window_filter \<Rightarrow> (anyhow + nanotime \<times> 'a) list" where
  "emit_rows [] f = []"
| "emit_rows ((time, record) # rows) f = (case window_filter_keep time f of
       (f', False) \<Rightarrow> emit_rows rows f'
     | (f', True) \<Rightarrow> Inr (time, record) # emit_rows rows f')"

text \<open>Everything the loop over the slices relies on.\<close>

record ('k, 's, 'a) cached_env =
  ce_lib :: "'k kdb_lib"
  ce_from_row :: "('k, 'a) from_kdb_row"
  ce_connect :: "kdb_error + 's"
  ce_ask :: "'s \<Rightarrow> bytes \<Rightarrow> 's \<times> (kdb_error + 'k)"
  ce_sha_hex :: "bytes \<Rightarrow> bytes"
  ce_serialize :: "'a serialize"
  ce_deserialize :: "'a deserialize"
  ce_faults :: faults
  ce_config :: cache_config

definition query_key :: "('k, 's, 'a) cached_env \<Rightarrow> bytes \<Rightarrow> cache_key" where
  "query_key env query = key_from_parts (ce_sha_hex env) [query]"

text \<open>A query on a cache miss: the rows or the error, the connection and the interner.\<close>

definition query_rows :: "('k, 's, 'a) cached_env \<Rightarrow> bytes \<Rightarrow> 's option \<Rightarrow> symbol_interner \<Rightarrow>
    's option \<times> symbol_interner \<times> (anyhow + (nanotime \<times> 'a) list)" where
  "query_rows env query socket interner =
     (case (case socket of Some s \<Rightarrow> Inr s | None \<Rightarrow> ce_connect env) of
        Inl e \<Rightarrow> (None, interner, Inl (kdb_anyhow (ce_lib env) e))
      | Inr s \<Rightarrow> (case ce_ask env s query of
          (s', Inl e) \<Rightarrow> (Some s', interner, Inl (kdb_anyhow (ce_lib env) e))
        | (s', Inr result) \<Rightarrow> (case (column_names (ce_lib env) result, table_rows (ce_lib env) result) of
            (Inr columns, Inr rows) \<Rightarrow>
              (case parse_rows (ce_lib env) (ce_from_row env) columns (row_iter_collect (rows_iter rows)) None interner of
                 (i, r) \<Rightarrow> (Some s', i, r))
          | (Inl e, _) \<Rightarrow> (Some s', interner, Inl e)
          | (_, Inl e) \<Rightarrow> (Some s', interner, Inl e))))"

fun cached_loop :: "('k, 's, 'a) cached_env \<Rightarrow> (bytes \<times> time_window) list \<Rightarrow> 's option \<Rightarrow> symbol_interner \<Rightarrow> folder \<Rightarrow>
    (anyhow + nanotime \<times> 'a) list \<times> folder" where
  "cached_loop env [] socket interner d = ([], d)"
| "cached_loop env ((query, window) # slices) socket interner d =
     (let key = query_key env query in
      case cache_get (ce_faults env) (ce_deserialize env) key d of
        (d1, Inr (Some rows)) \<Rightarrow>
          (case cached_loop env slices socket interner d1 of
             (items, d') \<Rightarrow> (emit_rows rows (window_filter_new ''kdb_read_cached'' window) @ items, d'))
      | (d1, _) \<Rightarrow> (case query_rows env query socket interner of
          (socket', interner', Inl e) \<Rightarrow> ([Inl e], d1)
        | (socket', interner', Inr parsed) \<Rightarrow>
            (let d2 = fst (cache_put (ce_faults env) (ce_serialize env) (ce_config env) key query parsed d1) in
             case cached_loop env slices socket' interner' d2 of
               (items, d') \<Rightarrow> (emit_rows parsed (window_filter_new ''kdb_read_cached'' window) @ items, d'))))"

text \<open>
  The function given to \<^verbatim>\<open>produce_async\<close>, with the stream it returns run to its end; \<open>create\<close> is the
  result of creating the folder. A panic is \<open>None\<close>.
\<close>

definition kdb_read_cached_func :: "('k, 's, 'a) cached_env \<Rightarrow> anyhow + unit \<Rightarrow> duration \<Rightarrow> 'q query_fn \<Rightarrow> 'q \<Rightarrow> run_params \<Rightarrow> folder \<Rightarrow>
    (anyhow + (anyhow + nanotime \<times> 'a) list \<times> folder) option" where
  "kdb_read_cached_func env create_dir_all period query_fn q ctx d =
     (let start_time = rp_start_time ctx; end_time_result = rp_end_time ctx in
      case compute_validated_time_slices ''kdb_read_cached'' start_time end_time_result period of
        None \<Rightarrow> None
      | Some (Inl e) \<Rightarrow> Some (Inl e)
      | Some (Inr slices) \<Rightarrow> (case end_time_result of
          Inl _ \<Rightarrow> None
        | Inr end_time \<Rightarrow> (case create_dir_all of
            Inl e \<Rightarrow> Some (Inl e)
          | Inr _ \<Rightarrow> Some (Inr (cached_loop env (slice_queries query_fn start_time end_time q slices) None
              symbol_interner_default d)))))"

section \<open>Coherence\<close>

lemma emit_rows_filter: "emit_rows rows f = map Inr (filter (\<lambda>r. tw_contains (wf_window f) (fst r)) rows)"
  by (induction rows f rule: emit_rows.induct) (auto simp: window_filter_keep_def)

lemma parse_rows_decoded:
  assumes "decode_rows from_row columns rs i = (i', Inr rows)" "sorted (map fst rows)"
    "\<forall>p. prev = Some p \<longrightarrow> (\<forall>r \<in> set rows. p \<le> fst r)"
  shows "parse_rows lib from_row columns rs prev i = (i', Inr rows)"
  using assms
proof (induction rs arbitrary: rows prev i)
  case (Cons r rs)
  obtain i1 x rows' where x: "from_row r columns i = (i1, Inr x)" "decode_rows from_row columns rs i1 = (i', Inr rows')" "rows = x # rows'"
    using Cons.prems(1) by (auto split: prod.splits sum.splits)
  obtain t v where tv: "x = (t, v)" by (cases x)
  have "\<not> (case prev of Some p \<Rightarrow> t < p | None \<Rightarrow> False)" using Cons.prems(3) x(3) tv by (auto split: option.splits)
  with Cons.IH[OF x(2), of "Some t"] Cons.prems(2) x tv show ?case by auto
qed simp

text \<open>
  \<open>rows_of query\<close> are the rows of a query. A cache is coherent for a set of queries when the file of
  each of them, if there is one, holds the query and its rows.
\<close>

definition raw_rows :: "(nanotime \<times> 'a) list \<Rightarrow> (u64 \<times> 'a) list" where
  "raw_rows rows = map (\<lambda>(t, v). (raw t, v)) rows"

definition coherent :: "('k, 's, 'a) cached_env \<Rightarrow> bytes set \<Rightarrow> (bytes \<Rightarrow> (nanotime \<times> 'a) list) \<Rightarrow> folder \<Rightarrow> bool" where
  "coherent env queries rows_of d \<longleftrightarrow> (\<forall>query \<in> queries. \<forall>f. fs_lookup (cache_path (query_key env query)) d = Some f \<longrightarrow>
     (\<exists>payload. f_bytes f = query @ [10] @ payload \<and> ce_deserialize env payload = Inr (raw_rows (rows_of query))))"

definition keys_ok :: "('k, 's, 'a) cached_env \<Rightarrow> bytes set \<Rightarrow> bool" where
  "keys_ok env queries \<longleftrightarrow> inj_on (query_key env) queries \<and> (\<forall>query \<in> queries. key_ok (query_key env query) \<and> 10 \<notin> set query)"

definition faults_ok :: "faults \<Rightarrow> bool" where
  "faults_ok faults \<longleftrightarrow> (\<forall>name. is_cache_file name \<longrightarrow> faults (IoWrite name) = None)"

lemma raw_rows_back: "map (\<lambda>(ns, t). (NanoTime ns, t)) (raw_rows rows) = rows"
  by (induction rows) (auto simp: raw_rows_def)

lemma coherentD:
  assumes "coherent env queries rows_of d" "query \<in> queries" "fs_lookup (cache_path (query_key env query)) d = Some f"
  obtains payload where "f_bytes f = query @ [10] @ payload" "ce_deserialize env payload = Inr (raw_rows (rows_of query))"
  using assms unfolding coherent_def by blast

lemma coherent_mono:
  assumes "coherent env queries rows_of d"
    "\<And>query f'. query \<in> queries \<Longrightarrow> fs_lookup (cache_path (query_key env query)) d' = Some f' \<Longrightarrow>
      (\<exists>f. fs_lookup (cache_path (query_key env query)) d = Some f \<and> f_bytes f = f_bytes f') \<or>
      (\<exists>payload. f_bytes f' = query @ [10] @ payload \<and> ce_deserialize env payload = Inr (raw_rows (rows_of query)))"
  shows "coherent env queries rows_of d'"
  unfolding coherent_def by (metis assms coherent_def)

lemma coherent_get:
  assumes "coherent env queries rows_of d" "keys_ok env queries" "faults_ok (ce_faults env)" "query \<in> queries"
    "cache_get (ce_faults env) (ce_deserialize env) (query_key env query) d = (d1, r)"
  shows "coherent env queries rows_of d1" "\<forall>rows. r = Inr (Some rows) \<longrightarrow> rows = rows_of query"
    "ce_faults env (IoRead (cache_path (query_key env query))) = None \<Longrightarrow>
       fs_lookup (cache_path (query_key env query)) d \<noteq> None \<Longrightarrow> r = Inr (Some (rows_of query))"
proof -
  let ?path = "cache_path (query_key env query)"
  have q: "10 \<notin> set query" "key_ok (query_key env query)" using assms(2,4) by (auto simp: keys_ok_def)
  have wr: "ce_faults env (IoWrite ?path) = None" using assms(3) cache_path_props(1)[OF q(2)] by (simp add: faults_ok_def)
  have same: "coherent env queries rows_of (fst (fs_write (ce_faults env) ?path (f_bytes f) d))" if f: "fs_lookup ?path d = Some f" for f
    using f by (intro coherent_mono[OF assms(1)])
      (auto simp: fs_write_def wr fs_lookup_def put_file_map_of split: if_splits)
  have hit: "r = Inr (Some (rows_of query)) \<and> d1 = fst (fs_write (ce_faults env) ?path (f_bytes f) d)"
    if f: "fs_lookup ?path d = Some f" "ce_faults env (IoRead ?path) = None" for f
  proof -
    obtain payload where p: "f_bytes f = query @ [10] @ payload" "ce_deserialize env payload = Inr (raw_rows (rows_of query))"
      using coherentD[OF assms(1,4) f(1)] by blast
    have "position (\<lambda>b. b = 10) (query @ 10 # payload) = Some (length query)" by (rule position_first) (use q(1) in auto)
    with assms(5) f p show ?thesis by (auto simp: cache_get_def Let_def raw_rows_back)
  qed
  show "coherent env queries rows_of d1"
  proof (cases "ce_faults env (IoRead ?path)")
    case None
    then show ?thesis using hit same assms(1,5) by (cases "fs_lookup ?path d") (auto simp: cache_get_def Let_def)
  next
    case (Some f)
    then show ?thesis using assms(1,5) by (cases f) (simp add: cache_get_def)
  qed
  show "\<forall>rows. r = Inr (Some rows) \<longrightarrow> rows = rows_of query"
  proof (cases "ce_faults env (IoRead ?path)")
    case None
    then show ?thesis using hit assms(5) by (cases "fs_lookup ?path d") (auto simp: cache_get_def Let_def)
  next
    case (Some f)
    then show ?thesis using assms(5) by (cases f) (auto simp: cache_get_def)
  qed
  show "r = Inr (Some (rows_of query))" if "ce_faults env (IoRead ?path) = None" "fs_lookup ?path d \<noteq> None"
    using that hit by auto
qed

lemma coherent_put:
  assumes "coherent env queries rows_of d" "keys_ok env queries" "query \<in> queries"
    "\<forall>p. ce_serialize env (raw_rows (rows_of query)) = Inr p \<longrightarrow> ce_deserialize env p = Inr (raw_rows (rows_of query))"
  shows "coherent env queries rows_of
    (fst (cache_put (ce_faults env) (ce_serialize env) (ce_config env) (query_key env query) query (rows_of query) d))"
proof -
  let ?key = "query_key env query"
  obtain d' r where d': "cache_put (ce_faults env) (ce_serialize env) (ce_config env) ?key query (rows_of query) d = (d', r)"
    by (cases "cache_put (ce_faults env) (ce_serialize env) (ce_config env) ?key query (rows_of query) d")
  have k: "key_ok ?key" using assms(2,3) by (simp add: keys_ok_def)
  have "coherent env queries rows_of d'"
  proof (rule coherent_mono[OF assms(1)])
    fix query' f' assume q': "query' \<in> queries" "fs_lookup (cache_path (query_key env query')) d' = Some f'"
    show "(\<exists>f. fs_lookup (cache_path (query_key env query')) d = Some f \<and> f_bytes f = f_bytes f') \<or>
      (\<exists>payload. f_bytes f' = query' @ [10] @ payload \<and> ce_deserialize env payload = Inr (raw_rows (rows_of query')))"
    proof (cases "query' = query")
      case True
      with put_atomic[OF k d'] q'(2) assms(4) show ?thesis by (auto simp: raw_rows_def split: sum.splits)
    next
      case False
      then have "query_key env query' \<noteq> ?key" using assms(2,3) q'(1) by (auto simp: keys_ok_def inj_on_def)
      then have "cache_path (query_key env query') \<noteq> cache_path ?key" by (simp add: cache_path_def)
      moreover have "is_cache_file (cache_path (query_key env query'))"
        using assms(2) q'(1) cache_path_props(1) by (auto simp: keys_ok_def)
      ultimately have "fs_lookup (cache_path (query_key env query')) d' \<in> {fs_lookup (cache_path (query_key env query')) d, None}"
        using put_others[OF k d'] by blast
      with q'(2) have "fs_lookup (cache_path (query_key env query')) d = Some f'" by auto
      then show ?thesis by blast
    qed
  qed
  then show ?thesis by (simp add: d')
qed

section \<open>The loop over a coherent cache\<close>

definition knows :: "('k, 's, 'a) cached_env \<Rightarrow> bytes set \<Rightarrow> (bytes \<Rightarrow> (nanotime \<times> 'a) list) \<Rightarrow> bool" where
  "knows env queries rows_of \<longleftrightarrow> (\<forall>query \<in> queries. answered (ce_lib env) (ce_from_row env) (ce_ask env) query (rows_of query) \<and>
     sorted (map fst (rows_of query)) \<and>
     (\<forall>p. ce_serialize env (raw_rows (rows_of query)) = Inr p \<longrightarrow> ce_deserialize env p = Inr (raw_rows (rows_of query))))"

lemma query_rows_answered:
  assumes "knows env queries rows_of" "query \<in> queries" "ce_connect env = Inr s0"
  shows "\<exists>s' i'. query_rows env query socket i = (Some s', i', Inr (rows_of query))"
proof -
  obtain s where s: "(case socket of Some s \<Rightarrow> Inr s | None \<Rightarrow> ce_connect env) = Inr s" using assms(3) by (cases socket) auto
  obtain s' k columns rs i' where k: "ce_ask env s query = (s', Inr k)" "column_names (ce_lib env) k = Inr columns"
    "table_rows (ce_lib env) k = Inr rs"
    "decode_rows (ce_from_row env) columns (row_iter_collect (rows_iter rs)) i = (i', Inr (rows_of query))"
    using assms(1,2) unfolding knows_def answered_def by metis
  have "sorted (map fst (rows_of query))" using assms(1,2) by (simp add: knows_def)
  from parse_rows_decoded[OF k(4) this, of None "ce_lib env"] s k(1-3) show ?thesis by (simp add: query_rows_def)
qed

lemma cached_loop_coherent:
  assumes "knows env queries rows_of" "keys_ok env queries" "faults_ok (ce_faults env)" "ce_connect env = Inr s0"
    and "coherent env queries rows_of d" "fst ` set slices \<subseteq> queries"
  shows "\<exists>d'. cached_loop env slices socket i d =
      (map Inr (concat (map (\<lambda>s. filter (\<lambda>r. tw_contains (snd s) (fst r)) (rows_of (fst s))) slices)), d') \<and>
    coherent env queries rows_of d'"
  using assms(5,6)
proof (induction slices arbitrary: socket i d)
  case (Cons s slices)
  obtain query w where s: "s = (query, w)" by (cases s)
  have q: "query \<in> queries" "fst ` set slices \<subseteq> queries" using Cons.prems(2) s by auto
  obtain d1 r where g: "cache_get (ce_faults env) (ce_deserialize env) (query_key env query) d = (d1, r)"
    by (cases "cache_get (ce_faults env) (ce_deserialize env) (query_key env query) d")
  note get = coherent_get[OF Cons.prems(1) assms(2,3) q(1) g]
  note IH = Cons.IH[OF _ q(2)]
  show ?case
  proof (cases "\<exists>rows. r = Inr (Some rows)")
    case True
    with get(2) have "r = Inr (Some (rows_of query))" by blast
    with IH[OF get(1), of socket i] g s show ?thesis by (auto simp: emit_rows_filter window_filter_new_def)
  next
    case False
    obtain s' i' where qr: "query_rows env query socket i = (Some s', i', Inr (rows_of query))"
      using query_rows_answered[OF assms(1) q(1) assms(4)] by blast
    have "coherent env queries rows_of
        (fst (cache_put (ce_faults env) (ce_serialize env) (ce_config env) (query_key env query) query (rows_of query) d1))"
      using coherent_put[OF get(1) assms(2) q(1)] assms(1) q(1) by (simp add: knows_def)
    from IH[OF this, of "Some s'" i'] g s qr False show ?thesis
      by (cases r) (auto simp: emit_rows_filter window_filter_new_def Let_def split: option.splits)
  qed
qed simp

text \<open>With a file for every query, neither the server nor the connection matters.\<close>

lemma cached_loop_offline:
  assumes "keys_ok env queries" "\<And>name. ce_faults env name = None"
    and "coherent env queries rows_of d" "fst ` set slices \<subseteq> queries"
      "\<forall>query \<in> queries. fs_lookup (cache_path (query_key env query)) d \<noteq> None"
  shows "fst (cached_loop env slices socket i d) =
    map Inr (concat (map (\<lambda>s. filter (\<lambda>r. tw_contains (snd s) (fst r)) (rows_of (fst s))) slices))"
  using assms(3-5)
proof (induction slices arbitrary: socket i d)
  case (Cons s slices)
  obtain query w where s: "s = (query, w)" by (cases s)
  have q: "query \<in> queries" "fst ` set slices \<subseteq> queries" using Cons.prems(2) s by auto
  obtain d1 r where g: "cache_get (ce_faults env) (ce_deserialize env) (query_key env query) d = (d1, r)"
    by (cases "cache_get (ce_faults env) (ce_deserialize env) (query_key env query) d")
  have f: "faults_ok (ce_faults env)" using assms(2) by (simp add: faults_ok_def)
  note get = coherent_get[OF Cons.prems(1) assms(1) f q(1) g]
  have r: "r = Inr (Some (rows_of query))" using get(3) assms(2) Cons.prems(3) q(1) by simp
  have "fs_lookup name d1 \<noteq> None" if "fs_lookup name d \<noteq> None" for name
    using g that by (auto simp: cache_get_def Let_def assms(2) fs_write_def fs_lookup_def put_file_map_of
        split: option.splits sum.splits if_splits)
  with Cons.IH[OF get(1) q(2), of socket i] Cons.prems(3) g s r show ?case
    by (auto simp: emit_rows_filter window_filter_new_def split: prod.splits)
qed simp

section \<open>Property\<close>

text \<open>The queries of a run.\<close>

definition run_queries :: "duration \<Rightarrow> 'q query_fn \<Rightarrow> 'q \<Rightarrow> run_params \<Rightarrow> bytes set" where
  "run_queries period query_fn q ctx = (case rp_end_time ctx of
       Inl _ \<Rightarrow> {}
     | Inr e \<Rightarrow> (case compute_validated_time_slices ''kdb_read_cached'' (rp_start_time ctx) (Inr e) period of
         Some (Inr ss) \<Rightarrow> fst ` set (slice_queries query_fn (rp_start_time ctx) e q ss)
       | _ \<Rightarrow> {}))"

text \<open>
  C18. The cache is transparent. Let the server answer every query of the run in the same way
  whenever it is asked, by rows in time order that survive serialisation; let the cache be coherent,
  the keys of the queries distinct and the queries of one line. When the folder of the cache can be
  made, the cached reader yields exactly the items of the uncached one, and it leaves the cache
  coherent for the next run, whatever is in the cache to begin with, whatever is evicted, and
  whichever later calls of the file system fail, the rewriting of a cache file excepted. When the
  folder cannot be made, the cached reader fails with that error and yields nothing.
\<close>

theorem kdb_cached_same:
  assumes read: "kdb_read_func (ce_lib env) (ce_from_row env) (\<lambda>_ _. ce_connect env) (ce_ask env) connection period query_fn q ctx =
      Some (Inr items)"
    and server: "knows env (run_queries period query_fn q ctx) rows_of"
    and env: "keys_ok env (run_queries period query_fn q ctx)" "faults_ok (ce_faults env)"
      "coherent env (run_queries period query_fn q ctx) rows_of d"
  shows "case create_dir_all of
      Inl e \<Rightarrow> kdb_read_cached_func env create_dir_all period query_fn q ctx d = Some (Inl e)
    | Inr _ \<Rightarrow> \<exists>d'. kdb_read_cached_func env create_dir_all period query_fn q ctx d = Some (Inr (items, d')) \<and>
        coherent env (run_queries period query_fn q ctx) rows_of d'"
proof -
  let ?Q = "run_queries period query_fn q ctx"
  have lbl: "compute_validated_time_slices ''kdb_read_cached'' start e period = Some (Inr ss)"
    if "compute_validated_time_slices ''kdb_read_time_sliced'' start e period = Some (Inr ss)" for start e ss
    using that by (auto simp: compute_validated_time_slices_def split: if_splits sum.splits)
  obtain ss e socket where r: "compute_validated_time_slices ''kdb_read_time_sliced'' (rp_start_time ctx) (Inr e) period = Some (Inr ss)"
    "rp_end_time ctx = Inr e" "ce_connect env = Inr socket"
    "items = chunk_stream (ce_lib env) (ce_from_row env) (ce_ask env) (slice_queries query_fn (rp_start_time ctx) e q ss) socket symbol_interner_default"
    using read by (auto simp: kdb_read_func_def Let_def split: option.splits sum.splits)
  let ?sq = "slice_queries query_fn (rp_start_time ctx) e q ss"
  have sub: "fst ` set ?sq \<subseteq> ?Q" using r(2) lbl[OF r(1)] by (simp add: run_queries_def)
  from cached_loop_coherent[OF server env(1,2) r(3) env(3) sub, of None symbol_interner_default] obtain d' where
    d': "cached_loop env ?sq None symbol_interner_default d =
      (map Inr (concat (map (\<lambda>s. filter (\<lambda>r. tw_contains (snd s) (fst r)) (rows_of (fst s))) ?sq)), d')"
    "coherent env ?Q rows_of d'" by blast
  have "items = map Inr (concat (map (\<lambda>s. filter (\<lambda>r. tw_contains (snd s) (fst r)) (rows_of (fst s))) ?sq))"
    unfolding r(4) using server sub by (intro chunk_stream_rows) (force simp: knows_def)
  with d' lbl[OF r(1)] r(2) show ?thesis by (cases create_dir_all) (auto simp: kdb_read_cached_func_def)
qed

definition sample_env :: "(unit, unit, nat) cached_env" where
  "sample_env = \<lparr>ce_lib = sample_lib, ce_from_row = sample_from_row, ce_connect = Inr (), ce_ask = sample_ask,
     ce_sha_hex = (\<lambda>_. ascii ''ef''), ce_serialize = (\<lambda>_. Inr [1]), ce_deserialize = (\<lambda>_. Inr (raw_rows sample_rows)),
     ce_faults = no_faults, ce_config = \<lparr>cc_max_size_bytes = 100\<rparr>\<rparr>"

lemma sample_queries: "run_queries one_hour sample_query () ctx \<subseteq> {ascii ''trades''}"
proof -
  have "fst ` set (slice_queries sample_query start e q ss) \<subseteq> {ascii ''trades''}" for start e q ss
    by (induction sample_query start e q ss rule: slice_queries.induct) (auto simp: sample_query_def)
  then show ?thesis by (auto simp: run_queries_def split: sum.splits option.splits)
qed

theorem kdb_cached_same_witness:
  "\<exists>items d'. kdb_read_func sample_lib sample_from_row (\<lambda>_ _. Inr ()) sample_ask (kdb_connection_new ''localhost'' 5000) one_hour
     sample_query () (run_params_of sample_gs) = Some (Inr items) \<and>
   kdb_read_cached_func sample_env (Inr ()) one_hour sample_query () (run_params_of sample_gs) \<lparr>d_files = [], d_clock = 0\<rparr> =
     Some (Inr (items, d'))"
proof -
  let ?Q = "run_queries one_hour sample_query () (run_params_of sample_gs)"
  obtain items where i: "kdb_read_func sample_lib sample_from_row (\<lambda>_ _. Inr ()) sample_ask (kdb_connection_new ''localhost'' 5000) one_hour
     sample_query () (run_params_of sample_gs) = Some (Inr items)" using sample_read by blast
  have sel: "ce_lib sample_env = sample_lib" "ce_from_row sample_env = sample_from_row" "ce_connect sample_env = Inr ()"
    "ce_ask sample_env = sample_ask" "ce_faults sample_env = no_faults" by (simp_all add: sample_env_def)
  have "sorted (map fst sample_rows)" by (simp add: sample_rows_def)
  then have "knows sample_env ?Q (\<lambda>_. sample_rows)" by (simp add: knows_def sel sample_answered sample_env_def)
  moreover have "10 \<notin> set (ascii ''trades'')" "key_ok (query_key sample_env (ascii ''trades''))"
    by (simp_all add: ascii_def key_ok_def query_key_def key_from_parts_def sample_env_def dot_def)
  then have "keys_ok sample_env ?Q" using sample_queries[of "run_params_of sample_gs"]
    by (auto simp: keys_ok_def inj_on_def)
  moreover have "faults_ok no_faults" by (simp add: faults_ok_def no_faults_def)
  moreover have "coherent sample_env ?Q (\<lambda>_. sample_rows) \<lparr>d_files = [], d_clock = 0\<rparr>" by (simp add: coherent_def fs_lookup_def)
  ultimately show ?thesis using kdb_cached_same[of sample_env, unfolded sel, OF i, of "\<lambda>_. sample_rows" "\<lparr>d_files = [], d_clock = 0\<rparr>" "Inr ()"] i by auto
qed

end
