(* ===== verification/Kdb_Write.thy ===== *)
theory Kdb_Write
  imports Kdb_Read
begin

text \<open>
  Writing to KDB+: \<^verbatim>\<open>adapters/kdb/write.rs\<close>. Every burst becomes one \<^verbatim>\<open>insert\<close> query in the text of the
  language q. The printing of floating-point numbers and of time stamps is a parameter; a string is
  the list of its bytes, and the numbers in error messages are left out.

  The theorems: the rows of a burst are transposed to columns exactly, or refused
  (\<open>kdb_columns_exact\<close>); the literals of symbols are escaped (\<open>q_string_literal_escape\<close>). How q reads
  the text of a query is outside the model.
\<close>

section \<open>Rows to columns\<close>

fun collect_results :: "('e + 'b) list \<Rightarrow> 'e + 'b list" where
  "collect_results [] = Inr []"
| "collect_results (Inl e # rs) = Inl e"
| "collect_results (Inr x # rs) = (case collect_results rs of Inl e \<Rightarrow> Inl e | Inr xs \<Rightarrow> Inr (x # xs))"

definition push_row :: "'k list \<Rightarrow> 'k list list \<Rightarrow> 'k list list" where
  "push_row row columns = fold (\<lambda>(col_idx, val) cs. cs[col_idx := cs ! col_idx @ [val]]) (enumerate 0 row) columns"

definition k_rows_to_columns :: "'k kdb_lib \<Rightarrow> 'k list \<Rightarrow> anyhow + 'k list list" where
  "k_rows_to_columns lib rows =
     (case collect_results (map (\<lambda>r. case k_vec_k lib r of
            Inl _ \<Rightarrow> Inl (Anyhow ''kdb_write: KdbSerialize::to_kdb_row must return a compound list'')
          | Inr v \<Rightarrow> Inr v) rows) of
        Inl e \<Rightarrow> Inl e
      | Inr [] \<Rightarrow> Inr []
      | Inr (first # rest) \<Rightarrow>
          (let serialized = first # rest; n_cols = length first in
           case position (\<lambda>r. length r \<noteq> n_cols) serialized of
             Some bad \<Rightarrow> Inl (Anyhow ''kdb_write: ragged burst'')
           | None \<Rightarrow> Inr (fold push_row serialized (replicate n_cols []))))"

section \<open>Literals\<close>

definition show_i64 :: "i64 \<Rightarrow> bytes" where
  "show_i64 x = (if sint x < 0 then 45 # decimal (nat (- sint x)) else decimal (nat (sint x)))"

definition show_i32 :: "i32 \<Rightarrow> bytes" where
  "show_i32 x = (if sint x < 0 then 45 # decimal (nat (- sint x)) else decimal (nat (sint x)))"

definition q_float64_token :: "(f64 \<Rightarrow> bytes) \<Rightarrow> f64 \<Rightarrow> bytes" where
  "q_float64_token show_f64 v =
     (if is_nan v then ascii ''0n'' else if v = PInf then ascii ''0w'' else if v = NInf then ascii ''-0w'' else show_f64 v)"

definition q_float32_token :: "(f64 \<Rightarrow> bytes) \<Rightarrow> f64 \<Rightarrow> bytes" where
  "q_float32_token show_f32 v =
     (if is_nan v then ascii ''0Ne'' else if v = PInf then ascii ''0we'' else if v = NInf then ascii ''-0we'' else show_f32 v)"

abbreviation (input) quote :: u8 where "quote \<equiv> 34"
abbreviation (input) backslash :: u8 where "backslash \<equiv> 92"

definition q_string_literal :: "bytes \<Rightarrow> bytes" where
  "q_string_literal s =
     [quote] @ replace_byte quote [backslash, quote] (replace_byte backslash [backslash, backslash] s) @ [quote]"

definition is_finite :: "f64 \<Rightarrow> bool" where
  "is_finite v = (case v of Fin _ \<Rightarrow> True | _ \<Rightarrow> False)"

text \<open>One value with \<^verbatim>\<open>enlist\<close>, or all of them with one type suffix.\<close>

definition suffixed :: "bytes \<Rightarrow> bytes list \<Rightarrow> bytes" where
  "suffixed suffix parts = (case parts of
       [p] \<Rightarrow> ascii ''enlist '' @ p @ suffix
     | _ \<Rightarrow> join (ascii '' '') parts @ suffix)"

definition symbol_column :: "bytes list \<Rightarrow> bytes" where
  "symbol_column syms = (case syms of
       [s] \<Rightarrow> ascii ''enlist `$'' @ q_string_literal s
     | _ \<Rightarrow> ascii ''`$('' @ join (ascii '';'') (map q_string_literal syms) @ ascii '')'')"

definition float_column :: "bytes \<Rightarrow> bytes \<Rightarrow> (f64 \<Rightarrow> bytes) \<Rightarrow> (f64 \<Rightarrow> bytes) \<Rightarrow> f64 list \<Rightarrow> bytes" where
  "float_column suffix cast_name display token vals =
     (if \<forall>v \<in> set vals. is_finite v then suffixed suffix (map display vals)
      else (case map token vals of
          [p] \<Rightarrow> ascii ''enlist '' @ p
        | parts \<Rightarrow> ascii ''`'' @ cast_name @ ascii ''$('' @ join (ascii '';'') parts @ ascii '')''))"

definition k_results :: "'k kdb_lib \<Rightarrow> ('k \<Rightarrow> kdb_error + 'b) \<Rightarrow> 'k list \<Rightarrow> anyhow + 'b list" where
  "k_results lib get atoms = collect_results (map (\<lambda>k. case get k of Inl e \<Rightarrow> Inl (kdb_anyhow lib e) | Inr v \<Rightarrow> Inr v) atoms)"

definition format_kdb_column_q :: "'k kdb_lib \<Rightarrow> (f64 \<Rightarrow> bytes) \<Rightarrow> (f64 \<Rightarrow> bytes) \<Rightarrow> 'k list \<Rightarrow> anyhow + bytes" where
  "format_kdb_column_q lib show_f64 show_f32 atoms = (case atoms of
       [] \<Rightarrow> Inr (ascii ''()'')
     | a # _ \<Rightarrow> (case k_get_type lib a of
         SYMBOL_ATOM \<Rightarrow> map_sum id (\<lambda>vs. symbol_column (map ascii vs)) (k_results lib (k_get_symbol lib) atoms)
       | FLOAT_ATOM \<Rightarrow> map_sum id (float_column (ascii ''f'') (ascii ''float'') show_f64 (q_float64_token show_f64))
           (k_results lib (k_get_float lib) atoms)
       | LONG_ATOM \<Rightarrow> map_sum id (\<lambda>vs. suffixed (ascii ''j'') (map show_i64 vs)) (k_results lib (k_get_long lib) atoms)
       | INT_ATOM \<Rightarrow> map_sum id (\<lambda>vs. suffixed (ascii ''i'') (map show_i32 vs)) (k_results lib (k_get_int lib) atoms)
       | BOOL_ATOM \<Rightarrow> map_sum id (\<lambda>vs. suffixed (ascii ''b'') (map (\<lambda>v. if v then ascii ''1'' else ascii ''0'') vs))
           (k_results lib (k_get_bool lib) atoms)
       | REAL_ATOM \<Rightarrow> map_sum id (float_column (ascii ''e'') (ascii ''real'') show_f32 (q_float32_token show_f32))
           (k_results lib (k_get_real lib) atoms)
       | _ \<Rightarrow> Inl (Anyhow ''unsupported KDB column type in kdb_write'')))"

section \<open>The consumer\<close>

definition timestamp_column :: "bytes \<Rightarrow> nat \<Rightarrow> bytes" where
  "timestamp_column ts n = (if n = 1 then ascii ''enlist '' @ ts else join (ascii '' '') (replicate n ts))"

definition insert_query :: "string \<Rightarrow> bytes list \<Rightarrow> bytes" where
  "insert_query table_name col_frags =
     ascii ''insert[`'' @ ascii table_name @ ascii ''; ('' @ join (ascii ''; '') col_frags @ ascii '')]''"

record ('k, 's, 'a) write_env =
  we_lib :: "'k kdb_lib"
  we_connect :: "kdb_connection \<Rightarrow> string \<Rightarrow> kdb_error + 's"
  we_ask :: "'s \<Rightarrow> bytes \<Rightarrow> 's \<times> (kdb_error + 'k)"
  we_to_kdb_row :: "'a \<Rightarrow> 'k"
  we_timestamp :: "nanotime \<Rightarrow> bytes"
  we_show_f64 :: "f64 \<Rightarrow> bytes"
  we_show_f32 :: "f64 \<Rightarrow> bytes"

text \<open>The query of one burst; none for a burst without rows or columns.\<close>

definition burst_query :: "('k, 's, 'a) write_env \<Rightarrow> string \<Rightarrow> nanotime \<Rightarrow> 'a list \<Rightarrow> anyhow + bytes option" where
  "burst_query env table_name time batch =
     (case k_rows_to_columns (we_lib env) (map (we_to_kdb_row env) batch) of
        Inl e \<Rightarrow> Inl e
      | Inr [] \<Rightarrow> Inr None
      | Inr (c # cs) \<Rightarrow> (case collect_results
            (map (format_kdb_column_q (we_lib env) (we_show_f64 env) (we_show_f32 env)) (c # cs)) of
          Inl e \<Rightarrow> Inl e
        | Inr frags \<Rightarrow> Inr (Some (insert_query table_name (timestamp_column (we_timestamp env time) (length c) # frags)))))"

text \<open>The loop, with the queries it has sent.\<close>

fun write_loop :: "('k, 's, 'a) write_env \<Rightarrow> string \<Rightarrow> (nanotime \<times> 'a list) list \<Rightarrow> 's \<Rightarrow> bytes list \<times> (anyhow + unit)" where
  "write_loop env table_name [] socket = ([], Inr ())"
| "write_loop env table_name ((time, batch) # source) socket = (case burst_query env table_name time batch of
       Inl e \<Rightarrow> ([], Inl e)
     | Inr None \<Rightarrow> write_loop env table_name source socket
     | Inr (Some q) \<Rightarrow> (case we_ask env socket q of
         (socket', Inl e) \<Rightarrow> ([q], Inl (kdb_anyhow (we_lib env) e))
       | (socket', Inr response) \<Rightarrow>
           if k_get_type (we_lib env) response = QERROR
           then ([q], Inl (Anyhow (''KDB insert error: '' @ (case k_get_error_string (we_lib env) response of
               Inl _ \<Rightarrow> ''unknown'' | Inr s \<Rightarrow> s))))
           else (case write_loop env table_name source socket' of (qs, r) \<Rightarrow> (q # qs, r))))"

definition kdb_write_consumer :: "('k, 's, 'a) write_env \<Rightarrow> kdb_connection \<Rightarrow> string \<Rightarrow> (nanotime \<times> 'a list) list \<Rightarrow>
    bytes list \<times> (anyhow + unit)" where
  "kdb_write_consumer env connection table_name source = (case we_connect env connection (credentials_string connection) of
       Inl e \<Rightarrow> ([], Inl (kdb_anyhow (we_lib env) e))
     | Inr socket \<Rightarrow> write_loop env table_name source socket)"

text \<open>The node: an asynchronous consumer.\<close>

definition kdb_write :: "('k, 's, 'a) write_env \<Rightarrow> kdb_connection \<Rightarrow> string \<Rightarrow> 'c \<Rightarrow> node \<Rightarrow> ('a list, 'c) async_consumer_node" where
  "kdb_write env connection table_name c upstream =
     async_consumer_new c upstream (\<lambda>_ source. snd (kdb_write_consumer env connection table_name source))"

section \<open>Transposition\<close>

lemma collect_results_map: "collect_results (map Inr xs) = Inr xs"
  by (induction xs) simp_all

lemma collect_results_Inr: "collect_results rs = Inr xs \<longleftrightarrow> rs = map Inr xs"
proof
  show "collect_results rs = Inr xs \<Longrightarrow> rs = map Inr xs"
    by (induction rs arbitrary: xs rule: collect_results.induct) (auto split: sum.splits)
qed (simp add: collect_results_map)

lemma fold_push_from:
  "length row + n \<le> length cs \<Longrightarrow>
   fold (\<lambda>(col_idx, val) cs. cs[col_idx := cs ! col_idx @ [val]]) (enumerate n row) cs =
     take n cs @ map (\<lambda>(c, v). c @ [v]) (zip (drop n cs) row) @ drop (n + length row) cs"
proof (induction row arbitrary: n cs)
  case (Cons v row)
  have n: "n < length cs" using Cons.prems by simp
  have "fold (\<lambda>(col_idx, val) cs. cs[col_idx := cs ! col_idx @ [val]]) (enumerate n (v # row)) cs =
      fold (\<lambda>(col_idx, val) cs. cs[col_idx := cs ! col_idx @ [val]]) (enumerate (Suc n) row) (cs[n := cs ! n @ [v]])" by simp
  also have "\<dots> = take (Suc n) (cs[n := cs ! n @ [v]]) @ map (\<lambda>(c, v). c @ [v]) (zip (drop (Suc n) cs) row) @ drop (Suc n + length row) cs"
    using Cons.IH[of "Suc n" "cs[n := cs ! n @ [v]]"] Cons.prems by simp
  also have "take (Suc n) (cs[n := cs ! n @ [v]]) = take n cs @ [cs ! n @ [v]]" using n by (simp add: take_Suc_conv_app_nth)
  finally show ?case using n by (simp add: Cons_nth_drop_Suc[symmetric])
qed simp

lemma push_row_eq: "length row = length cs \<Longrightarrow> push_row row cs = map (\<lambda>(c, v). c @ [v]) (zip cs row)"
  using fold_push_from[of row 0 cs] by (simp add: push_row_def)

lemma fold_push_rows:
  "\<forall>r \<in> set rows. length r = length cs \<Longrightarrow>
    fold push_row rows cs = map (\<lambda>j. cs ! j @ map (\<lambda>r. r ! j) rows) [0..<length cs]"
proof (induction rows arbitrary: cs)
  case Nil
  then show ?case by (simp add: map_nth)
next
  case (Cons r rows)
  then show ?case by (auto simp: push_row_eq intro!: nth_equalityI)
qed

text \<open>The columns are the rows transposed, exactly when all rows are lists of one width.\<close>

lemma k_rows_to_columns_exact:
  "(\<exists>e. k_rows_to_columns lib rows = Inl e) \<longleftrightarrow>
     (\<forall>rs. map (k_vec_k lib) rows \<noteq> map Inr rs) \<or>
     (\<exists>rs. map (k_vec_k lib) rows = map Inr rs \<and> (\<exists>r \<in> set rs. length r \<noteq> length (hd rs)))"
  "map (k_vec_k lib) rows = map Inr rs \<Longrightarrow> \<forall>r \<in> set rs. length r = n \<Longrightarrow> rs \<noteq> [] \<Longrightarrow>
     k_rows_to_columns lib rows = Inr (map (\<lambda>j. map (\<lambda>r. r ! j) rs) [0..<n])"
proof -
  let ?f = "\<lambda>r. case k_vec_k lib r of
            Inl _ \<Rightarrow> Inl (Anyhow ''kdb_write: KdbSerialize::to_kdb_row must return a compound list'')
          | Inr v \<Rightarrow> Inr v"
  have f: "map ?f rows = map Inr rs \<longleftrightarrow> map (k_vec_k lib) rows = map Inr rs" for rs
  proof (induction rows arbitrary: rs)
    case (Cons r rows)
    then show ?case by (cases rs; cases "k_vec_k lib r") simp_all
  qed simp
  show two: "k_rows_to_columns lib rows = Inr (map (\<lambda>j. map (\<lambda>r. r ! j) rs) [0..<n])"
    if asm: "map (k_vec_k lib) rows = map Inr rs" "\<forall>r \<in> set rs. length r = n" "rs \<noteq> []" for rs n
  proof -
    have "collect_results (map ?f rows) = Inr rs" using asm(1) f collect_results_Inr by blast
    moreover obtain r0 rs' where rs: "rs = r0 # rs'" using asm(3) by (cases rs) auto
    moreover have "position (\<lambda>r. length r \<noteq> length r0) rs = None" using asm(2) rs by (auto simp: position_None)
    ultimately show ?thesis using asm(2) fold_push_rows[of rs "replicate n []"] by (simp add: k_rows_to_columns_def)
  qed
  show "(\<exists>e. k_rows_to_columns lib rows = Inl e) \<longleftrightarrow> (\<forall>rs. map (k_vec_k lib) rows \<noteq> map Inr rs) \<or>
     (\<exists>rs. map (k_vec_k lib) rows = map Inr rs \<and> (\<exists>r \<in> set rs. length r \<noteq> length (hd rs)))"
  proof (cases "collect_results (map ?f rows)")
    case (Inl e)
    then have "map ?f rows \<noteq> map Inr rs" for rs by (auto simp: collect_results_map)
    then have "\<forall>rs. map (k_vec_k lib) rows \<noteq> map Inr rs" using f by blast
    with Inl show ?thesis by (simp add: k_rows_to_columns_def)
  next
    case (Inr rs)
    then have m: "map (k_vec_k lib) rows = map Inr rs" using f collect_results_Inr by blast
    have u: "rs' = rs" if "map (k_vec_k lib) rows = map Inr rs'" for rs' using that m by (metis list.inj_map_strong sum.inject(2))
    show ?thesis
    proof (cases rs)
      case Nil
      with Inr m u show ?thesis by (auto simp: k_rows_to_columns_def)
    next
      case (Cons r0 rs')
      show ?thesis
      proof (cases "position (\<lambda>r. length r \<noteq> length r0) (r0 # rs')")
        case None
        then have w: "\<forall>r \<in> set rs. length r = length r0" using Cons unfolding position_None by auto
        have "\<not> (\<exists>rs. map (k_vec_k lib) rows = map Inr rs \<and> (\<exists>r \<in> set rs. length r \<noteq> length (hd rs)))"
          using u w Cons by (metis list.sel(1))
        moreover have "\<not> (\<forall>rs. map (k_vec_k lib) rows \<noteq> map Inr rs)" using m by blast
        ultimately show ?thesis using two[OF m w] Cons by simp
      next
        case (Some bad)
        then have "\<exists>r \<in> set rs. length r \<noteq> length (hd rs)" using Cons position_Some[OF Some] by (metis list.sel(1) nth_mem)
        with m have "\<exists>rs. map (k_vec_k lib) rows = map Inr rs \<and> (\<exists>r \<in> set rs. length r \<noteq> length (hd rs))" by blast
        moreover have "\<exists>e. k_rows_to_columns lib rows = Inl e" using Some Inr Cons by (auto simp: k_rows_to_columns_def Let_def)
        ultimately show ?thesis by blast
      qed
    qed
  qed
qed

text \<open>
  C20. The columns of a burst are its rows transposed. When every row of a burst is a compound list and
  all have the same width \<open>n\<close>, the writer gets \<open>n\<close> columns of one value per row, the value \<open>j\<close> of the row
  \<open>i\<close> at place \<open>i\<close> of column \<open>j\<close> (and none without rows); in every other case, and only then, the
  burst is refused.
\<close>

theorem kdb_columns_exact:
  "case k_rows_to_columns lib rows of
     Inl e \<Rightarrow> (\<exists>r \<in> set rows. isl (k_vec_k lib r)) \<or>
       (\<exists>rs. map (k_vec_k lib) rows = map Inr rs \<and> (\<exists>r \<in> set rs. length r \<noteq> length (hd rs)))
   | Inr columns \<Rightarrow> \<exists>rs n. map (k_vec_k lib) rows = map Inr rs \<and> (\<forall>r \<in> set rs. length r = n) \<and>
       columns = (if rs = [] then [] else map (\<lambda>j. map (\<lambda>r. r ! j) rs) [0..<n])"
proof (cases "k_rows_to_columns lib rows")
  case (Inl e)
  have "\<exists>r \<in> set rows. isl (k_vec_k lib r)" if "\<forall>rs. map (k_vec_k lib) rows \<noteq> map Inr rs"
  proof (rule ccontr)
    assume "\<not> (\<exists>r \<in> set rows. isl (k_vec_k lib r))"
    then have "map (k_vec_k lib) rows = map Inr (map (projr \<circ> k_vec_k lib) rows)" by (auto intro!: map_cong simp: isl_def)
    with that show False by blast
  qed
  with Inl k_rows_to_columns_exact(1)[of lib rows] show ?thesis by auto
next
  case (Inr columns)
  with k_rows_to_columns_exact(1)[of lib rows] obtain rs where
    rs: "map (k_vec_k lib) rows = map Inr rs" "\<forall>r \<in> set rs. length r = length (hd rs)" by auto
  have "columns = (if rs = [] then [] else map (\<lambda>j. map (\<lambda>r. r ! j) rs) [0..<length (hd rs)])"
  proof (cases rs)
    case Nil
    then have "rows = []" using rs(1) by simp
    then show ?thesis using Inr Nil by (simp add: k_rows_to_columns_def)
  next
    case (Cons r rs')
    then have "rs \<noteq> []" by simp
    from k_rows_to_columns_exact(2)[OF rs this] Inr this show ?thesis by simp
  qed
  with rs show ?thesis unfolding Inr sum.case by blast
qed

definition pair_lib :: "(nat + nat list) kdb_lib" where
  "pair_lib = \<lparr>k_get_type = (\<lambda>_. LONG_ATOM), k_len = (\<lambda>_. 0), k_vec_i64 = (\<lambda>_. Inr []), k_vec_f64 = (\<lambda>_. Inr []),
     k_vec_string = (\<lambda>_. Inr []), k_vec_u8 = (\<lambda>_. Inr []), k_vec_i32 = (\<lambda>_. Inr []), k_vec_i16 = (\<lambda>_. Inr []),
     k_vec_bool = (\<lambda>_. Inr []), k_vec_f32 = (\<lambda>_. Inr []),
     k_vec_k = (\<lambda>k. case k of Inl _ \<Rightarrow> Inl (KdbError ''type'') | Inr xs \<Rightarrow> Inr (map Inl xs)), k_get_dictionary = Inr,
     k_get_symbol = (\<lambda>_. Inr []), k_get_long = (\<lambda>_. Inr 0), k_get_float = (\<lambda>_. Inr NaN), k_get_int = (\<lambda>_. Inr 0),
     k_get_bool = (\<lambda>_. Inr False), k_get_real = (\<lambda>_. Inr NaN), k_get_error_string = (\<lambda>_. Inr []), k_new_long = (\<lambda>_. Inl 0),
     k_new_float = (\<lambda>_. Inl 0), k_new_symbol = (\<lambda>_. Inl 0), k_new_byte = (\<lambda>_. Inl 0), k_new_int = (\<lambda>_. Inl 0), k_new_short = (\<lambda>_. Inl 0),
     k_new_bool = (\<lambda>_. Inl 0), k_new_real = (\<lambda>_. Inl 0), k_error_display = (\<lambda>_. [])\<rparr>"

text \<open>Two rows of three values each.\<close>

theorem kdb_columns_exact_witness:
  "k_rows_to_columns pair_lib [Inr [1, 2, 3], Inr [4, 5, 6]] = Inr [[Inl 1, Inl 4], [Inl 2, Inl 5], [Inl 3, Inl 6]]"
proof -
  let ?rows = "[Inr [1, 2, 3], Inr [4, 5, 6]] :: (nat + nat list) list"
  let ?rs = "[[Inl 1, Inl 2, Inl 3], [Inl 4, Inl 5, Inl 6]] :: (nat + nat list) list list"
  have k: "k_vec_k pair_lib (Inr xs) = Inr (map Inl xs)" for xs by (simp add: pair_lib_def)
  have v: "map (k_vec_k pair_lib) ?rows = map Inr rs \<longleftrightarrow> rs = ?rs" for rs :: "(nat + nat list) list list"
    by (simp add: k eq_commute[of "Inr _ # _"] map_eq_Cons_conv)
  note columns = kdb_columns_exact[where lib = pair_lib and rows = ?rows, unfolded v]
  show ?thesis
  proof (cases "k_rows_to_columns pair_lib ?rows")
    case (Inl e)
    with columns show ?thesis by (simp add: k)
  next
    case (Inr columns')
    have "[0..<3] = [0, 1, 2 :: nat]" by (simp add: upt_rec)
    with columns Inr show ?thesis by auto
  qed
qed

section \<open>Symbols\<close>

text \<open>
  The literal of a symbol is the symbol between quotes, with every quote and backslash in it escaped by a
  backslash; distinct symbols have distinct literals. How q reads the text is not modelled.
\<close>

definition escape :: "u8 \<Rightarrow> bytes" where
  "escape b = (if b = backslash then [backslash, backslash] else if b = quote then [backslash, quote] else [b])"

lemma q_string_literal_escape: "q_string_literal s = [quote] @ concat (map escape s) @ [quote]"
  by (simp add: q_string_literal_def replace_byte_def, induction s) (auto simp: escape_def)

lemma q_string_literal_inj: "q_string_literal s = q_string_literal t \<longleftrightarrow> s = t"
proof -
  have "concat (map escape s) @ [quote] = concat (map escape t) @ [quote] \<Longrightarrow> s = t"
  proof (induction s arbitrary: t)
    case Nil
    then show ?case by (cases t) (auto simp: escape_def split: if_splits)
  next
    case (Cons b s)
    then show ?case by (cases t) (auto simp: escape_def split: if_splits)
  qed
  then show ?thesis by (auto simp: q_string_literal_escape)
qed

end
