(* ===== verification/Postgres_Sql.thy ===== *)
theory Postgres_Sql
  imports Rust_Strings Nano_Time
begin

text \<open>
  The texts of the PostgreSQL adapter: \<^verbatim>\<open>adapters/postgres/mod.rs\<close>, the trigger of \<^verbatim>\<open>sub.rs\<close> and the
  timestamps of \<^verbatim>\<open>read.rs\<close>. A \<^verbatim>\<open>NaiveDateTime\<close> of the crate \<^verbatim>\<open>chrono\<close> is what the conversions of
  \<^verbatim>\<open>time.rs\<close> use of it, the seconds since the Unix epoch and the nanoseconds of the second; how it is
  rendered is an argument.

  A quoted table name is read back by SQL as its segments, whatever they contain
  (\<open>quote_table_reads_back\<close>). Masking the password replaces whole words and no others
  (\<open>redacted_words\<close>), so a quoted password with a space in it is not masked as a whole
  (\<open>redacted_leaks\<close>). A time survives the conversion to a date and back up to the year 2262
  (\<open>naive_roundtrip\<close>).
\<close>

section \<open>Whitespace\<close>

text \<open>The length of the whitespace character at the head of a text in UTF-8, 0 if there is none.\<close>

fun ws_len :: "bytes \<Rightarrow> nat" where
  "ws_len [] = 0"
| "ws_len (b # bs) =
     (if b = 32 \<or> 9 \<le> b \<and> b \<le> 13 then 1
      else (case bs of
          [] \<Rightarrow> 0
        | c # cs \<Rightarrow>
            if b = 0xC2 \<and> (c = 0x85 \<or> c = 0xA0) then 2
            else (case cs of
                [] \<Rightarrow> 0
              | d # _ \<Rightarrow>
                  if b = 0xE1 \<and> c = 0x9A \<and> d = 0x80 \<or>
                     b = 0xE2 \<and> c = 0x80 \<and> (0x80 \<le> d \<and> d \<le> 0x8A \<or> d = 0xA8 \<or> d = 0xA9 \<or> d = 0xAF) \<or>
                     b = 0xE2 \<and> c = 0x81 \<and> d = 0x9F \<or> b = 0xE3 \<and> c = 0x80 \<and> d = 0x80
                  then 3 else 0)))"

declare ws_len.simps [simp del]

text \<open>\<^verbatim>\<open>split_whitespace\<close>; \<open>cur\<close> is the word that is being read.\<close>

function ws_words :: "bytes \<Rightarrow> bytes \<Rightarrow> bytes list" where
  "ws_words cur [] = (if cur = [] then [] else [cur])"
| "ws_words cur (b # bs) =
     (if ws_len (b # bs) = 0 then ws_words (cur @ [b]) bs
      else (if cur = [] then [] else [cur]) @ ws_words [] (drop (ws_len (b # bs)) (b # bs)))"
  by pat_completeness auto
termination by (relation "measure (length \<circ> snd)") auto

definition split_whitespace :: "bytes \<Rightarrow> bytes list" where
  "split_whitespace s = ws_words [] s"

definition eq_ignore_ascii_case :: "bytes \<Rightarrow> bytes \<Rightarrow> bool" where
  "eq_ignore_ascii_case a b \<longleftrightarrow> map to_ascii_lowercase a = map to_ascii_lowercase b"

section \<open>Connections and quoting\<close>

record postgres_connection =
  pc_conn_str :: bytes

definition postgres_connection_new :: "bytes \<Rightarrow> postgres_connection" where
  "postgres_connection_new conn_str = \<lparr>pc_conn_str = conn_str\<rparr>"

definition mask_word :: "bytes \<Rightarrow> bytes" where
  "mask_word kv = (case split_once 61 kv of
       Some (k, _) \<Rightarrow> if eq_ignore_ascii_case k (ascii ''password'') then ascii ''password=***'' else kv
     | None \<Rightarrow> kv)"

definition redacted :: "postgres_connection \<Rightarrow> bytes" where
  "redacted c = join [32] (map mask_word (split_whitespace (pc_conn_str c)))"

definition quote_ident :: "bytes \<Rightarrow> bytes" where
  "quote_ident ident = [34] @ replace_byte 34 [34, 34] ident @ [34]"

definition quote_table :: "bytes \<Rightarrow> bytes" where
  "quote_table tbl = join [46] (map quote_ident (split_on 46 tbl))"

definition postgres_notify_trigger_sql :: "bytes \<Rightarrow> bytes \<Rightarrow> bytes" where
  "postgres_notify_trigger_sql tbl channel =
     (let table_sql = quote_table tbl;
          fn_ident = quote_ident (channel @ ascii ''_notify_fn'');
          trg_ident = quote_ident (channel @ ascii ''_notify_trg'');
          chan_literal = replace_byte 39 [39, 39] channel
      in ascii ''CREATE OR REPLACE FUNCTION '' @ fn_ident @ ascii ''() RETURNS trigger LANGUAGE plpgsql AS $$'' @ [10] @
         ascii ''BEGIN'' @ [10] @
         ascii ''  PERFORM pg_notify('' @ [39] @ chan_literal @ [39] @ ascii '', '' @ [39, 39] @ ascii '');'' @ [10] @
         ascii ''  RETURN NULL;'' @ [10] @
         ascii ''END $$;'' @ [10] @
         ascii ''DROP TRIGGER IF EXISTS '' @ trg_ident @ ascii '' ON '' @ table_sql @ ascii '';'' @ [10] @
         ascii ''CREATE TRIGGER '' @ trg_ident @ ascii '' AFTER INSERT ON '' @ table_sql @ [10] @
         ascii ''FOR EACH STATEMENT EXECUTE FUNCTION '' @ fn_ident @ ascii ''();'')"

section \<open>Timestamps\<close>

type_synonym naive = "i64 \<times> u32"

definition nano_to_naive :: "nanotime \<Rightarrow> naive" where
  "nano_to_naive t = (ucast (raw t div 1000000000), ucast (raw t mod 1000000000))"

text \<open>\<^verbatim>\<open>timestamp_nanos_opt\<close>: \<open>None\<close>, here a panic, outside the signed 64-bit range.\<close>

definition timestamp_nanos_opt :: "naive \<Rightarrow> i64 option" where
  "timestamp_nanos_opt d = (let n = sint (fst d) * 1000000000 + uint (snd d) in
     if - (2 ^ 63) \<le> n \<and> n < 2 ^ 63 then Some (word_of_int n) else None)"

definition naive_to_nano :: "naive \<Rightarrow> nanotime option" where
  "naive_to_nano d = map_option (\<lambda>n. NanoTime (ucast n)) (timestamp_nanos_opt d)"

definition postgres_timestamp :: "(naive \<Rightarrow> bytes) \<Rightarrow> nanotime \<Rightarrow> bytes" where
  "postgres_timestamp format time = format (nano_to_naive time)"

text \<open>
  \<^verbatim>\<open>get_nanotime\<close>, by index or by name. What the client reads of a column at the types
  \<^verbatim>\<open>NaiveDateTime\<close> and \<^verbatim>\<open>DateTime<Utc>\<close> are the arguments.
\<close>

definition get_nanotime :: "('r \<Rightarrow> nat \<Rightarrow> anyhow + naive) \<Rightarrow> ('r \<Rightarrow> nat \<Rightarrow> anyhow + naive) \<Rightarrow> 'r \<Rightarrow> nat \<Rightarrow> (anyhow + nanotime) option" where
  "get_nanotime get_naive get_utc r idx = (case get_naive r idx of
       Inr dt \<Rightarrow> map_option Inr (naive_to_nano dt)
     | Inl _ \<Rightarrow> (case get_utc r idx of
         Inl e \<Rightarrow> Some (Inl (ErrorContext ''column is not a timestamp/timestamptz'' e))
       | Inr dt \<Rightarrow> map_option Inr (naive_to_nano dt)))"

definition get_nanotime_named :: "('r \<Rightarrow> bytes \<Rightarrow> anyhow + naive) \<Rightarrow> ('r \<Rightarrow> bytes \<Rightarrow> anyhow + naive) \<Rightarrow> 'r \<Rightarrow> bytes \<Rightarrow>
    (anyhow + nanotime) option" where
  "get_nanotime_named get_naive get_utc r name = (case get_naive r name of
       Inr dt \<Rightarrow> map_option Inr (naive_to_nano dt)
     | Inl _ \<Rightarrow> (case get_utc r name of
         Inl e \<Rightarrow> Some (Inl (ErrorContext ''column is not a timestamp/timestamptz'' e))
       | Inr dt \<Rightarrow> map_option Inr (naive_to_nano dt)))"

text \<open>Up to the year 2262 a time survives the conversion; later times do not convert back.\<close>

lemma naive_roundtrip:
  "naive_to_nano (nano_to_naive t) = (if raw t < 2 ^ 63 then Some t else None)"
proof -
  obtain u where t: "t = NanoTime u" by (cases t)
  have u: "0 \<le> uint u" "uint u < 2 ^ 64" using uint_lt2p[of u] by simp_all
  then have "0 \<le> uint u div 1000000000" "uint u div 1000000000 < 2 ^ 63" by (simp_all add: pos_imp_zdiv_nonneg_iff)
  then have "sint (u div 1000000000) = uint u div 1000000000"
    unfolding sint_uint uint_div by (subst signed_take_bit_int_eq_self) auto
  moreover have "uint (ucast (u mod 1000000000) :: u32) = uint u mod 1000000000"
    using u by (simp add: unsigned_ucast_eq uint_mod take_bit_int_eq_self)
  ultimately have "sint (fst (nano_to_naive t)) * 1000000000 + uint (snd (nano_to_naive t)) = uint u"
    by (simp add: nano_to_naive_def t)
  moreover have "- (2 ^ 63) \<le> uint u" using order_trans[OF _ u(1)] by simp
  ultimately show ?thesis
    by (simp add: naive_to_nano_def timestamp_nanos_opt_def Let_def t word_less_def)
qed

section \<open>Reading a quoted name\<close>

text \<open>How SQL reads a quoted identifier, and names separated by dots: what is read, and the rest.\<close>

fun read_quoted :: "bytes \<Rightarrow> (bytes \<times> bytes) option" where
  "read_quoted [] = None"
| "read_quoted (b # rest) =
     (if b \<noteq> 34 then map_option (\<lambda>(s, r). (b # s, r)) (read_quoted rest)
      else (case rest of
          c # rest' \<Rightarrow> if c = 34 then map_option (\<lambda>(s, r). (c # s, r)) (read_quoted rest') else Some ([], rest)
        | [] \<Rightarrow> Some ([], [])))"

fun read_names :: "nat \<Rightarrow> bytes \<Rightarrow> (bytes list \<times> bytes) option" where
  "read_names (Suc n) (b # s) = (if b \<noteq> 34 then None else case read_quoted s of
       None \<Rightarrow> None
     | Some (x, c # rest) \<Rightarrow>
         if c = 46 then map_option (\<lambda>(xs, r). (x # xs, r)) (read_names n rest) else Some ([x], c # rest)
     | Some (x, []) \<Rightarrow> Some ([x], []))"
| "read_names _ _ = None"

lemma read_quoted_body:
  "(\<forall>r. rest \<noteq> 34 # r) \<Longrightarrow> read_quoted (replace_byte 34 [34, 34] s @ 34 # rest) = Some (s, rest)"
  by (induction s) (auto simp: replace_byte_def split: list.splits)

lemma read_names_join:
  assumes "xs \<noteq> []" "length xs \<le> n" "\<forall>r. rest \<noteq> 34 # r \<and> rest \<noteq> 46 # r"
  shows "read_names n (join [46] (map quote_ident xs) @ rest) = Some (xs, rest)"
  using assms(1,2)
proof (induction xs arbitrary: n)
  case (Cons x xs)
  obtain m where n: "n = Suc m" using Cons.prems(2) by (cases n) auto
  show ?case
  proof (cases xs)
    case Nil
    with assms(3) n read_quoted_body[of rest x] show ?thesis by (auto simp: quote_ident_def split: list.splits)
  next
    case xs: (Cons y ys)
    define more where "more = join [46] (map quote_ident xs) @ rest"
    have "join [46] (map quote_ident (x # xs)) @ rest = 34 # replace_byte 34 [34, 34] x @ 34 # 46 # more"
      using xs by (simp add: more_def quote_ident_def)
    moreover have "read_names m more = Some (xs, rest)" using Cons.IH[of m] Cons.prems(2) xs n by (simp add: more_def)
    ultimately show ?thesis using n read_quoted_body[of "46 # more" x] by simp
  qed
qed simp

lemma split_on_nonempty: "split_on c s \<noteq> []"
  by (induction s) (auto split: list.splits)

lemma quote_table_reads_back:
  assumes "\<forall>r. rest \<noteq> 34 # r \<and> rest \<noteq> 46 # r"
  shows "\<exists>n. read_names n (quote_table tbl @ rest) = Some (split_on 46 tbl, rest)"
  unfolding quote_table_def using read_names_join[OF split_on_nonempty order_refl assms] by blast

section \<open>Masking\<close>

definition no_ws :: "bytes \<Rightarrow> bool" where
  "no_ws w \<longleftrightarrow> (\<forall>k < length w. ws_len (drop k w) = 0)"

text \<open>A space never completes a whitespace character that began before it.\<close>

lemma ws_len_space: "w \<noteq> [] \<Longrightarrow> ws_len w = 0 \<Longrightarrow> ws_len (w @ 32 # r) = 0"
  by (cases w rule: ws_len.cases) (auto simp: ws_len.simps split: list.splits if_splits)

lemma no_ws_Cons: "no_ws (b # w) \<longleftrightarrow> ws_len (b # w) = 0 \<and> no_ws w"
  by (auto simp: no_ws_def less_Suc_eq_0_disj)

lemma ws_words_word: "no_ws w \<Longrightarrow> ws_words cur w = (if cur @ w = [] then [] else [cur @ w])"
  by (induction w arbitrary: cur) (auto simp: no_ws_Cons)

lemma ws_words_space: "no_ws w \<Longrightarrow> cur @ w \<noteq> [] \<Longrightarrow> ws_words cur (w @ 32 # r) = (cur @ w) # ws_words [] r"
proof (induction w arbitrary: cur)
  case Nil
  then show ?case by (simp add: ws_len.simps)
next
  case (Cons b w)
  with ws_len_space[of "b # w" r] show ?case by (simp add: no_ws_Cons)
qed

lemma split_join_words: "\<forall>w \<in> set ws. no_ws w \<and> w \<noteq> [] \<Longrightarrow> split_whitespace (join [32] ws) = ws"
proof (induction ws)
  case (Cons w ws)
  then show ?case by (cases ws) (simp_all add: split_whitespace_def ws_words_word ws_words_space)
qed (simp add: split_whitespace_def)

lemma ws_len_prefix:
  assumes "ws_len (s @ rest) = 0"
  shows "ws_len s = 0"
proof -
  consider "s = []" | b where "s = [b]" | b c where "s = [b, c]" | b c d s' where "s = b # c # d # s'"
    by (cases s; cases "tl s"; cases "tl (tl s)") auto
  then show ?thesis using assms by cases (simp_all add: ws_len.simps split: if_splits)
qed

lemma ws_len_ascii: "32 < b \<Longrightarrow> b < 0x80 \<Longrightarrow> ws_len (b # bs) = 0"
  by (simp add: ws_len.simps word_less_nat_alt word_le_nat_alt split: list.splits) (auto simp: word_less_nat_alt)

lemma no_ws_ascii: "\<forall>b \<in> set w. 32 < b \<and> b < 0x80 \<Longrightarrow> no_ws w"
  by (induction w) (simp_all add: no_ws_Cons ws_len_ascii, simp add: no_ws_def)

lemma ws_words_no_ws:
  "\<forall>k < length cur. ws_len (drop k cur @ s) = 0 \<Longrightarrow> w \<in> set (ws_words cur s) \<Longrightarrow> no_ws w \<and> w \<noteq> []"
proof (induction cur s rule: ws_words.induct)
  case (1 cur)
  then show ?case by (auto simp: no_ws_def split: if_splits)
next
  case (2 cur b bs)
  show ?case
  proof (cases "ws_len (b # bs) = 0")
    case True
    then have "\<forall>k < length (cur @ [b]). ws_len (drop k (cur @ [b]) @ bs) = 0"
      using 2(3) by (auto simp: less_Suc_eq)
    from 2(1)[OF True this] 2(4) True show ?thesis by simp
  next
    case False
    have "no_ws cur" using 2(3) ws_len_prefix by (auto simp: no_ws_def)
    with 2(2)[OF False] 2(4) False show ?thesis by (auto split: if_splits)
  qed
qed

lemma masked_no_ws: "no_ws (ascii ''password=***'') \<and> ascii ''password=***'' \<noteq> []"
  by (auto intro!: no_ws_ascii simp: ascii_def)

text \<open>Redaction masks every word whose key is \<^verbatim>\<open>password\<close> and keeps the others.\<close>

lemma redacted_words:
  "split_whitespace (redacted c) = map mask_word (split_whitespace (pc_conn_str c))"
proof -
  have "no_ws (mask_word w) \<and> mask_word w \<noteq> []" if "w \<in> set (split_whitespace (pc_conn_str c))" for w
    using that ws_words_no_ws[of "[]" "pc_conn_str c" w] masked_no_ws
    by (auto simp: split_whitespace_def mask_word_def split: option.splits)
  then show ?thesis unfolding redacted_def by (intro split_join_words) auto
qed

text \<open>The client also takes a quoted value, which may hold a space; then the words are not the fields.\<close>

lemma redacted_leaks:
  "redacted (postgres_connection_new (ascii ''host=h password='' @ [39] @ ascii ''my secret'' @ [39])) =
    ascii ''host=h password=*** secret'' @ [39]"
  by code_simp

end
