(* ===== verification/Postgres.thy ===== *)
theory Postgres
  imports Window_Reader Postgres_Sql
begin

text \<open>
  The PostgreSQL adapter: \<^verbatim>\<open>adapters/postgres/read.rs\<close>, \<^verbatim>\<open>sub.rs\<close> and \<^verbatim>\<open>write.rs\<close>. The crate
  \<^verbatim>\<open>tokio_postgres\<close> is a parameter: \<open>connect\<close> gives the state of a client, \<open>ask\<close> is \<^verbatim>\<open>Client::query\<close>,
  and so on; the conversion of rows and the function that makes the queries belong to the user. Of
  the error messages the rendered values are left out. The stream of a read
  is the list of the items it yields. The subscription is a step machine: the table of the server, the
  messages on the connection, the spawned task with its channel, and the subscriber with the phase it
  is in and what it has yielded so far (\<open>pg_world\<close>); each step (\<open>pg_event\<close>) is one action of one of
  them, and a run is any sequence of steps.

  A historical read yields rows of the run's window in time order whatever the server answers
  (\<open>pg_stream_safe\<close>), and exactly the rows of the table in the window where the server holds one
  (\<open>postgres_read_func_served\<close>, \<open>postgres_read_exact\<close>). The subscription misses no row and repeats none,
  in whatever order the steps come (\<open>postgres_sub_exactly_once\<close>). The writer prepares one
  statement and sends every record once, in order and with its time (\<open>pg_write_requests\<close>).
\<close>

section \<open>The historical reader\<close>

type_synonym ('r, 'a) from_pg_row = "'r \<Rightarrow> anyhow + nanotime \<times> 'a"

text \<open>The items of one slice, the time of the last row, and whether the stream goes on.\<close>

fun pg_rows :: "('r, 'a) from_pg_row \<Rightarrow> 'r list \<Rightarrow> nanotime option \<Rightarrow> window_filter \<Rightarrow>
    (anyhow + nanotime \<times> 'a) list \<times> nanotime option \<times> bool" where
  "pg_rows from_row [] prev_time f = ([], prev_time, True)"
| "pg_rows from_row (r # rs) prev_time f = (case from_row r of
       Inl e \<Rightarrow> ([Inl e], prev_time, False)
     | Inr (time, record) \<Rightarrow> (case window_filter_keep time f of
           (f', False) \<Rightarrow> pg_rows from_row rs prev_time f'
         | (f', True) \<Rightarrow>
             if (case prev_time of Some prev \<Rightarrow> time < prev | None \<Rightarrow> False)
             then ([Inl (Anyhow ''postgres data is not sorted by time'')], prev_time, False)
             else (case pg_rows from_row rs (Some time) f' of
                 (items, res) \<Rightarrow> (Inr (time, record) # items, res))))"

fun pg_stream :: "('r, 'a) from_pg_row \<Rightarrow> ('s \<Rightarrow> bytes \<Rightarrow> 's \<times> (anyhow + 'r list)) \<Rightarrow>
    ('q \<Rightarrow> nanotime \<times> nanotime \<Rightarrow> i32 \<Rightarrow> nat \<Rightarrow> 'q \<times> bytes) \<Rightarrow> nanotime \<Rightarrow> nanotime \<Rightarrow> slice list \<Rightarrow>
    's \<Rightarrow> 'q \<Rightarrow> nanotime option \<Rightarrow> (anyhow + nanotime \<times> 'a) list" where
  "pg_stream from_row ask query_fn start_time end_time [] client q prev_time = []"
| "pg_stream from_row ask query_fn start_time end_time (((t0, t1), date, iteration) # slices) client q prev_time =
     (case query_fn q (t0, t1) date iteration of (q', query) \<Rightarrow> (case ask client query of
         (client', Inl e) \<Rightarrow> [Inl (ErrorContext ''postgres query failed'' e)]
       | (client', Inr rows) \<Rightarrow>
           (case pg_rows from_row rows prev_time (window_filter_new ''postgres_read'' (tw_clamp t0 t1 start_time end_time)) of
              (items, prev_time', go_on) \<Rightarrow> items @
                (if go_on then pg_stream from_row ask query_fn start_time end_time slices client' q' prev_time' else []))))"

text \<open>The function given to \<^verbatim>\<open>produce_async\<close>. A panic is \<open>None\<close>.\<close>

definition postgres_read_func :: "('r, 'a) from_pg_row \<Rightarrow> (bytes \<Rightarrow> anyhow + 's) \<Rightarrow> ('s \<Rightarrow> bytes \<Rightarrow> 's \<times> (anyhow + 'r list)) \<Rightarrow>
    postgres_connection \<Rightarrow> duration \<Rightarrow> ('q \<Rightarrow> nanotime \<times> nanotime \<Rightarrow> i32 \<Rightarrow> nat \<Rightarrow> 'q \<times> bytes) \<Rightarrow> 'q \<Rightarrow> run_params \<Rightarrow>
    (anyhow + (anyhow + nanotime \<times> 'a) list) option" where
  "postgres_read_func from_row connect ask connection period query_fn q ctx =
     (let start_time = rp_start_time ctx; end_time_result = rp_end_time ctx in
      case compute_validated_time_slices ''postgres_read'' start_time end_time_result period of
        None \<Rightarrow> None
      | Some (Inl e) \<Rightarrow> Some (Inl e)
      | Some (Inr slices) \<Rightarrow> (case end_time_result of
          Inl _ \<Rightarrow> None
        | Inr end_time \<Rightarrow> (case connect (pc_conn_str connection) of
            Inl e \<Rightarrow> Some (Inl (ErrorContext ''postgres_read: failed to connect'' e))
          | Inr client \<Rightarrow> Some (Inr (pg_stream from_row ask query_fn start_time end_time slices client q None)))))"

section \<open>The subscription\<close>

datatype async_message = Notification | OtherMessage

text \<open>
  What the function of \<^verbatim>\<open>postgres_sub\<close> captures, with the crate \<^verbatim>\<open>tokio_postgres\<close> and the user's code
  as parameters: \<open>se_serve T query\<close> is how the server answers a query while the table holds the rows \<open>T\<close>.
\<close>

record ('r, 'q, 'a) pg_sub_env =
  se_run_mode :: run_mode
  se_connect :: "bytes \<Rightarrow> anyhow + unit"
  se_batch_execute :: "bytes \<Rightarrow> anyhow + unit"
  se_serve :: "(nanotime \<times> 'a) list \<Rightarrow> bytes \<Rightarrow> anyhow + 'r list"
  se_from_row :: "('r, 'a) from_pg_row"
  se_query_fn :: "'q \<Rightarrow> nanotime \<Rightarrow> 'q \<times> bytes"
  se_connection :: postgres_connection
  se_channel :: bytes

text \<open>
  Where the subscriber's code stands: before \<^verbatim>\<open>connect\<close>, before \<^verbatim>\<open>LISTEN\<close>, before a query, in
  \<^verbatim>\<open>rx.next().await\<close>, in the loop over \<^verbatim>\<open>rx.try_recv()\<close>, after the stream's end, or after the function
  failed and no stream was made.
\<close>

datatype pg_phase = Connecting | Listening | Querying | Waiting | Draining | Ended | SetupFailed anyhow

text \<open>
  The state the threads share: the rows of the table, the connection (whether the server sends
  notifications, whether it is open, its unread messages), the task that drives it (\<open>wd_task\<close>: it
  runs, and so holds \<^verbatim>\<open>tx\<close>), the number of wake-ups in the channel, and the subscriber with its
  cursor and the items yielded so far.
\<close>

record ('q, 'a) pg_world =
  wd_table :: "(nanotime \<times> 'a) list"
  wd_notify :: bool
  wd_open :: bool
  wd_messages :: "(anyhow + async_message) list"
  wd_task :: bool
  wd_queue :: nat
  wd_phase :: pg_phase
  wd_cursor :: nanotime
  wd_query :: 'q
  wd_out :: "(anyhow + nanotime \<times> 'a) list"

definition pg_world_new :: "(nanotime \<times> 'a) list \<Rightarrow> nanotime \<Rightarrow> 'q \<Rightarrow> ('q, 'a) pg_world" where
  "pg_world_new T start_from q = \<lparr>wd_table = T, wd_notify = False, wd_open = False, wd_messages = [], wd_task = False,
     wd_queue = 0, wd_phase = Connecting, wd_cursor = start_from, wd_query = q, wd_out = []\<rparr>"

text \<open>One message of the task that drives the connection. \<^verbatim>\<open>rx\<close> is dropped with the stream.\<close>

definition pg_forward :: "('q, 'a) pg_world \<Rightarrow> ('q, 'a) pg_world" where
  "pg_forward w = (if \<not> wd_task w then w else case wd_messages w of
       [] \<Rightarrow> if wd_open w then w else w\<lparr>wd_task := False\<rparr>
     | Inr Notification # ms \<Rightarrow>
         if wd_phase w = Ended then w\<lparr>wd_messages := ms, wd_task := False\<rparr>
         else w\<lparr>wd_messages := ms, wd_queue := Suc (wd_queue w)\<rparr>
     | Inr OtherMessage # ms \<Rightarrow> w\<lparr>wd_messages := ms\<rparr>
     | Inl e # ms \<Rightarrow> w\<lparr>wd_messages := ms, wd_task := False\<rparr>)"

definition listen_sql :: "bytes \<Rightarrow> bytes" where
  "listen_sql channel = ascii ''LISTEN '' @ quote_ident channel"

definition pg_sub_connect :: "('r, 'q, 'a) pg_sub_env \<Rightarrow> ('q, 'a) pg_world \<Rightarrow> ('q, 'a) pg_world" where
  "pg_sub_connect env w =
     (if se_run_mode env \<noteq> RealTime
      then w\<lparr>wd_phase := SetupFailed (Anyhow ''postgres_sub requires RunMode::RealTime; use postgres_read for historical replay'')\<rparr>
      else case se_connect env (pc_conn_str (se_connection env)) of
        Inl e \<Rightarrow> w\<lparr>wd_phase := SetupFailed (ErrorContext ''postgres_sub: failed to connect'' e)\<rparr>
      | Inr _ \<Rightarrow> w\<lparr>wd_open := True, wd_task := True, wd_phase := Listening\<rparr>)"

definition pg_sub_listen :: "('r, 'q, 'a) pg_sub_env \<Rightarrow> ('q, 'a) pg_world \<Rightarrow> ('q, 'a) pg_world" where
  "pg_sub_listen env w = (case se_batch_execute env (listen_sql (se_channel env)) of
       Inl e \<Rightarrow> w\<lparr>wd_phase := SetupFailed (ErrorContext ''postgres_sub: LISTEN failed'' e)\<rparr>
     | Inr _ \<Rightarrow> w\<lparr>wd_notify := True, wd_phase := Querying\<rparr>)"

fun pg_sub_rows :: "('r, 'a) from_pg_row \<Rightarrow> 'r list \<Rightarrow> nanotime \<Rightarrow> (anyhow + nanotime \<times> 'a) list \<times> nanotime \<times> bool" where
  "pg_sub_rows from_row [] cursor = ([], cursor, True)"
| "pg_sub_rows from_row (r # rs) cursor = (case from_row r of
       Inl e \<Rightarrow> ([Inl e], cursor, False)
     | Inr (time, record) \<Rightarrow> (case pg_sub_rows from_row rs (if cursor < time then time else cursor) of
           (items, res) \<Rightarrow> (Inr (time, record) # items, res)))"

definition pg_sub_query :: "('r, 'q, 'a) pg_sub_env \<Rightarrow> ('q, 'a) pg_world \<Rightarrow> ('q, 'a) pg_world" where
  "pg_sub_query env w = (case se_query_fn env (wd_query w) (wd_cursor w) of (q', query) \<Rightarrow>
     (case se_serve env (wd_table w) query of
        Inl e \<Rightarrow> w\<lparr>wd_query := q', wd_phase := Ended, wd_out := wd_out w @ [Inl (ErrorContext ''postgres_sub query failed'' e)]\<rparr>
      | Inr rows \<Rightarrow> (case pg_sub_rows (se_from_row env) rows (wd_cursor w) of (items, cursor, go_on) \<Rightarrow>
          w\<lparr>wd_query := q', wd_cursor := cursor, wd_out := wd_out w @ items, wd_phase := if go_on then Waiting else Ended\<rparr>)))"

text \<open>\<^verbatim>\<open>rx.next().await\<close>: pending while the channel is empty and its sender lives.\<close>

definition pg_sub_wait :: "('q, 'a) pg_world \<Rightarrow> ('q, 'a) pg_world" where
  "pg_sub_wait w = (if wd_queue w \<noteq> 0 then w\<lparr>wd_queue := wd_queue w - 1, wd_phase := Draining\<rparr>
     else if wd_task w then w
     else w\<lparr>wd_phase := Ended, wd_out := wd_out w @ [Inl (Anyhow ''postgres_sub: connection to postgres closed'')]\<rparr>)"

text \<open>One call of \<^verbatim>\<open>rx.try_recv()\<close>.\<close>

definition pg_sub_drain :: "('q, 'a) pg_world \<Rightarrow> ('q, 'a) pg_world" where
  "pg_sub_drain w = (if wd_queue w \<noteq> 0 then w\<lparr>wd_queue := wd_queue w - 1\<rparr> else w\<lparr>wd_phase := Querying\<rparr>)"

definition pg_poll :: "('r, 'q, 'a) pg_sub_env \<Rightarrow> ('q, 'a) pg_world \<Rightarrow> ('q, 'a) pg_world" where
  "pg_poll env w = (case wd_phase w of
       Connecting \<Rightarrow> pg_sub_connect env w
     | Listening \<Rightarrow> pg_sub_listen env w
     | Querying \<Rightarrow> pg_sub_query env w
     | Waiting \<Rightarrow> pg_sub_wait w
     | Draining \<Rightarrow> pg_sub_drain w
     | Ended \<Rightarrow> w
     | SetupFailed e \<Rightarrow> w)"

text \<open>
  Steps of the other parties: a committed insert appends rows and, once the server has the
  \<^verbatim>\<open>LISTEN\<close>, puts a notification into the connection; the server may send other messages, and errors,
  and close the connection.
\<close>

datatype 'a pg_event = Insert "(nanotime \<times> 'a) list" | Arrives "anyhow + async_message" | Disconnect | Forward | Poll

fun pg_event_step :: "('r, 'q, 'a) pg_sub_env \<Rightarrow> ('q, 'a) pg_world \<Rightarrow> 'a pg_event \<Rightarrow> ('q, 'a) pg_world" where
  "pg_event_step env w (Insert rows) = w\<lparr>wd_table := wd_table w @ rows,
     wd_messages := wd_messages w @ (if wd_notify w \<and> wd_open w then [Inr Notification] else [])\<rparr>"
| "pg_event_step env w (Arrives m) = w\<lparr>wd_messages := wd_messages w @ (if wd_open w then [m] else [])\<rparr>"
| "pg_event_step env w Disconnect = w\<lparr>wd_open := False\<rparr>"
| "pg_event_step env w Forward = pg_forward w"
| "pg_event_step env w Poll = pg_poll env w"

definition pg_run :: "('r, 'q, 'a) pg_sub_env \<Rightarrow> ('q, 'a) pg_world \<Rightarrow> 'a pg_event list \<Rightarrow> ('q, 'a) pg_world" where
  "pg_run env = foldl (pg_event_step env)"

section \<open>The writer\<close>

record ('s, 't, 'p, 'a) pg_writer =
  pw_connect :: "bytes \<Rightarrow> anyhow + 's"
  pw_prepare :: "'s \<Rightarrow> bytes \<Rightarrow> 's \<times> (anyhow + 't)"
  pw_execute_all :: "'s \<Rightarrow> 't \<Rightarrow> 'p list list \<Rightarrow> 's \<times> (anyhow + unit)" \<comment> \<open>\<^verbatim>\<open>try_join_all\<close> of one \<^verbatim>\<open>execute\<close> per row\<close>
  pw_to_params :: "'a \<Rightarrow> 'p list"
  pw_time :: "naive \<Rightarrow> 'p"

datatype ('t, 'p) pg_request = Prepare bytes | Execute 't "'p list list"

definition insert_sql :: "bytes \<Rightarrow> nat \<Rightarrow> bytes" where
  "insert_sql table_sql n = ascii ''INSERT INTO '' @ table_sql @ ascii '' VALUES ('' @
     join (ascii '', '') (map (\<lambda>i. 36 # decimal i) [1..<Suc n]) @ ascii '')''"

text \<open>The requests sent, and the result.\<close>

fun pg_write_loop :: "('s, 't, 'p, 'a) pg_writer \<Rightarrow> bytes \<Rightarrow> (nanotime \<times> 'a list) list \<Rightarrow> 't option \<Rightarrow> 's \<Rightarrow>
    ('t, 'p) pg_request list \<times> (anyhow + unit)" where
  "pg_write_loop env table_sql [] prepared client = ([], Inr ())"
| "pg_write_loop env table_sql ((time, batch) # source) prepared client =
     (if batch = [] then pg_write_loop env table_sql source prepared client
      else
        let ts = pw_time env (nano_to_naive time);
            rows = map (pw_to_params env) batch;
            n = length (hd rows) + 1;
            sql = insert_sql table_sql n
        in case (case prepared of
               Some s \<Rightarrow> (client, [], Inr s)
             | None \<Rightarrow> (case pw_prepare env client sql of (client', res) \<Rightarrow> (client', [Prepare sql], res))) of
             (client', sent, Inl e) \<Rightarrow> (sent, Inl (ErrorContext ''postgres_write: failed to prepare'' e))
           | (client', sent, Inr stmt) \<Rightarrow>
               let request = map (Cons ts) rows in
               (case pw_execute_all env client' stmt request of
                  (client'', Inl e) \<Rightarrow> (sent @ [Execute stmt request], Inl (ErrorContext ''postgres_write: insert failed'' e))
                | (client'', Inr _) \<Rightarrow> (case pg_write_loop env table_sql source (Some stmt) client'' of
                    (later, res) \<Rightarrow> (sent @ Execute stmt request # later, res))))"

definition postgres_write_consumer :: "('s, 't, 'p, 'a) pg_writer \<Rightarrow> postgres_connection \<Rightarrow> bytes \<Rightarrow> (nanotime \<times> 'a list) list \<Rightarrow>
    ('t, 'p) pg_request list \<times> (anyhow + unit)" where
  "postgres_write_consumer env connection table_name source = (case pw_connect env (pc_conn_str connection) of
       Inl e \<Rightarrow> ([], Inl (ErrorContext ''postgres_write: failed to connect'' e))
     | Inr client \<Rightarrow> pg_write_loop env (quote_table table_name) source None client)"

definition postgres_write :: "('s, 't, 'p, 'a) pg_writer \<Rightarrow> postgres_connection \<Rightarrow> bytes \<Rightarrow> 'c \<Rightarrow> node \<Rightarrow>
    ('a list, 'c) async_consumer_node" where
  "postgres_write env connection table_name c upstream =
     async_consumer_new c upstream (\<lambda>ctx source. snd (postgres_write_consumer env connection table_name source))"

section \<open>Reading\<close>

lemma pg_rows_safe:
  assumes "pg_rows from_row rs prev f = (items, prev', ok)"
  shows "\<exists>ks. fails_last ok ks items \<and> sorted (map fst ks) \<and> (\<forall>k \<in> set ks. tw_contains (wf_window f) (fst k)) \<and>
    (\<forall>p k. prev = Some p \<longrightarrow> k \<in> set ks \<longrightarrow> p \<le> fst k) \<and> prev' = (if ks = [] then prev else Some (fst (last ks)))"
  using assms
proof (induction rs arbitrary: prev f items)
  case Nil
  then show ?case by (intro exI[of _ "[]"]) (simp add: fails_last_def)
next
  case (Cons r rs)
  show ?case
  proof (cases "from_row r")
    case (Inl e)
    with Cons.prems show ?thesis by (intro exI[of _ "[]"]) (auto simp: fails_last_def)
  next
    case (Inr x)
    obtain t v where x: "x = (t, v)" by (cases x)
    obtain f' b where k: "window_filter_keep t f = (f', b)" "wf_window f' = wf_window f" "b \<longleftrightarrow> tw_contains (wf_window f) t"
      by (cases "tw_contains (wf_window f) t") (simp_all add: window_filter_keep_def)
    show ?thesis
    proof (cases b)
      case False
      with Cons.prems Inr x k have "pg_rows from_row rs prev f' = (items, prev', ok)" by simp
      from Cons.IH[OF this] k(2) show ?thesis by simp
    next
      case b: True
      show ?thesis
      proof (cases "case prev of Some p \<Rightarrow> t < p | None \<Rightarrow> False")
        case True
        with Cons.prems Inr x k b show ?thesis by (intro exI[of _ "[]"]) (auto simp: fails_last_def)
      next
        case False
        obtain items' where it: "pg_rows from_row rs (Some t) f' = (items', prev', ok)" "items = Inr (t, v) # items'"
          using Cons.prems Inr x k b False by (auto split: prod.splits)
        from Cons.IH[OF it(1)] obtain ks where ks: "fails_last ok ks items'" "sorted (map fst ks)"
          "\<forall>k \<in> set ks. tw_contains (wf_window f) (fst k)" "\<forall>k \<in> set ks. t \<le> fst k"
          "prev' = (if ks = [] then Some t else Some (fst (last ks)))" unfolding k(2) by blast
        moreover have "p \<le> fst k" if "prev = Some p" "k \<in> set ((t, v) # ks)" for p k
          using that False ks(4) by (auto intro: order_trans)
        ultimately show ?thesis using it(2) k(3) b
          by (intro exI[of _ "(t, v) # ks"]) (auto simp: fails_last_def split: if_splits)
      qed
    qed
  qed
qed

text \<open>
  Whatever the server, the queries and the conversion do, the rows lie in the run's window and in
  time order, also across slices, and at most one error ends the stream.
\<close>

lemma pg_stream_safe:
  "\<exists>ok ks. fails_last ok ks (pg_stream from_row ask query_fn start e slices client q prev) \<and> sorted (map fst ks) \<and>
    (\<forall>k \<in> set ks. start \<le> fst k \<and> fst k < e) \<and> (\<forall>p k. prev = Some p \<longrightarrow> k \<in> set ks \<longrightarrow> p \<le> fst k)"
proof (induction slices arbitrary: client q prev)
  case Nil
  show ?case by (intro exI[of _ True] exI[of _ "[]"]) (simp add: fails_last_def)
next
  case (Cons s slices)
  obtain t0 t1 date it where s: "s = ((t0, t1), date, it)" by (metis prod_cases3 surj_pair)
  obtain q' query where qu: "query_fn q (t0, t1) date it = (q', query)" by (cases "query_fn q (t0, t1) date it")
  obtain client' res where a: "ask client query = (client', res)" by (cases "ask client query")
  show ?case
  proof (cases res)
    case (Inl err)
    with s qu a show ?thesis by (intro exI[of _ False] exI[of _ "[]"]) (simp add: fails_last_def)
  next
    case (Inr rows)
    let ?f = "window_filter_new ''postgres_read'' (tw_clamp t0 t1 start e)"
    obtain items prev' ok where c: "pg_rows from_row rows prev ?f = (items, prev', ok)" by (metis prod_cases3)
    obtain ks where ks: "fails_last ok ks items" "sorted (map fst ks)" "\<forall>k \<in> set ks. start \<le> fst k \<and> fst k < e"
      "\<forall>p k. prev = Some p \<longrightarrow> k \<in> set ks \<longrightarrow> p \<le> fst k" "prev' = (if ks = [] then prev else Some (fst (last ks)))"
      using pg_rows_safe[OF c] by (auto simp: window_filter_new_def tw_contains_def tw_clamp_def)
    let ?out = "pg_stream from_row ask query_fn start e (s # slices) client q prev"
    show ?thesis
    proof (cases ok)
      case False
      then have "?out = items" using s qu a Inr c by simp
      with ks False show ?thesis by (intro exI[of _ False] exI[of _ ks]) simp
    next
      case True
      let ?more = "pg_stream from_row ask query_fn start e slices client' q' prev'"
      obtain ok' ks' where r: "fails_last ok' ks' ?more" "sorted (map fst ks')" "\<forall>k \<in> set ks'. start \<le> fst k \<and> fst k < e"
        "\<forall>p k. prev' = Some p \<longrightarrow> k \<in> set ks' \<longrightarrow> p \<le> fst k" using Cons.IH[of client' q' prev'] by (elim exE conjE)
      have out: "?out = map Inr ks @ ?more" using s qu a Inr c ks(1) True by (simp add: fails_last_def)
      have le: "fst x \<le> fst y" if "x \<in> set ks" "y \<in> set ks'" for x y
      proof -
        have "fst x \<le> fst (last ks)" using that(1) ks(2) by (cases ks rule: rev_cases) (auto simp: sorted_append)
        moreover have "fst (last ks) \<le> fst y" using that ks(5) r(4)[rule_format, of "fst (last ks)" y] by (cases ks) auto
        ultimately show ?thesis by simp
      qed
      have "p \<le> fst k" if "prev = Some p" "k \<in> set (ks @ ks')" for p k
      proof (cases "ks = []")
        case True
        with that ks(5) r(4)[rule_format, of p k] show ?thesis by simp
      next
        case False
        then have "p \<le> fst (last ks)" using that(1) ks(4)[rule_format, of p "last ks"] by simp
        moreover have "fst (last ks) \<le> fst k" if "k \<in> set ks'" by (rule le[OF last_in_set[OF False] that])
        ultimately show ?thesis using that ks(4)[rule_format, of p k] by (cases "k \<in> set ks") simp_all
      qed
      moreover have "fails_last ok' (ks @ ks') ?out" using r(1) out by (auto simp: fails_last_def split: if_splits)
      moreover have "sorted (map fst (ks @ ks'))" using ks(2) r(2) le by (auto simp: sorted_append)
      ultimately show ?thesis using ks(3) r(3) by (intro exI[of _ ok'] exI[of _ "ks @ ks'"]) auto
    qed
  qed
qed

text \<open>\<open>pg_answers\<close>: the server answers a query by rows that convert to \<open>R\<close>.\<close>

definition pg_answers :: "('r, 'a) from_pg_row \<Rightarrow> ('s \<Rightarrow> bytes \<Rightarrow> 's \<times> (anyhow + 'r list)) \<Rightarrow> bytes \<Rightarrow> (nanotime \<times> 'a) list \<Rightarrow> bool" where
  "pg_answers from_row ask query R \<longleftrightarrow> (\<forall>s. \<exists>s' rs. ask s query = (s', Inr rs) \<and> map from_row rs = map Inr R)"

definition pg_serves :: "('r, 'a) from_pg_row \<Rightarrow> ('s \<Rightarrow> bytes \<Rightarrow> 's \<times> (anyhow + 'r list)) \<Rightarrow>
    ('q \<Rightarrow> nanotime \<times> nanotime \<Rightarrow> i32 \<Rightarrow> nat \<Rightarrow> 'q \<times> bytes) \<Rightarrow> (nanotime \<times> 'a) list \<Rightarrow> bool" where
  "pg_serves from_row ask query_fn T \<longleftrightarrow> sorted (map fst T) \<and>
     (\<forall>q ts date it. \<exists>R. pg_answers from_row ask (snd (query_fn q ts date it)) R \<and> sorted (map fst R) \<and>
        filter (\<lambda>r. fst ts \<le> fst r \<and> fst r < snd ts) R = filter (\<lambda>r. fst ts \<le> fst r \<and> fst r < snd ts) T)"

lemma pg_rows_decoded:
  assumes "map from_row rs = map Inr R" "sorted (map fst R)"
    "\<forall>p r. prev = Some p \<longrightarrow> r \<in> set R \<longrightarrow> tw_contains (wf_window f) (fst r) \<longrightarrow> p \<le> fst r"
  shows "\<exists>prev'. pg_rows from_row rs prev f = (map Inr (filter (\<lambda>r. tw_contains (wf_window f) (fst r)) R), prev', True)"
  using assms
proof (induction rs arbitrary: R prev f)
  case (Cons r rs)
  obtain t v R' where x: "from_row r = Inr (t, v)" "map from_row rs = map Inr R'" "R = (t, v) # R'"
    using Cons.prems(1) by (cases R) auto
  have srt: "sorted (map fst R')" "\<forall>r \<in> set R'. t \<le> fst r" using Cons.prems(2) x(3) by auto
  show ?case
  proof (cases "tw_contains (wf_window f) t")
    case True
    have "\<not> (case prev of Some p \<Rightarrow> t < p | None \<Rightarrow> False)"
      using Cons.prems(3)[rule_format, of _ "(t, v)"] x(3) True by (auto split: option.splits)
    moreover obtain prev' where "pg_rows from_row rs (Some t) f = (map Inr (filter (\<lambda>r. tw_contains (wf_window f) (fst r)) R'), prev', True)"
      using Cons.IH[OF x(2) srt(1), of "Some t" f] srt(2) by blast
    ultimately show ?thesis using True x by (simp add: window_filter_keep_def)
  next
    case False
    from Cons.IH[OF x(2) srt(1), of prev "f\<lparr>wf_dropped := wf_dropped f + 1\<rparr>"] Cons.prems(3) x False
    show ?thesis by (auto simp: window_filter_keep_def)
  qed
qed simp

lemma pg_stream_rows:
  assumes "pg_serves from_row ask query_fn T" "windows_ordered (map (slice_window start e) slices)"
    "\<forall>p s t. prev = Some p \<longrightarrow> s \<in> set slices \<longrightarrow> tw_contains (slice_window start e s) t \<longrightarrow> p \<le> t"
  shows "pg_stream from_row ask query_fn start e slices client q prev =
    map Inr (concat (map (\<lambda>s. filter (\<lambda>r. tw_contains (slice_window start e s) (fst r)) T) slices))"
  using assms(2,3)
proof (induction slices arbitrary: client q prev)
  case (Cons s slices)
  obtain t0 t1 date it where s: "s = ((t0, t1), date, it)" by (metis prod_cases3 surj_pair)
  obtain q' query where qu: "query_fn q (t0, t1) date it = (q', query)" by (cases "query_fn q (t0, t1) date it")
  let ?w = "slice_window start e s" and ?f = "window_filter_new ''postgres_read'' (tw_clamp t0 t1 start e)"
  have w: "?w = tw_clamp t0 t1 start e" "wf_window ?f = ?w" by (simp_all add: s slice_window_def window_filter_new_def)
  obtain R where R: "pg_answers from_row ask query R" "sorted (map fst R)"
    "filter (\<lambda>r. t0 \<le> fst r \<and> fst r < t1) R = filter (\<lambda>r. t0 \<le> fst r \<and> fst r < t1) T"
    using assms(1)[unfolded pg_serves_def, THEN conjunct2, rule_format, of q "(t0, t1)" date it] qu by auto
  have kept: "filter (\<lambda>r. tw_contains ?w (fst r)) R = filter (\<lambda>r. tw_contains ?w (fst r)) T"
    unfolding w(1) by (subst (1 2) clamp_filter) (simp only: R(3))
  obtain client' rs where a: "ask client query = (client', Inr rs)" "map from_row rs = map Inr R"
    using R(1) unfolding pg_answers_def by blast
  have "\<forall>p r. prev = Some p \<longrightarrow> r \<in> set R \<longrightarrow> tw_contains (wf_window ?f) (fst r) \<longrightarrow> p \<le> fst r"
    using Cons.prems(2)[rule_format, of _ s] w(2) by simp
  from pg_rows_decoded[OF a(2) R(2) this] obtain prev' where
    r: "pg_rows from_row rs prev ?f = (map Inr (filter (\<lambda>r. tw_contains ?w (fst r)) T), prev', True)" using w(2) kept by auto
  obtain ks where ks: "fails_last True ks (map Inr (filter (\<lambda>r. tw_contains ?w (fst r)) T) :: (anyhow + nanotime \<times> 'b) list)" "sorted (map fst ks)"
    "\<forall>k \<in> set ks. tw_contains ?w (fst k)" "\<forall>p k. prev = Some p \<longrightarrow> k \<in> set ks \<longrightarrow> p \<le> fst k"
    "prev' = (if ks = [] then prev else Some (fst (last ks)))"
    using pg_rows_safe[OF r] unfolding w(2) by (elim exE conjE)
  from ks(3,5) have "\<forall>p s' t. prev' = Some p \<longrightarrow> s' \<in> set slices \<longrightarrow> tw_contains (slice_window start e s') t \<longrightarrow> p \<le> t"
    using Cons.prems by (cases "ks = []") (auto simp: windows_ordered_def intro: less_imp_le)
  with Cons.IH[of prev' client' q'] Cons.prems(1) have "pg_stream from_row ask query_fn start e slices client' q' prev' =
    map Inr (concat (map (\<lambda>s. filter (\<lambda>r. tw_contains (slice_window start e s) (fst r)) T) slices))" by (simp add: windows_ordered_def)
  with s qu a r show ?case by simp
qed simp

lemma postgres_read_func_served:
  assumes "pg_serves from_row ask query_fn T" "rp_end_time ctx = Inr e" "connect (pc_conn_str connection) = Inr client"
    and "rp_start_time ctx \<noteq> nano_zero" "rp_start_time ctx < e" "raw e < 2 ^ 63"
    and "0 < uint (duration_as_nanos period)" "uint (duration_as_nanos period) \<le> 900000000000000000"
  shows "postgres_read_func from_row connect ask connection period query_fn q ctx =
    Some (Inr (map Inr (filter (\<lambda>r. rp_start_time ctx \<le> fst r \<and> fst r < e) T)))"
proof -
  let ?start = "rp_start_time ctx"
  have "\<not> duration_is_zero period" using assms(7) by (auto simp: duration_is_zero_def duration_as_nanos_def)
  then obtain ss a b where ss: "compute_validated_time_slices ''postgres_read'' ?start (Inr e) period = Some (Inr ss)"
    "chain a ss b" "a \<le> kdb ?start" "kdb e \<le> b" using validated_chain[OF assms(4,5,6) _ assms(7,8)] by blast
  have srt: "sorted (map fst T)" using assms(1) by (simp add: pg_serves_def)
  have "pg_stream from_row ask query_fn ?start e ss client q None =
      map Inr (concat (map (\<lambda>s. filter (\<lambda>r. tw_contains (slice_window ?start e s) (fst r)) T) ss))"
    by (rule pg_stream_rows[OF assms(1) chain_windows_ordered[OF ss(2)]]) simp
  also have "concat (map (\<lambda>s. filter (\<lambda>r. tw_contains (slice_window ?start e s) (fst r)) T) ss) =
      filter (\<lambda>r. ?start \<le> fst r \<and> fst r < e) T"
    unfolding chain_filter[OF srt ss(2)] using ss(3,4) by (intro filter_cong) (auto simp: nanotime_le_kdb)
  finally show ?thesis using ss(1) assms(2,3) by (simp add: postgres_read_func_def)
qed

text \<open>The read from the server to the graph, as for KDB.\<close>

lemma postgres_read_exact:
  assumes chan: "async_channel kc pending" "pending c = []"
    and gs: "gs_run_mode gs = HistoricalFrom start" "gs_start_time gs = start" "gs_time gs = start" "gs_run_for gs = RunDuration d"
    and e: "start \<noteq> nano_zero" "start < nano_add_duration start d" "raw (nano_add_duration start d) < 2 ^ 63"
    and p: "0 < uint (duration_as_nanos period)" "uint (duration_as_nanos period) \<le> 900000000000000000"
    and server: "connect (pc_conn_str connection) = Inr client" "pg_serves from_row ask query_fn T"
    and func: "postgres_read_func from_row connect ask connection period query_fn q (run_params_of gs) = Some (func (run_params_of gs))"
    and set_up: "async_producer_setup gs (async_producer_new c func) = Some (st, cmds, r)" "ap_handle st = Some task"
    and n: "2 * length T + 1 \<le> n"
  shows "\<exists>bs. ungroup bs = filter (\<lambda>r. start \<le> fst r \<and> fst r < nano_add_duration start d) T \<and>
    sorted_wrt (<) (map va_time bs) \<and> (\<forall>b \<in> set bs. va_value b \<noteq> []) \<and>
    drive kc n gs ((ap_receiver_stream st)\<lparr>cr_receiver := producer_task kc notify first_now now task c\<rparr>) = (emissions bs, Quiet)"
proof -
  have ctx: "rp_end_time (run_params_of gs) = Inr (nano_add_duration start d)" "rp_start_time (run_params_of gs) = start"
    using gs by (simp_all add: run_params_of_def rp_end_time_def)
  have "func (run_params_of gs) = Inr (map Inr (filter (\<lambda>r. start \<le> fst r \<and> fst r < nano_add_duration start d) T))"
    using postgres_read_func_served[where connect = connect and connection = connection, OF server(2) ctx(1) server(1), of period q] ctx(2) e p func
    by simp
  then show ?thesis using window_replays[OF chan gs _ _ set_up n] server(2) by (simp add: pg_serves_def)
qed

section \<open>Subscribing\<close>

lemma pg_sub_rows_decoded:
  "map from_row rs = map Inr R \<Longrightarrow> pg_sub_rows from_row rs c = (map Inr R, foldl max c (map fst R), True)"
proof (induction rs arbitrary: R c)
  case (Cons r rs)
  then obtain t v R' where x: "from_row r = Inr (t, v)" "map from_row rs = map Inr R'" "R = (t, v) # R'" by (cases R) auto
  have "(if c < t then t else c) = max c t" by (auto simp: max_def)
  with Cons.IH[OF x(2)] x show ?case by simp
qed simp

lemma foldl_max_bounds:
  "c \<le> foldl max c ts" "t \<in> set ts \<Longrightarrow> t \<le> foldl max c ts" "foldl max c ts \<in> insert c (set ts)" for c :: "'b :: linorder"
proof -
  show "c \<le> foldl max c ts" by (induction ts arbitrary: c) (auto intro: order_trans[OF max.cobounded1])
  show "foldl max c ts \<in> insert c (set ts)" by (induction ts arbitrary: c) (force simp: max_def split: if_splits)+
  have ge: "c \<le> foldl max c ts" for c and ts :: "'b list" by (induction ts arbitrary: c) (auto intro: order_trans[OF max.cobounded1])
  show "t \<in> set ts \<Longrightarrow> t \<le> foldl max c ts"
    by (induction ts arbitrary: c) (auto intro: order_trans[OF max.cobounded2 ge])
qed

text \<open>The cursor after a query separates the rows that were seen from the later ones.\<close>

lemma cursor_separates:
  fixes c :: nanotime
  assumes "sorted_wrt (<) (map fst (T @ D))" and c': "c' = foldl max c (map fst (filter (\<lambda>r. c < fst r) T))"
  shows "filter (\<lambda>r. c' < fst r) (T @ D) = filter (\<lambda>r. c < fst r) D"
proof -
  let ?ts = "map fst (filter (\<lambda>r. c < fst r) T)"
  have "\<not> c' < fst r" if "r \<in> set T" for r
    using that foldl_max_bounds(1)[of c ?ts] foldl_max_bounds(2)[of "fst r" ?ts c] c' by (cases "c < fst r") auto
  then have "filter (\<lambda>r. c' < fst r) T = []" by simp
  moreover have "c' < fst r \<longleftrightarrow> c < fst r" if "r \<in> set D" for r
  proof -
    have "c' = c \<or> c' < fst r" using that assms(1) foldl_max_bounds(3)[of c ?ts] c' by (auto simp: sorted_wrt_append)
    with foldl_max_bounds(1)[of c ?ts] c' show ?thesis by auto
  qed
  then have "filter (\<lambda>r. c' < fst r) D = filter (\<lambda>r. c < fst r) D" by (intro filter_cong) auto
  ultimately show ?thesis by simp
qed

text \<open>The server answers a query past a cursor by the rows past it that the table has at the time.\<close>

definition serves_past_cursor :: "('r, 'q, 'a) pg_sub_env \<Rightarrow> bool" where
  "serves_past_cursor env \<longleftrightarrow> (\<forall>T q c. \<exists>rs. se_serve env T (snd (se_query_fn env q c)) = Inr rs \<and>
     map (se_from_row env) rs = map Inr (filter (\<lambda>r. c < fst r) T))"

text \<open>
  The invariant: \<open>seen_rows\<close> were in the table at the last query, \<open>later\<close> came after it. A waiting
  subscriber to whom rows came after its query has a wake-up in its channel or on the way to it.
\<close>

definition pg_live :: "('q, 'a) pg_world \<Rightarrow> bool" where
  "pg_live w \<longleftrightarrow> wd_task w \<and> wd_open w"

definition pg_started :: "('q, 'a) pg_world \<Rightarrow> bool" where
  "pg_started w \<longleftrightarrow> wd_phase w \<in> {Querying, Waiting, Draining}"

definition pg_wakeups :: "('q, 'a) pg_world \<Rightarrow> nat" where
  "pg_wakeups w = wd_queue w + count_list (wd_messages w) (Inr Notification)"

definition pg_sub_inv :: "nanotime \<Rightarrow> ('q, 'a) pg_world \<Rightarrow> (nanotime \<times> 'a) list \<Rightarrow> (nanotime \<times> 'a) list \<Rightarrow> bool" where
  "pg_sub_inv start_from w seen_rows later \<longleftrightarrow> wd_table w = seen_rows @ later \<and>
     wd_cursor w = foldl max start_from (map fst (filter (\<lambda>r. start_from < fst r) seen_rows)) \<and>
     wd_out w = map Inr (filter (\<lambda>r. start_from < fst r) seen_rows) @
       (if wd_phase w = Ended then [Inl (Anyhow ''postgres_sub: connection to postgres closed'')] else []) \<and>
     (pg_started w \<longrightarrow> wd_notify w) \<and>
     (wd_phase w = Waiting \<longrightarrow> pg_live w \<longrightarrow> later \<noteq> [] \<longrightarrow> pg_wakeups w \<noteq> 0)"

lemmas pg_inv_defs = pg_sub_inv_def pg_live_def pg_started_def pg_wakeups_def

lemma pg_sub_query_served:
  assumes "serves_past_cursor env" "pg_sub_inv start_from w S D" "sorted_wrt (<) (map fst (wd_table w))" "wd_phase w = Querying"
  obtains q' where "pg_sub_query env w = w\<lparr>wd_query := q', wd_phase := Waiting,
      wd_cursor := foldl max start_from (map fst (filter (\<lambda>r. start_from < fst r) (wd_table w))),
      wd_out := map Inr (filter (\<lambda>r. start_from < fst r) (wd_table w))\<rparr>"
proof -
  have w: "wd_table w = S @ D" "wd_cursor w = foldl max start_from (map fst (filter (\<lambda>r. start_from < fst r) S))"
    "wd_out w = map Inr (filter (\<lambda>r. start_from < fst r) S)"
    using assms(2,4) by (auto simp: pg_sub_inv_def)
  obtain q' query where qu: "se_query_fn env (wd_query w) (wd_cursor w) = (q', query)" by fastforce
  obtain rs where rs: "se_serve env (wd_table w) query = Inr rs"
    "map (se_from_row env) rs = map Inr (filter (\<lambda>r. wd_cursor w < fst r) (wd_table w))"
    using assms(1)[unfolded serves_past_cursor_def, rule_format, of "wd_table w" "wd_query w" "wd_cursor w"] qu by auto
  have new: "filter (\<lambda>r. wd_cursor w < fst r) (wd_table w) = filter (\<lambda>r. start_from < fst r) D"
    using cursor_separates[of S D "wd_cursor w" start_from] assms(3) w by simp
  have "pg_sub_query env w = w\<lparr>wd_query := q', wd_phase := Waiting,
      wd_cursor := foldl max (wd_cursor w) (map fst (filter (\<lambda>r. start_from < fst r) D)),
      wd_out := wd_out w @ map Inr (filter (\<lambda>r. start_from < fst r) D)\<rparr>"
    using pg_sub_rows_decoded[OF rs(2)[unfolded new], of "wd_cursor w"] by (simp add: pg_sub_query_def qu rs(1))
  with w have "pg_sub_query env w = w\<lparr>wd_query := q', wd_phase := Waiting,
      wd_cursor := foldl max start_from (map fst (filter (\<lambda>r. start_from < fst r) (wd_table w))),
      wd_out := map Inr (filter (\<lambda>r. start_from < fst r) (wd_table w))\<rparr>" by simp
  then show thesis by (rule that)
qed

text \<open>Every step of every party keeps the invariant, for some division of the table.\<close>

lemma pg_forward_inv:
  assumes "pg_sub_inv start_from w S D" shows "pg_sub_inv start_from (pg_forward w) S D"
proof (cases "wd_messages w")
  case Nil
  with assms show ?thesis by (auto simp: pg_forward_def pg_inv_defs)
next
  case (Cons m ms)
  show ?thesis
  proof (cases m)
    case (Inr a)
    with Cons assms show ?thesis by (cases a) (auto simp: pg_forward_def pg_inv_defs)
  qed (use Cons assms in \<open>auto simp: pg_forward_def pg_inv_defs\<close>)
qed

lemma pg_sub_step_inv:
  assumes "pg_sub_inv start_from w S D"
  shows "wd_phase w = Connecting \<Longrightarrow> pg_sub_inv start_from (pg_sub_connect env w) S D"
    and "wd_phase w = Listening \<Longrightarrow> pg_sub_inv start_from (pg_sub_listen env w) S D"
    and "wd_phase w = Waiting \<Longrightarrow> pg_sub_inv start_from (pg_sub_wait w) S D"
    and "wd_phase w = Draining \<Longrightarrow> pg_sub_inv start_from (pg_sub_drain w) S D"
  using assms
  by (auto simp: pg_inv_defs pg_sub_connect_def pg_sub_listen_def pg_sub_wait_def pg_sub_drain_def split: sum.splits)

lemma pg_event_inv:
  assumes "serves_past_cursor env" "pg_sub_inv start_from w S D" "sorted_wrt (<) (map fst (wd_table w))"
  shows "\<exists>S' D'. pg_sub_inv start_from (pg_event_step env w ev) S' D'"
proof (cases ev)
  case (Insert rows)
  with assms(2) have "pg_sub_inv start_from (pg_event_step env w ev) S (D @ rows)" by (auto simp: pg_inv_defs)
  then show ?thesis by blast
next
  case (Arrives m)
  with assms(2) have "pg_sub_inv start_from (pg_event_step env w ev) S D" by (auto simp: pg_inv_defs)
  then show ?thesis by blast
next
  case Disconnect
  with assms(2) have "pg_sub_inv start_from (pg_event_step env w ev) S D" by (auto simp: pg_inv_defs)
  then show ?thesis by blast
next
  case Forward
  with pg_forward_inv[OF assms(2)] show ?thesis by auto
next
  case Poll
  show ?thesis
  proof (cases "wd_phase w = Querying")
    case True
    then have "wd_notify w" using assms(2) by (simp add: pg_inv_defs)
    moreover obtain q' where "pg_sub_query env w = w\<lparr>wd_query := q', wd_phase := Waiting,
        wd_cursor := foldl max start_from (map fst (filter (\<lambda>r. start_from < fst r) (wd_table w))),
        wd_out := map Inr (filter (\<lambda>r. start_from < fst r) (wd_table w))\<rparr>"
      by (rule pg_sub_query_served[OF assms True])
    ultimately have "pg_sub_inv start_from (pg_poll env w) (wd_table w) []"
      using True by (simp add: pg_inv_defs pg_poll_def)
    then show ?thesis using Poll by auto
  next
    case False
    have "pg_sub_inv start_from (pg_poll env w) S D"
      using pg_sub_step_inv[OF assms(2)] False assms(2) by (cases "wd_phase w") (simp_all add: pg_poll_def)
    then show ?thesis using Poll by auto
  qed
qed

lemma pg_step_table: "\<exists>rows. wd_table (pg_event_step env w ev) = wd_table w @ rows"
proof (cases ev)
  case Forward
  show ?thesis by (auto simp: Forward pg_forward_def split: list.splits sum.splits async_message.splits)
next
  case Poll
  show ?thesis by (auto simp: Poll pg_poll_def pg_sub_connect_def pg_sub_listen_def pg_sub_query_def pg_sub_wait_def pg_sub_drain_def
      split: pg_phase.splits sum.splits prod.splits)
qed auto

lemma pg_run_snoc [simp]: "pg_run env w (es @ [ev]) = pg_event_step env (pg_run env w es) ev" "pg_run env w [] = w"
  by (simp_all add: pg_run_def)

lemma pg_run_append: "pg_run env w (es @ fs) = pg_run env (pg_run env w es) fs"
  by (simp add: pg_run_def)

lemma pg_run_inv:
  assumes "serves_past_cursor env" "sorted_wrt (<) (map fst (wd_table (pg_run env (pg_world_new T0 start_from q) es)))"
  shows "\<exists>S D. pg_sub_inv start_from (pg_run env (pg_world_new T0 start_from q) es) S D"
  using assms(2)
proof (induction es rule: rev_induct)
  case Nil
  have "pg_sub_inv start_from (pg_world_new T0 start_from q) [] T0" by (simp add: pg_inv_defs pg_world_new_def)
  then show ?case by (auto simp: pg_run_def)
next
  case (snoc ev es)
  let ?w = "pg_run env (pg_world_new T0 start_from q) es"
  obtain rows where "wd_table (pg_event_step env ?w ev) = wd_table ?w @ rows" using pg_step_table by blast
  with snoc.prems have s: "sorted_wrt (<) (map fst (wd_table ?w))" by (simp add: sorted_wrt_append)
  then obtain S D where "pg_sub_inv start_from ?w S D" using snoc.IH by blast
  from pg_event_inv[OF assms(1) this s] show ?case by simp
qed

text \<open>Without new messages the task forwards every wake-up, and the subscriber takes them all and queries once more.\<close>

lemma pg_forward_all:
  assumes "wd_task w" "wd_phase w \<noteq> Ended" "list_all (\<lambda>m. \<not> isl m) (wd_messages w)"
  shows "pg_run env w (replicate (length (wd_messages w)) Forward) = w\<lparr>wd_messages := [], wd_queue := pg_wakeups w\<rparr>"
  using assms
proof (induction "wd_messages w" arbitrary: w)
  case Nil
  then have "wd_messages w = []" by simp
  then show ?case by (cases w) (simp add: pg_run_def pg_wakeups_def)
next
  case (Cons m ms)
  obtain a where m: "wd_messages w = Inr a # ms" using Cons.hyps(2)[symmetric] Cons.prems(3) by (cases m) auto
  let ?w = "w\<lparr>wd_messages := ms, wd_queue := wd_queue w + (if a = Notification then 1 else 0)\<rparr>"
  have "pg_forward w = ?w" using Cons.prems(1,2) m by (cases a) (simp_all add: pg_forward_def)
  moreover have "pg_run env ?w (replicate (length ms) Forward) = ?w\<lparr>wd_messages := [], wd_queue := pg_wakeups ?w\<rparr>"
    using Cons.hyps(1)[of ?w] Cons.prems m by simp
  moreover have "pg_wakeups ?w = pg_wakeups w" using m by (cases a) (simp_all add: pg_wakeups_def)
  ultimately show ?case using m by (simp add: pg_run_def)
qed

fun polls_left :: "pg_phase \<Rightarrow> nat \<Rightarrow> nat" where
  "polls_left Querying k = (if k = 0 then 1 else k + 3)"
| "polls_left Waiting k = (if k = 0 then 0 else k + 2)"
| "polls_left _ k = k + 2"

lemma pg_poll_progress:
  assumes "serves_past_cursor env" "pg_sub_inv start_from w S D" "sorted_wrt (<) (map fst (wd_table w))" "pg_started w" "wd_task w"
    "polls_left (wd_phase w) (wd_queue w) \<le> Suc n"
  shows "wd_table (pg_poll env w) = wd_table w" "wd_messages (pg_poll env w) = wd_messages w" "wd_open (pg_poll env w) = wd_open w"
    "wd_task (pg_poll env w)" "pg_started (pg_poll env w)"
    "polls_left (wd_phase (pg_poll env w)) (wd_queue (pg_poll env w)) \<le> n"
proof -
  consider "wd_phase w = Querying" | "wd_phase w = Waiting" | "wd_phase w = Draining" using assms(4) by (auto simp: pg_started_def)
  then have "wd_table (pg_poll env w) = wd_table w \<and> wd_messages (pg_poll env w) = wd_messages w \<and> wd_open (pg_poll env w) = wd_open w \<and>
    wd_task (pg_poll env w) \<and> pg_started (pg_poll env w) \<and> polls_left (wd_phase (pg_poll env w)) (wd_queue (pg_poll env w)) \<le> n"
  proof cases
    case 1
    obtain q' where "pg_sub_query env w = w\<lparr>wd_query := q', wd_phase := Waiting,
        wd_cursor := foldl max start_from (map fst (filter (\<lambda>r. start_from < fst r) (wd_table w))),
        wd_out := map Inr (filter (\<lambda>r. start_from < fst r) (wd_table w))\<rparr>"
      by (rule pg_sub_query_served[OF assms(1,2,3) 1])
    with 1 assms(5,6) show ?thesis by (auto simp: pg_poll_def pg_started_def split: if_splits)
  qed (use assms(5,6) in \<open>auto simp: pg_poll_def pg_started_def pg_sub_wait_def pg_sub_drain_def split: if_splits\<close>)
  then show "wd_table (pg_poll env w) = wd_table w" "wd_messages (pg_poll env w) = wd_messages w" "wd_open (pg_poll env w) = wd_open w"
    "wd_task (pg_poll env w)" "pg_started (pg_poll env w)"
    "polls_left (wd_phase (pg_poll env w)) (wd_queue (pg_poll env w)) \<le> n" by blast+
qed

lemma pg_polls_complete:
  assumes "serves_past_cursor env" "pg_sub_inv start_from w S D" "sorted_wrt (<) (map fst (wd_table w))" "pg_started w" "pg_live w"
    "wd_messages w = []" "polls_left (wd_phase w) (wd_queue w) \<le> n"
  shows "wd_out (pg_run env w (replicate n Poll)) = map Inr (filter (\<lambda>r. start_from < fst r) (wd_table w))"
  using assms(2-)
proof (induction n arbitrary: w S D)
  case 0
  then have "wd_phase w = Waiting" "wd_queue w = 0" by (cases "wd_phase w"; auto simp: pg_started_def split: if_splits)+
  with 0 show ?case by (auto simp: pg_run_def pg_inv_defs)
next
  case (Suc n)
  have task: "wd_task w" using Suc.prems(4) by (simp add: pg_live_def)
  note p = pg_poll_progress[OF assms(1) Suc.prems(1-3) task Suc.prems(6)]
  obtain S' D' where "pg_sub_inv start_from (pg_event_step env w Poll) S' D'" using pg_event_inv[OF assms(1) Suc.prems(1,2)] by blast
  then have "wd_out (pg_run env (pg_poll env w) (replicate n Poll)) = map Inr (filter (\<lambda>r. start_from < fst r) (wd_table (pg_poll env w)))"
    using Suc.prems p by (intro Suc.IH) (auto simp: pg_live_def)
  then show ?case using p(1) by (simp add: pg_run_def)
qed

text \<open>
  C21. The subscription delivers every row once. Let the times of the rows be strictly increasing, as
  \<^verbatim>\<open>postgres_sub\<close> requires, and let every query past a cursor be answered by the rows past it that
  are in the table at that time. The inserts, the server's messages, the end of the connection, the
  task that forwards the notifications and the subscriber (which connects, listens, and then queries,
  waits and drains its channel one \<^verbatim>\<open>try_recv\<close> at a time) take their steps in any order. The stream has
  then yielded the rows past \<open>start_from\<close> of an initial part of the table, each once and in order, and
  after them only the error of a closed connection; a waiting subscriber on a live connection has
  yielded those of the whole table, unless a wake-up is queued or on its way. From any such state the
  wake-ups on the way and at most \<open>pg_wakeups w + 3\<close> steps of the subscriber deliver the whole table.
\<close>

theorem postgres_sub_exactly_once:
  fixes T0 :: "(nanotime \<times> 'a) list"
  assumes "serves_past_cursor env" and w: "w = pg_run env (pg_world_new T0 start_from q) es"
    and "sorted_wrt (<) (map fst (wd_table w))"
  shows "(\<exists>seen_rows later. wd_table w = seen_rows @ later \<and>
      wd_out w = map Inr (filter (\<lambda>r. start_from < fst r) seen_rows) @
        (if wd_phase w = Ended then [Inl (Anyhow ''postgres_sub: connection to postgres closed'')] else []) \<and>
      (wd_phase w = Waiting \<and> wd_task w \<and> wd_open w \<and> later \<noteq> [] \<longrightarrow>
        wd_queue w \<noteq> 0 \<or> Inr Notification \<in> set (wd_messages w))) \<and>
    (wd_phase w \<in> {Querying, Waiting, Draining} \<and> wd_task w \<and> wd_open w \<and> list_all (\<lambda>m. \<not> isl m) (wd_messages w) \<and>
        pg_wakeups w + 3 \<le> n \<longrightarrow>
      wd_out (pg_run env w (replicate (length (wd_messages w)) Forward @ replicate n Poll)) =
        map Inr (filter (\<lambda>r. start_from < fst r) (wd_table w)))"
proof -
  obtain S D where inv: "pg_sub_inv start_from w S D"
    using pg_run_inv[OF assms(1) assms(3)[unfolded w]] unfolding w by blast
  show ?thesis
  proof (rule conjI)
    show "\<exists>seen_rows later. wd_table w = seen_rows @ later \<and>
        wd_out w = map Inr (filter (\<lambda>r. start_from < fst r) seen_rows) @
          (if wd_phase w = Ended then [Inl (Anyhow ''postgres_sub: connection to postgres closed'')] else []) \<and>
        (wd_phase w = Waiting \<and> wd_task w \<and> wd_open w \<and> later \<noteq> [] \<longrightarrow>
          wd_queue w \<noteq> 0 \<or> Inr Notification \<in> set (wd_messages w))"
      using inv by (intro exI[of _ S] exI[of _ D]) (auto simp: pg_inv_defs dest: count_notin)
    show "wd_phase w \<in> {Querying, Waiting, Draining} \<and> wd_task w \<and> wd_open w \<and> list_all (\<lambda>m. \<not> isl m) (wd_messages w) \<and>
          pg_wakeups w + 3 \<le> n \<longrightarrow>
        wd_out (pg_run env w (replicate (length (wd_messages w)) Forward @ replicate n Poll)) =
          map Inr (filter (\<lambda>r. start_from < fst r) (wd_table w))" (is "?live \<longrightarrow> _")
    proof
      let ?w = "w\<lparr>wd_messages := [], wd_queue := pg_wakeups w\<rparr>"
      assume l: ?live
      then have f: "pg_run env w (replicate (length (wd_messages w)) Forward) = ?w" by (intro pg_forward_all) auto
      have "pg_sub_inv start_from ?w S D" using inv by (simp add: pg_inv_defs)
      moreover have "polls_left (wd_phase ?w) (wd_queue ?w) \<le> n" using l by (cases "wd_phase w") auto
      ultimately have "wd_out (pg_run env ?w (replicate n Poll)) = map Inr (filter (\<lambda>r. start_from < fst r) (wd_table ?w))"
        using l assms(1,3) by (intro pg_polls_complete) (auto simp: pg_started_def pg_live_def)
      then show "wd_out (pg_run env w (replicate (length (wd_messages w)) Forward @ replicate n Poll)) =
          map Inr (filter (\<lambda>r. start_from < fst r) (wd_table w))" by (simp add: pg_run_append f)
    qed
  qed
qed

text \<open>One row is there; one is inserted between the first wait and the drain, one between the drain and the query.\<close>

definition sample_table :: "(nanotime \<times> nat) list" where
  "sample_table = [(NanoTime 5, 0), (NanoTime 6, 1)]"

definition sample_events :: "nat pg_event list" where
  "sample_events = [Poll, Poll, Insert [(NanoTime 7, 2)], Poll, Forward, Poll, Insert [(NanoTime 8, 3)], Forward, Poll, Poll,
     Insert [(NanoTime 9, 4)], Poll, Insert [(NanoTime 10, 5)]]"

text \<open>A client whose queries carry the cursor; rows are their own encoding.\<close>

definition cursor_env :: "(nanotime \<times> nat, unit, nat) pg_sub_env" where
  "cursor_env = \<lparr>se_run_mode = RealTime, se_connect = (\<lambda>_. Inr ()), se_batch_execute = (\<lambda>_. Inr ()),
     se_serve = (\<lambda>T query. Inr (filter (\<lambda>r. digits_value query < unat (raw (fst r))) T)), se_from_row = Inr,
     se_query_fn = (\<lambda>q c. ((), decimal (unat (raw c)))),
     se_connection = postgres_connection_new (ascii ''host=h''), se_channel = ascii ''ch''\<rparr>"

lemma cursor_env_serves: "serves_past_cursor cursor_env"
proof -
  have "unat (raw c) < unat (raw t) \<longleftrightarrow> c < t" for c t by (cases c; cases t) (simp add: word_less_nat_alt)
  then show ?thesis by (simp add: serves_past_cursor_def cursor_env_def digits_value_decimal)
qed

lemma sample_run:
  "pg_run cursor_env (pg_world_new sample_table (NanoTime 5) ()) sample_events =
     \<lparr>wd_table = sample_table @ [(NanoTime 7, 2), (NanoTime 8, 3), (NanoTime 9, 4), (NanoTime 10, 5)], wd_notify = True,
      wd_open = True, wd_messages = [Inr Notification, Inr Notification], wd_task = True, wd_queue = 0, wd_phase = Waiting,
      wd_cursor = NanoTime 9, wd_query = (),
      wd_out = [Inr (NanoTime 6, 1), Inr (NanoTime 7, 2), Inr (NanoTime 8, 3), Inr (NanoTime 9, 4)]\<rparr>"
  by (simp add: pg_run_def pg_world_new_def sample_table_def sample_events_def cursor_env_def pg_poll_def pg_sub_connect_def
      pg_sub_listen_def pg_sub_query_def pg_sub_wait_def pg_sub_drain_def pg_forward_def digits_value_decimal)

theorem postgres_sub_exactly_once_witness:
  "wd_out (pg_run cursor_env (pg_run cursor_env (pg_world_new sample_table (NanoTime 5) ()) sample_events)
     ([Forward, Forward] @ replicate 5 Poll)) =
   [Inr (NanoTime 6, 1), Inr (NanoTime 7, 2), Inr (NanoTime 8, 3), Inr (NanoTime 9, 4), Inr (NanoTime 10, 5)]"
  using conjunct2[OF postgres_sub_exactly_once[OF cursor_env_serves refl, of sample_table "NanoTime 5" "()" sample_events 5]]
  unfolding sample_run by (simp add: pg_wakeups_def sample_table_def)

section \<open>Writing\<close>

definition row_request :: "('s, 't, 'p, 'a) pg_writer \<Rightarrow> nanotime \<times> 'a list \<Rightarrow> 'p list list" where
  "row_request env x = map (\<lambda>r. pw_time env (nano_to_naive (fst x)) # pw_to_params env r) (snd x)"

lemma pg_write_prepared:
  "pg_write_loop env tbl source (Some st) client = (sent, Inr ()) \<Longrightarrow>
    sent = map (\<lambda>x. Execute st (row_request env x)) (filter (\<lambda>x. snd x \<noteq> []) source)"
proof (induction source arbitrary: client sent)
  case (Cons x source)
  obtain t b where x: "x = (t, b)" by (cases x)
  show ?case
  proof (cases "b = []")
    case True
    with Cons x show ?thesis by simp
  next
    case False
    let ?req = "row_request env x"
    have req: "map (Cons (pw_time env (nano_to_naive t)) \<circ> pw_to_params env) b = ?req" by (simp add: row_request_def x comp_def)
    obtain client1 res where e: "pw_execute_all env client st ?req = (client1, res)" by (cases "pw_execute_all env client st ?req")
    obtain later res' where l: "pg_write_loop env tbl source (Some st) client1 = (later, res')" by (cases "pg_write_loop env tbl source (Some st) client1")
    have "res' = Inr ()" "sent = Execute st ?req # later"
      using Cons.prems False x req e l by (auto simp: Let_def split: sum.splits)
    with Cons.IH l False x show ?thesis by simp
  qed
qed simp

lemma pg_write_unprepared:
  assumes "pg_write_loop env tbl ((t, r # b) # source) None client = (sent, Inr ())"
  shows "\<exists>st client' later. pg_write_loop env tbl source (Some st) client' = (later, Inr ()) \<and>
    sent = Prepare (insert_sql tbl (length (pw_to_params env r) + 1)) # Execute st (row_request env (t, r # b)) # later"
proof -
  let ?sql = "insert_sql tbl (length (pw_to_params env r) + 1)" and ?req = "row_request env (t, r # b)"
  have req: "map (Cons (pw_time env (nano_to_naive t)) \<circ> pw_to_params env) (r # b) = ?req" by (simp add: row_request_def comp_def)
  obtain client1 st where p: "pw_prepare env client ?sql = (client1, Inr st)"
    using assms by (cases "pw_prepare env client ?sql"; cases "snd (pw_prepare env client ?sql)") (auto simp: Let_def)
  obtain client2 res where e: "pw_execute_all env client1 st ?req = (client2, res)" by (cases "pw_execute_all env client1 st ?req")
  obtain later res' where l: "pg_write_loop env tbl source (Some st) client2 = (later, res')" by (cases "pg_write_loop env tbl source (Some st) client2")
  have "res' = Inr () \<and> sent = Prepare ?sql # Execute st ?req # later"
    using assms p e l req by (cases res) (simp_all add: Let_def)
  with l show ?thesis by blast
qed

text \<open>
  A writer that ends without an error has prepared one statement, with one placeholder for the
  time and one for each value of the first record, and with it has sent every record of every
  burst once, in order, each with its time.
\<close>

lemma pg_write_requests:
  assumes "postgres_write_consumer env connection tbl source = (sent, Inr ())" "filter (\<lambda>x. snd x \<noteq> []) source = (t, r # b) # bursts"
  shows "\<exists>st. sent = Prepare (insert_sql (quote_table tbl) (length (pw_to_params env r) + 1)) #
    map (\<lambda>x. Execute st (row_request env x)) ((t, r # b) # bursts)"
proof -
  obtain client where "pg_write_loop env (quote_table tbl) source None client = (sent, Inr ())"
    using assms(1) by (auto simp: postgres_write_consumer_def split: sum.splits)
  with assms(2) show ?thesis
  proof (induction source)
    case (Cons x source)
    show ?case
    proof (cases "snd x = []")
      case True
      with Cons show ?thesis by (cases x) simp
    next
      case False
      with Cons.prems(1) have e: "x = (t, r # b)" "bursts = filter (\<lambda>x. snd x \<noteq> []) source" by auto
      from pg_write_unprepared[OF Cons.prems(2)[unfolded e(1)]] obtain st client' later where
        "pg_write_loop env (quote_table tbl) source (Some st) client' = (later, Inr ())"
        "sent = Prepare (insert_sql (quote_table tbl) (length (pw_to_params env r) + 1)) # Execute st (row_request env (t, r # b)) # later"
        by (elim exE conjE)
      with pg_write_prepared[OF this(1)] e(2) show ?thesis by auto
    qed
  qed simp
qed

end
