(* ===== verification/Iceoryx2.thy ===== *)
theory Iceoryx2
  imports Channels Rust_Strings
begin

text \<open>
  The iceoryx2 adapter: \<^verbatim>\<open>adapters/iceoryx2/\<close>. The crate is a parameter, the record \<open>iox\<close> of the calls
  the adapter makes, over a world \<open>'w\<close> that stands for the shared memory with what the other
  processes do to it. Nodes, services, ports and samples of the crate are handles, its errors the
  texts they are rendered to. The crate's two service variants have the same calls, so the variant
  is an argument of the call that makes a node. The streams of typed values and of byte slices have
  the same code up to the conversion of a sample; both are instances of one definition.

  The operator \<^verbatim>\<open>?\<close> in the macros \<^verbatim>\<open>create_subscriber!\<close> and \<^verbatim>\<open>run_poll_loop!\<close> leaves the function they are
  expanded in. The outcome of the poll loop therefore is \<open>Inl e\<close> where it leaves the thread function
  with the error \<open>e\<close>, and \<open>Inr res\<close> where the macro ends with the value \<open>res\<close>; \<open>None\<close> is a thread that
  has not ended.

  What is shown: the error of a thread that cannot set up its subscriber reaches nobody, while a
  spinning subscriber fails at its start (\<open>iox_thread_error_silent\<close>); the thread forwards every sample
  once and in order (\<open>threaded_loop_forwards\<close>), and the node emits them in this order under every
  schedule of arrivals (\<open>iox_cycles_prefix\<close>); a spinning node emits what is there (\<open>iox_spin_cycle_exact\<close>);
  a publisher sends its burst in order and notifies exactly if it sent anything
  (\<open>send_loop_sends\<close>, \<open>publisher_cycle_exact\<close>).
\<close>

section \<open>Options, contracts and errors\<close>

definition ICEORYX2_DEFAULT_HISTORY_SIZE :: nat where "ICEORYX2_DEFAULT_HISTORY_SIZE = 5"
definition ICEORYX2_DEFAULT_SUBSCRIBER_MAX_BUFFER_SIZE :: nat where "ICEORYX2_DEFAULT_SUBSCRIBER_MAX_BUFFER_SIZE = 16"
definition ICEORYX2_DEFAULT_INITIAL_MAX_SLICE_LEN :: nat where "ICEORYX2_DEFAULT_INITIAL_MAX_SLICE_LEN = 128 * 1024"

record iox_service_contract =
  ic_history_size :: nat
  ic_subscriber_max_buffer_size :: nat

definition iox_service_contract_new :: "nat \<Rightarrow> iox_service_contract" where
  "iox_service_contract_new history_size = \<lparr>ic_history_size = history_size,
     ic_subscriber_max_buffer_size = max history_size ICEORYX2_DEFAULT_SUBSCRIBER_MAX_BUFFER_SIZE\<rparr>"

definition iox_service_contract_default :: iox_service_contract where
  "iox_service_contract_default = iox_service_contract_new ICEORYX2_DEFAULT_HISTORY_SIZE"

record iox_slice_contract =
  isc_pubsub :: iox_service_contract
  isc_initial_max_slice_len :: nat

definition iox_slice_contract_new :: "nat \<Rightarrow> nat \<Rightarrow> iox_slice_contract" where
  "iox_slice_contract_new history_size initial_max_slice_len =
     \<lparr>isc_pubsub = iox_service_contract_new history_size, isc_initial_max_slice_len = initial_max_slice_len\<rparr>"

definition iox_slice_contract_default :: iox_slice_contract where
  "iox_slice_contract_default = iox_slice_contract_new ICEORYX2_DEFAULT_HISTORY_SIZE ICEORYX2_DEFAULT_INITIAL_MAX_SLICE_LEN"

datatype iox_variant = Ipc | Local

datatype iox_mode = Spin | Threaded | Signaled

record iox_sub_opts =
  so_variant :: iox_variant
  so_mode :: iox_mode
  so_history_size :: nat

definition iox_sub_opts_default :: iox_sub_opts where
  "iox_sub_opts_default = \<lparr>so_variant = Ipc, so_mode = Spin, so_history_size = ICEORYX2_DEFAULT_HISTORY_SIZE\<rparr>"

definition sub_opts_contract :: "iox_sub_opts \<Rightarrow> iox_service_contract" where
  "sub_opts_contract opts = iox_service_contract_new (so_history_size opts)"

record iox_pub_opts =
  po_variant :: iox_variant
  po_history_size :: nat

definition iox_pub_opts_default :: iox_pub_opts where
  "iox_pub_opts_default = \<lparr>po_variant = Ipc, po_history_size = ICEORYX2_DEFAULT_HISTORY_SIZE\<rparr>"

definition pub_opts_contract :: "iox_pub_opts \<Rightarrow> iox_service_contract" where
  "pub_opts_contract opts = iox_service_contract_new (po_history_size opts)"

record iox_pub_slice_opts = iox_pub_opts +
  po_initial_max_slice_len :: nat

definition iox_pub_slice_opts_default :: iox_pub_slice_opts where
  "iox_pub_slice_opts_default = \<lparr>po_variant = Ipc, po_history_size = ICEORYX2_DEFAULT_HISTORY_SIZE,
     po_initial_max_slice_len = ICEORYX2_DEFAULT_INITIAL_MAX_SLICE_LEN\<rparr>"

definition pub_slice_opts_contract :: "iox_pub_slice_opts \<Rightarrow> iox_slice_contract" where
  "pub_slice_opts_contract opts = iox_slice_contract_new (po_history_size opts) (po_initial_max_slice_len opts)"

record fixed_bytes =
  fb_len :: nat
  fb_data :: bytes

definition fixed_bytes_default :: "nat \<Rightarrow> fixed_bytes" where
  "fixed_bytes_default n = \<lparr>fb_len = 0, fb_data = replicate n 0\<rparr>"

definition fixed_bytes_new :: "nat \<Rightarrow> bytes \<Rightarrow> fixed_bytes" where
  "fixed_bytes_new n bytes = (let len = min (length bytes) n in
     \<lparr>fb_len = len, fb_data = take len bytes @ replicate (n - len) 0\<rparr>)"

text \<open>Slicing beyond the array panics.\<close>

definition fixed_bytes_as_slice :: "fixed_bytes \<Rightarrow> bytes option" where
  "fixed_bytes_as_slice b = (if fb_len b \<le> length (fb_data b) then Some (take (fb_len b) (fb_data b)) else None)"

datatype iox_error =
    NodeCreationFailed bytes
  | ServiceOpenFailed bytes bytes iox_variant nat nat
  | ServiceConfigMismatch bytes bytes iox_variant nat nat
  | PortCreationFailed bytes
  | SharedMemoryError bytes
  | TransmissionError bytes
  | OtherError bytes

text \<open>The rendered text, without the values.\<close>

definition iox_anyhow :: "iox_error \<Rightarrow> anyhow" where
  "iox_anyhow e = Anyhow (case e of
       NodeCreationFailed _ \<Rightarrow> ''Failed to create node''
     | ServiceOpenFailed _ _ _ _ _ \<Rightarrow> ''Failed to open/create service''
     | ServiceConfigMismatch _ _ _ _ _ \<Rightarrow> ''Service config mismatch''
     | PortCreationFailed _ \<Rightarrow> ''Failed to create port''
     | SharedMemoryError _ \<Rightarrow> ''Shared memory error''
     | TransmissionError _ \<Rightarrow> ''Data transmission error''
     | OtherError _ \<Rightarrow> ''Other error'')"

text \<open>Lower case beyond ASCII makes no difference to the three words.\<close>

definition service_open_err_with_context :: "bytes \<Rightarrow> iox_variant \<Rightarrow> iox_service_contract \<Rightarrow> bytes \<Rightarrow> iox_error" where
  "service_open_err_with_context service_name variant contract error =
     (let e = map to_ascii_lowercase error;
          looks_like_mismatch = str_contains (ascii ''incompatible'') e \<or> str_contains (ascii ''mismatch'') e \<or> str_contains (ascii ''config'') e
      in if looks_like_mismatch
         then ServiceConfigMismatch error service_name variant (ic_history_size contract) (ic_subscriber_max_buffer_size contract)
         else ServiceOpenFailed error service_name variant (ic_history_size contract) (ic_subscriber_max_buffer_size contract))"

section \<open>The crate\<close>

type_synonym iox_handle = nat
type_synonym ('w, 'b) iox_call = "'w \<Rightarrow> 'w \<times> (bytes + 'b)"

record ('w, 'a) iox =
  ix_service_name :: "bytes \<Rightarrow> bytes + unit"
  ix_create_node :: "iox_variant \<Rightarrow> ('w, iox_handle) iox_call"
  ix_open_pubsub :: "iox_handle \<Rightarrow> bytes \<Rightarrow> nat \<Rightarrow> nat \<Rightarrow> ('w, iox_handle) iox_call"
  ix_open_event :: "iox_handle \<Rightarrow> bytes \<Rightarrow> ('w, iox_handle) iox_call"
  ix_create_subscriber :: "iox_handle \<Rightarrow> nat \<Rightarrow> ('w, iox_handle) iox_call"
  ix_create_publisher :: "iox_handle \<Rightarrow> nat option \<Rightarrow> ('w, iox_handle) iox_call"
  ix_create_listener :: "iox_handle \<Rightarrow> ('w, iox_handle) iox_call"
  ix_create_notifier :: "iox_handle \<Rightarrow> ('w, iox_handle) iox_call"
  ix_create_waitset :: "iox_variant \<Rightarrow> ('w, iox_handle) iox_call"
  ix_attach_notification :: "iox_handle \<Rightarrow> iox_handle \<Rightarrow> ('w, iox_handle) iox_call"
  ix_update_connections :: "iox_handle \<Rightarrow> ('w, unit) iox_call"
  ix_receive :: "iox_handle \<Rightarrow> ('w, 'a option) iox_call"
  ix_wait :: "iox_handle \<Rightarrow> ('w, unit) iox_call"
  ix_try_wait_one :: "iox_handle \<Rightarrow> ('w, unit option) iox_call"
  ix_loan :: "iox_handle \<Rightarrow> nat option \<Rightarrow> ('w, iox_handle) iox_call"
  ix_send :: "iox_handle \<Rightarrow> 'a \<Rightarrow> ('w, unit) iox_call"
  ix_notify :: "iox_handle \<Rightarrow> ('w, unit) iox_call"

text \<open>\<^verbatim>\<open>call.map_err(f)?\<close> and the rest of the block.\<close>

definition try_call :: "('w, 'b) iox_call \<Rightarrow> (bytes \<Rightarrow> iox_error) \<Rightarrow> ('b \<Rightarrow> 'w \<Rightarrow> 'w \<times> (iox_error + 'd)) \<Rightarrow> 'w \<Rightarrow> 'w \<times> (iox_error + 'd)" where
  "try_call call f k w = (case call w of (w', Inl e) \<Rightarrow> (w', Inl (f e)) | (w', Inr x) \<Rightarrow> k x w')"

definition signal_name :: "bytes \<Rightarrow> bytes" where
  "signal_name service_name = service_name @ ascii ''.signal''"

text \<open>The loop that opens the event service, at most \<open>n\<close> times.\<close>

fun open_event_loop :: "('w, 'a) iox \<Rightarrow> nat \<Rightarrow> iox_handle \<Rightarrow> bytes \<Rightarrow> iox_variant \<Rightarrow> bytes option \<Rightarrow> 'w \<Rightarrow> 'w \<times> (iox_error + iox_handle)" where
  "open_event_loop lib 0 nd name variant last_err w =
     (w, Inl (service_open_err_with_context name variant (iox_service_contract_new 0)
        (case last_err of Some e \<Rightarrow> e | None \<Rightarrow> ascii ''event open_or_create failed'')))"
| "open_event_loop lib (Suc n) nd name variant last_err w = (case ix_service_name lib name of
       Inl e \<Rightarrow> (w, Inl (OtherError e))
     | Inr _ \<Rightarrow> (case ix_open_event lib nd name w of
           (w', Inr s) \<Rightarrow> (w', Inr s)
         | (w', Inl e) \<Rightarrow> open_event_loop lib n nd name variant (Some e) w'))"

text \<open>\<^verbatim>\<open>create_subscriber!\<close>\<close>

definition create_subscriber :: "('w, 'a) iox \<Rightarrow> bytes \<Rightarrow> iox_variant \<Rightarrow> nat \<Rightarrow> 'w \<Rightarrow> 'w \<times> (iox_error + iox_handle \<times> iox_handle)" where
  "create_subscriber lib service_name variant history_size =
     try_call (ix_create_node lib variant) NodeCreationFailed (\<lambda>nd.
       let contract = iox_service_contract_new history_size in
       try_call (\<lambda>w. (w, ix_service_name lib service_name)) OtherError (\<lambda>_.
       try_call (ix_open_pubsub lib nd service_name history_size (ic_subscriber_max_buffer_size contract))
         (service_open_err_with_context service_name variant contract) (\<lambda>service.
       try_call (ix_create_subscriber lib service (max history_size 1)) PortCreationFailed (\<lambda>subscriber.
       try_call (ix_update_connections lib subscriber) PortCreationFailed (\<lambda>_ w. (w, Inr (nd, subscriber)))))))"

section \<open>The polling thread\<close>

text \<open>\<^verbatim>\<open>while let Ok(Some(sample)) = receive()\<close>, with the samples so far.\<close>

partial_function (option) receive_loop :: "('w, 'a) iox \<Rightarrow> iox_handle \<Rightarrow> 'w \<Rightarrow> 'a list \<Rightarrow> ('w \<times> 'a list) option" where
  "receive_loop lib subscriber w xs = (case ix_receive lib subscriber w of
       (w', Inr (Some x)) \<Rightarrow> receive_loop lib subscriber w' (xs @ [x])
     | (w', _) \<Rightarrow> Some (w', xs))"

partial_function (option) drain_listener :: "('w, 'a) iox \<Rightarrow> iox_handle \<Rightarrow> 'w \<Rightarrow> 'w option" where
  "drain_listener lib listener w = (case ix_try_wait_one lib listener w of
       (w', Inr (Some _)) \<Rightarrow> drain_listener lib listener w'
     | (w', _) \<Rightarrow> Some w')"

text \<open>
  The two loops. \<open>flags\<close> are the values of \<^verbatim>\<open>running\<close> that the thread reads, one per iteration; the
  results of sends are ignored, so what the loop sends is the list of its messages.
\<close>

fun threaded_loop :: "('w, 'a) iox \<Rightarrow> iox_handle \<Rightarrow> bool list \<Rightarrow> u64 \<Rightarrow> 'w \<Rightarrow>
    ('w \<times> 'a message list \<times> (iox_error + (iox_error + unit)) option) option" where
  "threaded_loop lib subscriber [] loop_cycles w = Some (w, [], None)"
| "threaded_loop lib subscriber (running # flags) loop_cycles w =
     (if \<not> running then Some (w, [], Some (Inr (Inr ())))
      else
        let loop_cycles' = loop_cycles + 1;
            w1 = (if loop_cycles' mod 100 = 0 then fst (ix_update_connections lib subscriber w) else w)
        in case receive_loop lib subscriber w1 [] of
             None \<Rightarrow> None
           | Some (w2, xs) \<Rightarrow> (case threaded_loop lib subscriber flags loop_cycles' w2 of
               None \<Rightarrow> None
             | Some (w3, msgs, res) \<Rightarrow> Some (w3, map RealtimeValue xs @ msgs, res)))"

fun signaled_loop :: "('w, 'a) iox \<Rightarrow> iox_handle \<Rightarrow> iox_handle \<Rightarrow> iox_handle \<Rightarrow> bool list \<Rightarrow> 'w \<Rightarrow>
    ('w \<times> 'a message list \<times> (iox_error + (iox_error + unit)) option) option" where
  "signaled_loop lib subscriber ws listener [] w = Some (w, [], None)"
| "signaled_loop lib subscriber ws listener (running # flags) w =
     (if \<not> running then Some (w, [], Some (Inr (Inr ())))
      else case ix_wait lib ws w of
        (w1, Inl e) \<Rightarrow> Some (w1, [], Some (Inl (OtherError e)))
      | (w1, Inr _) \<Rightarrow>
          (case receive_loop lib subscriber (fst (ix_update_connections lib subscriber w1)) [] of
             None \<Rightarrow> None
           | Some (w2, xs) \<Rightarrow> (case drain_listener lib listener w2 of
               None \<Rightarrow> None
             | Some w3 \<Rightarrow> (case signaled_loop lib subscriber ws listener flags w3 of
                 None \<Rightarrow> None
               | Some (w4, msgs, res) \<Rightarrow> Some (w4, map RealtimeValue xs @ msgs, res)))))"

definition create_listener :: "('w, 'a) iox \<Rightarrow> iox_handle \<Rightarrow> bytes \<Rightarrow> iox_variant \<Rightarrow> 'w \<Rightarrow> 'w \<times> (iox_error + iox_handle \<times> iox_handle)" where
  "create_listener lib nd service_name variant w =
     (case open_event_loop lib 25 nd (signal_name service_name) variant None w of
        (w', Inl e) \<Rightarrow> (w', Inl e)
      | (w', Inr event_service) \<Rightarrow>
          try_call (ix_create_listener lib event_service) PortCreationFailed (\<lambda>listener.
          try_call (ix_create_waitset lib variant) OtherError (\<lambda>ws.
          try_call (ix_attach_notification lib ws listener) PortCreationFailed (\<lambda>_ w. (w, Inr (ws, listener))))) w')"

text \<open>\<^verbatim>\<open>run_poll_loop!\<close>\<close>

definition run_poll_loop :: "('w, 'a) iox \<Rightarrow> iox_handle \<Rightarrow> iox_sub_opts \<Rightarrow> bool list \<Rightarrow> bytes \<Rightarrow> iox_handle \<Rightarrow> 'w \<Rightarrow>
    ('w \<times> 'a message list \<times> (iox_error + (iox_error + unit)) option) option" where
  "run_poll_loop lib subscriber opts flags service_name nd w =
     (if so_mode opts = Signaled then (case create_listener lib nd service_name (so_variant opts) w of
          (w', Inl e) \<Rightarrow> Some (w', [], Some (Inl e))
        | (w', Inr (ws, listener)) \<Rightarrow> signaled_loop lib subscriber ws listener flags w')
      else threaded_loop lib subscriber flags 0 w)"

definition run_subscriber_thread :: "('w, 'a) iox \<Rightarrow> bytes \<Rightarrow> iox_sub_opts \<Rightarrow> bool list \<Rightarrow> 'w \<Rightarrow>
    ('w \<times> 'a message list \<times> (iox_error + unit) option) option" where
  "run_subscriber_thread lib service_name opts flags w =
     (case create_subscriber lib service_name (so_variant opts) (so_history_size opts) w of
        (w', Inl e) \<Rightarrow> Some (w', [], Some (Inl e))
      | (w', Inr (nd, subscriber)) \<Rightarrow> (case run_poll_loop lib subscriber opts flags service_name nd w' of
          None \<Rightarrow> None
        | Some (w'', msgs, None) \<Rightarrow> Some (w'', msgs, None)
        | Some (w'', msgs, Some (Inl e)) \<Rightarrow> Some (w'', msgs, Some (Inl e))
        | Some (w'', msgs, Some (Inr res)) \<Rightarrow>
            Some (w'', msgs @ (case res of Inl e \<Rightarrow> [MsgError (iox_anyhow e)] | Inr _ \<Rightarrow> []) @ [EndOfStream], Some res)))"

definition run_slice_subscriber_thread :: "('w, bytes) iox \<Rightarrow> bytes \<Rightarrow> iox_sub_opts \<Rightarrow> bool list \<Rightarrow> 'w \<Rightarrow>
    ('w \<times> bytes message list \<times> (iox_error + unit) option) option" where
  "run_slice_subscriber_thread = run_subscriber_thread"

section \<open>The subscriber nodes\<close>

record ('a, 'c) iox_receiver_stream =
  xr_service_name :: bytes
  xr_opts :: iox_sub_opts
  xr_node :: "iox_handle option"
  xr_subscriber :: "iox_handle option"
  xr_receiver :: "'c option"
  xr_running :: bool
  xr_thread_handle :: bool \<comment> \<open>whether there is a thread to join\<close>
  xr_value :: "'a list"
  xr_cycles :: u64

definition iox_receiver_stream_new :: "bytes \<Rightarrow> iox_sub_opts \<Rightarrow> ('a, 'c) iox_receiver_stream" where
  "iox_receiver_stream_new service_name opts = \<lparr>xr_service_name = service_name, xr_opts = opts, xr_node = None, xr_subscriber = None,
     xr_receiver = None, xr_running = False, xr_thread_handle = False, xr_value = [], xr_cycles = 0\<rparr>"

definition iox_slice_receiver_stream_new :: "bytes \<Rightarrow> iox_sub_opts \<Rightarrow> (bytes, 'c) iox_receiver_stream" where
  "iox_slice_receiver_stream_new = iox_receiver_stream_new"

definition iceoryx2_sub_with :: "bytes \<Rightarrow> iox_variant \<Rightarrow> ('a, 'c) iox_receiver_stream" where
  "iceoryx2_sub_with service_name variant = iox_receiver_stream_new service_name (iox_sub_opts_default\<lparr>so_variant := variant, so_mode := Spin\<rparr>)"

text \<open>The loop over the channel.\<close>

partial_function (option) iox_recv_loop :: "('a, 'c) kanal \<Rightarrow> 'c \<Rightarrow> 'a list \<Rightarrow> ('c \<times> 'a list \<times> (anyhow + unit)) option" where
  "iox_recv_loop kc c vals = (case receiver_try_recv kc c of
       (c', Some (RealtimeValue v)) \<Rightarrow> iox_recv_loop kc c' (vals @ [v])
     | (c', Some EndOfStream) \<Rightarrow> Some (c', vals, Inr ())
     | (c', Some (MsgError e)) \<Rightarrow> Some (c', vals, Inl e)
     | (c', None) \<Rightarrow> Some (c', vals, Inr ())
     | (c', _) \<Rightarrow> iox_recv_loop kc c' vals)"

definition iox_receiver_cycle :: "('w, 'a) iox \<Rightarrow> ('a, 'c) kanal \<Rightarrow> 'w \<Rightarrow> ('a, 'c) iox_receiver_stream \<Rightarrow>
    ('w \<times> ('a, 'c) iox_receiver_stream \<times> (anyhow + bool)) option" where
  "iox_receiver_cycle lib kc w st =
     (let st1 = st\<lparr>xr_value := [], xr_cycles := xr_cycles st + 1\<rparr> in
      case so_mode (xr_opts st) of
        Spin \<Rightarrow> (case xr_subscriber st of
            None \<Rightarrow> Some (w, st1, Inr False)
          | Some subscriber \<Rightarrow>
              (let w1 = (if xr_cycles st1 mod 10 = 0 then fst (ix_update_connections lib subscriber w) else w) in
               case receive_loop lib subscriber w1 [] of
                 None \<Rightarrow> None
               | Some (w2, xs) \<Rightarrow> Some (w2, st1\<lparr>xr_value := xs\<rparr>, Inr (xs \<noteq> []))))
      | _ \<Rightarrow> (case xr_receiver st of
            None \<Rightarrow> Some (w, st1, Inr False)
          | Some c \<Rightarrow> (case iox_recv_loop kc c [] of
              None \<Rightarrow> None
            | Some (c', vals, Inl e) \<Rightarrow> Some (w, st1\<lparr>xr_receiver := Some c', xr_value := vals\<rparr>, Inl e)
            | Some (c', vals, Inr _) \<Rightarrow> Some (w, st1\<lparr>xr_receiver := Some c', xr_value := vals\<rparr>, Inr (vals \<noteq> [])))))"

text \<open>The start: in the modes with a thread, \<open>c\<close> is the new channel and the thread is started.\<close>

definition iox_receiver_start :: "('w, 'a) iox \<Rightarrow> 'c \<Rightarrow> 'w \<Rightarrow> ('a, 'c) iox_receiver_stream \<Rightarrow>
    'w \<times> ('a, 'c) iox_receiver_stream \<times> cmd list \<times> (anyhow + unit)" where
  "iox_receiver_start lib c w st = (case so_mode (xr_opts st) of
       Spin \<Rightarrow> (case create_subscriber lib (xr_service_name st) (so_variant (xr_opts st)) (so_history_size (xr_opts st)) w of
           (w', Inl e) \<Rightarrow> (w', st, [AlwaysCallback], Inl (iox_anyhow e))
         | (w', Inr (nd, subscriber)) \<Rightarrow>
             (w', st\<lparr>xr_node := Some nd, xr_subscriber := Some subscriber\<rparr>, [AlwaysCallback], Inr ()))
     | _ \<Rightarrow> (w, st\<lparr>xr_receiver := Some c, xr_running := True, xr_thread_handle := True\<rparr>, [AlwaysCallback], Inr ()))"

definition iox_receiver_stop :: "('a, 'c) iox_receiver_stream \<Rightarrow> ('a, 'c) iox_receiver_stream \<times> (anyhow + unit)" where
  "iox_receiver_stop st = (st\<lparr>xr_running := False, xr_thread_handle := False, xr_subscriber := None, xr_receiver := None, xr_node := None\<rparr>, Inr ())"

definition iox_slice_receiver_cycle :: "('w, bytes) iox \<Rightarrow> (bytes, 'c) kanal \<Rightarrow> 'w \<Rightarrow> (bytes, 'c) iox_receiver_stream \<Rightarrow>
    ('w \<times> (bytes, 'c) iox_receiver_stream \<times> (anyhow + bool)) option" where
  "iox_slice_receiver_cycle = iox_receiver_cycle"

definition iox_slice_receiver_start :: "('w, bytes) iox \<Rightarrow> 'c \<Rightarrow> 'w \<Rightarrow> (bytes, 'c) iox_receiver_stream \<Rightarrow>
    'w \<times> (bytes, 'c) iox_receiver_stream \<times> cmd list \<times> (anyhow + unit)" where
  "iox_slice_receiver_start = iox_receiver_start"

definition iox_slice_receiver_stop :: "(bytes, 'c) iox_receiver_stream \<Rightarrow> (bytes, 'c) iox_receiver_stream \<times> (anyhow + unit)" where
  "iox_slice_receiver_stop = iox_receiver_stop"

section \<open>The publishers\<close>

text \<open>The macros that make a publisher; \<open>max_slice_len\<close> is given for slices only.\<close>

definition create_publisher_with :: "('w, 'a) iox \<Rightarrow> bytes \<Rightarrow> iox_variant \<Rightarrow> nat \<Rightarrow> nat option \<Rightarrow> 'w \<Rightarrow>
    'w \<times> (iox_error + iox_handle \<times> iox_handle \<times> iox_handle)" where
  "create_publisher_with lib service_name variant history_size max_slice_len =
     try_call (ix_create_node lib variant) NodeCreationFailed (\<lambda>nd.
       let contract = iox_service_contract_new history_size in
       try_call (\<lambda>w. (w, ix_service_name lib service_name)) OtherError (\<lambda>_.
       try_call (ix_open_pubsub lib nd service_name history_size (ic_subscriber_max_buffer_size contract))
         (service_open_err_with_context service_name variant contract) (\<lambda>service.
       try_call (ix_create_publisher lib service max_slice_len) PortCreationFailed (\<lambda>publisher.
       try_call (ix_update_connections lib publisher) PortCreationFailed (\<lambda>_ w.
         case open_event_loop lib 25 nd (signal_name service_name) variant None w of
           (w', Inl e) \<Rightarrow> (w', Inl e)
         | (w', Inr event_service) \<Rightarrow>
             try_call (ix_create_notifier lib event_service) PortCreationFailed (\<lambda>notifier w. (w, Inr (nd, publisher, notifier))) w')))))"

definition create_publisher_and_notifier :: "('w, 'a) iox \<Rightarrow> bytes \<Rightarrow> iox_variant \<Rightarrow> nat \<Rightarrow> 'w \<Rightarrow>
    'w \<times> (iox_error + iox_handle \<times> iox_handle \<times> iox_handle)" where
  "create_publisher_and_notifier lib service_name variant history_size = create_publisher_with lib service_name variant history_size None"

definition create_slice_publisher_and_notifier :: "('w, bytes) iox \<Rightarrow> bytes \<Rightarrow> iox_variant \<Rightarrow> nat \<Rightarrow> nat \<Rightarrow> 'w \<Rightarrow>
    'w \<times> (iox_error + iox_handle \<times> iox_handle \<times> iox_handle)" where
  "create_slice_publisher_and_notifier lib service_name variant history_size initial_max_slice_len =
     create_publisher_with lib service_name variant history_size (Some initial_max_slice_len)"

record iox_publisher =
  xp_upstream :: node
  xp_service_name :: bytes
  xp_opts :: iox_pub_slice_opts \<comment> \<open>the length is used by the slice publisher only\<close>
  xp_node :: "iox_handle option"
  xp_publisher :: "iox_handle option"
  xp_notifier :: "iox_handle option"
  xp_cycles :: u64

definition iox_publisher_new :: "node \<Rightarrow> bytes \<Rightarrow> iox_pub_slice_opts \<Rightarrow> iox_publisher" where
  "iox_publisher_new upstream service_name opts = \<lparr>xp_upstream = upstream, xp_service_name = service_name, xp_opts = opts,
     xp_node = None, xp_publisher = None, xp_notifier = None, xp_cycles = 0\<rparr>"

text \<open>The loop over a burst: what was sent, and the error that ended it.\<close>

fun send_loop :: "('w, 'a) iox \<Rightarrow> ('a \<Rightarrow> nat option) \<Rightarrow> iox_handle \<Rightarrow> 'a list \<Rightarrow> 'w \<Rightarrow> 'w \<times> 'a list \<times> (iox_error + unit)" where
  "send_loop lib len publisher [] w = (w, [], Inr ())"
| "send_loop lib len publisher (data # burst) w = (case ix_loan lib publisher (len data) w of
       (w1, Inl e) \<Rightarrow> (w1, [], Inl (TransmissionError e))
     | (w1, Inr sample) \<Rightarrow> (case ix_send lib sample data w1 of
         (w2, Inl e) \<Rightarrow> (w2, [], Inl (TransmissionError e))
       | (w2, Inr _) \<Rightarrow> (case send_loop lib len publisher burst w2 of (w3, sent, res) \<Rightarrow> (w3, data # sent, res))))"

definition notifier_notify :: "('w, 'a) iox \<Rightarrow> iox_handle \<Rightarrow> 'w \<Rightarrow> 'w \<times> (anyhow + unit)" where
  "notifier_notify lib notifier w = (case ix_notify lib notifier w of
       (w', Inl e) \<Rightarrow> (w', Inl (iox_anyhow (TransmissionError e)))
     | (w', Inr _) \<Rightarrow> (w', Inr ()))"

definition publisher_cycle_with :: "('w, 'a) iox \<Rightarrow> ('a \<Rightarrow> nat option) \<Rightarrow> (node \<Rightarrow> 'a list) \<Rightarrow> 'w \<Rightarrow> iox_publisher \<Rightarrow>
    'w \<times> iox_publisher \<times> (anyhow + bool)" where
  "publisher_cycle_with lib len peek w st = (case xp_publisher st of
       None \<Rightarrow> (w, st, Inr False)
     | Some publisher \<Rightarrow>
         (let st1 = st\<lparr>xp_cycles := xp_cycles st + 1\<rparr> in
          case (if xp_cycles st1 mod 10 = 0 then ix_update_connections lib publisher w else (w, Inr ())) of
            (w1, Inl e) \<Rightarrow> (w1, st1, Inl (Anyhow ''ConnectionFailure''))
          | (w1, Inr _) \<Rightarrow> (case send_loop lib len publisher (peek (xp_upstream st)) w1 of
              (w2, sent, Inl e) \<Rightarrow> (w2, st1, Inl (iox_anyhow e))
            | (w2, sent, Inr _) \<Rightarrow>
                (case xp_notifier st of
                   Some n \<Rightarrow> if sent \<noteq> [] then (case notifier_notify lib n w2 of
                         (w3, Inl e) \<Rightarrow> (w3, st1, Inl e)
                       | (w3, Inr _) \<Rightarrow> (w3, st1, Inr True))
                     else (w2, st1, Inr False)
                 | None \<Rightarrow> (w2, st1, Inr (sent \<noteq> []))))))"

definition iox_publisher_cycle :: "('w, 'a) iox \<Rightarrow> (node \<Rightarrow> 'a list) \<Rightarrow> 'w \<Rightarrow> iox_publisher \<Rightarrow> 'w \<times> iox_publisher \<times> (anyhow + bool)" where
  "iox_publisher_cycle lib = publisher_cycle_with lib (\<lambda>_. None)"

definition iox_slice_publisher_cycle :: "('w, bytes) iox \<Rightarrow> (node \<Rightarrow> bytes list) \<Rightarrow> 'w \<Rightarrow> iox_publisher \<Rightarrow>
    'w \<times> iox_publisher \<times> (anyhow + bool)" where
  "iox_slice_publisher_cycle lib = publisher_cycle_with lib (\<lambda>data. Some (length data))"

definition iox_publisher_start :: "('w, 'a) iox \<Rightarrow> 'w \<Rightarrow> iox_publisher \<Rightarrow> 'w \<times> iox_publisher \<times> (anyhow + unit)" where
  "iox_publisher_start lib w st =
     (case create_publisher_and_notifier lib (xp_service_name st) (po_variant (xp_opts st)) (po_history_size (xp_opts st)) w of
        (w', Inl e) \<Rightarrow> (w', st, Inl (iox_anyhow e))
      | (w', Inr (nd, publisher, notifier)) \<Rightarrow>
          (w', st\<lparr>xp_node := Some nd, xp_publisher := Some publisher, xp_notifier := Some notifier\<rparr>, Inr ()))"

definition iox_slice_publisher_start :: "('w, bytes) iox \<Rightarrow> 'w \<Rightarrow> iox_publisher \<Rightarrow> 'w \<times> iox_publisher \<times> (anyhow + unit)" where
  "iox_slice_publisher_start lib w st =
     (case create_slice_publisher_and_notifier lib (xp_service_name st) (po_variant (xp_opts st)) (po_history_size (xp_opts st))
         (po_initial_max_slice_len (xp_opts st)) w of
        (w', Inl e) \<Rightarrow> (w', st, Inl (iox_anyhow e))
      | (w', Inr (nd, publisher, notifier)) \<Rightarrow>
          (w', st\<lparr>xp_node := Some nd, xp_publisher := Some publisher, xp_notifier := Some notifier\<rparr>, Inr ()))"

definition iox_publisher_stop :: "iox_publisher \<Rightarrow> iox_publisher \<times> (anyhow + unit)" where
  "iox_publisher_stop st = (st\<lparr>xp_publisher := None, xp_notifier := None, xp_node := None\<rparr>, Inr ())"

definition iox_publisher_upstreams :: "iox_publisher \<Rightarrow> node list \<times> node list" where
  "iox_publisher_upstreams st = ([xp_upstream st], [])"

section \<open>Fixed buffers\<close>

lemma fixed_bytes_slice: "fixed_bytes_as_slice (fixed_bytes_new n bytes) = Some (take n bytes)"
  by (simp add: fixed_bytes_as_slice_def fixed_bytes_new_def Let_def min_def)

section \<open>Polling\<close>

text \<open>\<open>delivers\<close>: in this world the subscriber receives exactly these samples before it finds none.\<close>

fun delivers :: "('w, 'a) iox \<Rightarrow> iox_handle \<Rightarrow> 'w \<Rightarrow> 'a list \<Rightarrow> bool" where
  "delivers lib subscriber w [] \<longleftrightarrow> (\<forall>w' x. ix_receive lib subscriber w \<noteq> (w', Inr (Some x)))"
| "delivers lib subscriber w (x # xs) \<longleftrightarrow> (\<exists>w'. ix_receive lib subscriber w = (w', Inr (Some x)) \<and> delivers lib subscriber w' xs)"

lemma receive_loop_delivers:
  "delivers lib subscriber w xs \<Longrightarrow> \<exists>w'. receive_loop lib subscriber w acc = Some (w', acc @ xs)"
proof (induction xs arbitrary: w acc)
  case Nil
  then show ?case by (subst receive_loop.simps) (auto split: prod.splits sum.splits option.splits)
next
  case (Cons x xs)
  then obtain w' where w: "ix_receive lib subscriber w = (w', Inr (Some x))" "delivers lib subscriber w' xs" by auto
  from Cons.IH[OF w(2), of "acc @ [x]"] w(1) show ?case by (subst receive_loop.simps) simp
qed

text \<open>A spinning subscriber emits exactly the samples that are there, in order, and ticks if there are any.\<close>

lemma iox_spin_cycle_exact:
  assumes "so_mode (xr_opts st) = Spin" "xr_subscriber st = Some subscriber"
    "delivers lib subscriber (if (xr_cycles st + 1) mod 10 = 0 then fst (ix_update_connections lib subscriber w) else w) xs"
  shows "\<exists>w' st'. iox_receiver_cycle lib kc w st = Some (w', st', Inr (xs \<noteq> [])) \<and> xr_value st' = xs"
proof -
  let ?w = "if (xr_cycles st + 1) mod 10 = 0 then fst (ix_update_connections lib subscriber w) else w"
  obtain w' where l: "receive_loop lib subscriber ?w [] = Some (w', xs)" using receive_loop_delivers[OF assms(3), of "[]"] by auto
  have "iox_receiver_cycle lib kc w st = Some (w', st\<lparr>xr_value := xs, xr_cycles := xr_cycles st + 1\<rparr>, Inr (xs \<noteq> []))"
    unfolding iox_receiver_cycle_def Let_def using assms(1,2) l by (simp cong: if_cong)
  then show ?thesis by simp
qed

text \<open>
  The messages of the loops are the values received; the loop of the mode \<^verbatim>\<open>Threaded\<close> ends without an
  error only, and the other one leaves the thread function if it fails.
\<close>

lemma threaded_loop_forwards:
  "threaded_loop lib subscriber flags k w = Some (w', msgs, res) \<Longrightarrow>
    \<exists>xs. msgs = map RealtimeValue xs \<and> (res = None \<or> res = Some (Inr (Inr ())))"
proof (induction flags arbitrary: k w msgs)
  case (Cons f flags)
  show ?case
  proof (cases f)
    case False
    with Cons.prems show ?thesis by auto
  next
    case True
    then obtain w2 xs msgs' where "threaded_loop lib subscriber flags (k + 1) w2 = Some (w', msgs', res)" "msgs = map RealtimeValue xs @ msgs'"
      using Cons.prems by (auto simp: Let_def split: option.splits prod.splits)
    with Cons.IH obtain ys where "msgs = map RealtimeValue (xs @ ys)" "res = None \<or> res = Some (Inr (Inr ()))" by fastforce
    then show ?thesis by blast
  qed
qed simp

lemma signaled_loop_forwards:
  "signaled_loop lib subscriber ws listener flags w = Some (w', msgs, res) \<Longrightarrow>
    \<exists>xs. msgs = map RealtimeValue xs \<and> (res = None \<or> res = Some (Inr (Inr ())) \<or> (\<exists>e. res = Some (Inl e)))"
proof (induction flags arbitrary: w msgs)
  case (Cons f flags)
  show ?case
  proof (cases "f \<and> (\<exists>w1. ix_wait lib ws w = (w1, Inr ()))")
    case False
    with Cons.prems show ?thesis by (auto split: prod.splits sum.splits if_splits)
  next
    case True
    then obtain w3 xs msgs' where "signaled_loop lib subscriber ws listener flags w3 = Some (w', msgs', res)" "msgs = map RealtimeValue xs @ msgs'"
      using Cons.prems by (auto split: option.splits prod.splits)
    with Cons.IH obtain ys where "msgs = map RealtimeValue (xs @ ys)" "res = None \<or> res = Some (Inr (Inr ())) \<or> (\<exists>e. res = Some (Inl e))"
      by fastforce
    then show ?thesis by blast
  qed
qed simp

lemma run_poll_loop_forwards:
  assumes "run_poll_loop lib subscriber opts flags name nd w = Some (w', msgs, res)"
  shows "\<exists>xs. msgs = map RealtimeValue xs \<and> (res = None \<or> res = Some (Inr (Inr ())) \<or> (\<exists>e. res = Some (Inl e)))"
proof (cases "so_mode opts = Signaled")
  case False
  with assms threaded_loop_forwards show ?thesis by (fastforce simp: run_poll_loop_def)
next
  case True
  obtain w1 r where r: "create_listener lib nd name (so_variant opts) w = (w1, r)" by (cases "create_listener lib nd name (so_variant opts) w")
  show ?thesis
  proof (cases r)
    case (Inl e)
    with assms True r show ?thesis by (auto simp: run_poll_loop_def)
  next
    case (Inr p)
    with assms True r show ?thesis by (cases p) (auto simp: run_poll_loop_def dest: signaled_loop_forwards)
  qed
qed

text \<open>The thread sends values and, if it ends without an error, the end of the stream: no error is ever sent.\<close>

lemma thread_messages:
  assumes "run_subscriber_thread lib name opts flags w = Some (w', msgs, res)"
  shows "\<exists>xs. msgs = map RealtimeValue xs @ (if res = Some (Inr ()) then [EndOfStream] else [])"
proof -
  obtain w1 r where r: "create_subscriber lib name (so_variant opts) (so_history_size opts) w = (w1, r)"
    by (cases "create_subscriber lib name (so_variant opts) (so_history_size opts) w")
  show ?thesis
  proof (cases r)
    case (Inl e)
    with assms r show ?thesis by (auto simp: run_subscriber_thread_def)
  next
    case (Inr p)
    obtain nd subscriber where p: "p = (nd, subscriber)" by (cases p)
    obtain w2 msgs2 res2 where l: "run_poll_loop lib subscriber opts flags name nd w1 = Some (w2, msgs2, res2)"
      using assms r Inr p by (auto simp: run_subscriber_thread_def split: option.splits)
    from run_poll_loop_forwards[OF l] obtain xs where xs: "msgs2 = map RealtimeValue xs"
      "res2 = None \<or> res2 = Some (Inr (Inr ())) \<or> (\<exists>e. res2 = Some (Inl e))" by blast
    with assms r Inr p l show ?thesis by (auto simp: run_subscriber_thread_def)
  qed
qed

section \<open>The node of a thread\<close>

text \<open>The cycles of a node: the results with the values.\<close>

fun iox_cycles :: "('w, 'a) iox \<Rightarrow> ('a, 'c) kanal \<Rightarrow> nat \<Rightarrow> 'w \<Rightarrow> ('a, 'c) iox_receiver_stream \<Rightarrow>
    ((anyhow + bool) \<times> 'a list) list option" where
  "iox_cycles lib kc 0 w st = Some []"
| "iox_cycles lib kc (Suc n) w st = (case iox_receiver_cycle lib kc w st of
       None \<Rightarrow> None
     | Some (w', st', r) \<Rightarrow> map_option (Cons (r, xr_value st')) (iox_cycles lib kc n w' st'))"

text \<open>A channel on which a receive that finds nothing says so, or that the other end is gone.\<close>

locale quiet_channel = fifo_channel kc pending
  for kc :: "('a, 'c) kanal" and pending :: "'c \<Rightarrow> 'a message list" +
  assumes try_empty: "pending c = [] \<Longrightarrow>
    \<exists>c'. pending c' = [] \<and> (kn_try_recv kc c = (c', Inr None) \<or> kn_try_recv kc c = (c', Inl ()))"
begin

lemma recv_loop_prefix:
  assumes "pending c = map RealtimeValue xs @ rest" "rest = [] \<or> rest = [EndOfStream]"
  shows "\<exists>ys zs rest' c'. xs = ys @ zs \<and> iox_recv_loop kc c vals = Some (c', vals @ ys, Inr ()) \<and>
    pending c' = map RealtimeValue zs @ rest' \<and> (rest' = [] \<or> rest' = [EndOfStream])"
  using assms(1)
proof (induction xs arbitrary: c vals)
  case Nil
  then consider "pending c = []" | "pending c = EndOfStream # []" using assms(2) by auto
  then show ?case
  proof cases
    case 1
    from try_empty[OF this] show ?thesis
      by (intro exI[of _ "[]"]) (auto simp: iox_recv_loop.simps[of kc c] receiver_try_recv_def)
  next
    case 2
    from try_next[OF this] consider
      (late) c' where "kn_try_recv kc c = (c', Inr None)" "pending c' = [EndOfStream]"
      | (arrived) c' where "kn_try_recv kc c = (c', Inr (Some EndOfStream))" "pending c' = []" by blast
    then show ?thesis
    proof cases
      case late
      then show ?thesis by (intro exI[of _ "[]"] exI[of _ "[]"] exI[of _ "[EndOfStream]"] exI[of _ c'])
        (simp add: iox_recv_loop.simps[of kc c] receiver_try_recv_def)
    next
      case arrived
      then show ?thesis by (intro exI[of _ "[]"] exI[of _ "[]"] exI[of _ "[]"] exI[of _ c'])
        (simp add: iox_recv_loop.simps[of kc c] receiver_try_recv_def)
    qed
  qed
next
  case (Cons x xs)
  then have "pending c = RealtimeValue x # (map RealtimeValue xs @ rest)" by simp
  from try_next[OF this] consider
    (late) c' where "kn_try_recv kc c = (c', Inr None)" "pending c' = RealtimeValue x # (map RealtimeValue xs @ rest)"
    | (arrived) c' where "kn_try_recv kc c = (c', Inr (Some (RealtimeValue x)))" "pending c' = map RealtimeValue xs @ rest" by blast
  then show ?case
  proof cases
    case late
    then show ?thesis using assms(2)
      by (intro exI[of _ "[]"] exI[of _ "x # xs"] exI[of _ rest] exI[of _ c']) (simp add: iox_recv_loop.simps[of kc c] receiver_try_recv_def)
  next
    case arrived
    from Cons.IH[OF arrived(2), of "vals @ [x]"] obtain ys zs rest' c'' where "xs = ys @ zs"
      "iox_recv_loop kc c' (vals @ [x]) = Some (c'', (vals @ [x]) @ ys, Inr ())" "pending c'' = map RealtimeValue zs @ rest'"
      "rest' = [] \<or> rest' = [EndOfStream]" by (elim exE conjE)
    with arrived(1) show ?thesis
      by (intro exI[of _ "x # ys"] exI[of _ zs] exI[of _ rest'] exI[of _ c'']) (simp add: iox_recv_loop.simps[of kc c] receiver_try_recv_def)
  qed
qed

text \<open>The cycles return without an error and emit the values in order, as far as they have arrived.\<close>

lemma iox_cycles_prefix:
  assumes "so_mode (xr_opts st) \<noteq> Spin" "xr_receiver st = Some c" "pending c = map RealtimeValue xs @ rest" "rest = [] \<or> rest = [EndOfStream]"
  shows "\<exists>rs later. iox_cycles lib kc n w st = Some rs \<and> concat (map snd rs) @ later = xs \<and>
    (\<forall>r \<in> set rs. fst r = Inr (snd r \<noteq> []))"
  using assms
proof (induction n arbitrary: st c xs rest)
  case (Suc n)
  from recv_loop_prefix[OF Suc.prems(3,4), of "[]"] obtain ys zs rest' c' where l: "xs = ys @ zs"
    "iox_recv_loop kc c [] = Some (c', ys, Inr ())" "pending c' = map RealtimeValue zs @ rest'" "rest' = [] \<or> rest' = [EndOfStream]"
    by (metis append_Nil)
  define st' where "st' = st\<lparr>xr_cycles := xr_cycles st + 1, xr_receiver := Some c', xr_value := ys\<rparr>"
  have "iox_receiver_cycle lib kc w st = Some (w, st', Inr (ys \<noteq> []))"
    using Suc.prems(1,2) l(2) by (cases "so_mode (xr_opts st)") (simp_all add: iox_receiver_cycle_def Let_def st'_def)
  moreover from Suc.IH[of st' c' zs rest'] Suc.prems(1) l(3,4) obtain rs later where
    "iox_cycles lib kc n w st' = Some rs" "concat (map snd rs) @ later = zs" "\<forall>r \<in> set rs. fst r = Inr (snd r \<noteq> [])"
    by (auto simp: st'_def)
  ultimately show ?case using l(1)
    by (intro exI[of _ "(Inr (ys \<noteq> []), ys) # rs"] exI[of _ later]) (simp add: st'_def)
qed simp

end

interpretation sched_quiet: quiet_channel scheduled_queue sq_messages
  by unfold_locales (auto simp: scheduled_queue_def sq_try_recv_def)

section \<open>Properties\<close>

text \<open>
  C33. The errors of a subscriber thread are lost. Let the thread of a subscriber in the mode
  \<^verbatim>\<open>Threaded\<close> or \<^verbatim>\<open>Signaled\<close> end with an error. Then the node has started, and all its cycles return without
  an error, however many, at whatever times the messages of the thread arrive. If the subscriber
  could not even be created, there are no messages and the node never ticks, while a spinning
  subscriber in the same situation reports the error at its start.
\<close>

theorem iox_thread_error_silent:
  fixes lib :: "('w, 'a) iox" and kc :: "('a, 'c) kanal"
  assumes thread: "run_subscriber_thread lib name opts flags w = Some (w', msgs, Some (Inl e))" "so_mode opts \<noteq> Spin"
    and chan: "quiet_channel kc pending" "pending c = msgs"
  shows "\<exists>st. iox_receiver_start lib c w0 (iox_receiver_stream_new name opts) = (w0, st, [AlwaysCallback], Inr ()) \<and>
    (\<exists>rs. iox_cycles lib kc n w0 st = Some rs \<and> (\<forall>r \<in> set rs. fst r = Inr (snd r \<noteq> [])) \<and>
      (\<forall>w1 e1. create_subscriber lib name (so_variant opts) (so_history_size opts) w = (w1, Inl e1) \<longrightarrow>
        (\<forall>r \<in> set rs. r = (Inr False, [])) \<and>
        (\<exists>st'. iox_receiver_start lib c w (iox_receiver_stream_new name (opts\<lparr>so_mode := Spin\<rparr>)) = (w1, st', [AlwaysCallback], Inl (iox_anyhow e1)))))"
proof -
  define st :: "('a, 'c) iox_receiver_stream" where "st = (iox_receiver_stream_new name opts)\<lparr>xr_receiver := Some c, xr_running := True, xr_thread_handle := True\<rparr>"
  have start: "iox_receiver_start lib c w0 (iox_receiver_stream_new name opts) = (w0, st, [AlwaysCallback], Inr ())"
    using thread(2) by (cases "so_mode opts") (simp_all add: iox_receiver_start_def iox_receiver_stream_new_def st_def)
  obtain xs where xs: "msgs = map RealtimeValue xs @ []" using thread_messages[OF thread(1)] by auto
  have "so_mode (xr_opts st) \<noteq> Spin" "xr_receiver st = Some c" using thread(2) by (simp_all add: st_def iox_receiver_stream_new_def)
  from quiet_channel.iox_cycles_prefix[OF chan(1) this chan(2)[unfolded xs], of lib n w0] obtain rs later where
    rs: "iox_cycles lib kc n w0 st = Some rs" "concat (map snd rs) @ later = xs" "\<forall>r \<in> set rs. fst r = Inr (snd r \<noteq> [])" by auto
  have "(\<forall>r \<in> set rs. r = (Inr False, [])) \<and>
      (\<exists>st'. iox_receiver_start lib c w (iox_receiver_stream_new name (opts\<lparr>so_mode := Spin\<rparr>)) = (w1, st', [AlwaysCallback], Inl (iox_anyhow e1)))"
    if cs: "create_subscriber lib name (so_variant opts) (so_history_size opts) w = (w1, Inl e1)" for w1 e1
  proof -
    have "xs = []" using thread(1) cs xs by (simp add: run_subscriber_thread_def)
    then have "\<forall>r \<in> set rs. snd r = []" using rs(2) by simp
    with rs(3) have "\<forall>r \<in> set rs. r = (Inr False, [])" by (auto simp: prod_eq_iff)
    with cs show ?thesis by (simp add: iox_receiver_start_def iox_receiver_stream_new_def)
  qed
  with start rs(1,3) show ?thesis by blast
qed

text \<open>A crate that rejects every service name.\<close>

definition rejecting_iox :: "(unit, nat) iox" where
  "rejecting_iox = \<lparr>ix_service_name = (\<lambda>_. Inl (ascii ''invalid'')), ix_create_node = (\<lambda>_ w. (w, Inr 0)),
     ix_open_pubsub = (\<lambda>_ _ _ _ w. (w, Inr 0)), ix_open_event = (\<lambda>_ _ w. (w, Inr 0)), ix_create_subscriber = (\<lambda>_ _ w. (w, Inr 0)),
     ix_create_publisher = (\<lambda>_ _ w. (w, Inr 0)), ix_create_listener = (\<lambda>_ w. (w, Inr 0)), ix_create_notifier = (\<lambda>_ w. (w, Inr 0)),
     ix_create_waitset = (\<lambda>_ w. (w, Inr 0)), ix_attach_notification = (\<lambda>_ _ w. (w, Inr 0)), ix_update_connections = (\<lambda>_ w. (w, Inr ())),
     ix_receive = (\<lambda>_ w. (w, Inr None)), ix_wait = (\<lambda>_ w. (w, Inr ())), ix_try_wait_one = (\<lambda>_ w. (w, Inr None)),
     ix_loan = (\<lambda>_ _ w. (w, Inr 0)), ix_send = (\<lambda>_ _ w. (w, Inr ())), ix_notify = (\<lambda>_ w. (w, Inr ()))\<rparr>"

lemma rejecting_thread:
  "create_subscriber rejecting_iox [] Ipc 5 () = ((), Inl (OtherError (ascii ''invalid'')))"
  "run_subscriber_thread rejecting_iox [] (iox_sub_opts_default\<lparr>so_mode := Threaded\<rparr>) [True] () = Some ((), [], Some (Inl (OtherError (ascii ''invalid''))))"
  by (simp_all add: run_subscriber_thread_def create_subscriber_def try_call_def rejecting_iox_def Let_def
      iox_sub_opts_default_def ICEORYX2_DEFAULT_HISTORY_SIZE_def)

theorem iox_thread_error_silent_witness:
  "\<exists>st rs. iox_receiver_start rejecting_iox \<lparr>sq_messages = [], sq_arrivals = []\<rparr> ()
       (iox_receiver_stream_new [] (iox_sub_opts_default\<lparr>so_mode := Threaded\<rparr>)) = ((), st, [AlwaysCallback], Inr ()) \<and>
     iox_cycles rejecting_iox scheduled_queue 100 () st = Some rs \<and> (\<forall>r \<in> set rs. r = (Inr False, []))"
proof -
  have "so_mode (iox_sub_opts_default\<lparr>so_mode := Threaded\<rparr>) \<noteq> Spin" "so_variant (iox_sub_opts_default\<lparr>so_mode := Threaded\<rparr>) = Ipc"
    "so_history_size (iox_sub_opts_default\<lparr>so_mode := Threaded\<rparr>) = 5"
    by (simp_all add: iox_sub_opts_default_def ICEORYX2_DEFAULT_HISTORY_SIZE_def)
  with iox_thread_error_silent[OF rejecting_thread(2) _ sched_quiet.quiet_channel_axioms, of "\<lparr>sq_messages = [], sq_arrivals = []\<rparr>" "()" 100]
    rejecting_thread(1) show ?thesis by fastforce
qed

section \<open>Publishing\<close>

text \<open>A loop that does not fail has sent the burst, in order; one that fails has sent a part of it and nothing after.\<close>

lemma send_loop_sends:
  "send_loop lib len publisher burst w = (w', sent, res) \<Longrightarrow>
    \<exists>rest. burst = sent @ rest \<and> (res = Inr () \<longleftrightarrow> rest = [])"
proof (induction burst arbitrary: w sent)
  case (Cons d burst)
  obtain w1 r1 where l: "ix_loan lib publisher (len d) w = (w1, r1)" by (cases "ix_loan lib publisher (len d) w")
  show ?case
  proof (cases r1)
    case (Inl e)
    with Cons.prems l show ?thesis by auto
  next
    case (Inr sample)
    obtain w2 r2 where s: "ix_send lib sample d w1 = (w2, r2)" by (cases "ix_send lib sample d w1")
    obtain w3 sent' res' where rec: "send_loop lib len publisher burst w2 = (w3, sent', res')" by (metis prod_cases3)
    show ?thesis
    proof (cases r2)
      case (Inl e)
      with Cons.prems l Inr s show ?thesis by auto
    next
      case r2: (Inr u)
      with Cons.prems l Inr s rec have "sent = d # sent'" "res = res'" "w' = w3" by auto
      with Cons.IH rec show ?thesis by auto
    qed
  qed
qed simp

text \<open>
  A cycle of a publisher that returns has sent the whole burst, and ticks exactly if the burst was
  not empty.
\<close>

lemma publisher_cycle_exact:
  assumes "xp_publisher st = Some publisher" "publisher_cycle_with lib len peek w st = (w', st', Inr ticks)"
  shows "\<exists>w1 w2. send_loop lib len publisher (peek (xp_upstream st)) w1 = (w2, peek (xp_upstream st), Inr ()) \<and>
    (ticks \<longleftrightarrow> peek (xp_upstream st) \<noteq> []) \<and>
    w' = (case xp_notifier st of Some n \<Rightarrow> if ticks then fst (ix_notify lib n w2) else w2 | None \<Rightarrow> w2)"
proof -
  obtain w1 r1 where u: "(if (xp_cycles st + 1) mod 10 = 0 then ix_update_connections lib publisher w else (w, Inr ())) = (w1, r1)"
    by (metis surj_pair)
  obtain w2 sent res where s: "send_loop lib len publisher (peek (xp_upstream st)) w1 = (w2, sent, res)" by (metis prod_cases3)
  have r: "r1 = Inr ()" "res = Inr ()"
    using assms u s by (auto simp: publisher_cycle_with_def Let_def split: sum.splits)
  with send_loop_sends[OF s] have "sent = peek (xp_upstream st)" by auto
  moreover have "w' = (case xp_notifier st of Some n \<Rightarrow> if ticks then fst (ix_notify lib n w2) else w2 | None \<Rightarrow> w2)" "ticks \<longleftrightarrow> sent \<noteq> []"
    using assms u s r by (auto simp: publisher_cycle_with_def Let_def notifier_notify_def split: option.splits if_splits prod.splits sum.splits)
  ultimately show ?thesis using s r(2) by blast
qed

end
