(* ===== verification/Etcd.thy ===== *)
theory Etcd
  imports Async_Io Rust_Strings
begin

text \<open>
  The etcd adapter: \<^verbatim>\<open>adapters/etcd/\<close>. The crate \<^verbatim>\<open>etcd_client\<close> is a parameter, the record \<open>etcd_client\<close> of the
  calls the adapter makes over the state \<open>'s\<close> of a client; a watch is the list of what its stream has
  yielded so far, \<open>None\<close> for its end. Revisions are compared only and are integers. Of the error
  messages the rendered values are left out.

  The main theorem (\<open>etcd_sub_mirrors\<close>): applied one after the other to an empty map, the events of a
  subscription give the key-value pairs the server holds under the prefix, however the writes fall
  between the opening of the watch, the snapshot and the responses. \<open>etcd_put_all_written\<close>: the
  publisher writes every entry once, in order. \<open>renewal_too_late\<close>: a lease of less than two
  seconds is renewed only when it has expired.
\<close>

section \<open>Entries and events\<close>

record etcd_connection =
  ec_endpoints :: "bytes list"

definition etcd_connection_new :: "bytes \<Rightarrow> etcd_connection" where
  "etcd_connection_new endpoint = \<lparr>ec_endpoints = [endpoint]\<rparr>"

definition etcd_connection_with_endpoints :: "bytes list \<Rightarrow> etcd_connection" where
  "etcd_connection_with_endpoints endpoints = \<lparr>ec_endpoints = endpoints\<rparr>"

record etcd_entry =
  ee_key :: bytes
  ee_value :: bytes

definition etcd_value_str :: "etcd_entry \<Rightarrow> bytes option" where
  "etcd_value_str entry = from_utf8 (ee_value entry)"

datatype etcd_event_kind = Put | Delete

record etcd_event =
  ev_kind :: etcd_event_kind
  ev_entry :: etcd_entry
  ev_revision :: int

section \<open>The client\<close>

text \<open>A key-value pair and the responses, as far as the adapter reads them.\<close>

record etcd_kv =
  kv_key :: bytes
  kv_value :: bytes
  kv_mod_revision :: int

record watch_response =
  wr_created :: bool
  wr_canceled :: bool
  wr_events :: "(etcd_event_kind \<times> etcd_kv option) list"

record get_response =
  gr_revision :: "int option" \<comment> \<open>the revision of the header\<close>
  gr_kvs :: "etcd_kv list"

record 's etcd_client =
  et_connect :: "bytes list \<Rightarrow> anyhow + 's"
  et_watch :: "'s \<Rightarrow> bytes \<Rightarrow> 's \<times> (anyhow + (anyhow + watch_response) option list)"
  et_get :: "'s \<Rightarrow> bytes \<Rightarrow> 's \<times> (anyhow + get_response)"
  et_lease_grant :: "'s \<Rightarrow> int \<Rightarrow> 's \<times> (anyhow + int)"
  et_lease_keep_alive :: "'s \<Rightarrow> int \<Rightarrow> 's \<times> (anyhow + unit)"
  et_lease_revoke :: "'s \<Rightarrow> int \<Rightarrow> 's \<times> (anyhow + unit)"
  et_put :: "'s \<Rightarrow> bytes \<Rightarrow> bytes \<Rightarrow> int option \<Rightarrow> 's \<times> (anyhow + unit)"
  et_txn_put_absent :: "'s \<Rightarrow> bytes \<Rightarrow> bytes \<Rightarrow> int option \<Rightarrow> 's \<times> (anyhow + bool)" \<comment> \<open>put when the create revision is 0; whether it succeeded\<close>

section \<open>Lossy decoding\<close>

text \<open>
  \<^verbatim>\<open>String::from_utf8_lossy\<close>: the length of the well-formed character at the head of the bytes, if any, and
  otherwise of the longest beginning of one, at least one byte, which is replaced by \<^verbatim>\<open>U+FFFD\<close>.
\<close>

definition utf8_char_len :: "bytes \<Rightarrow> nat option" where
  "utf8_char_len bs = List.find (\<lambda>k. k \<le> length bs \<and> utf8_valid (take k bs)) [1, 2, 3, 4]"

definition utf8_begins :: "bytes \<Rightarrow> bool" where
  "utf8_begins bs = (case bs of
       [b, c] \<Rightarrow> utf8_valid [b, c, 0x80] \<or> utf8_valid [b, c, 0x80, 0x80]
     | [b, c, d] \<Rightarrow> utf8_valid [b, c, d, 0x80]
     | _ \<Rightarrow> length bs = 1)"

definition utf8_bad_len :: "bytes \<Rightarrow> nat" where
  "utf8_bad_len bs = (case List.find (\<lambda>k. k \<le> length bs \<and> utf8_begins (take k bs)) [3, 2] of Some k \<Rightarrow> k | None \<Rightarrow> 1)"

function from_utf8_lossy :: "bytes \<Rightarrow> bytes" where
  "from_utf8_lossy [] = []"
| "from_utf8_lossy (b # bs) = (case utf8_char_len (b # bs) of
       Some k \<Rightarrow> take k (b # bs) @ from_utf8_lossy (drop k (b # bs))
     | None \<Rightarrow> [0xEF, 0xBF, 0xBD] @ from_utf8_lossy (drop (utf8_bad_len (b # bs)) (b # bs)))"
  by pat_completeness auto
termination
proof (relation "measure length")
  have "utf8_char_len (b # bs) = Some k \<Longrightarrow> 0 < k" for b bs k
    unfolding utf8_char_len_def by (auto split: if_splits)
  then show "utf8_char_len (b # bs) = Some k \<Longrightarrow> (drop k (b # bs), b # bs) \<in> measure length" for b bs k by auto
  have "0 < utf8_bad_len bs" for bs unfolding utf8_bad_len_def by (auto split: if_splits)
  then show "utf8_char_len (b # bs) = None \<Longrightarrow> (drop (utf8_bad_len (b # bs)) (b # bs), b # bs) \<in> measure length" for b bs
    by (auto simp: gr0_conv_Suc)
qed simp

section \<open>The subscription\<close>

definition snapshot_event :: "int \<Rightarrow> etcd_kv \<Rightarrow> etcd_event" where
  "snapshot_event snapshot_rev kv =
     \<lparr>ev_kind = Put, ev_entry = \<lparr>ee_key = from_utf8_lossy (kv_key kv), ee_value = kv_value kv\<rparr>, ev_revision = snapshot_rev\<rparr>"

text \<open>The event that is yielded for one event of a response, if any.\<close>

definition watch_event :: "int \<Rightarrow> etcd_event_kind \<times> etcd_kv option \<Rightarrow> etcd_event option" where
  "watch_event snapshot_rev ev = (case snd ev of
       None \<Rightarrow> None
     | Some kv \<Rightarrow>
         if kv_mod_revision kv \<le> snapshot_rev then None
         else Some \<lparr>ev_kind = fst ev, ev_entry = \<lparr>ee_key = from_utf8_lossy (kv_key kv), ee_value = kv_value kv\<rparr>,
           ev_revision = kv_mod_revision kv\<rparr>)"

text \<open>The items yielded; \<open>now i\<close> is the clock at the \<open>i\<close>-th one.\<close>

definition stamp_events :: "(nat \<Rightarrow> nanotime) \<Rightarrow> nat \<Rightarrow> etcd_event list \<Rightarrow> (anyhow + nanotime \<times> etcd_event) list" where
  "stamp_events now i evs = map (\<lambda>(k, ev). Inr (now k, ev)) (zip [i..<i + length evs] evs)"

fun watch_loop :: "(nat \<Rightarrow> nanotime) \<Rightarrow> int \<Rightarrow> (anyhow + watch_response) option list \<Rightarrow> nat \<Rightarrow> (anyhow + nanotime \<times> etcd_event) list" where
  "watch_loop now snapshot_rev [] i = []"
| "watch_loop now snapshot_rev (None # ws) i = [Inl (Anyhow ''etcd watch stream closed unexpectedly'')]"
| "watch_loop now snapshot_rev (Some (Inl e) # ws) i = [Inl (Anyhow ''etcd watch error'')]"
| "watch_loop now snapshot_rev (Some (Inr resp) # ws) i =
     (if wr_created resp then watch_loop now snapshot_rev ws i
      else if wr_canceled resp then [Inl (Anyhow ''etcd watch cancelled'')]
      else let evs = List.map_filter (watch_event snapshot_rev) (wr_events resp) in
        stamp_events now i evs @ watch_loop now snapshot_rev ws (i + length evs))"

definition etcd_sub_func :: "'s etcd_client \<Rightarrow> (nat \<Rightarrow> nanotime) \<Rightarrow> etcd_connection \<Rightarrow> bytes \<Rightarrow> run_params \<Rightarrow>
    anyhow + (anyhow + nanotime \<times> etcd_event) list" where
  "etcd_sub_func et now connection prefix ctx = (case et_connect et (ec_endpoints connection) of
       Inl e \<Rightarrow> Inl e
     | Inr client \<Rightarrow> (case et_watch et client prefix of
         (client1, Inl e) \<Rightarrow> Inl (Anyhow ''etcd watch failed'')
       | (client1, Inr watch_stream) \<Rightarrow> (case et_get et client1 prefix of
           (client2, Inl e) \<Rightarrow> Inl (Anyhow ''etcd get failed'')
         | (client2, Inr get_resp) \<Rightarrow>
             (let snapshot_rev = (case gr_revision get_resp of Some r \<Rightarrow> r | None \<Rightarrow> 0);
                  snapshot = map (snapshot_event snapshot_rev) (gr_kvs get_resp)
              in Inr (stamp_events now 0 snapshot @ watch_loop now snapshot_rev watch_stream (length snapshot))))))"

section \<open>The publisher\<close>

definition lease_ttl_secs :: "duration \<Rightarrow> int" where
  "lease_ttl_secs ttl = sint (max (dur_secs ttl) 1)"

text \<open>The nanoseconds between two renewals.\<close>

definition renew_interval :: "duration \<Rightarrow> int" where
  "renew_interval ttl = max (uint (duration_as_nanos ttl) div 3) 1000000000"

text \<open>
  The task that renews the lease: for the results of \<^verbatim>\<open>keep_alive\<close> and of reading the acknowledgement
  so far, the number of renewals and whether it has ended.
\<close>

fun keepalive_loop :: "(bool \<times> bool) list \<Rightarrow> nat \<times> bool" where
  "keepalive_loop [] = (0, False)"
| "keepalive_loop ((sent, acknowledged) # rs) =
     (if \<not> sent then (0, True)
      else if \<not> acknowledged then (1, True)
      else case keepalive_loop rs of (n, ended) \<Rightarrow> (Suc n, ended))"

text \<open>The entries written, and the result.\<close>

fun etcd_put_burst :: "'s etcd_client \<Rightarrow> bool \<Rightarrow> int option \<Rightarrow> etcd_entry list \<Rightarrow> 's \<Rightarrow> 's \<times> etcd_entry list \<times> (anyhow + unit)" where
  "etcd_put_burst et force lease_id [] client = (client, [], Inr ())"
| "etcd_put_burst et force lease_id (entry # burst) client =
     (case (if force then (case et_put et client (ee_key entry) (ee_value entry) lease_id of
              (c, Inl e) \<Rightarrow> (c, Inl (Anyhow ''etcd put failed''))
            | (c, Inr _) \<Rightarrow> (c, Inr ()))
          else (case et_txn_put_absent et client (ee_key entry) (ee_value entry) lease_id of
              (c, Inl e) \<Rightarrow> (c, Inl (Anyhow ''etcd txn failed''))
            | (c, Inr succeeded) \<Rightarrow> (c, if succeeded then Inr ()
                else Inl (Anyhow ''etcd conditional write failed: key already exists (use force=true to overwrite)'')))) of
        (c, Inl e) \<Rightarrow> (c, [], Inl e)
      | (c, Inr _) \<Rightarrow> (case etcd_put_burst et force lease_id burst c of (c', written, r) \<Rightarrow> (c', entry # written, r)))"

fun etcd_put_all :: "'s etcd_client \<Rightarrow> bool \<Rightarrow> int option \<Rightarrow> (nanotime \<times> etcd_entry list) list \<Rightarrow> 's \<Rightarrow> 's \<times> etcd_entry list \<times> (anyhow + unit)" where
  "etcd_put_all et force lease_id [] client = (client, [], Inr ())"
| "etcd_put_all et force lease_id ((time, burst) # source) client = (case etcd_put_burst et force lease_id burst client of
       (c, written, Inl e) \<Rightarrow> (c, written, Inl e)
     | (c, written, Inr _) \<Rightarrow> (case etcd_put_all et force lease_id source c of (c', later, r) \<Rightarrow> (c', written @ later, r)))"

definition etcd_lease :: "'s etcd_client \<Rightarrow> duration option \<Rightarrow> 's \<Rightarrow> 's \<times> (anyhow + int option)" where
  "etcd_lease et lease_ttl client = (case lease_ttl of
       None \<Rightarrow> (client, Inr None)
     | Some ttl \<Rightarrow> (case et_lease_grant et client (lease_ttl_secs ttl) of
         (c, Inl e) \<Rightarrow> (c, Inl (Anyhow ''etcd lease_grant failed''))
       | (c, Inr lid) \<Rightarrow> (case et_lease_keep_alive et c lid of
           (c', Inl e) \<Rightarrow> (c', Inl (Anyhow ''etcd lease_keep_alive failed''))
         | (c', Inr _) \<Rightarrow> (c', Inr (Some lid)))))"

text \<open>The consumer: the state of the client, the entries written, and the result.\<close>

definition etcd_pub_consumer :: "'s etcd_client \<Rightarrow> etcd_connection \<Rightarrow> duration option \<Rightarrow> bool \<Rightarrow> (nanotime \<times> etcd_entry list) list \<Rightarrow>
    's option \<times> etcd_entry list \<times> (anyhow + unit)" where
  "etcd_pub_consumer et connection lease_ttl force source = (case et_connect et (ec_endpoints connection) of
       Inl e \<Rightarrow> (None, [], Inl (Anyhow ''etcd connect failed''))
     | Inr client \<Rightarrow> (case etcd_lease et lease_ttl client of
         (c, Inl e) \<Rightarrow> (Some c, [], Inl e)
       | (c, Inr lease_id) \<Rightarrow> (case etcd_put_all et force lease_id source c of
           (c1, written, Inl e) \<Rightarrow> (Some c1, written, Inl e)
         | (c1, written, Inr _) \<Rightarrow>
             (Some (case lease_id of Some lid \<Rightarrow> fst (et_lease_revoke et c1 lid) | None \<Rightarrow> c1), written, Inr ()))))"

definition etcd_pub :: "'s etcd_client \<Rightarrow> etcd_connection \<Rightarrow> duration option \<Rightarrow> bool \<Rightarrow> 'c \<Rightarrow> node \<Rightarrow> (etcd_entry list, 'c) async_consumer_node" where
  "etcd_pub et connection lease_ttl force c upstream =
     async_consumer_new c upstream (\<lambda>ctx source. snd (snd (etcd_pub_consumer et connection lease_ttl force source)))"

section \<open>Decoding\<close>

lemma utf8_valid_long:
  assumes "utf8_valid (b # bs)" "\<not> b < 0x80"
  shows "(0xC2 \<le> b \<and> b \<le> 0xDF \<and> (\<exists>c cs. bs = c # cs \<and> utf8_cont c \<and> utf8_valid cs)) \<or>
    (0xE0 \<le> b \<and> b \<le> 0xEF \<and> (\<exists>c d cs. bs = c # d # cs \<and> utf8_cont c \<and> (b = 0xE0 \<longrightarrow> 0xA0 \<le> c) \<and> (b = 0xED \<longrightarrow> c \<le> 0x9F) \<and>
       utf8_cont d \<and> utf8_valid cs)) \<or>
    (0xF0 \<le> b \<and> b \<le> 0xF4 \<and> (\<exists>c d e cs. bs = c # d # e # cs \<and> utf8_cont c \<and> (b = 0xF0 \<longrightarrow> 0x90 \<le> c) \<and> (b = 0xF4 \<longrightarrow> c \<le> 0x8F) \<and>
       utf8_cont d \<and> utf8_cont e \<and> utf8_valid cs))"
proof -
  consider "0xC2 \<le> b \<and> b \<le> 0xDF" | "\<not> (0xC2 \<le> b \<and> b \<le> 0xDF)" "0xE0 \<le> b \<and> b \<le> 0xEF"
    | "\<not> (0xC2 \<le> b \<and> b \<le> 0xDF)" "\<not> (0xE0 \<le> b \<and> b \<le> 0xEF)" by blast
  then show ?thesis
  proof cases
    case 1
    with assms show ?thesis by (cases bs) (simp_all del: utf8_valid.simps(1) add: utf8_valid.simps(2)[of b])
  next
    case 2
    from assms 2 have "case bs of c # d # cs \<Rightarrow> utf8_cont c \<and> (b = 0xE0 \<longrightarrow> 0xA0 \<le> c) \<and> (b = 0xED \<longrightarrow> c \<le> 0x9F) \<and>
        utf8_cont d \<and> utf8_valid cs | _ \<Rightarrow> False" by (simp only: utf8_valid.simps(2)[of b] if_True if_False)
    with 2 show ?thesis by (auto split: list.splits)
  next
    case 3
    have "if 0xF0 \<le> b \<and> b \<le> 0xF4 then (case bs of c # d # e # cs \<Rightarrow> utf8_cont c \<and> (b = 0xF0 \<longrightarrow> 0x90 \<le> c) \<and> (b = 0xF4 \<longrightarrow> c \<le> 0x8F) \<and>
        utf8_cont d \<and> utf8_cont e \<and> utf8_valid cs | _ \<Rightarrow> False) else False"
      using assms(1)[unfolded utf8_valid.simps(2)[of b bs]] unfolding if_not_P[OF assms(2)] if_not_P[OF 3(1)] if_not_P[OF 3(2)] .
    then show ?thesis by (intro disjI2) (simp add: split: list.splits if_splits del: utf8_valid.simps)
  qed
qed

lemma utf8_char_len_valid:
  assumes "utf8_valid (b # bs)"
  shows "\<exists>k. utf8_char_len (b # bs) = Some k \<and> utf8_valid (drop k (b # bs))"
proof (cases "b < 0x80")
  case True
  with assms show ?thesis by (intro exI[of _ 1]) (simp add: utf8_char_len_def)
next
  case False
  from utf8_valid_long[OF assms this] show ?thesis
  proof (elim disjE conjE exE)
    fix c cs
    assume "0xC2 \<le> b" "b \<le> 0xDF" "bs = c # cs" "utf8_cont c" "utf8_valid cs"
    with False show ?thesis by (intro exI[of _ 2]) (simp add: utf8_char_len_def)
  next
    fix c d cs
    assume a: "0xE0 \<le> b" "b \<le> 0xEF" "bs = c # d # cs" "utf8_cont c" "b = 0xE0 \<longrightarrow> 0xA0 \<le> c" "b = 0xED \<longrightarrow> c \<le> 0x9F"
      "utf8_cont d" "utf8_valid cs"
    then have n: "\<not> b \<le> 0xDF" by (simp add: word_le_nat_alt)
    with a False have "\<not> utf8_valid [b]" "\<not> utf8_valid [b, c]" "utf8_valid [b, c, d]" by simp_all
    with a(3,8) show ?thesis by (intro exI[of _ 3]) (simp add: utf8_char_len_def del: utf8_valid.simps)
  next
    fix c d e cs
    assume a: "0xF0 \<le> b" "b \<le> 0xF4" "bs = c # d # e # cs" "utf8_cont c" "b = 0xF0 \<longrightarrow> 0x90 \<le> c" "b = 0xF4 \<longrightarrow> c \<le> 0x8F"
      "utf8_cont d" "utf8_cont e" "utf8_valid cs"
    then have n: "\<not> b \<le> 0xDF" "\<not> b \<le> 0xEF" by (simp_all add: word_le_nat_alt)
    with a False have "\<not> utf8_valid [b]" "\<not> utf8_valid [b, c]" "\<not> utf8_valid [b, c, d]" "utf8_valid [b, c, d, e]" by simp_all
    with a(3,9) show ?thesis by (intro exI[of _ 4]) (simp add: utf8_char_len_def del: utf8_valid.simps)
  qed
qed

lemma from_utf8_lossy_valid: "utf8_valid bs \<Longrightarrow> from_utf8_lossy bs = bs"
proof (induction bs rule: from_utf8_lossy.induct)
  case (2 b bs)
  from utf8_char_len_valid[OF 2(3)] obtain k where k: "utf8_char_len (b # bs) = Some k" "utf8_valid (drop k (b # bs))" by blast
  from 2(2)[OF k] k(1) show ?case by simp
qed simp

section \<open>Properties\<close>

text \<open>
  The server's side: a history of writes under the prefix, and the pairs it leads to from a given
  map. A client that applies the events it receives does the same.
\<close>

definition apply_write :: "etcd_event_kind \<times> etcd_kv \<Rightarrow> (bytes \<rightharpoonup> bytes) \<Rightarrow> bytes \<rightharpoonup> bytes" where
  "apply_write w m = (case fst w of Put \<Rightarrow> m(kv_key (snd w) \<mapsto> kv_value (snd w)) | Delete \<Rightarrow> m(kv_key (snd w) := None))"

definition apply_event :: "etcd_event \<Rightarrow> (bytes \<rightharpoonup> bytes) \<Rightarrow> bytes \<rightharpoonup> bytes" where
  "apply_event ev m = (case ev_kind ev of Put \<Rightarrow> m(ee_key (ev_entry ev) \<mapsto> ee_value (ev_entry ev)) | Delete \<Rightarrow> m(ee_key (ev_entry ev) := None))"

definition store_at :: "(etcd_event_kind \<times> etcd_kv) list \<Rightarrow> int \<Rightarrow> bytes \<rightharpoonup> bytes" where
  "store_at history r = fold apply_write (filter (\<lambda>w. kv_mod_revision (snd w) \<le> r) history) Map.empty"

lemma stamp_events_snd: "map (\<lambda>x. snd (projr x)) (stamp_events now i evs) = evs"
proof -
  have "map (\<lambda>x. snd (projr x)) (stamp_events now i evs) = map snd (zip [i..<i + length evs] evs)"
    unfolding stamp_events_def map_map by (rule map_cong) auto
  then show ?thesis by simp
qed

lemma stamp_events_Inr: "\<forall>x \<in> set (stamp_events now i evs). \<exists>y. x = Inr y"
  by (auto simp: stamp_events_def)

lemma stamp_events_append: "stamp_events now i xs @ stamp_events now (i + length xs) ys = stamp_events now i (xs @ ys)"
proof -
  have "[i..<i + (length xs + length ys)] = [i..<i + length xs] @ [i + length xs..<i + length xs + length ys]"
    using upt_add_eq_append[of i "i + length xs" "length ys"] by (simp only: add.assoc le_add1)
  then show ?thesis by (simp add: stamp_events_def)
qed

lemma map_filter_append: "List.map_filter f (xs @ ys) = List.map_filter f xs @ List.map_filter f ys"
  by (simp add: List.map_filter_def)

lemma map_of_rev_distinct: "distinct (map fst xs) \<Longrightarrow> map_of (rev xs) = map_of xs"
  by (subst map_of_inject_set) (simp_all add: rev_map[symmetric])

text \<open>A healthy watch: responses, of which only those that announce the watch are skipped.\<close>

definition healthy :: "(anyhow + watch_response) option list \<Rightarrow> bool" where
  "healthy ws \<longleftrightarrow> (\<forall>w \<in> set ws. \<exists>resp. w = Some (Inr resp) \<and> (if wr_created resp then wr_events resp = [] else \<not> wr_canceled resp))"

definition watched :: "(anyhow + watch_response) option list \<Rightarrow> (etcd_event_kind \<times> etcd_kv option) list" where
  "watched ws = concat (map (\<lambda>w. wr_events (projr (the w))) ws)"

lemma watch_loop_healthy:
  "healthy ws \<Longrightarrow> watch_loop now r ws i = stamp_events now i (List.map_filter (watch_event r) (watched ws))"
proof (induction ws arbitrary: i)
  case Nil
  then show ?case by (simp add: watched_def stamp_events_def)
next
  case (Cons w ws)
  obtain resp where w: "w = Some (Inr resp)" "if wr_created resp then wr_events resp = [] else \<not> wr_canceled resp"
    using Cons.prems by (auto simp: healthy_def)
  have h: "healthy ws" using Cons.prems by (simp add: healthy_def)
  show ?case
  proof (cases "wr_created resp")
    case True
    with w Cons.IH[OF h] show ?thesis by (simp add: watched_def)
  next
    case False
    with w Cons.IH[OF h, of "i + length (List.map_filter (watch_event r) (wr_events resp))"] show ?thesis
      by (simp add: watched_def Let_def stamp_events_append map_filter_append)
  qed
qed

lemma apply_watched:
  assumes "\<forall>w \<in> set D. utf8_valid (kv_key (snd w))"
  shows "fold apply_event (List.map_filter (watch_event r) (map (\<lambda>w. (fst w, Some (snd w))) D)) m =
    fold apply_write (filter (\<lambda>w. r < kv_mod_revision (snd w)) D) m"
  using assms
proof (induction D arbitrary: m)
  case (Cons w D)
  then show ?case
    by (auto simp: List.map_filter_simps watch_event_def apply_event_def apply_write_def from_utf8_lossy_valid split: etcd_event_kind.splits)
qed (simp add: List.map_filter_simps)

lemma apply_snapshot:
  assumes "\<forall>kv \<in> set kvs. utf8_valid (kv_key kv)"
  shows "fold apply_event (map (snapshot_event r) kvs) m = m ++ map_of (rev (map (\<lambda>kv. (kv_key kv, kv_value kv)) kvs))"
  using assms
proof (induction kvs arbitrary: m)
  case (Cons kv kvs)
  then show ?case
    by (simp add: apply_event_def snapshot_event_def from_utf8_lossy_valid map_add_upd_left)
qed simp

lemma sorted_split:
  assumes "sorted (map f xs)" "a \<le> (b :: int)"
  shows "filter (\<lambda>x. f x \<le> a) xs @ filter (\<lambda>x. a < f x \<and> f x \<le> b) xs = filter (\<lambda>x. f x \<le> b) xs"
  using assms
proof (induction xs)
  case (Cons x xs)
  show ?case
  proof (cases "f x \<le> a")
    case True
    with Cons show ?thesis by auto
  next
    case False
    then have "filter (\<lambda>x. f x \<le> a) xs = []" using Cons.prems(1) by (auto simp: filter_empty_conv)
    with Cons False show ?thesis by auto
  qed
qed simp

text \<open>
  C22. The events of a subscription mirror the server. Let the watch be opened at revision \<open>w0\<close>, and the
  snapshot be read at a revision \<open>r0\<close> that is not earlier, and let it hold the pairs the server has at
  \<open>r0\<close>; let the responses of the watch so far report the writes after \<open>w0\<close> up to some revision \<open>r\<close>, in
  order. Then the events the subscription has yielded, applied to an empty map, give the pairs the
  server has at the later one of \<open>r0\<close> and \<open>r\<close>: no write is missed and none is undone.
\<close>

theorem etcd_sub_mirrors:
  assumes calls: "et_connect et (ec_endpoints connection) = Inr client" "et_watch et client prefix = (client1, Inr ws)"
      "et_get et client1 prefix = (client2, Inr resp)"
    and history: "sorted (map (\<lambda>w. kv_mod_revision (snd w)) history)" "\<forall>w \<in> set history. utf8_valid (kv_key (snd w))"
    and snapshot: "gr_revision resp = Some r0" "distinct (map kv_key (gr_kvs resp))"
      "map_of (map (\<lambda>kv. (kv_key kv, kv_value kv)) (gr_kvs resp)) = store_at history r0" "\<forall>kv \<in> set (gr_kvs resp). utf8_valid (kv_key kv)"
    and watch: "w0 \<le> r0" "healthy ws" "watched ws = map (\<lambda>w. (fst w, Some (snd w)))
        (filter (\<lambda>w. w0 < kv_mod_revision (snd w) \<and> kv_mod_revision (snd w) \<le> r) history)"
  shows "\<exists>items. etcd_sub_func et now connection prefix ctx = Inr items \<and> (\<forall>x \<in> set items. \<exists>y. x = Inr y) \<and>
    fold apply_event (map (\<lambda>x. snd (projr x)) items) Map.empty = store_at history (max r0 r)"
proof -
  let ?D = "filter (\<lambda>w. w0 < kv_mod_revision (snd w) \<and> kv_mod_revision (snd w) \<le> r) history"
  let ?snap = "map (snapshot_event r0) (gr_kvs resp)" and ?live = "List.map_filter (watch_event r0) (watched ws)"
  define items where "items = stamp_events now 0 (?snap @ ?live)"
  have "etcd_sub_func et now connection prefix ctx = Inr items"
    using calls snapshot(1) watch_loop_healthy[OF watch(2), of now r0 "length ?snap"] stamp_events_append[of now 0 ?snap ?live]
    by (simp add: etcd_sub_func_def items_def)
  moreover have "fold apply_event (map (\<lambda>x. snd (projr x)) items) Map.empty = store_at history (max r0 r)"
  proof -
    have "distinct (map fst (map (\<lambda>kv. (kv_key kv, kv_value kv)) (gr_kvs resp)))" using snapshot(2) by (simp add: comp_def)
    then have "fold apply_event ?snap Map.empty = store_at history r0"
      using apply_snapshot[OF snapshot(4), of r0 Map.empty] snapshot(3) by (simp only: map_of_rev_distinct empty_map_add)
    then have "fold apply_event (?snap @ ?live) Map.empty = fold apply_write (filter (\<lambda>w. r0 < kv_mod_revision (snd w)) ?D) (store_at history r0)"
      using apply_watched[of ?D r0 "store_at history r0"] history(2) watch(3) by simp
    also have "filter (\<lambda>w. r0 < kv_mod_revision (snd w)) ?D =
        filter (\<lambda>w. r0 < kv_mod_revision (snd w) \<and> kv_mod_revision (snd w) \<le> max r0 r) history"
      using watch(1) by (auto intro!: filter_cong)
    also have "fold apply_write \<dots> (store_at history r0) = store_at history (max r0 r)"
      using sorted_split[OF history(1), of r0 "max r0 r"] by (simp add: store_at_def flip: fold_append[unfolded comp_def, THEN fun_cong])
    finally show ?thesis by (simp add: items_def stamp_events_snd)
  qed
  ultimately show ?thesis using stamp_events_Inr unfolding items_def by blast
qed

text \<open>
  An example: two writes before the snapshot, one of them after the watch was opened, and a deletion
  after it.
\<close>

definition sample_kv :: "u8 \<Rightarrow> u8 \<Rightarrow> int \<Rightarrow> etcd_kv" where
  "sample_kv k v r = \<lparr>kv_key = [k], kv_value = [v], kv_mod_revision = r\<rparr>"

definition sample_history :: "(etcd_event_kind \<times> etcd_kv) list" where
  "sample_history = [(Put, sample_kv 97 49 1), (Put, sample_kv 98 50 2), (Delete, sample_kv 97 0 3)]"

definition sample_etcd :: "unit etcd_client" where
  "sample_etcd = \<lparr>et_connect = (\<lambda>_. Inr ()),
     et_watch = (\<lambda>_ _. ((), Inr [Some (Inr \<lparr>wr_created = True, wr_canceled = False, wr_events = []\<rparr>),
       Some (Inr \<lparr>wr_created = False, wr_canceled = False,
         wr_events = [(Put, Some (sample_kv 98 50 2)), (Delete, Some (sample_kv 97 0 3))]\<rparr>)])),
     et_get = (\<lambda>_ _. ((), Inr \<lparr>gr_revision = Some 2, gr_kvs = [sample_kv 97 49 1, sample_kv 98 50 2]\<rparr>)),
     et_lease_grant = (\<lambda>_ _. ((), Inr 0)), et_lease_keep_alive = (\<lambda>_ _. ((), Inr ())), et_lease_revoke = (\<lambda>_ _. ((), Inr ())),
     et_put = (\<lambda>_ _ _ _. ((), Inr ())), et_txn_put_absent = (\<lambda>_ _ _ _. ((), Inr True))\<rparr>"

theorem etcd_sub_mirrors_witness:
  "\<exists>items. etcd_sub_func sample_etcd (\<lambda>_. nano_zero) (etcd_connection_new []) []
      \<lparr>rp_run_mode = RealTime, rp_run_for = Forever, rp_start_time = nano_zero\<rparr> = Inr items \<and>
    fold apply_event (map (\<lambda>x. snd (projr x)) items) Map.empty = [[98] \<mapsto> [50]]"
proof -
  have "store_at sample_history (max 2 3) = [[98] \<mapsto> [50]]"
    by (simp add: store_at_def sample_history_def sample_kv_def apply_write_def fun_eq_iff)
  moreover have "map_of (map (\<lambda>kv. (kv_key kv, kv_value kv)) [sample_kv 97 49 1, sample_kv 98 50 2]) = store_at sample_history 2"
    by (simp add: store_at_def sample_history_def sample_kv_def apply_write_def fun_eq_iff)
  ultimately show ?thesis
    using etcd_sub_mirrors[of sample_etcd "etcd_connection_new []" "()" "[]" "()"
        "[Some (Inr \<lparr>wr_created = True, wr_canceled = False, wr_events = []\<rparr>), Some (Inr \<lparr>wr_created = False, wr_canceled = False,
         wr_events = [(Put, Some (sample_kv 98 50 2)), (Delete, Some (sample_kv 97 0 3))]\<rparr>)]"
        "()" "\<lparr>gr_revision = Some 2, gr_kvs = [sample_kv 97 49 1, sample_kv 98 50 2]\<rparr>" sample_history 2 1 3 "\<lambda>_. nano_zero"
        "\<lparr>rp_run_mode = RealTime, rp_run_for = Forever, rp_start_time = nano_zero\<rparr>"]
    by (auto simp: sample_etcd_def sample_history_def sample_kv_def healthy_def watched_def)
qed

section \<open>Publishing\<close>

lemma etcd_put_burst_written:
  "etcd_put_burst et force lease burst c = (c', written, res) \<Longrightarrow> \<exists>rest. burst = written @ rest \<and> (res = Inr () \<longrightarrow> rest = [])"
proof (induction burst arbitrary: c written)
  case (Cons entry burst)
  show ?case
  proof (cases written)
    case Nil
    with Cons.prems show ?thesis by (auto split: prod.splits sum.splits if_splits)
  next
    case (Cons x written')
    then obtain c1 where "x = entry" "etcd_put_burst et force lease burst c1 = (c', written', res)"
      using Cons.prems by (auto split: prod.splits sum.splits if_splits)
    with Cons Cons.IH show ?thesis by auto
  qed
qed simp

text \<open>A publisher that ends without an error has written every entry of every burst, once and in order.\<close>

lemma etcd_put_all_written:
  "etcd_put_all et force lease source c = (c', written, Inr ()) \<Longrightarrow> written = concat (map snd source)"
proof (induction source arbitrary: c written)
  case (Cons x source)
  obtain t burst where x: "x = (t, burst)" by (cases x)
  obtain c1 written1 r1 where b: "etcd_put_burst et force lease burst c = (c1, written1, r1)" by (metis prod_cases3)
  obtain c2 later r2 where l: "etcd_put_all et force lease source c1 = (c2, later, r2)" by (metis prod_cases3)
  have "r1 = Inr ()" "r2 = Inr ()" "c2 = c'" "written = written1 @ later" using Cons.prems x b l by (auto split: sum.splits)
  with etcd_put_burst_written[OF b] Cons.IH l x show ?case by auto
qed simp

text \<open>A lease of less than two seconds is granted for one second and renewed every second.\<close>

lemma renewal_too_late:
  assumes "dur_secs ttl < 2"
  shows "lease_ttl_secs ttl * 1000000000 \<le> renew_interval ttl"
proof -
  have "max (dur_secs ttl) 1 = 1" using assms by (simp add: max_def word_less_nat_alt word_le_nat_alt)
  then show ?thesis by (simp add: lease_ttl_secs_def renew_interval_def)
qed

end
