(* ===== verification/Redis.thy ===== *)
theory Redis
  imports Async_Io Rust_Strings
begin

text \<open>
  The Redis adapter: \<^verbatim>\<open>adapters/redis/\<close>. The crate \<^verbatim>\<open>redis\<close> is a parameter, the record \<open>redis_client\<close> of the
  commands the adapter issues. A field map of the crate is the list of its pairs in the order in
  which it is iterated; a value that does not convert to bytes is \<open>None\<close>. Of the error messages the
  rendered values are left out.

  \<open>redis_stream_exactly_once\<close>: snapshot and tail together yield every entry of a stream once and in order,
  at whatever points the appends fall between the reads. \<open>redis_publish_written\<close>, \<open>redis_append_written\<close>: the
  publishers send every entry once and in order.
\<close>

section \<open>Entries and events\<close>

record redis_connection =
  rc_url :: bytes

definition redis_connection_new :: "bytes \<Rightarrow> redis_connection" where
  "redis_connection_new url = \<lparr>rc_url = url\<rparr>"

record redis_entry =
  re_channel :: bytes
  re_payload :: bytes

definition redis_payload_str :: "redis_entry \<Rightarrow> bytes option" where
  "redis_payload_str e = from_utf8 (re_payload e)"

text \<open>\<^verbatim>\<open>RedisEvent\<close> has the fields of \<^verbatim>\<open>RedisEntry\<close>.\<close>

type_synonym redis_event = redis_entry

record redis_stream_record =
  rr_key :: bytes
  rr_fields :: "(bytes \<times> bytes) list"

definition redis_stream_record_single :: "bytes \<Rightarrow> bytes \<Rightarrow> bytes \<Rightarrow> redis_stream_record" where
  "redis_stream_record_single key field val = \<lparr>rr_key = key, rr_fields = [(field, val)]\<rparr>"

record redis_stream_event =
  rs_key :: bytes
  rs_id :: bytes
  rs_fields :: "(bytes \<times> bytes) list"

definition redis_event_field :: "bytes \<Rightarrow> redis_stream_event \<Rightarrow> bytes option" where
  "redis_event_field name e = map_option snd (List.find (\<lambda>kv. fst kv = name) (rs_fields e))"

section \<open>The client\<close>

record stream_id =
  sid_id :: bytes
  sid_map :: "(bytes \<times> bytes option) list"

record ('c, 's) redis_client =
  rd_open :: "bytes \<Rightarrow> anyhow + 'c"
  rd_pubsub :: "'c \<Rightarrow> anyhow + 's"
  rd_subscribe :: "'s \<Rightarrow> bytes \<Rightarrow> 's \<times> (anyhow + unit)"
  rd_connection :: "'c \<Rightarrow> anyhow + 's"
  rd_xrange :: "'s \<Rightarrow> bytes \<Rightarrow> 's \<times> (anyhow + stream_id list)"
  rd_publish :: "'s \<Rightarrow> bytes \<Rightarrow> bytes \<Rightarrow> 's \<times> (anyhow + int)"
  rd_xadd :: "'s \<Rightarrow> bytes \<Rightarrow> (bytes \<times> bytes) list \<Rightarrow> 's \<times> (anyhow + bytes)"

definition to_event :: "bytes \<Rightarrow> stream_id \<Rightarrow> redis_stream_event" where
  "to_event key sid = \<lparr>rs_key = key, rs_id = sid_id sid,
     rs_fields = List.map_filter (\<lambda>(name, val). map_option (Pair name) val) (sid_map sid)\<rparr>"

section \<open>Subscribing to a channel\<close>

text \<open>\<open>msgs\<close> are the messages received so far, and \<open>closed\<close> says whether the stream has ended; \<open>now i\<close> is the clock at the \<open>i\<close>-th one.\<close>

definition redis_sub_func :: "('c, 's) redis_client \<Rightarrow> (nat \<Rightarrow> nanotime) \<Rightarrow> ('s \<Rightarrow> redis_event list \<times> bool) \<Rightarrow> redis_connection \<Rightarrow> bytes \<Rightarrow>
    run_params \<Rightarrow> anyhow + (anyhow + nanotime \<times> redis_event) list" where
  "redis_sub_func rd now messages connection channel ctx = (case rd_open rd (rc_url connection) of
       Inl e \<Rightarrow> Inl (Anyhow ''redis client open failed'')
     | Inr client \<Rightarrow> (case rd_pubsub rd client of
         Inl e \<Rightarrow> Inl (Anyhow ''redis connect failed'')
       | Inr pubsub \<Rightarrow> (case rd_subscribe rd pubsub channel of
           (pubsub', Inl e) \<Rightarrow> Inl (Anyhow ''redis subscribe failed'')
         | (pubsub', Inr _) \<Rightarrow> (case messages pubsub' of (msgs, closed) \<Rightarrow>
             Inr (map (\<lambda>(i, m). Inr (now i, m)) (zip [0..<length msgs] msgs) @
               (if closed then [Inl (Anyhow ''redis subscription stream closed unexpectedly'')] else []))))))"

section \<open>Reading a stream\<close>

text \<open>
  The loop of \<^verbatim>\<open>XREAD\<close>: \<open>ask i last_id\<close> is the reply to the \<open>i\<close>-th read, \<open>n\<close> the number of reads that have
  returned. A reply is a list of streams with their entries.
\<close>

definition reply_entries :: "(bytes \<times> stream_id list) list \<Rightarrow> (bytes \<times> stream_id) list" where
  "reply_entries keys = concat (map (\<lambda>(key, sids). map (Pair key) sids) keys)"

fun tail_loop :: "(nat \<Rightarrow> bytes \<Rightarrow> anyhow + (bytes \<times> stream_id list) list) \<Rightarrow> nat \<Rightarrow> nat \<Rightarrow> bytes \<Rightarrow>
    (anyhow + redis_stream_event) list" where
  "tail_loop ask 0 i last_id = []"
| "tail_loop ask (Suc n) i last_id = (case ask i last_id of
       Inl e \<Rightarrow> [Inl (Anyhow ''redis xread failed'')]
     | Inr keys \<Rightarrow>
         (let entries = reply_entries keys;
              last_id' = (if entries = [] then last_id else sid_id (snd (last entries)))
          in map (\<lambda>(key, sid). Inr (to_event key sid)) entries @ tail_loop ask n (Suc i) last_id'))"

text \<open>The clock at each item.\<close>

definition stamp_items :: "(nat \<Rightarrow> nanotime) \<Rightarrow> (anyhow + 'e) list \<Rightarrow> (anyhow + nanotime \<times> 'e) list" where
  "stamp_items now xs = map (\<lambda>(i, x). map_sum id (Pair (now i)) x) (zip [0..<length xs] xs)"

definition redis_stream_read_func :: "('c, 's) redis_client \<Rightarrow> (nat \<Rightarrow> nanotime) \<Rightarrow> ('s \<Rightarrow> nat \<Rightarrow> bytes \<Rightarrow> anyhow + (bytes \<times> stream_id list) list) \<Rightarrow>
    nat \<Rightarrow> redis_connection \<Rightarrow> bytes \<Rightarrow> run_params \<Rightarrow> anyhow + (anyhow + nanotime \<times> redis_stream_event) list" where
  "redis_stream_read_func rd now ask n connection key ctx = (case rd_open rd (rc_url connection) of
       Inl e \<Rightarrow> Inl (Anyhow ''redis client open failed'')
     | Inr client \<Rightarrow> (case rd_connection rd client of
         Inl e \<Rightarrow> Inl (Anyhow ''redis connect failed'')
       | Inr conn \<Rightarrow> (case rd_xrange rd conn key of
           (conn', Inl e) \<Rightarrow> Inl (Anyhow ''redis xrange failed'')
         | (conn', Inr sids) \<Rightarrow>
             (let last_id = (if sids = [] then ascii ''0'' else sid_id (last sids))
              in Inr (stamp_items now (map (Inr \<circ> to_event key) sids @ tail_loop (ask conn') n 0 last_id))))))"

section \<open>Publishing\<close>

text \<open>The entries sent, and the result.\<close>

fun redis_publish_loop :: "('c, 's) redis_client \<Rightarrow> redis_entry list \<Rightarrow> 's \<Rightarrow> redis_entry list \<times> (anyhow + unit)" where
  "redis_publish_loop rd [] conn = ([], Inr ())"
| "redis_publish_loop rd (entry # entries) conn = (case rd_publish rd conn (re_channel entry) (re_payload entry) of
       (conn', Inl e) \<Rightarrow> ([], Inl (Anyhow ''redis publish failed''))
     | (conn', Inr _) \<Rightarrow> (case redis_publish_loop rd entries conn' of (sent, r) \<Rightarrow> (entry # sent, r)))"

definition redis_pub_consumer :: "('c, 's) redis_client \<Rightarrow> redis_connection \<Rightarrow> (nanotime \<times> redis_entry list) list \<Rightarrow> redis_entry list \<times> (anyhow + unit)" where
  "redis_pub_consumer rd connection source = (case rd_open rd (rc_url connection) of
       Inl e \<Rightarrow> ([], Inl (Anyhow ''redis client open failed''))
     | Inr client \<Rightarrow> (case rd_connection rd client of
         Inl e \<Rightarrow> ([], Inl (Anyhow ''redis connect failed''))
       | Inr conn \<Rightarrow> redis_publish_loop rd (concat (map snd source)) conn))"

fun redis_append_loop :: "('c, 's) redis_client \<Rightarrow> redis_stream_record list \<Rightarrow> 's \<Rightarrow> redis_stream_record list \<times> (anyhow + unit)" where
  "redis_append_loop rd [] conn = ([], Inr ())"
| "redis_append_loop rd (record # records) conn = (case rd_xadd rd conn (rr_key record) (rr_fields record) of
       (conn', Inl e) \<Rightarrow> ([], Inl (Anyhow ''redis xadd failed''))
     | (conn', Inr _) \<Rightarrow> (case redis_append_loop rd records conn' of (sent, r) \<Rightarrow> (record # sent, r)))"

definition redis_stream_write_consumer :: "('c, 's) redis_client \<Rightarrow> redis_connection \<Rightarrow> (nanotime \<times> redis_stream_record list) list \<Rightarrow>
    redis_stream_record list \<times> (anyhow + unit)" where
  "redis_stream_write_consumer rd connection source = (case rd_open rd (rc_url connection) of
       Inl e \<Rightarrow> ([], Inl (Anyhow ''redis client open failed''))
     | Inr client \<Rightarrow> (case rd_connection rd client of
         Inl e \<Rightarrow> ([], Inl (Anyhow ''redis connect failed''))
       | Inr conn \<Rightarrow> redis_append_loop rd (concat (map snd source)) conn))"

definition redis_pub :: "('c, 's) redis_client \<Rightarrow> redis_connection \<Rightarrow> 'q \<Rightarrow> node \<Rightarrow> (redis_entry list, 'q) async_consumer_node" where
  "redis_pub rd connection c upstream = async_consumer_new c upstream (\<lambda>ctx source. snd (redis_pub_consumer rd connection source))"

definition redis_stream_write :: "('c, 's) redis_client \<Rightarrow> redis_connection \<Rightarrow> 'q \<Rightarrow> node \<Rightarrow> (redis_stream_record list, 'q) async_consumer_node" where
  "redis_stream_write rd connection c upstream =
     async_consumer_new c upstream (\<lambda>ctx source. snd (redis_stream_write_consumer rd connection source))"

section \<open>Lemmas\<close>

lemma redis_publish_written: "\<exists>rest. entries = fst (redis_publish_loop rd entries conn) @ rest \<and>
    (snd (redis_publish_loop rd entries conn) = Inr () \<longleftrightarrow> rest = [])"
proof (induction entries arbitrary: conn)
  case (Cons entry entries)
  obtain conn' r where p: "rd_publish rd conn (re_channel entry) (re_payload entry) = (conn', r)"
    by (cases "rd_publish rd conn (re_channel entry) (re_payload entry)")
  with Cons.IH[of conn'] show ?case by (cases r) (auto split: prod.splits)
qed simp

lemma redis_append_written: "\<exists>rest. records = fst (redis_append_loop rd records conn) @ rest \<and>
    (snd (redis_append_loop rd records conn) = Inr () \<longleftrightarrow> rest = [])"
proof (induction records arbitrary: conn)
  case (Cons r0 records)
  obtain conn' r where p: "rd_xadd rd conn (rr_key r0) (rr_fields r0) = (conn', r)"
    by (cases "rd_xadd rd conn (rr_key r0) (rr_fields r0)")
  with Cons.IH[of conn'] show ?case by (cases r) (auto split: prod.splits)
qed simp

text \<open>\<open>entries_after last_id log\<close>: the entries of the log behind the one with this identifier, all for \<^verbatim>\<open>0\<close>.\<close>

definition entries_after :: "bytes \<Rightarrow> stream_id list \<Rightarrow> stream_id list" where
  "entries_after last_id log = (if last_id = ascii ''0'' then log else tl (dropWhile (\<lambda>s. sid_id s \<noteq> last_id) log))"

definition last_id_of :: "stream_id list \<Rightarrow> bytes" where
  "last_id_of log = (if log = [] then ascii ''0'' else sid_id (last log))"

lemma after_last:
  assumes "distinct (map sid_id (log @ new))" "ascii ''0'' \<notin> sid_id ` set (log @ new)"
  shows "entries_after (last_id_of log) (log @ new) = new"
proof (cases log rule: rev_cases)
  case Nil
  then show ?thesis by (simp add: entries_after_def last_id_of_def)
next
  case (snoc log' s)
  have "sid_id t \<noteq> sid_id s" if "t \<in> set log'" for t using assms(1) snoc imageI[OF that, of sid_id] by auto
  then have "dropWhile (\<lambda>t. sid_id t \<noteq> sid_id s) (log' @ s # new) = s # new" by (subst dropWhile_append2) auto
  moreover have "sid_id s \<noteq> ascii ''0''" using assms(2) snoc by auto
  ultimately show ?thesis using snoc by (simp add: entries_after_def last_id_of_def)
qed

lemma tail_loop_exact:
  assumes "\<forall>k. \<exists>D. L (Suc k) = L k @ D" "distinct (map sid_id (L (i + n)))" "ascii ''0'' \<notin> sid_id ` set (L (i + n))"
    "\<forall>k last_id. ask k last_id = Inr [(key, entries_after last_id (L (Suc k)))]"
  shows "map (Inr \<circ> to_event key) (L i) @ tail_loop ask n i (last_id_of (L i)) = map (Inr \<circ> to_event key) (L (i + n))"
  using assms(2,3)
proof (induction n arbitrary: i)
  case (Suc n)
  have grow: "\<exists>D. L (k + m) = L k @ D" for k m
  proof (induction m)
    case (Suc m)
    then obtain D D' where "L (k + m) = L k @ D" "L (Suc (k + m)) = L (k + m) @ D'" using assms(1) by blast
    then show ?case by simp
  qed simp
  obtain D where D: "L (Suc i) = L i @ D" using assms(1) by blast
  obtain E where E: "L (i + Suc n) = L (Suc i) @ E" using grow[of "Suc i" n] by auto
  have "distinct (map sid_id (L (Suc i)))" "ascii ''0'' \<notin> sid_id ` set (L (Suc i))" using Suc.prems E by auto
  then have a: "entries_after (last_id_of (L i)) (L (Suc i)) = D" unfolding D by (rule after_last)
  have l: "(if D = [] then last_id_of (L i) else sid_id (last D)) = last_id_of (L (Suc i))" by (simp add: last_id_of_def D)
  have "tail_loop ask (Suc n) i (last_id_of (L i)) = map (Inr \<circ> to_event key) D @ tail_loop ask n (Suc i) (last_id_of (L (Suc i)))"
    using a l assms(4) by (auto simp: reply_entries_def Let_def last_map comp_def)
  then have "map (Inr \<circ> to_event key) (L i) @ tail_loop ask (Suc n) i (last_id_of (L i)) =
      map (Inr \<circ> to_event key) (L (Suc i)) @ tail_loop ask n (Suc i) (last_id_of (L (Suc i)))" by (simp only: D map_append append_assoc)
  with Suc.IH[of "Suc i"] Suc.prems show ?case by (simp only: add_Suc_right add_Suc not_False_eq_True simp_thms)
qed simp

text \<open>
  The events of a stream are its entries, each once and in order. The log grows from read to
  read (\<open>L 0\<close> is what the snapshot sees); the server answers a read by the entries behind the given
  identifier, and identifiers are distinct.
\<close>

lemma redis_stream_exactly_once:
  assumes calls: "rd_open rd (rc_url connection) = Inr client" "rd_connection rd client = Inr conn" "rd_xrange rd conn key = (conn', Inr (L 0))"
    and log: "\<forall>k. \<exists>D. L (Suc k) = L k @ D" "distinct (map sid_id (L n))" "ascii ''0'' \<notin> sid_id ` set (L n)"
      "\<forall>k last_id. ask conn' k last_id = Inr [(key, entries_after last_id (L (Suc k)))]"
  shows "redis_stream_read_func rd now ask n connection key ctx = Inr (stamp_items now (map (Inr \<circ> to_event key) (L n)))"
  using tail_loop_exact[of L 0 n "ask conn'" key] log calls by (simp add: redis_stream_read_func_def last_id_of_def Let_def)

end
