(* ===== verification/Spec2Isabelle.thy ===== *)
theory Spec2Isabelle
  imports Wiring Dynamic Engine Node_Table Fluent Demux Dynamic_Group Channels Time_Slices Fix_Nodes Aeron_Uri Aeron_Nodes
    Latency Statistics_Moments Graph_Node Kdb_Cached Kdb_Write Postgres Iceoryx2 Etcd Redis
begin

text \<open>
  Wingfoil, a stream-processing framework in Rust (the crate \<^verbatim>\<open>src/wingfoil\<close>): programs are graphs
  of nodes, and an engine cycles the nodes in layer order whenever a source or a timer wakes
  them, in real time or over historical data.

  \<^bold>\<open>How the parts fit together.\<close> \<^verbatim>\<open>Graph::new\<close> crawls the upstreams of the root nodes, gives every
  node an index and a layer above its upstreams, and refuses cycles. \<^verbatim>\<open>Graph::run\<close> sets up and
  starts the nodes, runs the loop and stops and tears down. A round of the loop takes the due
  callbacks from a time queue (or waits for them and for the ready channel, in real time), marks
  their nodes dirty, cycles the dirty nodes layer by layer, marks the active downstreams of every
  node that ticked, and finally applies the changes to the graph that nodes asked for. Nodes see
  the engine through \<^verbatim>\<open>GraphState\<close> only; the calls they make on it are the commands \<open>cmd\<close> here.

  \<^bold>\<open>Theories and sources\<close> (paths below \<^verbatim>\<open>src/wingfoil/src\<close>).
  \<^item> \<^verbatim>\<open>Prelude\<close>: machine integers, errors as values, lemma collections, loops, generic lemmas.
  \<^item> \<^verbatim>\<open>Nano_Time\<close>: \<^verbatim>\<open>time.rs\<close>. A 64-bit word, with \<^verbatim>\<open>Duration\<close> and the KDB epoch.
  \<^item> \<^verbatim>\<open>Time_Queue\<close>: \<^verbatim>\<open>queue/\<close>. The binary heap as its entries with the sequence counter; the locale
    \<open>timed_queue\<close> states its contract (a stable deduplicating list sorted by time) and its
    interpretation proves the refinement.
  \<^item> \<^verbatim>\<open>Graph_State\<close>: \<^verbatim>\<open>GraphState\<close>, \<^verbatim>\<open>RunMode\<close>, \<^verbatim>\<open>RunFor\<close> of \<^verbatim>\<open>graph.rs\<close>, \<^verbatim>\<open>trait Node\<close> of \<^verbatim>\<open>types.rs\<close>, and
    the invariants \<open>wf_graph\<close>, \<open>wf_dirty\<close>.
  \<^item> \<^verbatim>\<open>Wiring\<close>: \<^verbatim>\<open>initialise_node\<close>, \<^verbatim>\<open>initialise\<close>, \<^verbatim>\<open>Graph::new\<close>: the iterative crawl with its explicit
    stack returns, registers exactly the reachable nodes and reports a cycle iff there is one.
  \<^item> \<^verbatim>\<open>Dynamic\<close>: pending removals and additions and the repair of layers.
  \<^item> \<^verbatim>\<open>Engine\<close>: callbacks, the cycle, the phases and the run loop, over the locale \<open>node_contract\<close>
    (what the engine needs of nodes) and its extension \<open>static_contract\<close> (nodes that do not
    change the graph).
  \<^item> \<^verbatim>\<open>Operators\<close>, \<^verbatim>\<open>Timed_Nodes\<close>: \<^verbatim>\<open>nodes/\<close>. One record and one cycle function per node, closures
    as function fields, callbacks as commands.
  \<^item> \<^verbatim>\<open>Node_Table\<close>: the store of all node states and the dispatch of \<^verbatim>\<open>trait Node\<close> to them, which
    interprets \<open>static_contract\<close>; the theorems below on whole runs rest on it.
  \<^item> \<^verbatim>\<open>Fluent\<close>: the functions and methods of \<^verbatim>\<open>nodes/mod.rs\<close> that make nodes, as operations on a
    builder that holds the handles given out so far; \<open>built\<close> is the set of programs over them.
  \<^item> \<^verbatim>\<open>Demux\<close>, \<^verbatim>\<open>Dynamic_Group\<close>: \<^verbatim>\<open>nodes/demux.rs\<close>, \<^verbatim>\<open>nodes/dynamic_group.rs\<close>; the latter with the locale
    \<open>stream_store\<close> for the trait \<^verbatim>\<open>StreamStore\<close>, interpreted on both of its implementations.
  \<^item> \<^verbatim>\<open>Channels\<close>: \<^verbatim>\<open>channel/\<close>, \<^verbatim>\<open>nodes/channel.rs\<close>, \<^verbatim>\<open>nodes/receiver.rs\<close>, over the locale \<open>fifo_channel\<close> for
    the queue of the crate \<^verbatim>\<open>kanal\<close>, interpreted for every schedule of arrivals.
  \<^item> \<^verbatim>\<open>Async_Io\<close>, \<^verbatim>\<open>Graph_Node\<close>: \<^verbatim>\<open>nodes/async_io.rs\<close>, \<^verbatim>\<open>nodes/graph_node.rs\<close>, the nodes that own a tokio task or
    a thread with a graph of its own. A task is represented by what it has captured, the function it
    computes on the shared channel (locale \<open>async_channel\<close>, which extends \<open>fifo_channel\<close>) and, where a
    node asks for it, its outcome.
  \<^item> \<^verbatim>\<open>Time_Slices\<close>: \<^verbatim>\<open>adapters/common.rs\<close>, the query slices of the historical readers; \<^verbatim>\<open>Window_Reader\<close>: what
    follows for a reader that yields the rows of the slices.
  \<^item> \<^verbatim>\<open>File_Cache\<close>: \<^verbatim>\<open>adapters/cache/\<close>, over a folder each of whose calls can fail.
  \<^item> \<^verbatim>\<open>Kdb_Read\<close>, \<^verbatim>\<open>Kdb_Cached\<close>, \<^verbatim>\<open>Kdb_Write\<close>: \<^verbatim>\<open>adapters/kdb/\<close>. The values of the client crate are a type
    with the crate's functions on it, the server a function from queries to answers.
  \<^item> \<^verbatim>\<open>Postgres_Sql\<close>, \<^verbatim>\<open>Postgres\<close>: \<^verbatim>\<open>adapters/postgres/\<close>, the SQL texts and dates, and the reader, the
    subscription and the writer over a client that is a parameter.
  \<^item> \<^verbatim>\<open>Iceoryx2\<close>: \<^verbatim>\<open>adapters/iceoryx2/\<close>, subscribers, their polling thread and publishers over the calls of the
    crate, with the locale \<open>quiet_channel\<close> for a channel on which nothing more comes.
  \<^item> \<^verbatim>\<open>Etcd\<close>, \<^verbatim>\<open>Redis\<close>: \<^verbatim>\<open>adapters/etcd/\<close>, \<^verbatim>\<open>adapters/redis/\<close>, sources that yield a snapshot and then follow
    it, and their publishers.
  \<^item> \<^verbatim>\<open>Rust_Strings\<close>, \<^verbatim>\<open>Fix_Codec\<close>, \<^verbatim>\<open>Fix_Session\<close>, \<^verbatim>\<open>Fix_Nodes\<close>: \<^verbatim>\<open>adapters/fix/mod.rs\<close>, from bytes to the
    session thread.
  \<^item> \<^verbatim>\<open>Aeron_Transport\<close>, \<^verbatim>\<open>Aeron_Uri\<close>, \<^verbatim>\<open>Aeron_Nodes\<close>: \<^verbatim>\<open>adapters/aeron/\<close>, from the backend traits (locale
    \<open>counted_backend\<close>, interpreted on both backends) and the channel URIs to the subscriber nodes,
    the polling thread and the publisher.
  \<^item> \<^verbatim>\<open>Latency\<close>: \<^verbatim>\<open>latency.rs\<close>, stamps, stage statistics and the report node.
  \<^item> \<^verbatim>\<open>Float64\<close>, \<^verbatim>\<open>Statistics\<close>, \<^verbatim>\<open>Statistics_Windows\<close>, \<^verbatim>\<open>Statistics_Moments\<close>: \<^verbatim>\<open>adapters/statistics.rs\<close> over a
    model of binary64 whose rounding is an argument; the locale \<open>rounding\<close> states what the sums rely
    on and is interpreted on rounding to nearest and on exact arithmetic.

  \<^bold>\<open>What the theorems show.\<close> A pass of the engine cycles exactly the nodes it should, in layer
  order and once each; the clock of a historical run is strictly increasing, callbacks fire
  exactly when due, a run returns within its bounds, stops and tears down its nodes and reports the failures of
  its phases in order; wiring is correct from the
  declared upstreams on. The operators are shown equivalent to list functions or to their
  timing contracts. The FIX codec round-trips, framing does not depend on how the network cuts
  the stream, sequence numbers have no gaps, and messages are delivered once and in order.
  Slices partition the run window. A historical channel replays its producer exactly under every
  schedule of arrivals; a map node and the worker thread it feeds, run together under every schedule,
  proceed in lock-step and do not wait for each other; an
  asynchronous producer is replayed with its items grouped by time, up to the end of the run. On these
  rests a statement from end to end: a bounded read from KDB emits exactly the rows the server
  holds in the run's window, each at its time; whatever a server answers, no row leaves the window
  or the order of time; reading through a coherent cache makes no difference, and storing in the cache is
  atomic; the rows of a burst are transposed to columns exactly, or refused. The live tail of a PostgreSQL table misses
  and repeats no row, nor that of a Redis stream an entry, and the events of etcd mirror its store. A graph built by the modelled methods of the fluent interface runs without a panic. The Aeron
  subscribers deliver every value once and in order, with exactly the changes of the status; a
  channel URI reads back as the parameters it was built from. Latency reports hold exactly the
  count, sum and extremes of the stamped deltas. Minimum, maximum, sum, median and moments over a window are those
  of exactly the samples in the window: the order statistics for every rounding, sums of integers
  and medians in the arithmetic of the hardware, the moments and the moving average in exact
  arithmetic, which says nothing of the rounding errors they accumulate. Some theorems state flaws: a cycle closed at run time makes
  the layers of its nodes grow beyond every bound, a window can lose its last value, a new FIX logon does not
  renew subscriptions, messages that arrive with the end of the stream are lost, two channel
  messages with the same time race, so do the last burst and the error of an asynchronous
  producer, the cache does not tell two servers apart, a quoted password with a space is not masked, an iceoryx2 subscriber
  thread that fails is not noticed, a dynamic group can leak a stream, the threaded Aeron
  subscriber with a status can repeat a burst, and a NaN sample spoils the rolling minimum and sum.

  \<^bold>\<open>Conventions, bounds and parameters.\<close> \<open>None\<close> is a panic, or a loop that does not return; an error
  is \<open>Inl\<close> with the state it leaves. Integers keep their width and wrap, as in a release build.
  Loops are \<open>while_option\<close>, \<open>partial_function (option)\<close> or recursion over the inputs they consume,
  never cut off by fuel, so that a theorem that a loop returns is a theorem about the loop; the
  cycle counts in \<open>drive\<close> belong to a statement, with the number that is enough. Code outside the repository is a
  parameter: the clock readings and the messages of the ready channel (\<open>rt_input\<close>), the results
  of socket calls, the \<^verbatim>\<open>kanal\<close> queue, the order of a \<^verbatim>\<open>HashSet\<close> (\<open>pick\<close>, with \<open>picks\<close> as its documented property),
  user closures. \<^verbatim>\<open>usize\<close> indices and counters that count objects in memory are natural numbers. A
  capacity that the caller chooses and that no vector can have is a panic (\<open>vec_with_capacity\<close>, in \<open>buffer\<close> and
  the rolling sum); capacities fixed by the code or by data in memory, and the exhaustion of memory, are not.

  \<^bold>\<open>Not modelled.\<close> Logging, tracing and pretty-printing, and the rendered values in error messages; the
  scheduling of threads and tasks beyond what they exchange with their node; serialisation of
  messages; the adapters for external services other than FIX, Aeron, iceoryx2, KDB, PostgreSQL, etcd and Redis, whose work is done by
  client libraries, and how the server of KDB reads the text of a query; derive macros, language bindings, the benchmark
  harness and the wire types of the web adapter; the fluent methods that make threaded
  nodes. The two zeros of binary64 are one value.
\<close>

section \<open>A small graph\<close>

text \<open>
  Node 0 is a constant, node 1 maps it. \<open>small_world\<close> is that graph about to run historically
  from time 0; in \<open>small_cycle_world\<close> the constant is in line for a cycle.
\<close>

definition small_store :: store where
  "small_store = \<lparr>st_nodes = (\<lambda>n. if n = 0 then Constant \<lparr>co_value = VInt 5\<rparr>
       else MapOp \<lparr>mp_upstream = 0, mp_value = VUnit, mp_func = (\<lambda>v. VPair v v)\<rparr>),
     st_bursts = (\<lambda>_. []), st_cells = (\<lambda>_. feedback_new)\<rparr>"

definition small_world :: "store world" where
  "small_world = ((pair_graph 1)\<lparr>gs_run_mode := HistoricalFrom nano_zero\<rparr>, small_store)"

definition small_cycle_world :: "store world" where
  "small_cycle_world = ((fst small_world)\<lparr>node_dirty := [True, False], dirty_nodes_by_layer := [[0], []]\<rparr>, small_store)"

text \<open>The same with a ticker as source, and its first callback scheduled.\<close>

definition ticking_store :: store where
  "ticking_store = small_store\<lparr>st_nodes := (\<lambda>n. if n = 0 then Tick \<lparr>ti_interval = NanoTime 10, ti_at_time = None\<rparr>
       else MapOp \<lparr>mp_upstream = 0, mp_value = VUnit, mp_func = (\<lambda>v. VPair v v)\<rparr>)\<rparr>"

definition ticking_world :: "store world" where
  "ticking_world = ((fst small_world)\<lparr>scheduled_callbacks := tq_push (=) 0 nano_zero tq_new\<rparr>, ticking_store)"

definition no_input :: "nat \<Rightarrow> rt_input" where
  "no_input k = \<lparr>rt_arrived = [], rt_wait_clock = nano_zero, rt_received = None, rt_now = nano_zero,
     rt_wall = nano_zero\<rparr>"

abbreviation ticking_step :: "store run_state \<Rightarrow> store run_state" where
  "ticking_step \<equiv> run_step node_table (resolve_start_end nano_zero (fst ticking_world)) False no_input"

abbreviation ticking_start :: "store run_state" where
  "ticking_start \<equiv> run_start nano_zero ticking_world"

lemma small_world_ok: "world_ok table_inv small_world" "pending_additions (fst small_world) = []"
  "gs_run_mode (fst small_world) = HistoricalFrom nano_zero" "wiring_error (fst small_world) = None"
  by (auto simp: world_ok_def small_world_def small_store_def pair_graph_def graph_state_new_def wf_defs
      wf_dirty_def registry_ok_def table_inv_def tq_new_def less_Suc_eq nth_Cons' ran_def split: if_splits)

lemma small_cycle_world_ok: "world_ok table_inv small_cycle_world"
  by (auto simp: world_ok_def small_cycle_world_def small_world_def small_store_def pair_graph_def
      graph_state_new_def wf_defs wf_dirty_def registry_ok_def table_inv_def tq_new_def less_Suc_eq nth_Cons'
      ran_def split: if_splits)

lemma ticking_world_ok: "world_ok table_inv ticking_world" "pending_additions (fst ticking_world) = []"
  by (auto simp: world_ok_def ticking_world_def ticking_store_def small_world_def small_store_def pair_graph_def
      graph_state_new_def wf_defs wf_dirty_def registry_ok_def table_inv_def tq_push_def tq_new_def less_Suc_eq
      nth_Cons' ran_def split: if_splits)

lemma ticking_times:
  "gs_time (fst (rs_world ((ticking_step ^^ 1) ticking_start))) = NanoTime 0"
  "gs_time (fst (rs_world ((ticking_step ^^ 2) ticking_start))) = NanoTime 10"
  "gs_time (fst (rs_world ((ticking_step ^^ 0) ticking_start))) = NanoTime 0"
  by code_simp+

lemma ticking_runs:
  "rs_status ((ticking_step ^^ 0) ticking_start) = Running"
  "rs_status ((ticking_step ^^ 1) ticking_start) = Running"
  "rs_status ((ticking_step ^^ 2) ticking_start) = Running"
  by code_simp+


section \<open>Properties of the whole engine\<close>

lemma filter_dirty_concat:
  assumes "wf_graph gs" "wf_dirty gs"
  shows "distinct (concat (dirty_nodes_by_layer gs))"
    "sorted (map (layer_of gs) (concat (dirty_nodes_by_layer gs)))" "dirty_set gs \<subseteq> {..<length (nodes gs)}"
proof -
  have lay: "layer_of gs i = l" if "l < length (dirty_nodes_by_layer gs)" "i \<in> set (dirty_nodes_by_layer gs ! l)" for l i
    using assms(2) that by (auto simp: wf_dirty_def)
  show "distinct (concat (dirty_nodes_by_layer gs))"
    by (rule distinct_concat_layers[where f = "layer_of gs", OF lay]) (use assms(2) in \<open>auto simp: wf_dirty_def\<close>)
  show "sorted (map (layer_of gs) (concat (dirty_nodes_by_layer gs)))"
    by (rule sorted_wrt_concat_layers[where f = "layer_of gs", OF lay])
  show "dirty_set gs \<subseteq> {..<length (nodes gs)}"
  proof
    fix i assume "i \<in> dirty_set gs"
    then obtain l where "l < length (dirty_nodes_by_layer gs)" "i \<in> set (dirty_nodes_by_layer gs ! l)"
      by (auto simp: dirty_set_def in_set_conv_nth[of _ "dirty_nodes_by_layer gs"])
    with assms(2) show "i \<in> {..<length (nodes gs)}" by (auto simp: wf_dirty_def)
  qed
qed

lemma sorted_map_filter: "sorted (map f xs) \<Longrightarrow> sorted (map f (filter P xs))"
  by (induction xs) auto

text \<open>
  C1. One pass of the engine over a well-formed graph of library operators never panics and
  cycles nodes in topological order: the log of the pass (the nodes cycled, whether each
  ticked, and what else it marked) names no node twice, climbs the layers, and holds exactly
  the active nodes that were dirty at the beginning or were woken during the pass by a node
  that ticked.
\<close>
theorem engine_pass_exact:
  assumes "world_ok table_inv (gs, s)"
  shows "\<exists>gs' s' log r. cycle_layers (logged node_table) (gs, s, []) = Some ((gs', s', log), r) \<and>
    cycle_layers node_table (gs, s) = Some ((gs', s'), r) \<and>
    (r = Inr () \<longrightarrow> distinct (map fst log) \<and> sorted (map (layer_of gs) (map fst log)) \<and>
       set (map fst log) = {i. nd_active (nodes gs ! i) \<and> i \<in> dirty_set gs \<union> woken (nodes gs) log})"
proof -
  obtain gs' s' log r where c: "cycle_layers (logged node_table) (gs, s, []) = Some ((gs', s', log), r)"
    and ok: "world_ok table_inv (gs', s')" and n: "nodes gs' = nodes gs"
    and d: "r = Inr () \<longrightarrow> dirty_set gs' = dirty_set gs \<union> woken (nodes gs) log \<and>
       map fst log = filter (\<lambda>i. nd_active (nodes gs ! i)) (concat (dirty_nodes_by_layer gs'))"
    using tbl.cycle_layers_logged[OF assms] by blast
  have "cycle_layers node_table (gs, s) = Some ((gs', s'), r)"
    using forget_cycle_layers[of node_table "(gs, s, [])"] c by simp
  moreover have "distinct (map fst log) \<and> sorted (map (layer_of gs) (map fst log)) \<and>
       set (map fst log) = {i. nd_active (nodes gs ! i) \<and> i \<in> dirty_set gs \<union> woken (nodes gs) log}" if "r = Inr ()"
  proof -
    have wf: "wf_graph gs'" "wf_dirty gs'" using ok by (auto simp: world_ok_def)
    have lo: "layer_of gs' = layer_of gs" using n by (simp add: fun_eq_iff)
    from d that have l: "map fst log = filter (\<lambda>i. nd_active (nodes gs ! i)) (concat (dirty_nodes_by_layer gs'))"
      and ds: "dirty_set gs' = dirty_set gs \<union> woken (nodes gs) log" by blast+
    have "set (map fst log) = {i. nd_active (nodes gs ! i) \<and> i \<in> dirty_set gs'}"
      unfolding l dirty_set_def by auto
    moreover have "distinct (map fst log)" unfolding l using filter_dirty_concat(1)[OF wf] by (rule distinct_filter)
    moreover have "sorted (map (layer_of gs) (map fst log))"
      unfolding l using filter_dirty_concat(2)[OF wf] unfolding lo by (rule sorted_map_filter)
    ultimately show ?thesis unfolding ds by blast
  qed
  ultimately show ?thesis using c by blast
qed

theorem engine_pass_exact_witness:
  "\<exists>gs' s' log r. cycle_layers (logged node_table) (fst small_cycle_world, small_store, []) = Some ((gs', s', log), r) \<and>
    cycle_layers node_table (fst small_cycle_world, small_store) = Some ((gs', s'), r) \<and>
    (r = Inr () \<longrightarrow> distinct (map fst log) \<and> sorted (map (layer_of (fst small_cycle_world)) (map fst log)) \<and>
       set (map fst log) = {i. nd_active (nodes (fst small_cycle_world) ! i) \<and>
         i \<in> dirty_set (fst small_cycle_world) \<union> woken (nodes (fst small_cycle_world)) log})"
  by (rule engine_pass_exact) (use small_cycle_world_ok in \<open>simp add: small_cycle_world_def\<close>)

text \<open>
  C4. A historical run of a well-formed graph of library operators always returns and never
  panics, whatever the bound, and leaves the graph well formed.
\<close>
theorem historical_run_returns:
  assumes "world_ok table_inv w" "pending_additions (fst w) = []" "gs_run_mode (fst w) = HistoricalFrom t"
    "wiring_error (fst w) = None"
  shows "\<exists>w' r. run node_table now env w = Some (w', r) \<and> world_ok table_inv w'"
  using assms by (rule tbl.run_historical)

theorem historical_run_returns_witness:
  "\<exists>w' r. run node_table nano_zero no_input small_world = Some (w', r) \<and> world_ok table_inv w'"
  by (rule historical_run_returns) (rule small_world_ok)+

text \<open>
  C7. The run loop ends for one of three reasons: the cycle bound is reached (and never
  exceeded), nothing is scheduled any more, or a cycle flagged as the last has run at or after
  the end time; otherwise a node failed.
\<close>
theorem historical_loop_ends_at_bound:
  assumes "world_ok table_inv w" "pending_additions (fst w) = []" "gs_run_mode (fst w) = HistoricalFrom t"
  shows "\<exists>st. run_loop node_table now env w = Some st \<and>
    rs_cycles st \<le> rb_end_cycle (resolve_start_end now (fst w)) \<and>
    ((\<exists>e. rs_status st = Failed e) \<or>
     rs_status st = Finished \<and> (rs_cycles st = rb_end_cycle (resolve_start_end now (fst w)) \<or>
       \<not> has_work (fst (rs_world st)) \<or>
       is_last_cycle (fst (rs_world st)) \<and>
         rb_end_time (resolve_start_end now (fst w)) \<le> gs_time (fst (rs_world st))))"
proof -
  obtain st where st: "run_loop node_table now env w = Some st" "rs_status st \<noteq> Running"
    "run_inv table_inv (resolve_start_end now (fst w)) st"
    using tbl.run_loop_historical[OF assms] by blast
  then show ?thesis by (cases "rs_status st") (auto simp: run_inv_def)
qed

theorem historical_loop_ends_at_bound_witness:
  "\<exists>st. run_loop node_table nano_zero no_input small_world = Some st \<and>
    rs_cycles st \<le> rb_end_cycle (resolve_start_end nano_zero (fst small_world))"
  using historical_loop_ends_at_bound[OF small_world_ok(1-3), of nano_zero no_input] by blast

text \<open>
  C5. Engine time is strictly increasing: in a historical run the time of every cycle after
  the first is later than that of every cycle before it (as long as it has not reached the
  largest representable time).
\<close>
theorem historical_time_strictly_increases:
  assumes "run_inv table_inv rb st0"
    and "\<forall>k \<le> m. rs_status ((run_step node_table rb False env ^^ k) st0) = Running \<and>
      gs_time (fst (rs_world ((run_step node_table rb False env ^^ k) st0))) < nano_max"
    and "0 < i" "i < j" "j \<le> m"
  shows "gs_time (fst (rs_world ((run_step node_table rb False env ^^ i) st0)))
    < gs_time (fst (rs_world ((run_step node_table rb False env ^^ j) st0)))"
  by (rule tbl.run_steps_monotone[OF assms(1) _ _ assms(3-5)]) (use assms(2) in blast)+

theorem historical_time_strictly_increases_witness:
  "gs_time (fst (rs_world ((ticking_step ^^ 1) ticking_start))) < gs_time (fst (rs_world ((ticking_step ^^ 2) ticking_start)))"
proof -
  have "\<forall>k \<le> 2. rs_status ((ticking_step ^^ k) ticking_start) = Running \<and>
      gs_time (fst (rs_world ((ticking_step ^^ k) ticking_start))) < nano_max"
  proof (intro allI impI)
    fix k :: nat assume "k \<le> 2"
    then consider "k = 0" | "k = 1" | "k = 2" by linarith
    then show "rs_status ((ticking_step ^^ k) ticking_start) = Running \<and>
      gs_time (fst (rs_world ((ticking_step ^^ k) ticking_start))) < nano_max"
      using ticking_runs ticking_times by cases (simp_all only:, code_simp+)
  qed
  from historical_time_strictly_increases[OF tbl.run_start_ok[OF ticking_world_ok] this, of 1 2]
  show ?thesis by simp
qed

text \<open>
  C2. Wiring and running fit together: for a finite acyclic graph of library operators in
  their initial state (no feedback sender), \<open>Graph::new\<close> followed by \<open>run\<close> over a historical
  mode returns without a panic, the nodes of the graph are exactly those reachable from the
  roots, and every upstream that a node of the graph declares, active or passive, is in it.
\<close>
theorem wired_graph_runs:
  assumes "finite (reachable (upstream_pairs node_table s) roots)"
    "card (reachable (upstream_pairs node_table s) roots) < 2 ^ 31"
    "\<forall>u \<in> reachable (upstream_pairs node_table s) roots. (u, u) \<notin> (up_rel (upstream_pairs node_table s))\<^sup>+"
    "\<forall>n \<in> reachable (upstream_pairs node_table s) roots. fresh_op (st_nodes s n)"
  shows "\<exists>gs w' r. graph_new g now (upstream_pairs node_table s) roots (HistoricalFrom t) f = Some gs \<and>
    (\<forall>n. seen gs n \<longleftrightarrow> n \<in> reachable (upstream_pairs node_table s) roots) \<and>
    (\<forall>n u. seen gs n \<and> u \<in> set (fst (op_ups (st_nodes s n))) \<union> set (snd (op_ups (st_nodes s n))) \<longrightarrow> seen gs u) \<and>
    run node_table now env (gs, s) = Some (w', r) \<and> world_ok table_inv w'"
  by (rule wired_runs[OF assms])

lemma small_reach: "reachable (upstream_pairs node_table small_store) [1] = {0, 1}"
  "up_rel (upstream_pairs node_table small_store) \<subseteq> {(n, 0) | n. n \<noteq> 0}"
proof -
  have rel: "up_rel (upstream_pairs node_table small_store) = {(n, 0) | n. n \<noteq> 0}"
    by (auto simp: up_rel_def upstream_pairs_def node_table_def small_store_def split: if_splits)
  then show "up_rel (upstream_pairs node_table small_store) \<subseteq> {(n, 0) | n. n \<noteq> 0}" by simp
  have "(1, n) \<in> (up_rel (upstream_pairs node_table small_store))\<^sup>* \<Longrightarrow> n = 0 \<or> n = 1" for n
    by (induction rule: rtrancl_induct) (auto simp: rel)
  moreover have "(1, 0) \<in> (up_rel (upstream_pairs node_table small_store))\<^sup>*" by (rule r_into_rtrancl) (simp add: rel)
  ultimately show "reachable (upstream_pairs node_table small_store) [1] = {0, 1}" by (auto simp: reachable_def)
qed

theorem wired_graph_runs_witness:
  "\<exists>gs w' r. graph_new 0 nano_zero (upstream_pairs node_table small_store) [1] (HistoricalFrom nano_zero) Forever = Some gs \<and>
    (\<forall>n. seen gs n \<longleftrightarrow> n \<in> {0, 1}) \<and> run node_table nano_zero no_input (gs, small_store) = Some (w', r)"
proof -
  let ?ups = "upstream_pairs node_table small_store"
  have "(u, u) \<notin> (up_rel ?ups)\<^sup>+" for u
  proof
    assume "(u, u) \<in> (up_rel ?ups)\<^sup>+"
    then have "(u, u) \<in> {(n, 0) | n :: nat. n \<noteq> 0}\<^sup>+" using small_reach(2) by (rule trancl_mono)
    then have "u = 0" "u \<noteq> 0" by (auto elim: trancl.cases dest: tranclD)
    then show False by simp
  qed
  moreover have "fresh_op (st_nodes small_store n)" for n by (simp add: small_store_def)
  ultimately show ?thesis
    using wired_graph_runs[of small_store "[1]" 0 nano_zero nano_zero Forever no_input]
    unfolding small_reach(1) by auto
qed




text \<open>
  C8. Once \<open>setup\<close> has succeeded, \<open>run\<close> goes through \<open>stop\<close> and then \<open>teardown\<close>, whether the
  start and the run loop succeeded or not. Let \<open>stopped\<close> be what a successful \<open>stop\<close> of a node brings
  about and later calls do not undo, and \<open>torn_down\<close> the same for \<open>teardown\<close>. At the end every active
  node is stopped, or the stop of the node \<open>ix\<close> failed and the active nodes before it are stopped; and
  likewise for the teardown, which is tried even after a failed stop. \<open>run\<close> succeeds if start, loop,
  stop and teardown did; otherwise it reports the first failure in this order, with the later ones
  attached in this order.
\<close>
theorem run_cleans_up:
  assumes "run ops now env w = Some (w', r)" "wiring_error (fst w) = None" "setup_nodes ops w = Some (w1, Inr ())"
    and stop: "establishes (op_stop ops) stopped" "maintains (op_stop ops) stopped" "maintains (op_teardown ops) stopped"
    and teardown: "establishes (op_teardown ops) torn_down" "maintains (op_teardown ops) torn_down"
  shows "\<exists>w2 r2 w3 r3 r4 r5. start_nodes ops w1 = Some (w2, r2) \<and>
    (if isl r2 then w3 = w2 \<and> r3 = Inr () else run_nodes ops now env w2 = Some (w3, r3)) \<and>
    (let ns = nodes (fst w3); n = length ns; s = snd w' in
      (r4 = Inr () \<and> active_upto n stopped ns s \<or>
        (\<exists>ix e. r4 = Inl (ErrorDuring ''stop'' ix e) \<and> ix < n \<and> active_upto ix stopped ns s)) \<and>
      (r5 = Inr () \<and> active_upto n torn_down ns s \<or>
        (\<exists>ix e. r5 = Inl (ErrorDuring ''teardown'' ix e) \<and> ix < n \<and> active_upto ix torn_down ns s))) \<and>
    (filter isl [r2, r3, r4, r5] = [] \<longrightarrow> r = Inr ()) \<and>
    (\<forall>e es. filter isl [r2, r3, r4, r5] = map Inl (e # es) \<longrightarrow> r = Inl (if es = [] then e else ShutdownErrors e es))"
proof -
  obtain w2 r2 w3 r3 w4 r4 r5 where p: "start_nodes ops w1 = Some (w2, r2)"
    "if isl r2 then w3 = w2 \<and> r3 = Inr () else run_nodes ops now env w2 = Some (w3, r3)"
    "stop_nodes ops w3 = Some (w4, r4)" "teardown_nodes ops w4 = Some (w', r5)" "r = first_error [r2, r3, r4, r5]"
    by (rule run_phases[OF assms(1-3)])
  let ?ns = "nodes (fst w3)"
  have zero: "active_upto 0 P ns s" for P :: "node \<Rightarrow> 'a \<Rightarrow> bool" and ns s by (simp add: active_upto_def)
  note s = apply_nodes_reaches[OF p(3)[unfolded stop_nodes_def apply_nodes_def] stop(1,2) zero]
  note t = apply_nodes_reaches[OF p(4)[unfolded teardown_nodes_def apply_nodes_def] teardown zero]
  have keep: "active_upto k stopped ?ns (snd w')" if "active_upto k stopped ?ns (snd w4)" for k
    using that apply_nodes_keeps[OF p(4)[unfolded teardown_nodes_def] stop(3)] by (simp add: active_upto_def)
  have 4: "r4 = Inr () \<and> active_upto (length ?ns) stopped ?ns (snd w') \<or>
      (\<exists>ix e. r4 = Inl (ErrorDuring ''stop'' ix e) \<and> ix < length ?ns \<and> active_upto ix stopped ?ns (snd w'))"
    using s keep by (cases r4) auto
  have 5: "r5 = Inr () \<and> active_upto (length ?ns) torn_down ?ns (snd w') \<or>
      (\<exists>ix e. r5 = Inl (ErrorDuring ''teardown'' ix e) \<and> ix < length ?ns \<and> active_upto ix torn_down ?ns (snd w'))"
    using t s by (cases r5) auto
  show ?thesis
    unfolding p(5) Let_def
    using p(1,2) 4 5 first_error_cases by (intro exI conjI allI impI) assumption+
qed

lemma closing_ops_contract:
  "establishes (op_stop closing_ops) (\<lambda>n s. n \<in> set (fst s))" "maintains (op_stop closing_ops) (\<lambda>n s. n \<in> set (fst s))"
  "maintains (op_teardown closing_ops) (\<lambda>n s. n \<in> set (fst s))"
  "establishes (op_teardown closing_ops) (\<lambda>n s. n \<in> set (snd s))" "maintains (op_teardown closing_ops) (\<lambda>n s. n \<in> set (snd s))"
  by (auto simp: establishes_def maintains_def closing_ops_def)

lemma closing_run:
  fixes w defines "w \<equiv> (pair_graph 1, ([], []))"
  shows "\<exists>w'. run closing_ops nano_zero no_input w = Some (w', Inl (ShutdownErrors (ErrorDuring ''start'' 0 (Anyhow ''start''))
      [ErrorDuring ''teardown'' 0 (Anyhow ''teardown'')]))"
    and "setup_nodes closing_ops w = Some (w, Inr ())"
    and "\<exists>w2. start_nodes closing_ops w = Some (w2, Inl (ErrorDuring ''start'' 0 (Anyhow ''start''))) \<and> nodes (fst w2) = nodes (pair_graph 1)"
  by (simp_all add: run_def setup_nodes_def start_nodes_def stop_nodes_def teardown_nodes_def apply_nodes_def apply_node_def
      call_phase_def call_node_def map_err_def and_then_def closing_ops_def pair_graph_def graph_state_new_def upt_rec
      first_error_def List.map_filter_simps w_def)

theorem run_cleans_up_witness:
  "\<exists>w'. run closing_ops nano_zero no_input (pair_graph 1, ([], [])) =
     Some (w', Inl (ShutdownErrors (ErrorDuring ''start'' 0 (Anyhow ''start'')) [ErrorDuring ''teardown'' 0 (Anyhow ''teardown'')])) \<and>
    active_upto 2 (\<lambda>n s. n \<in> set (fst s)) (nodes (pair_graph 1)) (snd w')"
proof -
  let ?w = "(pair_graph 1, ([], []))" and ?e = "ErrorDuring ''start'' 0 (Anyhow ''start'')"
  obtain w' where run: "run closing_ops nano_zero no_input ?w = Some (w', Inl (ShutdownErrors ?e [ErrorDuring ''teardown'' 0 (Anyhow ''teardown'')]))"
    using closing_run(1) by blast
  obtain w2 where start: "start_nodes closing_ops ?w = Some (w2, Inl ?e)" "nodes (fst w2) = nodes (pair_graph 1)"
    using closing_run(3) by blast
  have ok: "wiring_error (fst ?w) = None" and two: "length (nodes (pair_graph 1)) = 2"
    by (simp_all add: pair_graph_def graph_state_new_def)
  from run_cleans_up[OF run ok closing_run(2) closing_ops_contract, unfolded Let_def sum.inject] show ?thesis
  proof (elim exE conjE)
    fix w2' r2 w3 r3 r4 r5
    assume t: "start_nodes closing_ops ?w = Some (w2', r2)"
      "if isl r2 then w3 = w2' \<and> r3 = Inr () else run_nodes closing_ops nano_zero no_input w2' = Some (w3, r3)"
      "r4 = Inr () \<and> active_upto (length (nodes (fst w3))) (\<lambda>n s. n \<in> set (fst s)) (nodes (fst w3)) (snd w') \<or>
        (\<exists>ix e. r4 = Inl (ErrorDuring ''stop'' ix e) \<and> ix < length (nodes (fst w3)) \<and>
          active_upto ix (\<lambda>n s. n \<in> set (fst s)) (nodes (fst w3)) (snd w'))"
      "\<forall>e es. filter isl [r2, r3, r4, r5] = map Inl (e # es) \<longrightarrow>
         ShutdownErrors ?e [ErrorDuring ''teardown'' 0 (Anyhow ''teardown'')] = (if es = [] then e else ShutdownErrors e es)"
    have eq: "w2' = w2" "r2 = Inl ?e" "w3 = w2" "r3 = Inr ()" using t(1,2) start(1) by simp_all
    have "\<nexists>ix e. r4 = Inl (ErrorDuring ''stop'' ix e)"
    proof (intro notI, elim exE)
      fix ix e assume "r4 = Inl (ErrorDuring ''stop'' ix e)"
      with t(4)[unfolded eq, rule_format, of ?e "ErrorDuring ''stop'' ix e # (case r5 of Inl e' \<Rightarrow> [e'] | Inr _ \<Rightarrow> [])"]
      show False by (cases r5) auto
    qed
    with t(3)[unfolded eq start(2) two] run show ?thesis by blast
  qed
qed

end
